(* ===== verification/Prelude.thy ===== *)
theory Prelude
  imports Complex_Main "HOL-Library.Monad_Syntax" "HOL-Library.Code_Target_Nat"
begin

text \<open>
  Shared material of the development: the checked machine arithmetic and the bounds-checked
  array accesses of the language the sources are written in, positional number values of digit
  lists, three-way comparison, and the lemmas about them that every component uses.

  A computation that may panic has an \<open>option\<close> type, \<open>None\<close> being the panic (an index out of
  range, an arithmetic overflow of a build with overflow checks, an explicit \<open>panic!\<close>).
  A theorem that says the result is \<open>Some\<close> therefore says that no intermediate step leaves the
  range of its machine type, and so also describes the build without overflow checks.
\<close>

named_theorems rust_simps "unfolding rules of the checked operations of the language"

section \<open>Checked arithmetic and array access\<close>

definition usub :: "nat \<Rightarrow> nat \<Rightarrow> nat option" where
  [rust_simps]: "usub a b = (if b \<le> a then Some (a - b) else None)"

definition uadd :: "nat \<Rightarrow> nat \<Rightarrow> nat \<Rightarrow> nat option" where
  [rust_simps]: "uadd w a b = (if a + b < 2 ^ w then Some (a + b) else None)"

definition umul :: "nat \<Rightarrow> nat \<Rightarrow> nat \<Rightarrow> nat option" where
  [rust_simps]: "umul w a b = (if a * b < 2 ^ w then Some (a * b) else None)"

text \<open>Signed \<open>w\<close>-bit values are integers in the two's complement range.\<close>

definition in_signed :: "nat \<Rightarrow> int \<Rightarrow> bool" where
  "in_signed w x \<longleftrightarrow> - (2 ^ (w - 1)) \<le> x \<and> x < 2 ^ (w - 1)"

definition scheck :: "nat \<Rightarrow> int \<Rightarrow> int option" where
  [rust_simps]: "scheck w x = (if in_signed w x then Some x else None)"

text \<open>Truncating casts: \<open>x as uN\<close> and \<open>x as iN\<close>.\<close>

definition as_unsigned :: "nat \<Rightarrow> int \<Rightarrow> nat" where
  "as_unsigned w x = nat (x mod 2 ^ w)"

definition as_signed :: "nat \<Rightarrow> int \<Rightarrow> int" where
  "as_signed w x = (x + 2 ^ (w - 1)) mod 2 ^ w - 2 ^ (w - 1)"

text \<open>Signed division and remainder truncate towards zero.\<close>

definition sdiv :: "int \<Rightarrow> int \<Rightarrow> int" where
  "sdiv a b = sgn a * sgn b * (\<bar>a\<bar> div \<bar>b\<bar>)"

definition srem :: "int \<Rightarrow> int \<Rightarrow> int" where
  "srem a b = sgn a * (\<bar>a\<bar> mod \<bar>b\<bar>)"

definition get_at :: "'a list \<Rightarrow> nat \<Rightarrow> 'a option" where
  [rust_simps]: "get_at xs i = (if i < length xs then Some (xs ! i) else None)"

definition set_at :: "'a list \<Rightarrow> nat \<Rightarrow> 'a \<Rightarrow> 'a list option" where
  [rust_simps]: "set_at xs i v = (if i < length xs then Some (xs[i := v]) else None)"

text \<open>A slice \<open>xs[i..j]\<close>.\<close>

definition slice_at :: "'a list \<Rightarrow> nat \<Rightarrow> nat \<Rightarrow> 'a list option" where
  [rust_simps]: "slice_at xs i j =
     (if i \<le> j \<and> j \<le> length xs then Some (take (j - i) (drop i xs)) else None)"

lemma usub_Suc [simp]: "usub (Suc n) (Suc 0) = Some n"
  by (simp add: usub_def)

lemma get_at_mid: "i = length p \<Longrightarrow> get_at (p @ x # q) i = Some x"
  by (simp add: get_at_def)

lemma set_at_mid: "i = length p \<Longrightarrow> set_at (p @ x # q) i v = Some (p @ v # q)"
  by (simp add: set_at_def)

lemma in_signed_as_signed: "0 < w \<Longrightarrow> in_signed w (as_signed w x)"
proof -
  assume "0 < w"
  then have "(2::int) ^ w = 2 * 2 ^ (w - 1)" by (cases w) auto
  moreover have "0 \<le> (x + 2 ^ (w - 1)) mod 2 ^ w" "(x + 2 ^ (w - 1)) mod 2 ^ w < 2 ^ w"
    by simp_all
  ultimately show ?thesis by (simp add: in_signed_def as_signed_def)
qed

lemma as_signed_id: "0 < w \<Longrightarrow> in_signed w x \<Longrightarrow> as_signed w x = x"
proof -
  assume "0 < w" and x: "in_signed w x"
  then have "(2::int) ^ w = 2 * 2 ^ (w - 1)" by (cases w) auto
  with x have "(x + 2 ^ (w - 1)) mod 2 ^ w = x + 2 ^ (w - 1)"
    by (simp add: in_signed_def)
  then show ?thesis by (simp add: as_signed_def)
qed

lemma sdiv_pos: "0 \<le> a \<Longrightarrow> 0 < b \<Longrightarrow> sdiv a b = a div b"
  by (auto simp: sdiv_def sgn_if)

section \<open>Positional values of digit lists\<close>

text \<open>
  \<open>bval b ws\<close> is the number written by the digits \<open>ws\<close>, most significant first, in base \<open>b\<close>;
  \<open>fval b ws\<close> reads the same digits behind the point.
\<close>

fun bval :: "nat \<Rightarrow> nat list \<Rightarrow> nat" where
  "bval b [] = 0"
| "bval b (w # ws) = w * b ^ length ws + bval b ws"

fun fval :: "nat \<Rightarrow> nat list \<Rightarrow> rat" where
  "fval b [] = 0"
| "fval b (w # ws) = (of_nat w + fval b ws) / of_nat b"

definition below :: "nat \<Rightarrow> nat list \<Rightarrow> bool" where
  "below b ws \<longleftrightarrow> (\<forall>w\<in>set ws. w < b)"

lemma below_simps [simp]:
  "below b []" "below b (w # ws) \<longleftrightarrow> w < b \<and> below b ws"
  "below b (xs @ ys) \<longleftrightarrow> below b xs \<and> below b ys"
  by (auto simp: below_def)

lemma below_take [intro]: "below b ws \<Longrightarrow> below b (take n ws)"
  by (auto simp: below_def dest: in_set_takeD)

lemma below_drop [intro]: "below b ws \<Longrightarrow> below b (drop n ws)"
  by (auto simp: below_def dest: in_set_dropD)

lemma below_replicate [simp]: "0 < b \<Longrightarrow> below b (replicate n 0)"
  by (auto simp: below_def)

lemma below_nth: "below b ws \<Longrightarrow> i < length ws \<Longrightarrow> ws ! i < b"
  by (auto simp: below_def)

lemma below_update: "below b ws \<Longrightarrow> v < b \<Longrightarrow> below b (ws[i := v])"
  using set_update_subset_insert[of ws i v] by (auto simp: below_def)

lemma bval_append: "bval b (xs @ ys) = bval b xs * b ^ length ys + bval b ys"
  by (induction xs) (simp_all add: power_add add_mult_distrib mult.assoc)

lemma bval_replicate_0 [simp]: "bval b (replicate n 0) = 0"
  by (induction n) auto

lemma bval_less: "below b ws \<Longrightarrow> bval b ws < b ^ length ws"
proof (induction ws)
  case (Cons w ws)
  then have "w + 1 \<le> b" and "bval b ws < b ^ length ws" by auto
  then have "w * b ^ length ws + bval b ws < (w + 1) * b ^ length ws" by simp
  also have "\<dots> \<le> b * b ^ length ws" using \<open>w + 1 \<le> b\<close> by (rule mult_le_mono1)
  finally show ?case by simp
qed simp

lemma bval_head_less:
  "below b ws \<Longrightarrow> bval b (w # ws) < (w + 1) * b ^ length ws"
  using bval_less[of b ws] by simp

lemma bval_zero_iff: "0 < b \<Longrightarrow> bval b ws = 0 \<longleftrightarrow> (\<forall>w\<in>set ws. w = 0)"
  by (induction ws) auto

lemma bval_inj:
  "below b xs \<Longrightarrow> below b ys \<Longrightarrow> length xs = length ys \<Longrightarrow> bval b xs = bval b ys \<Longrightarrow> xs = ys"
proof (induction xs arbitrary: ys)
  case (Cons x xs)
  from Cons.prems(3) obtain y zs where ys: "ys = y # zs" "length xs = length zs"
    by (cases ys) auto
  let ?B = "b ^ length zs"
  have bl: "below b xs" "below b zs" using Cons.prems ys by simp_all
  have lt: "bval b xs < ?B" "bval b zs < ?B"
    using bval_less[OF bl(1)] bval_less[OF bl(2)] ys(2) by simp_all
  have eq: "x * ?B + bval b xs = y * ?B + bval b zs" using Cons.prems ys by simp
  have B: "0 < ?B" using lt(1) by linarith
  have "x = (x * ?B + bval b xs) div ?B" using lt B by (simp add: div_add1_eq)
  also have "\<dots> = y" unfolding eq using lt B by (simp add: div_add1_eq)
  finally have "x = y" .
  with eq have "bval b xs = bval b zs" by simp
  with Cons.IH[OF bl ys(2)] \<open>x = y\<close> ys show ?case by simp
qed simp

lemma fval_append: "fval b (xs @ ys) = fval b xs + fval b ys / of_nat b ^ length xs"
  by (induction xs) (simp_all add: add_divide_distrib add.assoc mult.commute)

lemma fval_bval: "0 < b \<Longrightarrow> fval b ws * of_nat b ^ length ws = of_nat (bval b ws)"
proof (induction ws)
  case (Cons w ws)
  then have "fval b (w # ws) * of_nat b ^ length (w # ws) =
      (of_nat w + fval b ws) * of_nat b ^ length ws" by simp
  with Cons show ?case by (simp add: distrib_right)
qed simp

lemma bval_fval: "0 < b \<Longrightarrow> (of_nat (bval b ws) :: rat) = fval b ws * of_nat b ^ length ws"
  by (simp add: fval_bval)

lemma fval_nonneg: "0 \<le> fval b ws"
  by (induction ws) auto

lemma fval_less_1: "below b ws \<Longrightarrow> 0 < b \<Longrightarrow> fval b ws < 1"
proof -
  assume "below b ws" and b: "0 < b"
  then have "(of_nat (bval b ws) :: rat) < of_nat (b ^ length ws)"
    by (subst of_nat_less_iff) (rule bval_less)
  with b show ?thesis by (simp add: bval_fval)
qed

lemma fval_replicate_0 [simp]: "fval b (replicate n 0) = 0"
  by (induction n) auto

lemma fval_zero_iff: "0 < b \<Longrightarrow> fval b ws = 0 \<longleftrightarrow> (\<forall>w\<in>set ws. w = 0)"
  using fval_nonneg[of b] by (induction ws) (auto simp: add_nonneg_eq_0_iff)

lemma fval_Cons_less:
  assumes "below b (x # xs)" "0 < b" "x < y"
  shows "fval b (x # xs) < fval b (y # ys)"
proof -
  have "of_nat x + fval b xs < of_nat x + 1" using fval_less_1[of b xs] assms by simp
  also have "\<dots> \<le> of_nat y" using assms(3) by (metis Suc_leI of_nat_Suc of_nat_le_iff add.commute)
  also have "\<dots> \<le> of_nat y + fval b ys" using fval_nonneg[of b ys] by simp
  finally show ?thesis using assms(2) by (simp add: divide_strict_right_mono)
qed

section \<open>Three-way comparison\<close>

text \<open>The values of the comparison result type; the sources call it \<open>Partitioning\<close>.\<close>

datatype partitioning = Less | Equal | Greater

definition cmp_val :: "'a::linorder \<Rightarrow> 'a \<Rightarrow> partitioning" where
  "cmp_val x y = (if x < y then Less else if x = y then Equal else Greater)"

lemma cmp_val_simps [simp]:
  "cmp_val x y = Less \<longleftrightarrow> x < y" "cmp_val x y = Equal \<longleftrightarrow> x = y"
  "cmp_val x y = Greater \<longleftrightarrow> y < x"
  by (auto simp: cmp_val_def)

primrec flip :: "partitioning \<Rightarrow> partitioning" where
  "flip Less = Greater" | "flip Equal = Equal" | "flip Greater = Less"

text \<open>
  The contract every comparison operation of the value types promises: on admissible values it
  is the comparison of a key in a linear order, and it does not panic there. What \<open>Ord\<close> and
  \<open>Eq\<close> require of an implementation follows once, here.
\<close>

locale keyed_cmp =
  fixes ok :: "'a \<Rightarrow> bool"
    and key :: "'a \<Rightarrow> 'k::linorder"
    and compare :: "'a \<Rightarrow> 'a \<Rightarrow> partitioning option"
  assumes compare_key: "ok x \<Longrightarrow> ok y \<Longrightarrow> compare x y = Some (cmp_val (key x) (key y))"
begin

lemma total: "ok x \<Longrightarrow> ok y \<Longrightarrow> \<exists>c. compare x y = Some c"
  by (simp add: compare_key)

lemma refl: "ok x \<Longrightarrow> compare x x = Some Equal"
  by (simp add: compare_key)

lemma equal_iff: "ok x \<Longrightarrow> ok y \<Longrightarrow> compare x y = Some Equal \<longleftrightarrow> key x = key y"
  by (simp add: compare_key)

lemma flipped: "ok x \<Longrightarrow> ok y \<Longrightarrow> compare y x = map_option flip (compare x y)"
  by (auto simp: compare_key cmp_val_def)

lemma less_trans:
  "ok x \<Longrightarrow> ok y \<Longrightarrow> ok z \<Longrightarrow> compare x y = Some Less \<Longrightarrow> compare y z = Some Less \<Longrightarrow>
   compare x z = Some Less"
  by (simp add: compare_key)

lemma equal_subst:
  "ok x \<Longrightarrow> ok y \<Longrightarrow> ok z \<Longrightarrow> compare x y = Some Equal \<Longrightarrow> compare x z = compare y z"
  by (simp add: compare_key)

end

end
