(* ===== verification/Errors.thy ===== *)
theory Errors
  imports Prelude
begin

text \<open>
  The error type of the SQL value layer, \<open>src/berolinasql/src/error.rs\<close>: its variants, the
  constructors the other components call, the code every error carries and its conversion to
  the protocol error that a warning list holds. \<open>fresult\<close> is the \<open>Result\<close> of the sources.
\<close>

section \<open>Decimal text of numbers\<close>

text \<open>\<open>Display\<close> of the integer types, as \<open>format!\<close> uses it.\<close>

fun show_nat :: "nat \<Rightarrow> string" where
  "show_nat n =
     (if n < 10 then [char_of (48 + n)] else show_nat (n div 10) @ [char_of (48 + n mod 10)])"

declare show_nat.simps [simp del]

definition show_int :: "int \<Rightarrow> string" where
  "show_int i = (if i < 0 then ''-'' @ show_nat (nat (- i)) else show_nat (nat i))"

section \<open>The error type\<close>

text \<open>
  A boxed error is a formatted message of this program or the end-of-input error of the codec
  utility library, whose text is that library's.
\<close>

datatype boxed = Formatted string | Codec_unexpected_eof

datatype error =
    InvalidDataType string
  | Encoding nat
  | ColumnOffset nat
  | UnCausetLocaleNucleonSignature string
  | Eval string int
  | Other boxed

type_synonym 'a fresult = "error + 'a"

definition ERR_M_BIGGER_THAN_D :: int where "ERR_M_BIGGER_THAN_D = 1427"
definition ERR_UNCAUSET_LOCALE_NUCLEON :: int where "ERR_UNCAUSET_LOCALE_NUCLEON = 1105"
definition WARN_DATA_TRUNCATED :: int where "WARN_DATA_TRUNCATED = 1265"
definition ERR_TRUNCATE_WRONG_VALUE :: int where "ERR_TRUNCATE_WRONG_VALUE = 1292"
definition ERR_UNCAUSET_LOCALE_NUCLEON_TIMEZONE :: int where
  "ERR_UNCAUSET_LOCALE_NUCLEON_TIMEZONE = 1298"
definition ERR_DIVISION_BY_ZERO :: int where "ERR_DIVISION_BY_ZERO = 1365"
definition ERR_DATA_TOO_LONG :: int where "ERR_DATA_TOO_LONG = 1406"
definition ERR_DATA_OUT_OF_RANGE :: int where "ERR_DATA_OUT_OF_RANGE = 1690"

lemmas error_code_defs =
  ERR_M_BIGGER_THAN_D_def ERR_UNCAUSET_LOCALE_NUCLEON_def WARN_DATA_TRUNCATED_def
  ERR_TRUNCATE_WRONG_VALUE_def ERR_UNCAUSET_LOCALE_NUCLEON_TIMEZONE_def
  ERR_DIVISION_BY_ZERO_def ERR_DATA_TOO_LONG_def ERR_DATA_OUT_OF_RANGE_def

definition box_err :: "string \<Rightarrow> error" where
  "box_err msg = Other (Formatted msg)"

definition over_causetxctx :: "string \<Rightarrow> string \<Rightarrow> error" where
  "over_causetxctx data expr =
     Eval (data @ '' causet_locale is out of range in '' @ [CHR 0x27] @ expr @ [CHR 0x27])
       ERR_DATA_OUT_OF_RANGE"

definition truncated_wrong_val :: "string \<Rightarrow> string \<Rightarrow> error" where
  "truncated_wrong_val data_type val =
     Eval (''Truncated incorrect '' @ data_type @ '' causet_locale: '' @ [CHR 0x27] @ val @ [CHR 0x27])
       ERR_TRUNCATE_WRONG_VALUE"

definition truncated_error :: error where
  "truncated_error = Eval ''Data Truncated'' WARN_DATA_TRUNCATED"

definition m_bigger_than_d :: "string \<Rightarrow> error" where
  "m_bigger_than_d causet_merge =
     Eval (''For float(M,D), double(M,D) or decimal(M,D), M must be >= D (causet_merge '' @
       causet_merge @ [CHR 0x27] @ '').'') ERR_M_BIGGER_THAN_D"

definition invalid_timezone :: "string \<Rightarrow> error" where
  "invalid_timezone given =
     Eval (''unCausetLocaleNucleon or incorrect time zone: '' @ given)
       ERR_UNCAUSET_LOCALE_NUCLEON_TIMEZONE"

definition division_by_zero :: error where
  "division_by_zero = Eval ''Division by 0'' ERR_DIVISION_BY_ZERO"

definition data_too_long :: "string \<Rightarrow> error" where
  "data_too_long msg =
     (if msg = [] then Eval ''Data Too Long'' ERR_DATA_TOO_LONG else Eval msg ERR_DATA_TOO_LONG)"

definition unexpected_eof :: error where
  "unexpected_eof = Other Codec_unexpected_eof"

fun code :: "error \<Rightarrow> int" where
  "code (Eval _ c) = c"
| "code _ = ERR_UNCAUSET_LOCALE_NUCLEON"

definition is_over_causetxctx :: "error \<Rightarrow> bool" where
  "is_over_causetxctx e \<longleftrightarrow> code e = ERR_DATA_OUT_OF_RANGE"

text \<open>\<open>e?\<close> on a result, in a function that may panic.\<close>

definition try_res :: "'a fresult \<Rightarrow> ('a \<Rightarrow> 'b fresult option) \<Rightarrow> 'b fresult option" where
  "try_res r f = (case r of Inl e \<Rightarrow> Some (Inl e) | Inr x \<Rightarrow> f x)"

text \<open>\<open>From<Error> for einsteindbpb::Error\<close>: the code and the error whose text is the message.\<close>

record pb_error =
  pb_code :: int
  pb_msg_of :: error

definition into_pb :: "error \<Rightarrow> pb_error" where
  "into_pb e = \<lparr>pb_code = code e, pb_msg_of = e\<rparr>"

lemma code_simps [simp]:
  "code (over_causetxctx a b) = ERR_DATA_OUT_OF_RANGE"
  "code (truncated_wrong_val a b) = ERR_TRUNCATE_WRONG_VALUE"
  "code truncated_error = WARN_DATA_TRUNCATED"
  "code division_by_zero = ERR_DIVISION_BY_ZERO"
  "code (box_err m) = ERR_UNCAUSET_LOCALE_NUCLEON"
  by (simp_all add: over_causetxctx_def truncated_wrong_val_def truncated_error_def
      division_by_zero_def box_err_def)

lemma is_over_causetxctx_iff [simp]:
  "is_over_causetxctx (over_causetxctx a b)"
  "\<not> is_over_causetxctx (truncated_wrong_val a b)"
  "\<not> is_over_causetxctx truncated_error"
  by (simp_all add: is_over_causetxctx_def error_code_defs)

end
