(* ===== verification/Eval_Context.thy ===== *)
theory Eval_Context
  imports Errors "HOL-Library.Word"
begin

text \<open>
  The evaluation context of \<open>src/causetq/src/ctx.rs\<close>: the statement flags and SQL mode
  (bit sets in a \<open>u64\<close>), the bounded list of warnings, and the handlers that turn a truncation,
  an overflow, a division by zero or an invalid time into nothing, a warning or an error.
\<close>

unbundle bit_operations_syntax

section \<open>Flags and modes\<close>

type_synonym flags = "64 word"

definition STRICT_TRANS_TABLES :: flags where "STRICT_TRANS_TABLES = push_bit 22 1"
definition STRICT_ALL_TABLES :: flags where "STRICT_ALL_TABLES = push_bit 23 1"
definition NO_ZERO_IN_DATE :: flags where "NO_ZERO_IN_DATE = push_bit 24 1"
definition NO_ZERO_DATE :: flags where "NO_ZERO_DATE = push_bit 25 1"
definition INVALID_DATES :: flags where "INVALID_DATES = push_bit 26 1"
definition ERROR_FOR_DIVISION_BY_ZERO :: flags where
  "ERROR_FOR_DIVISION_BY_ZERO = push_bit 27 1"

definition IGNORE_TRUNCATE :: flags where "IGNORE_TRUNCATE = 1"
definition TRUNCATE_AS_WARNING :: flags where "TRUNCATE_AS_WARNING = push_bit 1 1"
definition PAD_CHAR_TO_FULL_LENGTH :: flags where "PAD_CHAR_TO_FULL_LENGTH = push_bit 2 1"
definition IN_INSERT_STMT :: flags where "IN_INSERT_STMT = push_bit 3 1"
definition IN_FIDelio_OR_DELETE_STMT :: flags where
  "IN_FIDelio_OR_DELETE_STMT = push_bit 4 1"
definition IN_SELECT_STMT :: flags where "IN_SELECT_STMT = push_bit 5 1"
definition OVERCausetxctx_AS_WARNING :: flags where
  "OVERCausetxctx_AS_WARNING = push_bit 6 1"
definition DIVIDED_BY_ZERO_AS_WARNING :: flags where
  "DIVIDED_BY_ZERO_AS_WARNING = push_bit 8 1"
definition IN_LOAD_DATA_STMT :: flags where "IN_LOAD_DATA_STMT = push_bit 10 1"

lemmas flag_defs =
  IGNORE_TRUNCATE_def TRUNCATE_AS_WARNING_def PAD_CHAR_TO_FULL_LENGTH_def IN_INSERT_STMT_def
  IN_FIDelio_OR_DELETE_STMT_def IN_SELECT_STMT_def OVERCausetxctx_AS_WARNING_def
  DIVIDED_BY_ZERO_AS_WARNING_def IN_LOAD_DATA_STMT_def

lemmas mode_defs =
  STRICT_TRANS_TABLES_def STRICT_ALL_TABLES_def NO_ZERO_IN_DATE_def NO_ZERO_DATE_def
  INVALID_DATES_def ERROR_FOR_DIVISION_BY_ZERO_def

text \<open>\<open>contains\<close> of a bit-flag set.\<close>

definition contains :: "flags \<Rightarrow> flags \<Rightarrow> bool" where
  "contains s f \<longleftrightarrow> s AND f = f"

definition is_strict :: "flags \<Rightarrow> bool" where
  "is_strict m \<longleftrightarrow> contains m STRICT_TRANS_TABLES \<or> contains m STRICT_ALL_TABLES"

section \<open>Configuration and warnings\<close>

definition DEFAULT_MAX_WARNING_CNT :: nat where "DEFAULT_MAX_WARNING_CNT = 64"

text \<open>The time zone is a value of the time library and only stored here.\<close>

record 'tz policy_gradient =
  tz :: 'tz
  flag :: flags
  cfg_max_warning_cnt :: nat
  berolina_sql_mode :: flags

definition new_policy :: "'tz \<Rightarrow> 'tz policy_gradient" where
  "new_policy utc = \<lparr>tz = utc, flag = 0, cfg_max_warning_cnt = DEFAULT_MAX_WARNING_CNT,
     berolina_sql_mode = 0\<rparr>"

definition set_max_warning_cnt :: "'tz policy_gradient \<Rightarrow> nat \<Rightarrow> 'tz policy_gradient" where
  "set_max_warning_cnt p n = p\<lparr>cfg_max_warning_cnt := n\<rparr>"

definition set_berolina_sql_mode :: "'tz policy_gradient \<Rightarrow> flags \<Rightarrow> 'tz policy_gradient" where
  "set_berolina_sql_mode p m = p\<lparr>berolina_sql_mode := m\<rparr>"

definition set_time_zone_by_name ::
    "(string \<Rightarrow> 'tz option) \<Rightarrow> 'tz policy_gradient \<Rightarrow> string \<Rightarrow> 'tz policy_gradient fresult" where
  "set_time_zone_by_name from_tz_name p name =
     (case from_tz_name name of
        Some z \<Rightarrow> Inr (p\<lparr>tz := z\<rparr>)
      | None \<Rightarrow> Inl (invalid_timezone name))"

definition set_time_zone_by_offset ::
    "(int \<Rightarrow> 'tz option) \<Rightarrow> 'tz policy_gradient \<Rightarrow> int \<Rightarrow> 'tz policy_gradient fresult" where
  "set_time_zone_by_offset from_offset p offset_sec =
     (case from_offset offset_sec of
        Some z \<Rightarrow> Inr (p\<lparr>tz := z\<rparr>)
      | None \<Rightarrow> Inl (invalid_timezone (''offset '' @ show_int offset_sec @ ''s'')))"

text \<open>
  \<open>set_flag\<close> first copies one flag of the new set into the old one and then overwrites the
  whole field, so the last assignment decides.
\<close>

definition set_flag :: "'tz policy_gradient \<Rightarrow> flags \<Rightarrow> 'tz policy_gradient" where
  "set_flag p f = p\<lparr>flag := f\<rparr>"

definition from_flag :: "'tz \<Rightarrow> flags \<Rightarrow> 'tz policy_gradient" where
  "from_flag utc f = set_flag (new_policy utc) f"

record eval_warnings =
  max_warning_cnt :: nat
  warning_cnt :: nat
  warnings_list :: "pb_error list"

definition new_eval_warnings :: "nat \<Rightarrow> eval_warnings" where
  "new_eval_warnings n = \<lparr>max_warning_cnt = n, warning_cnt = 0, warnings_list = []\<rparr>"

definition append_warning :: "error \<Rightarrow> eval_warnings \<Rightarrow> eval_warnings" where
  "append_warning err w =
     (let w = w\<lparr>warning_cnt := warning_cnt w + 1\<rparr> in
      if length (warnings_list w) < max_warning_cnt w
      then w\<lparr>warnings_list := warnings_list w @ [into_pb err]\<rparr> else w)"

text \<open>\<open>merge\<close> also empties (or cuts) the list it takes the warnings from.\<close>

definition merge_warnings :: "eval_warnings \<Rightarrow> eval_warnings \<Rightarrow> eval_warnings \<times> eval_warnings" where
  "merge_warnings w other =
     (let w = w\<lparr>warning_cnt := warning_cnt w + warning_cnt other\<rparr> in
      if length (warnings_list w) \<ge> max_warning_cnt w then (w, other)
      else let ws = take (max_warning_cnt w - length (warnings_list w)) (warnings_list other) in
        (w\<lparr>warnings_list := warnings_list w @ ws\<rparr>, other\<lparr>warnings_list := []\<rparr>))"

section \<open>The context and its handlers\<close>

record 'tz eval_context =
  braneg :: "'tz policy_gradient"
  warnings :: eval_warnings

definition new_eval_context :: "'tz policy_gradient \<Rightarrow> 'tz eval_context" where
  "new_eval_context p = \<lparr>braneg = p, warnings = new_eval_warnings (cfg_max_warning_cnt p)\<rparr>"

text \<open>A handler returns the result together with the context it leaves behind.\<close>

type_synonym ('tz, 'a) handler = "'tz eval_context \<Rightarrow> 'a fresult \<times> 'tz eval_context"

definition has_flag :: "'tz eval_context \<Rightarrow> flags \<Rightarrow> bool" where
  "has_flag ctx f = contains (flag (braneg ctx)) f"

definition warn :: "error \<Rightarrow> 'tz eval_context \<Rightarrow> 'tz eval_context" where
  "warn err ctx = ctx\<lparr>warnings := append_warning err (warnings ctx)\<rparr>"

definition handle_truncate_err :: "error \<Rightarrow> ('tz, unit) handler" where
  "handle_truncate_err err ctx =
     (if has_flag ctx IGNORE_TRUNCATE then (Inr (), ctx)
      else if has_flag ctx TRUNCATE_AS_WARNING then (Inr (), warn err ctx)
      else (Inl err, ctx))"

definition handle_truncate :: "bool \<Rightarrow> ('tz, unit) handler" where
  "handle_truncate is_truncated ctx =
     (if \<not> is_truncated then (Inr (), ctx) else handle_truncate_err truncated_error ctx)"

definition handle_overCausetxctx_err :: "error \<Rightarrow> ('tz, unit) handler" where
  "handle_overCausetxctx_err err ctx =
     (if has_flag ctx OVERCausetxctx_AS_WARNING then (Inr (), warn err ctx)
      else (Inl err, ctx))"

definition handle_division_by_zero :: "('tz, unit) handler" where
  "handle_division_by_zero ctx =
     (if (has_flag ctx IN_INSERT_STMT \<or> has_flag ctx IN_FIDelio_OR_DELETE_STMT) \<and>
         \<not> contains (berolina_sql_mode (braneg ctx)) ERROR_FOR_DIVISION_BY_ZERO
      then (Inr (), ctx)
      else if (has_flag ctx IN_INSERT_STMT \<or> has_flag ctx IN_FIDelio_OR_DELETE_STMT) \<and>
         is_strict (berolina_sql_mode (braneg ctx)) \<and> \<not> has_flag ctx DIVIDED_BY_ZERO_AS_WARNING
      then (Inl division_by_zero, ctx)
      else (Inr (), warn division_by_zero ctx))"

definition handle_invalid_time_error :: "error \<Rightarrow> ('tz, unit) handler" where
  "handle_invalid_time_error err ctx =
     (if is_strict (berolina_sql_mode (braneg ctx)) \<and>
         (has_flag ctx IN_INSERT_STMT \<or> has_flag ctx IN_FIDelio_OR_DELETE_STMT)
      then (Inl err, ctx)
      else (Inr (), warn err ctx))"

text \<open>The text of the bytes is the lossy UTF-8 decoding of the standard library, a parameter.\<close>

definition overCausetxctx_from_cast_str_as_int ::
    "('b list \<Rightarrow> string) \<Rightarrow> 'b list \<Rightarrow> error \<Rightarrow> bool \<Rightarrow> ('tz, int) handler" where
  "overCausetxctx_from_cast_str_as_int from_utf8_lossy bytes orig_err neg ctx =
     (if \<not> has_flag ctx IN_SELECT_STMT \<or> \<not> has_flag ctx OVERCausetxctx_AS_WARNING
      then (Inl orig_err, ctx)
      else (Inr (if neg then - (2 ^ 63) else as_signed 64 (2 ^ 64 - 1)),
            warn (truncated_wrong_val ''INTEGER'' (from_utf8_lossy bytes)) ctx))"

definition take_warnings :: "'tz eval_context \<Rightarrow> eval_warnings \<times> 'tz eval_context" where
  "take_warnings ctx =
     (warnings ctx,
      ctx\<lparr>warnings := new_eval_warnings (cfg_max_warning_cnt (braneg ctx))\<rparr>)"

definition should_clip_to_zero :: "'tz eval_context \<Rightarrow> bool" where
  "should_clip_to_zero ctx \<longleftrightarrow> has_flag ctx IN_INSERT_STMT \<or> has_flag ctx IN_LOAD_DATA_STMT"

section \<open>The warning list\<close>

text \<open>
  The invariant of the warning list: it never holds more than the configured number of
  warnings, and it holds every counted warning until that number is reached.
\<close>

text \<open>
  The flag says that the warnings are the rest of a merge, whose list went to another context and
  whose count stayed.
\<close>

definition warnings_ok :: "bool \<Rightarrow> eval_warnings \<Rightarrow> bool" where
  "warnings_ok drained w \<longleftrightarrow> length (warnings_list w) \<le> min (max_warning_cnt w) (warning_cnt w) \<and>
     (\<not> drained \<longrightarrow> length (warnings_list w) = min (max_warning_cnt w) (warning_cnt w))"

lemma warnings_ok_new: "warnings_ok b (new_eval_warnings n)"
  by (simp add: warnings_ok_def new_eval_warnings_def)

lemma warnings_ok_append: "warnings_ok b w \<Longrightarrow> warnings_ok b (append_warning e w)"
  by (auto simp: warnings_ok_def append_warning_def Let_def)

lemma append_warning_fields [simp]:
  "warning_cnt (append_warning e w) = warning_cnt w + 1"
  "max_warning_cnt (append_warning e w) = max_warning_cnt w"
  by (simp_all add: append_warning_def Let_def)

lemma append_warning_prefix:
  "\<exists>ws. warnings_list (append_warning e w) = warnings_list w @ ws"
  by (auto simp: append_warning_def Let_def)

lemma warnings_ok_merge:
  assumes "warnings_ok b w" "warnings_ok b' w'" "max_warning_cnt w = max_warning_cnt w'"
  shows "warnings_ok (b \<or> b') (fst (merge_warnings w w'))" "warnings_ok True (snd (merge_warnings w w'))"
  using assms by (auto simp: warnings_ok_def merge_warnings_def Let_def)

lemma braneg_warn [simp]: "braneg (warn e ctx) = braneg ctx"
  by (simp add: warn_def)

lemma has_flag_warn [simp]: "has_flag (warn e ctx) f = has_flag ctx f"
  by (simp add: has_flag_def)

text \<open>
  The contract the three error handlers share: a handler leaves the configuration alone, an
  error leaves the whole context alone, and a success records at most the warning for its error.
\<close>

locale err_handler =
  fixes handle :: "error \<Rightarrow> ('tz, unit) handler"
  assumes handle_cases:
    "handle e ctx = (Inr (), ctx) \<or> handle e ctx = (Inr (), warn e ctx) \<or>
     handle e ctx = (Inl e, ctx)"
begin

lemma keeps_config: "braneg (snd (handle e ctx)) = braneg ctx"
  using handle_cases[of e ctx] by auto

lemma error_is_given: "fst (handle e ctx) = Inl e' \<Longrightarrow> e' = e \<and> snd (handle e ctx) = ctx"
  using handle_cases[of e ctx] by auto

lemma keeps_warnings_ok:
  "warnings_ok b (warnings ctx) \<Longrightarrow> warnings_ok b (warnings (snd (handle e ctx)))"
  using handle_cases[of e ctx] warnings_ok_append[of b "warnings ctx" e] by (auto simp: warn_def)

lemma at_most_one_warning:
  "warning_cnt (warnings (snd (handle e ctx))) \<in>
     {warning_cnt (warnings ctx), warning_cnt (warnings ctx) + 1}"
  using handle_cases[of e ctx] by (auto simp: warn_def)

end

interpretation trunc_err: err_handler handle_truncate_err
  by unfold_locales (simp add: handle_truncate_err_def)

interpretation over_err: err_handler handle_overCausetxctx_err
  by unfold_locales (simp add: handle_overCausetxctx_err_def)

interpretation time_err: err_handler handle_invalid_time_error
  by unfold_locales (simp add: handle_invalid_time_error_def)

lemma handle_division_by_zero_cases:
  "handle_division_by_zero ctx = (Inr (), ctx) \<or>
   handle_division_by_zero ctx = (Inr (), warn division_by_zero ctx) \<or>
   handle_division_by_zero ctx = (Inl division_by_zero, ctx)"
  by (simp add: handle_division_by_zero_def)

section \<open>Contexts in use\<close>

text \<open>
  The contexts an evaluation can reach from a new one: any sequence of the operations that
  change a context. \<open>merge\<close> changes two of them, which have the same configuration: the one that
  takes the warnings and the one they are taken from, whose list is emptied while its count stays.
  The flag marks the contexts with such an emptied one in their history; taking all warnings resets
  it together with the count.
\<close>

inductive ctx_reachable :: "'tz policy_gradient \<Rightarrow> bool \<Rightarrow> 'tz eval_context \<Rightarrow> bool" for p where
  init: "ctx_reachable p False (new_eval_context p)"
| truncate_err: "ctx_reachable p b c \<Longrightarrow> ctx_reachable p b (snd (handle_truncate_err e c))"
| truncate: "ctx_reachable p b c \<Longrightarrow> ctx_reachable p b (snd (handle_truncate t c))"
| over_err: "ctx_reachable p b c \<Longrightarrow> ctx_reachable p b (snd (handle_overCausetxctx_err e c))"
| div_zero: "ctx_reachable p b c \<Longrightarrow> ctx_reachable p b (snd (handle_division_by_zero c))"
| time_err: "ctx_reachable p b c \<Longrightarrow> ctx_reachable p b (snd (handle_invalid_time_error e c))"
| cast_str: "ctx_reachable p b c \<Longrightarrow>
    ctx_reachable p b (snd (overCausetxctx_from_cast_str_as_int lossy (bs :: nat list) e neg c))"
| take_all: "ctx_reachable p b c \<Longrightarrow> ctx_reachable p False (snd (take_warnings c))"
| merge: "ctx_reachable p b c \<Longrightarrow> ctx_reachable p b' c' \<Longrightarrow>
    ctx_reachable p (b \<or> b') (c\<lparr>warnings := fst (merge_warnings (warnings c) (warnings c'))\<rparr>)"
| merged_from: "ctx_reachable p b c \<Longrightarrow> ctx_reachable p b' c' \<Longrightarrow>
    ctx_reachable p True (c'\<lparr>warnings := snd (merge_warnings (warnings c) (warnings c'))\<rparr>)"

definition ctx_ok :: "'tz policy_gradient \<Rightarrow> bool \<Rightarrow> 'tz eval_context \<Rightarrow> bool" where
  "ctx_ok p b c \<longleftrightarrow> braneg c = p \<and> warnings_ok b (warnings c) \<and>
     max_warning_cnt (warnings c) = cfg_max_warning_cnt p"

lemma ctx_ok_warn: "ctx_ok p b c \<Longrightarrow> ctx_ok p b (warn e c)"
  by (simp add: ctx_ok_def warn_def warnings_ok_append)

lemma ctx_ok_handlers:
  assumes "ctx_ok p b c"
  shows "ctx_ok p b (snd (handle_truncate_err e c))" "ctx_ok p b (snd (handle_truncate t c))"
    "ctx_ok p b (snd (handle_overCausetxctx_err e c))" "ctx_ok p b (snd (handle_division_by_zero c))"
    "ctx_ok p b (snd (handle_invalid_time_error e c))"
    "ctx_ok p b (snd (overCausetxctx_from_cast_str_as_int lossy bs e neg c))"
  using assms
  by (simp_all add: handle_truncate_err_def handle_truncate_def handle_overCausetxctx_err_def
      handle_division_by_zero_def handle_invalid_time_error_def
      overCausetxctx_from_cast_str_as_int_def ctx_ok_warn)

lemma merge_max [simp]:
  "max_warning_cnt (fst (merge_warnings w w')) = max_warning_cnt w"
  "max_warning_cnt (snd (merge_warnings w w')) = max_warning_cnt w'"
  by (simp_all add: merge_warnings_def Let_def)

lemma ctx_ok_merge:
  assumes "ctx_ok p b c" "ctx_ok p b' c'"
  shows "ctx_ok p (b \<or> b') (c\<lparr>warnings := fst (merge_warnings (warnings c) (warnings c'))\<rparr>)"
    "ctx_ok p True (c'\<lparr>warnings := snd (merge_warnings (warnings c) (warnings c'))\<rparr>)"
  using assms warnings_ok_merge[of b "warnings c" b' "warnings c'"] by (simp_all add: ctx_ok_def)

lemma ctx_reachable_ok: "ctx_reachable p b c \<Longrightarrow> ctx_ok p b c"
proof (induction rule: ctx_reachable.induct)
  case init
  then show ?case by (simp add: ctx_ok_def new_eval_context_def warnings_ok_new)
      (simp add: new_eval_warnings_def)
next
  case (take_all b c)
  then show ?case by (simp add: ctx_ok_def take_warnings_def warnings_ok_new)
      (simp add: new_eval_warnings_def)
qed (simp_all add: ctx_ok_handlers ctx_ok_merge)

section \<open>Properties\<close>

text \<open>
  C37: in every context an evaluation can reach, on either side of any merges, the configuration is
  the initial one and the warning list holds no more than the configured number of warnings and no
  more than were counted. In a context that has not given its list away in a merge, nor merged
  with one that had, no counted warning is missing from the list until the configured number is
  reached.
\<close>

theorem ctx_invariant:
  assumes "ctx_reachable p drained c"
  shows "braneg c = p \<and>
    length (warnings_list (warnings c)) \<le> min (cfg_max_warning_cnt p) (warning_cnt (warnings c)) \<and>
    (\<not> drained \<longrightarrow>
       length (warnings_list (warnings c)) = min (cfg_max_warning_cnt p) (warning_cnt (warnings c)))"
  using ctx_reachable_ok[OF assms] by (auto simp: ctx_ok_def warnings_ok_def)

theorem ctx_invariant_witness:
  fixes p :: "unit policy_gradient"
  defines "p \<equiv> set_flag (new_policy ()) TRUNCATE_AS_WARNING"
  defines "c \<equiv> snd (handle_truncate True (snd (handle_division_by_zero (new_eval_context p))))"
  shows "ctx_reachable p False c \<and> braneg c = p \<and> warning_cnt (warnings c) = 2 \<and>
    length (warnings_list (warnings c)) = 2"
proof -
  have r: "ctx_reachable p False c" unfolding c_def by (intro ctx_reachable.intros)
  have b: "cfg_max_warning_cnt p = 64" "berolina_sql_mode p = 0" "flag p = TRUNCATE_AS_WARNING"
    by (simp_all add: p_def set_flag_def new_policy_def DEFAULT_MAX_WARNING_CNT_def)
  have "warning_cnt (warnings c) = 2"
    by (simp add: c_def handle_truncate_def handle_truncate_err_def handle_division_by_zero_def has_flag_def b
        new_eval_context_def new_eval_warnings_def warn_def contains_def flag_defs append_warning_def)
  with ctx_invariant[OF r] r b show ?thesis by auto
qed

text \<open>
  The severity of a truncation is decided by the statement flags alone: \<open>IGNORE_TRUNCATE\<close>
  makes it vanish, otherwise \<open>TRUNCATE_AS_WARNING\<close> turns it into exactly one warning, otherwise
  it is returned as an error and the context is unchanged. A value that is not truncated never
  changes the context.
\<close>

theorem handle_truncate_severity:
  "handle_truncate b c =
    (if b
     then (if contains (flag (braneg c)) IGNORE_TRUNCATE then (Inr (), c)
           else if contains (flag (braneg c)) TRUNCATE_AS_WARNING
           then (Inr (), c\<lparr>warnings := append_warning truncated_error (warnings c)\<rparr>)
           else (Inl truncated_error, c))
     else (Inr (), c))"
  by (simp add: handle_truncate_def handle_truncate_err_def has_flag_def warn_def)

text \<open>
  A division by zero is an error exactly in a data-changing statement whose mode has
  \<open>ERROR_FOR_DIVISION_BY_ZERO\<close>, is strict, and whose flags do not ask for a warning; the error
  leaves the context unchanged and carries the division code. It is silent exactly in a
  data-changing statement without that mode, and one more counted warning in all other cases.
\<close>

theorem division_by_zero_severity:
  fixes c :: "'tz eval_context"
  defines "chg \<equiv> has_flag c IN_INSERT_STMT \<or> has_flag c IN_FIDelio_OR_DELETE_STMT"
    and "m \<equiv> berolina_sql_mode (braneg c)"
  shows "((\<exists>e. fst (handle_division_by_zero c) = Inl e \<and> code e = ERR_DIVISION_BY_ZERO \<and>
        snd (handle_division_by_zero c) = c) =
      (chg \<and> contains m ERROR_FOR_DIVISION_BY_ZERO \<and> is_strict m \<and>
        \<not> has_flag c DIVIDED_BY_ZERO_AS_WARNING)) \<and>
    ((warning_cnt (warnings (snd (handle_division_by_zero c))) = warning_cnt (warnings c) + 1) =
      (\<not> (chg \<and> \<not> contains m ERROR_FOR_DIVISION_BY_ZERO) \<and>
       \<not> (chg \<and> is_strict m \<and> \<not> has_flag c DIVIDED_BY_ZERO_AS_WARNING)))"
  unfolding chg_def m_def
  by (auto simp: handle_division_by_zero_def warn_def)

end
