(* ===== verification/Decimal_Base.thy ===== *)
theory Decimal_Base
  imports Errors
begin

text \<open>
  The decimal type of \<open>src/berolinasql/src/decimal.rs\<close>: its constants, the \<open>Res\<close> result type,
  the \<open>Decimal\<close> struct, the digit and word helpers, the rational number a decimal denotes and
  the well-formedness invariant of its fields.

  A decimal keeps its digits in nine base \<open>10^9\<close> words: first the words of the integer part,
  then those of the fraction, each part rounded up to whole words. \<open>u8\<close> and \<open>u32\<close> values are
  natural numbers; an operation whose operands could leave the range is a checked one.
\<close>

section \<open>Constants\<close>

definition WORD_BUF_LEN :: nat where [simp]: "WORD_BUF_LEN = 9"
definition DIGITS_PER_WORD :: nat where [simp]: "DIGITS_PER_WORD = 9"
definition WORD_SIZE :: nat where [simp]: "WORD_SIZE = 4"
definition DIG_MASK :: nat where "DIG_MASK = 100000000"
definition WORD_BASE :: nat where "WORD_BASE = 1000000000"
definition WORD_MAX :: nat where "WORD_MAX = WORD_BASE - 1"
definition MAX_FRACTION :: nat where [simp]: "MAX_FRACTION = 30"
definition DEFAULT_DIV_FRAC_INCR :: nat where [simp]: "DEFAULT_DIV_FRAC_INCR = 4"
definition NOT_FIXED_DEC :: nat where [simp]: "NOT_FIXED_DEC = 31"
definition DIG_2_BYTES :: "nat list" where
  "DIG_2_BYTES = [0, 1, 1, 2, 2, 3, 3, 4, 4, 4]"
definition FRAC_MAX :: "nat list" where
  "FRAC_MAX = [900000000, 990000000, 999000000, 999900000, 999990000, 999999000,
     999999900, 999999990]"

text \<open>
  The table \<open>TEN_POW\<close> of the powers of ten that fit a \<open>u32\<close>. The files use it, and none of the
  repository defines it; the entries are those its name and its uses ask for.
\<close>

definition TEN_POW :: "nat list" where
  "TEN_POW = [1, 10, 100, 1000, 10000, 100000, 1000000, 10000000, 100000000, 1000000000]"

section \<open>Result type\<close>

datatype 'a res = Ok 'a | Truncated 'a | OverCausetxctx 'a

primrec res_map :: "('a \<Rightarrow> 'b) \<Rightarrow> 'a res \<Rightarrow> 'b res" where
  "res_map f (Ok t) = Ok (f t)"
| "res_map f (Truncated t) = Truncated (f t)"
| "res_map f (OverCausetxctx t) = OverCausetxctx (f t)"

text \<open>\<open>Deref\<close> and \<open>unwrap\<close> of \<open>Res\<close>: the payload, whatever the tag.\<close>

primrec deref :: "'a res \<Rightarrow> 'a" where
  "deref (Ok t) = t"
| "deref (Truncated t) = t"
| "deref (OverCausetxctx t) = t"

primrec is_ok :: "'a res \<Rightarrow> bool" where
  "is_ok (Ok t) = True" | "is_ok (Truncated t) = False" | "is_ok (OverCausetxctx t) = False"

primrec is_truncated :: "'a res \<Rightarrow> bool" where
  "is_truncated (Ok t) = False" | "is_truncated (Truncated t) = True"
| "is_truncated (OverCausetxctx t) = False"

primrec is_overCausetxctx :: "'a res \<Rightarrow> bool" where
  "is_overCausetxctx (Ok t) = False" | "is_overCausetxctx (Truncated t) = False"
| "is_overCausetxctx (OverCausetxctx t) = True"

lemma deref_res_map [simp]: "deref (res_map f r) = f (deref r)"
  by (cases r) simp_all

lemma res_map_tags [simp]:
  "is_ok (res_map f r) = is_ok r" "is_truncated (res_map f r) = is_truncated r"
  "is_overCausetxctx (res_map f r) = is_overCausetxctx r"
  by (cases r; simp)+

section \<open>The struct\<close>

record decimal =
  int_cnt :: nat
  frac_cnt :: nat
  result_frac_cnt :: nat
  negative :: bool
  word_buf :: "nat list"

definition new_dec :: "nat \<Rightarrow> nat \<Rightarrow> bool \<Rightarrow> decimal" where
  "new_dec ic fc neg =
     \<lparr>int_cnt = ic, frac_cnt = fc, result_frac_cnt = 0, negative = neg,
      word_buf = replicate 9 0\<rparr>"

definition zero_dec :: decimal where
  "zero_dec = new_dec 1 0 False"

definition abs_dec :: "decimal \<Rightarrow> decimal res" where
  "abs_dec d = Ok (d\<lparr>negative := False\<rparr>)"

section \<open>Word and digit helpers\<close>

text \<open>The macro \<open>word_cnt!\<close> on a length that is not negative.\<close>

definition word_cnt :: "nat \<Rightarrow> nat" where
  "word_cnt len =
     (if len > DIGITS_PER_WORD * WORD_BUF_LEN then WORD_BUF_LEN + 1
      else (len + DIGITS_PER_WORD - 1) div DIGITS_PER_WORD)"

text \<open>\<open>while TEN_POW[i] > word { i -= 1; c += 1 }\<close>; going below index 0 panics.\<close>

fun count_leading_zeroes :: "nat \<Rightarrow> nat \<Rightarrow> nat option" where
  "count_leading_zeroes i word = do {
     p \<leftarrow> get_at TEN_POW i;
     if p > word
     then (case i of 0 \<Rightarrow> None | Suc j \<Rightarrow> map_option Suc (count_leading_zeroes j word))
     else Some 0 }"

function count_trailing_zeroes :: "nat \<Rightarrow> nat \<Rightarrow> nat option" where
  "count_trailing_zeroes i word =
     (if i < length TEN_POW
      then (if word mod (TEN_POW ! i) = 0
            then map_option Suc (count_trailing_zeroes (Suc i) word) else Some 0)
      else None)"
  by pat_completeness auto
termination
  by (relation "measure (\<lambda>(i, word). length TEN_POW - i)") auto

declare count_leading_zeroes.simps [simp del] count_trailing_zeroes.simps [simp del]

text \<open>\<open>add\<close>: the sum word and the new carry.\<close>

definition add_word :: "nat \<Rightarrow> nat \<Rightarrow> nat \<Rightarrow> (nat \<times> nat) option" where
  "add_word a b carry = do {
     s \<leftarrow> uadd 32 a b;
     s \<leftarrow> uadd 32 s carry;
     Some (if s \<ge> WORD_BASE then (s - WORD_BASE, 1) else (s, 0)) }"

text \<open>\<open>sub\<close>: the difference word and the new carry, computed on \<open>i32\<close> values.\<close>

definition sub_word :: "nat \<Rightarrow> nat \<Rightarrow> int \<Rightarrow> (nat \<times> int) option" where
  "sub_word lhs rhs carry = do {
     diff \<leftarrow> scheck 32 (as_signed 32 (int lhs) - as_signed 32 (int rhs));
     diff \<leftarrow> scheck 32 (diff - carry);
     Some (if diff < 0 then (as_unsigned 32 (diff + int WORD_BASE), 1)
           else (as_unsigned 32 diff, 0)) }"

text \<open>\<open>sub2\<close>: as \<open>sub\<close>, but the new carry may be 2.\<close>

definition sub2_word :: "nat \<Rightarrow> nat \<Rightarrow> int \<Rightarrow> (nat \<times> int) option" where
  "sub2_word lhs rhs carry = do {
     diff \<leftarrow> scheck 32 (as_signed 32 (int lhs) - as_signed 32 (int rhs));
     diff \<leftarrow> scheck 32 (diff - carry);
     Some (if diff < - int WORD_BASE
           then (as_unsigned 32 (diff + int WORD_BASE + int WORD_BASE), 2)
           else if diff < 0 then (as_unsigned 32 (diff + int WORD_BASE), 1)
           else (as_unsigned 32 diff, 0)) }"

definition fix_word_cnt_err :: "nat \<Rightarrow> nat \<Rightarrow> nat \<Rightarrow> (nat \<times> nat) res" where
  "fix_word_cnt_err int_word_cnt frac_word_cnt word_buf_len =
     (if int_word_cnt + frac_word_cnt > word_buf_len
      then (if int_word_cnt > word_buf_len then OverCausetxctx (word_buf_len, 0)
            else Truncated (int_word_cnt, word_buf_len - int_word_cnt))
      else Ok (int_word_cnt, frac_word_cnt))"

text \<open>The loop of \<open>remove_leading_zeroes\<close>: \<open>cnt\<close> digits are left, \<open>i\<close> of them in the current word.\<close>

function skip_zero_words :: "nat list \<Rightarrow> nat \<Rightarrow> nat \<Rightarrow> nat \<Rightarrow> (nat \<times> nat) option" where
  "skip_zero_words buf cnt i word_idx =
     (if cnt > 0
      then (if word_idx < length buf
            then (if buf ! word_idx = 0
                  then do { cnt \<leftarrow> usub cnt i; skip_zero_words buf cnt DIGITS_PER_WORD (Suc word_idx) }
                  else Some (cnt, word_idx))
            else None)
      else Some (cnt, word_idx))"
  by pat_completeness auto
termination
  by (relation "measure (\<lambda>(buf, cnt, i, word_idx). length buf - word_idx)") auto

declare skip_zero_words.simps [simp del]

definition remove_leading_zeroes :: "decimal \<Rightarrow> nat \<Rightarrow> (nat \<times> nat) option" where
  "remove_leading_zeroes d prec = do {
     i \<leftarrow> uadd 8 prec (DIGITS_PER_WORD - 1);
     (cnt, word_idx) \<leftarrow> skip_zero_words (word_buf d) prec (i mod DIGITS_PER_WORD + 1) 0;
     if cnt > 0
     then do {
       w \<leftarrow> get_at (word_buf d) word_idx;
       z \<leftarrow> count_leading_zeroes ((cnt - 1) mod DIGITS_PER_WORD) w;
       cnt \<leftarrow> usub cnt z;
       Some (word_idx, cnt) }
     else Some (word_idx, cnt) }"

definition prec_and_frac :: "decimal \<Rightarrow> (nat \<times> nat) option" where
  "prec_and_frac d = do {
     (_, ic) \<leftarrow> remove_leading_zeroes d (int_cnt d);
     prec \<leftarrow> uadd 8 ic (frac_cnt d);
     Some (if prec = 0 then (1, frac_cnt d) else (prec, frac_cnt d)) }"

definition is_zero :: "decimal \<Rightarrow> bool option" where
  "is_zero d = do {
     ws \<leftarrow> slice_at (word_buf d) 0 (word_cnt (int_cnt d) + word_cnt (frac_cnt d));
     Some (list_all (\<lambda>x. x = 0) ws) }"

text \<open>\<open>Neg\<close>: the sign is flipped unless the decimal is zero.\<close>

definition neg_dec :: "decimal \<Rightarrow> decimal option" where
  "neg_dec d = do {
     z \<leftarrow> is_zero d;
     Some (if \<not> z then d\<lparr>negative := \<not> negative d\<rparr> else d) }"

definition dec_encoded_len :: "nat list \<Rightarrow> nat fresult option" where
  "dec_encoded_len encoded =
     (if length encoded < 2
      then Some (Inl (box_err (''decimal too short: '' @ show_nat (length encoded) @ '' < 2'')))
      else let precision = encoded ! 0; frac_cnt = encoded ! 1 in
      if precision < frac_cnt
      then Some (Inl (box_err (''invalid decimal, precision '' @ show_nat precision @
             '' < frac_cnt '' @ show_nat frac_cnt)))
      else do {
        let int_cnt = precision - frac_cnt;
        let int_word_cnt = int_cnt div DIGITS_PER_WORD;
        let frac_word_cnt = frac_cnt div DIGITS_PER_WORD;
        let int_left = int_cnt - int_word_cnt * DIGITS_PER_WORD;
        let frac_left = frac_cnt - frac_word_cnt * DIGITS_PER_WORD;
        ib \<leftarrow> get_at DIG_2_BYTES int_left;
        fb \<leftarrow> get_at DIG_2_BYTES frac_left;
        int_len \<leftarrow> uadd 8 (int_word_cnt * WORD_SIZE) ib;
        frac_len \<leftarrow> uadd 8 (frac_word_cnt * WORD_SIZE) fb;
        Some (Inr (int_len + frac_len + 2)) })"

definition approximate_encoded_size :: "decimal \<Rightarrow> nat option" where
  "approximate_encoded_size d = do {
     (prec, frac) \<leftarrow> prec_and_frac d;
     r \<leftarrow> dec_encoded_len [prec, frac];
     Some (case r of Inl _ \<Rightarrow> 3 | Inr n \<Rightarrow> n) }"

section \<open>What a decimal denotes\<close>

abbreviation int_words :: "decimal \<Rightarrow> nat" where
  "int_words d \<equiv> word_cnt (int_cnt d)"

abbreviation frac_words :: "decimal \<Rightarrow> nat" where
  "frac_words d \<equiv> word_cnt (frac_cnt d)"

definition used :: "decimal \<Rightarrow> nat list" where
  "used d = take (int_words d + frac_words d) (word_buf d)"

definition mag :: "decimal \<Rightarrow> rat" where
  "mag d = of_nat (bval WORD_BASE (used d)) / of_nat WORD_BASE ^ frac_words d"

definition dec_value :: "decimal \<Rightarrow> rat" where
  "dec_value d = (if negative d then - mag d else mag d)"

text \<open>
  The invariant: nine words, each below the base; the counted words fit the buffer; at least
  one digit is counted.
\<close>

definition dec_ok :: "decimal \<Rightarrow> bool" where
  "dec_ok d \<longleftrightarrow> length (word_buf d) = WORD_BUF_LEN \<and> below WORD_BASE (word_buf d) \<and>
     0 < int_cnt d + frac_cnt d \<and> int_words d + frac_words d \<le> WORD_BUF_LEN"

text \<open>A decimal that is not the negative zero.\<close>

definition sign_ok :: "decimal \<Rightarrow> bool" where
  "sign_ok d \<longleftrightarrow> (negative d \<longrightarrow> mag d \<noteq> 0)"

section \<open>Lemmas about the helpers\<close>

lemma WORD_BASE_pos [simp]: "0 < WORD_BASE" "WORD_BASE \<noteq> 0" "Suc 0 \<le> WORD_BASE"
  by (simp_all add: WORD_BASE_def)

lemma WORD_BASE_u32: "2 * WORD_BASE < 2 ^ 32" "WORD_BASE < 2 ^ 30" "1 < WORD_BASE"
  by (simp_all add: WORD_BASE_def)

lemma length_TEN_POW [simp]: "length TEN_POW = 10"
  by (simp add: TEN_POW_def)

lemma TEN_POW_nth [simp]: "i \<le> 9 \<Longrightarrow> TEN_POW ! i = 10 ^ i"
proof -
  assume "i \<le> 9"
  then have "i \<in> {0, 1, 2, 3, 4, 5, 6, 7, 8, 9}" by auto
  then show ?thesis by (auto simp: TEN_POW_def)
qed

lemma WORD_BASE_pow: "WORD_BASE = 10 ^ 9"
  by (simp add: WORD_BASE_def)

lemma word_cnt_0 [simp]: "word_cnt 0 = 0"
  by (simp add: word_cnt_def)

lemma word_cnt_pos [simp]: "0 < word_cnt n \<longleftrightarrow> 0 < n"
  by (auto simp: word_cnt_def)

lemma word_cnt_le: "word_cnt n \<le> 10"
  by (auto simp: word_cnt_def)

lemma word_cnt_mono: "m \<le> n \<Longrightarrow> word_cnt m \<le> word_cnt n"
  by (auto simp: word_cnt_def intro: div_le_mono)

lemma word_cnt_max: "word_cnt (max m n) = max (word_cnt m) (word_cnt n)"
  using word_cnt_mono[of m n] word_cnt_mono[of n m] by (auto simp: max_def)

lemma word_cnt_mult [simp]: "n \<le> 9 \<Longrightarrow> word_cnt (n * 9) = n"
  by (auto simp: word_cnt_def)

lemma word_cnt_ge: "word_cnt n \<le> 9 \<Longrightarrow> n \<le> word_cnt n * 9"
  by (auto simp: word_cnt_def split: if_splits)

lemma word_cnt_less: "word_cnt n \<le> 9 \<Longrightarrow> n \<le> 81"
  by (auto simp: word_cnt_def split: if_splits)

lemma add_word_ok:
  assumes "a < WORD_BASE" "b < WORD_BASE" "c \<le> 1"
  obtains s c' where "add_word a b c = Some (s, c')" "s < WORD_BASE" "c' \<le> 1"
    "s + c' * WORD_BASE = a + b + c"
proof -
  let ?t = "a + b + c"
  have "?t < 2 ^ 32" "a + b < 2 ^ 32" using assms WORD_BASE_u32 by simp_all
  then have "add_word a b c =
      Some (if ?t \<ge> WORD_BASE then (?t - WORD_BASE, 1) else (?t, 0))"
    by (simp add: add_word_def uadd_def)
  then show thesis
    using that[of "?t - WORD_BASE" 1] that[of ?t 0] assms by (cases "?t \<ge> WORD_BASE") auto
qed

lemma as_signed_small: "n < 2 ^ 31 \<Longrightarrow> as_signed 32 (int n) = int n"
  by (rule as_signed_id) (auto simp: in_signed_def)

lemma sub_word_ok:
  assumes "a < WORD_BASE" "b < WORD_BASE" "c = 0 \<or> c = 1"
  obtains s c' where "sub_word a b c = Some (s, c')" "s < WORD_BASE" "c' = 0 \<or> c' = 1"
    "int s - c' * int WORD_BASE = int a - int b - c"
proof -
  let ?t = "int a - int b - c"
  have small: "int a < 2 ^ 30" "int b < 2 ^ 30" "int WORD_BASE < 2 ^ 30"
    using assms by (simp_all add: WORD_BASE_def)
  have "sub_word a b c = Some (if ?t < 0 then (as_unsigned 32 (?t + int WORD_BASE), 1)
       else (as_unsigned 32 ?t, 0))"
    using small assms(3) by (auto simp: sub_word_def scheck_def in_signed_def as_signed_small)
  moreover have "?t < 0 \<Longrightarrow> as_unsigned 32 (?t + int WORD_BASE) = nat (?t + int WORD_BASE)"
    using small assms by (auto simp: as_unsigned_def)
  moreover have "\<not> ?t < 0 \<Longrightarrow> as_unsigned 32 ?t = nat ?t"
    using small assms by (auto simp: as_unsigned_def)
  ultimately show thesis
    using that[of "nat (?t + int WORD_BASE)" 1] that[of "nat ?t" 0] assms
    by (cases "?t < 0") auto
qed

lemma dec_okD:
  assumes "dec_ok d"
  shows "length (word_buf d) = 9" "below WORD_BASE (word_buf d)"
    "int_words d + frac_words d \<le> 9" "0 < int_words d + frac_words d"
    "length (used d) = int_words d + frac_words d" "below WORD_BASE (used d)"
  using assms by (auto simp: dec_ok_def used_def)

lemma mag_fval: "dec_ok d \<Longrightarrow> mag d = fval WORD_BASE (used d) * of_nat WORD_BASE ^ int_words d"
  by (simp add: mag_def bval_fval dec_okD power_add)

lemma mag_nonneg: "0 \<le> mag d"
  by (simp add: mag_def)

lemma mag_zero_iff: "mag d = 0 \<longleftrightarrow> (\<forall>w\<in>set (used d). w = 0)"
  by (simp add: mag_def bval_zero_iff)

lemma is_zero_iff: "dec_ok d \<Longrightarrow> is_zero d = Some (mag d = 0)"
  by (auto simp: is_zero_def slice_at_def mag_zero_iff used_def list_all_iff dec_ok_def)

lemma mag_update [simp]:
  "mag (d\<lparr>negative := b\<rparr>) = mag d" "mag (d\<lparr>result_frac_cnt := n\<rparr>) = mag d"
  "dec_ok (d\<lparr>negative := b\<rparr>) = dec_ok d" "dec_ok (d\<lparr>result_frac_cnt := n\<rparr>) = dec_ok d"
  by (simp_all add: mag_def used_def dec_ok_def)

lemma dec_ok_zero [simp]: "dec_ok zero_dec"
  by (simp add: dec_ok_def zero_dec_def new_dec_def word_cnt_def)

lemma mag_zero_dec [simp]: "mag zero_dec = 0"
  by (simp add: mag_zero_iff used_def zero_dec_def new_dec_def)

lemma mag_mult: "mag d * of_nat WORD_BASE ^ frac_words d = of_nat (bval WORD_BASE (used d))"
  by (simp add: mag_def)

lemma abs_dec_value: "dec_value (d\<lparr>negative := False\<rparr>) = \<bar>dec_value d\<bar>"
  using mag_nonneg[of d] by (simp add: dec_value_def)

section \<open>Concrete decimals\<close>

text \<open>A decimal given by its leading words, for the examples.\<close>

definition dec_words :: "nat \<Rightarrow> nat \<Rightarrow> bool \<Rightarrow> nat list \<Rightarrow> decimal" where
  "dec_words ic fc neg ws = (new_dec ic fc neg)\<lparr>word_buf := ws @ replicate (9 - length ws) 0\<rparr>"

lemmas dec_words_defs = dec_words_def new_dec_def dec_ok_def sign_ok_def word_cnt_def WORD_BASE_def
  mag_zero_iff used_def

section \<open>Properties\<close>

text \<open>
  Negation is exact: on a well-formed decimal it does not panic, negates the value, keeps
  the invariant, and never produces the negative zero.
\<close>

theorem neg_dec_negates:
  assumes "dec_ok d"
  shows "\<exists>n. neg_dec d = Some n \<and> dec_value n = - dec_value d \<and> dec_ok n \<and> (sign_ok d \<longrightarrow> sign_ok n)"
  using assms by (auto simp: neg_dec_def is_zero_iff dec_value_def sign_ok_def)

theorem neg_dec_negates_witness:
  "dec_ok (dec_words 2 0 False [42]) \<and> sign_ok (dec_words 2 0 False [42]) \<and>
   (\<exists>n. neg_dec (dec_words 2 0 False [42]) = Some n \<and>
      dec_value n = - dec_value (dec_words 2 0 False [42]) \<and> dec_ok n \<and> sign_ok n)"
proof -
  have "dec_ok (dec_words 2 0 False [42])" "sign_ok (dec_words 2 0 False [42])"
    by (simp_all add: dec_words_defs)
  with neg_dec_negates[OF this(1)] show ?thesis by blast
qed

end
