(* ===== verification/Decimal_Add.thy ===== *)
theory Decimal_Add
  imports Decimal_Base
begin

text \<open>
  Addition of magnitudes: \<open>max_decimal\<close>, \<open>max_or_min_dec\<close> and \<open>do_add\<close> of
  \<open>src/berolinasql/src/decimal.rs\<close>. Each of the loops of \<open>do_add\<close>, which run from the least
  significant word upwards and fill the result buffer from its end, is a function of its own;
  one lemma per loop says which segment of the buffer it writes.
\<close>

section \<open>The largest decimals\<close>

text \<open>Writing \<open>WORD_MAX\<close> to \<open>n\<close> consecutive words.\<close>

fun fill_words :: "nat \<Rightarrow> nat \<Rightarrow> nat list \<Rightarrow> (nat \<times> nat list) option" where
  "fill_words 0 idx buf = Some (idx, buf)"
| "fill_words (Suc n) idx buf = do {
     buf \<leftarrow> set_at buf idx WORD_MAX;
     fill_words n (idx + 1) buf }"

text \<open>The two halves of \<open>max_decimal\<close>: the words of the integer part and of the fraction.\<close>

definition max_int_words :: "nat \<Rightarrow> nat list \<Rightarrow> (nat \<times> nat list) option" where
  "max_int_words ic buf =
     (if ic > 0
      then do {
        let first_word_cnt = ic mod DIGITS_PER_WORD;
        (idx, buf) \<leftarrow>
          (if first_word_cnt > 0
           then do {
             p \<leftarrow> get_at TEN_POW first_word_cnt;
             buf \<leftarrow> set_at buf 0 (p - 1);
             Some (1, buf) }
           else Some (0, buf));
        fill_words (ic div DIGITS_PER_WORD) idx buf }
      else Some (0, buf))"

definition max_frac_words :: "nat \<Rightarrow> nat \<Rightarrow> nat list \<Rightarrow> nat list option" where
  "max_frac_words fc idx buf =
     (if fc > 0
      then do {
        let last_digits = fc mod DIGITS_PER_WORD;
        (idx, buf) \<leftarrow> fill_words (fc div DIGITS_PER_WORD) idx buf;
        if last_digits > 0
        then do {
          m \<leftarrow> get_at FRAC_MAX (last_digits - 1);
          set_at buf idx m }
        else Some buf }
      else Some buf)"

definition max_decimal :: "nat \<Rightarrow> nat \<Rightarrow> decimal option" where
  "max_decimal prec fc = do {
     ic \<leftarrow> usub prec fc;
     let res = new_dec ic fc False;
     (idx, buf) \<leftarrow> max_int_words ic (word_buf res);
     buf \<leftarrow> max_frac_words fc idx buf;
     Some (res\<lparr>word_buf := buf\<rparr>) }"

definition max_or_min_dec :: "bool \<Rightarrow> nat \<Rightarrow> nat \<Rightarrow> decimal option" where
  "max_or_min_dec neg prec fc = do {
     ret \<leftarrow> max_decimal prec fc;
     Some (ret\<lparr>negative := neg\<rparr>) }"

section \<open>The loops\<close>

text \<open>\<open>while l_idx > l_stop\<close>: copy words of one operand into the result.\<close>

fun copy_words_down ::
    "nat list \<Rightarrow> nat \<Rightarrow> nat \<Rightarrow> nat \<Rightarrow> nat list \<Rightarrow> (nat \<times> nat \<times> nat list) option" where
  "copy_words_down ls l_idx l_stop idx_to buf =
     (if l_idx > l_stop
      then do {
        idx_to \<leftarrow> usub idx_to 1;
        x \<leftarrow> get_at ls (l_idx - 1);
        buf \<leftarrow> set_at buf idx_to x;
        copy_words_down ls (l_idx - 1) l_stop idx_to buf }
      else Some (l_idx, idx_to, buf))"

text \<open>\<open>while l_idx > r_stop\<close>: add words of both operands with carry.\<close>

fun add_words_down ::
    "nat list \<Rightarrow> nat list \<Rightarrow> nat \<Rightarrow> nat \<Rightarrow> nat \<Rightarrow> nat \<Rightarrow> nat \<Rightarrow> nat list \<Rightarrow>
     (nat \<times> nat \<times> nat list) option" where
  "add_words_down ls rs l_idx r_idx r_stop idx_to carry buf =
     (if l_idx > r_stop
      then do {
        r_idx \<leftarrow> usub r_idx 1;
        idx_to \<leftarrow> usub idx_to 1;
        x \<leftarrow> get_at ls (l_idx - 1);
        y \<leftarrow> get_at rs r_idx;
        (s, carry) \<leftarrow> add_word x y carry;
        buf \<leftarrow> set_at buf idx_to s;
        add_words_down ls rs (l_idx - 1) r_idx r_stop idx_to carry buf }
      else Some (idx_to, carry, buf))"

text \<open>\<open>while l_idx > l_stop\<close> with \<open>l_stop = 0\<close>: propagate the carry through the leading words.\<close>

fun add_carry_down ::
    "nat list \<Rightarrow> nat \<Rightarrow> nat \<Rightarrow> nat \<Rightarrow> nat list \<Rightarrow> (nat \<times> nat \<times> nat list) option" where
  "add_carry_down ls l_idx idx_to carry buf =
     (if l_idx > 0
      then do {
        idx_to \<leftarrow> usub idx_to 1;
        x \<leftarrow> get_at ls (l_idx - 1);
        (s, carry) \<leftarrow> add_word x 0 carry;
        buf \<leftarrow> set_at buf idx_to s;
        add_carry_down ls (l_idx - 1) idx_to carry buf }
      else Some (idx_to, carry, buf))"

declare copy_words_down.simps [simp del] add_words_down.simps [simp del]
  add_carry_down.simps [simp del]

section \<open>\<open>do_add\<close>\<close>

text \<open>
  The part of \<open>do_add\<close> after the size of the result is fixed: \<open>lb\<close>, \<open>rb\<close> are the operands'
  buffers, \<open>idx_to\<close> the end of the result's words in \<open>buf\<close>.
\<close>

definition do_add_words ::
    "nat list \<Rightarrow> nat list \<Rightarrow> nat \<Rightarrow> nat \<Rightarrow> nat \<Rightarrow> nat \<Rightarrow> nat \<Rightarrow> nat list \<Rightarrow> nat list option" where
  "do_add_words lb rb l_int l_frac r_int r_frac idx_to buf = do {
     let (lw, rw, l_idx, l_stop, r_idx, r_stop, exchanged) =
       (if l_frac > r_frac
        then (lb, rb, l_int + l_frac, l_int + r_frac, r_int + r_frac, l_int - r_int, False)
        else (rb, lb, r_int + r_frac, r_int + l_frac, l_int + l_frac, r_int - l_int, True));
     (l_idx, idx_to, buf) \<leftarrow> copy_words_down lw l_idx l_stop idx_to buf;
     (idx_to, carry, buf) \<leftarrow> add_words_down lw rw l_idx r_idx r_stop idx_to 0 buf;
     let (l_idx, lw) =
       (if l_int > r_int then (l_int - r_int, if exchanged then rw else lw)
        else (r_int - l_int, if \<not> exchanged then rw else lw));
     (idx_to, carry, buf) \<leftarrow> add_carry_down lw l_idx idx_to carry buf;
     if carry > 0
     then do {
       idx_to \<leftarrow> usub idx_to 1;
       set_at buf idx_to 1 }
     else Some buf }"

definition do_add :: "decimal \<Rightarrow> decimal \<Rightarrow> decimal res option" where
  "do_add lhs rhs = do {
     let (l_int, l_frac) = (word_cnt (int_cnt lhs), word_cnt (frac_cnt lhs));
     let (r_int, r_frac) = (word_cnt (int_cnt rhs), word_cnt (frac_cnt rhs));
     x \<leftarrow> (case cmp_val l_int r_int of
            Greater \<Rightarrow> get_at (word_buf lhs) 0
          | Less \<Rightarrow> get_at (word_buf rhs) 0
          | Equal \<Rightarrow> do {
              a \<leftarrow> get_at (word_buf lhs) 0;
              b \<leftarrow> get_at (word_buf rhs) 0;
              uadd 32 a b });
     let int_word_to = (if x > WORD_MAX - 1 then max l_int r_int + 1 else max l_int r_int);
     let sz = fix_word_cnt_err int_word_to (max l_frac r_frac) WORD_BUF_LEN;
     if is_overCausetxctx sz
     then do {
       m \<leftarrow> max_decimal (WORD_BUF_LEN * DIGITS_PER_WORD) 0;
       Some (OverCausetxctx m) }
     else do {
       let (int_word_to, frac_word_to) = deref sz;
       let d = new_dec (int_word_to * DIGITS_PER_WORD) (max (frac_cnt lhs) (frac_cnt rhs))
                 (negative lhs);
       let d = (if is_ok sz then d
                else d\<lparr>frac_cnt := min (frac_word_to * DIGITS_PER_WORD) (frac_cnt d)\<rparr>);
       let (l_int, l_frac, r_int, r_frac) =
         (if is_ok sz then (l_int, l_frac, r_int, r_frac)
          else (min l_int int_word_to, min frac_word_to l_frac,
                min r_int int_word_to, min r_frac frac_word_to));
       buf \<leftarrow> do_add_words (word_buf lhs) (word_buf rhs) l_int l_frac r_int r_frac
               (int_word_to + frac_word_to) (word_buf d);
       Some (res_map (\<lambda>_. d\<lparr>word_buf := buf\<rparr>) sz) } }"

section \<open>What the loops write\<close>

lemma split_last: "length xs = Suc n \<Longrightarrow> \<exists>ys y. xs = ys @ [y] \<and> length ys = n"
  by (cases xs rule: rev_cases) auto

lemma seg_Suc: "p + n < length ws \<Longrightarrow>
    take (Suc n) (drop p ws) = take n (drop p ws) @ [ws ! (p + n)]"
  by (simp add: take_Suc_conv_app_nth)

lemma copy_words_down_ok:
  "length pre = q \<Longrightarrow> length old = n \<Longrightarrow> p + n \<le> length ls \<Longrightarrow>
   copy_words_down ls (p + n) p (q + n) (pre @ old @ post) =
     Some (p, q, pre @ take n (drop p ls) @ post)"
proof (induction n arbitrary: old post)
  case 0
  then show ?case by (simp add: copy_words_down.simps)
next
  case (Suc n)
  obtain old' y where old: "old = old' @ [y]" "length old' = n"
    using split_last Suc.prems(2) by blast
  have set: "set_at (pre @ old @ post) (q + n) (ls ! (p + n)) =
      Some (pre @ old' @ ls ! (p + n) # post)"
    using set_at_mid[of "q + n" "pre @ old'"] Suc.prems old by simp
  have "copy_words_down ls (p + Suc n) p (q + Suc n) (pre @ old @ post) =
      copy_words_down ls (p + n) p (q + n) (pre @ old' @ ls ! (p + n) # post)"
    using Suc.prems set by (subst copy_words_down.simps) (simp add: get_at_def)
  also have "\<dots> = Some (p, q, pre @ take n (drop p ls) @ ls ! (p + n) # post)"
    using Suc old by simp
  finally show ?case using Suc.prems by (simp add: seg_Suc)
qed

lemma add_words_down_ok:
  assumes "below WORD_BASE ls" "below WORD_BASE rs"
  shows "length pre = q \<Longrightarrow> length old = n \<Longrightarrow> p + n \<le> length ls \<Longrightarrow> r + n \<le> length rs \<Longrightarrow>
    c \<le> 1 \<Longrightarrow>
    \<exists>c' zs. add_words_down ls rs (p + n) (r + n) p (q + n) c (pre @ old @ post) =
        Some (q, c', pre @ zs @ post) \<and> length zs = n \<and> below WORD_BASE zs \<and> c' \<le> 1 \<and>
        bval WORD_BASE zs + c' * WORD_BASE ^ n =
        bval WORD_BASE (take n (drop p ls)) + bval WORD_BASE (take n (drop r rs)) + c"
proof (induction n arbitrary: old post c)
  case 0
  then show ?case by (simp add: add_words_down.simps)
next
  case (Suc n)
  obtain old' y where old: "old = old' @ [y]" "length old' = n"
    using split_last Suc.prems(2) by blast
  obtain s c1 where s: "add_word (ls ! (p + n)) (rs ! (r + n)) c = Some (s, c1)"
      "s < WORD_BASE" "c1 \<le> 1" "s + c1 * WORD_BASE = ls ! (p + n) + rs ! (r + n) + c"
    using add_word_ok below_nth assms Suc.prems
    by (metis add_Suc_right less_eq_Suc_le)
  have set: "set_at (pre @ old @ post) (q + n) s = Some (pre @ old' @ s # post)"
    using set_at_mid[of "q + n" "pre @ old'"] Suc.prems old by simp
  have step: "add_words_down ls rs (p + Suc n) (r + Suc n) p (q + Suc n) c (pre @ old @ post) =
      add_words_down ls rs (p + n) (r + n) p (q + n) c1 (pre @ old' @ s # post)"
    using Suc.prems set s(1) by (subst add_words_down.simps) (simp add: get_at_def)
  from Suc.IH[of old' c1 "s # post"] Suc.prems old s(3) obtain c' zs where
    IH: "add_words_down ls rs (p + n) (r + n) p (q + n) c1 (pre @ old' @ s # post) =
        Some (q, c', pre @ zs @ s # post)" "length zs = n" "below WORD_BASE zs" "c' \<le> 1"
      "bval WORD_BASE zs + c' * WORD_BASE ^ n =
        bval WORD_BASE (take n (drop p ls)) + bval WORD_BASE (take n (drop r rs)) + c1"
    by auto
  have "bval WORD_BASE (zs @ [s]) + c' * WORD_BASE ^ Suc n =
      (bval WORD_BASE zs + c' * WORD_BASE ^ n) * WORD_BASE + s"
    by (simp add: bval_append algebra_simps)
  also have "\<dots> = (bval WORD_BASE (take n (drop p ls)) + bval WORD_BASE (take n (drop r rs))) *
      WORD_BASE + (s + c1 * WORD_BASE)"
    unfolding IH(5) by (simp add: algebra_simps)
  also have "\<dots> = (bval WORD_BASE (take n (drop p ls)) + bval WORD_BASE (take n (drop r rs))) *
      WORD_BASE + (ls ! (p + n) + rs ! (r + n) + c)"
    by (simp only: s(4))
  also have "\<dots> = bval WORD_BASE (take (Suc n) (drop p ls)) +
      bval WORD_BASE (take (Suc n) (drop r rs)) + c"
    using Suc.prems by (simp add: seg_Suc bval_append add_mult_distrib)
  finally show ?case
    using step IH s(2) by (intro exI[of _ c'] exI[of _ "zs @ [s]"]) simp
qed

lemma add_carry_down_ok:
  assumes "below WORD_BASE ls"
  shows "length pre = q \<Longrightarrow> length old = n \<Longrightarrow> n \<le> length ls \<Longrightarrow> c \<le> 1 \<Longrightarrow>
    \<exists>c' zs. add_carry_down ls n (q + n) c (pre @ old @ post) =
        Some (q, c', pre @ zs @ post) \<and> length zs = n \<and> below WORD_BASE zs \<and> c' \<le> 1 \<and>
        bval WORD_BASE zs + c' * WORD_BASE ^ n = bval WORD_BASE (take n ls) + c"
proof (induction n arbitrary: old post c)
  case 0
  then show ?case by (simp add: add_carry_down.simps)
next
  case (Suc n)
  obtain old' y where old: "old = old' @ [y]" "length old' = n"
    using split_last Suc.prems(2) by blast
  obtain s c1 where s: "add_word (ls ! n) 0 c = Some (s, c1)"
      "s < WORD_BASE" "c1 \<le> 1" "s + c1 * WORD_BASE = ls ! n + c"
    using add_word_ok[of "ls ! n" 0 c] below_nth assms Suc.prems by (metis WORD_BASE_pos(1)
        add.right_neutral less_eq_Suc_le)
  have set: "set_at (pre @ old @ post) (q + n) s = Some (pre @ old' @ s # post)"
    using set_at_mid[of "q + n" "pre @ old'"] Suc.prems old by simp
  have step: "add_carry_down ls (Suc n) (q + Suc n) c (pre @ old @ post) =
      add_carry_down ls n (q + n) c1 (pre @ old' @ s # post)"
    using Suc.prems set s(1) by (subst add_carry_down.simps) (simp add: get_at_def)
  from Suc.IH[of old' c1 "s # post"] Suc.prems old s(3) obtain c' zs where
    IH: "add_carry_down ls n (q + n) c1 (pre @ old' @ s # post) =
        Some (q, c', pre @ zs @ s # post)" "length zs = n" "below WORD_BASE zs" "c' \<le> 1"
      "bval WORD_BASE zs + c' * WORD_BASE ^ n = bval WORD_BASE (take n ls) + c1"
    by auto
  have "bval WORD_BASE (zs @ [s]) + c' * WORD_BASE ^ Suc n =
      (bval WORD_BASE zs + c' * WORD_BASE ^ n) * WORD_BASE + s"
    by (simp add: bval_append algebra_simps)
  also have "\<dots> = bval WORD_BASE (take n ls) * WORD_BASE + (s + c1 * WORD_BASE)"
    unfolding IH(5) by (simp add: algebra_simps)
  also have "\<dots> = bval WORD_BASE (take (Suc n) ls) + c"
    using Suc.prems by (simp add: take_Suc_conv_app_nth bval_append s(4))
  finally show ?case
    using step IH s(2) by (intro exI[of _ c'] exI[of _ "zs @ [s]"]) simp
qed

lemma add_carry_down_0 [simp]: "add_carry_down ls 0 i c b = Some (i, c, b)"
  by (simp add: add_carry_down.simps)

section \<open>The whole of \<open>do_add\<close>\<close>

abbreviation zeros :: "nat \<Rightarrow> nat list" where
  "zeros n \<equiv> replicate n 0"

lemma take_split3: "a + b + c = n \<Longrightarrow>
    take n ws = take a ws @ take b (drop a ws) @ take c (drop (a + b) ws)"
  using take_add[of a "b + c" ws] take_add[of b c "drop a ws"] by (auto simp: ac_simps)

text \<open>
  The three loops together, for the operand \<open>ab\<close> with the longer fraction and the other operand
  \<open>bb\<close>: they write the sum of the aligned words and leave the carry out of the leading word.
\<close>

lemma add_phases_ok:
  assumes ab: "below WORD_BASE ab" "length ab = 9" and bb: "below WORD_BASE bb" "length bb = 9"
    and cnt: "ai + af \<le> 9" "bi + bf \<le> 9" "bf \<le> af" "max ai bi \<le> iw" "iw + af \<le> 9"
    and hb: "hb = (if ai > bi then ab else bb)"
  shows "\<exists>b1 i2 c2 b2 c zs.
    copy_words_down ab (ai + af) (ai + bf) (iw + af) (zeros 9) = Some (ai + bf, iw + bf, b1) \<and>
    add_words_down ab bb (ai + bf) (bi + bf) (ai - bi) (iw + bf) 0 b1 = Some (i2, c2, b2) \<and>
    add_carry_down hb (max ai bi - min ai bi) i2 c2 b2 =
      Some (iw - max ai bi, c, zeros (iw - max ai bi) @ zs @ zeros (9 - iw - af)) \<and>
    length zs = max ai bi + af \<and> below WORD_BASE zs \<and> c \<le> 1 \<and>
    bval WORD_BASE zs + c * WORD_BASE ^ (max ai bi + af) =
    bval WORD_BASE (take (ai + af) ab) + bval WORD_BASE (take (bi + bf) bb) * WORD_BASE ^ (af - bf)"
proof -
  let ?B = WORD_BASE
  define n1 n2 n3 q where n: "n1 = af - bf" "n2 = min ai bi + bf" "n3 = max ai bi - min ai bi"
    "q = iw - max ai bi"
  define Z lo where Z: "Z = zeros (9 - iw - af)" and lo: "lo = take n1 (drop (ai + bf) ab)"
  have sz: "iw + bf = q + n3 + n2" "iw + af = q + n3 + n2 + n1" "ai + af = (ai + bf) + n1"
    "ai + bf = (ai - bi) + n2" "bi + bf = (bi - ai) + n2" "n3 + n2 + n1 = max ai bi + af"
    using cnt n by auto
  have z9: "zeros 9 = zeros (iw + bf) @ zeros n1 @ Z"
    using cnt n by (simp add: Z flip: replicate_add)
  have 1: "copy_words_down ab (ai + af) (ai + bf) (iw + af) (zeros 9) =
      Some (ai + bf, iw + bf, zeros (iw + bf) @ lo @ Z)"
  proof -
    have e: "ai + af = (ai + bf) + n1" "iw + af = (iw + bf) + n1" using cnt n by auto
    show ?thesis unfolding e z9 lo
      by (rule copy_words_down_ok) (use cnt ab n in auto)
  qed
  have zs: "zeros (q + n3 + n2) @ r = zeros (q + n3) @ zeros n2 @ r"
      "zeros (q + n3) @ r = zeros q @ zeros n3 @ r" for r
    by (simp_all add: replicate_add)
  have "(ai - bi) + n2 \<le> length ab" "(bi - ai) + n2 \<le> length bb" using cnt ab bb n by auto
  from add_words_down_ok[OF ab(1) bb(1) _ _ this, of "zeros (q + n3)" "q + n3" "zeros n2" 0
      "lo @ Z"] obtain c1 z2 where
    2: "add_words_down ab bb (ai + bf) (bi + bf) (ai - bi) (iw + bf) 0 (zeros (iw + bf) @ lo @ Z) =
        Some (q + n3, c1, zeros (q + n3) @ z2 @ lo @ Z)"
      "length z2 = n2" "below ?B z2" "c1 \<le> 1"
      "bval ?B z2 + c1 * ?B ^ n2 =
        bval ?B (take n2 (drop (ai - bi) ab)) + bval ?B (take n2 (drop (bi - ai) bb))"
    unfolding sz(1,4,5) zs(1) by auto
  have hb': "below ?B hb" "n3 \<le> length hb" using hb ab bb cnt n by auto
  from add_carry_down_ok[OF hb'(1), of "zeros q" q "zeros n3" n3 c1 "z2 @ lo @ Z"] hb'(2) 2(4)
  obtain c z3 where
    3: "add_carry_down hb n3 (q + n3) c1 (zeros (q + n3) @ z2 @ lo @ Z) =
        Some (q, c, zeros q @ z3 @ z2 @ lo @ Z)"
      "length z3 = n3" "below ?B z3" "c \<le> 1" "bval ?B z3 + c * ?B ^ n3 = bval ?B (take n3 hb) + c1"
    unfolding zs(2) by auto
  have llo: "length lo = n1" "below ?B lo" using ab cnt n by (auto simp: lo)
  have lens: "length (take n2 (drop (ai - bi) ab)) = n2" "length (take n2 (drop (bi - ai) bb)) = n2"
    using sz cnt ab bb by auto
  have tkA: "take (ai + af) ab = take (ai - bi) ab @ take n2 (drop (ai - bi) ab) @ lo"
    unfolding lo sz(4) by (rule take_split3) (use cnt n in auto)
  have tkB: "take (bi + bf) bb = take (bi - ai) bb @ take n2 (drop (bi - ai) bb)"
    unfolding sz(5) by (rule take_add)
  have A: "bval ?B (take (ai + af) ab) = bval ?B (take (ai - bi) ab) * ?B ^ (n2 + n1) +
      bval ?B (take n2 (drop (ai - bi) ab)) * ?B ^ n1 + bval ?B lo"
    unfolding tkA bval_append using lens llo by (simp add: power_add)
  have Bv: "bval ?B (take (bi + bf) bb) = bval ?B (take (bi - ai) bb) * ?B ^ n2 +
      bval ?B (take n2 (drop (bi - ai) bb))"
    unfolding tkB bval_append using lens by simp
  have H: "bval ?B (take n3 hb) = bval ?B (take (ai - bi) ab) + bval ?B (take (bi - ai) bb)"
    using hb n by (auto simp: max_def min_def)
  have "bval ?B (z3 @ z2 @ lo) + c * ?B ^ (n3 + n2 + n1) =
      (bval ?B z3 + c * ?B ^ n3) * ?B ^ (n2 + n1) + bval ?B z2 * ?B ^ n1 + bval ?B lo"
    by (simp add: bval_append 2(2) 3(2) llo(1) power_add algebra_simps)
  also have "\<dots> = bval ?B (take n3 hb) * ?B ^ (n2 + n1) +
      (bval ?B z2 + c1 * ?B ^ n2) * ?B ^ n1 + bval ?B lo"
    unfolding 3(5) by (simp add: power_add algebra_simps)
  also have "\<dots> = bval ?B (take (ai + af) ab) + bval ?B (take (bi + bf) bb) * ?B ^ n1"
    unfolding 2(5) A Bv H by (simp add: power_add algebra_simps)
  finally have sum: "bval ?B (z3 @ z2 @ lo) + c * ?B ^ (max ai bi + af) =
      bval ?B (take (ai + af) ab) + bval ?B (take (bi + bf) bb) * ?B ^ (af - bf)"
    by (simp only: sz(6)) (simp only: n(1))
  have "length (z3 @ z2 @ lo) = max ai bi + af" "below ?B (z3 @ z2 @ lo)"
    using 2 3 llo sz(6) by simp_all
  with sum 3(4) 1 2(1) 3(1)[unfolded n(3,4)] show ?thesis
    unfolding n(3,4) Z by (metis append_assoc)
qed

lemma do_add_words_ok:
  assumes lb: "below WORD_BASE lb" "length lb = 9" and rb: "below WORD_BASE rb" "length rb = 9"
    and cnt: "li + lf \<le> 9" "ri + rf \<le> 9" "max li ri \<le> iw" "iw + max lf rf \<le> 9"
    and room: "bval WORD_BASE (take (li + lf) lb) * WORD_BASE ^ (max lf rf - lf) +
       bval WORD_BASE (take (ri + rf) rb) * WORD_BASE ^ (max lf rf - rf) <
       WORD_BASE ^ (iw + max lf rf)"
  obtains buf where "do_add_words lb rb li lf ri rf (iw + max lf rf) (zeros 9) = Some buf"
    "length buf = 9" "below WORD_BASE buf"
    "bval WORD_BASE (take (iw + max lf rf) buf) =
       bval WORD_BASE (take (li + lf) lb) * WORD_BASE ^ (max lf rf - lf) +
       bval WORD_BASE (take (ri + rf) rb) * WORD_BASE ^ (max lf rf - rf)"
proof -
  define q fm where q: "q = iw - max li ri" and fm: "fm = max lf rf"
  define S where S: "S = bval WORD_BASE (take (li + lf) lb) * WORD_BASE ^ (fm - lf) +
       bval WORD_BASE (take (ri + rf) rb) * WORD_BASE ^ (fm - rf)"
  obtain c zs where *: "do_add_words lb rb li lf ri rf (iw + fm) (zeros 9) =
      (if c > 0 then do { i \<leftarrow> usub q 1; set_at (zeros q @ zs @ zeros (9 - iw - fm)) i 1 }
       else Some (zeros q @ zs @ zeros (9 - iw - fm)))"
    and zs: "length zs = max li ri + fm" "below WORD_BASE zs" "c \<le> 1"
      "bval WORD_BASE zs + c * WORD_BASE ^ (max li ri + fm) = S"
  proof (cases "lf > rf")
    case True
    then have f: "fm = lf" "rf \<le> lf" using fm by auto
    have c5: "iw + lf \<le> 9" using cnt(4) f fm by simp
    from add_phases_ok[OF lb rb cnt(1,2) f(2) cnt(3) c5 refl]
    obtain b1 i2 c2 b2 c zs where p:
      "copy_words_down lb (li + lf) (li + rf) (iw + lf) (zeros 9) = Some (li + rf, iw + rf, b1)"
      "add_words_down lb rb (li + rf) (ri + rf) (li - ri) (iw + rf) 0 b1 = Some (i2, c2, b2)"
      "add_carry_down (if li > ri then lb else rb) (max li ri - min li ri) i2 c2 b2 =
        Some (q, c, zeros q @ zs @ zeros (9 - iw - lf))"
      "length zs = max li ri + lf" "below WORD_BASE zs" "c \<le> 1"
      "bval WORD_BASE zs + c * WORD_BASE ^ (max li ri + lf) =
        bval WORD_BASE (take (li + lf) lb) + bval WORD_BASE (take (ri + rf) rb) * WORD_BASE ^ (lf - rf)"
      unfolding q by auto
    show thesis
      by (rule that[of c zs])
        (use True p f in \<open>auto simp: do_add_words_def S max_def min_def split: if_splits\<close>)
  next
    case False
    then have f: "fm = rf" "lf \<le> rf" using fm by auto
    have c5: "iw + rf \<le> 9" "max ri li \<le> iw" using cnt f fm by simp_all
    from add_phases_ok[OF rb lb cnt(2,1) f(2) c5(2,1) refl]
    obtain b1 i2 c2 b2 c zs where p:
      "copy_words_down rb (ri + rf) (ri + lf) (iw + rf) (zeros 9) = Some (ri + lf, iw + lf, b1)"
      "add_words_down rb lb (ri + lf) (li + lf) (ri - li) (iw + lf) 0 b1 = Some (i2, c2, b2)"
      "add_carry_down (if ri > li then rb else lb) (max li ri - min li ri) i2 c2 b2 =
        Some (q, c, zeros q @ zs @ zeros (9 - iw - rf))"
      "length zs = max li ri + rf" "below WORD_BASE zs" "c \<le> 1"
      "bval WORD_BASE zs + c * WORD_BASE ^ (max li ri + rf) =
        bval WORD_BASE (take (ri + rf) rb) + bval WORD_BASE (take (li + lf) lb) * WORD_BASE ^ (rf - lf)"
      unfolding q by (auto simp: max.commute min.commute)
    show thesis
      by (rule that[of c zs])
        (use False p f in \<open>auto simp: do_add_words_def S max_def min_def split: if_splits\<close>)
  qed
  have qm: "q + max li ri = iw" "q + (max li ri + fm) + (9 - iw - fm) = 9" using q cnt fm by auto
  let ?Z = "zeros (9 - iw - fm)"
  have room': "S < WORD_BASE ^ (iw + fm)" using room by (simp add: S fm)
  show thesis
  proof (cases "c = 0")
    case True
    have "take (iw + fm) (zeros q @ zs @ ?Z) = zeros q @ zs" using zs(1) qm by simp
    moreover have "length (zeros q @ zs @ ?Z) = 9" using zs(1) qm(2) by simp
    ultimately show thesis
      by (intro that[folded fm, folded S, of "zeros q @ zs @ ?Z"])
        (use * zs True in \<open>simp_all add: bval_append\<close>)
  next
    case False
    with zs(3) have c: "c = 1" by simp
    have "WORD_BASE ^ (max li ri + fm) < WORD_BASE ^ (iw + fm)"
      using zs(4) c room' by simp
    then have "max li ri + fm < iw + fm"
      using power_less_imp_less_exp[of WORD_BASE] WORD_BASE_u32(3) by blast
    then have "0 < q" using q by simp
    then obtain q' where q': "q = Suc q'" using gr0_implies_Suc by blast
    let ?b = "zeros q' @ 1 # zs @ ?Z"
    have eq: "zeros q @ zs @ ?Z = zeros q' @ 0 # zs @ ?Z"
      unfolding q' by (simp add: replicate_app_Cons_same)
    have "set_at (zeros q @ zs @ ?Z) q' 1 = Some ?b"
      unfolding eq by (rule set_at_mid) simp
    moreover have "take (iw + fm) ?b = zeros q' @ 1 # zs"
      using zs(1) qm q' by (auto simp: take_Cons' split: nat.split)
    moreover have "length ?b = 9" using zs(1) qm(2) q' by simp
    ultimately show thesis
      by (intro that[folded fm, folded S, of ?b])
        (use * zs c q' WORD_BASE_u32(3) in \<open>simp_all add: bval_append\<close>)
  qed
qed

text \<open>Bounds of an operand's words, scaled to a common number of fraction words.\<close>

lemma scaled_less:
  assumes "below WORD_BASE ws" "i + f \<le> length ws" "f \<le> fm"
  shows "bval WORD_BASE (take (i + f) ws) * WORD_BASE ^ (fm - f) < WORD_BASE ^ (i + fm)"
proof -
  have "bval WORD_BASE (take (i + f) ws) < WORD_BASE ^ (i + f)"
    using bval_less[of WORD_BASE "take (i + f) ws"] assms by (simp add: below_take min_absorb2)
  then have "bval WORD_BASE (take (i + f) ws) * WORD_BASE ^ (fm - f) <
      WORD_BASE ^ (i + f) * WORD_BASE ^ (fm - f)" by simp
  also have "\<dots> = WORD_BASE ^ (i + fm)" using assms(3) by (simp flip: power_add)
  finally show ?thesis .
qed

lemma scaled_head_less:
  assumes "below WORD_BASE ws" "i + f \<le> length ws" "f \<le> fm" "0 < i + f"
  shows "bval WORD_BASE (take (i + f) ws) * WORD_BASE ^ (fm - f) <
      (ws ! 0 + 1) * WORD_BASE ^ (i + fm - 1)"
proof -
  obtain w vs where ws: "ws = w # vs" using assms by (cases ws) auto
  obtain n where n: "i + f = Suc n" using assms(4) by (cases "i + f") auto
  have "bval WORD_BASE (take (i + f) ws) < (w + 1) * WORD_BASE ^ n"
    using bval_head_less[of WORD_BASE "take n vs" w] assms ws n
    by (simp add: below_take min_absorb2)
  then have "bval WORD_BASE (take (i + f) ws) * WORD_BASE ^ (fm - f) <
      (w + 1) * WORD_BASE ^ n * WORD_BASE ^ (fm - f)" by simp
  also have "\<dots> = (w + 1) * WORD_BASE ^ (n + (fm - f))"
    by (simp only: power_add mult.assoc)
  also have "n + (fm - f) = i + fm - 1" using n assms(3) by arith
  finally show ?thesis by (simp add: ws)
qed

text \<open>The test of \<open>do_add\<close> on the leading words leaves room for every carry.\<close>

lemma add_room:
  assumes lb: "below WORD_BASE lb" "length lb = 9" and rb: "below WORD_BASE rb" "length rb = 9"
    and cnt: "li + lf \<le> 9" "ri + rf \<le> 9" "lf \<le> fm" "rf \<le> fm"
      "li = ri \<Longrightarrow> 0 < li + lf \<and> 0 < ri + rf"
    and x: "x = (case cmp_val li ri of Greater \<Rightarrow> lb ! 0 | Less \<Rightarrow> rb ! 0 | Equal \<Rightarrow> lb ! 0 + rb ! 0)"
    and iw: "iw = (if x > WORD_MAX - 1 then max li ri + 1 else max li ri)"
  shows "bval WORD_BASE (take (li + lf) lb) * WORD_BASE ^ (fm - lf) +
      bval WORD_BASE (take (ri + rf) rb) * WORD_BASE ^ (fm - rf) < WORD_BASE ^ (iw + fm)"
    (is "?L + ?R < _")
proof -
  let ?B = WORD_BASE
  note L = scaled_less[OF lb(1), of li lf fm] scaled_head_less[OF lb(1), of li lf fm]
  note R = scaled_less[OF rb(1), of ri rf fm] scaled_head_less[OF rb(1), of ri rf fm]
  show ?thesis
  proof (cases "x > WORD_MAX - 1")
    case True
    have "?B ^ (li + fm) \<le> ?B ^ (max li ri + fm)" "?B ^ (ri + fm) \<le> ?B ^ (max li ri + fm)"
      by (intro power_increasing; simp add: Suc_le_eq)+
    moreover have "?L < ?B ^ (li + fm)" "?R < ?B ^ (ri + fm)" using L(1) R(1) cnt lb rb by simp_all
    ultimately have "?L + ?R < 2 * ?B ^ (max li ri + fm)" by linarith
    also have "\<dots> \<le> ?B * ?B ^ (max li ri + fm)"
      by (rule mult_le_mono1) (simp add: WORD_BASE_def)
    finally show ?thesis using True iw by simp
  next
    case False
    then have xb: "x + 2 \<le> ?B" by (simp add: WORD_MAX_def WORD_BASE_def)
    define m where m: "m = max li ri + fm - 1"
    have "0 < max li ri + fm" by (cases "li = ri") (use cnt in auto)
    then have m1: "max li ri + fm = Suc m" using m by simp
    consider "li > ri" | "li < ri" | "li = ri" by linarith
    then have "?L + ?R < (x + 2) * ?B ^ m"
    proof cases
      case 1
      have "?B ^ (ri + fm) \<le> ?B ^ m" using 1 m by (intro power_increasing) auto
      with 1 L(2) R(1) cnt lb rb x m show ?thesis by (simp add: cmp_val_def add_mult_distrib)
    next
      case 2
      have "?B ^ (li + fm) \<le> ?B ^ m" using 2 m by (intro power_increasing) auto
      with 2 L(1) R(2) cnt lb rb x m show ?thesis by (simp add: cmp_val_def add_mult_distrib)
    next
      case 3
      with L(2) R(2) cnt lb rb x m show ?thesis by (simp add: cmp_val_def add_mult_distrib)
    qed
    also have "\<dots> \<le> ?B * ?B ^ m" using xb by (rule mult_le_mono1)
    finally show ?thesis using False iw m1 by simp
  qed
qed

section \<open>The largest decimals, verified\<close>

lemma fill_words_ok:
  "length old = n \<Longrightarrow> fill_words n (length pre) (pre @ old @ post) =
     Some (length pre + n, pre @ replicate n WORD_MAX @ post)"
proof (induction n arbitrary: pre old)
  case (Suc n)
  then obtain y ys where old: "old = y # ys" "length ys = n" by (cases old) auto
  have "set_at (pre @ old @ post) (length pre) WORD_MAX = Some (pre @ WORD_MAX # ys @ post)"
    using set_at_mid[of "length pre" pre] old by simp
  then show ?case using Suc.IH[OF old(2), of "pre @ [WORD_MAX]"] by simp
qed simp

lemma bval_replicate_max: "bval WORD_BASE (replicate n WORD_MAX) + 1 = WORD_BASE ^ n"
proof (induction n)
  case (Suc n)
  have "bval WORD_BASE (replicate (Suc n) WORD_MAX) + 1 =
      WORD_MAX * WORD_BASE ^ n + (bval WORD_BASE (replicate n WORD_MAX) + 1)" by simp
  also have "\<dots> = (WORD_MAX + 1) * WORD_BASE ^ n" unfolding Suc by simp
  finally show ?case by (simp add: WORD_MAX_def)
qed simp

lemma FRAC_MAX_nth: "0 < r \<Longrightarrow> r < 9 \<Longrightarrow> FRAC_MAX ! (r - 1) + 10 ^ (9 - r) = WORD_BASE"
proof -
  assume "0 < r" "r < 9"
  then have "r \<in> {1, 2, 3, 4, 5, 6, 7, 8}" by auto
  then show ?thesis by (auto simp: FRAC_MAX_def WORD_BASE_def)
qed

lemma word_cnt_div_mod:
  assumes "word_cnt n \<le> 9"
  shows "word_cnt n = n div 9 + (if n mod 9 > 0 then 1 else 0)"
proof -
  define q r where "q = n div 9" and "r = n mod 9"
  then have n: "n = r + 9 * q" "r < 9" by simp_all
  have "(r + 8) div 9 = (if r > 0 then 1 else 0)" using n(2) by (cases r) auto
  moreover have "(n + 8) div 9 = (r + 8) div 9 + q"
    unfolding n(1) using div_mult_self2[of 9 "r + 8" q] by (simp add: ac_simps)
  ultimately show ?thesis
    using assms by (auto simp: word_cnt_def q_def r_def split: if_splits)
qed

text \<open>The words of a part with only nines: the partial word first or last.\<close>

definition int_nines :: "nat \<Rightarrow> nat list" where
  "int_nines n = (if n mod 9 > 0 then [10 ^ (n mod 9) - 1] else []) @ replicate (n div 9) WORD_MAX"

definition frac_nines :: "nat \<Rightarrow> nat list" where
  "frac_nines n = replicate (n div 9) WORD_MAX @ (if n mod 9 > 0 then [FRAC_MAX ! (n mod 9 - 1)] else [])"

lemma length_nines:
  assumes "word_cnt n \<le> 9"
  shows "length (int_nines n) = word_cnt n" "length (frac_nines n) = word_cnt n"
  using word_cnt_div_mod[OF assms] by (auto simp: int_nines_def frac_nines_def)

lemma bval_int_nines: "bval WORD_BASE (int_nines n) + 1 = 10 ^ n"
proof -
  have "(10::nat) ^ n = 10 ^ (n mod 9 + 9 * (n div 9))" by simp
  also have "\<dots> = 10 ^ (n mod 9) * WORD_BASE ^ (n div 9)"
    by (simp only: power_add power_mult WORD_BASE_pow)
  finally have e: "(10::nat) ^ n = 10 ^ (n mod 9) * WORD_BASE ^ (n div 9)" .
  show ?thesis
  proof (cases "n mod 9 > 0")
    case True
    obtain k where k: "10 ^ (n mod 9) = Suc k" by (metis gr0_implies_Suc zero_less_power zero_less_numeral)
    with True show ?thesis
      using bval_replicate_max[of "n div 9"] e by (simp add: int_nines_def bval_append)
  next
    case False
    then show ?thesis using bval_replicate_max[of "n div 9"] e by (simp add: int_nines_def)
  qed
qed

lemma bval_frac_nines:
  assumes "word_cnt n \<le> 9"
  shows "bval WORD_BASE (frac_nines n) + 10 ^ (9 * word_cnt n - n) = WORD_BASE ^ word_cnt n"
proof (cases "n mod 9 > 0")
  case True
  then have w: "word_cnt n = Suc (n div 9)" "9 * word_cnt n - n = 9 - n mod 9"
    using word_cnt_div_mod[OF assms] by (auto, presburger)
  have "bval WORD_BASE (frac_nines n) + 10 ^ (9 - n mod 9) =
      bval WORD_BASE (replicate (n div 9) WORD_MAX) * WORD_BASE +
      (FRAC_MAX ! (n mod 9 - 1) + 10 ^ (9 - n mod 9))"
    using True by (simp add: frac_nines_def bval_append)
  also have "\<dots> = (bval WORD_BASE (replicate (n div 9) WORD_MAX) + 1) * WORD_BASE"
    using FRAC_MAX_nth[of "n mod 9"] True by simp
  finally show ?thesis unfolding bval_replicate_max w(2) by (simp add: w(1))
next
  case False
  then have w: "word_cnt n = n div 9" using word_cnt_div_mod[OF assms] by simp
  then have "9 * word_cnt n - n = 0" by simp
  then show ?thesis using bval_replicate_max[of "n div 9"] False w by (simp add: frac_nines_def)
qed

lemma below_nines: "below WORD_BASE (int_nines n)" "below WORD_BASE (frac_nines n)"
proof -
  have m: "WORD_MAX < WORD_BASE" by (simp add: WORD_MAX_def)
  have "n mod 9 < 9" by simp
  then have "(10::nat) ^ (n mod 9) < 10 ^ 9" by (rule power_strict_increasing) simp
  then have "10 ^ (n mod 9) - 1 < WORD_BASE" by (simp add: WORD_BASE_pow)
  then show "below WORD_BASE (int_nines n)" using m by (auto simp: int_nines_def below_def)
  have "n mod 9 > 0 \<Longrightarrow> FRAC_MAX ! (n mod 9 - 1) < WORD_BASE"
    using FRAC_MAX_nth[of "n mod 9"] zero_less_power[of "10::nat" "9 - n mod 9"]
    by (metis less_add_same_cancel1 mod_less_divisor zero_less_numeral)
  then show "below WORD_BASE (frac_nines n)" using m by (auto simp: frac_nines_def below_def)
qed

lemma max_decimal_buf:
  assumes "word_cnt ic + word_cnt fc \<le> 9"
  shows "max_decimal (ic + fc) fc = Some ((new_dec ic fc False)
    \<lparr>word_buf := int_nines ic @ frac_nines fc @ zeros (9 - word_cnt ic - word_cnt fc)\<rparr>)"
proof -
  let ?Z = "zeros (9 - word_cnt ic - word_cnt fc)"
  let ?I = "zeros (word_cnt ic)" and ?F = "zeros (word_cnt fc)"
  have w: "word_cnt ic = ic div 9 + (if ic mod 9 > 0 then 1 else 0)"
    "word_cnt fc = fc div 9 + (if fc mod 9 > 0 then 1 else 0)"
    using assms by (simp_all add: word_cnt_div_mod)
  have z9: "zeros 9 = ?I @ ?F @ ?Z" using assms by (simp flip: replicate_add)
  have i: "max_int_words ic (zeros 9) = Some (word_cnt ic, int_nines ic @ ?F @ ?Z)"
  proof (cases "ic mod 9 > 0")
    case True
    have "ic mod 9 < 9" by simp
    then have "get_at TEN_POW (ic mod 9) = Some (10 ^ (ic mod 9))" by (simp add: get_at_def)
    moreover have "set_at (zeros 9) 0 (10 ^ (ic mod 9) - 1) =
        Some ([10 ^ (ic mod 9) - 1] @ zeros (ic div 9) @ ?F @ ?Z)"
      unfolding z9 using True w by (simp add: set_at_def)
    moreover have "ic > 0" using True by (cases ic) auto
    ultimately show ?thesis
      using True w fill_words_ok[of "zeros (ic div 9)" "ic div 9" "[10 ^ (ic mod 9) - 1]" "?F @ ?Z"]
      by (simp add: int_nines_def max_int_words_def)
  next
    case False
    then show ?thesis
      using w fill_words_ok[of "zeros (ic div 9)" "ic div 9" "[]" "?F @ ?Z"]
      by (auto simp: int_nines_def z9 max_int_words_def)
  qed
  have lI: "length (int_nines ic) = word_cnt ic" using assms by (simp add: length_nines)
  have f: "max_frac_words fc (word_cnt ic) (int_nines ic @ ?F @ ?Z) =
      Some (int_nines ic @ frac_nines fc @ ?Z)"
  proof (cases "fc mod 9 > 0")
    case True
    have "fc mod 9 < 9" by simp
    then have g: "get_at FRAC_MAX (fc mod 9 - 1) = Some (FRAC_MAX ! (fc mod 9 - 1))"
      using True by (simp add: get_at_def FRAC_MAX_def)
    have F: "?F = zeros (fc div 9) @ [0]" using True w by (simp add: replicate_append_same)
    have "fill_words (fc div 9) (word_cnt ic) (int_nines ic @ ?F @ ?Z) =
        Some (word_cnt ic + fc div 9, (int_nines ic @ replicate (fc div 9) WORD_MAX) @ 0 # ?Z)"
      using fill_words_ok[of "zeros (fc div 9)" "fc div 9" "int_nines ic" "0 # ?Z"] lI F by simp
    moreover have "fc > 0" using True by (cases fc) auto
    ultimately show ?thesis
      using True g lI set_at_mid[of "word_cnt ic + fc div 9"
          "int_nines ic @ replicate (fc div 9) WORD_MAX" 0 ?Z]
      by (simp add: frac_nines_def max_frac_words_def)
  next
    case False
    then show ?thesis
      using w lI fill_words_ok[of "zeros (fc div 9)" "fc div 9" "int_nines ic" ?Z]
      by (auto simp: frac_nines_def max_frac_words_def)
  qed
  show ?thesis
    using i f by (simp add: max_decimal_def usub_def new_dec_def)
qed

text \<open>The largest decimal of a precision is \<open>10^ic - 10^-fc\<close>.\<close>

lemma max_decimal_ok:
  assumes "word_cnt ic + word_cnt fc \<le> 9" "0 < ic + fc"
  obtains d where "max_decimal (ic + fc) fc = Some d" "dec_ok d" "\<not> negative d"
    "int_cnt d = ic" "frac_cnt d = fc" "mag d = 10 ^ ic - 1 / 10 ^ fc"
proof -
  let ?B = WORD_BASE
  let ?d = "(new_dec ic fc False)
    \<lparr>word_buf := int_nines ic @ frac_nines fc @ zeros (9 - word_cnt ic - word_cnt fc)\<rparr>"
  have w: "word_cnt ic \<le> 9" "word_cnt fc \<le> 9" using assms by simp_all
  have u: "used ?d = int_nines ic @ frac_nines fc"
    using length_nines w by (simp add: used_def new_dec_def)
  have "dec_ok ?d"
    using length_nines w assms below_nines by (simp add: dec_ok_def new_dec_def)
  moreover have "mag ?d = 10 ^ ic - 1 / 10 ^ fc"
  proof -
    have I: "(of_nat (bval ?B (int_nines ic)) :: rat) = 10 ^ ic - 1"
      using arg_cong[OF bval_int_nines[of ic], of "of_nat :: nat \<Rightarrow> rat"] by simp
    have F: "(of_nat (bval ?B (frac_nines fc)) :: rat) =
        of_nat ?B ^ word_cnt fc - 10 ^ (9 * word_cnt fc - fc)"
      using arg_cong[OF bval_frac_nines[OF w(2)], of "of_nat :: nat \<Rightarrow> rat"]
      by (simp add: algebra_simps)
    have b: "(of_nat ?B :: rat) ^ word_cnt fc = 10 ^ fc * 10 ^ (9 * word_cnt fc - fc)"
    proof -
      have "(of_nat ?B :: rat) = 10 ^ 9" by (simp add: WORD_BASE_def)
      then have "(of_nat ?B :: rat) ^ word_cnt fc = 10 ^ (9 * word_cnt fc)"
        by (simp only: power_mult)
      also have "9 * word_cnt fc = fc + (9 * word_cnt fc - fc)" using word_cnt_ge[OF w(2)] by simp
      finally show ?thesis by (simp only: power_add)
    qed
    show ?thesis
      unfolding mag_def u bval_append of_nat_add of_nat_mult I F
      by (simp add: length_nines w new_dec_def add_divide_distrib diff_divide_distrib)
        (simp add: b)
  qed
  ultimately show thesis
    using that max_decimal_buf[OF assms(1)] by (simp add: new_dec_def)
qed

section \<open>\<open>do_add\<close>, verified\<close>

text \<open>The magnitude cut to at most \<open>f\<close> fraction words.\<close>

definition cut_mag :: "decimal \<Rightarrow> nat \<Rightarrow> rat" where
  "cut_mag d f = of_nat (bval WORD_BASE (take (int_words d + min f (frac_words d)) (word_buf d))) /
     of_nat WORD_BASE ^ min f (frac_words d)"

lemma cut_mag_all: "frac_words d \<le> f \<Longrightarrow> cut_mag d f = mag d"
  by (simp add: cut_mag_def mag_def used_def min_absorb2)

lemma cut_mag_bounds:
  assumes "dec_ok d"
  shows "cut_mag d f \<le> mag d" "mag d < cut_mag d f + 1 / of_nat WORD_BASE ^ f"
proof -
  let ?B = "of_nat WORD_BASE :: rat"
  have "cut_mag d f \<le> mag d \<and> mag d < cut_mag d f + 1 / ?B ^ f"
  proof (cases "frac_words d \<le> f")
    case True
    then show ?thesis by (simp add: cut_mag_all)
  next
    case False
    define A C where A: "A = take (int_words d + f) (word_buf d)"
      and C: "C = take (frac_words d - f) (drop (int_words d + f) (word_buf d))"
    have u: "used d = A @ C" "length C = frac_words d - f"
      using False dec_okD[OF assms] take_add[of "int_words d + f" "frac_words d - f" "word_buf d"]
      by (simp_all add: used_def A C)
    have "below WORD_BASE C" using dec_okD(6)[OF assms] u by simp
    have pw: "?B ^ frac_words d = ?B ^ f * ?B ^ (frac_words d - f)"
      using False by (simp flip: power_add)
    have "mag d = of_nat (bval WORD_BASE A) / ?B ^ f + of_nat (bval WORD_BASE C) / ?B ^ frac_words d"
      using u by (simp add: mag_def bval_append add_divide_distrib pw)
    moreover have "of_nat (bval WORD_BASE C) < ?B ^ (frac_words d - f)"
      using bval_less[OF \<open>below WORD_BASE C\<close>] u(2) by (metis of_nat_less_iff of_nat_power)
    then have "of_nat (bval WORD_BASE C) / ?B ^ frac_words d < 1 / ?B ^ f"
      by (simp add: pw field_simps)
    ultimately show ?thesis using False by (simp add: cut_mag_def A min_absorb1)
  qed
  then show "cut_mag d f \<le> mag d" "mag d < cut_mag d f + 1 / ?B ^ f" by auto
qed

lemma mag_head:
  assumes "dec_ok d" "int_words d = Suc n"
  shows "of_nat (word_buf d ! 0) * of_nat WORD_BASE ^ n \<le> mag d"
proof -
  obtain w ws where w: "word_buf d = w # ws" using dec_okD(1)[OF assms(1)] by (cases "word_buf d") auto
  have "used d = w # take (n + frac_words d) ws" using assms w by (simp add: used_def)
  moreover have "n + frac_words d \<le> length ws" using dec_okD[OF assms(1)] assms(2) w by simp
  ultimately have "bval WORD_BASE (used d) \<ge> w * WORD_BASE ^ (n + frac_words d)"
    by (simp add: min_absorb2)
  then have "of_nat (w * WORD_BASE ^ (n + frac_words d)) \<le> (of_nat (bval WORD_BASE (used d)) :: rat)"
    by (simp only: of_nat_le_iff)
  then show ?thesis by (simp add: mag_def w field_simps power_add)
qed

lemma scale_div:
  "f \<le> fm \<Longrightarrow> (of_nat (v * WORD_BASE ^ (fm - f)) :: rat) / of_nat WORD_BASE ^ fm =
     of_nat v / of_nat WORD_BASE ^ f"
  by (simp add: field_simps flip: power_add)

lemma mag_new:
  assumes "length buf = 9" "below WORD_BASE buf" "iw + fw \<le> 9" "0 < iw + fw" "word_cnt fc = fw"
  shows "dec_ok ((new_dec (iw * 9) fc neg)\<lparr>word_buf := buf\<rparr>)"
    "mag ((new_dec (iw * 9) fc neg)\<lparr>word_buf := buf\<rparr>) =
       of_nat (bval WORD_BASE (take (iw + fw) buf)) / of_nat WORD_BASE ^ fw"
proof -
  have "iw \<le> 9" "iw > 0 \<or> fc > 0" using assms word_cnt_pos[of fc] by auto
  then show "dec_ok ((new_dec (iw * 9) fc neg)\<lparr>word_buf := buf\<rparr>)"
    "mag ((new_dec (iw * 9) fc neg)\<lparr>word_buf := buf\<rparr>) =
       of_nat (bval WORD_BASE (take (iw + fw) buf)) / of_nat WORD_BASE ^ fw"
    using assms by (simp_all add: dec_ok_def new_dec_def mag_def used_def)
qed

lemma do_add_cases:
  assumes l: "dec_ok l" and r: "dec_ok r"
  obtains
    (exact) d where "do_add l r = Some (Ok d)" "dec_ok d" "negative d = negative l"
      "frac_cnt d = max (frac_cnt l) (frac_cnt r)" "mag d = mag l + mag r"
  | (trunc) d where "do_add l r = Some (Truncated d)" "dec_ok d" "negative d = negative l"
      "mag d \<le> mag l + mag r" "mag l + mag r < mag d + 2 / of_nat WORD_BASE ^ frac_words d"
  | (over) m where "do_add l r = Some (OverCausetxctx m)" "max_decimal 81 0 = Some m"
      "of_nat WORD_MAX * of_nat WORD_BASE ^ 8 \<le> mag l + mag r"
proof -
  let ?B = "of_nat WORD_BASE :: rat"
  define li lf ri rf where c: "li = int_words l" "lf = frac_words l" "ri = int_words r" "rf = frac_words r"
  define lb rb where b: "lb = word_buf l" "rb = word_buf r"
  have lb: "below WORD_BASE lb" "length lb = 9" and rb: "below WORD_BASE rb" "length rb = 9"
    and cnt: "li + lf \<le> 9" "ri + rf \<le> 9" "0 < li + lf" "0 < ri + rf"
    using dec_okD[OF l] dec_okD[OF r] by (simp_all add: c b)
  define x where x: "x = (case cmp_val li ri of Greater \<Rightarrow> lb ! 0 | Less \<Rightarrow> rb ! 0 | Equal \<Rightarrow> lb ! 0 + rb ! 0)"
  define iw fm where iw: "iw = (if x > WORD_MAX - 1 then max li ri + 1 else max li ri)"
    and fm: "fm = max lf rf"
  have x0: "(case cmp_val li ri of Greater \<Rightarrow> get_at lb 0 | Less \<Rightarrow> get_at rb 0
          | Equal \<Rightarrow> do { a \<leftarrow> get_at lb 0; b \<leftarrow> get_at rb 0; uadd 32 a b }) = Some x"
  proof -
    have "lb ! 0 + rb ! 0 < 2 ^ 32"
      using below_nth[OF lb(1), of 0] below_nth[OF rb(1), of 0] lb rb WORD_BASE_u32(1) by linarith
    then show ?thesis using lb rb by (auto simp: x get_at_def uadd_def split: partitioning.split)
  qed
  have miw: "max li ri \<le> iw" "iw \<le> max li ri + 1" by (auto simp: iw)
  consider (fits) "iw + fm \<le> 9" | (cut) "iw + fm > 9" "iw \<le> 9" | (big) "iw > 9" by linarith
  then show thesis
  proof cases
    case fits
    have room: "bval WORD_BASE (take (li + lf) lb) * WORD_BASE ^ (fm - lf) +
        bval WORD_BASE (take (ri + rf) rb) * WORD_BASE ^ (fm - rf) < WORD_BASE ^ (iw + fm)"
      by (rule add_room[OF lb rb cnt(1,2) _ _ _ x iw]) (use cnt fm in auto)
    from do_add_words_ok[OF lb rb cnt(1,2) miw(1), folded fm, OF fits room]
    obtain buf where buf: "do_add_words lb rb li lf ri rf (iw + fm) (zeros 9) = Some buf"
      "length buf = 9" "below WORD_BASE buf"
      "bval WORD_BASE (take (iw + fm) buf) = bval WORD_BASE (take (li + lf) lb) * WORD_BASE ^ (fm - lf) +
        bval WORD_BASE (take (ri + rf) rb) * WORD_BASE ^ (fm - rf)" by blast
    let ?d = "(new_dec (iw * 9) (max (frac_cnt l) (frac_cnt r)) (negative l))\<lparr>word_buf := buf\<rparr>"
    have fw: "word_cnt (max (frac_cnt l) (frac_cnt r)) = fm" by (simp add: word_cnt_max fm c)
    have "0 < iw + fm" using cnt miw fm by auto
    note d = mag_new[OF buf(2,3) fits this fw, of "negative l"]
    have "fix_word_cnt_err iw fm 9 = Ok (iw, fm)" using fits by (simp add: fix_word_cnt_err_def)
    then have "do_add l r = Some (Ok ?d)"
      using x0 buf(1) unfolding c b iw fm by (simp add: do_add_def new_dec_def)
    moreover have "mag ?d = mag l + mag r"
      unfolding d(2) buf(4) of_nat_add add_divide_distrib
      using scale_div[of lf fm] scale_div[of rf fm] by (simp add: fm mag_def used_def c b)
    ultimately show thesis using exact d(1) by (simp add: new_dec_def)
  next
    case cut
    define fw where fw: "fw = 9 - iw"
    have fwm: "fw < fm" "iw + fw = 9" using cut fw by auto
    have mm: "max (min fw lf) (min rf fw) = fw" "min li iw = li" "min ri iw = ri"
      using fwm fm miw by auto
    have eq0: "li = ri \<Longrightarrow> 0 < li + min fw lf \<and> 0 < ri + min rf fw"
      using cnt miw fwm by (auto simp: min_def)
    have room: "bval WORD_BASE (take (li + min fw lf) lb) * WORD_BASE ^ (fw - min fw lf) +
        bval WORD_BASE (take (ri + min rf fw) rb) * WORD_BASE ^ (fw - min rf fw) < WORD_BASE ^ (iw + fw)"
      by (rule add_room[OF lb rb _ _ _ _ eq0 x iw]) (use cnt in auto)
    have le: "li + min fw lf \<le> 9" "ri + min rf fw \<le> 9" "iw + fw \<le> 9" using cnt fwm by auto
    from do_add_words_ok[OF lb rb le(1,2) miw(1), unfolded mm, OF le(3) room]
    obtain buf where buf:
      "do_add_words lb rb li (min fw lf) ri (min rf fw) (iw + fw) (zeros 9) = Some buf"
      "length buf = 9" "below WORD_BASE buf"
      "bval WORD_BASE (take (iw + fw) buf) =
        bval WORD_BASE (take (li + min fw lf) lb) * WORD_BASE ^ (fw - min fw lf) +
        bval WORD_BASE (take (ri + min rf fw) rb) * WORD_BASE ^ (fw - min rf fw)" by blast
    have fc: "min (fw * 9) (max (frac_cnt l) (frac_cnt r)) = fw * 9"
    proof -
      have "\<not> max (frac_cnt l) (frac_cnt r) \<le> fw * 9"
        using word_cnt_mono[of "max (frac_cnt l) (frac_cnt r)" "fw * 9"] fwm
        by (auto simp: word_cnt_max fm c)
      then show ?thesis by linarith
    qed
    let ?d = "(new_dec (iw * 9) (fw * 9) (negative l))\<lparr>word_buf := buf\<rparr>"
    have w: "word_cnt (fw * 9) = fw" using fwm by simp
    note d = mag_new[OF buf(2,3) le(3) _ w, of "negative l"]
    have "fix_word_cnt_err iw fm 9 = Truncated (iw, fw)" using cut fw by (simp add: fix_word_cnt_err_def)
    then have "do_add l r = Some (Truncated ?d)"
      using x0 buf(1) mm fc unfolding c b iw fm by (simp add: do_add_def new_dec_def)
    moreover have "mag ?d = cut_mag l fw + cut_mag r fw"
      using d(2) fwm scale_div[of "min fw lf" fw] scale_div[of "min rf fw" fw]
      unfolding buf(4) of_nat_add add_divide_distrib
      by (simp add: cut_mag_def c b min.commute)
    ultimately show thesis
      using trunc d(1) fwm w cut_mag_bounds[OF l, of fw] cut_mag_bounds[OF r, of fw]
      by (simp add: new_dec_def)
  next
    case big
    have m9: "max li ri = 9" "x \<ge> WORD_MAX" using big miw cnt iw by (auto split: if_splits)
    obtain m where m: "max_decimal 81 0 = Some m" using max_decimal_ok[of 81 0] by (auto simp: word_cnt_def)
    have "fix_word_cnt_err iw fm 9 = OverCausetxctx (9, 0)" using big by (simp add: fix_word_cnt_err_def)
    then have "do_add l r = Some (OverCausetxctx m)"
      using x0 m unfolding c b iw fm by (simp add: do_add_def)
    moreover have "of_nat WORD_MAX * ?B ^ 8 \<le> mag l + mag r"
    proof -
      note h = mag_head[OF l, of 8, folded c b] mag_head[OF r, of 8, folded c b]
      have x': "of_nat WORD_MAX * ?B ^ 8 \<le> of_nat x * ?B ^ 8"
        using m9 by (intro mult_right_mono) simp_all
      consider "li = 9" "ri < 9" | "ri = 9" "li < 9" | "li = 9" "ri = 9"
        using m9 cnt by (auto simp: max_def split: if_splits) linarith
      then have "of_nat x * ?B ^ 8 \<le> mag l + mag r"
        by cases (use h mag_nonneg[of l] mag_nonneg[of r] in
            \<open>auto simp: x cmp_val_def distrib_right\<close>)
      with x' show ?thesis by (rule order_trans)
    qed
    ultimately show thesis using over m by simp
  qed
qed

section \<open>Properties\<close>

text \<open>
  \<open>do_add\<close> on well-formed operands never panics. Its \<open>Ok\<close> result is the exact sum of the
  magnitudes with the sign of the left operand; a \<open>Truncated\<close> result is below the sum by less
  than two units of its last fraction word; overflow is only reported when the sum reaches
  \<open>WORD_MAX * WORD_BASE^8\<close>, and then the result is the largest decimal.
\<close>

theorem do_add_correct:
  assumes "dec_ok l" "dec_ok r"
  shows "(\<exists>d. do_add l r = Some (Ok d) \<and> dec_ok d \<and> negative d = negative l \<and>
      frac_cnt d = max (frac_cnt l) (frac_cnt r) \<and> mag d = mag l + mag r) \<or>
    (\<exists>d. do_add l r = Some (Truncated d) \<and> dec_ok d \<and> negative d = negative l \<and>
      mag d \<le> mag l + mag r \<and> mag l + mag r < mag d + 2 / of_nat WORD_BASE ^ frac_words d) \<or>
    (\<exists>m. do_add l r = Some (OverCausetxctx m) \<and> max_decimal 81 0 = Some m \<and>
      of_nat WORD_MAX * of_nat WORD_BASE ^ 8 \<le> mag l + mag r)"
  by (rule do_add_cases[OF assms]) blast+

theorem do_add_correct_witness:
  fixes l r :: decimal
  defines "l \<equiv> dec_words 9 9 False [999999998, 999999999]"
    and "r \<equiv> dec_words 1 9 False [1, 1]"
  shows "dec_ok l \<and> dec_ok r \<and>
   ((\<exists>d. do_add l r = Some (Ok d) \<and> dec_ok d \<and> negative d = negative l \<and>
      frac_cnt d = max (frac_cnt l) (frac_cnt r) \<and> mag d = mag l + mag r) \<or>
    (\<exists>d. do_add l r = Some (Truncated d) \<and> dec_ok d \<and> negative d = negative l \<and>
      mag d \<le> mag l + mag r \<and> mag l + mag r < mag d + 2 / of_nat WORD_BASE ^ frac_words d) \<or>
    (\<exists>m. do_add l r = Some (OverCausetxctx m) \<and> max_decimal 81 0 = Some m \<and>
      of_nat WORD_MAX * of_nat WORD_BASE ^ 8 \<le> mag l + mag r))"
proof -
  have "dec_ok l" "dec_ok r" by (simp_all add: l_def r_def dec_words_defs)
  with do_add_correct[OF this] show ?thesis by blast
qed

text \<open>
  \<open>max_decimal\<close> of a precision that fits the buffer does not panic and is the decimal
  \<open>10^ic - 10^-fc\<close>: every other decimal of the precision is below it.
\<close>

theorem max_decimal_value:
  assumes "word_cnt ic + word_cnt fc \<le> WORD_BUF_LEN" "0 < ic + fc"
  shows "\<exists>d. max_decimal (ic + fc) fc = Some d \<and> dec_ok d \<and> int_cnt d = ic \<and> frac_cnt d = fc \<and>
    dec_value d = 10 ^ ic - 1 / 10 ^ fc"
  by (rule max_decimal_ok[of ic fc]) (use assms in \<open>auto simp: dec_value_def\<close>)

theorem max_decimal_value_witness:
  "word_cnt 5 + word_cnt 2 \<le> WORD_BUF_LEN \<and> 0 < (5::nat) + 2 \<and>
   (\<exists>d. max_decimal (5 + 2) 2 = Some d \<and> dec_ok d \<and> int_cnt d = 5 \<and> frac_cnt d = 2 \<and>
    dec_value d = 10 ^ 5 - 1 / 10 ^ 2)"
  using max_decimal_value[of 5 2] by (simp add: word_cnt_def)

end
