(* ===== verification/Decimal_Sub.thy ===== *)
theory Decimal_Sub
  imports Decimal_Add
begin

text \<open>
  Comparison and subtraction of decimals: \<open>calc_sub_carry\<close>, \<open>do_sub\<close>, the \<open>Ord\<close>, \<open>Hash\<close>,
  \<open>Add\<close> and \<open>Sub\<close> implementations of \<open>src/berolinasql/src/decimal.rs\<close>.
\<close>

section \<open>Comparing magnitudes\<close>

text \<open>\<open>while idx < stop && buf[idx] == 0 { idx += 1 }\<close>\<close>

function skip_zeros_up :: "nat list \<Rightarrow> nat \<Rightarrow> nat \<Rightarrow> nat option" where
  "skip_zeros_up buf idx stop =
     (if idx < stop
      then do {
        w \<leftarrow> get_at buf idx;
        if w = 0 then skip_zeros_up buf (idx + 1) stop else Some idx }
      else Some idx)"
  by pat_completeness auto
termination
  by (relation "measure (\<lambda>(buf, idx, stop). stop - idx)") auto

text \<open>\<open>while idx as isize <= end && buf[end as usize] == 0 { end -= 1 }\<close>\<close>

function trim_zeros_down :: "nat list \<Rightarrow> nat \<Rightarrow> int \<Rightarrow> int option" where
  "trim_zeros_down buf idx e =
     (if int idx \<le> e
      then do {
        w \<leftarrow> get_at buf (nat e);
        if w = 0 then trim_zeros_down buf idx (e - 1) else Some e }
      else Some e)"
  by pat_completeness auto
termination
  by (relation "measure (\<lambda>(buf, idx, e). nat (e + 1 - int idx))") auto

text \<open>Skipping the common prefix of the two operands.\<close>

function skip_equal ::
    "nat list \<Rightarrow> nat list \<Rightarrow> nat \<Rightarrow> int \<Rightarrow> nat \<Rightarrow> int \<Rightarrow> (nat \<times> nat) option" where
  "skip_equal lb rb l_idx l_end r_idx r_end =
     (if int l_idx \<le> l_end \<and> int r_idx \<le> r_end
      then do {
        x \<leftarrow> get_at lb l_idx;
        y \<leftarrow> get_at rb r_idx;
        if x = y then skip_equal lb rb (l_idx + 1) l_end (r_idx + 1) r_end
        else Some (l_idx, r_idx) }
      else Some (l_idx, r_idx))"
  by pat_completeness auto
termination
  by (relation "measure (\<lambda>(lb, rb, l_idx, l_end, r_idx, r_end). nat (l_end + 1 - int l_idx))") auto

declare skip_zeros_up.simps [simp del] trim_zeros_down.simps [simp del] skip_equal.simps [simp del]

type_synonym sub_tmp = "nat \<times> nat \<times> nat"

text \<open>
  The case \<open>Partitioning::Equal\<close> of \<open>calc_sub_carry\<close>: the carry and the two fraction word
  counts without trailing zero words.
\<close>

definition calc_equal_carry ::
    "nat list \<Rightarrow> nat list \<Rightarrow> nat \<Rightarrow> nat \<Rightarrow> nat \<Rightarrow> nat \<Rightarrow> nat \<Rightarrow> nat \<Rightarrow> (int option \<times> nat \<times> nat) option"
  where
  "calc_equal_carry lb rb l_idx l_stop l_frac r_idx r_stop r_frac = do {
     l_end \<leftarrow> usub (l_stop + l_frac) 1;
     r_end \<leftarrow> usub (r_stop + r_frac) 1;
     l_end \<leftarrow> trim_zeros_down lb l_idx (int l_end);
     r_end \<leftarrow> trim_zeros_down rb r_idx (int r_end);
     let l_frac = as_unsigned 8 (max 0 (l_end + 1 - int l_stop));
     let r_frac = as_unsigned 8 (max 0 (r_end + 1 - int r_stop));
     (l_idx, r_idx) \<leftarrow> skip_equal lb rb l_idx l_end r_idx r_end;
     carry \<leftarrow>
       (if int l_idx \<le> l_end
        then (if int r_idx \<le> r_end
              then do {
                y \<leftarrow> get_at rb r_idx;
                x \<leftarrow> get_at lb l_idx;
                Some (if y > x then Some 1 else Some 0) }
              else Some (Some 0))
        else Some (if int r_idx \<le> r_end then Some 1 else None));
     Some (carry, l_frac, r_frac) }"

definition calc_sub_carry ::
    "decimal \<Rightarrow> decimal \<Rightarrow> (int option \<times> nat \<times> sub_tmp \<times> sub_tmp) option" where
  "calc_sub_carry lhs rhs = do {
     let (l_int, l_frac) = (word_cnt (int_cnt lhs), word_cnt (frac_cnt lhs));
     let (r_int, r_frac) = (word_cnt (int_cnt rhs), word_cnt (frac_cnt rhs));
     let frac_word_to = max l_frac r_frac;
     let l_stop = l_int;
     l_idx \<leftarrow> skip_zeros_up (word_buf lhs) 0 l_stop;
     let (l_start, l_int) = (l_idx, l_stop - l_idx);
     let r_stop = r_int;
     r_idx \<leftarrow> skip_zeros_up (word_buf rhs) 0 r_stop;
     let (r_start, r_int) = (r_idx, r_stop - r_idx);
     (carry, l_frac, r_frac) \<leftarrow>
       (case cmp_val r_int l_int of
          Greater \<Rightarrow> Some (Some 1, l_frac, r_frac)
        | Equal \<Rightarrow> calc_equal_carry (word_buf lhs) (word_buf rhs) l_idx l_stop l_frac r_idx r_stop r_frac
        | Less \<Rightarrow> Some (Some 0, l_frac, r_frac));
     Some (carry, frac_word_to, (l_start, l_int, l_frac), (r_start, r_int, r_frac)) }"

section \<open>\<open>Ord\<close> and \<open>Hash\<close>\<close>

definition cmp_dec :: "decimal \<Rightarrow> decimal \<Rightarrow> partitioning option" where
  "cmp_dec l r =
     (if negative l = negative r
      then do {
        (carry, _, _, _) \<leftarrow> calc_sub_carry l r;
        Some (case carry of None \<Rightarrow> Equal
              | Some c \<Rightarrow> if (c > 0) = negative l then Greater else Less) }
      else Some (if negative l then Less else Greater))"

definition eq_dec :: "decimal \<Rightarrow> decimal \<Rightarrow> bool option" where
  "eq_dec l r = do { c \<leftarrow> cmp_dec l r; Some (c = Equal) }"

text \<open>The three values \<open>Hash\<close> feeds to the hasher.\<close>

definition hash_input :: "decimal \<Rightarrow> (nat \<times> nat list \<times> bool) option" where
  "hash_input d = do {
     let (stop, frac_word_cnt) = (word_cnt (int_cnt d), word_cnt (frac_cnt d));
     start \<leftarrow> skip_zeros_up (word_buf d) 0 stop;
     e \<leftarrow> usub (stop + frac_word_cnt) 1;
     e \<leftarrow> trim_zeros_down (word_buf d) start (int e);
     ws \<leftarrow> slice_at (word_buf d) start (nat (e + 1));
     Some (stop - start, ws, negative d \<and> int start \<le> e) }"

section \<open>Subtracting magnitudes\<close>

text \<open>\<open>while r_idx > r_stop\<close>: subtract the longer fraction of \<open>rhs\<close> from nothing.\<close>

fun sub_zero_down ::
    "nat list \<Rightarrow> nat \<Rightarrow> nat \<Rightarrow> nat \<Rightarrow> int \<Rightarrow> nat list \<Rightarrow> (nat \<times> nat \<times> int \<times> nat list) option" where
  "sub_zero_down rs r_idx r_stop idx_to carry buf =
     (if r_idx > r_stop
      then do {
        idx_to \<leftarrow> usub idx_to 1;
        y \<leftarrow> get_at rs (r_idx - 1);
        (s, carry) \<leftarrow> sub_word 0 y carry;
        buf \<leftarrow> set_at buf idx_to s;
        sub_zero_down rs (r_idx - 1) r_stop idx_to carry buf }
      else Some (r_idx, idx_to, carry, buf))"

text \<open>\<open>while r_idx > r_start\<close>: subtract the words of both operands.\<close>

fun sub_words_down ::
    "nat list \<Rightarrow> nat list \<Rightarrow> nat \<Rightarrow> nat \<Rightarrow> nat \<Rightarrow> nat \<Rightarrow> int \<Rightarrow> nat list \<Rightarrow>
     (nat \<times> nat \<times> int \<times> nat list) option" where
  "sub_words_down ls rs l_idx r_idx r_start idx_to carry buf =
     (if r_idx > r_start
      then do {
        idx_to \<leftarrow> usub idx_to 1;
        l_idx \<leftarrow> usub l_idx 1;
        x \<leftarrow> get_at ls l_idx;
        y \<leftarrow> get_at rs (r_idx - 1);
        (s, carry) \<leftarrow> sub_word x y carry;
        buf \<leftarrow> set_at buf idx_to s;
        sub_words_down ls rs l_idx (r_idx - 1) r_start idx_to carry buf }
      else Some (l_idx, idx_to, carry, buf))"

text \<open>\<open>while carry > 0 && l_idx > l_start\<close>: propagate the borrow.\<close>

fun sub_carry_down ::
    "nat list \<Rightarrow> nat \<Rightarrow> nat \<Rightarrow> nat \<Rightarrow> int \<Rightarrow> nat list \<Rightarrow> (nat \<times> nat \<times> nat list) option" where
  "sub_carry_down ls l_idx l_start idx_to carry buf =
     (if carry > 0 \<and> l_idx > l_start
      then do {
        idx_to \<leftarrow> usub idx_to 1;
        x \<leftarrow> get_at ls (l_idx - 1);
        (s, carry) \<leftarrow> sub_word x 0 carry;
        buf \<leftarrow> set_at buf idx_to s;
        sub_carry_down ls (l_idx - 1) l_start idx_to carry buf }
      else Some (l_idx, idx_to, buf))"

declare sub_zero_down.simps [simp del] sub_words_down.simps [simp del]
  sub_carry_down.simps [simp del]

text \<open>
  The part of \<open>do_sub\<close> after the size of the result is fixed, \<open>lb\<close> being the operand with
  the larger magnitude.
\<close>

definition do_sub_words ::
    "nat list \<Rightarrow> nat list \<Rightarrow> sub_tmp \<Rightarrow> sub_tmp \<Rightarrow> nat \<Rightarrow> nat \<Rightarrow> nat list \<Rightarrow> nat list option" where
  "do_sub_words lb rb l_tmp r_tmp frac_word_to idx_to buf = do {
     let (l_start, l_int, l_frac) = l_tmp;
     let (r_start, r_int, r_frac) = r_tmp;
     let l_idx = l_start + l_int + l_frac;
     let r_idx = r_start + r_int + r_frac;
     (l_idx, r_idx, idx_to, carry, buf) \<leftarrow>
       (if l_frac > r_frac
        then do {
          let l_stop = l_start + l_int + r_frac;
          idx_to \<leftarrow> (if l_frac < frac_word_to then usub idx_to (frac_word_to - l_frac) else Some idx_to);
          (l_idx, idx_to, buf) \<leftarrow> copy_words_down lb l_idx l_stop idx_to buf;
          Some (l_idx, r_idx, idx_to, 0, buf) }
        else do {
          let r_stop = r_start + r_int + l_frac;
          idx_to \<leftarrow> (if frac_word_to > r_frac then usub idx_to (frac_word_to - r_frac) else Some idx_to);
          (r_idx, idx_to, carry, buf) \<leftarrow> sub_zero_down rb r_idx r_stop idx_to 0 buf;
          Some (l_idx, r_idx, idx_to, carry, buf) });
     (l_idx, idx_to, carry, buf) \<leftarrow> sub_words_down lb rb l_idx r_idx r_start idx_to carry buf;
     (l_idx, idx_to, buf) \<leftarrow> sub_carry_down lb l_idx l_start idx_to carry buf;
     (l_idx, idx_to, buf) \<leftarrow> copy_words_down lb l_idx l_start idx_to buf;
     Some buf }"

text \<open>\<open>do_sub\<close> after the operands are swapped so that \<open>lhs\<close> has the larger magnitude.\<close>

definition do_sub_ordered ::
    "decimal \<Rightarrow> decimal \<Rightarrow> sub_tmp \<Rightarrow> sub_tmp \<Rightarrow> nat \<Rightarrow> bool \<Rightarrow> decimal res option" where
  "do_sub_ordered lhs rhs l_res r_res frac_word_to neg = do {
     let (l_start, l_int, l_frac) = l_res;
     let (r_start, r_int, r_frac) = r_res;
     let sz = fix_word_cnt_err l_int frac_word_to WORD_BUF_LEN;
     let (l_int, frac_word_to) = deref sz;
     let fc = max (frac_cnt lhs) (frac_cnt rhs);
     let (fc, l_frac, r_frac, r_int) =
       (if is_ok sz then (fc, l_frac, r_frac, r_int)
        else (min fc (frac_word_to * DIGITS_PER_WORD), min l_frac frac_word_to,
              min r_frac frac_word_to, min r_int l_int));
     let d = new_dec (l_int * DIGITS_PER_WORD) fc neg;
     buf \<leftarrow> do_sub_words (word_buf lhs) (word_buf rhs) (l_start, l_int, l_frac)
             (r_start, r_int, r_frac) frac_word_to (l_int + frac_word_to) (word_buf d);
     Some (res_map (\<lambda>_. d\<lparr>word_buf := buf\<rparr>) sz) }"

definition do_sub :: "decimal \<Rightarrow> decimal \<Rightarrow> decimal res option" where
  "do_sub lhs rhs = do {
     (carry, frac_word_to, l_res, r_res) \<leftarrow> calc_sub_carry lhs rhs;
     case carry of
       None \<Rightarrow> Some (Ok zero_dec)
     | Some carry \<Rightarrow>
         (if carry > 0 then do_sub_ordered rhs lhs r_res l_res frac_word_to (\<not> negative lhs)
          else do_sub_ordered lhs rhs l_res r_res frac_word_to (negative lhs)) }"

section \<open>The operators\<close>

definition add_dec :: "decimal \<Rightarrow> decimal \<Rightarrow> decimal res option" where
  "add_dec l r = do {
     res \<leftarrow> (if negative l = negative r then do_add l r else do_sub l r);
     Some (res_map (\<lambda>d. d\<lparr>result_frac_cnt := max (result_frac_cnt l) (result_frac_cnt r)\<rparr>) res) }"

definition sub_dec :: "decimal \<Rightarrow> decimal \<Rightarrow> decimal res option" where
  "sub_dec l r = do {
     res \<leftarrow> (if negative l = negative r then do_sub l r else do_add l r);
     Some (res_map (\<lambda>d. d\<lparr>result_frac_cnt := max (result_frac_cnt l) (result_frac_cnt r)\<rparr>) res) }"


section \<open>Stripping zero words\<close>

lemma skip_zeros_up_ok:
  "i \<le> stop \<Longrightarrow> stop \<le> length buf \<Longrightarrow>
   \<exists>k. skip_zeros_up buf i stop = Some k \<and> i \<le> k \<and> k \<le> stop \<and>
     (\<forall>j. i \<le> j \<and> j < k \<longrightarrow> buf ! j = 0) \<and> (k < stop \<longrightarrow> buf ! k \<noteq> 0)"
proof (induction "stop - i" arbitrary: i)
  case 0
  then show ?case by (subst skip_zeros_up.simps) auto
next
  case (Suc n)
  show ?case
  proof (cases "buf ! i = 0")
    case True
    have "n = stop - Suc i" "Suc i \<le> stop" using Suc.hyps(2) by auto
    from Suc.hyps(1)[OF this(1) this(2) Suc.prems(2)] obtain k where k:
      "skip_zeros_up buf (Suc i) stop = Some k" "Suc i \<le> k" "k \<le> stop"
      "\<forall>j. Suc i \<le> j \<and> j < k \<longrightarrow> buf ! j = 0" "k < stop \<longrightarrow> buf ! k \<noteq> 0" by blast
    have "\<forall>j. i \<le> j \<and> j < k \<longrightarrow> buf ! j = 0" using k(4) True by (metis le_eq_less_or_eq Suc_leI)
    moreover have "skip_zeros_up buf i stop = Some k"
      using True k(1) Suc.prems \<open>Suc i \<le> stop\<close> by (subst skip_zeros_up.simps) (simp add: get_at_def)
    ultimately show ?thesis using k by (intro exI[of _ k]) simp
  next
    case False
    then have "skip_zeros_up buf i stop = Some i"
      using Suc.hyps(2) Suc.prems by (subst skip_zeros_up.simps) (simp add: get_at_def)
    then show ?thesis using False Suc.prems by (intro exI[of _ i]) simp
  qed
qed

lemma trim_zeros_down_ok:
  "i \<le> n \<Longrightarrow> n \<le> length buf \<Longrightarrow>
   \<exists>k. trim_zeros_down buf i (int n - 1) = Some (int k - 1) \<and> i \<le> k \<and> k \<le> n \<and>
     (\<forall>j. k \<le> j \<and> j < n \<longrightarrow> buf ! j = 0) \<and> (i < k \<longrightarrow> buf ! (k - 1) \<noteq> 0)"
proof (induction n)
  case 0
  then show ?case by (subst trim_zeros_down.simps) auto
next
  case (Suc n)
  show ?case
  proof (cases "i \<le> n \<and> buf ! n = 0")
    case True
    from Suc.IH[OF conjunct1[OF True]] Suc.prems obtain k where k:
      "trim_zeros_down buf i (int n - 1) = Some (int k - 1)" "i \<le> k" "k \<le> n"
      "\<forall>j. k \<le> j \<and> j < n \<longrightarrow> buf ! j = 0" "i < k \<longrightarrow> buf ! (k - 1) \<noteq> 0" by auto
    have "\<forall>j. k \<le> j \<and> j < Suc n \<longrightarrow> buf ! j = 0" using k(4) True by (auto simp: less_Suc_eq)
    moreover have "trim_zeros_down buf i (int (Suc n) - 1) = Some (int k - 1)"
      using True k(1) Suc.prems by (subst trim_zeros_down.simps) (simp add: get_at_def)
    ultimately show ?thesis using k by (intro exI[of _ k]) simp
  next
    case False
    then have "trim_zeros_down buf i (int (Suc n) - 1) = Some (int (Suc n) - 1)"
      using Suc.prems by (subst trim_zeros_down.simps) (auto simp: get_at_def)
    then show ?thesis using False Suc.prems by (intro exI[of _ "Suc n"]) auto
  qed
qed

lemma usub_last: "0 < n \<Longrightarrow> usub n 1 = Some (n - 1) \<and> int (n - 1) = int n - 1"
  by (auto simp: usub_def)

lemma seg_zeros: "\<forall>j. a \<le> j \<and> j < b \<longrightarrow> ws ! j = 0 \<Longrightarrow> b \<le> length ws \<Longrightarrow>
    take (b - a) (drop a ws) = zeros (b - a)"
  by (rule nth_equalityI) auto

text \<open>
  The significant words of a decimal: those from the first nonzero integer word (or the point)
  to the last nonzero word. \<open>start\<close> and \<open>stop\<close> are where the loops find them.
\<close>

definition stripped :: "decimal \<Rightarrow> nat \<Rightarrow> nat \<Rightarrow> bool" where
  "stripped d start stop \<longleftrightarrow>
     start \<le> int_words d \<and> start \<le> stop \<and> stop \<le> int_words d + frac_words d \<and>
     (\<forall>j. 0 \<le> j \<and> j < start \<longrightarrow> word_buf d ! j = 0) \<and>
     (\<forall>j. stop \<le> j \<and> j < int_words d + frac_words d \<longrightarrow> word_buf d ! j = 0) \<and>
     (start < int_words d \<longrightarrow> word_buf d ! start \<noteq> 0) \<and>
     (start < stop \<longrightarrow> word_buf d ! (stop - 1) \<noteq> 0)"

definition sig :: "decimal \<Rightarrow> nat \<Rightarrow> nat \<Rightarrow> nat list" where
  "sig d start stop = take (stop - start) (drop start (word_buf d))"

lemma strip_ok:
  assumes "dec_ok d"
  obtains start stop where "stripped d start stop"
    "skip_zeros_up (word_buf d) 0 (int_words d) = Some start"
    "trim_zeros_down (word_buf d) start (int (int_words d + frac_words d) - 1) = Some (int stop - 1)"
proof -
  let ?b = "word_buf d" and ?n = "int_words d + frac_words d"
  note ok = dec_okD[OF assms]
  from skip_zeros_up_ok[of 0 "int_words d" ?b] ok obtain start where a:
    "skip_zeros_up ?b 0 (int_words d) = Some start" "start \<le> int_words d"
    "\<forall>j. 0 \<le> j \<and> j < start \<longrightarrow> ?b ! j = 0" "start < int_words d \<longrightarrow> ?b ! start \<noteq> 0" by auto
  from trim_zeros_down_ok[of start ?n ?b] ok a(2) obtain stop where e:
    "trim_zeros_down ?b start (int ?n - 1) = Some (int stop - 1)" "start \<le> stop" "stop \<le> ?n"
    "\<forall>j. stop \<le> j \<and> j < ?n \<longrightarrow> ?b ! j = 0" "start < stop \<longrightarrow> ?b ! (stop - 1) \<noteq> 0" by auto
  show thesis by (rule that[OF _ a(1) e(1)]) (use a e in \<open>simp add: stripped_def\<close>)
qed

lemma strippedD:
  assumes "dec_ok d" "stripped d start stop"
  shows "length (sig d start stop) = stop - start" "below WORD_BASE (sig d start stop)"
    "sig d start stop \<noteq> [] \<longrightarrow> last (sig d start stop) \<noteq> 0"
    "start < int_words d \<longrightarrow> sig d start stop \<noteq> [] \<and> hd (sig d start stop) \<noteq> 0"
    "word_buf d = take start (word_buf d) @ sig d start stop @ drop stop (word_buf d)"
    "length (take start (word_buf d)) = start"
proof -
  note ok = dec_okD[OF assms(1)]
  have s: "start \<le> int_words d" "start \<le> stop" "stop \<le> int_words d + frac_words d"
    "\<forall>j. stop \<le> j \<and> j < int_words d + frac_words d \<longrightarrow> word_buf d ! j = 0"
    "start < int_words d \<longrightarrow> word_buf d ! start \<noteq> 0"
    "start < stop \<longrightarrow> word_buf d ! (stop - 1) \<noteq> 0"
    using assms(2) by (simp_all add: stripped_def)
  show "length (sig d start stop) = stop - start" "below WORD_BASE (sig d start stop)"
    "length (take start (word_buf d)) = start"
    using ok s by (auto simp: sig_def)
  show "sig d start stop \<noteq> [] \<longrightarrow> last (sig d start stop) \<noteq> 0"
    using ok s by (auto simp: sig_def last_conv_nth)
  show "start < int_words d \<longrightarrow> sig d start stop \<noteq> [] \<and> hd (sig d start stop) \<noteq> 0"
  proof
    assume h: "start < int_words d"
    then have "start < int_words d + frac_words d" "word_buf d ! start \<noteq> 0" using s by auto
    then have "start < stop" using s(2,4) by (metis le_refl le_neq_implies_less)
    then show "sig d start stop \<noteq> [] \<and> hd (sig d start stop) \<noteq> 0"
      using h s(5) ok s(3) by (simp add: sig_def hd_drop_conv_nth)
  qed
  show "word_buf d = take start (word_buf d) @ sig d start stop @ drop stop (word_buf d)"
    using s(2) append_take_drop_id[of "stop - start" "drop start (word_buf d)"]
    unfolding sig_def by simp
qed

text \<open>Dropping leading zero words and trailing zero words keeps the value.\<close>

lemma seg_value:
  assumes d: "dec_ok d" and "start \<le> int_words d" "fw \<le> frac_words d"
    and z0: "\<forall>j. 0 \<le> j \<and> j < start \<longrightarrow> word_buf d ! j = 0"
    and z1: "\<forall>j. int_words d + fw \<le> j \<and> j < int_words d + frac_words d \<longrightarrow> word_buf d ! j = 0"
  shows "mag d = of_nat (bval WORD_BASE (take (int_words d - start + fw) (drop start (word_buf d)))) /
    of_nat WORD_BASE ^ fw"
proof -
  let ?b = "word_buf d" and ?n = "int_words d + frac_words d" and ?B = "of_nat WORD_BASE :: rat"
  define ws where ws: "ws = take (int_words d - start + fw) (drop start ?b)"
  note ok = dec_okD[OF d]
  have "used d = take start ?b @ ws @ take (frac_words d - fw) (drop (int_words d + fw) ?b)"
    unfolding used_def ws
    using take_split3[of start "int_words d - start + fw" "frac_words d - fw" ?n ?b] assms(2,3)
    by simp
  also have "take start ?b = zeros start" using seg_zeros[OF z0] ok assms(2) by simp
  also have "take (frac_words d - fw) (drop (int_words d + fw) ?b) = zeros (frac_words d - fw)"
    using seg_zeros[OF z1] ok by simp
  finally have b: "bval WORD_BASE (used d) = bval WORD_BASE ws * WORD_BASE ^ (frac_words d - fw)"
    by (simp add: bval_append)
  show ?thesis
    unfolding mag_def b ws[symmetric] using assms(3) by (simp add: field_simps flip: power_add)
qed

lemma stripped_mag:
  assumes "dec_ok d" "stripped d start stop"
  shows "mag d = fval WORD_BASE (sig d start stop) * of_nat WORD_BASE ^ (int_words d - start)"
proof -
  let ?b = "word_buf d" and ?n = "int_words d + frac_words d" and ?B = "of_nat WORD_BASE :: rat"
  note ok = dec_okD[OF assms(1)]
  have s: "start \<le> int_words d" "start \<le> stop" "stop \<le> ?n"
    "\<forall>j. 0 \<le> j \<and> j < start \<longrightarrow> ?b ! j = 0" "\<forall>j. stop \<le> j \<and> j < ?n \<longrightarrow> ?b ! j = 0"
    using assms(2) by (simp_all add: stripped_def)
  have "used d = take start ?b @ sig d start stop @ take (?n - stop) (drop stop ?b)"
    unfolding used_def sig_def using take_split3[of start "stop - start" "?n - stop" ?n ?b] s by simp
  also have "take start ?b = zeros start" using seg_zeros[OF s(4)] s ok by simp
  also have "take (?n - stop) (drop stop ?b) = zeros (?n - stop)"
    using seg_zeros[OF s(5)] ok by simp
  finally have "fval WORD_BASE (used d) = fval WORD_BASE (sig d start stop) / ?B ^ start"
    by (simp add: fval_append)
  then show ?thesis using s(1) by (simp add: mag_fval[OF assms(1)] power_diff)
qed

section \<open>Comparison, verified\<close>

text \<open>The carry \<open>calc_sub_carry\<close> documents, for the magnitudes of its operands.\<close>

definition carry_of :: "rat \<Rightarrow> rat \<Rightarrow> int option" where
  "carry_of a b = (if a < b then Some 1 else if a = b then None else Some 0)"

lemma carry_of_scale: "0 < c \<Longrightarrow> carry_of (a * c) (b * c) = carry_of a b"
  by (simp add: carry_of_def)

lemma carry_of_Cons:
  "0 < b \<Longrightarrow> carry_of (fval b (x # xs)) (fval b (x # ys)) = carry_of (fval b xs) (fval b ys)"
  by (simp add: carry_of_def divide_less_cancel)

lemma fval_pos: "0 < b \<Longrightarrow> ws \<noteq> [] \<Longrightarrow> last ws \<noteq> 0 \<Longrightarrow> 0 < fval b ws"
  using fval_nonneg[of b ws] by (metis fval_zero_iff last_in_set less_le)

text \<open>Comparing the significant words.\<close>

lemma compare_words_ok:
  fixes lb rb :: "nat list"
  assumes "lb = lp @ ls @ lq" "rb = rp @ rs @ rq" "length lp = i" "length rp = j"
    "below WORD_BASE ls" "below WORD_BASE rs"
    "ls \<noteq> [] \<longrightarrow> last ls \<noteq> 0" "rs \<noteq> [] \<longrightarrow> last rs \<noteq> 0"
    "l_end = int (i + length ls) - 1" "r_end = int (j + length rs) - 1"
  shows "do {
      (i, j) \<leftarrow> skip_equal lb rb i l_end j r_end;
      if int i \<le> l_end
      then (if int j \<le> r_end
            then do {
              y \<leftarrow> get_at rb j;
              x \<leftarrow> get_at lb i;
              Some (if y > x then Some 1 else Some 0) }
            else Some (Some 0))
      else Some (if int j \<le> r_end then Some 1 else None) } =
    Some (carry_of (fval WORD_BASE ls) (fval WORD_BASE rs))"
  using assms
proof (induction ls arbitrary: rs lp rp i j)
  case Nil
  then show ?case
    using fval_pos[of WORD_BASE rs]
    by (subst skip_equal.simps) (auto simp: carry_of_def)
next
  case (Cons x xs)
  note pr = Cons.prems
  show ?case
  proof (cases rs)
    case Nil
    have "0 < fval WORD_BASE (x # xs)" using fval_pos[of WORD_BASE "x # xs"] pr by simp
    then have c: "carry_of (fval WORD_BASE (x # xs)) (fval WORD_BASE rs) = Some 0"
      using Nil by (simp add: carry_of_def del: fval.simps(2))
    show ?thesis unfolding c using Nil pr(9,10) by (subst skip_equal.simps) simp
  next
    case rs: (Cons y ys)
    have g: "get_at lb i = Some x" "get_at rb j = Some y"
      using pr(1-4) rs by (simp_all add: get_at_mid)
    have ends: "int i \<le> l_end" "int j \<le> r_end" using pr(9,10) rs by simp_all
    show ?thesis
    proof (cases "x = y")
      case True
      have sk: "skip_equal lb rb i l_end j r_end = skip_equal lb rb (Suc i) l_end (Suc j) r_end"
        using g ends True by (subst skip_equal.simps) simp
      have "carry_of (fval WORD_BASE (x # xs)) (fval WORD_BASE rs) =
          carry_of (fval WORD_BASE xs) (fval WORD_BASE ys)"
        using True rs carry_of_Cons by simp
      then show ?thesis
        unfolding sk
        by (subst Cons.IH[of "lp @ [x]" "rp @ [y]" ys]) (use pr rs in \<open>simp_all split: if_splits\<close>)
    next
      case False
      have sk: "skip_equal lb rb i l_end j r_end = Some (i, j)"
        using g ends False by (subst skip_equal.simps) simp
      have "carry_of (fval WORD_BASE (x # xs)) (fval WORD_BASE rs) = (if y > x then Some 1 else Some 0)"
      proof (cases "x < y")
        case True
        then have "fval WORD_BASE (x # xs) < fval WORD_BASE (y # ys)"
          by (intro fval_Cons_less) (use pr in auto)
        then show ?thesis using True rs by (simp add: carry_of_def del: fval.simps(2))
      next
        case xy: False
        then have "fval WORD_BASE (y # ys) < fval WORD_BASE (x # xs)"
          by (intro fval_Cons_less) (use pr rs False in auto)
        then show ?thesis using xy rs by (simp add: carry_of_def del: fval.simps(2))
      qed
      then show ?thesis unfolding sk using g ends by simp
    qed
  qed
qed

lemma stripped_less:
  assumes "below WORD_BASE xs" "ys \<noteq> []" "hd ys \<noteq> 0" "m < n"
  shows "fval WORD_BASE xs * of_nat WORD_BASE ^ m < fval WORD_BASE ys * of_nat WORD_BASE ^ n"
proof -
  let ?B = "of_nat WORD_BASE :: rat"
  have B: "1 \<le> ?B" "0 < ?B" using WORD_BASE_u32(3) by simp_all
  obtain y zs where y: "ys = y # zs" "1 \<le> y" using assms by (cases ys) auto
  have "fval WORD_BASE xs * ?B ^ m < ?B ^ m" using fval_less_1[OF assms(1)] B by simp
  also have "\<dots> \<le> ?B ^ (n - 1)" using B assms(4) by (intro power_increasing) auto
  also have "\<dots> \<le> (of_nat y + fval WORD_BASE zs) * ?B ^ (n - 1)"
    using y(2) fval_nonneg[of WORD_BASE zs] B
    by (metis add_increasing2 mult_le_cancel_right1 not_le of_nat_1 of_nat_mono zero_le_power
        order_less_imp_le)
  also have "\<dots> = fval WORD_BASE ys * ?B ^ n"
    using y(1) assms(4) B by (simp add: power_eq_if)
  finally show ?thesis .
qed

text \<open>
  \<open>calc_sub_carry\<close> on well-formed operands: the carry it documents, and the segments of
  words \<open>do_sub\<close> starts from.
\<close>

definition seg_ok :: "decimal \<Rightarrow> sub_tmp \<Rightarrow> bool" where
  "seg_ok d t \<longleftrightarrow> (case t of (start, iw, fw) \<Rightarrow>
     start + iw = int_words d \<and> fw \<le> frac_words d \<and> (0 < iw \<longrightarrow> word_buf d ! start \<noteq> 0) \<and>
     mag d = of_nat (bval WORD_BASE (take (iw + fw) (drop start (word_buf d)))) / of_nat WORD_BASE ^ fw)"

lemma seg_ok_full:
  assumes "dec_ok d" "stripped d start stop"
  shows "seg_ok d (start, int_words d - start, frac_words d)"
  using assms(2) seg_value[OF assms(1), of start "frac_words d"] by (auto simp: seg_ok_def stripped_def)

lemma seg_ok_trimmed:
  assumes "dec_ok d" "stripped d start stop"
  shows "seg_ok d (start, int_words d - start, as_unsigned 8 (max 0 (int stop - int (int_words d))))"
proof -
  let ?f = "stop - int_words d"
  note ok = dec_okD[OF assms(1)]
  have s: "start \<le> int_words d" "?f \<le> frac_words d" "start < int_words d \<longrightarrow> word_buf d ! start \<noteq> 0"
    "\<forall>j. 0 \<le> j \<and> j < start \<longrightarrow> word_buf d ! j = 0"
    "\<forall>j. stop \<le> j \<and> j < int_words d + frac_words d \<longrightarrow> word_buf d ! j = 0"
    using assms(2) by (auto simp add: stripped_def)
  have z: "\<forall>j. int_words d + ?f \<le> j \<and> j < int_words d + frac_words d \<longrightarrow> word_buf d ! j = 0"
    using s(5) by auto
  have "as_unsigned 8 (max 0 (int stop - int (int_words d))) = ?f"
    using s(2) ok by (simp add: as_unsigned_def max_def nat_diff_distrib)
  moreover have "seg_ok d (start, int_words d - start, ?f)"
    using seg_value[OF assms(1) s(1,2,4) z] s by (simp add: seg_ok_def)
  ultimately show ?thesis by simp
qed

lemma calc_sub_carry_ok:
  assumes l: "dec_ok l" and r: "dec_ok r"
  obtains lt rt where
    "calc_sub_carry l r = Some (carry_of (mag l) (mag r), max (frac_words l) (frac_words r), lt, rt)"
    "seg_ok l lt" "seg_ok r rt"
    "mag l = mag r \<or> (mag l < mag r \<longrightarrow> fst (snd lt) \<le> fst (snd rt)) \<and> (mag r < mag l \<longrightarrow> fst (snd rt) \<le> fst (snd lt))"
proof -
  let ?B = "of_nat WORD_BASE :: rat"
  obtain ls le where L: "stripped l ls le" "skip_zeros_up (word_buf l) 0 (int_words l) = Some ls"
    "trim_zeros_down (word_buf l) ls (int (int_words l + frac_words l) - 1) = Some (int le - 1)"
    using strip_ok[OF l] by metis
  obtain rs re where R: "stripped r rs re" "skip_zeros_up (word_buf r) 0 (int_words r) = Some rs"
    "trim_zeros_down (word_buf r) rs (int (int_words r + frac_words r) - 1) = Some (int re - 1)"
    using strip_ok[OF r] by metis
  let ?ln = "int_words l - ls" and ?rn = "int_words r - rs"
  note lD = strippedD[OF l L(1)] and rD = strippedD[OF r R(1)]
  note lm = stripped_mag[OF l L(1)] and rm = stripped_mag[OF r R(1)]
  have lss: "ls \<le> int_words l" "rs \<le> int_words r" using L(1) R(1) by (auto simp: stripped_def)
  consider "?ln < ?rn" | "?rn < ?ln" | "?ln = ?rn" by linarith
  then show thesis
  proof cases
    case 1
    then have "mag l < mag r" unfolding lm rm using lD rD by (intro stripped_less) auto
    then show thesis
      using that[OF _ seg_ok_full[OF l L(1)] seg_ok_full[OF r R(1)]] L(2) R(2) 1
      by (simp add: calc_sub_carry_def cmp_val_def carry_of_def)
  next
    case 2
    then have "mag r < mag l" unfolding lm rm using lD rD by (intro stripped_less) auto
    then show thesis
      using that[OF _ seg_ok_full[OF l L(1)] seg_ok_full[OF r R(1)]] L(2) R(2) 2
      by (simp add: calc_sub_carry_def cmp_val_def carry_of_def)
  next
    case 3
    have c: "carry_of (fval WORD_BASE (sig l ls le)) (fval WORD_BASE (sig r rs re)) = carry_of (mag l) (mag r)"
      unfolding lm rm 3 by (rule carry_of_scale[symmetric]) simp
    have e: "usub (int_words l + frac_words l) 1 = Some (int_words l + frac_words l - 1)"
      "usub (int_words r + frac_words r) 1 = Some (int_words r + frac_words r - 1)"
      "int (int_words l + frac_words l - 1) = int (int_words l + frac_words l) - 1"
      "int (int_words r + frac_words r - 1) = int (int_words r + frac_words r) - 1"
      using usub_last[OF dec_okD(4)[OF l]] usub_last[OF dec_okD(4)[OF r]] by blast+
    have ends: "int le - 1 = int (ls + length (sig l ls le)) - 1" "int re - 1 = int (rs + length (sig r rs re)) - 1"
      using lD(1) rD(1) L(1) R(1) by (simp_all add: stripped_def)
    note cw = compare_words_ok[OF lD(5) rD(5) lD(6) rD(6) lD(2) rD(2) lD(3) rD(3) ends]
    have "calc_equal_carry (word_buf l) (word_buf r) ls (int_words l) (frac_words l) rs (int_words r) (frac_words r) =
        Some (carry_of (mag l) (mag r), as_unsigned 8 (max 0 (int le - int (int_words l))),
          as_unsigned 8 (max 0 (int re - int (int_words r))))"
      using cw[unfolded c] unfolding calc_equal_carry_def
      by (simp only: e L(3) R(3) bind.bind_lunit Let_def)
         (auto simp: bind_eq_Some_conv split: prod.splits)
    then show thesis
      using that[OF _ seg_ok_trimmed[OF l L(1)] seg_ok_trimmed[OF r R(1)]] L(2) R(2) 3
      by (simp add: calc_sub_carry_def cmp_val_def)
  qed
qed

lemma cmp_dec_ok:
  assumes "dec_ok l \<and> sign_ok l" "dec_ok r \<and> sign_ok r"
  shows "cmp_dec l r = Some (cmp_val (dec_value l) (dec_value r))"
proof (cases "negative l = negative r")
  case True
  obtain lt rt where
    "calc_sub_carry l r = Some (carry_of (mag l) (mag r), max (frac_words l) (frac_words r), lt, rt)"
    using calc_sub_carry_ok assms by metis
  with True show ?thesis by (auto simp: cmp_dec_def carry_of_def dec_value_def cmp_val_def)
next
  case False
  then show ?thesis
    using assms mag_nonneg[of l] mag_nonneg[of r]
    by (auto simp: cmp_dec_def dec_value_def cmp_val_def sign_ok_def)
qed

text \<open>
  The representations of zero have a sign too, and \<open>Ord\<close> looks at it: a negative zero, which division
  and remainder return, is below every other representation of zero that is not negative.
\<close>

lemma cmp_dec_total:
  assumes "dec_ok l" "dec_ok r"
  shows "cmp_dec l r = Some
    (if dec_value l = 0 \<and> dec_value r = 0 \<and> negative l \<noteq> negative r
     then if negative l then Less else Greater
     else cmp_val (dec_value l) (dec_value r))"
proof (cases "negative l = negative r")
  case True
  obtain lt rt where
    "calc_sub_carry l r = Some (carry_of (mag l) (mag r), max (frac_words l) (frac_words r), lt, rt)"
    using calc_sub_carry_ok assms by metis
  with True show ?thesis by (auto simp: cmp_dec_def carry_of_def dec_value_def cmp_val_def)
next
  case False
  then show ?thesis
    using mag_nonneg[of l] mag_nonneg[of r] by (auto simp: cmp_dec_def dec_value_def cmp_val_def)
qed

lemma negative_zero_below_zero:
  "dec_ok l \<Longrightarrow> dec_ok r \<Longrightarrow> dec_value l = 0 \<Longrightarrow> dec_value r = 0 \<Longrightarrow> negative l \<Longrightarrow> \<not> negative r \<Longrightarrow>
   cmp_dec l r = Some Less \<and> cmp_dec r l = Some Greater"
  by (simp add: cmp_dec_total)

interpretation dec: keyed_cmp "\<lambda>d. dec_ok d \<and> sign_ok d" dec_value cmp_dec
  by unfold_locales (rule cmp_dec_ok)

section \<open>Hashing, verified\<close>

text \<open>The hasher is fed with the canonical form of the value.\<close>

lemma hash_input_ok:
  assumes "dec_ok d"
  obtains start stop where "stripped d start stop"
    "hash_input d = Some (int_words d - start, sig d start stop, negative d \<and> mag d \<noteq> 0)"
proof -
  obtain start stop where s: "stripped d start stop"
    "skip_zeros_up (word_buf d) 0 (int_words d) = Some start"
    "trim_zeros_down (word_buf d) start (int (int_words d + frac_words d) - 1) = Some (int stop - 1)"
    using strip_ok[OF assms(1)] by metis
  note D = strippedD[OF assms(1) s(1)] and ok = dec_okD[OF assms(1)]
  have b: "start \<le> stop" "stop \<le> 9" using s(1) ok by (auto simp: stripped_def)
  have u: "usub (int_words d + frac_words d) 1 = Some (int_words d + frac_words d - 1)"
    "int (int_words d + frac_words d - 1) = int (int_words d + frac_words d) - 1"
    using usub_last[OF ok(4)] by blast+
  have n: "start < stop \<longleftrightarrow> mag d \<noteq> 0"
  proof (cases "start < stop")
    case True
    then have "0 < fval WORD_BASE (sig d start stop)"
      using D b ok by (intro fval_pos) (auto simp: sig_def)
    then show ?thesis using True stripped_mag[OF assms(1) s(1)] by simp
  next
    case False
    then show ?thesis using stripped_mag[OF assms(1) s(1)] D(1) by simp
  qed
  have sl: "slice_at (word_buf d) start stop = Some (sig d start stop)"
    using b ok by (simp add: slice_at_def sig_def)
  have "hash_input d = Some (int_words d - start, sig d start stop, negative d \<and> int start \<le> int stop - 1)"
    unfolding hash_input_def by (simp only: s u bind.bind_lunit Let_def prod.case) (simp add: sl)
  moreover have "(int start \<le> int stop - 1) = (mag d \<noteq> 0)" using n by auto
  ultimately show thesis using that s(1) by simp
qed

lemma fval_inj_stripped:
  "below WORD_BASE xs \<Longrightarrow> below WORD_BASE ys \<Longrightarrow> xs \<noteq> [] \<longrightarrow> last xs \<noteq> 0 \<Longrightarrow>
   ys \<noteq> [] \<longrightarrow> last ys \<noteq> 0 \<Longrightarrow> fval WORD_BASE xs = fval WORD_BASE ys \<Longrightarrow> xs = ys"
proof (induction xs arbitrary: ys)
  case Nil
  then show ?case using fval_pos[of WORD_BASE ys] by (cases "ys = []") auto
next
  case (Cons x xs)
  note pr = Cons.prems
  have p: "0 < fval WORD_BASE (x # xs)" using fval_pos[of WORD_BASE "x # xs"] pr by simp
  obtain y zs where ys: "ys = y # zs" using p pr(5) by (cases ys) auto
  have "\<not> x < y" using fval_Cons_less[OF pr(1), of y zs] pr(5) ys by (auto simp del: fval.simps(2))
  moreover have "\<not> y < x"
    using fval_Cons_less[OF pr(2)[unfolded ys], of x xs] pr(5) ys by (auto simp del: fval.simps(2))
  ultimately have xy: "x = y" by simp
  have e: "fval WORD_BASE xs = fval WORD_BASE zs" using pr(5) ys xy by simp
  have "xs = zs" by (rule Cons.IH) (use pr ys e in \<open>auto split: if_splits\<close>)
  with xy ys show ?case by simp
qed

lemma hash_input_eq_iff:
  assumes "dec_ok l" "dec_ok r"
  shows "hash_input l = hash_input r \<longleftrightarrow> dec_value l = dec_value r"
proof -
  obtain ls le where L: "stripped l ls le"
    "hash_input l = Some (int_words l - ls, sig l ls le, negative l \<and> mag l \<noteq> 0)"
    using hash_input_ok[OF assms(1)] by metis
  obtain rs re where R: "stripped r rs re"
    "hash_input r = Some (int_words r - rs, sig r rs re, negative r \<and> mag r \<noteq> 0)"
    using hash_input_ok[OF assms(2)] by metis
  note lm = stripped_mag[OF assms(1) L(1)] and rm = stripped_mag[OF assms(2) R(1)]
  note lD = strippedD[OF assms(1) L(1)] and rD = strippedD[OF assms(2) R(1)]
  have "int_words l - ls = int_words r - rs \<and> sig l ls le = sig r rs re" if eq: "mag l = mag r"
  proof -
    have "\<not> int_words l - ls < int_words r - rs"
      using stripped_less[OF lD(2), of "sig r rs re" "int_words l - ls" "int_words r - rs"] rD(4) eq
      unfolding lm rm by (metis zero_less_diff gr0I less_irrefl not_less_zero)
    moreover have "\<not> int_words r - rs < int_words l - ls"
      using stripped_less[OF rD(2), of "sig l ls le" "int_words r - rs" "int_words l - ls"] lD(4) eq
      unfolding lm rm by (metis zero_less_diff gr0I less_irrefl not_less_zero)
    ultimately have n: "int_words l - ls = int_words r - rs" by simp
    then have "fval WORD_BASE (sig l ls le) = fval WORD_BASE (sig r rs re)"
      using eq unfolding lm rm by simp
    with n fval_inj_stripped lD rD show ?thesis by blast
  qed
  moreover have "mag l = mag r" if "int_words l - ls = int_words r - rs" "sig l ls le = sig r rs re"
    unfolding lm rm by (simp only: that)
  moreover have "(negative l \<and> mag l \<noteq> 0) = (negative r \<and> mag r \<noteq> 0) \<and> mag l = mag r \<longleftrightarrow>
      dec_value l = dec_value r"
    using mag_nonneg[of l] mag_nonneg[of r] by (auto simp: dec_value_def)
  ultimately show ?thesis unfolding L(2) R(2) by auto
qed

section \<open>Subtraction, verified\<close>

abbreviation seg :: "nat list \<Rightarrow> nat \<Rightarrow> nat \<Rightarrow> nat list" where
  "seg ws p n \<equiv> take n (drop p ws)"

abbreviation ival :: "nat list \<Rightarrow> int" where
  "ival ws \<equiv> int (bval WORD_BASE ws)"

abbreviation bit_ok :: "int \<Rightarrow> bool" where
  "bit_ok c \<equiv> c = 0 \<or> c = 1"

lemma ival_snoc:
  assumes "p + n < length ws"
  shows "ival (seg ws p (Suc n)) = ival (seg ws p n) * int WORD_BASE + int (ws ! (p + n))"
  using assms by (simp add: seg_Suc bval_append)

text \<open>One more word below a borrow.\<close>

lemma borrow_step:
  assumes "ival zs - c' * int WORD_BASE ^ n = a - b - c1" "int s - c1 * int WORD_BASE = x - y - c"
  shows "ival (zs @ [s]) - c' * int WORD_BASE ^ Suc n =
    (a * int WORD_BASE + x) - (b * int WORD_BASE + y) - c"
proof -
  have "ival (zs @ [s]) - c' * int WORD_BASE ^ Suc n =
      (ival zs - c' * int WORD_BASE ^ n) * int WORD_BASE + int s"
    by (simp add: bval_append algebra_simps)
  also have "\<dots> = (a - b) * int WORD_BASE + (int s - c1 * int WORD_BASE)"
    unfolding assms(1) by (simp add: algebra_simps)
  finally show ?thesis unfolding assms(2) by (simp add: algebra_simps)
qed

lemma sub_words_down_ok:
  assumes "below WORD_BASE ls" "below WORD_BASE rs"
  shows "length pre = q \<Longrightarrow> length old = n \<Longrightarrow> p + n \<le> length ls \<Longrightarrow> r + n \<le> length rs \<Longrightarrow>
    bit_ok c \<Longrightarrow>
    \<exists>c' zs. sub_words_down ls rs (p + n) (r + n) r (q + n) c (pre @ old @ post) =
        Some (p, q, c', pre @ zs @ post) \<and> length zs = n \<and> below WORD_BASE zs \<and> bit_ok c' \<and>
        ival zs - c' * int WORD_BASE ^ n = ival (seg ls p n) - ival (seg rs r n) - c"
proof (induction n arbitrary: old post c)
  case 0
  then show ?case by (simp add: sub_words_down.simps)
next
  case (Suc n)
  obtain old' y where old: "old = old' @ [y]" "length old' = n"
    using split_last Suc.prems(2) by blast
  obtain s c1 where s: "sub_word (ls ! (p + n)) (rs ! (r + n)) c = Some (s, c1)"
      "s < WORD_BASE" "bit_ok c1"
      "int s - c1 * int WORD_BASE = int (ls ! (p + n)) - int (rs ! (r + n)) - c"
    using sub_word_ok below_nth assms Suc.prems by (metis add_Suc_right less_eq_Suc_le)
  have set: "set_at (pre @ old @ post) (q + n) s = Some (pre @ old' @ s # post)"
    using set_at_mid[of "q + n" "pre @ old'"] Suc.prems old by simp
  have step: "sub_words_down ls rs (p + Suc n) (r + Suc n) r (q + Suc n) c (pre @ old @ post) =
      sub_words_down ls rs (p + n) (r + n) r (q + n) c1 (pre @ old' @ s # post)"
    using Suc.prems set s(1) by (subst sub_words_down.simps) (simp add: get_at_def)
  have le: "p + n \<le> length ls" "r + n \<le> length rs" using Suc.prems by auto
  from Suc.IH[OF Suc.prems(1) old(2) le s(3), of "s # post"] obtain c' zs where
    IH: "sub_words_down ls rs (p + n) (r + n) r (q + n) c1 (pre @ old' @ s # post) =
        Some (p, q, c', pre @ zs @ s # post)" "length zs = n" "below WORD_BASE zs" "bit_ok c'"
      "ival zs - c' * int WORD_BASE ^ n = ival (seg ls p n) - ival (seg rs r n) - c1" by auto
  have "ival (zs @ [s]) - c' * int WORD_BASE ^ Suc n = ival (seg ls p (Suc n)) - ival (seg rs r (Suc n)) - c"
    using borrow_step[OF IH(5) s(4)] Suc.prems by (subst (1 2) ival_snoc) auto
  with step IH s(2) show ?case by (intro exI[of _ c'] exI[of _ "zs @ [s]"]) simp
qed

text \<open>Subtracting from nothing is subtracting from zero words.\<close>

lemma sub_zero_down_words:
  "n \<le> m \<Longrightarrow> sub_zero_down rs (r + n) r k c buf =
    map_option (\<lambda>(_, i, c', b). (r, i, c', b)) (sub_words_down (zeros m) rs n (r + n) r k c buf)"
proof (induction n arbitrary: k c buf)
  case 0
  then show ?case by (simp add: sub_zero_down.simps sub_words_down.simps)
next
  case (Suc n)
  then show ?case
    by (subst sub_zero_down.simps, subst sub_words_down.simps)
      (simp add: get_at_def usub_def set_at_def split: Option.bind_split)
qed

lemma sub_zero_down_ok:
  assumes "below WORD_BASE rs" "length pre = q" "length old = n" "r + n \<le> length rs"
  shows "\<exists>c' zs. sub_zero_down rs (r + n) r (q + n) 0 (pre @ old @ post) =
        Some (r, q, c', pre @ zs @ post) \<and> length zs = n \<and> below WORD_BASE zs \<and> bit_ok c' \<and>
        ival zs - c' * int WORD_BASE ^ n = - ival (seg rs r n)"
  using sub_words_down_ok[OF below_replicate[of WORD_BASE n] assms(1-3), of 0 r 0 post] assms(4)
  by (auto simp: sub_zero_down_words[OF order_refl])

text \<open>The last two loops: the borrow, if any, and the copy of the leading words.\<close>

lemma sub_tail_ok:
  assumes "below WORD_BASE ls"
  shows "length pre = q \<Longrightarrow> length old = n \<Longrightarrow> p + n \<le> length ls \<Longrightarrow> bit_ok c \<Longrightarrow>
    \<exists>c' zs. do { (l_idx, idx_to, buf) \<leftarrow> sub_carry_down ls (p + n) p (q + n) c (pre @ old @ post);
        copy_words_down ls l_idx p idx_to buf } =
        Some (p, q, pre @ zs @ post) \<and> length zs = n \<and> below WORD_BASE zs \<and> bit_ok c' \<and>
        ival zs - c' * int WORD_BASE ^ n = ival (seg ls p n) - c"
proof (induction n arbitrary: old post c)
  case 0
  then show ?case by (simp add: sub_carry_down.simps copy_words_down.simps)
next
  case (Suc n)
  show ?case
  proof (cases "c = 0")
    case True
    have "sub_carry_down ls (p + Suc n) p (q + Suc n) c b = Some (p + Suc n, q + Suc n, b)" for b
      using True by (subst sub_carry_down.simps) simp
    moreover have "below WORD_BASE (seg ls p (Suc n))" "length (seg ls p (Suc n)) = Suc n"
      using assms Suc.prems by auto
    ultimately show ?thesis
      using copy_words_down_ok[OF Suc.prems(1-3)] True
      by (intro exI[of _ 0] exI[of _ "seg ls p (Suc n)"]) (simp del: add_Suc_right)
  next
    case False
    obtain old' y where old: "old = old' @ [y]" "length old' = n"
      using split_last Suc.prems(2) by blast
    obtain s c1 where s: "sub_word (ls ! (p + n)) 0 c = Some (s, c1)"
        "s < WORD_BASE" "bit_ok c1" "int s - c1 * int WORD_BASE = int (ls ! (p + n)) - int 0 - c"
      using sub_word_ok[of "ls ! (p + n)" 0 c] below_nth assms Suc.prems
      by (metis WORD_BASE_pos(1) add_Suc_right less_eq_Suc_le)
    have set: "set_at (pre @ old @ post) (q + n) s = Some (pre @ old' @ s # post)"
      using set_at_mid[of "q + n" "pre @ old'"] Suc.prems old by simp
    have step: "sub_carry_down ls (p + Suc n) p (q + Suc n) c (pre @ old @ post) =
        sub_carry_down ls (p + n) p (q + n) c1 (pre @ old' @ s # post)"
      using Suc.prems set s(1) False by (subst sub_carry_down.simps) (simp add: get_at_def)
    have le: "p + n \<le> length ls" using Suc.prems by auto
    from Suc.IH[OF Suc.prems(1) old(2) le s(3), of "s # post"] obtain c' zs where
      IH: "do { (l_idx, idx_to, buf) \<leftarrow> sub_carry_down ls (p + n) p (q + n) c1 (pre @ old' @ s # post);
          copy_words_down ls l_idx p idx_to buf } = Some (p, q, pre @ zs @ s # post)"
        "length zs = n" "below WORD_BASE zs" "bit_ok c'"
        "ival zs - c' * int WORD_BASE ^ n = ival (seg ls p n) - 0 - c1" by auto
    have "ival (zs @ [s]) - c' * int WORD_BASE ^ Suc n = ival (seg ls p (Suc n)) - c"
      using borrow_step[OF IH(5) s(4)] Suc.prems by (subst ival_snoc) auto
    with step IH(1-4) s(2) show ?thesis
      by (intro exI[of _ c'] exI[of _ "zs @ [s]"]) (simp del: add_Suc_right)
  qed
qed

text \<open>The words above the shorter fraction.\<close>

lemma sub_high_ok:
  assumes lb: "below WORD_BASE lb" and rb: "below WORD_BASE rb"
    and cnt: "p + li + f \<le> length lb" "r + ri + f \<le> length rb" "ri \<le> li" and c: "bit_ok c"
  shows "\<exists>c' zs i j. do {
       (l_idx, idx_to, carry, buf) \<leftarrow>
         sub_words_down lb rb (p + li + f) (r + ri + f) r (li + f) c (zeros (li + f) @ post);
       (l_idx, idx_to, buf) \<leftarrow> sub_carry_down lb l_idx p idx_to carry buf;
       copy_words_down lb l_idx p idx_to buf } = Some (i, j, zs @ post) \<and>
     length zs = li + f \<and> below WORD_BASE zs \<and> bit_ok c' \<and>
     ival zs - c' * int WORD_BASE ^ (li + f) = ival (seg lb p (li + f)) - ival (seg rb r (ri + f)) - c"
proof -
  define h n where h: "h = li - ri" "n = ri + f"
  have e: "p + li + f = (p + h) + n" "r + ri + f = r + n" "li + f = h + n" "ri + f = n"
    using cnt h by auto
  have z: "zeros (h + n) @ post = zeros h @ zeros n @ post" by (simp add: replicate_add)
  from sub_words_down_ok[OF lb rb, of "zeros h" h "zeros n" n "p + h" r c post] cnt c e
  obtain c1 z2 where 1: "sub_words_down lb rb (p + h + n) (r + n) r (h + n) c (zeros h @ zeros n @ post) =
      Some (p + h, h, c1, zeros h @ z2 @ post)" "length z2 = n" "below WORD_BASE z2" "bit_ok c1"
      "ival z2 - c1 * int WORD_BASE ^ n = ival (seg lb (p + h) n) - ival (seg rb r n) - c" by auto
  from sub_tail_ok[OF lb, of "[]" 0 "zeros h" h p c1 "z2 @ post"] cnt e 1(4)
  obtain c' z1 where 2: "do { (l_idx, idx_to, buf) \<leftarrow> sub_carry_down lb (p + h) p h c1 (zeros h @ z2 @ post);
        copy_words_down lb l_idx p idx_to buf } = Some (p, 0, z1 @ z2 @ post)"
      "length z1 = h" "below WORD_BASE z1" "bit_ok c'" "ival z1 - c' * int WORD_BASE ^ h = ival (seg lb p h) - c1"
    by auto
  have "seg lb p (h + n) = seg lb p h @ seg lb (p + h) n"
    using take_add[of h n "drop p lb"] by (simp add: add.commute)
  moreover have "length (seg lb (p + h) n) = n" using cnt(1) e by simp
  ultimately have A: "ival (seg lb p (h + n)) = ival (seg lb p h) * int WORD_BASE ^ n + ival (seg lb (p + h) n)"
    by (simp add: bval_append)
  have "ival (z1 @ z2) - c' * int WORD_BASE ^ (h + n) =
      (ival z1 - c' * int WORD_BASE ^ h) * int WORD_BASE ^ n + ival z2"
    using 1(2) by (simp add: bval_append power_add algebra_simps)
  also have "\<dots> = ival (seg lb p h) * int WORD_BASE ^ n + (ival z2 - c1 * int WORD_BASE ^ n)"
    unfolding 2(5) by (simp add: algebra_simps)
  finally have v: "ival (z1 @ z2) - c' * int WORD_BASE ^ (h + n) =
      ival (seg lb p (h + n)) - ival (seg rb r n) - c" unfolding 1(5) A by simp
  show ?thesis
    unfolding e z using 1(1-3) 2(1-4) v
    by (intro exI[of _ c'] exI[of _ "z1 @ z2"] exI[of _ p] exI[of _ 0]) simp
qed

text \<open>The words below the shorter fraction.\<close>

lemma ival_seg_split:
  "p + (a + b) \<le> length ws \<Longrightarrow>
   ival (seg ws p (a + b)) = ival (seg ws p a) * int WORD_BASE ^ b + ival (seg ws (p + a) b)"
  using take_add[of a b "drop p ws"] by (simp add: bval_append add.commute)

lemma sub_low_ok:
  assumes lb: "below WORD_BASE lb" "length lb = 9" and rb: "below WORD_BASE rb" "length rb = 9"
    and cnt: "p + li + lf \<le> 9" "r + ri + rf \<le> 9" "ri \<le> li" "max lf rf \<le> fm" "li + fm \<le> 9"
  defines "f \<equiv> min lf rf" and "g \<equiv> max lf rf"
  shows "\<exists>c low. do_sub_words lb rb (p, li, lf) (r, ri, rf) fm (li + fm) (zeros 9) = do {
       (l_idx, idx_to, carry, buf) \<leftarrow>
         sub_words_down lb rb (p + li + f) (r + ri + f) r (li + f) c
           (zeros (li + f) @ low @ zeros (9 - li - g));
       (l_idx, idx_to, buf) \<leftarrow> sub_carry_down lb l_idx p idx_to carry buf;
       (l_idx, idx_to, buf) \<leftarrow> copy_words_down lb l_idx p idx_to buf;
       Some buf } \<and>
     length low = g - f \<and> below WORD_BASE low \<and> bit_ok c \<and>
     ival low - c * int WORD_BASE ^ (g - f) =
       (ival (seg lb p (li + lf)) * int WORD_BASE ^ (g - lf) - ival (seg rb r (ri + rf)) * int WORD_BASE ^ (g - rf))
       - (ival (seg lb p (li + f)) - ival (seg rb r (ri + f))) * int WORD_BASE ^ (g - f)"
proof (cases "lf > rf")
  case True
  then have fg: "f = rf" "g = lf" by (auto simp: f_def g_def)
  have z9: "zeros 9 = zeros (li + rf) @ zeros (lf - rf) @ zeros (9 - li - lf)"
    using cnt True by (simp flip: replicate_add)
  have i: "(if lf < fm then usub (li + fm) (fm - lf) else Some (li + fm)) = Some (li + lf)"
    using cnt by (auto simp: usub_def)
  have e: "p + li + lf = (p + li + rf) + (lf - rf)" "li + lf = li + rf + (lf - rf)" using True by auto
  have cp: "copy_words_down lb (p + li + lf) (p + li + rf) (li + lf) (zeros 9) =
      Some (p + li + rf, li + rf, zeros (li + rf) @ seg lb (p + li + rf) (lf - rf) @ zeros (9 - li - lf))"
    unfolding e z9 using copy_words_down_ok[of "zeros (li + rf)" "li + rf" "zeros (lf - rf)" "lf - rf" "p + li + rf" lb] cnt lb True
    by simp
  have v: "ival (seg lb p (li + lf)) =
      ival (seg lb p (li + rf)) * int WORD_BASE ^ (lf - rf) + ival (seg lb (p + li + rf) (lf - rf))"
    unfolding e(2) using ival_seg_split[of p "li + rf" "lf - rf" lb] cnt lb True by (simp add: add.assoc)
  have "below WORD_BASE (seg lb (p + li + rf) (lf - rf))" "length (seg lb (p + li + rf) (lf - rf)) = lf - rf"
    using lb cnt by auto
  then show ?thesis
    unfolding fg using v
    by (intro exI[of _ 0] exI[of _ "seg lb (p + li + rf) (lf - rf)"])
      (simp add: do_sub_words_def True i cp left_diff_distrib)
next
  case False
  then have fg: "f = lf" "g = rf" by (auto simp: f_def g_def)
  have z9: "zeros 9 = zeros (li + lf) @ zeros (rf - lf) @ zeros (9 - li - rf)"
    using cnt False by (simp flip: replicate_add)
  have i: "(if fm > rf then usub (li + fm) (fm - rf) else Some (li + fm)) = Some (li + rf)"
    using cnt by (auto simp: usub_def)
  have e: "r + ri + rf = (r + ri + lf) + (rf - lf)" "li + rf = li + lf + (rf - lf)"
    "ri + rf = ri + lf + (rf - lf)" using False by auto
  from sub_zero_down_ok[OF rb(1), of "zeros (li + lf)" "li + lf" "zeros (rf - lf)" "rf - lf" "r + ri + lf"
      "zeros (9 - li - rf)"] cnt rb False
  obtain c low where s: "sub_zero_down rb (r + ri + rf) (r + ri + lf) (li + rf) 0 (zeros 9) =
      Some (r + ri + lf, li + lf, c, zeros (li + lf) @ low @ zeros (9 - li - rf))"
    "length low = rf - lf" "below WORD_BASE low" "bit_ok c"
    "ival low - c * int WORD_BASE ^ (rf - lf) = - ival (seg rb (r + ri + lf) (rf - lf))"
    unfolding z9 e(1,2) by auto
  have "ival (seg rb r (ri + rf)) =
      ival (seg rb r (ri + lf)) * int WORD_BASE ^ (rf - lf) + ival (seg rb (r + ri + lf) (rf - lf))"
    unfolding e(3) using ival_seg_split[of r "ri + lf" "rf - lf" rb] cnt rb False by (simp add: add.assoc)
  then have v: "ival low - c * int WORD_BASE ^ (rf - lf) =
     (ival (seg lb p (li + lf)) * int WORD_BASE ^ (rf - lf) - ival (seg rb r (ri + rf)))
       - (ival (seg lb p (li + lf)) - ival (seg rb r (ri + lf))) * int WORD_BASE ^ (rf - lf)"
    using s(5) by (simp add: algebra_simps)
  show ?thesis
    unfolding fg using False i s(1-4) v
    by (intro exI[of _ c] exI[of _ low]) (simp add: do_sub_words_def)
qed

lemma do_sub_words_ok:
  assumes lb: "below WORD_BASE lb" "length lb = 9" and rb: "below WORD_BASE rb" "length rb = 9"
    and cnt: "p + li + lf \<le> 9" "r + ri + rf \<le> 9" "ri \<le> li" "max lf rf \<le> fm" "li + fm \<le> 9"
    and ge: "ival (seg rb r (ri + rf)) * int WORD_BASE ^ (fm - rf) \<le>
       ival (seg lb p (li + lf)) * int WORD_BASE ^ (fm - lf)"
  obtains buf where "do_sub_words lb rb (p, li, lf) (r, ri, rf) fm (li + fm) (zeros 9) = Some buf"
    "length buf = 9" "below WORD_BASE buf"
    "ival (take (li + fm) buf) = ival (seg lb p (li + lf)) * int WORD_BASE ^ (fm - lf) -
       ival (seg rb r (ri + rf)) * int WORD_BASE ^ (fm - rf)"
proof -
  let ?B = "int WORD_BASE"
  define f g where fg: "f = min lf rf" "g = max lf rf"
  define A C where AC: "A = ival (seg lb p (li + lf))" "C = ival (seg rb r (ri + rf))"
  obtain c low where low: "do_sub_words lb rb (p, li, lf) (r, ri, rf) fm (li + fm) (zeros 9) = do {
       (l_idx, idx_to, carry, buf) \<leftarrow>
         sub_words_down lb rb (p + li + f) (r + ri + f) r (li + f) c
           (zeros (li + f) @ low @ zeros (9 - li - g));
       (l_idx, idx_to, buf) \<leftarrow> sub_carry_down lb l_idx p idx_to carry buf;
       (l_idx, idx_to, buf) \<leftarrow> copy_words_down lb l_idx p idx_to buf;
       Some buf }"
     "length low = g - f" "below WORD_BASE low" "bit_ok c"
     "ival low - c * ?B ^ (g - f) = (A * ?B ^ (g - lf) - C * ?B ^ (g - rf))
       - (ival (seg lb p (li + f)) - ival (seg rb r (ri + f))) * ?B ^ (g - f)"
    using sub_low_ok[OF lb rb cnt] unfolding fg AC by blast
  have "p + li + f \<le> length lb" "r + ri + f \<le> length rb" using cnt lb rb fg by auto
  from sub_high_ok[OF lb(1) rb(1) this cnt(3) low(4), of "low @ zeros (9 - li - g)"]
  obtain c' zs i j where hi: "do {
       (l_idx, idx_to, carry, buf) \<leftarrow>
         sub_words_down lb rb (p + li + f) (r + ri + f) r (li + f) c
           (zeros (li + f) @ low @ zeros (9 - li - g));
       (l_idx, idx_to, buf) \<leftarrow> sub_carry_down lb l_idx p idx_to carry buf;
       copy_words_down lb l_idx p idx_to buf } = Some (i, j, zs @ low @ zeros (9 - li - g))"
    "length zs = li + f" "below WORD_BASE zs" "bit_ok c'"
    "ival zs - c' * ?B ^ (li + f) = ival (seg lb p (li + f)) - ival (seg rb r (ri + f)) - c" by auto
  let ?buf = "zs @ low @ zeros (9 - li - g)"
  have run: "do_sub_words lb rb (p, li, lf) (r, ri, rf) fm (li + fm) (zeros 9) = Some ?buf"
    unfolding low(1) using hi(1) by (auto simp: bind_eq_Some_conv split: prod.splits)
  have le: "f \<le> g" "g \<le> fm" "li + g \<le> 9" "lf \<le> g" "rf \<le> g" using cnt fg by auto
  have "9 - li - g = (fm - g) + (9 - li - fm)" using le cnt(5) by simp
  then have "?buf = (zs @ low @ zeros (fm - g)) @ zeros (9 - li - fm)"
    by (simp only: replicate_add append_assoc)
  moreover have "length (zs @ low @ zeros (fm - g)) = li + fm" using hi(2) low(2) le by simp
  ultimately have tk: "take (li + fm) ?buf = zs @ low @ zeros (fm - g)" by simp
  have len: "length ?buf = 9" "below WORD_BASE ?buf" using hi low le by simp_all
  have pw: "?B ^ (g - f) * ?B ^ (li + f) = ?B ^ (li + g)" "?B ^ (li + g) * ?B ^ (fm - g) = ?B ^ (li + fm)"
      "?B ^ (g - lf) * ?B ^ (fm - g) = ?B ^ (fm - lf)" "?B ^ (g - rf) * ?B ^ (fm - g) = ?B ^ (fm - rf)"
    using le by (simp_all add: add.commute flip: power_add)
  have "ival (zs @ low) - c' * ?B ^ (li + g) =
      (ival zs - c' * ?B ^ (li + f)) * ?B ^ (g - f) + ival low"
    unfolding pw(1)[symmetric] by (simp add: bval_append low(2) algebra_simps)
  also have "\<dots> = (ival (seg lb p (li + f)) - ival (seg rb r (ri + f))) * ?B ^ (g - f) + (ival low - c * ?B ^ (g - f))"
    unfolding hi(5) by (simp add: algebra_simps)
  also have "\<dots> = A * ?B ^ (g - lf) - C * ?B ^ (g - rf)" unfolding low(5) by simp
  finally have v: "ival (zs @ low) - c' * ?B ^ (li + g) = A * ?B ^ (g - lf) - C * ?B ^ (g - rf)" .
  have V: "ival (take (li + fm) ?buf) - c' * ?B ^ (li + fm) = A * ?B ^ (fm - lf) - C * ?B ^ (fm - rf)"
  proof -
    have "ival (take (li + fm) ?buf) - c' * ?B ^ (li + fm) =
        (ival (zs @ low) - c' * ?B ^ (li + g)) * ?B ^ (fm - g)"
      unfolding tk pw(2)[symmetric]
      using bval_append[of WORD_BASE "zs @ low" "zeros (fm - g)"] by (simp add: algebra_simps)
    then show ?thesis unfolding v pw(3,4)[symmetric] by (simp add: algebra_simps)
  qed
  have "bval WORD_BASE (take (li + fm) ?buf) < WORD_BASE ^ (li + fm)"
    using bval_less[OF below_take[OF len(2)], of "li + fm"] len(1) cnt(5)
    unfolding length_take by (simp only: min_absorb2)
  then have "ival (take (li + fm) ?buf) < ?B ^ (li + fm)"
    by (metis of_nat_less_iff of_nat_power)
  then have "c' \<noteq> 1" using V ge unfolding AC by (metis diff_ge_0_iff_ge diff_gt_0_iff_gt lambda_one linorder_not_less minus_diff_eq mult_1 neg_0_le_iff_le)
  then have "c' = 0" using hi(4) by simp
  with V show thesis using that[OF run len] unfolding AC by simp
qed

lemma seg_cut:
  assumes "below WORD_BASE ws" "i + f \<le> length ws"
  defines "B \<equiv> of_nat WORD_BASE :: rat"
  shows "of_nat (bval WORD_BASE (take (i + min f w) ws)) / B ^ min f w \<le> of_nat (bval WORD_BASE (take (i + f) ws)) / B ^ f"
    "of_nat (bval WORD_BASE (take (i + f) ws)) / B ^ f < of_nat (bval WORD_BASE (take (i + min f w) ws)) / B ^ min f w + 1 / B ^ w"
proof -
  let ?A = "bval WORD_BASE (take (i + min f w) ws)" and ?t = "seg ws (i + min f w) (f - min f w)"
  have B: "0 < B" by (simp add: B_def)
  have "take (i + f) ws = take (i + min f w) ws @ ?t"
    using take_add[of "i + min f w" "f - min f w" ws] by simp
  moreover have l: "length ?t = f - min f w" using assms(2) by simp
  ultimately have "(of_nat (bval WORD_BASE (take (i + f) ws)) :: rat) =
      of_nat ?A * B ^ (f - min f w) + of_nat (bval WORD_BASE ?t)"
    by (simp add: bval_append B_def)
  moreover have pf: "B ^ f = B ^ min f w * B ^ (f - min f w)" by (simp flip: power_add)
  have "of_nat ?A * B ^ (f - min f w) / B ^ f = of_nat ?A / B ^ min f w" unfolding pf using B by simp
  ultimately have e: "of_nat (bval WORD_BASE (take (i + f) ws)) / B ^ f =
      of_nat ?A / B ^ min f w + of_nat (bval WORD_BASE ?t) / B ^ f"
    by (simp add: add_divide_distrib)
  have "bval WORD_BASE ?t < WORD_BASE ^ (f - min f w)" using bval_less[of WORD_BASE ?t] l assms(1) by auto
  then have "of_nat (bval WORD_BASE ?t) < B ^ (f - min f w)"
    unfolding B_def by (metis of_nat_less_iff of_nat_power)
  then have "of_nat (bval WORD_BASE ?t) / B ^ f < B ^ (f - min f w) / B ^ f"
    using B by (simp add: divide_strict_right_mono)
  also have "\<dots> = 1 / B ^ min f w" unfolding pf using B by simp
  finally have t: "of_nat (bval WORD_BASE ?t) / B ^ f < 1 / B ^ min f w" .
  show "of_nat ?A / B ^ min f w \<le> of_nat (bval WORD_BASE (take (i + f) ws)) / B ^ f"
    unfolding e using B by simp
  show "of_nat (bval WORD_BASE (take (i + f) ws)) / B ^ f < of_nat ?A / B ^ min f w + 1 / B ^ w"
  proof (cases "f \<le> w")
    case True
    then show ?thesis using B by simp
  next
    case False
    then show ?thesis unfolding e using t by simp
  qed
qed

text \<open>\<open>mag_new\<close> for a difference of scaled segments.\<close>

lemma mag_diff:
  assumes "ival x = A * int WORD_BASE ^ (fm - lf) - C * int WORD_BASE ^ (fm - rf)" "lf \<le> fm" "rf \<le> fm"
  shows "(of_nat (bval WORD_BASE x) :: rat) / of_nat WORD_BASE ^ fm =
    of_int A / of_nat WORD_BASE ^ lf - of_int C / of_nat WORD_BASE ^ rf"
proof -
  let ?B = "of_nat WORD_BASE :: rat"
  have "of_nat (bval WORD_BASE x) = of_int A * ?B ^ (fm - lf) - of_int C * ?B ^ (fm - rf)"
    using arg_cong[OF assms(1), of "of_int :: int \<Rightarrow> rat"] by simp
  moreover have "?B ^ (fm - lf) / ?B ^ fm = 1 / ?B ^ lf" "?B ^ (fm - rf) / ?B ^ fm = 1 / ?B ^ rf"
    using assms(2,3) by (simp_all add: field_simps flip: power_add)
  ultimately show ?thesis
    by (simp add: diff_divide_distrib) (metis times_divide_eq_right mult.right_neutral)
qed

lemma scaled_le:
  assumes "(of_nat c :: rat) / of_nat WORD_BASE ^ g \<le> of_nat a / of_nat WORD_BASE ^ f" "g \<le> fm" "f \<le> fm"
  shows "int c * int WORD_BASE ^ (fm - g) \<le> int a * int WORD_BASE ^ (fm - f)"
proof -
  let ?B = "of_nat WORD_BASE :: rat"
  have "of_nat c / ?B ^ g * ?B ^ fm \<le> of_nat a / ?B ^ f * ?B ^ fm"
    using assms(1) by (rule mult_right_mono) simp
  moreover have "x / ?B ^ n * ?B ^ fm = x * ?B ^ (fm - n)" if "n \<le> fm" for n x
  proof -
    have "?B ^ fm = ?B ^ n * ?B ^ (fm - n)" using that by (simp flip: power_add)
    then show ?thesis by simp
  qed
  ultimately have "of_nat c * ?B ^ (fm - g) \<le> of_nat a * ?B ^ (fm - f)" using assms by simp
  then have "(of_nat (c * WORD_BASE ^ (fm - g)) :: rat) \<le> of_nat (a * WORD_BASE ^ (fm - f))" by simp
  then have "c * WORD_BASE ^ (fm - g) \<le> a * WORD_BASE ^ (fm - f)" by (simp only: of_nat_le_iff)
  then show ?thesis by (metis of_nat_le_iff of_nat_mult of_nat_power)
qed

text \<open>Words with a nonzero first word dominate fewer integer words.\<close>

lemma seg_dominates:
  assumes "below WORD_BASE cs" "length cs = bi + bf" "ws ! p \<noteq> 0" "p + ai + af \<le> length ws" "bi < ai"
  shows "(of_nat (bval WORD_BASE cs) :: rat) / of_nat WORD_BASE ^ bf <
    of_nat (bval WORD_BASE (seg ws p (ai + af))) / of_nat WORD_BASE ^ af"
proof -
  let ?B = "of_nat WORD_BASE :: rat"
  have B: "1 \<le> ?B" "0 < ?B" using WORD_BASE_u32(3) by simp_all
  have "of_nat (bval WORD_BASE cs) < ?B ^ (bi + bf)"
    using bval_less[OF assms(1)] assms(2) by (metis of_nat_less_iff of_nat_power)
  then have "of_nat (bval WORD_BASE cs) / ?B ^ bf < ?B ^ bi"
    using B by (simp add: divide_less_eq power_add)
  also have "\<dots> \<le> ?B ^ (ai - 1)" using B assms(5) by (intro power_increasing) auto
  also have "\<dots> \<le> of_nat (bval WORD_BASE (seg ws p (ai + af))) / ?B ^ af"
  proof -
    obtain m where m: "ai = Suc m" using assms(5) by (cases ai) auto
    have "drop p ws = ws ! p # drop (Suc p) ws" using assms(4) m by (simp add: Cons_nth_drop_Suc)
    then have "seg ws p (ai + af) = ws ! p # seg ws (Suc p) (m + af)" using m by simp
    moreover have "length (seg ws (Suc p) (m + af)) = m + af" using assms(4) m by simp
    ultimately have "bval WORD_BASE (seg ws p (ai + af)) \<ge> ws ! p * WORD_BASE ^ (m + af)" by simp
    moreover have "ws ! p * WORD_BASE ^ (m + af) \<ge> 1 * WORD_BASE ^ (m + af)"
      using assms(3) by (intro mult_le_mono1) simp
    ultimately have "WORD_BASE ^ (m + af) \<le> bval WORD_BASE (seg ws p (ai + af))" by linarith
    then have "(of_nat (WORD_BASE ^ (m + af)) :: rat) \<le> of_nat (bval WORD_BASE (seg ws p (ai + af)))"
      by (simp only: of_nat_le_iff)
    then show ?thesis using m B by (simp add: le_divide_eq power_add)
  qed
  finally show ?thesis .
qed

lemma do_sub_ordered_ok:
  assumes a: "dec_ok a" "seg_ok a (p, ai, af)" and b: "dec_ok b" "seg_ok b (r, bi, bf)"
    and lt: "mag b < mag a" "bi \<le> ai" and fm: "fm = max (frac_words a) (frac_words b)"
  shows "\<exists>d. (do_sub_ordered a b (p, ai, af) (r, bi, bf) fm neg = Some (Ok d) \<and> mag d = mag a - mag b \<and>
        frac_cnt d = max (frac_cnt a) (frac_cnt b) \<or>
      do_sub_ordered a b (p, ai, af) (r, bi, bf) fm neg = Some (Truncated d) \<and> 0 < mag d \<and>
        \<bar>mag d - (mag a - mag b)\<bar> < 1 / of_nat WORD_BASE ^ frac_words d) \<and> dec_ok d \<and> negative d = neg"
proof -
  let ?B = "of_nat WORD_BASE :: rat" and ?A = "seg (word_buf a) p" and ?C = "seg (word_buf b) r"
  note aok = dec_okD[OF a(1)] and bok = dec_okD[OF b(1)]
  have sa: "p + ai = int_words a" "af \<le> frac_words a" "0 < ai \<longrightarrow> word_buf a ! p \<noteq> 0"
      "mag a = of_nat (bval WORD_BASE (?A (ai + af))) / ?B ^ af"
    and sb: "r + bi = int_words b" "bf \<le> frac_words b" "0 < bi \<longrightarrow> word_buf b ! r \<noteq> 0"
      "mag b = of_nat (bval WORD_BASE (?C (bi + bf))) / ?B ^ bf"
    using a(2) b(2) by (simp_all add: seg_ok_def)
  show ?thesis
  proof (cases "ai + fm \<le> 9")
    case True
    have le: "af \<le> fm" "bf \<le> fm" "max af bf \<le> fm" using sa sb fm by auto
    have pr: "p + ai + af \<le> 9" "r + bi + bf \<le> 9" using sa sb aok bok by auto
    have "ival (?C (bi + bf)) * int WORD_BASE ^ (fm - bf) \<le> ival (?A (ai + af)) * int WORD_BASE ^ (fm - af)"
      by (rule scaled_le) (use lt sa(4) sb(4) le in auto)
    from do_sub_words_ok[OF aok(2,1) bok(2,1) pr lt(2) le(3) True this] obtain buf where buf:
      "do_sub_words (word_buf a) (word_buf b) (p, ai, af) (r, bi, bf) fm (ai + fm) (zeros 9) = Some buf"
      "length buf = 9" "below WORD_BASE buf"
      "ival (take (ai + fm) buf) = ival (?A (ai + af)) * int WORD_BASE ^ (fm - af) -
         ival (?C (bi + bf)) * int WORD_BASE ^ (fm - bf)" by blast
    let ?d = "(new_dec (ai * 9) (max (frac_cnt a) (frac_cnt b)) neg)\<lparr>word_buf := buf\<rparr>"
    have fw: "word_cnt (max (frac_cnt a) (frac_cnt b)) = fm" by (simp add: word_cnt_max fm)
    have "0 < ai + fm"
    proof (rule ccontr)
      assume "\<not> 0 < ai + fm"
      then have "mag a = 0" using le sa(4) by simp
      then show False using lt(1) mag_nonneg[of b] by simp
    qed
    note d = mag_new[OF buf(2,3) True this fw, of neg]
    have "fix_word_cnt_err ai fm 9 = Ok (ai, fm)" using True by (simp add: fix_word_cnt_err_def)
    then have "do_sub_ordered a b (p, ai, af) (r, bi, bf) fm neg = Some (Ok ?d)"
      using buf(1) by (simp add: do_sub_ordered_def new_dec_def)
    moreover have "mag ?d = mag a - mag b"
      unfolding d(2) mag_diff[OF buf(4) le(1,2)] sa(4) sb(4) by simp
    ultimately show ?thesis using d(1) by (intro exI[of _ ?d]) (simp add: new_dec_def)
  next
    case False
    define fw where "fw = 9 - ai"
    have ai9: "ai \<le> 9" using sa aok by simp
    have fwm: "fw < fm" "ai + fw = 9" "ai + fw \<le> 9" using False ai9 fw_def by auto
    define af' bf' where f': "af' = min af fw" "bf' = min bf fw"
    have bi: "bi < ai"
    proof (rule ccontr)
      assume "\<not> bi < ai"
      then have "ai = bi" using lt(2) by simp
      then have "ai + fm \<le> 9" using fm sa(1) sb(1) aok(3) bok(3) by auto
      then show False using False by simp
    qed
    have le: "af' \<le> fw" "bf' \<le> fw" "max af' bf' \<le> fw" using f' by auto
    have pr: "p + ai + af' \<le> 9" "r + bi + bf' \<le> 9" using sa sb aok bok f' by auto
    have C: "below WORD_BASE (?C (bi + bf'))" "length (?C (bi + bf')) = bi + bf'" using bok pr by auto
    have nz: "word_buf a ! p \<noteq> 0" "p + ai + af' \<le> length (word_buf a)" using bi sa(3) aok pr by auto
    note dom = seg_dominates[OF C nz bi]
    have "ival (?C (bi + bf')) * int WORD_BASE ^ (fw - bf') \<le> ival (?A (ai + af')) * int WORD_BASE ^ (fw - af')"
      by (rule scaled_le) (use dom le in auto)
    from do_sub_words_ok[OF aok(2,1) bok(2,1) pr lt(2) le(3) fwm(3) this] obtain buf where buf:
      "do_sub_words (word_buf a) (word_buf b) (p, ai, af') (r, bi, bf') fw (ai + fw) (zeros 9) = Some buf"
      "length buf = 9" "below WORD_BASE buf"
      "ival (take (ai + fw) buf) = ival (?A (ai + af')) * int WORD_BASE ^ (fw - af') -
         ival (?C (bi + bf')) * int WORD_BASE ^ (fw - bf')" by blast
    have "\<not> max (frac_cnt a) (frac_cnt b) \<le> fw * 9"
      using word_cnt_mono[of "max (frac_cnt a) (frac_cnt b)" "fw * 9"] fwm by (auto simp: word_cnt_max fm)
    then have fc: "min (max (frac_cnt a) (frac_cnt b)) (fw * 9) = fw * 9" by linarith
    let ?d = "(new_dec (ai * 9) (fw * 9) neg)\<lparr>word_buf := buf\<rparr>"
    have w: "word_cnt (fw * 9) = fw" using fwm by simp
    have "0 < ai + fw" using bi by simp
    note d = mag_new[OF buf(2,3) fwm(3) this w, of neg]
    have "fix_word_cnt_err ai fm 9 = Truncated (ai, fw)" using False ai9 fw_def by (simp add: fix_word_cnt_err_def)
    then have run: "do_sub_ordered a b (p, ai, af) (r, bi, bf) fm neg = Some (Truncated ?d)"
      using buf(1) fc f' bi by (simp add: do_sub_ordered_def new_dec_def min_absorb1)
    have m: "mag ?d = of_nat (bval WORD_BASE (?A (ai + af'))) / ?B ^ af' - of_nat (bval WORD_BASE (?C (bi + bf'))) / ?B ^ bf'"
      unfolding d(2) mag_diff[OF buf(4) le(1,2)] by simp
    have "ai + af \<le> length (drop p (word_buf a))" "bi + bf \<le> length (drop r (word_buf b))"
      using sa sb aok bok by auto
    note ca = seg_cut[OF below_drop[OF aok(2)] this(1), of fw, folded f' sa(4)]
      and cb = seg_cut[OF below_drop[OF bok(2)] this(2), of fw, folded f' sb(4)]
    have "0 < mag ?d" using dom unfolding m by simp
    moreover have "\<bar>mag ?d - (mag a - mag b)\<bar> < 1 / ?B ^ fw" using ca cb unfolding m by linarith
    ultimately show ?thesis using run d(1) w by (intro exI[of _ ?d]) (simp add: new_dec_def)
  qed
qed

lemma do_sub_cases:
  assumes l: "dec_ok l" and r: "dec_ok r"
  obtains
    (equal) "mag l = mag r" "do_sub l r = Some (Ok zero_dec)"
  | (exact) d where "mag l \<noteq> mag r" "do_sub l r = Some (Ok d)" "dec_ok d"
      "negative d = (negative l = (mag r < mag l))" "mag d = \<bar>mag l - mag r\<bar>"
  | (trunc) d where "do_sub l r = Some (Truncated d)" "dec_ok d" "0 < mag d"
      "negative d = (negative l = (mag r < mag l))"
      "\<bar>mag d - \<bar>mag l - mag r\<bar>\<bar> < 1 / of_nat WORD_BASE ^ frac_words d" "mag l \<noteq> mag r"
proof -
  obtain lt rt where c:
    "calc_sub_carry l r = Some (carry_of (mag l) (mag r), max (frac_words l) (frac_words r), lt, rt)"
    "seg_ok l lt" "seg_ok r rt"
    "mag l = mag r \<or> (mag l < mag r \<longrightarrow> fst (snd lt) \<le> fst (snd rt)) \<and> (mag r < mag l \<longrightarrow> fst (snd rt) \<le> fst (snd lt))"
    using calc_sub_carry_ok[OF l r] by metis
  obtain p ai af where lt: "lt = (p, ai, af)" by (cases lt)
  obtain q bi bf where rt: "rt = (q, bi, bf)" by (cases rt)
  consider "mag l = mag r" | "mag l < mag r" | "mag r < mag l" by linarith
  then show thesis
  proof cases
    case 1
    then show thesis using equal c(1) by (simp add: do_sub_def carry_of_def)
  next
    case 2
    have "do_sub l r = do_sub_ordered r l (q, bi, bf) (p, ai, af) (max (frac_words l) (frac_words r)) (\<not> negative l)"
      using 2 c(1) by (simp add: do_sub_def carry_of_def lt rt)
    moreover have "ai \<le> bi" using 2 c(4) lt rt by auto
    note do_sub_ordered_ok[OF r c(3)[unfolded rt] l c(2)[unfolded lt] 2 this, of "max (frac_words l) (frac_words r)" "\<not> negative l"]
    ultimately show thesis using exact trunc 2 by (fastforce simp: max.commute)
  next
    case 3
    have "do_sub l r = do_sub_ordered l r (p, ai, af) (q, bi, bf) (max (frac_words l) (frac_words r)) (negative l)"
      using 3 c(1) by (simp add: do_sub_def carry_of_def lt rt)
    moreover have "bi \<le> ai" using 3 c(4) lt rt by auto
    note do_sub_ordered_ok[OF l c(2)[unfolded lt] r c(3)[unfolded rt] 3 this refl, of "negative l"]
    ultimately show thesis using exact trunc 3 by fastforce
  qed
qed

section \<open>The operators, verified\<close>

lemma dec_value_simps [simp]:
  "dec_value (d\<lparr>result_frac_cnt := n\<rparr>) = dec_value d" "dec_value zero_dec = 0"
  by (simp_all add: dec_value_def)

lemma add_dec_ok:
  assumes l: "dec_ok l" and r: "dec_ok r"
  obtains
    (exact) d where "add_dec l r = Some (Ok d)" "dec_ok d" "dec_value d = dec_value l + dec_value r"
  | (trunc) d where "add_dec l r = Some (Truncated d)" "dec_ok d"
      "\<bar>dec_value d - (dec_value l + dec_value r)\<bar> < 2 / of_nat WORD_BASE ^ frac_words d"
  | (over) d where "add_dec l r = Some (OverCausetxctx d)"
      "of_nat WORD_MAX * of_nat WORD_BASE ^ 8 \<le> \<bar>dec_value l + dec_value r\<bar>"
      "negative l = negative r"
proof (cases "negative l = negative r")
  case True
  note vs = dec_value_def add_dec_def True
  show thesis
  proof (cases rule: do_add_cases[OF l r, case_names exact trunc over])
    case e: (exact d)
    then show thesis using exact[of "d\<lparr>result_frac_cnt := max (result_frac_cnt l) (result_frac_cnt r)\<rparr>"]
      by (simp add: vs)
  next
    case t: (trunc d)
    then show thesis using trunc[of "d\<lparr>result_frac_cnt := max (result_frac_cnt l) (result_frac_cnt r)\<rparr>"]
      by (simp add: vs)
  next
    case o: (over m)
    then show thesis using over[of "m\<lparr>result_frac_cnt := max (result_frac_cnt l) (result_frac_cnt r)\<rparr>"]
        mag_nonneg[of l] mag_nonneg[of r]
      by (simp add: vs)
  qed
next
  case False
  show thesis
  proof (cases rule: do_sub_cases[OF l r, case_names equal exact trunc])
    case e: equal
    have "dec_value l + dec_value r = 0" using e(1) False by (auto simp: dec_value_def)
    then show thesis using exact[of "zero_dec\<lparr>result_frac_cnt := max (result_frac_cnt l) (result_frac_cnt r)\<rparr>"] False e
      by (simp add: add_dec_def)
  next
    case e: (exact d)
    have "dec_value d = dec_value l + dec_value r"
      using False e(1,4,5) by (auto simp: dec_value_def abs_if split: if_splits)
    then show thesis using exact[of "d\<lparr>result_frac_cnt := max (result_frac_cnt l) (result_frac_cnt r)\<rparr>"] False e
      by (simp add: add_dec_def)
  next
    case t: (trunc d)
    have "1 / of_nat WORD_BASE ^ frac_words d \<le> (2 :: rat) / of_nat WORD_BASE ^ frac_words d"
      by (intro divide_right_mono) simp_all
    moreover have "\<bar>dec_value d - (dec_value l + dec_value r)\<bar> = \<bar>mag d - \<bar>mag l - mag r\<bar>\<bar>"
      using False t(4) \<open>mag l \<noteq> mag r\<close> by (auto simp: dec_value_def abs_if split: if_splits)
    ultimately show thesis
      using trunc[of "d\<lparr>result_frac_cnt := max (result_frac_cnt l) (result_frac_cnt r)\<rparr>"] False t
      by (simp add: add_dec_def)
  qed
qed

text \<open>Subtracting is adding the operand with the other sign.\<close>

lemma upd_negative:
  "word_buf (r\<lparr>negative := b\<rparr>) = word_buf r" "int_cnt (r\<lparr>negative := b\<rparr>) = int_cnt r"
  "frac_cnt (r\<lparr>negative := b\<rparr>) = frac_cnt r"
  by simp_all

lemma do_add_sign [simp]: "do_add l (r\<lparr>negative := b\<rparr>) = do_add l r"
  unfolding do_add_def upd_negative ..

lemma do_sub_sign [simp]: "do_sub l (r\<lparr>negative := b\<rparr>) = do_sub l r"
  unfolding do_sub_def calc_sub_carry_def do_sub_ordered_def upd_negative ..

lemma sub_dec_flip: "sub_dec l r = add_dec l (r\<lparr>negative := \<not> negative r\<rparr>)"
  by (auto simp: sub_dec_def add_dec_def)

lemma dec_value_flip [simp]: "dec_value (r\<lparr>negative := \<not> negative r\<rparr>) = - dec_value r"
  by (simp add: dec_value_def)

section \<open>Properties\<close>

text \<open>
  C1: \<open>Add\<close> on well-formed decimals never panics; an \<open>Ok\<close> result is the exact sum, a \<open>Truncated\<close>
  one is off by less than two units of its last fraction word, and overflow is only reported for
  operands of the same sign whose sum reaches \<open>WORD_MAX * WORD_BASE^8\<close> in magnitude.
\<close>

theorem add_dec_correct:
  assumes "dec_ok l" "dec_ok r"
  shows "(\<exists>d. add_dec l r = Some (Ok d) \<and> dec_ok d \<and> dec_value d = dec_value l + dec_value r) \<or>
    (\<exists>d. add_dec l r = Some (Truncated d) \<and> dec_ok d \<and>
      \<bar>dec_value d - (dec_value l + dec_value r)\<bar> < 2 / of_nat WORD_BASE ^ frac_words d) \<or>
    (\<exists>d. add_dec l r = Some (OverCausetxctx d) \<and> negative l = negative r \<and>
      of_nat WORD_MAX * of_nat WORD_BASE ^ 8 \<le> \<bar>dec_value l + dec_value r\<bar>)"
  by (rule add_dec_ok[OF assms]) blast+

theorem add_dec_correct_witness:
  fixes l r :: decimal
  defines "l \<equiv> dec_words 3 2 False [123, 450000000]" and "r \<equiv> dec_words 1 1 True [7, 500000000]"
  shows "dec_ok l \<and> dec_ok r \<and>
   ((\<exists>d. add_dec l r = Some (Ok d) \<and> dec_ok d \<and> dec_value d = dec_value l + dec_value r) \<or>
    (\<exists>d. add_dec l r = Some (Truncated d) \<and> dec_ok d \<and>
      \<bar>dec_value d - (dec_value l + dec_value r)\<bar> < 2 / of_nat WORD_BASE ^ frac_words d) \<or>
    (\<exists>d. add_dec l r = Some (OverCausetxctx d) \<and> negative l = negative r \<and>
      of_nat WORD_MAX * of_nat WORD_BASE ^ 8 \<le> \<bar>dec_value l + dec_value r\<bar>))"
proof -
  have "dec_ok l" "dec_ok r" by (simp_all add: l_def r_def dec_words_defs)
  with add_dec_correct[OF this] show ?thesis by blast
qed

text \<open>
  C2: \<open>Sub\<close> on well-formed decimals never panics; an \<open>Ok\<close> result is the exact difference, a
  \<open>Truncated\<close> one is off by less than two units of its last fraction word, and overflow is only
  reported for operands of opposite signs whose difference reaches \<open>WORD_MAX * WORD_BASE^8\<close>.
\<close>

theorem sub_dec_correct:
  assumes "dec_ok l" "dec_ok r"
  shows "(\<exists>d. sub_dec l r = Some (Ok d) \<and> dec_ok d \<and> dec_value d = dec_value l - dec_value r) \<or>
    (\<exists>d. sub_dec l r = Some (Truncated d) \<and> dec_ok d \<and>
      \<bar>dec_value d - (dec_value l - dec_value r)\<bar> < 2 / of_nat WORD_BASE ^ frac_words d) \<or>
    (\<exists>d. sub_dec l r = Some (OverCausetxctx d) \<and> negative l \<noteq> negative r \<and>
      of_nat WORD_MAX * of_nat WORD_BASE ^ 8 \<le> \<bar>dec_value l - dec_value r\<bar>)"
  unfolding sub_dec_flip
  by (rule add_dec_ok[OF assms(1), of "r\<lparr>negative := \<not> negative r\<rparr>"]) (use assms in auto)

theorem sub_dec_correct_witness:
  fixes l r :: decimal
  defines "l \<equiv> dec_words 3 2 False [123, 450000000]" and "r \<equiv> dec_words 10 1 False [1, 7, 500000000]"
  shows "dec_ok l \<and> dec_ok r \<and>
   ((\<exists>d. sub_dec l r = Some (Ok d) \<and> dec_ok d \<and> dec_value d = dec_value l - dec_value r) \<or>
    (\<exists>d. sub_dec l r = Some (Truncated d) \<and> dec_ok d \<and>
      \<bar>dec_value d - (dec_value l - dec_value r)\<bar> < 2 / of_nat WORD_BASE ^ frac_words d) \<or>
    (\<exists>d. sub_dec l r = Some (OverCausetxctx d) \<and> negative l \<noteq> negative r \<and>
      of_nat WORD_MAX * of_nat WORD_BASE ^ 8 \<le> \<bar>dec_value l - dec_value r\<bar>))"
proof -
  have "dec_ok l" "dec_ok r" by (simp_all add: l_def r_def dec_words_defs)
  with sub_dec_correct[OF this] show ?thesis by blast
qed

text \<open>
  \<open>do_sub\<close> on well-formed operands never panics and never reports overflow; equal
  magnitudes give the decimal zero, other results have the sign of the difference and are never
  the negative zero; without truncation the magnitude is the exact difference.
\<close>

theorem do_sub_correct:
  assumes "dec_ok l" "dec_ok r"
  shows "\<exists>d. (do_sub l r = Some (Ok d) \<and> mag d = \<bar>mag l - mag r\<bar> \<or>
      do_sub l r = Some (Truncated d) \<and> 0 < mag d \<and>
        \<bar>mag d - \<bar>mag l - mag r\<bar>\<bar> < 1 / of_nat WORD_BASE ^ frac_words d) \<and>
    dec_ok d \<and> (mag l = mag r \<longrightarrow> d = zero_dec) \<and>
    (mag l \<noteq> mag r \<longrightarrow> mag d \<noteq> 0 \<and> negative d = (negative l = (mag r < mag l)))"
  by (rule do_sub_cases[OF assms]) auto

theorem do_sub_correct_witness:
  fixes l r :: decimal
  defines "l \<equiv> dec_words 1 0 False [5]" and "r \<equiv> dec_words 1 0 False [7]"
  shows "dec_ok l \<and> dec_ok r \<and> mag l \<noteq> mag r \<and>
   (\<exists>d. (do_sub l r = Some (Ok d) \<and> mag d = \<bar>mag l - mag r\<bar> \<or>
      do_sub l r = Some (Truncated d) \<and> 0 < mag d \<and>
        \<bar>mag d - \<bar>mag l - mag r\<bar>\<bar> < 1 / of_nat WORD_BASE ^ frac_words d) \<and>
    dec_ok d \<and> mag d \<noteq> 0 \<and> negative d)"
proof -
  have "dec_ok l" "dec_ok r" by (simp_all add: l_def r_def dec_words_defs)
  moreover have "mag l < mag r" "\<not> negative l"
    by (simp_all add: l_def r_def mag_def used_def dec_words_def new_dec_def word_cnt_def)
  ultimately show ?thesis using do_sub_correct[of l r] by (metis less_irrefl order_less_asym)
qed

text \<open>
  C3: the \<open>Ord\<close> implementation, on every pair of well-formed decimals: \<open>cmp\<close> never panics and is the
  order of the denoted numbers, whatever the number of leading and trailing zero words of the two
  representations; the only exception are two zeros of different sign, of which the negative one
  is below the other.
\<close>

theorem cmp_dec_order:
  assumes "dec_ok l" "dec_ok r"
  shows "cmp_dec l r = Some
    (if dec_value l = 0 \<and> dec_value r = 0 \<and> negative l \<noteq> negative r
     then if negative l then Less else Greater
     else cmp_val (dec_value l) (dec_value r))"
  using assms by (rule cmp_dec_total)

theorem cmp_dec_order_witness:
  fixes l r z :: decimal
  defines "l \<equiv> dec_words 10 1 True [0, 7, 500000000]" and "r \<equiv> dec_words 1 10 True [8, 500000000, 0]"
    and "z \<equiv> dec_words 1 1 True [0, 0]"
  shows "dec_ok l \<and> dec_ok r \<and> cmp_dec l r = Some (cmp_val (dec_value l) (dec_value r)) \<and>
    dec_ok z \<and> dec_ok (dec_words 1 0 False [0]) \<and> cmp_dec z (dec_words 1 0 False [0]) = Some Less"
proof -
  have z: "dec_ok l" "dec_ok r" "dec_ok z" "dec_ok (dec_words 1 0 False [0])"
    "dec_value z = 0" "dec_value (dec_words 1 0 False [0]) = 0" "negative z" "negative l" "negative r"
    "\<not> negative (dec_words 1 0 False [0])"
    by (simp_all add: l_def r_def z_def dec_words_defs dec_value_def mag_def used_def)
  show ?thesis
    using cmp_dec_order[OF z(1,2)] cmp_dec_order[OF z(3,4)] z by simp
qed

text \<open>
  C4: \<open>Hash\<close> keeps its contract with \<open>Eq\<close> on every pair of well-formed decimals: neither panics, the
  hasher is fed with the same values exactly when the two decimals denote the same number, and
  decimals that \<open>eq\<close> calls equal are among them; the others are the pairs of zeros with different
  signs, which hash alike although \<open>eq\<close> tells them apart.
\<close>

theorem hash_agrees_with_eq:
  assumes "dec_ok l" "dec_ok r"
  shows "hash_input l \<noteq> None \<and> hash_input r \<noteq> None \<and>
    (hash_input l = hash_input r \<longleftrightarrow> dec_value l = dec_value r) \<and>
    eq_dec l r = Some (hash_input l = hash_input r \<and> (negative l = negative r \<or> dec_value l \<noteq> 0))"
proof -
  have "hash_input l \<noteq> None" "hash_input r \<noteq> None"
    using hash_input_ok[OF assms(1)] hash_input_ok[OF assms(2)] by (metis option.distinct(1))+
  moreover have "eq_dec l r = Some (dec_value l = dec_value r \<and> (negative l = negative r \<or> dec_value l \<noteq> 0))"
    using cmp_dec_total[OF assms] by (auto simp: eq_dec_def cmp_val_def)
  ultimately show ?thesis using hash_input_eq_iff[OF assms] by simp
qed

theorem hash_agrees_with_eq_witness:
  fixes l r :: decimal
  defines "l \<equiv> dec_words 10 1 True [0, 7, 500000000]" and "r \<equiv> dec_words 1 10 True [7, 500000000, 0]"
  shows "dec_ok l \<and> dec_ok r \<and> negative l = negative r \<and>
    hash_input l \<noteq> None \<and> hash_input r \<noteq> None \<and> eq_dec l r = Some (hash_input l = hash_input r)"
proof -
  have ok: "dec_ok l" "dec_ok r" "negative l = negative r" by (simp_all add: l_def r_def dec_words_defs)
  with hash_agrees_with_eq[OF ok(1,2)] show ?thesis by simp
qed

text \<open>
  The carry that \<open>calc_sub_carry\<close> computes is the documented one: none for equal magnitudes,
  0 when the left magnitude is larger and 1 when it is smaller.
\<close>

theorem calc_sub_carry_documented:
  assumes "dec_ok l" "dec_ok r"
  shows "\<exists>fw lt rt. calc_sub_carry l r =
    Some (if mag l = mag r then None else if mag l > mag r then Some 0 else Some 1, fw, lt, rt)"
  by (rule calc_sub_carry_ok[OF assms]) (auto simp: carry_of_def)

theorem calc_sub_carry_documented_witness:
  fixes l r :: decimal
  defines "l \<equiv> dec_words 1 1 False [7, 400000000]" and "r \<equiv> dec_words 1 10 True [7, 500000000, 0]"
  shows "dec_ok l \<and> dec_ok r \<and> (\<exists>fw lt rt. calc_sub_carry l r =
    Some (if mag l = mag r then None else if mag l > mag r then Some 0 else Some 1, fw, lt, rt))"
proof -
  have "dec_ok l" "dec_ok r" by (simp_all add: l_def r_def dec_words_defs)
  with calc_sub_carry_documented[OF this] show ?thesis by blast
qed

end
