(* ===== verification/Decimal_Int.thy ===== *)
theory Decimal_Int
  imports Decimal_Sub Eval_Context
begin

text \<open>
  Integers and decimals: \<open>From<u64>\<close>, \<open>From<i64>\<close>, \<open>as_i64\<close>, \<open>as_u64\<close>, \<open>as_i64_with_ctx\<close> and the
  conversion of a \<open>Res\<close> into a \<open>Result\<close> in \<open>src/berolinasql/src/decimal.rs\<close>. \<open>u64\<close> values are
  natural numbers below \<open>2^64\<close>, \<open>i64\<close> values integers in the two's complement range; the
  wrapping operations of \<open>as_i64\<close> are written out.
\<close>

section \<open>\<open>Res\<close> into \<open>Result\<close>\<close>

primrec into_result :: "'a res \<Rightarrow> 'a fresult" where
  "into_result (Ok t) = Inr t"
| "into_result (Truncated t) = Inl truncated_error"
| "into_result (OverCausetxctx t) = Inl (over_causetxctx '''' '''')"

definition map_unit :: "unit fresult \<times> 'c \<Rightarrow> 'a \<Rightarrow> 'a fresult \<times> 'c" where
  "map_unit rc t = (case rc of (Inr _, c) \<Rightarrow> (Inr t, c) | (Inl e, c) \<Rightarrow> (Inl e, c))"

fun into_result_impl ::
    "'a res \<Rightarrow> 'tz eval_context \<Rightarrow> error option \<Rightarrow> error option \<Rightarrow> 'a fresult \<times> 'tz eval_context" where
  "into_result_impl (Ok t) ctx tr ov = (Inr t, ctx)"
| "into_result_impl (Truncated t) ctx tr ov =
     map_unit (case tr of Some e \<Rightarrow> handle_truncate_err e ctx | None \<Rightarrow> handle_truncate True ctx) t"
| "into_result_impl (OverCausetxctx t) ctx tr ov =
     map_unit (case ov of Some e \<Rightarrow> handle_overCausetxctx_err e ctx
       | None \<Rightarrow> handle_overCausetxctx_err (over_causetxctx ''DECIMAL'' '''') ctx) t"

section \<open>Decimals as integers\<close>

definition i64_MIN :: int where "i64_MIN = - (2 ^ 63)"
definition i64_MAX :: int where "i64_MAX = 2 ^ 63 - 1"
definition u64_MAX :: nat where "u64_MAX = 2 ^ 64 - 1"

text \<open>The loop over the integer words of \<open>as_i64\<close>; an early return is an \<open>Inl\<close>.\<close>

function as_i64_loop :: "decimal \<Rightarrow> nat \<Rightarrow> nat \<Rightarrow> int \<Rightarrow> (int res + int) option" where
  "as_i64_loop d word_idx stop x =
     (if word_idx < stop
      then do {
        w \<leftarrow> get_at (word_buf d) word_idx;
        let y = x;
        let x = as_signed 64 (as_signed 64 (x * int WORD_BASE) - int w);
        if y < sdiv i64_MIN (int WORD_BASE) \<or> x > y
        then Some (Inl (OverCausetxctx (if negative d then i64_MIN else i64_MAX)))
        else as_i64_loop d (word_idx + 1) stop x }
      else Some (Inr x))"
  by pat_completeness auto
termination
  by (relation "measure (\<lambda>(d, i, stop, x). stop - i)") auto

text \<open>The second loop: is there a nonzero word among \<open>idx..stop\<close>?\<close>

function any_nonzero :: "nat list \<Rightarrow> nat \<Rightarrow> nat \<Rightarrow> bool option" where
  "any_nonzero buf idx stop =
     (if idx < stop
      then do {
        w \<leftarrow> get_at buf idx;
        if w \<noteq> 0 then Some True else any_nonzero buf (idx + 1) stop }
      else Some False)"
  by pat_completeness auto
termination
  by (relation "measure (\<lambda>(buf, i, stop). stop - i)") auto

declare as_i64_loop.simps [simp del] any_nonzero.simps [simp del]

definition as_i64 :: "decimal \<Rightarrow> int res option" where
  "as_i64 d = do {
     let int_word_cnt = word_cnt (int_cnt d);
     r \<leftarrow> as_i64_loop d 0 int_word_cnt 0;
     case r of
       Inl res \<Rightarrow> Some res
     | Inr x \<Rightarrow>
         (if \<not> negative d \<and> x = i64_MIN then Some (OverCausetxctx i64_MAX)
          else do {
            x \<leftarrow> (if \<not> negative d then scheck 64 (- x) else Some x);
            t \<leftarrow> any_nonzero (word_buf d) int_word_cnt (int_word_cnt + word_cnt (frac_cnt d));
            Some (if t then Truncated x else Ok x) }) }"

definition as_i64_with_ctx :: "decimal \<Rightarrow> 'tz eval_context \<Rightarrow> (int fresult \<times> 'tz eval_context) option" where
  "as_i64_with_ctx d ctx = do {
     res \<leftarrow> as_i64 d;
     Some (case handle_truncate (is_truncated res) ctx of
        (Inl e, ctx) \<Rightarrow> (Inl e, ctx)
      | (Inr _, ctx) \<Rightarrow> (into_result res, ctx)) }"

function as_u64_loop :: "nat list \<Rightarrow> nat \<Rightarrow> nat \<Rightarrow> nat \<Rightarrow> (nat res + nat) option" where
  "as_u64_loop buf word_idx stop x =
     (if word_idx < stop
      then do {
        if x * WORD_BASE \<ge> 2 ^ 64 then Some (Inl (OverCausetxctx u64_MAX))
        else do {
          w \<leftarrow> get_at buf word_idx;
          if x * WORD_BASE + w \<ge> 2 ^ 64 then Some (Inl (OverCausetxctx u64_MAX))
          else as_u64_loop buf (word_idx + 1) stop (x * WORD_BASE + w) } }
      else Some (Inr x))"
  by pat_completeness auto
termination
  by (relation "measure (\<lambda>(buf, i, stop, x). stop - i)") auto

declare as_u64_loop.simps [simp del]

definition as_u64 :: "decimal \<Rightarrow> nat res option" where
  "as_u64 d =
     (if negative d then Some (OverCausetxctx 0)
      else do {
        let int_cnt = word_cnt (int_cnt d);
        r \<leftarrow> as_u64_loop (word_buf d) 0 int_cnt 0;
        case r of
          Inl res \<Rightarrow> Some res
        | Inr x \<Rightarrow> do {
            t \<leftarrow> any_nonzero (word_buf d) int_cnt (int_cnt + word_cnt (frac_cnt d));
            Some (if t then Truncated x else Ok x) } })"

section \<open>Integers as decimals\<close>

text \<open>\<open>while x >= WORD_BASE { word_idx += 1; x /= WORD_BASE }\<close>\<close>

function count_words :: "nat \<Rightarrow> nat \<Rightarrow> nat" where
  "count_words x word_idx =
     (if x \<ge> WORD_BASE then count_words (x div WORD_BASE) (word_idx + 1) else word_idx)"
  by pat_completeness auto
termination
  by (relation "measure fst") (auto simp: WORD_BASE_def)

text \<open>\<open>while word_idx > 0\<close>: store the remainders from the last word to the first.\<close>

fun put_words :: "nat \<Rightarrow> nat \<Rightarrow> nat list \<Rightarrow> nat list option" where
  "put_words 0 x buf = Some buf"
| "put_words (Suc word_idx) x buf = do {
     buf \<leftarrow> set_at buf word_idx (x mod WORD_BASE);
     put_words word_idx (x div WORD_BASE) buf }"

declare count_words.simps [simp del]

definition from_u64 :: "nat \<Rightarrow> decimal option" where
  "from_u64 u = do {
     let word_idx = count_words u 1;
     ic \<leftarrow> umul 8 word_idx DIGITS_PER_WORD;
     let d = new_dec ic 0 False;
     buf \<leftarrow> put_words word_idx u (word_buf d);
     Some (d\<lparr>word_buf := buf\<rparr>) }"

text \<open>\<open>overflowing_neg\<close> of a negative \<open>i64\<close>, read as a \<open>u64\<close>.\<close>

definition from_i64 :: "int \<Rightarrow> decimal option" where
  "from_i64 i = do {
     d \<leftarrow> (if i < 0 then from_u64 (as_unsigned 64 (as_signed 64 (- i)))
           else from_u64 (as_unsigned 64 i));
     Some (d\<lparr>negative := i < 0\<rparr>) }"

section \<open>The loops, verified\<close>

lemma any_nonzero_ok:
  "i \<le> stop \<Longrightarrow> stop \<le> length buf \<Longrightarrow>
   any_nonzero buf i stop = Some (\<exists>w\<in>set (seg buf i (stop - i)). w \<noteq> 0)"
proof (induction "stop - i" arbitrary: i)
  case 0
  then show ?case by (subst any_nonzero.simps) simp
next
  case (Suc n)
  then have i: "i < stop" "n = stop - (i + 1)" "stop - i = Suc (stop - (i + 1))" by auto
  have "seg buf i (stop - i) = buf ! i # seg buf (i + 1) (stop - (i + 1))"
    unfolding i(3) using i(1) Suc.prems by (simp add: Cons_nth_drop_Suc[symmetric])
  then show ?case
    using Suc.hyps(1)[OF i(2)] i Suc.prems by (subst any_nonzero.simps) (auto simp: get_at_def)
qed

lemma as_i64_step:
  assumes "0 \<le> v" "v \<le> 2 ^ 63" "w < WORD_BASE"
  defines "x \<equiv> as_signed 64 (as_signed 64 (- v * int WORD_BASE) - int w)"
  shows "(- v < sdiv i64_MIN (int WORD_BASE) \<or> x > - v) \<longleftrightarrow> 2 ^ 63 < v * int WORD_BASE + int w"
    "v * int WORD_BASE + int w \<le> 2 ^ 63 \<Longrightarrow> x = - (v * int WORD_BASE + int w)"
proof -
  have q: "sdiv i64_MIN (int WORD_BASE) = - 9223372036"
    by (simp add: sdiv_def i64_MIN_def WORD_BASE_def)
  have B: "int WORD_BASE = 1000000000" by (simp add: WORD_BASE_def)
  have w: "int w < 1000000000" "0 \<le> int w" using assms(3) by (simp_all add: WORD_BASE_def)
  have eq: "x = - (v * int WORD_BASE + int w)" if "v * int WORD_BASE + int w \<le> 2 ^ 63"
  proof -
    have "in_signed 64 (- v * int WORD_BASE)" "in_signed 64 (- v * int WORD_BASE - int w)"
      using that assms(1) w by (auto simp: in_signed_def B)
    then show ?thesis by (simp add: x_def as_signed_id)
  qed
  show "v * int WORD_BASE + int w \<le> 2 ^ 63 \<Longrightarrow> x = - (v * int WORD_BASE + int w)" by (rule eq)
  show "(- v < sdiv i64_MIN (int WORD_BASE) \<or> x > - v) \<longleftrightarrow> 2 ^ 63 < v * int WORD_BASE + int w"
  proof (cases "2 ^ 63 < v * int WORD_BASE + int w")
    case True
    show ?thesis
    proof (cases "v \<le> 9223372036")
      case v: True
      then have vv: "v = 9223372036" using True w by (simp add: B)
      have "in_signed 64 (- v * int WORD_BASE)" by (simp add: vv B in_signed_def)
      then have "x = as_signed 64 (- v * int WORD_BASE - int w)" by (simp add: x_def as_signed_id)
      also have "\<dots> = 2 ^ 64 - v * int WORD_BASE - int w"
      proof -
        have "(854775808 - int w) mod 18446744073709551616 =
            (854775808 - int w + 18446744073709551616) mod 18446744073709551616"
          by (simp only: mod_add_self2)
        also have "\<dots> = 854775808 - int w + 18446744073709551616"
          using True w by (intro mod_pos_pos_trivial) (simp_all add: vv B)
        finally show ?thesis by (simp add: as_signed_def vv B)
      qed
      finally show ?thesis using True w by (simp add: vv B)
    qed (use True q in simp)
  next
    case False
    then have "x = - (v * int WORD_BASE + int w)" using eq by simp
    moreover have "v \<le> v * int WORD_BASE" using assms(1) by (simp add: B)
    moreover have "v \<le> 9223372036" using False w by (simp add: B)
    ultimately show ?thesis using False w q by auto
  qed
qed

lemma bval_Cons_acc:
  "length ws = n \<Longrightarrow> v * b ^ Suc n + bval b (w # ws) = (v * b + w) * b ^ n + bval b ws"
  by (simp add: algebra_simps)

lemma seg_Cons: "i < stop \<Longrightarrow> stop \<le> length buf \<Longrightarrow>
    seg buf i (stop - i) = buf ! i # seg buf (Suc i) (stop - Suc i)"
proof -
  assume "i < stop" "stop \<le> length buf"
  moreover from this have "stop - i = Suc (stop - Suc i)" by simp
  ultimately show ?thesis by (simp add: Cons_nth_drop_Suc[symmetric] take_Suc_Cons)
qed

lemma seg_acc: "i < stop \<Longrightarrow> stop \<le> length buf \<Longrightarrow>
    v * b ^ (stop - i) + bval b (seg buf i (stop - i)) =
    (v * b + buf ! i) * b ^ (stop - Suc i) + bval b (seg buf (Suc i) (stop - Suc i))"
proof -
  assume a: "i < stop" "stop \<le> length buf"
  then have e: "stop - i = Suc (stop - Suc i)" "length (seg buf (Suc i) (stop - Suc i)) = stop - Suc i" by auto
  show ?thesis unfolding seg_Cons[OF a] using bval_Cons_acc[OF e(2), of v b "buf ! i"] e(1) by simp
qed

lemma acc_mono: "v \<le> v * WORD_BASE ^ n + (m :: nat)"
  by (metis One_nat_def WORD_BASE_pos(3) le_add1 le_trans mult.right_neutral mult_le_mono2 one_le_power)

lemma as_i64_loop_ok:
  assumes "below WORD_BASE (word_buf d)"
  shows "i \<le> stop \<Longrightarrow> stop \<le> length (word_buf d) \<Longrightarrow> v \<le> 2 ^ 63 \<Longrightarrow>
   as_i64_loop d i stop (- int v) =
     (let V = v * WORD_BASE ^ (stop - i) + bval WORD_BASE (seg (word_buf d) i (stop - i)) in
      if V \<le> 2 ^ 63 then Some (Inr (- int V))
      else Some (Inl (OverCausetxctx (if negative d then i64_MIN else i64_MAX))))"
proof (induction "stop - i" arbitrary: i v)
  case 0
  then show ?case by (subst as_i64_loop.simps) simp
next
  case (Suc n)
  let ?b = "word_buf d" and ?t = "seg (word_buf d) (Suc i) (stop - Suc i)"
  have i: "i < stop" "n = stop - Suc i" "stop - i = Suc (stop - Suc i)" "Suc i \<le> stop" using Suc.hyps(2) by auto
  define w u where w: "w = ?b ! i" and u: "u = v * WORD_BASE + w"
  have wB: "w < WORD_BASE" using assms i Suc.prems by (simp add: w below_nth)
  have g: "get_at ?b i = Some w" using i Suc.prems by (simp add: get_at_def w)
  have V: "v * WORD_BASE ^ (stop - i) + bval WORD_BASE (seg ?b i (stop - i)) =
      u * WORD_BASE ^ (stop - Suc i) + bval WORD_BASE ?t"
    unfolding u w by (rule seg_acc[OF i(1) Suc.prems(2)])
  have eu: "int v * int WORD_BASE + int w = int u" by (simp add: u)
  note st = as_i64_step[of "int v" w, unfolded eu]
  have pre: "0 \<le> int v" "int v \<le> 2 ^ 63" using Suc.prems(3) by (simp_all add: flip: of_nat_le_iff)
  show ?case
  proof (cases "u \<le> 2 ^ 63")
    case True
    then have u63: "int u \<le> 2 ^ 63" by simp
    have "as_i64_loop d i stop (- int v) = as_i64_loop d (Suc i) stop (- int u)"
      using st(1)[OF pre wB] st(2)[OF pre wB u63] u63 i g by (subst as_i64_loop.simps) (simp add: Let_def)
    then show ?thesis unfolding V using Suc.hyps(1)[OF i(2) i(4) Suc.prems(2) True] by simp
  next
    case False
    then have "2 ^ 63 < int u" by simp
    then have "as_i64_loop d i stop (- int v) = Some (Inl (OverCausetxctx (if negative d then i64_MIN else i64_MAX)))"
      using st(1)[OF pre wB] i g by (subst as_i64_loop.simps) (simp add: Let_def)
    moreover have "u \<le> u * WORD_BASE ^ (stop - Suc i) + bval WORD_BASE ?t" by (rule acc_mono)
    ultimately show ?thesis unfolding V using False by (simp add: Let_def)
  qed
qed

lemma as_u64_loop_ok:
  assumes "below WORD_BASE buf"
  shows "i \<le> stop \<Longrightarrow> stop \<le> length buf \<Longrightarrow> v < 2 ^ 64 \<Longrightarrow>
   as_u64_loop buf i stop v =
     (let V = v * WORD_BASE ^ (stop - i) + bval WORD_BASE (seg buf i (stop - i)) in
      if V < 2 ^ 64 then Some (Inr V) else Some (Inl (OverCausetxctx u64_MAX)))"
proof (induction "stop - i" arbitrary: i v)
  case 0
  then show ?case by (subst as_u64_loop.simps) simp
next
  case (Suc n)
  let ?t = "seg buf (Suc i) (stop - Suc i)"
  have i: "i < stop" "n = stop - Suc i" "stop - i = Suc (stop - Suc i)" "Suc i \<le> stop" using Suc.hyps(2) by auto
  define w u where w: "w = buf ! i" and u: "u = v * WORD_BASE + w"
  have g: "get_at buf i = Some w" using i Suc.prems by (simp add: get_at_def w)
  have V: "v * WORD_BASE ^ (stop - i) + bval WORD_BASE (seg buf i (stop - i)) =
      u * WORD_BASE ^ (stop - Suc i) + bval WORD_BASE ?t"
    unfolding u w by (rule seg_acc[OF i(1) Suc.prems(2)])
  show ?case
  proof (cases "u < 2 ^ 64")
    case True
    then have "as_u64_loop buf i stop v = as_u64_loop buf (Suc i) stop u"
      using i g by (subst as_u64_loop.simps) (simp add: u)
    then show ?thesis unfolding V using Suc.hyps(1)[OF i(2) i(4) Suc.prems(2) True] by simp
  next
    case False
    then have "as_u64_loop buf i stop v = Some (Inl (OverCausetxctx u64_MAX))"
      using i g by (subst as_u64_loop.simps) (simp add: u)
    moreover have "u \<le> u * WORD_BASE ^ (stop - Suc i) + bval WORD_BASE ?t" by (rule acc_mono)
    ultimately show ?thesis unfolding V using False by (simp add: Let_def)
  qed
qed

section \<open>\<open>as_i64\<close> and \<open>as_u64\<close>, verified\<close>

definition ipart :: "decimal \<Rightarrow> nat" where
  "ipart d = bval WORD_BASE (take (int_words d) (word_buf d))"

lemma ipart_floor:
  assumes "dec_ok d"
  shows "\<lfloor>mag d\<rfloor> = int (ipart d)"
proof -
  have "cut_mag d 0 = of_nat (ipart d)" by (simp add: cut_mag_def ipart_def)
  then show ?thesis using cut_mag_bounds[OF assms, of 0] by (intro floor_unique) auto
qed

lemma mag_split:
  assumes "dec_ok d"
  shows "mag d = of_nat (ipart d) + fval WORD_BASE (seg (word_buf d) (int_words d) (frac_words d))"
proof -
  let ?t = "seg (word_buf d) (int_words d) (frac_words d)"
  have "used d = take (int_words d) (word_buf d) @ ?t" by (simp add: used_def take_add)
  moreover have "length ?t = frac_words d" using dec_okD[OF assms] by simp
  ultimately show ?thesis
    by (simp add: mag_def ipart_def bval_append add_divide_distrib bval_fval[of WORD_BASE ?t])
qed

lemma frac_nonzero:
  assumes "dec_ok d"
  shows "any_nonzero (word_buf d) (int_words d) (int_words d + frac_words d) =
    Some (mag d \<noteq> of_nat (ipart d))"
  using any_nonzero_ok[of "int_words d" "int_words d + frac_words d" "word_buf d"] dec_okD[OF assms]
    fval_zero_iff[of WORD_BASE "seg (word_buf d) (int_words d) (frac_words d)"]
  by (auto simp: mag_split[OF assms])

definition tagged :: "bool \<Rightarrow> 'a \<Rightarrow> 'a res" where
  "tagged exact x = (if exact then Ok x else Truncated x)"

lemma as_i64_ok:
  assumes "dec_ok d"
  defines "x \<equiv> (if negative d then - \<lfloor>mag d\<rfloor> else \<lfloor>mag d\<rfloor>)"
  shows "as_i64 d = Some (if x < i64_MIN then OverCausetxctx i64_MIN
     else if x > i64_MAX then OverCausetxctx i64_MAX else tagged (mag d = of_int \<lfloor>mag d\<rfloor>) x)"
proof -
  have l: "as_i64_loop d 0 (int_words d) 0 = (if ipart d \<le> 2 ^ 63 then Some (Inr (- int (ipart d)))
      else Some (Inl (OverCausetxctx (if negative d then i64_MIN else i64_MAX))))"
    using as_i64_loop_ok[of d 0 "int_words d" 0] dec_okD[OF assms(1)] by (simp add: Let_def ipart_def)
  have f: "\<lfloor>mag d\<rfloor> = int (ipart d)" by (rule ipart_floor[OF assms(1)])
  show ?thesis
  proof (cases "ipart d \<le> 2 ^ 63")
    case True
    then have i: "int (ipart d) \<le> 2 ^ 63" by simp
    have "scheck 64 (int (ipart d)) = Some (int (ipart d))" if "int (ipart d) \<noteq> 2 ^ 63"
      using that i by (simp add: scheck_def in_signed_def)
    then show ?thesis
      using True i frac_nonzero[OF assms(1)]
      by (auto simp: as_i64_def l x_def f i64_MIN_def i64_MAX_def tagged_def)
  next
    case False
    then have "int (ipart d) > 2 ^ 63" by simp
    then show ?thesis using False by (auto simp: as_i64_def l x_def f i64_MIN_def i64_MAX_def)
  qed
qed

lemma as_u64_ok:
  assumes "dec_ok d"
  shows "as_u64 d = Some (if negative d then OverCausetxctx 0
     else if \<lfloor>mag d\<rfloor> > int u64_MAX then OverCausetxctx u64_MAX
     else tagged (mag d = of_int \<lfloor>mag d\<rfloor>) (nat \<lfloor>mag d\<rfloor>))"
proof -
  have l: "as_u64_loop (word_buf d) 0 (int_words d) 0 =
      (if ipart d < 2 ^ 64 then Some (Inr (ipart d)) else Some (Inl (OverCausetxctx u64_MAX)))"
    using as_u64_loop_ok[of "word_buf d" 0 "int_words d" 0] dec_okD[OF assms(1)] by (simp add: Let_def ipart_def)
  have f: "\<lfloor>mag d\<rfloor> = int (ipart d)" by (rule ipart_floor[OF assms(1)])
  show ?thesis
    using frac_nonzero[OF assms] by (auto simp: as_u64_def l f u64_MAX_def tagged_def)
qed

section \<open>Building decimals, verified\<close>

lemma put_words_ok:
  "length pre = n \<Longrightarrow> \<exists>zs. put_words n x (pre @ post) = Some (zs @ post) \<and> length zs = n \<and>
     below WORD_BASE zs \<and> bval WORD_BASE zs = x mod WORD_BASE ^ n"
proof (induction n arbitrary: x pre post)
  case (Suc n)
  obtain p y where p: "pre = p @ [y]" "length p = n" using split_last Suc.prems by blast
  obtain zs where zs: "put_words n (x div WORD_BASE) (p @ (x mod WORD_BASE) # post) =
      Some (zs @ (x mod WORD_BASE) # post)" "length zs = n" "below WORD_BASE zs"
      "bval WORD_BASE zs = x div WORD_BASE mod WORD_BASE ^ n"
    using Suc.IH[OF p(2)] by blast
  have "set_at (pre @ post) n (x mod WORD_BASE) = Some (p @ (x mod WORD_BASE) # post)"
    using set_at_mid[of n p y post] p by simp
  moreover have "bval WORD_BASE (zs @ [x mod WORD_BASE]) = x mod WORD_BASE ^ Suc n"
    by (simp add: bval_append zs(4) mod_mult2_eq mult.commute)
  ultimately show ?case using zs by (intro exI[of _ "zs @ [x mod WORD_BASE]"]) simp
qed simp

lemma count_words_ok:
  "\<exists>k. count_words x n = n + k \<and> x < WORD_BASE ^ Suc k \<and> (k = 0 \<or> WORD_BASE ^ k \<le> x)"
proof (induction x n rule: count_words.induct)
  case (1 x n)
  show ?case
  proof (cases "x \<ge> WORD_BASE")
    case True
    with 1 obtain k where k: "count_words (x div WORD_BASE) (n + 1) = n + 1 + k"
      "x div WORD_BASE < WORD_BASE ^ Suc k" "k = 0 \<or> WORD_BASE ^ k \<le> x div WORD_BASE" by blast
    have "x < WORD_BASE ^ Suc k * WORD_BASE" using k(2) by (simp only: less_mult_imp_div_less div_less_iff_less_mult WORD_BASE_pos)
    moreover have "WORD_BASE ^ Suc k \<le> x"
      using k(3) True by (auto simp: less_eq_div_iff_mult_less_eq mult.commute)
    ultimately show ?thesis using True k(1)
      by (intro exI[of _ "Suc k"]) (subst count_words.simps, simp add: mult.commute)
  next
    case False
    then show ?thesis by (intro exI[of _ 0]) (subst count_words.simps, simp)
  qed
qed

lemma from_u64_ok:
  assumes "u < 2 ^ 64"
  obtains d where "from_u64 u = Some d" "dec_ok d" "mag d = of_nat u" "\<not> negative d"
    "frac_cnt d = 0" "result_frac_cnt d = 0"
proof -
  obtain k where k: "count_words u 1 = 1 + k" "u < WORD_BASE ^ Suc k" "k = 0 \<or> WORD_BASE ^ k \<le> u"
    using count_words_ok by blast
  have "k < 3"
  proof (rule ccontr)
    assume "\<not> k < 3"
    then have "WORD_BASE ^ 3 \<le> WORD_BASE ^ k" using WORD_BASE_u32(3) by (intro power_increasing) auto
    moreover have "WORD_BASE ^ k \<le> u" using k(3) \<open>\<not> k < 3\<close> by auto
    ultimately have "WORD_BASE ^ 3 \<le> u" by linarith
    then show False using assms by (simp add: WORD_BASE_def)
  qed
  have z: "zeros 9 = zeros (Suc k) @ zeros (8 - k)"
    using \<open>k < 3\<close> by (subst replicate_add[symmetric]) simp
  obtain zs where zs: "put_words (Suc k) u (zeros 9) = Some (zs @ zeros (8 - k))" "length zs = Suc k"
      "below WORD_BASE zs" "bval WORD_BASE zs = u mod WORD_BASE ^ Suc k"
    using put_words_ok[of "zeros (Suc k)" "Suc k" u "zeros (8 - k)"] unfolding z by auto
  let ?d = "(new_dec (Suc k * 9) 0 False)\<lparr>word_buf := zs @ zeros (8 - k)\<rparr>"
  have "umul 8 (Suc k) 9 = Some (Suc k * 9)" using \<open>k < 3\<close> by (simp add: umul_def)
  then have "from_u64 u = Some ?d" using k(1) zs(1) by (simp add: from_u64_def new_dec_def)
  moreover note mag_new[of "zs @ zeros (8 - k)" "Suc k" 0 0 False]
  ultimately show thesis
    using that[of ?d] zs k(2) \<open>k < 3\<close> by (simp add: new_dec_def)
qed

lemma from_i64_ok:
  assumes "in_signed 64 i"
  obtains d where "from_i64 i = Some d" "dec_ok d" "dec_value d = of_int i" "sign_ok d"
    "frac_cnt d = 0" "mag d = of_int \<bar>i\<bar>" "negative d = (i < 0)"
proof -
  define u where "u = nat \<bar>i\<bar>"
  have u: "u < 2 ^ 64" using assms by (auto simp: in_signed_def u_def)
  have n: "as_unsigned 64 (as_signed 64 (- i)) = u" if "i < 0"
  proof (cases "i = - (2 ^ 63)")
    case False
    then have "in_signed 64 (- i)" using assms that by (auto simp: in_signed_def)
    then show ?thesis using that assms by (simp add: as_signed_id as_unsigned_def u_def in_signed_def)
  qed (simp add: as_signed_def as_unsigned_def u_def)
  have p: "as_unsigned 64 i = u" if "\<not> i < 0"
    using that assms by (simp add: as_unsigned_def u_def in_signed_def)
  obtain d where d: "from_u64 u = Some d" "dec_ok d" "mag d = of_nat u" "\<not> negative d" "frac_cnt d = 0"
    using from_u64_ok[OF u] by metis
  have "from_i64 i = Some (d\<lparr>negative := i < 0\<rparr>)" using d(1) n p by (auto simp: from_i64_def)
  moreover have "(of_nat u :: rat) = of_int \<bar>i\<bar>" by (simp add: u_def)
  ultimately show thesis
    using that[of "d\<lparr>negative := i < 0\<rparr>"] d by (auto simp: dec_value_def sign_ok_def)
qed

section \<open>Properties\<close>

text \<open>
  C27: \<open>as_i64\<close> never panics and returns the integer part: with \<open>x\<close> the value rounded towards
  zero, \<open>Ok x\<close> when the value is an integer, \<open>Truncated x\<close> when a fraction is dropped, and when
  \<open>x\<close> is not an \<open>i64\<close>, overflow with the nearest \<open>i64\<close>. In particular the wrapping arithmetic of
  its loop misses no overflow and reports none that is not there.
\<close>

theorem as_i64_correct:
  assumes "dec_ok d"
  shows "as_i64 d = Some (let x = (if negative d then - \<lfloor>mag d\<rfloor> else \<lfloor>mag d\<rfloor>) in
     if x < i64_MIN then OverCausetxctx i64_MIN else if x > i64_MAX then OverCausetxctx i64_MAX
     else if mag d = of_int \<lfloor>mag d\<rfloor> then Ok x else Truncated x)"
  using as_i64_ok[OF assms] by (simp add: Let_def tagged_def)

theorem as_i64_correct_witness:
  fixes d :: decimal
  defines "d \<equiv> dec_words 19 0 True [9, 223372036, 854775808]"
  shows "dec_ok d \<and> as_i64 d = Some (let x = (if negative d then - \<lfloor>mag d\<rfloor> else \<lfloor>mag d\<rfloor>) in
     if x < i64_MIN then OverCausetxctx i64_MIN else if x > i64_MAX then OverCausetxctx i64_MAX
     else if mag d = of_int \<lfloor>mag d\<rfloor> then Ok x else Truncated x)"
proof -
  have "dec_ok d" by (simp add: d_def dec_words_defs)
  with as_i64_correct[OF this] show ?thesis by blast
qed

text \<open>
  C28: \<open>as_u64\<close> never panics; a negative decimal is an overflow with 0, an integer part above
  \<open>u64::MAX\<close> an overflow with \<open>u64::MAX\<close>, and otherwise it returns the integer part, tagged
  \<open>Truncated\<close> exactly when a nonzero fraction is dropped.
\<close>

theorem as_u64_correct:
  assumes "dec_ok d"
  shows "as_u64 d = Some (if negative d then OverCausetxctx 0
     else if \<lfloor>mag d\<rfloor> > int u64_MAX then OverCausetxctx u64_MAX
     else if mag d = of_int \<lfloor>mag d\<rfloor> then Ok (nat \<lfloor>mag d\<rfloor>) else Truncated (nat \<lfloor>mag d\<rfloor>))"
  using as_u64_ok[OF assms] by (simp add: tagged_def)

theorem as_u64_correct_witness:
  fixes d :: decimal
  defines "d \<equiv> dec_words 3 1 False [123, 400000000]"
  shows "dec_ok d \<and> as_u64 d = Some (if negative d then OverCausetxctx 0
     else if \<lfloor>mag d\<rfloor> > int u64_MAX then OverCausetxctx u64_MAX
     else if mag d = of_int \<lfloor>mag d\<rfloor> then Ok (nat \<lfloor>mag d\<rfloor>) else Truncated (nat \<lfloor>mag d\<rfloor>))"
proof -
  have "dec_ok d" by (simp add: d_def dec_words_defs)
  with as_u64_correct[OF this] show ?thesis by blast
qed

text \<open>
  Every \<open>i64\<close> survives the way through a decimal: \<open>From<i64>\<close> does not panic, not even on
  \<open>i64::MIN\<close>, gives a well-formed decimal of that value, and \<open>as_i64\<close> gives the integer back.
\<close>

theorem i64_roundtrip:
  assumes "i64_MIN \<le> i" "i \<le> i64_MAX"
  shows "\<exists>d. from_i64 i = Some d \<and> dec_ok d \<and> sign_ok d \<and> dec_value d = of_int i \<and> as_i64 d = Some (Ok i)"
proof -
  have "in_signed 64 i" using assms by (simp add: in_signed_def i64_MIN_def i64_MAX_def)
  then obtain d where d: "from_i64 i = Some d" "dec_ok d" "dec_value d = of_int i" "sign_ok d"
      "frac_cnt d = 0" "mag d = of_int \<bar>i\<bar>" "negative d = (i < 0)" using from_i64_ok by metis
  then show ?thesis using as_i64_ok[of d] assms by (auto simp: tagged_def)
qed

theorem i64_roundtrip_witness:
  "i64_MIN \<le> i64_MIN \<and> i64_MIN \<le> i64_MAX \<and>
   (\<exists>d. from_i64 i64_MIN = Some d \<and> dec_ok d \<and> sign_ok d \<and> dec_value d = of_int i64_MIN \<and>
      as_i64 d = Some (Ok i64_MIN))"
  using i64_roundtrip[of i64_MIN] by (simp add: i64_MIN_def i64_MAX_def)

text \<open>
  Every \<open>u64\<close> survives the way through a decimal: \<open>From<u64>\<close> does not panic and gives a
  well-formed decimal of that value, and \<open>as_u64\<close> gives the number back.
\<close>

theorem u64_roundtrip:
  assumes "u \<le> u64_MAX"
  shows "\<exists>d. from_u64 u = Some d \<and> dec_ok d \<and> dec_value d = of_nat u \<and> as_u64 d = Some (Ok u)"
proof -
  have "u < 2 ^ 64" using assms by (simp add: u64_MAX_def)
  then obtain d where d: "from_u64 u = Some d" "dec_ok d" "mag d = of_nat u" "\<not> negative d"
    using from_u64_ok by metis
  then show ?thesis using as_u64_ok[of d] assms by (auto simp: tagged_def dec_value_def)
qed

theorem u64_roundtrip_witness:
  "u64_MAX \<le> u64_MAX \<and> (\<exists>d. from_u64 u64_MAX = Some d \<and> dec_ok d \<and> dec_value d = of_nat u64_MAX \<and>
     as_u64 d = Some (Ok u64_MAX))"
  using u64_roundtrip[of u64_MAX] by simp

text \<open>
  \<open>From<i64>\<close> is an order embedding: comparing the decimals of two integers is comparing the
  integers.
\<close>

theorem from_i64_monotone:
  assumes "i64_MIN \<le> i" "i \<le> i64_MAX" "i64_MIN \<le> j" "j \<le> i64_MAX"
  shows "do { a \<leftarrow> from_i64 i; b \<leftarrow> from_i64 j; cmp_dec a b } = Some (cmp_val i j)"
proof -
  have "in_signed 64 i" "in_signed 64 j" using assms by (simp_all add: in_signed_def i64_MIN_def i64_MAX_def)
  then obtain a b where a: "from_i64 i = Some a" "dec_ok a" "dec_value a = of_int i" "sign_ok a"
    and b: "from_i64 j = Some b" "dec_ok b" "dec_value b = of_int j" "sign_ok b"
    by (metis from_i64_ok)
  then show ?thesis using dec.compare_key[of a b] by (simp add: cmp_val_def)
qed

theorem from_i64_monotone_witness:
  "i64_MIN \<le> - 5 \<and> - 5 \<le> i64_MAX \<and> i64_MIN \<le> 7 \<and> 7 \<le> i64_MAX \<and>
   do { a \<leftarrow> from_i64 (- 5); b \<leftarrow> from_i64 7; cmp_dec a b } = Some (cmp_val (- 5 :: int) 7)"
  using from_i64_monotone[of "- 5" 7] by (simp add: i64_MIN_def i64_MAX_def)

text \<open>
  \<open>as_i64_with_ctx\<close> returns an error for every in-range decimal with a nonzero fraction,
  whatever the flags of the context, although \<open>IGNORE_TRUNCATE\<close> asks \<open>handle_truncate\<close> to let the
  truncation pass: the conversion of \<open>Res::Truncated\<close> into a \<open>Result\<close> is itself the error.
\<close>

theorem as_i64_with_ctx_truncation_fails:
  assumes "dec_ok d" "mag d < 2 ^ 63" "mag d \<noteq> of_int \<lfloor>mag d\<rfloor>"
  shows "\<exists>c'. as_i64_with_ctx d ctx = Some (Inl truncated_error, c')"
proof -
  define n where "n = \<lfloor>mag d\<rfloor>"
  have "n < 2 ^ 63" "0 \<le> n" using assms(2) mag_nonneg[of d] by (simp_all add: n_def floor_less_iff)
  then have "\<exists>x. as_i64 d = Some (Truncated x)"
    using as_i64_ok[OF assms(1)] assms(3) unfolding n_def[symmetric]
    by (auto simp: tagged_def i64_MIN_def i64_MAX_def)
  then show ?thesis
    by (auto simp: as_i64_with_ctx_def handle_truncate_def handle_truncate_err_def)
qed

theorem as_i64_with_ctx_truncation_fails_witness:
  fixes d :: decimal and ctx :: "unit eval_context"
  defines "d \<equiv> dec_words 1 1 False [1, 500000000]"
    and "ctx \<equiv> new_eval_context (from_flag () IGNORE_TRUNCATE)"
  shows "dec_ok d \<and> mag d < 2 ^ 63 \<and> mag d \<noteq> of_int \<lfloor>mag d\<rfloor> \<and> has_flag ctx IGNORE_TRUNCATE \<and>
    (\<exists>c'. as_i64_with_ctx d ctx = Some (Inl truncated_error, c'))"
proof -
  have ok: "dec_ok d" by (simp add: d_def dec_words_defs)
  have m: "mag d = 3 / 2"
    by (simp add: d_def mag_def used_def dec_words_def new_dec_def word_cnt_def WORD_BASE_def)
  have "has_flag ctx IGNORE_TRUNCATE"
    by (simp add: ctx_def has_flag_def new_eval_context_def from_flag_def set_flag_def contains_def)
  moreover have "\<lfloor>mag d\<rfloor> = 1" unfolding m by (intro floor_unique) simp_all
  then have "mag d < 2 ^ 63" "mag d \<noteq> of_int \<lfloor>mag d\<rfloor>" by (simp_all add: m)
  ultimately show ?thesis using as_i64_with_ctx_truncation_fails[OF ok, of ctx] ok by blast
qed

end
