(* ===== verification/Decimal_Round.thy ===== *)
theory Decimal_Round
  imports Decimal_Int
begin

text \<open>
  Rounding: \<open>round\<close>, \<open>handle_incr\<close>, \<open>handle_carry\<close>, \<open>ceil\<close>, \<open>floor\<close> and \<open>convert_to\<close> of
  \<open>src/berolinasql/src/decimal.rs\<close>. The \<open>i8\<close> values of these functions are integers: with
  \<open>-128 \<le> frac \<le> 30\<close> and word counts of at most nine, every intermediate value stays
  between -128 and 127.
\<close>

datatype round_mode = HalfEven | Truncate | Ceiling

section \<open>Loops\<close>

text \<open>\<open>for idx in a..b { buf[idx] = 0 }\<close>, with \<open>n = b - a\<close>.\<close>

fun zero_words :: "nat \<Rightarrow> nat \<Rightarrow> nat list \<Rightarrow> nat list option" where
  "zero_words 0 idx buf = Some buf"
| "zero_words (Suc n) idx buf = do {
     buf \<leftarrow> set_at buf idx 0;
     zero_words n (idx + 1) buf }"

text \<open>\<open>while carry == 1 && to_idx > 0\<close>\<close>

fun carry_up :: "nat \<Rightarrow> nat \<Rightarrow> nat list \<Rightarrow> (nat \<times> nat \<times> nat list) option" where
  "carry_up 0 carry buf = Some (0, carry, buf)"
| "carry_up (Suc i) carry buf =
     (if carry = 1
      then do {
        w \<leftarrow> get_at buf i;
        (s, carry) \<leftarrow> add_word w 0 carry;
        buf \<leftarrow> set_at buf i s;
        carry_up i carry buf }
      else Some (Suc i, carry, buf))"

text \<open>
  \<open>for i in (0..n).rev()\<close>: move every word one place down; a word that would leave the buffer
  is the overflow the flag reports.
\<close>

fun shift_words_down :: "nat \<Rightarrow> nat \<Rightarrow> nat list \<Rightarrow> bool \<Rightarrow> (nat list \<times> bool) option" where
  "shift_words_down 0 word_buf_len buf over = Some (buf, over)"
| "shift_words_down (Suc i) word_buf_len buf over =
     (if i + 1 < word_buf_len
      then do {
        w \<leftarrow> get_at buf i;
        buf \<leftarrow> set_at buf (i + 1) w;
        shift_words_down i word_buf_len buf over }
      else shift_words_down i word_buf_len buf True)"

text \<open>\<open>while buf[to_idx] == 0\<close>: \<open>Some None\<close> when index 0 is reached and zero.\<close>

fun back_to_nonzero :: "nat \<Rightarrow> nat list \<Rightarrow> nat option option" where
  "back_to_nonzero i buf = do {
     w \<leftarrow> get_at buf i;
     if w = 0 then (case i of 0 \<Rightarrow> Some None | Suc j \<Rightarrow> back_to_nonzero j buf)
     else Some (Some i) }"

declare back_to_nonzero.simps [simp del]

section \<open>\<open>handle_carry\<close>\<close>

text \<open>The tail of \<open>handle_carry\<close>.\<close>

definition finish_carry :: "decimal res \<Rightarrow> nat \<Rightarrow> int \<Rightarrow> decimal res option" where
  "finish_carry dec to_idx fc = do {
     let d = deref dec;
     let first_dig = int_cnt d mod DIGITS_PER_WORD;
     grow \<leftarrow> (if first_dig > 0
             then do {
               w \<leftarrow> get_at (word_buf d) to_idx;
               p \<leftarrow> get_at TEN_POW first_dig;
               Some (w \<ge> p) }
             else Some False);
     ic \<leftarrow> (if grow then uadd 8 (int_cnt d) 1 else Some (int_cnt d));
     Some (res_map (\<lambda>d. d\<lparr>int_cnt := ic, frac_cnt := nat (max 0 fc)\<rparr>) dec) }"

text \<open>The carry out of the leading word: all words move down and the leading one is 1.\<close>

definition handle_carry_out ::
    "decimal res \<Rightarrow> nat list \<Rightarrow> int \<Rightarrow> int \<Rightarrow> nat \<Rightarrow> nat \<Rightarrow> decimal res option" where
  "handle_carry_out dec buf fc frac_word_to int_word_cnt word_buf_len = do {
     let (fc, frac_word_to, dec) =
       (if int int_word_cnt + frac_word_to \<ge> int word_buf_len
        then ((frac_word_to - 1) * int DIGITS_PER_WORD, frac_word_to - 1, Truncated (deref dec))
        else (fc, frac_word_to, dec));
     (buf, over) \<leftarrow> shift_words_down (int_word_cnt + nat (max frac_word_to 0)) word_buf_len buf False;
     let dec = (if over then OverCausetxctx (deref dec) else dec);
     buf \<leftarrow> set_at buf 0 1;
     let dec = res_map (\<lambda>d. d\<lparr>word_buf := buf\<rparr>) dec;
     let dec = (if int_cnt (deref dec) < DIGITS_PER_WORD * word_buf_len
                then res_map (\<lambda>d. d\<lparr>int_cnt := int_cnt d + 1\<rparr>) dec
                else OverCausetxctx (deref dec));
     finish_carry dec 0 fc }"

definition handle_carry ::
    "decimal res \<Rightarrow> nat \<Rightarrow> int \<Rightarrow> int \<Rightarrow> nat \<Rightarrow> nat \<Rightarrow> decimal res option" where
  "handle_carry dec to_idx fc frac_word_to int_word_cnt word_buf_len = do {
     let buf = word_buf (deref dec);
     w \<leftarrow> get_at buf to_idx;
     if w \<ge> WORD_BASE
     then do {
       buf \<leftarrow> set_at buf to_idx (w - WORD_BASE);
       (to_idx, carry, buf) \<leftarrow> carry_up to_idx 1 buf;
       if carry > 0 then handle_carry_out dec buf fc frac_word_to int_word_cnt word_buf_len
       else finish_carry (res_map (\<lambda>d. d\<lparr>word_buf := buf\<rparr>) dec) to_idx fc }
     else do {
       nz \<leftarrow> back_to_nonzero to_idx buf;
       case nz of
         None \<Rightarrow> do {
           buf \<leftarrow> zero_words (nat (frac_word_to + 1)) 0 buf;
           Some (Ok ((deref dec)\<lparr>int_cnt := 1, negative := False, frac_cnt := nat (max 0 fc),
             word_buf := buf\<rparr>)) }
       | Some to_idx \<Rightarrow> finish_carry dec to_idx fc } }"

section \<open>\<open>handle_incr\<close>\<close>

text \<open>Whether the words after the scale ask for an increment, when the scale ends a word.\<close>

definition incr_needed :: "nat list \<Rightarrow> int \<Rightarrow> int \<Rightarrow> int \<Rightarrow> round_mode \<Rightarrow> bool option" where
  "incr_needed buf to_idx frac_word_cnt frac_words_to mode =
     (case mode of
        Ceiling \<Rightarrow> do {
          let idx = to_idx + frac_word_cnt - frac_words_to;
          if idx > to_idx
          then do {
            ws \<leftarrow> slice_at buf (nat (to_idx + 1)) (nat (idx + 1));
            Some (list_ex (\<lambda>c. c \<noteq> 0) ws) }
          else Some False }
      | HalfEven \<Rightarrow> do {
          w \<leftarrow> get_at buf (nat (to_idx + 1));
          Some (w div DIG_MASK \<ge> 5) }
      | Truncate \<Rightarrow> Some False)"

text \<open>Rounding inside the word at \<open>to_idx\<close>, \<open>pos + 1\<close> digits of which are dropped.\<close>

definition round_in_word :: "nat \<Rightarrow> nat \<Rightarrow> round_mode \<Rightarrow> nat option" where
  "round_in_word w pos mode = do {
     p \<leftarrow> get_at TEN_POW pos;
     let shifted_number = w div p;
     let dig_after_scale = shifted_number mod 10;
     let round_digit = (case mode of Ceiling \<Rightarrow> 0 | HalfEven \<Rightarrow> 5 | Truncate \<Rightarrow> 10);
     let shifted_number =
       (if dig_after_scale > round_digit \<or> (round_digit = 5 \<and> dig_after_scale = 5)
        then shifted_number + 10 else shifted_number);
     umul 32 p (shifted_number - dig_after_scale) }"

text \<open>
  The increment itself: \<open>None\<close> in the inner option is the early return of zero, otherwise the new
  buffer and index.
\<close>

definition do_incr ::
    "nat list \<Rightarrow> nat \<Rightarrow> int \<Rightarrow> int \<Rightarrow> nat \<Rightarrow> round_mode \<Rightarrow> (nat list \<times> int) option option" where
  "do_incr buf int_word_cnt frac_words_to fc frac_word_cnt mode = do {
     let to_idx = int int_word_cnt + frac_words_to - 1;
     if fc = frac_words_to * int DIGITS_PER_WORD
     then do {
       inc \<leftarrow> incr_needed buf to_idx (int frac_word_cnt) frac_words_to mode;
       if inc
       then (if to_idx \<ge> 0
             then do {
               w \<leftarrow> get_at buf (nat to_idx);
               w \<leftarrow> uadd 32 w 1;
               buf \<leftarrow> set_at buf (nat to_idx) w;
               Some (Some (buf, to_idx)) }
             else do {
               buf \<leftarrow> set_at buf (nat (to_idx + 1)) WORD_BASE;
               Some (Some (buf, to_idx + 1)) })
       else if int int_word_cnt + frac_words_to = 0 then Some None
       else Some (Some (buf, to_idx)) }
     else do {
       w \<leftarrow> get_at buf (nat to_idx);
       w \<leftarrow> round_in_word w (nat (frac_words_to * int DIGITS_PER_WORD - fc - 1)) mode;
       buf \<leftarrow> set_at buf (nat to_idx) w;
       Some (Some (buf, to_idx)) } }"

definition handle_incr ::
    "decimal res \<Rightarrow> nat \<Rightarrow> int \<Rightarrow> int \<Rightarrow> nat \<Rightarrow> nat \<Rightarrow> round_mode \<Rightarrow> decimal res option" where
  "handle_incr res int_word_cnt frac_words_to fc frac_word_cnt word_buf_len mode = do {
     r \<leftarrow> do_incr (word_buf (deref res)) int_word_cnt frac_words_to fc frac_word_cnt mode;
     case r of
       None \<Rightarrow> Some (Ok zero_dec)
     | Some (buf, to_idx) \<Rightarrow> do {
         buf \<leftarrow>
           (if frac_words_to < int frac_word_cnt
            then do {
              let idx = (if fc = 0 \<and> int_word_cnt = 0 then 1 else nat (int int_word_cnt + frac_words_to));
              zero_words (word_buf_len - idx) idx buf }
            else Some buf);
         handle_carry (res_map (\<lambda>d. d\<lparr>word_buf := buf\<rparr>) res) (nat to_idx) fc frac_words_to
           int_word_cnt word_buf_len } }"

section \<open>\<open>round\<close>\<close>

text \<open>\<open>frac_words_to\<close>: signed division truncates towards zero.\<close>

definition round_words :: "int \<Rightarrow> int" where
  "round_words fc = (if fc > 0 then int (word_cnt (nat fc)) else sdiv (fc + 1) (int DIGITS_PER_WORD))"

definition round_with_word_buf_len ::
    "decimal \<Rightarrow> int \<Rightarrow> nat \<Rightarrow> round_mode \<Rightarrow> decimal res option" where
  "round_with_word_buf_len d fc word_buf_len mode = do {
     let fc = (if fc > int MAX_FRACTION then int MAX_FRACTION else fc);
     let frac_words_to = round_words fc;
     let (int_word_cnt, frac_word_cnt) = (word_cnt (int_cnt d), word_cnt (frac_cnt d));
     let too_long = int int_word_cnt + frac_words_to > int word_buf_len;
     let (frac_words_to, fc) =
       (if too_long
        then (int word_buf_len - int int_word_cnt,
              (int word_buf_len - int int_word_cnt) * int DIGITS_PER_WORD)
        else (frac_words_to, fc));
     if \<not> too_long \<and> as_signed 8 (int (int_cnt d)) + fc < 0 then Some (Ok zero_dec)
     else do {
       let d = d\<lparr>int_cnt := min int_word_cnt word_buf_len * DIGITS_PER_WORD\<rparr>;
       let res = (if too_long then Truncated d else Ok d);
       if frac_words_to > int frac_word_cnt
       then do {
         buf \<leftarrow> zero_words (nat frac_words_to - frac_word_cnt) (int_word_cnt + frac_word_cnt) (word_buf d);
         Some (res_map (\<lambda>d. d\<lparr>word_buf := buf, frac_cnt := as_unsigned 8 fc\<rparr>) res) }
       else if fc \<ge> int (frac_cnt d)
       then Some (res_map (\<lambda>d. d\<lparr>frac_cnt := as_unsigned 8 fc\<rparr>) res)
       else handle_incr res int_word_cnt frac_words_to fc frac_word_cnt word_buf_len mode } }"

definition round_dec :: "decimal \<Rightarrow> int \<Rightarrow> round_mode \<Rightarrow> decimal res option" where
  "round_dec d fc mode = round_with_word_buf_len d fc WORD_BUF_LEN mode"

definition ceil_dec :: "decimal \<Rightarrow> decimal res option" where
  "ceil_dec d = (if \<not> negative d then round_dec d 0 Ceiling else round_dec d 0 Truncate)"

definition floor_dec :: "decimal \<Rightarrow> decimal res option" where
  "floor_dec d = (if \<not> negative d then round_dec d 0 Truncate else round_dec d 0 Ceiling)"

section \<open>\<open>convert_to\<close>\<close>

definition convert_to ::
    "decimal \<Rightarrow> 'tz eval_context \<Rightarrow> nat \<Rightarrow> nat \<Rightarrow> (decimal fresult \<times> 'tz eval_context) option" where
  "convert_to d ctx flen dec = do {
     (prec, fc) \<leftarrow> prec_and_frac d;
     if flen < dec then Some (Inl (m_bigger_than_d ''''), ctx)
     else do {
       z \<leftarrow> is_zero d;
       over \<leftarrow> (if \<not> z then do { a \<leftarrow> usub prec fc; Some (a > flen - dec) } else Some False);
       if over
       then do {
         m \<leftarrow> max_or_min_dec (negative d) flen dec;
         Some (Inr m, ctx) }
       else if fc = dec then Some (Inr d, ctx)
       else do {
         r \<leftarrow> round_dec d (as_signed 8 (int dec)) HalfEven;
         let ret = deref r;
         z \<leftarrow> is_zero ret;
         changed \<leftarrow> (if \<not> z \<and> fc > dec then map_option Not (eq_dec ret d) else Some False);
         if changed
         then (case handle_truncate True ctx of
                 (Inl e, ctx) \<Rightarrow> Some (Inl e, ctx)
               | (Inr _, ctx) \<Rightarrow> Some (Inr ret, ctx))
         else Some (Inr ret, ctx) } } }"

section \<open>The loops, verified\<close>

lemma zero_words_ok:
  "length pre = i \<Longrightarrow> length old = n \<Longrightarrow>
   zero_words n i (pre @ old @ post) = Some (pre @ zeros n @ post)"
proof (induction n arbitrary: pre i old)
  case (Suc n)
  obtain x xs where old: "old = x # xs" "length xs = n" using Suc.prems(2) by (cases old) auto
  have "set_at (pre @ old @ post) i 0 = Some ((pre @ [0]) @ xs @ post)"
    using Suc.prems(1) old by (simp add: set_at_mid)
  then show ?case using Suc.IH[of "pre @ [0]" "Suc i" xs] Suc.prems old by simp
qed simp

lemma zero_words_range:
  assumes "i + n \<le> length buf"
  shows "zero_words n i buf = Some (take i buf @ zeros n @ drop (i + n) buf)"
proof -
  have "buf = take i buf @ seg buf i n @ drop (i + n) buf"
    by (metis append_take_drop_id drop_drop add.commute)
  then show ?thesis
    using zero_words_ok[of "take i buf" i "seg buf i n" n "drop (i + n) buf"] assms by simp
qed

lemma carry_up_ok:
  "length p = t \<Longrightarrow> below WORD_BASE p \<Longrightarrow>
   \<exists>i c p'. carry_up t 1 (p @ q) = Some (i, c, p' @ q) \<and> length p' = t \<and> below WORD_BASE p' \<and>
     c \<le> 1 \<and> bval WORD_BASE p' + c * WORD_BASE ^ t = bval WORD_BASE p + 1"
proof (induction t arbitrary: p q)
  case (Suc t)
  obtain p0 x where p: "p = p0 @ [x]" "length p0 = t" using split_last Suc.prems(1) by blast
  have bl: "below WORD_BASE p0" "x < WORD_BASE" using Suc.prems(2) p by simp_all
  obtain s c where s: "add_word x 0 1 = Some (s, c)" "s < WORD_BASE" "c \<le> 1" "s + c * WORD_BASE = x + 1"
    using add_word_ok[OF bl(2), of 0 1] by auto
  have g: "get_at (p @ q) t = Some x" "set_at (p @ q) t s = Some (p0 @ s # q)"
    using get_at_mid[of t p0 x q] set_at_mid[of t p0 x q s] p by simp_all
  have st: "carry_up (Suc t) 1 (p @ q) = carry_up t c (p0 @ s # q)" using g s(1) by simp
  show ?case
  proof (cases "c = 1")
    case True
    obtain i c' p' where IH: "carry_up t 1 (p0 @ s # q) = Some (i, c', p' @ s # q)" "length p' = t"
        "below WORD_BASE p'" "c' \<le> 1" "bval WORD_BASE p' + c' * WORD_BASE ^ t = bval WORD_BASE p0 + 1"
      using Suc.IH[OF p(2) bl(1), of "s # q"] by blast
    have "bval WORD_BASE (p' @ [s]) + c' * WORD_BASE ^ Suc t =
        (bval WORD_BASE p' + c' * WORD_BASE ^ t) * WORD_BASE + s"
      by (simp add: bval_append algebra_simps)
    also have "\<dots> = bval WORD_BASE p0 * WORD_BASE + (s + c * WORD_BASE)"
      unfolding IH(5) using True by (simp add: algebra_simps)
    also have "\<dots> = bval WORD_BASE p + 1" unfolding s(4) p by (simp add: bval_append)
    finally show ?thesis
      using st True IH s(2)
      by (intro exI[of _ i] exI[of _ c'] exI[of _ "p' @ [s]"]) simp
  next
    case False
    then have c0: "c = 0" using s(3) by simp
    moreover have "carry_up t 0 b = Some (t, 0, b)" for b by (cases t) auto
    moreover have "bval WORD_BASE (p0 @ [s]) = bval WORD_BASE p + 1"
      using s(4) c0 p by (simp add: bval_append)
    ultimately show ?thesis
      using st p bl s(2)
      by (intro exI[of _ t] exI[of _ 0] exI[of _ "p0 @ [s]"]) simp
  qed
qed simp

lemma back_to_nonzero_ok:
  "t < length buf \<Longrightarrow> \<exists>r. back_to_nonzero t buf = Some r \<and> (r = None \<longleftrightarrow> (\<forall>j\<le>t. buf ! j = 0))"
proof (induction t)
  case 0
  then show ?case by (subst back_to_nonzero.simps) (simp add: get_at_def)
next
  case (Suc t)
  show ?case
  proof (cases "buf ! Suc t = 0")
    case True
    then have "back_to_nonzero (Suc t) buf = back_to_nonzero t buf"
      using Suc.prems by (subst back_to_nonzero.simps) (simp add: get_at_def)
    moreover have "(\<forall>j\<le>Suc t. buf ! j = 0) = (\<forall>j\<le>t. buf ! j = 0)" using True by (auto simp: le_Suc_eq)
    ultimately show ?thesis using Suc by auto
  next
    case False
    then have "back_to_nonzero (Suc t) buf = Some (Some (Suc t))"
      using Suc.prems by (subst back_to_nonzero.simps) (simp add: get_at_def)
    then show ?thesis using False by auto
  qed
qed

lemma shift_words_down_ok:
  "Suc n \<le> length buf \<Longrightarrow> Suc n \<le> m \<Longrightarrow>
   shift_words_down n m buf ov = Some (take 1 buf @ take n buf @ drop (Suc n) buf, ov)"
proof (induction n arbitrary: buf)
  case 0
  then show ?case by (cases buf) auto
next
  case (Suc n)
  have l: "n < length buf" "Suc n < length buf" using Suc.prems by auto
  let ?b = "buf[Suc n := buf ! n]"
  have "shift_words_down (Suc n) m buf ov = shift_words_down n m ?b ov"
    using l Suc.prems by (simp add: get_at_def set_at_def)
  also have "\<dots> = Some (take 1 ?b @ take n ?b @ drop (Suc n) ?b, ov)" using Suc by simp
  also have "take 1 ?b = take 1 buf" by simp
  also have "take n ?b = take n buf" by simp
  also have "drop (Suc n) ?b = buf ! n # drop (Suc (Suc n)) buf"
    using l by (simp add: Cons_nth_drop_Suc[symmetric])
  finally show ?case using l by (simp add: take_Suc_conv_app_nth)
qed

section \<open>\<open>handle_carry\<close>, verified\<close>

text \<open>The weight of the last kept word.\<close>

definition word_unit :: "int \<Rightarrow> rat" where
  "word_unit fw = of_nat WORD_BASE ^ nat (- fw) / of_nat WORD_BASE ^ nat fw"

lemma word_unit_pos: "0 < word_unit fw"
  by (simp add: word_unit_def)

lemma finish_carry_aligned:
  assumes "int_cnt (deref r) = n * 9"
  shows "finish_carry r i fc = Some (res_map (\<lambda>d. d\<lparr>frac_cnt := nat (max 0 fc)\<rparr>) r)"
  using assms by (cases r) (simp_all add: finish_carry_def)

text \<open>The shape of the buffer \<open>handle_carry\<close> works on: \<open>t + 1\<close> kept words and, when digits before
  the point are rounded away, zero words up to the point.\<close>

definition carry_buf :: "nat list \<Rightarrow> nat \<Rightarrow> nat list \<Rightarrow> nat \<Rightarrow> int \<Rightarrow> int \<Rightarrow> bool" where
  "carry_buf p w q iw fw fc \<longleftrightarrow> length p + Suc (length q) = 9 \<and> below WORD_BASE p \<and> below WORD_BASE q \<and>
     w \<le> WORD_BASE \<and> iw \<le> 9 \<and> int iw + fw = int (Suc (length p)) \<and> fw \<le> 8 \<and>
     word_cnt (nat fc) = nat fw \<and> take (nat (- fw)) q = zeros (nat (- fw))"

lemma carry_bufD:
  assumes "carry_buf p w q iw fw fc"
  shows "iw + nat fw = Suc (length p) + nat (- fw)" "nat (- fw) \<le> length q"
proof -
  have b: "int iw + fw = int (Suc (length p))" "iw \<le> 9" "length p + Suc (length q) = 9"
    using assms by (simp_all add: carry_buf_def)
  show e: "iw + nat fw = Suc (length p) + nat (- fw)" using b(1) by linarith
  show "nat (- fw) \<le> length q" using b by linarith
qed

lemma carry_buf_value:
  assumes cb: "carry_buf p w q iw fw fc" and p': "length p' = length p" "below WORD_BASE p'" "w' < WORD_BASE"
    and d: "int_cnt d = iw * 9" "frac_cnt d = nat (max 0 fc)" "word_buf d = p' @ w' # q"
  shows "dec_ok d" "mag d = of_nat (bval WORD_BASE (p' @ [w'])) * word_unit fw"
proof -
  note D = carry_bufD[OF cb]
  have b: "length p + Suc (length q) = 9" "below WORD_BASE q" "iw \<le> 9" "fw \<le> 8"
    "word_cnt (nat fc) = nat fw" "take (nat (- fw)) q = zeros (nat (- fw))"
    using cb by (simp_all add: carry_buf_def)
  have m: "nat (max 0 fc) = nat fc" by simp
  have words: "int_words d = iw" "frac_words d = nat fw" unfolding d m using b by simp_all
  have pos: "0 < iw * 9 + nat fc"
  proof (rule ccontr)
    assume "\<not> 0 < iw * 9 + nat fc"
    then have "iw = 0" "nat fc = 0" by simp_all
    then have "iw = 0" "nat fw = 0" using b(5) by simp_all
    then show False using D(1) by simp
  qed
  have le: "iw + nat fw \<le> 9" using D b(1) by linarith
  show "dec_ok d"
    unfolding dec_ok_def words d m using b p' pos le by simp
  have "take (iw + nat fw) (word_buf d) = (p' @ [w']) @ zeros (nat (- fw))"
    unfolding D(1) d(3) using p'(1) b(6) by simp
  then show "mag d = of_nat (bval WORD_BASE (p' @ [w'])) * word_unit fw"
    by (simp add: mag_def used_def words bval_append word_unit_def distrib_right mult.assoc)
qed

lemma bval_zeros_iff: "below WORD_BASE p \<Longrightarrow> bval WORD_BASE p = 0 \<Longrightarrow> p = zeros (length p)"
  by (metis WORD_BASE_pos(1) bval_zero_iff replicate_length_same)

text \<open>The carry out of all words: the value is a power of the base.\<close>

lemma handle_carry_out_ok:
  assumes cb: "carry_buf p w q iw fw fc" and d: "int_cnt d = iw * 9"
  defines "buf \<equiv> zeros (length p) @ 0 # q"
  obtains
    (fits) r where "handle_carry_out (Ok d) buf fc fw iw 9 = Some r" "iw < 9" "\<not> is_overCausetxctx r"
      "dec_ok (deref r)" "mag (deref r) = of_nat WORD_BASE ^ iw" "negative (deref r) = negative d"
  | (over) r where "handle_carry_out (Ok d) buf fc fw iw 9 = Some (OverCausetxctx r)" "iw = 9"
proof -
  note D = carry_bufD[OF cb]
  have b: "length p + Suc (length q) = 9" "below WORD_BASE q" "iw \<le> 9" "fw \<le> 8"
    "word_cnt (nat fc) = nat fw" "take (nat (- fw)) q = zeros (nat (- fw))"
    using cb by (simp_all add: carry_buf_def)
  have lb: "length buf = 9" "below WORD_BASE buf" using b by (simp_all add: buf_def)
  have tk: "take (iw + nat fw) buf = zeros (iw + nat fw)"
    unfolding D(1) buf_def using b(6) by (simp add: replicate_add replicate_app_Cons_same)
  let ?cut = "int iw + fw \<ge> 9"
  define fw' fc' where f': "fw' = (if ?cut then fw - 1 else fw)" "fc' = (if ?cut then (fw - 1) * 9 else fc)"
  define n where n: "n = iw + nat (max fw' 0)"
  have n_le: "n \<le> iw + nat fw" using f' n by auto
  have w': "word_cnt (nat fc') = nat fw'"
  proof (cases ?cut)
    case True
    have "nat ((fw - 1) * 9) = nat (fw - 1) * 9" by simp
    then show ?thesis using True f' b(4) by simp
  qed (use f' b in simp)
  show thesis
  proof (cases "iw = 9")
    case True
    have fw0: "fw \<le> 0" using D b(1) True by linarith
    have "shift_words_down 9 9 buf False = shift_words_down 8 9 buf True" by (simp add: eval_nat_numeral)
    also have "\<dots> = Some (take 1 buf @ take 8 buf @ drop 9 buf, True)"
      using shift_words_down_ok[of 8 buf 9 True] lb by simp
    finally obtain buf' where sh: "shift_words_down 9 9 buf False = Some (buf', True)" "length buf' = 9"
      using lb by simp
    have g: "set_at buf' 0 1 = Some (buf'[0 := 1])" using sh(2) by (simp add: set_at_def)
    have "\<exists>r. handle_carry_out (Ok d) buf fc fw iw 9 = Some (OverCausetxctx r)"
      using True d fw0 unfolding handle_carry_out_def finish_carry_def
      by (cases "fw = 0") (simp_all add: sh(1) g[simplified])
    then show thesis using over True by blast
  next
    case False
    then have iw: "iw < 9" using b(3) by simp
    have n8: "n \<le> 8" using D(1) b(1,3,4) iw f' n by (auto split: if_splits)
    have sh: "shift_words_down n 9 buf False = Some (take 1 buf @ take n buf @ drop (Suc n) buf, False)"
      using shift_words_down_ok[of n buf 9 False] lb n8 by simp
    have "take n buf = zeros n"
      using tk n_le by (metis min.absorb1 take_replicate take_take)
    moreover obtain x xs where x: "buf = x # xs" using lb by (cases buf) auto
    ultimately have st: "set_at (take 1 buf @ take n buf @ drop (Suc n) buf) 0 1 =
        Some (1 # zeros n @ drop (Suc n) buf)"
      by (simp add: set_at_def)
    let ?d = "d\<lparr>word_buf := 1 # zeros n @ drop (Suc n) buf, int_cnt := iw * 9 + 1, frac_cnt := nat (max 0 fc')\<rparr>"
    have r: "\<exists>r. handle_carry_out (Ok d) buf fc fw iw 9 = Some r \<and> \<not> is_overCausetxctx r \<and> deref r = ?d"
    proof -
      define buf1 where "buf1 = take 1 buf @ take n buf @ drop (Suc n) buf"
      define buf2 where "buf2 = 1 # zeros n @ drop (Suc n) buf"
      have g: "get_at buf2 0 = Some 1" by (simp add: buf2_def get_at_def)
      have fin: "finish_carry (res_map f (res_map (\<lambda>d. d\<lparr>word_buf := buf2\<rparr>) r)) 0 fc' =
          Some (res_map (\<lambda>d. d\<lparr>word_buf := buf2, int_cnt := iw * 9 + 1, frac_cnt := nat (max 0 fc')\<rparr>) r)"
        if "int_cnt (deref r) = iw * 9" "f = (\<lambda>d. d\<lparr>int_cnt := int_cnt d + 1\<rparr>)" for r f
        using that g by (cases r) (simp_all add: finish_carry_def mod_Suc get_at_def)
      have sh': "shift_words_down n 9 buf False = Some (buf1, False)" "set_at buf1 0 1 = Some buf2"
        using sh st by (simp_all add: buf1_def buf2_def)
      show ?thesis
      proof (cases ?cut)
        case True
        have ne: "n = iw + nat (max (fw - 1) 0)" "fc' = (fw - 1) * 9" using True n f' by simp_all
        show ?thesis
          using True sh'(1)[unfolded ne(1)] sh'(2) iw d fin[of "Truncated d"] ne(2)
          unfolding handle_carry_out_def buf2_def[symmetric] by simp
      next
        case False
        have ne: "n = iw + nat (max fw 0)" "fc' = fc" using False n f' by simp_all
        show ?thesis
          using False sh'(1)[unfolded ne(1)] sh'(2) iw d fin[of "Ok d"] ne(2)
          unfolding handle_carry_out_def buf2_def[symmetric] by simp
      qed
    qed
    have wc: "word_cnt (iw * 9 + 1) = iw + 1" using iw by (simp add: word_cnt_def)
    have mx: "nat (max 0 fc') = nat fc'" "nat (max fw' 0) = nat fw'" by simp_all
    have words: "int_words ?d = iw + 1" "frac_words ?d = nat fw'" using wc w' mx by simp_all
    have nn: "iw + 1 + nat fw' = Suc n" using n mx by simp
    have "dec_ok ?d"
      unfolding dec_ok_def words using n8 nn lb WORD_BASE_u32(3) by auto
    moreover have "mag ?d = of_nat WORD_BASE ^ iw"
      unfolding mag_def used_def words nn using n mx by (simp add: power_add)
    ultimately show thesis using r fits iw by force
  qed
qed

lemma handle_carry_ok:
  assumes cb: "carry_buf p w q iw fw fc" and d: "int_cnt d = iw * 9" "word_buf d = p @ w # q"
  defines "M \<equiv> bval WORD_BASE (p @ [w])"
  obtains
    (zero) d' where "handle_carry (Ok d) (length p) fc fw iw 9 = Some (Ok d')" "M = 0" "dec_ok d'"
      "mag d' = 0" "\<not> negative d'"
  | (fits) r where "handle_carry (Ok d) (length p) fc fw iw 9 = Some r" "M \<noteq> 0" "\<not> is_overCausetxctx r"
      "dec_ok (deref r)" "mag (deref r) = of_nat M * word_unit fw" "negative (deref r) = negative d"
  | (over) r where "handle_carry (Ok d) (length p) fc fw iw 9 = Some (OverCausetxctx r)"
      "of_nat M * word_unit fw = of_nat WORD_BASE ^ 9"
proof -
  note D = carry_bufD[OF cb]
  have b: "length p + Suc (length q) = 9" "below WORD_BASE p" "below WORD_BASE q" "w \<le> WORD_BASE" "iw \<le> 9" "fw \<le> 8"
    "word_cnt (nat fc) = nat fw" "take (nat (- fw)) q = zeros (nat (- fw))"
    using cb by (simp_all add: carry_buf_def)
  have g: "get_at (word_buf d) (length p) = Some w" unfolding d by (rule get_at_mid[OF refl])
  have mx: "nat (max 0 fc) = nat fc" by simp
  have M: "M = bval WORD_BASE p * WORD_BASE + w" by (simp add: M_def bval_append)
  show thesis
  proof (cases "w = WORD_BASE")
    case True
    have s: "set_at (word_buf d) (length p) (w - WORD_BASE) = Some (p @ 0 # q)"
      unfolding d using True by (simp add: set_at_mid)
    obtain i c p' where c: "carry_up (length p) 1 (p @ 0 # q) = Some (i, c, p' @ 0 # q)" "length p' = length p"
      "below WORD_BASE p'" "c \<le> 1" "bval WORD_BASE p' + c * WORD_BASE ^ length p = bval WORD_BASE p + 1"
      using carry_up_ok[OF refl b(2)] by blast
    show thesis
    proof (cases "c = 0")
      case c0: True
      have v: "bval WORD_BASE (p' @ [0]) = M" using c(5) c0 True by (simp add: M bval_append)
      let ?d = "d\<lparr>word_buf := p' @ 0 # q, frac_cnt := nat (max 0 fc)\<rparr>"
      have "handle_carry (Ok d) (length p) fc fw iw 9 = Some (Ok ?d)"
        using g s c(1) c0 True d finish_carry_aligned[of "Ok (d\<lparr>word_buf := p' @ 0 # q\<rparr>)" iw i fc]
        by (simp add: handle_carry_def)
      moreover note carry_buf_value[OF cb c(2,3), of 0 ?d, unfolded v]
      ultimately show thesis using fits d True by (simp add: M)
    next
      case False
      then have c1: "c = 1" using c(4) by simp
      have "bval WORD_BASE p' = 0" using c(5) c1 bval_less[OF b(2)] by simp
      then have p0: "p' = zeros (length p)" using bval_zeros_iff[OF c(3)] c(2) by simp
      have hc: "handle_carry (Ok d) (length p) fc fw iw 9 =
          handle_carry_out (Ok d) (zeros (length p) @ 0 # q) fc fw iw 9"
        using g s c(1) c1 True p0 by (simp add: handle_carry_def)
      have "M = WORD_BASE ^ Suc (length p)" using c(5) c1 \<open>bval WORD_BASE p' = 0\<close> True
        by (simp add: M)
      then have v: "of_nat M * word_unit fw = of_nat WORD_BASE ^ iw"
      proof -
        assume "M = WORD_BASE ^ Suc (length p)"
        then have "of_nat M * word_unit fw = of_nat WORD_BASE ^ (Suc (length p) + nat (- fw)) / of_nat WORD_BASE ^ nat fw"
          by (simp add: word_unit_def power_add)
        then show ?thesis unfolding D(1)[symmetric] by (simp add: power_add)
      qed
      have "M \<noteq> 0" using True by (simp add: M)
      show thesis
      proof (cases rule: handle_carry_out_ok[OF cb d(1), case_names fits over])
        case (fits r)
        then show thesis using that(2) hc v \<open>M \<noteq> 0\<close> by simp
      next
        case (over r)
        then show thesis using that(3) hc v by simp
      qed
    qed
  next
    case False
    then have wB: "w < WORD_BASE" using b(4) by simp
    have len: "length p < length (word_buf d)" using d by simp
    obtain r where r: "back_to_nonzero (length p) (word_buf d) = Some r"
        "r = None \<longleftrightarrow> (\<forall>j\<le>length p. word_buf d ! j = 0)"
      using back_to_nonzero_ok[OF len] by blast
    have iff: "r = None \<longleftrightarrow> M = 0"
    proof -
      have "(\<forall>j\<le>length p. word_buf d ! j = 0) \<longleftrightarrow> (\<forall>x\<in>set (p @ [w]). x = 0)"
        unfolding d all_set_conv_all_nth by (auto simp: nth_append less_Suc_eq_le)
      then show ?thesis using r(2) by (simp add: M_def bval_zero_iff)
    qed
    show thesis
    proof (cases r)
      case None
      have l9: "length (word_buf d) = 9" using d b(1) by simp
      have "nat (fw + 1) \<le> 9" using b(6) by linarith
      then have z: "zero_words (nat (fw + 1)) 0 (word_buf d) =
          Some (zeros (nat (fw + 1)) @ drop (nat (fw + 1)) (word_buf d))"
        using zero_words_range[of 0 "nat (fw + 1)" "word_buf d"] l9 by simp
      define buf where "buf = zeros (nat (fw + 1)) @ drop (nat (fw + 1)) (word_buf d)"
      let ?d = "d\<lparr>int_cnt := 1, negative := False, frac_cnt := nat (max 0 fc), word_buf := buf\<rparr>"
      have run: "handle_carry (Ok d) (length p) fc fw iw 9 = Some (Ok ?d)"
        using g r(1) None z False wB by (simp add: handle_carry_def buf_def)
      have words: "int_words ?d = 1" "frac_words ?d = nat fw" using b(7) mx by (simp_all add: word_cnt_def)
      have bl: "length buf = 9" "below WORD_BASE buf"
        using l9 \<open>nat (fw + 1) \<le> 9\<close> d b wB below_drop[of WORD_BASE "word_buf d" "nat (fw + 1)"]
        by (simp_all add: buf_def)
      have ok: "dec_ok ?d" unfolding dec_ok_def words using bl b(6) by simp
      have h0: "take 1 buf = [0]"
      proof (cases "fw < 0")
        case True
        then have "buf = word_buf d" by (simp add: buf_def)
        moreover have "word_buf d ! 0 = 0" using r(2) None by simp
        moreover have "take 1 buf = [buf ! 0]" using bl(1) by (cases buf) auto
        ultimately show ?thesis by simp
      next
        case False
        then show ?thesis by (simp add: buf_def nat_add_distrib)
      qed
      have "take (1 + nat fw) buf = zeros (1 + nat fw)"
      proof (cases "fw < 0")
        case False
        then have "nat (fw + 1) = 1 + nat fw" by simp
        then show ?thesis by (simp add: buf_def)
      qed (use h0 in simp)
      then have "mag ?d = 0" unfolding mag_def used_def words by simp
      then show thesis using zero run ok iff None by simp
    next
      case (Some i)
      let ?d = "d\<lparr>frac_cnt := nat (max 0 fc)\<rparr>"
      have "handle_carry (Ok d) (length p) fc fw iw 9 = Some (Ok ?d)"
        using g r(1) Some False wB d finish_carry_aligned[of "Ok d" iw i fc] by (simp add: handle_carry_def)
      moreover note carry_buf_value[OF cb refl b(2) wB, of ?d, folded M_def]
      ultimately show thesis using fits d iff Some by simp
    qed
  qed
qed

section \<open>The increment, verified\<close>

text \<open>The weight of the last kept digit, and whether a dropped part \<open>x\<close> of it rounds up.\<close>

definition ten_unit :: "int \<Rightarrow> rat" where
  "ten_unit fc = 10 ^ nat (- fc) / 10 ^ nat fc"

definition round_inc :: "round_mode \<Rightarrow> rat \<Rightarrow> bool" where
  "round_inc mode x = (case mode of HalfEven \<Rightarrow> 1 / 2 \<le> x | Truncate \<Rightarrow> False | Ceiling \<Rightarrow> 0 < x)"

definition round_to :: "round_mode \<Rightarrow> rat \<Rightarrow> int" where
  "round_to mode x = \<lfloor>x\<rfloor> + of_bool (round_inc mode (x - of_int \<lfloor>x\<rfloor>))"

lemma round_words_props:
  assumes "- 128 \<le> fc" "fc \<le> 30"
  defines "e \<equiv> 9 * round_words fc - fc"
  shows "0 \<le> e" "e \<le> 9" "fc < 0 \<Longrightarrow> 1 \<le> e" "fc = 0 \<Longrightarrow> round_words fc = 0"
    "fc > 0 \<Longrightarrow> 1 \<le> round_words fc" "fc \<le> 0 \<Longrightarrow> round_words fc \<le> 0"
    "word_cnt (nat fc) = nat (round_words fc)" "round_words fc \<le> 4"
proof -
  have pos: "round_words fc = int ((nat fc + 8) div 9)" if "fc > 0"
    using that assms(2) by (simp add: round_words_def word_cnt_def add.commute)
  have neg: "round_words fc = - ((- fc - 1) div 9)" if "fc < 0"
    using that by (simp add: round_words_def sdiv_def sgn_if)
  have z: "round_words fc = 0" if "fc = 0" using that by (simp add: round_words_def sdiv_def)
  have d: "n div 9 * 9 \<le> n" "n < n div 9 * 9 + 9" for n :: nat by presburger+
  have di: "n div 9 * 9 \<le> n" "n < n div 9 * 9 + 9" for n :: int by presburger+
  note dn = d[of "nat fc + 8"] and dg = di[of "- fc - 1"]
  consider "fc < 0" | "fc = 0" | "fc > 0" by linarith
  then have "0 \<le> e \<and> e \<le> 9 \<and> (fc < 0 \<longrightarrow> 1 \<le> e) \<and> (fc = 0 \<longrightarrow> round_words fc = 0) \<and>
      (fc > 0 \<longrightarrow> 1 \<le> round_words fc) \<and> (fc \<le> 0 \<longrightarrow> round_words fc \<le> 0) \<and>
      word_cnt (nat fc) = nat (round_words fc) \<and> round_words fc \<le> 4"
  proof cases
    case 1
    then show ?thesis using dg neg[OF 1] by (simp add: e_def)
  next
    case 2
    then show ?thesis using z by (simp add: e_def)
  next
    case 3
    then show ?thesis using dn pos[OF 3] assms(2) by (simp add: e_def word_cnt_def) linarith
  qed
  then show "0 \<le> e" "e \<le> 9" "fc < 0 \<Longrightarrow> 1 \<le> e" "fc = 0 \<Longrightarrow> round_words fc = 0"
    "fc > 0 \<Longrightarrow> 1 \<le> round_words fc" "fc \<le> 0 \<Longrightarrow> round_words fc \<le> 0"
    "word_cnt (nat fc) = nat (round_words fc)" "round_words fc \<le> 4" by auto
qed

lemma ten_unit_word:
  assumes "int e = 9 * fw - fc"
  shows "ten_unit fc = 10 ^ e * word_unit fw"
proof -
  have B: "(of_nat WORD_BASE :: rat) ^ n = 10 ^ (9 * n)" for n by (simp add: WORD_BASE_def power_mult)
  have "nat (- fc) + 9 * nat fw = e + 9 * nat (- fw) + nat fc" using assms by linarith
  then have "(10 :: rat) ^ nat (- fc) * 10 ^ (9 * nat fw) = 10 ^ e * 10 ^ (9 * nat (- fw)) * 10 ^ nat fc"
    by (simp only: flip: power_add)
  then show ?thesis
    unfolding ten_unit_def word_unit_def B by (simp add: frac_eq_eq)
qed

lemma kept_split:
  assumes "dec_ok d" "int (int_words d) + fw = int k" "fw \<le> int (frac_words d)"
  defines "m \<equiv> int_words d + frac_words d - k"
  shows "mag d = (of_nat (bval WORD_BASE (take k (word_buf d))) + fval WORD_BASE (seg (word_buf d) k m)) * word_unit fw"
    "k + m \<le> 9" "int m = int (frac_words d) - fw"
proof -
  let ?B = "of_nat WORD_BASE :: rat" and ?s = "seg (word_buf d) k m"
  note ok = dec_okD[OF assms(1)]
  have k: "k \<le> int_words d + frac_words d" using assms(2,3) by linarith
  then have km: "k + m = int_words d + frac_words d" by (simp add: m_def)
  show "k + m \<le> 9" using km ok by simp
  show im: "int m = int (frac_words d) - fw" using km assms(2) by linarith
  have u: "used d = take k (word_buf d) @ ?s" unfolding used_def km[symmetric] by (rule take_add)
  have l: "length ?s = m" using km ok by simp
  have "m + nat fw = frac_words d + nat (- fw)" using im by linarith
  then have "?B ^ m * ?B ^ nat fw = ?B ^ frac_words d * ?B ^ nat (- fw)" by (simp only: flip: power_add)
  then have w: "?B ^ m / ?B ^ frac_words d = word_unit fw"
    by (simp add: word_unit_def field_simps)
  have "mag d = (of_nat (bval WORD_BASE (take k (word_buf d))) + fval WORD_BASE ?s) * (?B ^ m / ?B ^ frac_words d)"
    unfolding mag_def u bval_append of_nat_add bval_fval[OF WORD_BASE_pos(1), of ?s] l
    by (simp add: add_divide_distrib distrib_right)
  then show "mag d = (of_nat (bval WORD_BASE (take k (word_buf d))) + fval WORD_BASE ?s) * word_unit fw"
    unfolding w .
qed

lemma round_in_word_ok:
  fixes mode :: round_mode
  assumes "w < WORD_BASE" "1 \<le> e" "e \<le> 9"
  defines "dig \<equiv> w div 10 ^ (e - 1) mod 10"
  defines "inc \<equiv> (case mode of HalfEven \<Rightarrow> 5 \<le> dig | Truncate \<Rightarrow> False | Ceiling \<Rightarrow> 0 < dig)"
  shows "round_in_word w (e - 1) mode = Some ((w div 10 ^ e + of_bool inc) * 10 ^ e)"
    "(w div 10 ^ e + of_bool inc) * 10 ^ e \<le> WORD_BASE"
proof -
  let ?p = "10 ^ (e - 1) :: nat"
  have p10: "10 ^ e = ?p * 10" using assms(2) by (cases e) auto
  have q: "w div 10 ^ e = w div ?p div 10" unfolding p10 by (simp add: div_mult2_eq)
  have sd: "w div ?p - dig = 10 * (w div 10 ^ e)"
    unfolding q dig_def by (simp add: minus_mod_eq_mult_div)
  have g: "get_at TEN_POW (e - 1) = Some ?p" using assms(3) by (simp add: get_at_def)
  have lt: "w div 10 ^ e < 10 ^ (9 - e)"
    using assms(1,3) by (simp add: WORD_BASE_pow div_less_iff_less_mult flip: power_add)
  have "(w div 10 ^ e + of_bool inc) * 10 ^ e \<le> 10 ^ (9 - e) * 10 ^ e"
    using lt by (intro mult_le_mono1) (cases inc; simp)
  also have "\<dots> = WORD_BASE" using assms(3) by (simp add: WORD_BASE_pow flip: power_add)
  finally show le: "(w div 10 ^ e + of_bool inc) * 10 ^ e \<le> WORD_BASE" .
  have i: "(dig > (case mode of Ceiling \<Rightarrow> 0 | HalfEven \<Rightarrow> 5 | Truncate \<Rightarrow> 10) \<or>
      (case mode of Ceiling \<Rightarrow> 0 | HalfEven \<Rightarrow> 5 | Truncate \<Rightarrow> (10 :: nat)) = 5 \<and> dig = 5) = inc"
    using mod_less_divisor[of 10 "w div ?p"] by (cases mode) (auto simp: inc_def dig_def)
  have dl: "dig \<le> w div ?p" by (simp add: dig_def)
  have "(if inc then w div ?p + 10 else w div ?p) - dig = 10 * (w div 10 ^ e + of_bool inc)"
    using sd dl by (cases inc) simp_all
  moreover have "?p * (10 * (w div 10 ^ e + of_bool inc)) = (w div 10 ^ e + of_bool inc) * 10 ^ e"
    by (simp add: p10)
  moreover have "round_in_word w (e - 1) mode = umul 32 ?p ((if inc then w div ?p + 10 else w div ?p) - dig)"
    unfolding round_in_word_def g bind.bind_lunit Let_def i[unfolded dig_def] dig_def ..
  ultimately show "round_in_word w (e - 1) mode = Some ((w div 10 ^ e + of_bool inc) * 10 ^ e)"
    using le WORD_BASE_u32 by (simp add: umul_def)
qed

lemma floor_digits:
  assumes "0 \<le> \<phi>" "\<phi> < (1 :: rat)"
  shows "\<lfloor>(of_nat A + \<phi>) / 10 ^ e\<rfloor> = int (A div 10 ^ e)"
    "(of_nat A + \<phi>) / 10 ^ e - of_int (int (A div 10 ^ e)) = (of_nat (A mod 10 ^ e) + \<phi>) / 10 ^ e"
proof -
  have "(of_nat A :: rat) = of_nat (A div 10 ^ e * 10 ^ e + A mod 10 ^ e)" by (simp only: div_mult_mod_eq)
  then have A: "(of_nat A :: rat) = of_nat (A div 10 ^ e) * 10 ^ e + of_nat (A mod 10 ^ e)"
    by (simp only: of_nat_add of_nat_mult of_nat_numeral of_nat_power)
  then show e: "(of_nat A + \<phi>) / 10 ^ e - of_int (int (A div 10 ^ e)) = (of_nat (A mod 10 ^ e) + \<phi>) / 10 ^ e"
    by (simp add: add_divide_distrib)
  have "A mod 10 ^ e + 1 \<le> 10 ^ e" by (simp add: Suc_leI)
  then have "(of_nat (A mod 10 ^ e + 1) :: rat) \<le> of_nat (10 ^ e)" by (simp only: of_nat_le_iff)
  then have "of_nat (A mod 10 ^ e) + \<phi> < 10 ^ e" using assms(2) by simp
  then have "0 \<le> (of_nat (A mod 10 ^ e) + \<phi>) / 10 ^ e" "(of_nat (A mod 10 ^ e) + \<phi>) / 10 ^ e < 1"
    using assms(1) by simp_all
  then show "\<lfloor>(of_nat A + \<phi>) / 10 ^ e\<rfloor> = int (A div 10 ^ e)"
    by (intro floor_unique) (use e in linarith)+
qed

lemma half_le: "0 < c \<Longrightarrow> 1 / 2 \<le> x / c \<longleftrightarrow> c \<le> x * (2 :: rat)"
  by (simp add: field_simps)

lemma five_le: "p * 10 \<le> x * 2 \<longleftrightarrow> 5 * p \<le> (x :: rat)"
  by (auto simp: algebra_simps)

lemma half_digit:
  assumes "0 \<le> \<phi>" "\<phi> < (1 :: rat)" "1 \<le> e"
  shows "1 / 2 \<le> (of_nat (A mod 10 ^ e) + \<phi>) / 10 ^ e \<longleftrightarrow> 5 \<le> A div 10 ^ (e - 1) mod 10"
proof -
  let ?p = "10 ^ (e - 1) :: nat" and ?r = "A mod 10 ^ e"
  have p10: "10 ^ e = ?p * 10" using assms(3) by (cases e) auto
  have q: "A div ?p mod 10 = ?r div ?p" unfolding p10 by (simp add: mod_mult2_eq)
  have "1 / 2 \<le> (of_nat ?r + \<phi>) / 10 ^ e \<longleftrightarrow> of_nat (5 * ?p) \<le> (of_nat ?r + \<phi>)"
  proof -
    have "(10 :: rat) ^ e = of_nat ?p * 10" using arg_cong[OF p10, of "of_nat :: nat \<Rightarrow> rat"] by simp
    then have "1 / 2 \<le> (of_nat ?r + \<phi>) / 10 ^ e \<longleftrightarrow> of_nat ?p * 10 \<le> (of_nat ?r + \<phi>) * 2"
      using half_le[of "10 ^ e" "of_nat ?r + \<phi>"] by simp
    also have "\<dots> \<longleftrightarrow> 5 * of_nat ?p \<le> (of_nat ?r + \<phi>)" by (rule five_le)
    finally show ?thesis by simp
  qed
  also have "\<dots> \<longleftrightarrow> 5 * ?p \<le> ?r"
  proof
    assume "of_nat (5 * ?p) \<le> of_nat ?r + \<phi>"
    then have "(of_nat (5 * ?p) :: rat) < of_nat (?r + 1)" using assms(2) by simp
    then show "5 * ?p \<le> ?r" by (simp only: of_nat_less_iff)
  next
    assume "5 * ?p \<le> ?r"
    then have "(of_nat (5 * ?p) :: rat) \<le> of_nat ?r" by (simp only: of_nat_le_iff)
    then show "of_nat (5 * ?p) \<le> of_nat ?r + \<phi>" using assms(1) by simp
  qed
  also have "\<dots> \<longleftrightarrow> 5 \<le> ?r div ?p" by (simp add: less_eq_div_iff_mult_less_eq)
  finally show ?thesis unfolding q .
qed

text \<open>The digit after the scale, read from the last kept word.\<close>

lemma last_word_digits:
  assumes "e \<le> 9"
  shows "(A0 * WORD_BASE + w) div 10 ^ e = A0 * 10 ^ (9 - e) + w div 10 ^ e"
    "1 \<le> e \<Longrightarrow> (A0 * WORD_BASE + w) div 10 ^ (e - 1) mod 10 = w div 10 ^ (e - 1) mod 10"
proof -
  have B: "WORD_BASE = 10 ^ (9 - n) * 10 ^ n" if "n \<le> 9" for n
    using that by (simp add: WORD_BASE_pow flip: power_add)
  have dv: "(A0 * WORD_BASE + w) div 10 ^ n = A0 * 10 ^ (9 - n) + w div 10 ^ n" if "n \<le> 9" for n
  proof -
    have "A0 * WORD_BASE + w = w + (A0 * 10 ^ (9 - n)) * 10 ^ n" by (subst B[OF that]) simp
    then show ?thesis using div_mult_self1[of "10 ^ n" w "A0 * 10 ^ (9 - n)"] by (simp only: power_eq_0_iff) simp
  qed
  show "(A0 * WORD_BASE + w) div 10 ^ e = A0 * 10 ^ (9 - e) + w div 10 ^ e" by (rule dv[OF assms])
  assume e: "1 \<le> e"
  have "9 - (e - 1) = Suc (9 - e)" using e assms by simp
  then have eq: "A0 * 10 ^ (9 - (e - 1)) + w div 10 ^ (e - 1) = w div 10 ^ (e - 1) + (A0 * 10 ^ (9 - e)) * 10" by simp
  have le: "e - 1 \<le> 9" using assms by simp
  show "(A0 * WORD_BASE + w) div 10 ^ (e - 1) mod 10 = w div 10 ^ (e - 1) mod 10"
    unfolding dv[OF le] eq by (rule mod_mult_self1)
qed

lemma half_word:
  assumes "below WORD_BASE (w # ws)"
  shows "1 / 2 \<le> fval WORD_BASE (w # ws) \<longleftrightarrow> 5 \<le> w div DIG_MASK"
proof -
  have l: "0 \<le> fval WORD_BASE ws" "fval WORD_BASE ws < 1" using fval_nonneg fval_less_1 assms by auto
  have B: "(of_nat WORD_BASE :: rat) = 1000000000" by (simp add: WORD_BASE_def)
  have "1 / 2 \<le> fval WORD_BASE (w # ws) \<longleftrightarrow> 500000000 \<le> of_nat w + fval WORD_BASE ws"
    by (simp add: B)
  also have "\<dots> \<longleftrightarrow> 500000000 \<le> w"
  proof
    assume "500000000 \<le> of_nat w + fval WORD_BASE ws"
    then have "(of_nat 500000000 :: rat) < of_nat (w + 1)" using l by simp
    then show "500000000 \<le> w" by (simp only: of_nat_less_iff)
  next
    assume "500000000 \<le> w"
    then have "(of_nat 500000000 :: rat) \<le> of_nat w" by (simp only: of_nat_le_iff)
    then show "500000000 \<le> of_nat w + fval WORD_BASE ws" using l by simp
  qed
  also have "\<dots> \<longleftrightarrow> 5 \<le> w div DIG_MASK" by (simp add: DIG_MASK_def less_eq_div_iff_mult_less_eq)
  finally show ?thesis .
qed

lemma fval_pos_iff: "0 < b \<Longrightarrow> 0 < fval b ws \<longleftrightarrow> list_ex (\<lambda>c. c \<noteq> 0) ws"
proof -
  assume "0 < b"
  then have "0 < fval b ws \<longleftrightarrow> \<not> (\<forall>w\<in>set ws. w = 0)"
    using fval_zero_iff[of b ws] fval_nonneg[of b ws] by linarith
  then show ?thesis by (simp add: list_ex_iff)
qed

lemma incr_needed_ok:
  assumes "below WORD_BASE buf" "k + m \<le> length buf" "0 < m" "int m = int fwc - fw"
  shows "incr_needed buf (int k - 1) (int fwc) fw mode = Some (round_inc mode (fval WORD_BASE (seg buf k m)))"
proof -
  have s: "seg buf k m = buf ! k # seg buf (Suc k) (m - 1)"
    using seg_Cons[of k "k + m" buf] assms by simp
  have bl: "below WORD_BASE (seg buf k m)" using assms(1) by blast
  show ?thesis
  proof (cases mode)
    case HalfEven
    have "get_at buf k = Some (buf ! k)" using assms by (simp add: get_at_def)
    moreover have "5 \<le> buf ! k div DIG_MASK \<longleftrightarrow> 1 / 2 \<le> fval WORD_BASE (seg buf k m)"
      using half_word[OF bl[unfolded s]] s by metis
    ultimately show ?thesis using HalfEven by (simp add: incr_needed_def round_inc_def)
  next
    case Ceiling
    have n: "nat (int k - 1 + 1) = k" "nat (int k - 1 + int fwc - fw + 1) = k + m"
      "int k - 1 < int k - 1 + int fwc - fw" using assms(3,4) by linarith+
    have "slice_at buf k (k + m) = Some (seg buf k m)" using assms(2) by (simp add: slice_at_def)
    moreover have "list_ex (\<lambda>c. c \<noteq> 0) (seg buf k m) \<longleftrightarrow> 0 < fval WORD_BASE (seg buf k m)"
      by (rule fval_pos_iff[symmetric]) simp
    ultimately show ?thesis
      unfolding incr_needed_def round_inc_def Ceiling round_mode.case Let_def n(1,2) if_P[OF n(3)] by simp
  qed (simp add: incr_needed_def round_inc_def)
qed

section \<open>\<open>handle_incr\<close>, verified\<close>

text \<open>The result of the increment on \<open>k > 0\<close> kept words.\<close>

lemma do_incr_ok:
  assumes d: "dec_ok d" and k: "int (int_words d) + fw = int (Suc t)" "fw \<le> int (frac_words d)"
    and e: "int e = 9 * fw - fc" "e \<le> 9" "fc < int (frac_cnt d)" and mode: "mode = Ceiling \<longrightarrow> e = 0"
  shows "\<exists>p w q w'. word_buf d = p @ w # q \<and> length p = t \<and> w' \<le> WORD_BASE \<and>
    do_incr (word_buf d) (int_words d) fw fc (frac_words d) mode = Some (Some (p @ w' # q, int t)) \<and>
    of_nat (bval WORD_BASE (p @ [w'])) * word_unit fw = of_int (round_to mode (mag d / ten_unit fc)) * ten_unit fc \<and>
    (bval WORD_BASE (p @ [w']) = 0 \<longleftrightarrow> round_to mode (mag d / ten_unit fc) = 0)"
proof -
  let ?b = "word_buf d" and ?m = "int_words d + frac_words d - Suc t"
  let ?\<phi> = "fval WORD_BASE (seg ?b (Suc t) ?m)" and ?A = "bval WORD_BASE (take (Suc t) ?b)"
  note ok = dec_okD[OF d] and ks = kept_split[OF d k]
  have bl: "below WORD_BASE (seg ?b (Suc t) ?m)" using ok by blast
  have ph: "0 \<le> ?\<phi>" "?\<phi> < 1" using fval_nonneg fval_less_1[OF bl] by auto
  have t9: "t < 9" using ks(2) by simp
  define p w q where pwq: "p = take t ?b" "w = ?b ! t" "q = drop (Suc t) ?b"
  have b: "?b = p @ w # q" using t9 ok(1) by (simp add: pwq id_take_nth_drop)
  have lp: "length p = t" using t9 ok(1) by (simp add: pwq)
  have wB: "w < WORD_BASE" using ok t9 by (simp add: pwq below_nth)
  have A: "?A = bval WORD_BASE p * WORD_BASE + w" unfolding b using lp by (simp add: bval_append)
  have uw: "ten_unit fc = 10 ^ e * word_unit fw" by (rule ten_unit_word[OF e(1)])
  have up: "0 < ten_unit fc" "0 < word_unit fw" by (simp_all add: ten_unit_def word_unit_pos)
  have K: "mag d / ten_unit fc = (of_nat ?A + ?\<phi>) / 10 ^ e"
    unfolding uw ks(1) using up(2) by (simp add: divide_simps)
  note fl = floor_digits[OF ph, of ?A e]
  define inc where "inc = round_inc mode ((of_nat (?A mod 10 ^ e) + ?\<phi>) / 10 ^ e)"
  have R: "round_to mode (mag d / ten_unit fc) = int (?A div 10 ^ e + of_bool inc)"
    unfolding round_to_def K fl(1) fl(2) inc_def by simp
  have g: "get_at ?b t = Some w" "set_at ?b t v = Some (p @ v # q)" for v
    unfolding b using get_at_mid[of t p] set_at_mid[of t p] lp by simp_all
  have "\<exists>w'. w' \<le> WORD_BASE \<and> do_incr ?b (int_words d) fw fc (frac_words d) mode = Some (Some (p @ w' # q, int t)) \<and>
      bval WORD_BASE (p @ [w']) = (?A div 10 ^ e + of_bool inc) * 10 ^ e"
  proof (cases "e = 0")
    case True
    have fc9: "fc = fw * 9" using e(1) True by simp
    have "fw < int (frac_words d)"
    proof (rule ccontr)
      assume "\<not> fw < int (frac_words d)"
      then have "fw = int (frac_words d)" using k(2) by simp
      then have "frac_words d * 9 < frac_cnt d" using e(3) fc9 by linarith
      then show False using word_cnt_ge[of "frac_cnt d"] ok(3) by simp
    qed
    then have m: "0 < ?m" using ks(3) by linarith
    have "incr_needed ?b (int (Suc t) - 1) (int (frac_words d)) fw mode = Some (round_inc mode ?\<phi>)"
      using incr_needed_ok[OF ok(2) _ m ks(3), of "Suc t"] ks(2) ok(1) by simp
    then have inc: "incr_needed ?b (int t) (int (frac_words d)) fw mode = Some inc"
      using True by (simp add: inc_def)
    have ti: "int (int_words d) + fw - 1 = int t" "int (int_words d) + fw \<noteq> 0" using k(1) by simp_all
    have "uadd 32 w 1 = Some (w + 1)" using wB WORD_BASE_u32 by (simp add: uadd_def)
    then show ?thesis
      unfolding do_incr_def ti(1) using inc g ti(2) True fc9 wB lp
      by (intro exI[of _ "w + of_bool inc"]) (cases inc; simp add: A bval_append b)
  next
    case False
    then have e1: "1 \<le> e" by simp
    have fc9: "fc \<noteq> fw * 9" "nat (fw * 9 - fc - 1) = e - 1" using e(1) False by linarith+
    have ti: "int (int_words d) + fw - 1 = int t" using k(1) by simp
    have mC: "mode \<noteq> Ceiling" using mode False by auto
    let ?dig = "w div 10 ^ (e - 1) mod 10"
    have "inc = (case mode of HalfEven \<Rightarrow> 5 \<le> ?dig | Truncate \<Rightarrow> False | Ceiling \<Rightarrow> 0 < ?dig)"
      using mC half_digit[OF ph e1, of ?A] last_word_digits(2)[OF e(2) e1, of "bval WORD_BASE p" w]
      unfolding inc_def A[symmetric] by (cases mode) (simp_all add: round_inc_def)
    note rw = round_in_word_ok[OF wB e1 e(2), of mode, folded this]
    have "bval WORD_BASE p * WORD_BASE = bval WORD_BASE p * 10 ^ (9 - e) * 10 ^ e"
      using e(2) by (simp add: WORD_BASE_pow flip: power_add)
    then have v: "bval WORD_BASE (p @ [(w div 10 ^ e + of_bool inc) * 10 ^ e]) = (?A div 10 ^ e + of_bool inc) * 10 ^ e"
      unfolding A last_word_digits(1)[OF e(2)] by (simp add: bval_append add_mult_distrib)
    show ?thesis
      unfolding do_incr_def ti using fc9 g rw v
      by (intro exI[of _ "(w div 10 ^ e + of_bool inc) * 10 ^ e"]) simp
  qed
  then obtain w' where w': "w' \<le> WORD_BASE"
    "do_incr ?b (int_words d) fw fc (frac_words d) mode = Some (Some (p @ w' # q, int t))"
    "bval WORD_BASE (p @ [w']) = (?A div 10 ^ e + of_bool inc) * 10 ^ e" by blast
  have "of_nat (bval WORD_BASE (p @ [w'])) * word_unit fw =
      of_int (round_to mode (mag d / ten_unit fc)) * ten_unit fc"
    unfolding w'(3) R by (simp add: uw)
  moreover have "bval WORD_BASE (p @ [w']) = 0 \<longleftrightarrow> round_to mode (mag d / ten_unit fc) = 0"
    unfolding w'(3) R by simp
  ultimately show ?thesis using b lp w'(1,2)
    by (intro exI[of _ p] exI[of _ w] exI[of _ q] exI[of _ w'] conjI)
qed

text \<open>What rounding to a unit promises of a result.\<close>

definition rounds :: "decimal res option \<Rightarrow> bool \<Rightarrow> int \<Rightarrow> rat \<Rightarrow> bool" where
  "rounds r neg n u \<longleftrightarrow>
     (\<exists>x. r = Some x \<and> (if is_overCausetxctx x then of_int n * u = of_nat WORD_BASE ^ 9
        else dec_ok (deref x) \<and> mag (deref x) = of_int n * u \<and>
          negative (deref x) = (neg \<and> n \<noteq> 0)))"

lemma handle_carry_rounds:
  assumes "carry_buf p w q iw fw fc" "int_cnt d = iw * 9" "word_buf d = p @ w # q"
    and "of_nat (bval WORD_BASE (p @ [w])) * word_unit fw = of_int n * u" "bval WORD_BASE (p @ [w]) = 0 \<longleftrightarrow> n = 0"
  shows "rounds (handle_carry (Ok d) (length p) fc fw iw 9) (negative d) n u"
proof (cases rule: handle_carry_ok[OF assms(1-3), case_names zero fits over])
  case (zero d')
  then show ?thesis using assms(4,5) by (simp add: rounds_def)
next
  case (fits r)
  then show ?thesis using assms(4,5) by (simp add: rounds_def)
next
  case (over r)
  then show ?thesis using assms(4) by (simp add: rounds_def)
qed

lemma handle_incr_rounds:
  assumes d: "dec_ok d" and k: "int (int_words d) + fw = int (Suc t)" "fw \<le> int (frac_words d)"
    and e: "int e = 9 * fw - fc" "e \<le> 9" "fc < int (frac_cnt d)" and mode: "mode = Ceiling \<longrightarrow> e = 0"
    and fw: "word_cnt (nat fc) = nat fw" "fw \<le> 4" "fc = 0 \<longrightarrow> fw = 0"
  shows "rounds (handle_incr (Ok (d\<lparr>int_cnt := int_words d * 9\<rparr>)) (int_words d) fw fc (frac_words d) 9 mode)
     (negative d) (round_to mode (mag d / ten_unit fc)) (ten_unit fc)"
proof -
  note ok = dec_okD[OF d]
  obtain p w q w' where b: "word_buf d = p @ w # q" "length p = t" "w' \<le> WORD_BASE"
    "do_incr (word_buf d) (int_words d) fw fc (frac_words d) mode = Some (Some (p @ w' # q, int t))"
    "of_nat (bval WORD_BASE (p @ [w'])) * word_unit fw = of_int (round_to mode (mag d / ten_unit fc)) * ten_unit fc"
    "bval WORD_BASE (p @ [w']) = 0 \<longleftrightarrow> round_to mode (mag d / ten_unit fc) = 0"
    using do_incr_ok[OF d k e mode] by (elim exE conjE) (assumption | rule)+
  have lq: "Suc t + length q = 9" using b(1,2) ok(1) by simp
  define q' where "q' = (if fw < int (frac_words d) then zeros (length q) else q)"
  have idx: "(if fc = 0 \<and> int_words d = 0 then 1 else nat (int (int_words d) + fw)) = Suc t"
    using k(1) fw(3) by auto
  have z: "zero_words (9 - Suc t) (Suc t) (p @ w' # q) = Some (p @ w' # zeros (length q))"
  proof -
    have "9 - Suc t = length q" using lq by simp
    then show ?thesis using zero_words_ok[of "p @ [w']" "Suc t" q "length q" "[]"] b(2) by simp
  qed
  have run: "handle_incr (Ok (d\<lparr>int_cnt := int_words d * 9\<rparr>)) (int_words d) fw fc (frac_words d) 9 mode =
      handle_carry (Ok (d\<lparr>int_cnt := int_words d * 9, word_buf := p @ w' # q'\<rparr>)) (length p) fc fw (int_words d) 9"
    unfolding handle_incr_def idx using b(2,4) z by (simp add: q'_def)
  have "carry_buf p w' q' (int_words d) fw fc"
  proof -
    have "take (nat (- fw)) q' = zeros (nat (- fw))"
    proof (cases "fw < 0")
      case True
      then have "q' = zeros (length q)" by (simp add: q'_def)
      moreover have "nat (- fw) \<le> length q" using k(1) lq ok(3) by linarith
      ultimately show ?thesis by (simp add: min_absorb1)
    qed simp
    moreover have "below WORD_BASE p" "below WORD_BASE q" using ok(2) b(1) by simp_all
    then have "below WORD_BASE q'" by (simp add: q'_def)
    moreover have "length q' = length q" by (simp add: q'_def)
    ultimately show ?thesis
      unfolding carry_buf_def using b(2,3) lq k(1) fw ok(3) \<open>below WORD_BASE p\<close> by simp
  qed
  from handle_carry_rounds[OF this _ _ b(5,6), of "d\<lparr>int_cnt := int_words d * 9, word_buf := p @ w' # q'\<rparr>"]
  show ?thesis unfolding run by simp
qed

text \<open>No word is kept: the decimal has no integer words and is rounded to an integer.\<close>

lemma handle_incr_rounds_0:
  assumes d: "dec_ok d" and k: "int_words d = 0" "0 < frac_cnt d"
  shows "rounds (handle_incr (Ok (d\<lparr>int_cnt := 0\<rparr>)) 0 0 0 (frac_words d) 9 mode)
     (negative d) (round_to mode (mag d)) 1"
proof -
  note ok = dec_okD[OF d] and ks = kept_split[OF d, of 0 0]
  let ?b = "word_buf d" and ?m = "frac_words d"
  have m: "0 < ?m" using k by simp
  have mg: "mag d = fval WORD_BASE (seg ?b 0 ?m)" using ks(1) k by (simp add: word_unit_def)
  have "below WORD_BASE (seg ?b 0 ?m)" using ok(2) by blast
  then have "0 \<le> mag d" "mag d < 1" using mag_nonneg[of d] fval_less_1 mg by simp_all
  then have "\<lfloor>mag d\<rfloor> = 0" by (simp add: floor_eq_iff)
  then have R: "round_to mode (mag d) = of_bool (round_inc mode (mag d))" by (simp add: round_to_def)
  have inc: "incr_needed ?b (- 1) (int ?m) 0 mode = Some (round_inc mode (mag d))"
    using incr_needed_ok[OF ok(2), of 0 ?m ?m 0 mode] m ok k mg by simp
  show ?thesis
  proof (cases "round_inc mode (mag d)")
    case True
    obtain x xs where x: "?b = x # xs" "length xs = 8" using ok(1) by (cases ?b) auto
    have s: "set_at ?b 0 WORD_BASE = Some (WORD_BASE # xs)" using x by (simp add: set_at_def)
    have di: "do_incr ?b 0 0 0 ?m mode = Some (Some (WORD_BASE # xs, 0))"
      using inc True s by (simp add: do_incr_def)
    have z: "zero_words 8 1 (WORD_BASE # xs) = Some (WORD_BASE # zeros 8)"
      using zero_words_ok[of "[WORD_BASE]" 1 xs 8 "[]"] x by simp
    let ?d = "d\<lparr>int_cnt := 0, word_buf := WORD_BASE # zeros 8\<rparr>"
    have run: "handle_incr (Ok (d\<lparr>int_cnt := 0\<rparr>)) 0 0 0 ?m 9 mode = handle_carry (Ok ?d) 0 0 0 0 9"
      unfolding handle_incr_def using di z m by simp
    have "handle_carry (Ok ?d) 0 0 0 0 9 = Some (Ok (d\<lparr>int_cnt := 1, frac_cnt := 0, word_buf := 1 # zeros 8\<rparr>))"
      by (simp add: handle_carry_def handle_carry_out_def finish_carry_def get_at_def set_at_def)
    moreover have "dec_ok (d\<lparr>int_cnt := 1, frac_cnt := 0, word_buf := 1 # zeros 8\<rparr>)"
      using WORD_BASE_u32(3) by (simp add: dec_ok_def word_cnt_def)
    moreover have "mag (d\<lparr>int_cnt := 1, frac_cnt := 0, word_buf := 1 # zeros 8\<rparr>) = 1"
      by (simp add: mag_def used_def word_cnt_def)
    ultimately show ?thesis unfolding run rounds_def R using True by simp
  next
    case False
    have "do_incr ?b 0 0 0 ?m mode = Some None" using inc False by (simp add: do_incr_def)
    then have "handle_incr (Ok (d\<lparr>int_cnt := 0\<rparr>)) 0 0 0 ?m 9 mode = Some (Ok zero_dec)"
      by (simp add: handle_incr_def)
    moreover have "\<not> negative zero_dec" by (simp add: zero_dec_def new_dec_def)
    ultimately show ?thesis unfolding rounds_def R using False by simp
  qed
qed

section \<open>\<open>round\<close>, verified\<close>

lemma mag_pad:
  assumes "dec_ok d" "int_words d + f \<le> 9" "frac_words d \<le> f" "word_cnt fc = f"
    "length buf = 9" "below WORD_BASE buf"
    "take (int_words d + f) buf = used d @ zeros (f - frac_words d)"
  shows "dec_ok (d\<lparr>int_cnt := int_words d * 9, word_buf := buf, frac_cnt := fc\<rparr>)"
    "mag (d\<lparr>int_cnt := int_words d * 9, word_buf := buf, frac_cnt := fc\<rparr>) = mag d"
proof -
  let ?d = "d\<lparr>int_cnt := int_words d * 9, word_buf := buf, frac_cnt := fc\<rparr>"
  have w: "int_words ?d = int_words d" "frac_words ?d = f" using assms(2,4) by simp_all
  have "0 < int_words d + f" using dec_okD(4)[OF assms(1)] assms(3) by linarith
  then have "0 < int_words d * 9 + fc" using assms(4) word_cnt_pos[of fc] by (cases "fc = 0") auto
  then show "dec_ok ?d" unfolding dec_ok_def w using assms by simp
  have "mag ?d = of_nat (bval WORD_BASE (used d @ zeros (f - frac_words d))) / of_nat WORD_BASE ^ f"
    unfolding mag_def used_def w using assms(7) by (simp add: used_def)
  also have "\<dots> = mag d" using assms(3) by (simp add: bval_append mag_def field_simps flip: power_add)
  finally show "mag ?d = mag d" .
qed

lemma round_dec_clip: "round_dec d fc mode = round_dec d (min fc 30) mode"
  by (simp add: round_dec_def round_with_word_buf_len_def min_def)

lemma round_longer:
  assumes d: "dec_ok d" and fc: "int (frac_cnt d) \<le> min fc 30"
  shows "\<exists>x. round_dec d fc mode = Some x \<and> \<not> is_overCausetxctx x \<and> dec_ok (deref x) \<and>
    mag (deref x) = mag d \<and> negative (deref x) = negative d"
proof -
  note ok = dec_okD[OF d]
  define f where "f = min fc 30"
  have clip: "round_dec d fc mode = round_dec d f mode" unfolding f_def by (rule round_dec_clip)
  have f: "0 \<le> f" "f \<le> 30" "int (frac_cnt d) \<le> f" using fc by (auto simp: f_def)
  let ?long = "int (int_words d) + round_words f > 9"
  define fw g where fg: "fw = (if ?long then 9 - int (int_words d) else round_words f)"
    "g = (if ?long then (9 - int (int_words d)) * 9 else f)"
  have iw9: "int_words d \<le> 9" using ok(3) by simp
  note rw = round_words_props[of f]
  have nl: "word_cnt (nat ((9 - int (int_words d)) * 9)) = nat (9 - int (int_words d))"
  proof -
    have "nat ((9 - int (int_words d)) * 9) = (9 - int_words d) * 9" using iw9 by (simp add: nat_diff_distrib)
    then show ?thesis using iw9 by (simp add: nat_diff_distrib)
  qed
  have fw: "0 \<le> fw" "fw \<le> 9" "0 \<le> g" "g \<le> 81" "word_cnt (nat g) = nat fw" "int (int_words d) + fw \<le> 9"
    using fg f rw iw9 nl by (auto split: if_splits)
  have fcg: "int (frac_cnt d) \<le> g"
  proof (cases ?long)
    case True
    have "frac_cnt d \<le> frac_words d * 9" using ok(3) by (intro word_cnt_ge) simp
    also have "\<dots> \<le> (9 - int_words d) * 9" using ok(3) by simp
    finally show ?thesis using True fg iw9 by (simp add: of_nat_diff)
  qed (use fg f in simp)
  have "nat fw \<ge> frac_words d" using word_cnt_mono[of "frac_cnt d" "nat g"] fcg fw(5) by simp
  then have le: "int (frac_words d) \<le> fw" using fw(1) by linarith
  let ?d = "d\<lparr>int_cnt := int_words d * 9\<rparr>"
  let ?r = "if ?long then Truncated ?d else Ok ?d"
  have ag: "as_unsigned 8 g = nat g" using fw by (simp add: as_unsigned_def)
  have cond: "\<not> as_signed 8 (int (int_cnt d)) + g < 0"
  proof -
    have "int_cnt d \<le> 81" using ok(3) by (intro word_cnt_less) simp
    then have "as_signed 8 (int (int_cnt d)) = int (int_cnt d)" by (intro as_signed_id) (auto simp: in_signed_def)
    then show ?thesis using fw by simp
  qed
  let ?z = "take (int_words d + frac_words d) (word_buf d) @ zeros (nat fw - frac_words d) @
      drop (int_words d + nat fw) (word_buf d)"
  have "int_words d + frac_words d + (nat fw - frac_words d) = int_words d + nat fw" using le by linarith
  moreover have "int_words d + nat fw \<le> 9" using fw(1,6) by linarith
  ultimately have z: "zero_words (nat fw - frac_words d) (int_words d + frac_words d) (word_buf d) = Some ?z"
    using zero_words_range[of "int_words d + frac_words d" "nat fw - frac_words d" "word_buf d"] ok(1) by simp
  define rr where "rr = ?r"
  have sr: "deref rr = ?d" "\<not> is_overCausetxctx rr" by (simp_all add: rr_def)
  have rd: "round_dec d fc mode =
      (if fw > int (frac_words d)
       then Some (res_map (\<lambda>d. d\<lparr>word_buf := ?z, frac_cnt := nat g\<rparr>) rr)
       else Some (res_map (\<lambda>d. d\<lparr>frac_cnt := nat g\<rparr>) rr))"
  proof (cases ?long)
    case True
    then have "fw = 9 - int (int_words d)" "g = (9 - int (int_words d)) * 9" using fg by simp_all
    then show ?thesis
      using True rr_def f(2) z ag fcg iw9 unfolding clip unfolding round_dec_def round_with_word_buf_len_def
      by (simp add: min_absorb1)
  next
    case False
    then have "fw = round_words f" "g = f" using fg by simp_all
    then show ?thesis
      using False rr_def f(2) z ag fcg iw9 cond unfolding clip unfolding round_dec_def round_with_word_buf_len_def
      by (simp add: min_absorb1 Let_def)
  qed
  have iwf: "int_words d + nat fw \<le> 9" using fw by linarith
  show ?thesis
  proof (cases "fw > int (frac_words d)")
    case True
    have "length ?z = 9" "below WORD_BASE ?z" using ok iwf True by auto
    moreover have "take (int_words d + nat fw) ?z = used d @ zeros (nat fw - frac_words d)"
      using ok iwf True by (simp add: used_def)
    ultimately have "dec_ok (?d\<lparr>word_buf := ?z, frac_cnt := nat g\<rparr>)" "mag (?d\<lparr>word_buf := ?z, frac_cnt := nat g\<rparr>) = mag d"
      using mag_pad[OF d iwf _ fw(5), of ?z] le by simp_all
    with True rd sr show ?thesis by simp
  next
    case False
    then have e: "nat fw = frac_words d" using le by linarith
    have "take (int_words d + nat fw) (word_buf d) = used d @ zeros (nat fw - frac_words d)"
      using e by (simp add: used_def)
    from mag_pad[OF d iwf _ fw(5) ok(1,2) this] e
    have "dec_ok (?d\<lparr>frac_cnt := nat g\<rparr>)" "mag (?d\<lparr>frac_cnt := nat g\<rparr>) = mag d" by simp_all
    with False rd sr show ?thesis by simp
  qed
qed

lemma round_to_small:
  assumes "0 \<le> x" "x < 1 / 2" "mode \<noteq> Ceiling"
  shows "round_to mode x = 0"
proof -
  have "\<lfloor>x\<rfloor> = 0" using assms by (simp add: floor_eq_iff)
  then show ?thesis using assms by (cases mode) (simp_all add: round_to_def round_inc_def)
qed

lemma round_shorter:
  assumes d: "dec_ok d" and fc: "- 128 \<le> fc" "min fc 30 < int (frac_cnt d)"
    and lead: "fc < 0 \<longrightarrow> mag d < 10 ^ int_cnt d" and mode: "mode = Ceiling \<longrightarrow> fc = 0"
  shows "rounds (round_dec d fc mode) (negative d) (round_to mode (mag d / ten_unit (min fc 30))) (ten_unit (min fc 30))"
proof -
  note ok = dec_okD[OF d]
  define f where "f = min fc 30"
  have clip: "round_dec d fc mode = round_dec d f mode" unfolding f_def by (rule round_dec_clip)
  have f: "- 128 \<le> f" "f \<le> 30" "f < int (frac_cnt d)" "f < 0 \<longrightarrow> f = fc"
    using fc by (auto simp: f_def)
  note rw = round_words_props[OF f(1,2)]
  define e where "e = nat (9 * round_words f - f)"
  have e: "int e = 9 * round_words f - f" "e \<le> 9" using rw(1,2) by (simp_all add: e_def)
  have le: "round_words f \<le> int (frac_words d)"
  proof (cases "f > 0")
    case True
    have "nat f \<le> frac_cnt d" using f(3) by linarith
    then have "nat (round_words f) \<le> frac_words d" using word_cnt_mono rw(7) by metis
    then show ?thesis by linarith
  qed (use rw(6) in simp)
  have ic: "int_cnt d \<le> 81" "int_cnt d \<le> int_words d * 9"
    using ok(3) word_cnt_less[of "int_cnt d"] word_cnt_ge[of "int_cnt d"] by simp_all
  have as: "as_signed 8 (int (int_cnt d)) = int (int_cnt d)"
    using ic by (intro as_signed_id) (auto simp: in_signed_def)
  have nl: "\<not> int (int_words d) + round_words f > 9" using le ok(3) by linarith
  have me: "mode = Ceiling \<longrightarrow> e = 0" using mode rw(4) by (auto simp: e_def f_def)
  have "rounds (round_dec d fc mode) (negative d) (round_to mode (mag d / ten_unit f)) (ten_unit f)"
  proof (cases "int (int_cnt d) + f < 0")
    case True
    then have fneg: "f < 0" "fc = f" using f(4) by simp_all
    have "round_dec d fc mode = Some (Ok zero_dec)"
      using True nl f(2) as unfolding clip unfolding round_dec_def round_with_word_buf_len_def by simp
    moreover have "mag d / ten_unit f < 1 / 2"
    proof -
      have "nat (- f) = Suc (nat (- f) - 1)" "int_cnt d \<le> nat (- f) - 1" using True by linarith+
      then have "(10::rat) ^ int_cnt d \<le> 10 ^ (nat (- f) - 1)" "(10::rat) ^ nat (- f) = 10 * 10 ^ (nat (- f) - 1)"
        by (simp_all) (metis power_Suc)
      then have "mag d * 10 < 10 ^ nat (- f)" using lead fneg by linarith
      then show ?thesis using fneg mag_nonneg[of d] by (simp add: ten_unit_def divide_simps)
    qed
    then have "round_to mode (mag d / ten_unit f) = 0"
      using mag_nonneg[of d] mode fneg by (intro round_to_small) (auto simp: ten_unit_def)
    ultimately show ?thesis by (simp add: rounds_def) (simp add: zero_dec_def new_dec_def)
  next
    case False
    have run: "round_dec d fc mode = handle_incr (Ok (d\<lparr>int_cnt := int_words d * 9\<rparr>)) (int_words d)
        (round_words f) f (frac_words d) 9 mode"
      using False nl f(2,3) as le ok(3) unfolding clip unfolding round_dec_def round_with_word_buf_len_def
      by (simp add: min_absorb1)
    have knn: "0 \<le> int (int_words d) + round_words f"
    proof (cases "f < 0")
      case True
      have "- f \<le> int (int_words d) * 9" using False ic(2) by linarith
      then show ?thesis using rw(3)[OF True] by linarith
    qed (use rw(4,5) in \<open>cases "f = 0"; auto\<close>)
    show ?thesis
    proof (cases "int (int_words d) + round_words f = 0")
      case True
      have "\<not> f < 0" using False ic(2) rw(3) True by linarith
      moreover have "\<not> f > 0" using rw(5) True by linarith
      ultimately have f0: "f = 0" by simp
      then have "int_words d = 0" "round_words f = 0" using rw(4) True by simp_all
      then show ?thesis
        using handle_incr_rounds_0[OF d, of mode] f(3) f0 unfolding run by (simp add: ten_unit_def)
    next
      case nz: False
      then obtain t where "int (int_words d) + round_words f = int (Suc t)"
        using knn by (metis gr0_implies_Suc of_nat_0_less_iff order_le_less zero_le_imp_eq_int)
      from handle_incr_rounds[OF d this le e f(3) me rw(7,8)] rw(4) show ?thesis unfolding run by blast
    qed
  qed
  then show ?thesis by (simp add: f_def)
qed

lemma round_to_modes:
  "round_to HalfEven x = \<lfloor>x + 1 / 2\<rfloor>" "round_to Truncate x = \<lfloor>x\<rfloor>" "round_to Ceiling x = \<lceil>x\<rceil>"
proof -
  have f: "of_int \<lfloor>x\<rfloor> \<le> x" "x < of_int \<lfloor>x\<rfloor> + 1" using floor_correct[of x] by simp_all
  show "round_to Truncate x = \<lfloor>x\<rfloor>" by (simp add: round_to_def round_inc_def)
  show "round_to HalfEven x = \<lfloor>x + 1 / 2\<rfloor>"
    unfolding round_to_def round_inc_def round_mode.case
    by (rule floor_unique[symmetric]; cases "1 / 2 \<le> x - of_int \<lfloor>x\<rfloor>") (use f in simp_all, linarith?)
  show "round_to Ceiling x = \<lceil>x\<rceil>"
    unfolding round_to_def round_inc_def round_mode.case
    by (rule ceiling_unique[symmetric]; cases "0 < x - of_int \<lfloor>x\<rfloor>") (use f in simp_all, linarith?)
qed

text \<open>Rounding to an integer cannot overflow: a decimal with a fraction has a free word.\<close>

lemma mag_less_words:
  assumes "dec_ok d"
  shows "mag d < of_nat WORD_BASE ^ int_words d"
proof -
  have "fval WORD_BASE (used d) < 1" using fval_less_1 dec_okD(6)[OF assms] by simp
  then show ?thesis by (simp add: mag_fval[OF assms])
qed

lemma round_0_rounds:
  assumes d: "dec_ok d"
  obtains x where "round_dec d 0 mode = Some x" "\<not> is_overCausetxctx x" "dec_ok (deref x)"
    "mag (deref x) = of_int (round_to mode (mag d))"
    "negative (deref x) = negative d \<or> \<not> negative (deref x) \<and> mag (deref x) = 0"
proof (cases "frac_cnt d = 0")
  case True
  have "mag d = of_nat (bval WORD_BASE (used d))" using True by (simp add: mag_def)
  then have "round_to mode (mag d) = int (bval WORD_BASE (used d))"
    by (cases mode) (simp_all add: round_to_def round_inc_def)
  then show thesis using that round_longer[OF d, of 0 mode] True \<open>mag d = _\<close> by auto
next
  case False
  have w: "int_words d \<le> 8" using dec_okD(3)[OF d] False word_cnt_pos[of "frac_cnt d"] by linarith
  have r: "rounds (round_dec d 0 mode) (negative d) (round_to mode (mag d)) 1"
    using round_shorter[OF d, of 0 mode] False by (simp add: ten_unit_def)
  have "round_to mode (mag d) \<le> \<lceil>mag d\<rceil>"
    using round_to_modes[of "mag d"] by (cases mode) (auto simp: le_ceiling_iff floor_le_iff ceiling_le_iff, linarith+)
  moreover have "\<lceil>mag d\<rceil> \<le> int WORD_BASE ^ 8"
  proof -
    have "(of_nat WORD_BASE :: rat) ^ int_words d \<le> of_nat WORD_BASE ^ 8"
      using w WORD_BASE_u32(3) by (intro power_increasing) simp_all
    then have "mag d \<le> of_int (int WORD_BASE ^ 8)" using mag_less_words[OF d] by simp
    then show ?thesis by (simp only: ceiling_le_iff)
  qed
  moreover have "int WORD_BASE ^ 8 < int WORD_BASE ^ 9" by (simp add: WORD_BASE_def)
  ultimately have "round_to mode (mag d) < int WORD_BASE ^ 9" by linarith
  then have "(of_int (round_to mode (mag d)) :: rat) \<noteq> of_nat WORD_BASE ^ 9"
    by (metis less_irrefl of_int_eq_iff of_int_of_nat_eq of_int_power)
  then show thesis using r that by (auto simp: rounds_def split: if_splits)
qed

section \<open>Properties\<close>

text \<open>
  \<open>round\<close> in the mode \<open>HalfEven\<close> takes a tie to the larger magnitude; \<open>fc\<close> may be negative, and
  overflow is reported exactly for the one value that does not fit, \<open>WORD_BASE^9\<close>.
\<close>

lemma round_half_up:
  assumes "dec_ok d" "- 128 \<le> fc" "mag d < 10 ^ int_cnt d"
  shows "\<exists>x. round_dec d fc HalfEven = Some x \<and>
    (let u = ten_unit (min fc 30);
         v = (if int (frac_cnt d) \<le> min fc 30 then mag d else of_int \<lfloor>mag d / u + 1 / 2\<rfloor> * u) in
     if is_overCausetxctx x then v = of_nat WORD_BASE ^ 9
     else dec_ok (deref x) \<and> dec_value (deref x) = (if negative d then - v else v))"
proof (cases "int (frac_cnt d) \<le> min fc 30")
  case True
  from round_longer[OF assms(1) True, of HalfEven] True show ?thesis by (auto simp: dec_value_def Let_def)
next
  case False
  from round_shorter[OF assms(1,2), of HalfEven] False assms(3) show ?thesis
    unfolding rounds_def round_to_modes by (auto simp: dec_value_def Let_def)
qed

text \<open>
  What the three modes promise of the rounded magnitude \<open>v\<close> of a magnitude \<open>m\<close> at the unit \<open>u\<close>: a
  multiple of the unit, for \<open>HalfEven\<close> one of the nearest, for \<open>Truncate\<close> the next one towards zero
  and for \<open>Ceiling\<close> the next one away from it.
\<close>

definition rounded :: "round_mode \<Rightarrow> rat \<Rightarrow> rat \<Rightarrow> rat \<Rightarrow> bool" where
  "rounded mode u m v \<longleftrightarrow> (\<exists>n :: int. v = of_int n * u) \<and>
     (case mode of
        HalfEven \<Rightarrow> \<bar>v - m\<bar> \<le> u / 2
      | Truncate \<Rightarrow> v \<le> m \<and> m < v + u
      | Ceiling \<Rightarrow> m \<le> v \<and> v < m + u)"

lemma rounded_round_to:
  assumes "0 < u" shows "rounded mode u m (of_int (round_to mode (m / u)) * u)"
proof -
  have m: "m = m / u * u" using assms by simp
  have f: "of_int \<lfloor>m / u\<rfloor> * u \<le> m / u * u" "m / u * u < (of_int \<lfloor>m / u\<rfloor> + 1) * u"
    using assms floor_correct[of "m / u"] by (intro mult_right_mono mult_strict_right_mono; simp)+
  have c: "m / u * u \<le> of_int \<lceil>m / u\<rceil> * u" "(of_int \<lceil>m / u\<rceil> - 1) * u < m / u * u"
    using assms ceiling_correct[of "m / u"] by (intro mult_right_mono mult_strict_right_mono; simp)+
  have h: "of_int \<lfloor>m / u + 1 / 2\<rfloor> * u \<le> (m / u + 1 / 2) * u" "(m / u + 1 / 2) * u < (of_int \<lfloor>m / u + 1 / 2\<rfloor> + 1) * u"
    using assms floor_correct[of "m / u + 1 / 2"] by (intro mult_right_mono mult_strict_right_mono; simp)+
  show ?thesis
  proof (cases mode)
    case HalfEven
    have "\<bar>of_int \<lfloor>m / u + 1 / 2\<rfloor> * u - m\<bar> \<le> u / 2"
      unfolding abs_le_iff using h assms by (simp add: algebra_simps)
    then show ?thesis unfolding rounded_def HalfEven round_to_modes by auto
  next
    case Truncate
    show ?thesis unfolding rounded_def Truncate round_to_modes using f assms by (auto simp: algebra_simps)
  next
    case Ceiling
    show ?thesis unfolding rounded_def Ceiling round_to_modes using c assms by (auto simp: algebra_simps)
  qed
qed

text \<open>
  C8: \<open>round\<close> in each of the three modes. On every well-formed decimal whose leading word holds no
  digit above the counted ones it never panics. A decimal with no more than the wanted number \<open>fc\<close>
  (at most 30, possibly negative) of fraction digits keeps its value; otherwise the magnitude
  becomes a multiple of \<open>10^-fc\<close>: a nearest one for \<open>HalfEven\<close> (which neighbour a tie takes is left
  open here), the one towards zero for \<open>Truncate\<close>, the one away from zero for \<open>Ceiling\<close>, the last only for
  \<open>fc = 0\<close>: the code supports no other scale in that mode, as its comments say. The result
  is well formed and keeps the sign; overflow is reported only when that multiple is
  \<open>WORD_BASE^9\<close>, which no decimal can hold.
\<close>

theorem round_nearest:
  assumes "dec_ok d" "- 128 \<le> fc" "mag d < 10 ^ int_cnt d" "mode = Ceiling \<longrightarrow> fc = 0"
  shows "\<exists>x v. round_dec d fc mode = Some x \<and>
    (if int (frac_cnt d) \<le> min fc 30 then v = mag d else rounded mode (ten_unit (min fc 30)) (mag d) v) \<and>
    (if is_overCausetxctx x then v = of_nat WORD_BASE ^ 9
     else dec_ok (deref x) \<and> dec_value (deref x) = (if negative d then - v else v))"
proof (cases "int (frac_cnt d) \<le> min fc 30")
  case True
  from round_longer[OF assms(1) True, of mode] True show ?thesis by (auto simp: dec_value_def)
next
  case False
  have "0 < ten_unit (min fc 30)" by (simp add: ten_unit_def)
  from rounded_round_to[OF this, of mode "mag d"] round_shorter[OF assms(1,2), of mode] False assms(3,4)
  show ?thesis unfolding rounds_def
    by (auto simp: dec_value_def intro!: exI[of _ "of_int (round_to mode (mag d / ten_unit (min fc 30))) * ten_unit (min fc 30)"])
qed

theorem round_nearest_witness:
  fixes d :: decimal
  defines "d \<equiv> dec_words 3 2 True [123, 450000000]"
  shows "dec_ok d \<and> mag d < 10 ^ int_cnt d \<and> int (frac_cnt d) > 1 \<and>
    (\<exists>x v. round_dec d 1 HalfEven = Some x \<and> rounded HalfEven (ten_unit 1) (mag d) v \<and>
       (if is_overCausetxctx x then v = of_nat WORD_BASE ^ 9
        else dec_ok (deref x) \<and> dec_value (deref x) = - v))"
proof -
  have d: "dec_ok d" "negative d" "frac_cnt d = 2" by (simp_all add: d_def dec_words_defs)
  moreover have m: "mag d < 10 ^ int_cnt d"
    by (simp add: d_def mag_def used_def dec_words_def new_dec_def word_cnt_def WORD_BASE_def)
  moreover have "\<not> int (frac_cnt d) \<le> min 1 30" "(min 1 30 :: int) = 1" by (simp_all add: d(3))
  ultimately show ?thesis using round_nearest[OF d(1) _ m, of 1 HalfEven] by (simp only: if_True if_False) simp
qed

text \<open>
  C9: \<open>floor\<close> never panics, never overflows, and is the largest integer below the value.
\<close>

theorem floor_dec_correct:
  assumes "dec_ok d"
  shows "\<exists>x. floor_dec d = Some x \<and> \<not> is_overCausetxctx x \<and> dec_ok (deref x) \<and>
    dec_value (deref x) = of_int \<lfloor>dec_value d\<rfloor>"
proof -
  obtain x where x: "round_dec d 0 (if negative d then Ceiling else Truncate) = Some x"
    "\<not> is_overCausetxctx x" "dec_ok (deref x)"
    "mag (deref x) = of_int (round_to (if negative d then Ceiling else Truncate) (mag d))"
    "negative (deref x) = negative d \<or> \<not> negative (deref x) \<and> mag (deref x) = 0"
    using round_0_rounds[OF assms] by metis
  have "floor_dec d = Some x" using x(1) by (simp add: floor_dec_def split: if_splits)
  moreover have "dec_value (deref x) = of_int \<lfloor>dec_value d\<rfloor>"
    using x(4,5) unfolding dec_value_def
    by (cases "negative d") (auto simp: round_to_modes floor_minus)
  ultimately show ?thesis using x by blast
qed

theorem floor_dec_correct_witness:
  "dec_ok (dec_words 1 1 True [7, 100000000]) \<and>
   (\<exists>x. floor_dec (dec_words 1 1 True [7, 100000000]) = Some x \<and> \<not> is_overCausetxctx x \<and>
      dec_ok (deref x) \<and> dec_value (deref x) = of_int \<lfloor>dec_value (dec_words 1 1 True [7, 100000000])\<rfloor>)"
proof -
  have "dec_ok (dec_words 1 1 True [7, 100000000])" by (simp add: dec_words_defs)
  with floor_dec_correct[OF this] show ?thesis by blast
qed

text \<open>
  C10: \<open>ceil\<close> never panics, never overflows, and is the smallest integer above the value.
\<close>

theorem ceil_dec_correct:
  assumes "dec_ok d"
  shows "\<exists>x. ceil_dec d = Some x \<and> \<not> is_overCausetxctx x \<and> dec_ok (deref x) \<and>
    dec_value (deref x) = of_int \<lceil>dec_value d\<rceil>"
proof -
  obtain x where x: "round_dec d 0 (if negative d then Truncate else Ceiling) = Some x"
    "\<not> is_overCausetxctx x" "dec_ok (deref x)"
    "mag (deref x) = of_int (round_to (if negative d then Truncate else Ceiling) (mag d))"
    "negative (deref x) = negative d \<or> \<not> negative (deref x) \<and> mag (deref x) = 0"
    using round_0_rounds[OF assms] by metis
  have "ceil_dec d = Some x" using x(1) by (simp add: ceil_dec_def split: if_splits)
  moreover have "dec_value (deref x) = of_int \<lceil>dec_value d\<rceil>"
    using x(4,5) unfolding dec_value_def
    by (cases "negative d") (auto simp: round_to_modes ceiling_minus)
  ultimately show ?thesis using x by blast
qed

theorem ceil_dec_correct_witness:
  "dec_ok (dec_words 0 1 False [100000000]) \<and>
   (\<exists>x. ceil_dec (dec_words 0 1 False [100000000]) = Some x \<and> \<not> is_overCausetxctx x \<and>
      dec_ok (deref x) \<and> dec_value (deref x) = of_int \<lceil>dec_value (dec_words 0 1 False [100000000])\<rceil>)"
proof -
  have "dec_ok (dec_words 0 1 False [100000000])" by (simp add: dec_words_defs)
  with ceil_dec_correct[OF this] show ?thesis by blast
qed

text \<open>
  \<open>convert_to\<close> checks the number of integer digits before it rounds and not afterwards: for
  every context, 9.99 converted to a decimal of two digits with one after the point is 10.0, which
  has three. (The source marks the place with a TODO.)
\<close>

theorem convert_to_rounds_past_flen:
  "map_option (\<lambda>(r, c). case r of Inr x \<Rightarrow> [int_cnt x, frac_cnt x] @ take 3 (word_buf x) | Inl _ \<Rightarrow> [])
     (convert_to (dec_words 1 2 False [9, 990000000])
        (new_eval_context (from_flag () IGNORE_TRUNCATE)) 2 1) = Some [9, 1, 10, 0, 0]"
  by code_simp

end
