(* ===== verification/Decimal_Mul.thy ===== *)
theory Decimal_Mul
  imports Decimal_Round
begin

text \<open>
  Multiplication: \<open>do_mul\<close> of \<open>src/berolinasql/src/decimal.rs\<close>. The signed word counts of the
  function are integers; each of its loops is a function of its own.
\<close>

section \<open>Loops\<close>

text \<open>
  \<open>for r_idx in (0..r_start).rev()\<close>: add the products of the word \<open>x\<close> with the words of \<open>rs\<close> into
  the result, from \<open>idx_to\<close> upwards.
\<close>

fun mul_row :: "nat \<Rightarrow> nat list \<Rightarrow> nat \<Rightarrow> nat \<Rightarrow> nat \<Rightarrow> nat list \<Rightarrow> (nat \<times> nat \<times> nat list) option" where
  "mul_row x rs 0 idx_to carry buf = Some (idx_to, carry, buf)"
| "mul_row x rs (Suc r_idx) idx_to carry buf = do {
     idx_to \<leftarrow> usub idx_to 1;
     y \<leftarrow> get_at rs r_idx;
     let p = x * y;
     let hi = p div WORD_BASE;
     let lo = p - hi * WORD_BASE;
     w \<leftarrow> get_at buf idx_to;
     (s, carry) \<leftarrow> add_word w lo carry;
     buf \<leftarrow> set_at buf idx_to s;
     carry \<leftarrow> uadd 32 carry (hi mod 2 ^ 32);
     mul_row x rs r_idx idx_to carry buf }"

text \<open>\<open>while carry > 0\<close>; reaching index 0 is the overflow, an \<open>Inl\<close> with the buffer so far.\<close>

fun mul_carry :: "nat \<Rightarrow> nat \<Rightarrow> nat list \<Rightarrow> (nat list + nat list) option" where
  "mul_carry 0 carry buf = Some (if carry > 0 then Inl buf else Inr buf)"
| "mul_carry (Suc idx_to) carry buf =
     (if carry > 0
      then do {
        w \<leftarrow> get_at buf idx_to;
        (s, carry) \<leftarrow> add_word w 0 carry;
        buf \<leftarrow> set_at buf idx_to s;
        mul_carry idx_to carry buf }
      else Some (Inr buf))"

text \<open>\<open>for l_idx in (0..left_stop).rev()\<close>\<close>

fun mul_rows :: "nat list \<Rightarrow> nat list \<Rightarrow> nat \<Rightarrow> nat \<Rightarrow> nat \<Rightarrow> nat list \<Rightarrow> (nat list + nat list) option" where
  "mul_rows ls rs 0 r_start start_to buf = Some (Inr buf)"
| "mul_rows ls rs (Suc l_idx) r_start start_to buf =
     (if start_to < r_start then Some (Inr buf)
      else do {
        next_to \<leftarrow> usub start_to 1;
        x \<leftarrow> get_at ls l_idx;
        (idx_to, carry, buf) \<leftarrow> mul_row x rs r_start start_to 0 buf;
        r \<leftarrow> mul_carry idx_to carry buf;
        case r of
          Inl buf \<Rightarrow> Some (Inl buf)
        | Inr buf \<Rightarrow> mul_rows ls rs l_idx r_start next_to buf })"

text \<open>\<open>while dec.word_buf[idx] == 0\<close> of the check for a negative zero.\<close>

function zero_up_to :: "nat list \<Rightarrow> nat \<Rightarrow> nat \<Rightarrow> bool option" where
  "zero_up_to buf idx stop =
     (if idx < length buf
      then (if buf ! idx = 0
            then (if idx + 1 = stop then Some True else zero_up_to buf (idx + 1) stop)
            else Some False)
      else None)"
  by pat_completeness auto
termination
  by (relation "measure (\<lambda>(buf, idx, stop). length buf - idx)") auto

text \<open>\<open>while dec.word_buf[idx_to] == 0 && dec.int_cnt > DIGITS_PER_WORD\<close>\<close>

function strip_lead :: "nat list \<Rightarrow> nat \<Rightarrow> nat \<Rightarrow> nat \<Rightarrow> (nat \<times> nat \<times> nat) option" where
  "strip_lead buf idx_to ic d_to_move =
     (if idx_to < length buf
      then (if buf ! idx_to = 0 \<and> ic > DIGITS_PER_WORD
            then do {
              d_to_move \<leftarrow> usub d_to_move 1;
              strip_lead buf (idx_to + 1) (ic - DIGITS_PER_WORD) d_to_move }
            else Some (idx_to, ic, d_to_move))
      else None)"
  by pat_completeness auto
termination
  by (relation "measure (\<lambda>(buf, idx, ic, m). length buf - idx)") auto

declare zero_up_to.simps [simp del] strip_lead.simps [simp del]

text \<open>\<open>for cur_idx in 0..d_to_move\<close>, \<open>n\<close> words being left.\<close>

fun move_words :: "nat \<Rightarrow> nat \<Rightarrow> nat \<Rightarrow> nat list \<Rightarrow> nat list option" where
  "move_words 0 cur_idx idx_to buf = Some buf"
| "move_words (Suc n) cur_idx idx_to buf = do {
     w \<leftarrow> get_at buf idx_to;
     buf \<leftarrow> set_at buf cur_idx w;
     move_words n (cur_idx + 1) (idx_to + 1) buf }"

section \<open>\<open>do_mul\<close>\<close>

text \<open>
  The word counts when the product has to be cut: the new integer word count of \<open>rhs\<close> and the
  fraction word counts of both operands.
\<close>

definition cut_counts :: "int \<Rightarrow> int \<Rightarrow> int \<Rightarrow> int \<Rightarrow> int \<Rightarrow> int \<Rightarrow> int \<times> int \<times> int" where
  "cut_counts old_int_word_to old_frac_word_to int_word_to l_frac r_int r_frac =
     (if old_int_word_to > int_word_to
      then let old_int = old_int_word_to - int_word_to; old_frac = sdiv old_int 2 in
        (old_int - old_frac, 0, 0)
      else let old_frac = old_frac_word_to - int_word_to; old_int = sdiv old_frac 2 in
        if l_frac \<le> r_frac then (r_int, l_frac - old_int, r_frac - (old_frac - old_int))
        else (r_int, l_frac - (old_frac - old_int), r_frac - old_int))"

definition clamp_words :: "int \<Rightarrow> nat" where
  "clamp_words n = nat (min (max n 0) (int WORD_BUF_LEN))"

text \<open>The normalisation at the end: the leading zero words of the integer part are removed.\<close>

definition mul_normalize :: "decimal \<Rightarrow> nat \<Rightarrow> decimal option" where
  "mul_normalize dec int_word_to = do {
     (idx_to, ic, d_to_move) \<leftarrow>
       strip_lead (word_buf dec) 0 (int_cnt dec) (int_word_to + word_cnt (frac_cnt dec));
     buf \<leftarrow> (if idx_to > 0 then move_words d_to_move 0 idx_to (word_buf dec) else Some (word_buf dec));
     Some (dec\<lparr>int_cnt := ic, word_buf := buf\<rparr>) }"

definition do_mul :: "decimal \<Rightarrow> decimal \<Rightarrow> decimal res option" where
  "do_mul lhs rhs = do {
     let (l_int, l_frac) = (word_cnt (int_cnt lhs), word_cnt (frac_cnt lhs));
     let (r_int, r_frac) = (word_cnt (int_cnt rhs), word_cnt (frac_cnt rhs));
     ic \<leftarrow> uadd 8 (int_cnt lhs) (int_cnt rhs);
     let (old_int, old_frac) = (word_cnt ic, l_frac + r_frac);
     let sz = fix_word_cnt_err old_int old_frac WORD_BUF_LEN;
     let (int_word_to, frac_word_to) = deref sz;
     let neg = (negative lhs \<noteq> negative rhs);
     fc \<leftarrow> uadd 8 (frac_cnt lhs) (frac_cnt rhs);
     rfc \<leftarrow> uadd 8 (result_frac_cnt lhs) (result_frac_cnt rhs);
     let dec = (new_dec (int_word_to * DIGITS_PER_WORD) (min fc NOT_FIXED_DEC) neg)
                 \<lparr>result_frac_cnt := min rfc MAX_FRACTION\<rparr>;
     if is_overCausetxctx sz then Some (OverCausetxctx dec)
     else do {
       let dec = (if is_ok sz then dec
                  else dec\<lparr>frac_cnt := min (frac_cnt dec) (frac_word_to * DIGITS_PER_WORD)\<rparr>);
       let (r_int, l_frac, r_frac) =
         (if is_ok sz then (int r_int, int l_frac, int r_frac)
          else cut_counts (int old_int) (int old_frac) (int int_word_to) (int l_frac) (int r_int)
                 (int r_frac));
       let r_start = clamp_words (r_int + r_frac);
       let left_stop = clamp_words (int l_int + l_frac);
       r \<leftarrow> mul_rows (word_buf lhs) (word_buf rhs) left_stop r_start (int_word_to + frac_word_to)
              (word_buf dec);
       case r of
         Inl buf \<Rightarrow> Some (OverCausetxctx (dec\<lparr>word_buf := buf\<rparr>))
       | Inr buf \<Rightarrow> do {
           let dec = dec\<lparr>word_buf := buf\<rparr>;
           z \<leftarrow> (if negative dec then zero_up_to (word_buf dec) 0 (int_word_to + frac_word_to)
                 else Some False);
           let dec = (if z then zero_dec else dec);
           dec \<leftarrow> mul_normalize dec int_word_to;
           Some (res_map (\<lambda>_. dec) sz) } } }"

definition mul_dec :: "decimal \<Rightarrow> decimal \<Rightarrow> decimal res option" where
  "mul_dec l r = do_mul l r"

section \<open>The loops, verified\<close>

text \<open>
  The words of the result are not reduced below the base, so the lemmas carry a bound \<open>K\<close> for
  them; \<open>bval\<close> of such words is still the number they stand for.
\<close>

definition words_le :: "nat \<Rightarrow> nat list \<Rightarrow> bool" where
  "words_le K ws \<longleftrightarrow> (\<forall>w\<in>set ws. w \<le> K)"

lemma words_le_simps [simp]:
  "words_le K []" "words_le K (w # ws) \<longleftrightarrow> w \<le> K \<and> words_le K ws" "words_le K (xs @ ys) \<longleftrightarrow> words_le K xs \<and> words_le K ys"
  by (auto simp: words_le_def)

lemma words_le_mono: "words_le K ws \<Longrightarrow> K \<le> K' \<Longrightarrow> words_le K' ws"
  by (force simp: words_le_def)

lemma words_le_take_drop: "words_le K ws \<Longrightarrow> words_le K (take n ws)" "words_le K ws \<Longrightarrow> words_le K (drop n ws)"
  by (auto simp: words_le_def dest: in_set_takeD in_set_dropD)

lemma add_word_any:
  assumes "a + b + c < 2 ^ 32"
  obtains s c' where "add_word a b c = Some (s, c')" "s + c' * WORD_BASE = a + b + c" "c' \<le> 1"
    "c' = 0 \<Longrightarrow> s < WORD_BASE"
proof -
  let ?t = "a + b + c"
  have "add_word a b c = Some (if ?t \<ge> WORD_BASE then (?t - WORD_BASE, 1) else (?t, 0))"
    using assms by (simp add: add_word_def uadd_def)
  then show thesis
    using that[of "?t - WORD_BASE" 1] that[of ?t 0] by (cases "?t \<ge> WORD_BASE") auto
qed

lemma word_product:
  assumes "x < WORD_BASE" "y < WORD_BASE"
  shows "x * y div WORD_BASE + 1 < WORD_BASE" "x * y - x * y div WORD_BASE * WORD_BASE < WORD_BASE"
    "x * y div WORD_BASE mod 2 ^ 32 = x * y div WORD_BASE"
proof -
  have "x * y \<le> (WORD_BASE - 1) * (WORD_BASE - 1)" using assms by (intro mult_le_mono) auto
  then have "x * y div WORD_BASE \<le> (WORD_BASE - 1) * (WORD_BASE - 1) div WORD_BASE" by (rule div_le_mono)
  also have "\<dots> = WORD_BASE - 2" by (simp add: WORD_BASE_def)
  finally have le: "x * y div WORD_BASE \<le> WORD_BASE - 2" .
  then show "x * y div WORD_BASE + 1 < WORD_BASE" by (simp add: WORD_BASE_def)
  show "x * y div WORD_BASE mod 2 ^ 32 = x * y div WORD_BASE" using le by (simp add: WORD_BASE_def)
  show "x * y - x * y div WORD_BASE * WORD_BASE < WORD_BASE" by (simp add: minus_div_mult_eq_mod)
qed

text \<open>The same with a bound of its own for every word.\<close>

definition stairs :: "(nat \<Rightarrow> nat) \<Rightarrow> nat list \<Rightarrow> bool" where
  "stairs k ws \<longleftrightarrow> (\<forall>i<length ws. ws ! i \<le> k i)"

lemma stairs_simps [simp]:
  "stairs k []" "stairs k (ws @ [w]) \<longleftrightarrow> stairs k ws \<and> w \<le> k (length ws)"
  by (auto simp: stairs_def nth_append less_Suc_eq)

lemma stairs_Cons: "stairs k (w # ws) \<longleftrightarrow> w \<le> k 0 \<and> stairs (\<lambda>i. k (Suc i)) ws"
  by (auto simp: stairs_def nth_Cons split: nat.splits)

lemma stairs_const: "stairs (\<lambda>_. K) ws \<longleftrightarrow> words_le K ws"
  by (auto simp: stairs_def words_le_def all_set_conv_all_nth)

lemma stairs_words_le: "stairs k ws \<Longrightarrow> (\<And>i. i < length ws \<Longrightarrow> k i \<le> K) \<Longrightarrow> words_le K ws"
  unfolding stairs_const[symmetric] by (force simp: stairs_def)

lemma mul_row_stairs:
  assumes x: "x < WORD_BASE" and rs: "below WORD_BASE rs"
  shows "length pre = q \<Longrightarrow> length old = r \<Longrightarrow> r \<le> length rs \<Longrightarrow> stairs k old \<Longrightarrow> c < WORD_BASE \<Longrightarrow>
    (\<And>i. Suc i < r \<Longrightarrow> k i + 2 * (WORD_BASE - 1) < 2 ^ 32) \<Longrightarrow>
    (\<And>i. r = Suc i \<Longrightarrow> k i + (WORD_BASE - 1) + c < 2 ^ 32) \<Longrightarrow>
    \<exists>c' zs. mul_row x rs r (q + r) c (pre @ old @ post) = Some (q, c', pre @ zs @ post) \<and>
      length zs = r \<and> stairs (\<lambda>i. k i + (WORD_BASE - 1)) zs \<and>
      (\<forall>i. r = Suc i \<longrightarrow> WORD_BASE - 1 \<le> k i \<longrightarrow> last zs \<le> k i + c) \<and> c' < WORD_BASE \<and>
      bval WORD_BASE zs + c' * WORD_BASE ^ r = bval WORD_BASE old + x * bval WORD_BASE (take r rs) + c"
proof (induction r arbitrary: old post c)
  case (Suc r)
  obtain old' w where old: "old = old' @ [w]" "length old' = r" using split_last Suc.prems(2) by blast
  let ?y = "rs ! r" and ?p = "x * rs ! r"
  define hi lo where hl: "hi = ?p div WORD_BASE" "lo = ?p - hi * WORD_BASE"
  have y: "?y < WORD_BASE" "get_at rs r = Some ?y"
    using Suc.prems(3) rs by (simp_all add: below_nth get_at_def)
  note wp = word_product[OF x y(1), folded hl]
  have wK: "w \<le> k r" "stairs k old'" using Suc.prems(4) old by simp_all
  have lt: "w + lo + c < 2 ^ 32" using wK(1) wp(2) Suc.prems(7)[of r] by linarith
  obtain s c1 where s: "add_word w lo c = Some (s, c1)" "s + c1 * WORD_BASE = w + lo + c" "c1 \<le> 1"
    "c1 = 0 \<Longrightarrow> s < WORD_BASE" using add_word_any[OF lt] by metis
  have sc: "s < WORD_BASE \<or> s + WORD_BASE = w + lo + c"
  proof (cases "c1 = 0")
    case False
    then have "c1 = 1" using s(3) by simp
    then show ?thesis using s(2) by simp
  qed (simp add: s(4))
  then have sB: "s \<le> k r + (WORD_BASE - 1)" "WORD_BASE - 1 \<le> k r \<Longrightarrow> s \<le> k r + c"
    using wK(1) wp(2) Suc.prems(5) by linarith+
  have g: "get_at (pre @ old @ post) (q + r) = Some w" "set_at (pre @ old @ post) (q + r) s = Some (pre @ old' @ s # post)"
    using get_at_mid[of "q + r" "pre @ old'" w post] set_at_mid[of "q + r" "pre @ old'" w post s] Suc.prems(1) old by simp_all
  have u: "uadd 32 c1 (hi mod 2 ^ 32) = Some (c1 + hi)" "c1 + hi < WORD_BASE"
    using wp(1,3) s(3) WORD_BASE_u32 by (simp_all add: uadd_def)
  have step: "mul_row x rs (Suc r) (q + Suc r) c (pre @ old @ post) =
      mul_row x rs r (q + r) (c1 + hi) (pre @ old' @ s # post)"
    using g s(1) u(1) y(2) by (simp add: Let_def flip: hl)
  have r: "r \<le> length rs" using Suc.prems(3) by simp
  have k: "\<And>i. Suc i < r \<Longrightarrow> k i + 2 * (WORD_BASE - 1) < 2 ^ 32"
    "\<And>i. r = Suc i \<Longrightarrow> k i + (WORD_BASE - 1) + (c1 + hi) < 2 ^ 32"
    using Suc.prems(6) u(2) by (fastforce, fastforce)
  obtain c' zs where IH: "mul_row x rs r (q + r) (c1 + hi) (pre @ old' @ s # post) = Some (q, c', pre @ zs @ s # post)"
      "length zs = r" "stairs (\<lambda>i. k i + (WORD_BASE - 1)) zs" "c' < WORD_BASE"
      "bval WORD_BASE zs + c' * WORD_BASE ^ r = bval WORD_BASE old' + x * bval WORD_BASE (take r rs) + (c1 + hi)"
    using Suc.IH[OF Suc.prems(1) old(2) r wK(2) u(2) k] by blast
  have "bval WORD_BASE (zs @ [s]) + c' * WORD_BASE ^ Suc r = (bval WORD_BASE zs + c' * WORD_BASE ^ r) * WORD_BASE + s"
    by (simp add: bval_append algebra_simps)
  also have "\<dots> = (bval WORD_BASE old' + x * bval WORD_BASE (take r rs)) * WORD_BASE + hi * WORD_BASE + (s + c1 * WORD_BASE)"
    unfolding IH(5) by (simp add: algebra_simps)
  also have "\<dots> = (bval WORD_BASE old' + x * bval WORD_BASE (take r rs)) * WORD_BASE + (hi * WORD_BASE + lo) + w + c"
    unfolding s(2) by (simp add: algebra_simps)
  also have "hi * WORD_BASE + lo = ?p" by (simp add: hl)
  also have "(bval WORD_BASE old' + x * bval WORD_BASE (take r rs)) * WORD_BASE + ?p + w + c =
      bval WORD_BASE old + x * bval WORD_BASE (take (Suc r) rs) + c"
    using Suc.prems(3) old by (simp add: take_Suc_conv_app_nth bval_append algebra_simps)
  finally show ?case using step IH sB by (intro exI[of _ c'] exI[of _ "zs @ [s]"]) simp
qed simp

lemma mul_row_ok:
  assumes x: "x < WORD_BASE" and rs: "below WORD_BASE rs" and K: "K + 2 * (WORD_BASE - 1) < 2 ^ 32"
    and "length pre = q" "length old = r" "r \<le> length rs" "words_le K old" "c < WORD_BASE"
  shows "\<exists>c' zs. mul_row x rs r (q + r) c (pre @ old @ post) = Some (q, c', pre @ zs @ post) \<and>
      length zs = r \<and> words_le (K + (WORD_BASE - 1)) zs \<and> c' < WORD_BASE \<and>
      bval WORD_BASE zs + c' * WORD_BASE ^ r = bval WORD_BASE old + x * bval WORD_BASE (take r rs) + c"
proof -
  have "K + (WORD_BASE - 1) + c < 2 ^ 32" using K assms(8) by linarith
  then show ?thesis
    using mul_row_stairs[OF x rs assms(4-6), of "\<lambda>_. K" c post] assms(7,8) K unfolding stairs_const by blast
qed

lemma mul_carry_ok:
  assumes K: "K + WORD_BASE \<le> 2 ^ 32" "WORD_BASE - 1 \<le> K"
  shows "length pre = q \<Longrightarrow> words_le K pre \<Longrightarrow> c < WORD_BASE \<Longrightarrow>
    (\<exists>zs. mul_carry q c (pre @ post) = Some (Inr (zs @ post)) \<and> length zs = q \<and> words_le K zs \<and>
       bval WORD_BASE zs = bval WORD_BASE pre + c) \<or>
    (\<exists>b. mul_carry q c (pre @ post) = Some (Inl b) \<and> WORD_BASE ^ q \<le> bval WORD_BASE pre + c)"
proof (induction q arbitrary: pre c post)
  case 0
  then show ?case by (cases "c = 0") auto
next
  case (Suc q)
  obtain p w where p: "pre = p @ [w]" "length p = q" using split_last Suc.prems(1) by blast
  show ?case
  proof (cases "c = 0")
    case True
    then show ?thesis using Suc.prems by auto
  next
    case False
    have wK: "w \<le> K" "words_le K p" using Suc.prems(2) p by simp_all
    have lt: "w + 0 + c < 2 ^ 32" using wK(1) Suc.prems(3) K(1) by linarith
    obtain s c1 where s: "add_word w 0 c = Some (s, c1)" "s + c1 * WORD_BASE = w + 0 + c" "c1 \<le> 1"
      "c1 = 0 \<Longrightarrow> s < WORD_BASE" using add_word_any[OF lt] by metis
    have sK: "s \<le> K"
    proof (cases "c1 = 0")
      case True
      then show ?thesis using s(4) K(2) by simp
    next
      case c1: False
      then have "c1 = 1" using s(3) by simp
      then show ?thesis using s(2) wK(1) Suc.prems(3) by simp
    qed
    have g: "get_at (pre @ post) q = Some w" "set_at (pre @ post) q s = Some (p @ s # post)"
      using get_at_mid[of q p w post] set_at_mid[of q p w post s] p by simp_all
    have step: "mul_carry (Suc q) c (pre @ post) = mul_carry q c1 (p @ s # post)" using g s(1) False by simp
    have c1: "c1 < WORD_BASE" using s(3) WORD_BASE_u32(3) by linarith
    have b: "bval WORD_BASE pre + c = bval WORD_BASE p * WORD_BASE + (s + c1 * WORD_BASE)"
      unfolding s(2) by (simp add: p bval_append)
    from Suc.IH[OF p(2) wK(2) c1, of "s # post"] show ?thesis
    proof
      assume "\<exists>zs. mul_carry q c1 (p @ s # post) = Some (Inr (zs @ s # post)) \<and> length zs = q \<and> words_le K zs \<and>
         bval WORD_BASE zs = bval WORD_BASE p + c1"
      then obtain zs where "mul_carry q c1 (p @ s # post) = Some (Inr (zs @ s # post))" "length zs = q" "words_le K zs"
        "bval WORD_BASE zs = bval WORD_BASE p + c1" by blast
      then show ?thesis using step sK b
        by (intro disjI1 exI[of _ "zs @ [s]"]) (simp add: bval_append algebra_simps)
    next
      assume "\<exists>b. mul_carry q c1 (p @ s # post) = Some (Inl b) \<and> WORD_BASE ^ q \<le> bval WORD_BASE p + c1"
      then obtain bb where bb: "mul_carry q c1 (p @ s # post) = Some (Inl bb)" "WORD_BASE ^ q \<le> bval WORD_BASE p + c1" by blast
      have "WORD_BASE ^ q * WORD_BASE \<le> (bval WORD_BASE p + c1) * WORD_BASE" using bb(2) by (rule mult_le_mono1)
      then have "WORD_BASE ^ Suc q \<le> bval WORD_BASE pre + c" unfolding b by (simp add: algebra_simps)
      then show ?thesis using step bb(1) by simp
    qed
  qed
qed

text \<open>One row of the product, with its carry.\<close>

lemma mul_one_row:
  assumes x: "x < WORD_BASE" and rs: "below WORD_BASE rs" and r: "r \<le> length rs" "r \<le> t"
    and hs: "length hs = t" "words_le K hs" and K: "K + 2 * (WORD_BASE - 1) < 2 ^ 32"
  obtains
    (fits) i c b zs where "mul_row x rs r t 0 (hs @ qs) = Some (i, c, b)" "mul_carry i c b = Some (Inr (zs @ qs))"
      "length zs = t" "words_le (K + (WORD_BASE - 1)) zs"
      "bval WORD_BASE zs = bval WORD_BASE hs + x * bval WORD_BASE (take r rs)"
  | (over) i c b b' where "mul_row x rs r t 0 (hs @ qs) = Some (i, c, b)" "mul_carry i c b = Some (Inl b')"
      "WORD_BASE ^ t \<le> bval WORD_BASE hs + x * bval WORD_BASE (take r rs)"
proof -
  define pre old where po: "pre = take (t - r) hs" "old = drop (t - r) hs"
  have hs': "hs = pre @ old" "length pre = t - r" "length old = r" "words_le K pre" "words_le K old"
    using hs r(2) words_le_take_drop by (simp_all add: po)
  have t: "t = (t - r) + r" using r(2) by simp
  obtain c zs where row: "mul_row x rs r t 0 (hs @ qs) = Some (t - r, c, pre @ zs @ qs)" "length zs = r"
    "words_le (K + (WORD_BASE - 1)) zs" "c < WORD_BASE"
    "bval WORD_BASE zs + c * WORD_BASE ^ r = bval WORD_BASE old + x * bval WORD_BASE (take r rs) + 0"
    using mul_row_ok[OF x rs K hs'(2,3) r(1) hs'(5), of 0 qs] t hs'(1) by auto
  have v: "bval WORD_BASE hs + x * bval WORD_BASE (take r rs) =
      (bval WORD_BASE pre + c) * WORD_BASE ^ r + bval WORD_BASE zs"
    using row(5) hs'(1,3) by (simp add: bval_append algebra_simps)
  have K': "K + (WORD_BASE - 1) + WORD_BASE \<le> 2 ^ 32" using K WORD_BASE_u32(3) by linarith
  have pw: "WORD_BASE ^ t = WORD_BASE ^ (t - r) * WORD_BASE ^ r" using t by (metis power_add)
  from mul_carry_ok[OF K' le_add2 hs'(2) words_le_mono[OF hs'(4) le_add1] row(4), of "zs @ qs"] show thesis
  proof (elim disjE exE conjE)
    fix ys assume "mul_carry (t - r) c (pre @ zs @ qs) = Some (Inr (ys @ zs @ qs))" "length ys = t - r"
      "words_le (K + (WORD_BASE - 1)) ys" "bval WORD_BASE ys = bval WORD_BASE pre + c"
    then show thesis
      using fits[OF row(1), of "ys @ zs"] row(2,3) v t by (simp add: bval_append)
  next
    fix b assume b: "mul_carry (t - r) c (pre @ zs @ qs) = Some (Inl b)"
      "WORD_BASE ^ (t - r) \<le> bval WORD_BASE pre + c"
    have "WORD_BASE ^ t \<le> (bval WORD_BASE pre + c) * WORD_BASE ^ r"
      unfolding pw using b(2) by (rule mult_le_mono1)
    then show thesis using over[OF row(1) b(1)] v by simp
  qed
qed

lemma mul_rows_ok:
  assumes ls: "below WORD_BASE ls" and rs: "below WORD_BASE rs" and r: "r \<le> length rs" "0 < r"
  shows "l \<le> length ls \<Longrightarrow> r + l \<le> Suc t \<Longrightarrow> length hs = t \<Longrightarrow> words_le K hs \<Longrightarrow>
    K + (l + 1) * (WORD_BASE - 1) < 2 ^ 32 \<Longrightarrow>
    (\<exists>zs. mul_rows ls rs l r t (hs @ qs) = Some (Inr (zs @ qs)) \<and> length zs = t \<and>
       words_le (K + l * (WORD_BASE - 1)) zs \<and>
       bval WORD_BASE zs = bval WORD_BASE hs + bval WORD_BASE (take l ls) * bval WORD_BASE (take r rs)) \<or>
    (\<exists>b. mul_rows ls rs l r t (hs @ qs) = Some (Inl b) \<and>
       WORD_BASE ^ t \<le> bval WORD_BASE hs + bval WORD_BASE (take l ls) * bval WORD_BASE (take r rs))"
proof (induction l arbitrary: t hs qs K)
  case 0
  then show ?case by auto
next
  case (Suc l)
  let ?R = "bval WORD_BASE (take r rs)" and ?L = "bval WORD_BASE (take l ls)" and ?x = "ls ! l"
  have x: "?x < WORD_BASE" "get_at ls l = Some ?x" using ls Suc.prems(1) by (simp_all add: below_nth get_at_def)
  have L: "bval WORD_BASE (take (Suc l) ls) = ?L * WORD_BASE + ?x"
    using Suc.prems(1) by (simp add: take_Suc_conv_app_nth bval_append)
  have tr: "r \<le> t" "\<not> t < r" "usub t 1 = Some (t - 1)" "t = Suc (t - 1)"
    using Suc.prems(2) r(2) by (auto simp: usub_def)
  have "2 * (WORD_BASE - 1) \<le> (Suc l + 1) * (WORD_BASE - 1)" by (intro mult_le_mono1) simp
  then have K2: "K + 2 * (WORD_BASE - 1) < 2 ^ 32" using Suc.prems(5) by linarith
  show ?case
  proof (cases rule: mul_one_row[OF x(1) rs r(1) tr(1) Suc.prems(3,4) K2, of qs, case_names fits over])
    case (over i c b b')
    have "mul_rows ls rs (Suc l) r t (hs @ qs) = Some (Inl b')" using x(2) tr over(1,2) by simp
    moreover have "WORD_BASE ^ t \<le> bval WORD_BASE hs + bval WORD_BASE (take (Suc l) ls) * ?R"
      unfolding L using over(3) by (simp add: algebra_simps)
    ultimately show ?thesis by blast
  next
    case (fits i c b zs)
    obtain ys y where zs: "zs = ys @ [y]" "length ys = t - 1" using split_last[of zs "t - 1"] fits(3) tr(4) by auto
    have st: "mul_rows ls rs (Suc l) r t (hs @ qs) = mul_rows ls rs l r (t - 1) (ys @ y # qs)"
      using x(2) tr fits(1,2) zs by simp
    have uy: "words_le (K + (WORD_BASE - 1)) ys" "y \<le> K + (WORD_BASE - 1)" using fits(4) zs by simp_all
    have "(Suc l + 1) * (WORD_BASE - 1) = (WORD_BASE - 1) + (l + 1) * (WORD_BASE - 1)" by simp
    then have "l \<le> length ls" "r + l \<le> Suc (t - 1)" "K + (WORD_BASE - 1) + (l + 1) * (WORD_BASE - 1) < 2 ^ 32"
      using Suc.prems(1,2,5) tr(4) by linarith+
    note IH = Suc.IH[OF this(1,2) zs(2) uy(1) this(3), of "y # qs"]
    have tot: "(bval WORD_BASE ys + ?L * ?R) * WORD_BASE + y = bval WORD_BASE hs + bval WORD_BASE (take (Suc l) ls) * ?R"
      using fits(5) unfolding L zs(1) by (simp add: bval_append algebra_simps)
    from IH show ?thesis
    proof (elim disjE exE conjE)
      fix us assume us: "mul_rows ls rs l r (t - 1) (ys @ y # qs) = Some (Inr (us @ y # qs))" "length us = t - 1"
        "words_le (K + (WORD_BASE - 1) + l * (WORD_BASE - 1)) us" "bval WORD_BASE us = bval WORD_BASE ys + ?L * ?R"
      have "bval WORD_BASE (us @ [y]) = bval WORD_BASE hs + bval WORD_BASE (take (Suc l) ls) * ?R"
        using tot us(4) by (simp add: bval_append)
      moreover have "words_le (K + Suc l * (WORD_BASE - 1)) (us @ [y])"
        using words_le_mono[OF us(3)] uy(2) by (simp add: add.assoc trans_le_add1)
      moreover have "length (us @ [y]) = t" using us(2) tr(4) by simp
      ultimately show ?thesis using st us(1) by (intro disjI1 exI[of _ "us @ [y]"]) simp
    next
      fix b assume b: "mul_rows ls rs l r (t - 1) (ys @ y # qs) = Some (Inl b)"
        "WORD_BASE ^ (t - 1) \<le> bval WORD_BASE ys + ?L * ?R"
      have "WORD_BASE ^ (t - 1) * WORD_BASE \<le> (bval WORD_BASE ys + ?L * ?R) * WORD_BASE"
        using b(2) by (rule mult_le_mono1)
      moreover have "WORD_BASE ^ t = WORD_BASE ^ (t - 1) * WORD_BASE" using tr(4) by (metis power_Suc2)
      ultimately have "WORD_BASE ^ t \<le> bval WORD_BASE hs + bval WORD_BASE (take (Suc l) ls) * ?R"
        unfolding tot[symmetric] by linarith
      then show ?thesis using st b(1) by auto
    qed
  qed
qed

text \<open>
  When it is the right operand that has few words, the columns are bounded by their distance from
  the carry: every row moves the window of touched words one place up, where the words have
  taken part in one row less.
\<close>

abbreviation step_bound :: "nat \<Rightarrow> nat" where
  "step_bound i \<equiv> (i + 1) * (WORD_BASE - 1)"

lemma mul_carry_fresh:
  assumes "c < WORD_BASE"
  shows "mul_carry q c (zeros q @ post) =
    (if q = 0 then Some (if c > 0 then Inl post else Inr post)
     else Some (Inr (zeros (q - 1) @ c # post)))"
proof (cases q)
  case (Suc n)
  have z: "zeros (Suc n) = zeros n @ [0]" by (simp add: replicate_append_same)
  have "add_word 0 0 c = Some (c, 0)" using assms WORD_BASE_u32 by (simp add: add_word_def uadd_def)
  moreover have "mul_carry n 0 b = Some (Inr b)" for b by (cases n) simp_all
  ultimately show ?thesis
    using get_at_mid[of n "zeros n" 0 post] set_at_mid[of n "zeros n" 0 post c] unfolding Suc z by auto
qed simp

lemma mul_rows_narrow:
  assumes ls: "below WORD_BASE ls" and rs: "below WORD_BASE rs"
    and r: "r \<le> length rs" "0 < r" "(r + 1) * (WORD_BASE - 1) < 2 ^ 32"
  shows "l \<le> length ls \<Longrightarrow> r + l \<le> Suc t \<Longrightarrow> r \<le> t \<Longrightarrow> length win = r \<Longrightarrow> stairs step_bound win \<Longrightarrow>
    (\<exists>zs. mul_rows ls rs l r t (zeros (t - r) @ win @ qs) = Some (Inr (zs @ qs)) \<and> length zs = t \<and>
       words_le (r * (WORD_BASE - 1)) zs \<and>
       bval WORD_BASE zs = bval WORD_BASE win + bval WORD_BASE (take l ls) * bval WORD_BASE (take r rs)) \<or>
    (\<exists>b. mul_rows ls rs l r t (zeros (t - r) @ win @ qs) = Some (Inl b) \<and>
       WORD_BASE ^ t \<le> bval WORD_BASE win + bval WORD_BASE (take l ls) * bval WORD_BASE (take r rs))"
proof (induction l arbitrary: t win qs)
  case 0
  have "words_le (r * (WORD_BASE - 1)) win"
    by (rule stairs_words_le[OF 0(5)]) (use 0(4) in \<open>intro mult_le_mono1, simp\<close>)
  then show ?case using 0 by (intro disjI1 exI[of _ "zeros (t - r) @ win"]) (auto simp: bval_append words_le_def)
next
  case (Suc l)
  let ?R = "bval WORD_BASE (take r rs)" and ?L = "bval WORD_BASE (take l ls)" and ?x = "ls ! l"
  have x: "?x < WORD_BASE" "get_at ls l = Some ?x" using ls Suc.prems(1) by (simp_all add: below_nth get_at_def)
  have L: "bval WORD_BASE (take (Suc l) ls) = ?L * WORD_BASE + ?x"
    using Suc.prems(1) by (simp add: take_Suc_conv_app_nth bval_append)
  have tr: "\<not> t < r" "usub t 1 = Some (t - 1)" "t = Suc (t - 1)" "t - r + r = t"
    using Suc.prems(2,3) r(2) by (auto simp: usub_def)
  have lim: "step_bound i + 2 * (WORD_BASE - 1) < 2 ^ 32" if "Suc i < r" for i
  proof -
    have le: "(i + 3) * (WORD_BASE - 1) \<le> (r + 1) * (WORD_BASE - 1)" using that by (intro mult_le_mono1) simp
    have e: "i + 3 = i + 1 + 2" by simp
    have "(i + 3) * (WORD_BASE - 1) = step_bound i + 2 * (WORD_BASE - 1)" unfolding e add_mult_distrib by (rule refl)
    then show ?thesis using le r(3) by linarith
  qed
  have lim0: "step_bound i + (WORD_BASE - 1) + 0 < 2 ^ 32" if "r = Suc i" for i
  proof -
    have "(r + 1) * (WORD_BASE - 1) = step_bound i + (WORD_BASE - 1)" using that by simp
    then show ?thesis using r(3) by linarith
  qed
  obtain c zs where row: "mul_row ?x rs r t 0 (zeros (t - r) @ win @ qs) = Some (t - r, c, zeros (t - r) @ zs @ qs)"
    "length zs = r" "stairs (\<lambda>i. step_bound i + (WORD_BASE - 1)) zs"
    "\<forall>i. r = Suc i \<longrightarrow> WORD_BASE - 1 \<le> step_bound i \<longrightarrow> last zs \<le> step_bound i + 0" "c < WORD_BASE"
    "bval WORD_BASE zs + c * WORD_BASE ^ r = bval WORD_BASE win + ?x * ?R + 0"
    using mul_row_stairs[OF x(1) rs _ Suc.prems(4) r(1) Suc.prems(5) _ lim lim0, of "zeros (t - r)" "t - r" qs]
    unfolding tr(4) by auto
  obtain ys y where zs: "zs = ys @ [y]" "length ys = r - 1" using split_last[of zs "r - 1"] row(2) r(2) by auto
  have yB: "y \<le> r * (WORD_BASE - 1)" using row(4) zs r(2) by (cases r) auto
  have "(\<lambda>i. step_bound i + (WORD_BASE - 1)) = (\<lambda>i. step_bound (Suc i))"
    by (simp only: add_Suc mult_Suc add.commute[of "WORD_BASE - 1"])
  then have ysB: "stairs (\<lambda>i. step_bound (Suc i)) ys" using row(3) zs by (simp del: mult_Suc)
  have val: "bval WORD_BASE (c # ys) * WORD_BASE + y + ?L * WORD_BASE * ?R =
      bval WORD_BASE win + bval WORD_BASE (take (Suc l) ls) * ?R"
    using row(6) zs r(2) unfolding L by (cases r) (simp_all add: bval_append algebra_simps)
  show ?case
  proof (cases "t = r")
    case True
    then have l: "l = 0" using Suc.prems(2) r(2) by simp
    have st: "mul_rows ls rs (Suc l) r t (zeros (t - r) @ win @ qs) = Some (if c > 0 then Inl (zs @ qs) else Inr (zs @ qs))"
      using x(2) tr row(1) True l by (simp add: mul_carry_fresh[OF row(5), of 0, simplified])
    show ?thesis
    proof (cases "c = 0")
      case c0: True
      have "words_le (r * (WORD_BASE - 1)) ys"
        by (rule stairs_words_le[OF ysB]) (use zs(2) in \<open>intro mult_le_mono1, simp\<close>)
      then show ?thesis using st c0 yB row(2,6) True l x L zs(1)
        by (intro disjI1 exI[of _ zs]) simp
    next
      case False
      then have "1 * WORD_BASE ^ r \<le> c * WORD_BASE ^ r" by (intro mult_le_mono1) simp
      then have "WORD_BASE ^ t \<le> bval WORD_BASE win + ?x * ?R" unfolding True using row(6) by linarith
      moreover have "bval WORD_BASE (take (Suc l) ls) = ?x" using L l by simp
      ultimately show ?thesis using st False by auto
    qed
  next
    case False
    then have lt: "r \<le> t - 1" "r + l \<le> Suc (t - 1)" "l \<le> length ls" "t - r \<noteq> 0" "t - r - 1 = t - 1 - r"
      using Suc.prems(1-3) by auto
    have st: "mul_rows ls rs (Suc l) r t (zeros (t - r) @ win @ qs) =
        mul_rows ls rs l r (t - 1) (zeros (t - 1 - r) @ (c # ys) @ y # qs)"
      using x(2) tr row(1) mul_carry_fresh[OF row(5), of "t - r" "zs @ qs"] lt(4) by (simp add: zs(1))
    have w: "length (c # ys) = r" "stairs step_bound (c # ys)"
      using zs(2) r(2) row(5) ysB by (auto simp: stairs_Cons)
    from Suc.IH[OF lt(3,2,1) w, of "y # qs"] show ?thesis
    proof (elim disjE exE conjE)
      fix us assume us: "mul_rows ls rs l r (t - 1) (zeros (t - 1 - r) @ (c # ys) @ y # qs) = Some (Inr (us @ y # qs))"
        "length us = t - 1" "words_le (r * (WORD_BASE - 1)) us" "bval WORD_BASE us = bval WORD_BASE (c # ys) + ?L * ?R"
      have "bval WORD_BASE (us @ [y]) = (bval WORD_BASE (c # ys) + ?L * ?R) * WORD_BASE + y"
        unfolding us(4)[symmetric] by (simp add: bval_append)
      also have "\<dots> = bval WORD_BASE win + bval WORD_BASE (take (Suc l) ls) * ?R"
        unfolding val[symmetric] by (simp only: algebra_simps)
      finally show ?thesis using st us(1-3) yB tr(3) by (intro disjI1 exI[of _ "us @ [y]"]) simp
    next
      fix b assume b: "mul_rows ls rs l r (t - 1) (zeros (t - 1 - r) @ (c # ys) @ y # qs) = Some (Inl b)"
        "WORD_BASE ^ (t - 1) \<le> bval WORD_BASE (c # ys) + ?L * ?R"
      have "WORD_BASE ^ (t - 1) * WORD_BASE \<le> (bval WORD_BASE (c # ys) + ?L * ?R) * WORD_BASE"
        using b(2) by (rule mult_le_mono1)
      also have "\<dots> \<le> bval WORD_BASE win + bval WORD_BASE (take (Suc l) ls) * ?R"
        unfolding val[symmetric] by (simp add: algebra_simps)
      finally have "WORD_BASE ^ t \<le> bval WORD_BASE win + bval WORD_BASE (take (Suc l) ls) * ?R"
        using tr(3) by (metis power_Suc2)
      then show ?thesis using st b(1) by auto
    qed
  qed
qed

text \<open>Either operand may be the one with few words.\<close>

lemma mul_rows_few:
  assumes ls: "below WORD_BASE ls" and rs: "below WORD_BASE rs"
    and l: "l \<le> length ls" "0 < l" and r: "r \<le> length rs" "0 < r" and t: "r + l \<le> Suc t"
    and few: "l \<le> 3 \<or> r \<le> 3"
    and room: "bval WORD_BASE (take l ls) * bval WORD_BASE (take r rs) < WORD_BASE ^ t"
  obtains zs where "mul_rows ls rs l r t (zeros t @ qs) = Some (Inr (zs @ qs))" "length zs = t"
    "l = 1 \<or> r = 1 \<Longrightarrow> below WORD_BASE zs"
    "bval WORD_BASE zs = bval WORD_BASE (take l ls) * bval WORD_BASE (take r rs)"
proof -
  have below1: "below WORD_BASE zs" if "words_le (WORD_BASE - 1) zs" for zs
    using that by (fastforce simp: words_le_def below_def WORD_BASE_def)
  have narrow: "\<exists>zs. mul_rows ls rs l r t (zeros t @ qs) = Some (Inr (zs @ qs)) \<and> length zs = t \<and>
      words_le (r * (WORD_BASE - 1)) zs \<and>
      bval WORD_BASE zs = bval WORD_BASE (take l ls) * bval WORD_BASE (take r rs)" if "r \<le> 3"
  proof -
    have "(r + 1) * (WORD_BASE - 1) \<le> 4 * (WORD_BASE - 1)" using that by (intro mult_le_mono1) simp
    then have K: "(r + 1) * (WORD_BASE - 1) < 2 ^ 32" by (simp add: WORD_BASE_def)
    have rt: "r \<le> t" "zeros t = zeros (t - r) @ zeros r" "stairs step_bound (zeros r)"
      using t l(2) by (simp_all flip: replicate_add add: stairs_def)
    show ?thesis
      using mul_rows_narrow[OF ls rs r K l(1) t rt(1) _ rt(3), of qs] room unfolding rt(2) by auto
  qed
  have wide: "\<exists>zs. mul_rows ls rs l r t (zeros t @ qs) = Some (Inr (zs @ qs)) \<and> length zs = t \<and>
      words_le (l * (WORD_BASE - 1)) zs \<and>
      bval WORD_BASE zs = bval WORD_BASE (take l ls) * bval WORD_BASE (take r rs)" if "l \<le> 3"
  proof -
    have "(l + 1) * (WORD_BASE - 1) \<le> 4 * (WORD_BASE - 1)" using that by (intro mult_le_mono1) simp
    then have K: "0 + (l + 1) * (WORD_BASE - 1) < 2 ^ 32" by (simp add: WORD_BASE_def)
    have "words_le 0 (zeros t)" by (simp add: words_le_def)
    then show ?thesis using mul_rows_ok[OF ls rs r l(1) t _ _ K, of "zeros t" qs] room by auto
  qed
  show thesis
  proof (cases "l = 1 \<or> (l \<le> 3 \<and> r \<noteq> 1)")
    case True
    then have "l \<le> 3" by auto
    from wide[OF this] obtain zs where "mul_rows ls rs l r t (zeros t @ qs) = Some (Inr (zs @ qs))" "length zs = t"
      "words_le (l * (WORD_BASE - 1)) zs"
      "bval WORD_BASE zs = bval WORD_BASE (take l ls) * bval WORD_BASE (take r rs)" by blast
    moreover from this(3) have "below WORD_BASE zs" if "l = 1 \<or> r = 1" using that True by (intro below1) auto
    ultimately show thesis using that by blast
  next
    case False
    then have "r \<le> 3" using few by auto
    from narrow[OF this] obtain zs where "mul_rows ls rs l r t (zeros t @ qs) = Some (Inr (zs @ qs))" "length zs = t"
      "words_le (r * (WORD_BASE - 1)) zs"
      "bval WORD_BASE zs = bval WORD_BASE (take l ls) * bval WORD_BASE (take r rs)" by blast
    moreover from this(3) have "below WORD_BASE zs" if "l = 1 \<or> r = 1" using that False by (intro below1) auto
    ultimately show thesis using that by blast
  qed
qed

lemma zero_up_to_ok:
  "i < stop \<Longrightarrow> stop \<le> length buf \<Longrightarrow>
   zero_up_to buf i stop = Some (\<forall>j. i \<le> j \<and> j < stop \<longrightarrow> buf ! j = 0)"
proof (induction "stop - i" arbitrary: i)
  case (Suc n)
  have split: "(\<forall>j. i \<le> j \<and> j < stop \<longrightarrow> P j) \<longleftrightarrow> P i \<and> (\<forall>j. Suc i \<le> j \<and> j < stop \<longrightarrow> P j)" for P
    using Suc.prems(1) by (metis Suc_le_eq le_eq_less_or_eq)
  show ?case
  proof (cases "Suc i = stop")
    case True
    then show ?thesis using Suc.prems unfolding split by (subst zero_up_to.simps) auto
  next
    case False
    have "n = stop - Suc i" "Suc i < stop" using Suc.hyps(2) Suc.prems(1) False by auto
    with Suc.hyps(1)[OF this Suc.prems(2)] Suc.prems False show ?thesis
      unfolding split by (subst zero_up_to.simps) auto
  qed
qed simp

lemma strip_lead_ok:
  "i < length buf \<Longrightarrow> i + n \<le> length buf \<Longrightarrow> n \<le> m \<Longrightarrow>
   \<exists>j. strip_lead buf i (n * 9) m = Some (i + j, (n - j) * 9, m - j) \<and> (0 < n \<longrightarrow> j < n) \<and>
     (n = 0 \<longrightarrow> j = 0) \<and> (\<forall>k. i \<le> k \<and> k < i + j \<longrightarrow> buf ! k = 0)"
proof (induction n arbitrary: i m)
  case 0
  then show ?case by (intro exI[of _ 0]) (subst strip_lead.simps, simp)
next
  case (Suc n)
  show ?case
  proof (cases "buf ! i = 0 \<and> 0 < n")
    case True
    have u: "usub m 1 = Some (m - 1)" using Suc.prems(3) by (simp add: usub_def)
    have st: "strip_lead buf i (Suc n * 9) m = strip_lead buf (Suc i) (n * 9) (m - 1)"
      using True Suc.prems(1) u by (subst strip_lead.simps) (simp add: usub_def)
    have "Suc i < length buf" "Suc i + n \<le> length buf" "n \<le> m - 1" using Suc.prems True by auto
    from Suc.IH[OF this] obtain j where j: "strip_lead buf (Suc i) (n * 9) (m - 1) = Some (Suc i + j, (n - j) * 9, m - 1 - j)"
      "j < n" "\<forall>k. Suc i \<le> k \<and> k < Suc i + j \<longrightarrow> buf ! k = 0" using True by blast
    have "\<forall>k. i \<le> k \<and> k < i + Suc j \<longrightarrow> buf ! k = 0" using j(3) True by (metis Suc_leI add_Suc add_Suc_right le_eq_less_or_eq)
    then show ?thesis using st j by (intro exI[of _ "Suc j"]) simp
  next
    case False
    then have "strip_lead buf i (Suc n * 9) m = Some (i, Suc n * 9, m)"
      using Suc.prems(1) by (subst strip_lead.simps) auto
    then show ?thesis by (intro exI[of _ 0]) simp
  qed
qed

lemma move_words_ok:
  "c + j + n \<le> length buf \<Longrightarrow>
   move_words n c (c + j) buf = Some (take c buf @ take n (drop (c + j) buf) @ drop (c + n) buf)"
proof (induction n arbitrary: c buf)
  case (Suc n)
  let ?b = "buf[c := buf ! (c + j)]"
  have l: "c + j < length buf" "c < length buf" using Suc.prems by auto
  have st: "move_words (Suc n) c (c + j) buf = move_words n (Suc c) (Suc c + j) ?b"
    using l by (simp add: get_at_def set_at_def)
  have "move_words n (Suc c) (Suc c + j) ?b = Some (take (Suc c) ?b @ take n (drop (Suc c + j) ?b) @ drop (Suc c + n) ?b)"
    using Suc.IH[of "Suc c" ?b] Suc.prems by simp
  moreover have "take (Suc c) ?b = take c buf @ [buf ! (c + j)]" using l by (simp add: take_Suc_conv_app_nth)
  moreover have "drop (Suc c + j) ?b = drop (Suc c + j) buf" "drop (Suc c + n) ?b = drop (Suc c + n) buf" by simp_all
  moreover have "take (Suc n) (drop (c + j) buf) = buf ! (c + j) # take n (drop (Suc c + j) buf)"
    using l by (metis Cons_nth_drop_Suc add_Suc take_Suc_Cons)
  ultimately show ?case unfolding st by simp
qed simp

lemma mul_normalize_ok:
  assumes "length (word_buf d) = 9" "int_cnt d = iw * 9" "iw + frac_words d \<le> 9" "0 < iw + frac_words d"
  obtains d' where "mul_normalize d iw = Some d'" "mag d' = mag d" "negative d' = negative d"
    "frac_cnt d' = frac_cnt d" "below WORD_BASE (word_buf d) \<Longrightarrow> dec_ok d'"
proof -
  let ?b = "word_buf d" and ?f = "frac_words d"
  obtain j where j: "strip_lead ?b 0 (iw * 9) (iw + ?f) = Some (j, (iw - j) * 9, iw + ?f - j)"
    "0 < iw \<longrightarrow> j < iw" "iw = 0 \<longrightarrow> j = 0" "\<forall>k. 0 \<le> k \<and> k < j \<longrightarrow> ?b ! k = 0"
    using strip_lead_ok[of 0 ?b iw "iw + ?f"] assms by auto
  have jl: "j \<le> iw" using j(2,3) by auto
  define b' where "b' = take (iw + ?f - j) (drop j ?b) @ drop (iw + ?f - j) ?b"
  have mv: "(if j > 0 then move_words (iw + ?f - j) 0 j ?b else Some ?b) = Some b'"
    using move_words_ok[of 0 j "iw + ?f - j" ?b] assms(1,3) jl by (simp add: b'_def)
  let ?d = "d\<lparr>int_cnt := (iw - j) * 9, word_buf := b'\<rparr>"
  have run: "mul_normalize d iw = Some ?d" using j(1) mv assms(2) by (simp add: mul_normalize_def)
  have w: "int_words ?d = iw - j" "int_words d = iw" "frac_words ?d = ?f"
    using assms(2,3) by simp_all
  have e: "iw - j + ?f = iw + ?f - j" using jl by simp
  have "take (iw + ?f) ?b = take j ?b @ take (iw + ?f - j) (drop j ?b)"
    using take_add[of j "iw + ?f - j" ?b] jl by simp
  also have "take j ?b = zeros j" using seg_zeros[OF j(4)] assms jl by simp
  finally have "bval WORD_BASE (take (iw + ?f) ?b) = bval WORD_BASE (take (iw + ?f - j) b')"
    using assms jl by (simp add: bval_append b'_def)
  then have m: "mag ?d = mag d" unfolding mag_def used_def w e by simp
  have l9: "length b' = 9" using assms(1,3) jl by (simp add: b'_def)
  have "dec_ok ?d" if "below WORD_BASE ?b"
  proof -
    have "below WORD_BASE b'" using that unfolding b'_def by (auto intro!: below_take below_drop)
    moreover have "0 < (iw - j) * 9 + frac_cnt d" using assms(4) j(2,3) by auto
    ultimately show ?thesis unfolding dec_ok_def w using l9 assms(3) jl by simp
  qed
  with run m show thesis using that by simp
qed

section \<open>\<open>do_mul\<close>, verified\<close>

text \<open>A decimal whose leading word has no digits above the counted ones.\<close>

definition lead_ok :: "decimal \<Rightarrow> bool" where
  "lead_ok d \<longleftrightarrow> mag d < 10 ^ int_cnt d"

lemma word_cnt_sum: "a + b \<le> 81 \<Longrightarrow> word_cnt a + word_cnt b \<le> Suc (word_cnt (a + b))"
  by (simp add: word_cnt_def)

lemma pow_word_cnt: "n \<le> 81 \<Longrightarrow> (10 :: rat) ^ n \<le> of_nat WORD_BASE ^ word_cnt n"
proof -
  assume n: "n \<le> 81"
  then have "n \<le> 9 * word_cnt n" using word_cnt_ge[of n] by (auto simp: word_cnt_def)
  then have "(10 :: rat) ^ n \<le> 10 ^ (9 * word_cnt n)" by (intro power_increasing) simp_all
  also have "\<dots> = of_nat WORD_BASE ^ word_cnt n" by (simp add: power_mult WORD_BASE_def)
  finally show ?thesis .
qed

lemma product_room:
  assumes "dec_ok l" "dec_ok r" "lead_ok l" "lead_ok r" "int_cnt l + int_cnt r \<le> 81"
  shows "bval WORD_BASE (used l) * bval WORD_BASE (used r) <
    WORD_BASE ^ (word_cnt (int_cnt l + int_cnt r) + (frac_words l + frac_words r))"
proof -
  let ?B = "of_nat WORD_BASE :: rat"
  have "mag l * mag r < 10 ^ int_cnt l * 10 ^ int_cnt r"
    using assms(3,4) mag_nonneg[of l] mag_nonneg[of r] unfolding lead_ok_def by (intro mult_strict_mono') simp_all
  also have "\<dots> \<le> ?B ^ word_cnt (int_cnt l + int_cnt r)"
    using pow_word_cnt[OF assms(5)] by (simp add: power_add)
  finally have lt: "mag l * mag r < ?B ^ word_cnt (int_cnt l + int_cnt r)" .
  have "of_nat (bval WORD_BASE (used l) * bval WORD_BASE (used r)) = (mag l * mag r) * ?B ^ (frac_words l + frac_words r)"
    by (simp add: power_add flip: mag_mult)
  also have "\<dots> < ?B ^ word_cnt (int_cnt l + int_cnt r) * ?B ^ (frac_words l + frac_words r)"
    using lt by (intro mult_strict_right_mono) simp_all
  finally show ?thesis by (metis of_nat_less_iff of_nat_power power_add)
qed

lemma do_mul_ok:
  assumes l: "dec_ok l" "lead_ok l" and r: "dec_ok r" "lead_ok r"
    and few: "int_words l + frac_words l \<le> 3 \<or> int_words r + frac_words r \<le> 3"
    and fits: "word_cnt (int_cnt l + int_cnt r) + (frac_words l + frac_words r) \<le> 9"
    and fw: "word_cnt (min (frac_cnt l + frac_cnt r) 31) = frac_words l + frac_words r"
    and rfc: "result_frac_cnt l + result_frac_cnt r < 256"
  shows "\<exists>d. do_mul l r = Some (Ok d) \<and> dec_value d = dec_value l * dec_value r \<and>
    (int_words l + frac_words l = 1 \<or> int_words r + frac_words r = 1 \<longrightarrow> dec_ok d)"
proof -
  define I F where IF: "I = word_cnt (int_cnt l + int_cnt r)" "F = frac_words l + frac_words r"
  define L R where LR: "L = int_words l + frac_words l" "R = int_words r + frac_words r"
  note lok = dec_okD[OF l(1)] and rok = dec_okD[OF r(1)]
  have ic: "int_cnt l + int_cnt r \<le> 81" using fits word_cnt_less[of "int_cnt l + int_cnt r"] by simp
  have N: "I + F \<le> 9" "0 < I + F" using fits lok(4) rok(4) IF word_cnt_pos by auto
  have RL: "R + L \<le> Suc (I + F)" using word_cnt_sum[OF ic] by (simp add: IF LR)
  have fcs: "frac_cnt l + frac_cnt r < 256"
    using word_cnt_less[of "frac_cnt l"] word_cnt_less[of "frac_cnt r"] lok(3) rok(3) by simp
  have u: "uadd 8 (int_cnt l) (int_cnt r) = Some (int_cnt l + int_cnt r)"
    "uadd 8 (frac_cnt l) (frac_cnt r) = Some (frac_cnt l + frac_cnt r)"
    "uadd 8 (result_frac_cnt l) (result_frac_cnt r) = Some (result_frac_cnt l + result_frac_cnt r)"
    using ic fcs rfc by (simp_all add: uadd_def)
  define dec where "dec = (new_dec (I * DIGITS_PER_WORD) (min (frac_cnt l + frac_cnt r) NOT_FIXED_DEC) (negative l \<noteq> negative r))
      \<lparr>result_frac_cnt := min (result_frac_cnt l + result_frac_cnt r) MAX_FRACTION\<rparr>"
  have sz: "fix_word_cnt_err I F 9 = Ok (I, F)" using N by (simp add: fix_word_cnt_err_def)
  have cl: "clamp_words (int (int_words r) + int (frac_words r)) = R" "clamp_words (int (int_words l) + int (frac_words l)) = L"
    using lok(3) rok(3) LR by (simp_all add: clamp_words_def nat_add_distrib)
  have z9: "zeros 9 = zeros (I + F) @ zeros (9 - (I + F))" using N by (simp flip: replicate_add)
  have tk: "take L (word_buf l) = used l" "take R (word_buf r) = used r" by (simp_all add: LR used_def)
  have le: "L \<le> length (word_buf l)" "0 < L" "R \<le> length (word_buf r)" "0 < R" using lok rok LR by auto
  have room: "bval WORD_BASE (take L (word_buf l)) * bval WORD_BASE (take R (word_buf r)) < WORD_BASE ^ (I + F)"
    unfolding tk using product_room[OF l(1) r(1) l(2) r(2) ic, folded IF] .
  obtain zs where zs: "mul_rows (word_buf l) (word_buf r) L R (I + F) (zeros 9) = Some (Inr (zs @ zeros (9 - (I + F))))"
    "length zs = I + F" "L = 1 \<or> R = 1 \<Longrightarrow> below WORD_BASE zs"
    "bval WORD_BASE zs = bval WORD_BASE (used l) * bval WORD_BASE (used r)"
    unfolding z9
    using mul_rows_few[OF lok(2) rok(2) le RL few[folded LR] room, of "zeros (9 - (I + F))", unfolded tk] by blast
  define d1 where "d1 = dec\<lparr>word_buf := zs @ zeros (9 - (I + F))\<rparr>"
  have w1: "int_words d1 = I" "frac_words d1 = F" "int_cnt d1 = I * 9"
    using N fw IF(2) by (simp_all add: d1_def dec_def new_dec_def)
  have "word_buf d1 = zs @ zeros (9 - (I + F))" by (simp add: d1_def)
  then have u1: "used d1 = zs" unfolding used_def w1(1,2) by (simp add: zs(2))
  have m1: "mag d1 = mag l * mag r"
  proof -
    show ?thesis unfolding mag_def[of d1] u1 w1 zs(4) by (simp add: mag_def IF power_add)
  qed
  have neg1: "negative d1 = (negative l \<noteq> negative r)" by (simp add: d1_def dec_def new_dec_def)
  have zu: "zero_up_to (word_buf d1) 0 (I + F) = Some (mag d1 = 0)"
  proof -
    have "zero_up_to (word_buf d1) 0 (I + F) = Some (\<forall>j. 0 \<le> j \<and> j < I + F \<longrightarrow> word_buf d1 ! j = 0)"
      using zero_up_to_ok[of 0 "I + F" "word_buf d1"] N zs(2) by (simp add: d1_def)
    moreover have "(\<forall>j. 0 \<le> j \<and> j < I + F \<longrightarrow> word_buf d1 ! j = 0) \<longleftrightarrow> (\<forall>w\<in>set zs. w = 0)"
      using zs(2) by (auto simp: d1_def nth_append all_set_conv_all_nth)
    ultimately show ?thesis by (simp add: mag_zero_iff u1)
  qed
  have run: "do_mul l r = do {
      z \<leftarrow> (if negative d1 then zero_up_to (word_buf d1) 0 (I + F) else Some False);
      d \<leftarrow> mul_normalize (if z then zero_dec else d1) I; Some (Ok d) }"
    using zs(1) unfolding do_mul_def u bind.bind_lunit Let_def prod.case IF(1)[symmetric] IF(2)[symmetric] d1_def dec_def
    by (simp add: sz cl new_dec_def)
  show ?thesis
  proof (cases "negative d1 \<and> mag d1 = 0")
    case True
    have "mul_normalize zero_dec I = Some zero_dec"
      by (simp add: mul_normalize_def zero_dec_def new_dec_def strip_lead.simps)
    then have "do_mul l r = Some (Ok zero_dec)" unfolding run using zu True by simp
    moreover have "dec_value l * dec_value r = 0" using True m1 by (auto simp: dec_value_def)
    ultimately show ?thesis by simp
  next
    case False
    obtain d where d: "mul_normalize d1 I = Some d" "mag d = mag d1" "negative d = negative d1"
      "below WORD_BASE (word_buf d1) \<Longrightarrow> dec_ok d"
    proof -
      have pre: "length (word_buf d1) = 9" "I + frac_words d1 \<le> 9" "0 < I + frac_words d1"
        unfolding w1(2) using N zs(2) by (simp_all add: d1_def)
      show thesis by (rule mul_normalize_ok[OF pre(1) w1(3) pre(2,3)]) (rule that)
    qed
    have "do_mul l r = Some (Ok d)" unfolding run using zu False d(1) by auto
    moreover have "dec_value d = dec_value l * dec_value r"
      using d(2,3) m1 neg1 by (auto simp: dec_value_def)
    moreover have "dec_ok d" if "int_words l + frac_words l = 1 \<or> int_words r + frac_words r = 1"
      by (rule d(4)) (use zs(3) that LR in \<open>simp add: d1_def\<close>)
    ultimately show ?thesis by blast
  qed
qed

section \<open>Properties\<close>

text \<open>
  C5: multiplication is exact when one of the operands is short.  Let one operand, whichever of the
  two, use at most three words; let no leading word hold a digit above the counted ones
  (\<open>lead_ok\<close>); let the integer digits together and all fraction words of both fit in the nine words
  of the buffer, the fraction digits together still need all those fraction words when they are
  capped at 31, and the two \<open>result_frac_cnt\<close> not overflow their byte.  Then \<open>do_mul\<close> does not
  panic and returns \<open>Ok\<close> of a decimal whose value is exactly the product of the values; when
  one operand is a single word the result is well formed too.  (With four words on both sides
  the column sums can overflow: \<open>do_mul_column_overflow\<close>.)\<close>

theorem do_mul_correct:
  assumes "dec_ok l" "lead_ok l" "dec_ok r" "lead_ok r"
    and "int_words l + frac_words l \<le> 3 \<or> int_words r + frac_words r \<le> 3"
    and "word_cnt (int_cnt l + int_cnt r) + (frac_words l + frac_words r) \<le> 9"
    and "word_cnt (min (frac_cnt l + frac_cnt r) 31) = frac_words l + frac_words r"
    and "result_frac_cnt l + result_frac_cnt r < 256"
  shows "\<exists>d. do_mul l r = Some (Ok d) \<and> dec_value d = dec_value l * dec_value r \<and>
    (int_words l + frac_words l = 1 \<or> int_words r + frac_words r = 1 \<longrightarrow> dec_ok d)"
  using assms by (rule do_mul_ok)

theorem do_mul_correct_witness:
  "\<exists>d. do_mul (dec_words 2 1 True [12, 500000000]) (dec_words 10 0 False [3, 7]) = Some (Ok d) \<and>
    dec_value d = - 125 / 10 * 3000000007"
proof -
  let ?l = "dec_words 2 1 True [12, 500000000]" and ?r = "dec_words 10 0 False [3, 7]"
  have "dec_ok ?l" "dec_ok ?r"
    by (simp_all add: dec_ok_def below_def dec_words_defs)
  moreover have m: "mag ?l = 125 / 10" "mag ?r = 3000000007"
    by (simp_all add: mag_def used_def WORD_BASE_def dec_words_defs)
  moreover have "lead_ok ?l" "lead_ok ?r" unfolding lead_ok_def m by (simp_all add: dec_words_defs)
  moreover have "dec_value ?l = - 125 / 10" "dec_value ?r = 3000000007"
    unfolding dec_value_def m by (simp_all add: dec_words_defs)
  ultimately show ?thesis
    using do_mul_correct[of ?l ?r] by (simp add: dec_words_defs)
qed

text \<open>
  Three words are the limit: with four words on both sides the column sum of an inner column
  exceeds 32 bits, and the checked addition of \<open>add\<close> panics.\<close>

lemma do_mul_column_overflow:
  "do_mul (dec_words 36 0 False [999968378, 999968378, 999968378, 999968378])
     (dec_words 36 0 False [999968378, 999968378, 999968378, 999968378]) = None"
  by code_simp

text \<open>
  A product word can reach or exceed the base.  When an inner column receives a low half, a
  high half and a carry, \<open>add\<close> subtracts the base only once; the model shows the product of two
  well-formed two-word integers with the second word 1253345786, past \<open>WORD_BASE\<close>, so the
  result is not a well-formed decimal.\<close>

theorem do_mul_word_past_base:
  "do_mul (dec_words 18 0 False [746654209, 999999999]) (dec_words 18 0 False [999999998, 999999997]) =
    Some (Ok (dec_words 36 0 False [746654208, 1253345786, 760037371, 3])) \<and>
   \<not> dec_ok (dec_words 36 0 False [746654208, 1253345786, 760037371, 3])"
proof
  show "do_mul (dec_words 18 0 False [746654209, 999999999]) (dec_words 18 0 False [999999998, 999999997]) =
    Some (Ok (dec_words 36 0 False [746654208, 1253345786, 760037371, 3]))" by code_simp
qed (simp add: dec_ok_def below_def dec_words_defs WORD_BASE_def)

text \<open>
  The truncated product loses its integer part.  The branch of \<open>do_mul\<close> that drops
  fraction words subtracts the number of integer words from the number of fraction words instead
  of the kept fraction words, so that the operands' fraction words are cut by the wrong amount:
  \<open>10 ^ 27 * 10 ^ 18\<close> with eighteen fraction digits on each side is reported as zero, truncated.\<close>

theorem do_mul_truncated_misaligned:
  "map_option (\<lambda>x. (is_truncated x, dec_value (deref x)))
    (do_mul (dec_words 36 18 False [1, 0, 0, 0, 0, 0]) (dec_words 27 18 False [1, 0, 0, 0, 0])) = Some (True, 0)"
  by code_simp

end
