(* ===== verification/Decimal_Shift.thy ===== *)
theory Decimal_Shift
  imports Decimal_Mul
begin

text \<open>
  Shifting by a power of ten: \<open>digit_bounds\<close>, the two mini shifts and \<open>shift\<close> of
  \<open>src/berolinasql/src/decimal.rs\<close>. Digit positions count from the first digit of the first word;
  \<open>isize\<close> values are integers and the casts back to \<open>u8\<close> and \<open>usize\<close> are written out.
\<close>

section \<open>Loops\<close>

text \<open>\<open>while buf_end > buf_beg && buf[buf_end] == 0\<close>\<close>

function last_nonzero :: "nat list \<Rightarrow> nat \<Rightarrow> nat \<Rightarrow> nat option" where
  "last_nonzero buf buf_beg buf_end =
     (if buf_end > buf_beg
      then do {
        w \<leftarrow> get_at buf buf_end;
        if w = 0 then last_nonzero buf buf_beg (buf_end - 1) else Some buf_end }
      else Some buf_end)"
  by pat_completeness auto
termination
  by (relation "measure (\<lambda>(buf, b, e). e)") auto

declare last_nonzero.simps [simp del]

text \<open>\<open>while buf_from < buf_end\<close> of the left shift, \<open>n\<close> words being left.\<close>

fun mini_left_loop :: "nat \<Rightarrow> nat \<Rightarrow> nat \<Rightarrow> nat \<Rightarrow> nat list \<Rightarrow> nat list option" where
  "mini_left_loop 0 buf_from shift c_shift buf = Some buf"
| "mini_left_loop (Suc n) buf_from shift c_shift buf = do {
     w \<leftarrow> get_at buf buf_from;
     c \<leftarrow> get_at TEN_POW c_shift;
     s \<leftarrow> get_at TEN_POW shift;
     x \<leftarrow> umul 32 (w mod c) s;
     w' \<leftarrow> get_at buf (buf_from + 1);
     x \<leftarrow> uadd 32 x (w' div c);
     buf \<leftarrow> set_at buf buf_from x;
     mini_left_loop n (buf_from + 1) shift c_shift buf }"

text \<open>\<open>while buf_from > buf_end\<close> of the right shift, \<open>n\<close> words being left.\<close>

fun mini_right_loop :: "nat \<Rightarrow> nat \<Rightarrow> nat \<Rightarrow> nat \<Rightarrow> nat list \<Rightarrow> nat list option" where
  "mini_right_loop 0 buf_end shift c_shift buf = Some buf"
| "mini_right_loop (Suc n) buf_end shift c_shift buf = do {
     let buf_from = buf_end + Suc n;
     w \<leftarrow> get_at buf buf_from;
     s \<leftarrow> get_at TEN_POW shift;
     w' \<leftarrow> get_at buf (buf_from - 1);
     c \<leftarrow> get_at TEN_POW c_shift;
     x \<leftarrow> umul 32 (w' mod s) c;
     x \<leftarrow> uadd 32 (w div s) x;
     buf \<leftarrow> set_at buf buf_from x;
     mini_right_loop n buf_end shift c_shift buf }"

text \<open>\<open>for i in to..=barier { buf[i] = buf[i + word_shift] }\<close>, \<open>n\<close> words being left.\<close>

fun pull_words :: "nat \<Rightarrow> nat \<Rightarrow> nat \<Rightarrow> nat list \<Rightarrow> nat list option" where
  "pull_words 0 i word_shift buf = Some buf"
| "pull_words (Suc n) i word_shift buf = do {
     w \<leftarrow> get_at buf (i + word_shift);
     buf \<leftarrow> set_at buf i w;
     pull_words n (i + 1) word_shift buf }"

text \<open>\<open>for i in (barier..=to).rev() { buf[i] = buf[i - word_shift] }\<close>, \<open>n\<close> words being left.\<close>

fun push_words :: "nat \<Rightarrow> nat \<Rightarrow> nat \<Rightarrow> nat list \<Rightarrow> nat list option" where
  "push_words 0 barier word_shift buf = Some buf"
| "push_words (Suc n) barier word_shift buf = do {
     j \<leftarrow> usub (barier + n) word_shift;
     w \<leftarrow> get_at buf j;
     buf \<leftarrow> set_at buf (barier + n) w;
     push_words n barier word_shift buf }"

section \<open>Operations\<close>

definition digit_bounds :: "decimal \<Rightarrow> (nat \<times> nat) option" where
  "digit_bounds d = do {
     let buf = word_buf d;
     let buf_len = word_cnt (int_cnt d) + word_cnt (frac_cnt d);
     buf_end \<leftarrow> usub buf_len 1;
     buf_beg \<leftarrow> skip_zeros_up buf 0 buf_len;
     if buf_beg \<ge> buf_len then Some (0, 0)
     else do {
       let (i, start) =
         (if buf_beg = 0 \<and> int_cnt d > 0
          then let i = (int_cnt d - 1) mod DIGITS_PER_WORD in (i, DIGITS_PER_WORD - i - 1)
          else (DIGITS_PER_WORD - 1, buf_beg * DIGITS_PER_WORD));
       w \<leftarrow> get_at buf buf_beg;
       z \<leftarrow> count_leading_zeroes i w;
       start \<leftarrow> uadd 8 start z;
       buf_end \<leftarrow> last_nonzero buf buf_beg buf_end;
       let (i, stop) =
         (if buf_end = buf_len - 1 \<and> frac_cnt d > 0
          then let i = (frac_cnt d - 1) mod DIGITS_PER_WORD + 1 in
            (DIGITS_PER_WORD - i + 1, buf_end * DIGITS_PER_WORD + i)
          else (1, (buf_end + 1) * DIGITS_PER_WORD));
       w \<leftarrow> get_at buf buf_end;
       z \<leftarrow> count_trailing_zeroes i w;
       stop \<leftarrow> usub stop z;
       Some (start, stop) } }"

definition do_mini_left_shift :: "decimal \<Rightarrow> nat \<Rightarrow> nat \<Rightarrow> nat \<Rightarrow> decimal option" where
  "do_mini_left_shift d shift beg stop = do {
     let buf = word_buf d;
     let buf_from = beg div DIGITS_PER_WORD;
     e \<leftarrow> usub stop 1;
     let buf_end = e div DIGITS_PER_WORD;
     c_shift \<leftarrow> usub DIGITS_PER_WORD shift;
     c \<leftarrow> get_at TEN_POW c_shift;
     buf \<leftarrow>
       (if beg mod DIGITS_PER_WORD < shift
        then do {
          i \<leftarrow> usub buf_from 1;
          w \<leftarrow> get_at buf buf_from;
          set_at buf i (w div c) }
        else Some buf);
     buf \<leftarrow> mini_left_loop (buf_end - buf_from) buf_from shift c_shift buf;
     let buf_from = max buf_from buf_end;
     w \<leftarrow> get_at buf buf_from;
     s \<leftarrow> get_at TEN_POW shift;
     x \<leftarrow> umul 32 (w mod c) s;
     buf \<leftarrow> set_at buf buf_from x;
     Some (d\<lparr>word_buf := buf\<rparr>) }"

definition do_mini_right_shift :: "decimal \<Rightarrow> nat \<Rightarrow> nat \<Rightarrow> nat \<Rightarrow> decimal option" where
  "do_mini_right_shift d shift beg stop = do {
     let buf = word_buf d;
     e \<leftarrow> usub stop 1;
     let buf_from = e div DIGITS_PER_WORD;
     let buf_end = beg div DIGITS_PER_WORD;
     c_shift \<leftarrow> usub DIGITS_PER_WORD shift;
     s \<leftarrow> get_at TEN_POW shift;
     buf \<leftarrow>
       (if DIGITS_PER_WORD - (e mod DIGITS_PER_WORD + 1) < shift
        then do {
          w \<leftarrow> get_at buf buf_from;
          c \<leftarrow> get_at TEN_POW c_shift;
          x \<leftarrow> umul 32 (w mod s) c;
          set_at buf (buf_from + 1) x }
        else Some buf);
     buf \<leftarrow> mini_right_loop (buf_from - buf_end) buf_end shift c_shift buf;
     let buf_from = min buf_from buf_end;
     w \<leftarrow> get_at buf buf_from;
     buf \<leftarrow> set_at buf buf_from (w div s);
     Some (d\<lparr>word_buf := buf\<rparr>) }"

text \<open>
  The first part of \<open>shift_with_word_buf_len\<close>: does the shifted number fit? An early return is an
  \<open>Inl\<close>, otherwise the decimal to move with its end and its fraction digit count.
\<close>

definition shift_fit ::
    "decimal \<Rightarrow> nat \<Rightarrow> nat \<Rightarrow> nat \<Rightarrow> int \<Rightarrow> int \<Rightarrow> int \<Rightarrow> (decimal res + decimal res \<times> nat \<times> int) option" where
  "shift_fit d word_buf_len beg stop point ic fc = do {
     let int_word_cnt = int (word_cnt (nat ic));
     let frac_word_cnt = int (word_cnt (nat fc));
     let new_len = int_word_cnt + frac_word_cnt;
     if new_len > int word_buf_len
     then do {
       let lack = new_len - int word_buf_len;
       if frac_word_cnt < lack then Some (Inl (OverCausetxctx d))
       else do {
         let frac_word_cnt = frac_word_cnt - lack;
         let diff = fc - frac_word_cnt * int DIGITS_PER_WORD;
         let fc = frac_word_cnt * int DIGITS_PER_WORD;
         if int stop - diff \<le> int beg then Some (Inl (Truncated zero_dec))
         else do {
           let stop = as_unsigned 8 (int stop - diff);
           n \<leftarrow> scheck 8 (as_signed 8 (int stop) - as_signed 8 point);
           r \<leftarrow> round_with_word_buf_len d n word_buf_len HalfEven;
           Some (Inr (Truncated (deref r), stop, fc)) } } }
     else Some (Inr (Ok d, stop, fc)) }"

text \<open>The alignment inside the words: the shifted decimal and the digits it moved by.\<close>

definition shift_align :: "decimal \<Rightarrow> int \<Rightarrow> nat \<Rightarrow> nat \<Rightarrow> nat \<Rightarrow> (decimal \<times> int) option" where
  "shift_align d shift word_buf_len beg stop = do {
     (l_mini_shift, r_mini_shift, do_left) \<leftarrow>
       (if shift > 0
        then do {
          let l = nat (srem shift (int DIGITS_PER_WORD));
          Some (l, DIGITS_PER_WORD - l, l \<le> beg) }
        else do {
          let r = nat (srem (- shift) (int DIGITS_PER_WORD));
          room \<leftarrow> usub (DIGITS_PER_WORD * word_buf_len) stop;
          Some (DIGITS_PER_WORD - r, r, room < r) });
     if do_left
     then do {
       d \<leftarrow> do_mini_left_shift d l_mini_shift beg stop;
       Some (d, - int l_mini_shift) }
     else do {
       d \<leftarrow> do_mini_right_shift d r_mini_shift beg stop;
       Some (d, int r_mini_shift) } }"

text \<open>Moving whole words: the buffer, and the digits it moved by.\<close>

definition shift_words :: "nat list \<Rightarrow> int \<Rightarrow> nat \<Rightarrow> nat \<Rightarrow> (nat list \<times> int) option" where
  "shift_words buf new_front beg stop = do {
     e \<leftarrow> usub stop 1;
     if new_front > 0
     then do {
       let word_shift = sdiv new_front (int DIGITS_PER_WORD);
       let to = as_unsigned 64 (int (beg div DIGITS_PER_WORD) - word_shift);
       let barier = as_unsigned 64 (int (e div DIGITS_PER_WORD) - word_shift);
       buf \<leftarrow> pull_words (barier + 1 - to) to (nat word_shift) buf;
       buf \<leftarrow> zero_words (nat word_shift) (barier + 1) buf;
       Some (buf, - word_shift * int DIGITS_PER_WORD) }
     else do {
       let word_shift = sdiv (1 - new_front) (int DIGITS_PER_WORD);
       let to = as_unsigned 64 (int (e div DIGITS_PER_WORD) + word_shift);
       let barier = as_unsigned 64 (int (beg div DIGITS_PER_WORD) + word_shift);
       buf \<leftarrow> push_words (to + 1 - barier) barier (nat word_shift) buf;
       first \<leftarrow> usub barier (nat word_shift);
       buf \<leftarrow> zero_words (barier - first) first buf;
       Some (buf, word_shift * int DIGITS_PER_WORD) } }"

text \<open>Clearing the words between the digits and the point.\<close>

definition shift_clear :: "nat list \<Rightarrow> int \<Rightarrow> nat \<Rightarrow> nat \<Rightarrow> nat list option" where
  "shift_clear buf new_point beg stop = do {
     let beg_word = int (beg div DIGITS_PER_WORD);
     e \<leftarrow> usub stop 1;
     let end_word = int (e div DIGITS_PER_WORD);
     let new_point_word = (if new_point \<noteq> 0 then sdiv (new_point - 1) (int DIGITS_PER_WORD) else 0);
     if new_point_word > end_word
     then zero_words (nat (new_point_word - end_word)) (as_unsigned 64 (end_word + 1)) buf
     else zero_words (nat (beg_word - new_point_word)) (as_unsigned 64 new_point_word) buf }"

definition shift_with_word_buf_len :: "decimal \<Rightarrow> int \<Rightarrow> nat \<Rightarrow> decimal res option" where
  "shift_with_word_buf_len d shift word_buf_len =
     (if shift = 0 then Some (Ok d)
      else do {
        (beg, stop) \<leftarrow> digit_bounds d;
        if beg = stop then Some (Ok zero_dec)
        else do {
          upper \<leftarrow> umul 8 DIGITS_PER_WORD word_buf_len;
          upper \<leftarrow> umul 8 upper 2;
          if shift > int upper then Some (OverCausetxctx d)
          else if shift < - int upper then Some (Truncated zero_dec)
          else do {
            let point = int (word_cnt (int_cnt d) * DIGITS_PER_WORD);
            let new_point = point + shift;
            let ic = (if new_point < int beg then 0 else new_point - int beg);
            let fc = (if new_point > int stop then 0 else int stop - new_point);
            fit \<leftarrow> shift_fit d word_buf_len beg stop point ic fc;
            case fit of
              Inl r \<Rightarrow> Some r
            | Inr (res, stop, fc) \<Rightarrow> do {
                (res, mini_shift) \<leftarrow>
                  (if srem shift (int DIGITS_PER_WORD) \<noteq> 0
                   then do {
                     (d, m) \<leftarrow> shift_align (deref res) shift word_buf_len beg stop;
                     Some (res_map (\<lambda>_. d) res, m) }
                   else Some (res, 0));
                let new_point = new_point + mini_shift;
                if srem shift (int DIGITS_PER_WORD) \<noteq> 0 \<and> shift + mini_shift = 0 \<and>
                  new_point - ic < int DIGITS_PER_WORD
                then Some (res_map (\<lambda>d. d\<lparr>int_cnt := as_unsigned 8 ic, frac_cnt := as_unsigned 8 fc\<rparr>) res)
                else do {
                  b \<leftarrow> scheck 8 (as_signed 8 (int beg) + mini_shift);
                  e \<leftarrow> scheck 8 (as_signed 8 (int stop) + mini_shift);
                  let (beg, stop) =
                    (if srem shift (int DIGITS_PER_WORD) \<noteq> 0
                     then (as_unsigned 8 b, as_unsigned 8 e) else (beg, stop));
                  let new_front = new_point - ic;
                  (buf, shift_cnt) \<leftarrow>
                    (if new_front \<ge> int DIGITS_PER_WORD \<or> new_front < 0
                     then shift_words (word_buf (deref res)) new_front beg stop
                     else Some (word_buf (deref res), 0));
                  let (beg, stop) =
                    (as_unsigned 8 (int beg + shift_cnt), as_unsigned 8 (int stop + shift_cnt));
                  buf \<leftarrow> shift_clear buf (new_point + shift_cnt) beg stop;
                  Some (res_map (\<lambda>d. d\<lparr>word_buf := buf, int_cnt := as_unsigned 8 ic,
                    frac_cnt := as_unsigned 8 fc\<rparr>) res) } } } } })"

definition shift_dec :: "decimal \<Rightarrow> int \<Rightarrow> decimal res option" where
  "shift_dec d shift = shift_with_word_buf_len d shift WORD_BUF_LEN"


section \<open>Digit regions\<close>

text \<open>
  The words that hold the digits \<open>p..q\<close> write the number \<open>N\<close> there, with no other digits in
  those words; \<open>zout\<close> says that the first \<open>m\<close> words are zero elsewhere.
\<close>

definition holds :: "nat list \<Rightarrow> nat \<Rightarrow> nat \<Rightarrow> nat \<Rightarrow> bool" where
  "holds buf p q N \<longleftrightarrow> p < q \<and> q \<le> 9 * length buf \<and> N < 10 ^ (q - p) \<and>
     bval WORD_BASE (seg buf (p div 9) ((q - 1) div 9 + 1 - p div 9)) = N * 10 ^ (9 * ((q - 1) div 9 + 1) - q)"

definition zout :: "nat list \<Rightarrow> nat \<Rightarrow> nat \<Rightarrow> nat \<Rightarrow> bool" where
  "zout buf p q m \<longleftrightarrow> (\<forall>i<m. (i < p div 9 \<or> (q - 1) div 9 < i) \<longrightarrow> buf ! i = 0)"

lemma WORD_BASE_power: "WORD_BASE ^ n = 10 ^ (9 * n)"
  by (simp only: WORD_BASE_pow power_mult)

lemma ceil9: "(q :: nat) \<le> 9 * ((q - 1) div 9 + 1)"
  by presburger

lemma pos_mod9: "(n :: nat) mod 9 < 9"
  by simp

lemma bval_zero_tail:
  assumes "below WORD_BASE zs" "bval WORD_BASE (xs @ zs) = N * 10 ^ k" "9 * length zs \<le> k"
  shows "bval WORD_BASE zs = 0" "bval WORD_BASE xs = N * 10 ^ (k - 9 * length zs)"
proof -
  let ?P = "WORD_BASE ^ length zs"
  have P: "(10 :: nat) ^ k = 10 ^ (k - 9 * length zs) * ?P"
    using assms(3) by (simp add: WORD_BASE_power flip: power_add)
  have eq: "bval WORD_BASE xs * ?P + bval WORD_BASE zs = (N * 10 ^ (k - 9 * length zs)) * ?P"
    using assms(2) by (simp add: bval_append P)
  have lt: "bval WORD_BASE zs < ?P" using assms(1) by (rule bval_less)
  have "bval WORD_BASE zs = (bval WORD_BASE xs * ?P + bval WORD_BASE zs) mod ?P" using lt by simp
  also have "\<dots> = 0" unfolding eq by simp
  finally show z: "bval WORD_BASE zs = 0" .
  show "bval WORD_BASE xs = N * 10 ^ (k - 9 * length zs)" using eq z lt by simp
qed

lemma bval_zero_head:
  assumes "bval WORD_BASE (xs @ ys) < 10 ^ k" "k \<le> 9 * length ys"
  shows "bval WORD_BASE xs = 0" "bval WORD_BASE (xs @ ys) = bval WORD_BASE ys"
proof -
  have "(10 :: nat) ^ k \<le> 10 ^ (9 * length ys)" using assms(2) by (rule power_increasing) simp
  then have "bval WORD_BASE xs * WORD_BASE ^ length ys < 1 * WORD_BASE ^ length ys"
    using assms(1) unfolding bval_append WORD_BASE_power by linarith
  then show z: "bval WORD_BASE xs = 0" by simp
  show "bval WORD_BASE (xs @ ys) = bval WORD_BASE ys" by (simp add: bval_append z)
qed

lemma holds_window:
  assumes b: "below WORD_BASE ws" and v: "bval WORD_BASE ws = N * 10 ^ (9 * (length pre + length ws) - q)"
    and pq: "p < q" "q \<le> 9 * (length pre + length ws)" and N: "N < 10 ^ (q - p)" and a: "length pre \<le> p div 9"
  shows "holds (pre @ ws @ post) p q N"
    and "\<And>i. length pre \<le> i \<Longrightarrow> i < length pre + length ws \<Longrightarrow> i < p div 9 \<or> (q - 1) div 9 < i \<Longrightarrow>
      (pre @ ws @ post) ! i = 0"
proof -
  define k where "k = p div 9 - length pre"
  define n where "n = (q - 1) div 9 + 1 - p div 9"
  define xs ys zs where xyz: "xs = take k ws" "ys = seg ws k n" "zs = drop (k + n) ws"
  have le: "p div 9 \<le> (q - 1) div 9" using pq by (intro div_le_mono) simp
  have e: "(q - 1) div 9 < length pre + length ws" using pq by auto
  have kn: "k + n \<le> length ws" using le e a by (simp add: k_def n_def)
  have ws: "ws = xs @ ys @ zs" unfolding xyz by (metis append_take_drop_id drop_drop add.commute)
  have len: "length xs = k" "length ys = n" "length zs = length ws - (k + n)" using kn by (simp_all add: xyz)
  have bz: "below WORD_BASE zs" using b by (simp add: ws)
  have kl: "k + length pre = p div 9" "n + p div 9 = (q - 1) div 9 + 1" using a le by (simp_all add: k_def n_def)
  have ez: "length pre + length ws = (q - 1) div 9 + 1 + length zs" 
    using kn kl unfolding len(3) by linarith
  define E where "E = (q - 1) div 9 + 1"
  have qe: "q \<le> 9 * ((q - 1) div 9 + 1)" by (rule ceil9)
  have d: "9 * length zs \<le> 9 * (length pre + length ws) - q" "9 * (length pre + length ws) - q - 9 * length zs = 9 * ((q - 1) div 9 + 1) - q"
    unfolding ez E_def[symmetric] using qe[folded E_def] by simp_all
  have v': "bval WORD_BASE ((xs @ ys) @ zs) = N * 10 ^ (9 * (length pre + length ws) - q)"
    using v unfolding ws by simp
  from bval_zero_tail[OF bz v' d(1)]
  have zz: "bval WORD_BASE zs = 0" and xy: "bval WORD_BASE (xs @ ys) = N * 10 ^ (9 * ((q - 1) div 9 + 1) - q)"
    unfolding d(2) by simp_all
  have "N * 10 ^ (9 * ((q - 1) div 9 + 1) - q) < 10 ^ (q - p) * 10 ^ (9 * ((q - 1) div 9 + 1) - q)"
    using N by simp
  also have "\<dots> = 10 ^ (9 * ((q - 1) div 9 + 1) - p)" using qe pq by (simp flip: power_add)
  finally have "bval WORD_BASE (xs @ ys) < 10 ^ (9 * ((q - 1) div 9 + 1) - p)" using xy by simp
  moreover have "9 * ((q - 1) div 9 + 1) - p \<le> 9 * length ys" unfolding len n_def diff_mult_distrib2 by (intro diff_le_mono2) simp
  ultimately have xz: "bval WORD_BASE xs = 0" and y: "bval WORD_BASE ys = N * 10 ^ (9 * ((q - 1) div 9 + 1) - q)"
    using bval_zero_head[of xs ys] xy by simp_all
  have "seg (pre @ ws @ post) (p div 9) n = ys"
    unfolding kl(1)[symmetric] by (simp add: ws len(1,2))
  then have "bval WORD_BASE (seg (pre @ ws @ post) (p div 9) n) = N * 10 ^ (9 * ((q - 1) div 9 + 1) - q)" using y by (simp only:)
  moreover have "q \<le> 9 * length (pre @ ws @ post)" using pq(2) unfolding length_append distrib_left by linarith
  ultimately show "holds (pre @ ws @ post) p q N" unfolding holds_def n_def[symmetric] using pq(1) N by blast
  fix i assume i: "length pre \<le> i" "i < length pre + length ws" "i < p div 9 \<or> (q - 1) div 9 < i"
  have "\<forall>w\<in>set xs. w = 0" "\<forall>w\<in>set zs. w = 0" using xz zz by (simp_all add: bval_zero_iff)
  then have z0: "\<And>j. j < k \<Longrightarrow> xs ! j = 0" "\<And>j. j < length zs \<Longrightarrow> zs ! j = 0" using len by auto
  have "i < length pre + k \<or> length pre + k + n \<le> i" using i(3) kl by linarith
  then show "(pre @ ws @ post) ! i = 0"
  proof
    assume "i < length pre + k"
    then have "i - length pre < k" using i(1) by linarith
    then show ?thesis using i(1) z0(1) by (simp add: ws nth_append len(1))
  next
    assume j: "length pre + k + n \<le> i"
    then have "(pre @ ws @ post) ! i = (zs @ post) ! (i - (length pre + k + n))"
      using nth_append[of "pre @ xs @ ys" "zs @ post" i] by (simp add: ws len(1,2) add.assoc)
    moreover have "i - (length pre + k + n) < length zs" using i(2) j unfolding len(3) by linarith
    ultimately show ?thesis using z0(2) by (simp add: nth_append)
  qed
qed

section \<open>The mini shifts, verified\<close>

lemma mini_split:
  assumes "1 \<le> l" "l \<le> 8"
  shows "(10 :: nat) ^ (9 - l) * 10 ^ l = WORD_BASE" "(w mod 10 ^ (9 - l)) * 10 ^ l + (w div 10 ^ (9 - l)) * WORD_BASE = w * 10 ^ l"
    "(w mod 10 ^ (9 - l)) * 10 ^ l + 10 ^ l \<le> WORD_BASE" "w < WORD_BASE \<Longrightarrow> w div 10 ^ (9 - l) < 10 ^ l"
proof -
  let ?C = "10 ^ (9 - l) :: nat"
  show B: "?C * 10 ^ l = WORD_BASE" using assms by (simp add: WORD_BASE_pow flip: power_add)
  have "w * 10 ^ l = (w mod ?C + w div ?C * ?C) * 10 ^ l" by (simp only: mod_div_mult_eq)
  also have "\<dots> = (w mod ?C) * 10 ^ l + (w div ?C) * (?C * 10 ^ l)" by (simp only: add_mult_distrib mult.assoc)
  finally show "(w mod ?C) * 10 ^ l + (w div ?C) * WORD_BASE = w * 10 ^ l" unfolding B by simp
  have "(w mod ?C + 1) * 10 ^ l \<le> ?C * 10 ^ l" by (intro mult_le_mono1) (simp add: Suc_leI)
  then show "(w mod ?C) * 10 ^ l + 10 ^ l \<le> WORD_BASE" unfolding B by (simp add: add_mult_distrib)
  show "w < WORD_BASE \<Longrightarrow> w div ?C < 10 ^ l" unfolding B[symmetric] by (rule less_mult_imp_div_less) (simp add: mult.commute)
qed

lemma mini_left_loop_ok:
  assumes l: "1 \<le> l" "l \<le> 8"
  shows "length xs = Suc n \<Longrightarrow> below WORD_BASE xs \<Longrightarrow> i = length pre \<Longrightarrow>
    \<exists>ys. mini_left_loop n i l (9 - l) (pre @ xs @ post) = Some (pre @ ys @ last xs # post) \<and>
      length ys = n \<and> below WORD_BASE ys \<and>
      bval WORD_BASE (ys @ [(last xs mod 10 ^ (9 - l)) * 10 ^ l]) + (xs ! 0 div 10 ^ (9 - l)) * WORD_BASE ^ Suc n =
        bval WORD_BASE xs * 10 ^ l"
proof (induction n arbitrary: xs pre i)
  case 0
  then obtain x where "xs = [x]" by (cases xs) auto
  then show ?case using mini_split(2)[OF l, of x] by (intro exI[of _ "[]"]) simp
next
  case (Suc n)
  let ?C = "10 ^ (9 - l) :: nat"
  obtain x x' zs where xs: "xs = x # x' # zs" "length zs = n" using Suc.prems(1) by (cases xs; cases "tl xs") auto
  define y where "y = (x mod ?C) * 10 ^ l + x' div ?C"
  have x: "x < WORD_BASE" "x' < WORD_BASE" using Suc.prems(2) xs by simp_all
  have y: "y < WORD_BASE" using mini_split(3)[OF l, of x] mini_split(4)[OF l x(2)] by (simp add: y_def)
  then have u: "(x mod ?C) * 10 ^ l < 2 ^ 32" "y < 2 ^ 32" using WORD_BASE_u32 by (simp_all add: y_def)
  have "length (x' # zs) = Suc n" "below WORD_BASE (x' # zs)" "Suc i = length (pre @ [y])"
    using Suc.prems xs by simp_all
  from Suc.IH[OF this] obtain ys where ys:
    "mini_left_loop n (Suc i) l (9 - l) ((pre @ [y]) @ (x' # zs) @ post) = Some ((pre @ [y]) @ ys @ last (x' # zs) # post)"
    "length ys = n" "below WORD_BASE ys"
    "bval WORD_BASE (ys @ [(last (x' # zs) mod ?C) * 10 ^ l]) + (x' div ?C) * WORD_BASE ^ Suc n = bval WORD_BASE (x' # zs) * 10 ^ l"
    by auto
  have g: "get_at (pre @ x # x' # zs @ post) (Suc i) = Some x'" "get_at (pre @ x # x' # zs @ post) i = Some x"
    using Suc.prems(3) by (simp_all add: get_at_def nth_append)
  have st: "set_at (pre @ x # x' # zs @ post) i y = Some (pre @ y # x' # zs @ post)"
    using Suc.prems(3) by (simp add: set_at_mid)
  have t: "get_at TEN_POW (9 - l) = Some ?C" "get_at TEN_POW l = Some (10 ^ l)" using l by (simp_all add: get_at_def)
  have "mini_left_loop (Suc n) i l (9 - l) (pre @ xs @ post) = mini_left_loop n (Suc i) l (9 - l) (pre @ y # x' # zs @ post)"
    using u by (simp add: xs g t umul_def uadd_def y_def[symmetric] st)
  then have "mini_left_loop (Suc n) i l (9 - l) (pre @ xs @ post) = Some (pre @ (y # ys) @ last xs # post)"
    using ys(1) xs by simp
  moreover have "bval WORD_BASE ((y # ys) @ [(last xs mod ?C) * 10 ^ l]) + (xs ! 0 div ?C) * WORD_BASE ^ Suc (Suc n) = bval WORD_BASE xs * 10 ^ l"
  proof -
    let ?P = "WORD_BASE ^ Suc n" and ?v = "bval WORD_BASE (ys @ [(last (x' # zs) mod ?C) * 10 ^ l])"
    have "y * ?P + ?v + (x div ?C) * (WORD_BASE * ?P) = ((x mod ?C) * 10 ^ l + (x div ?C) * WORD_BASE) * ?P + (?v + (x' div ?C) * ?P)"
      by (simp add: y_def algebra_simps)
    also have "\<dots> = (x * 10 ^ l) * ?P + bval WORD_BASE (x' # zs) * 10 ^ l" unfolding mini_split(2)[OF l] ys(4) by simp
    also have "\<dots> = bval WORD_BASE xs * 10 ^ l" by (simp add: xs algebra_simps)
    finally show ?thesis using xs ys(2) by simp
  qed
  ultimately show ?case using ys y by (intro exI[of _ "y # ys"]) simp
qed

lemma mini_right_loop_ok:
  assumes l: "1 \<le> l" "l \<le> 8"
  shows "length xs = Suc n \<Longrightarrow> below WORD_BASE xs \<Longrightarrow> i = length pre \<Longrightarrow>
    \<exists>ys. mini_right_loop n i l (9 - l) (pre @ xs @ post) = Some (pre @ xs ! 0 # ys @ post) \<and>
      length ys = n \<and> below WORD_BASE ys \<and>
      bval WORD_BASE ((xs ! 0 div 10 ^ l) # ys) * 10 ^ l + last xs mod 10 ^ l = bval WORD_BASE xs"
proof (induction n arbitrary: xs post)
  case 0
  then obtain x where "xs = [x]" by (cases xs) auto
  then show ?case using div_mult_mod_eq[of x "10 ^ l"] by (intro exI[of _ "[]"]) simp
next
  case (Suc n)
  let ?C = "10 ^ (9 - l) :: nat"
  obtain zs x' x where xs: "xs = zs @ [x', x]" "length zs = n"
  proof -
    have "xs = butlast xs @ [last xs]" "butlast xs = butlast (butlast xs) @ [last (butlast xs)]"
      using Suc.prems(1) by (metis append_butlast_last_id list.size(3) nat.distinct(1))
        (metis Suc.prems(1) append_butlast_last_id length_butlast diff_Suc_1 list.size(3) nat.distinct(1))
    then show thesis using that[of "butlast (butlast xs)" "last (butlast xs)" "last xs"] Suc.prems(1)
      by (metis append.assoc append_Cons append_Nil length_butlast diff_Suc_1)
  qed
  define y where "y = x div 10 ^ l + (x' mod 10 ^ l) * ?C"
  have x: "x < WORD_BASE" "x' < WORD_BASE" using Suc.prems(2) xs by simp_all
  have l': "1 \<le> 9 - l" "9 - l \<le> 8" "9 - (9 - l) = l" using l by simp_all
  note sp = mini_split[OF l'(1,2), unfolded l'(3)]
  have y: "y < WORD_BASE" using sp(3)[of x'] sp(4)[OF x(1)] by (simp add: y_def)
  then have u: "(x' mod 10 ^ l) * ?C < 2 ^ 32" "y < 2 ^ 32" using WORD_BASE_u32 by (simp_all add: y_def)
  have "length (zs @ [x']) = Suc n" "below WORD_BASE (zs @ [x'])" using Suc.prems xs by simp_all
  from Suc.IH[OF this Suc.prems(3), of "y # post"] obtain ys where ys:
    "mini_right_loop n i l (9 - l) (pre @ (zs @ [x']) @ y # post) = Some (pre @ (zs @ [x']) ! 0 # ys @ y # post)"
    "length ys = n" "below WORD_BASE ys"
    "bval WORD_BASE (((zs @ [x']) ! 0 div 10 ^ l) # ys) * 10 ^ l + x' mod 10 ^ l = bval WORD_BASE (zs @ [x'])"
    by auto
  have z0: "(zs @ [x']) ! 0 = xs ! 0" by (simp add: xs nth_append)
  have g: "get_at (pre @ zs @ x' # x # post) (Suc (i + n)) = Some x" "get_at (pre @ zs @ x' # x # post) (i + n) = Some x'"
    using Suc.prems(3) xs(2) by (simp_all add: get_at_def nth_append)
  have st: "set_at (pre @ zs @ x' # x # post) (Suc (i + n)) y = Some (pre @ zs @ x' # y # post)"
    using Suc.prems(3) xs(2) set_at_mid[of "Suc (i + n)" "pre @ zs @ [x']" x post y] by simp
  have t: "get_at TEN_POW (9 - l) = Some ?C" "get_at TEN_POW l = Some (10 ^ l)" using l by (simp_all add: get_at_def)
  have "mini_right_loop (Suc n) i l (9 - l) (pre @ xs @ post) = mini_right_loop n i l (9 - l) (pre @ zs @ x' # y # post)"
    using u by (simp add: xs g t umul_def uadd_def y_def[symmetric] st)
  then have run: "mini_right_loop (Suc n) i l (9 - l) (pre @ xs @ post) = Some (pre @ xs ! 0 # (ys @ [y]) @ post)"
    using ys(1) z0 by simp
  have "bval WORD_BASE ((xs ! 0 div 10 ^ l) # ys @ [y]) * 10 ^ l + x mod 10 ^ l = bval WORD_BASE xs"
  proof -
    let ?v = "bval WORD_BASE ((xs ! 0 div 10 ^ l) # ys)"
    have "bval WORD_BASE (((xs ! 0 div 10 ^ l) # ys) @ [y]) = ?v * WORD_BASE + y" by (simp only: bval_append) simp
    then have "bval WORD_BASE ((xs ! 0 div 10 ^ l) # ys @ [y]) * 10 ^ l + x mod 10 ^ l =
        (?v * WORD_BASE + (x div 10 ^ l + (x' mod 10 ^ l) * ?C)) * 10 ^ l + x mod 10 ^ l" by (simp add: y_def)
    also have "\<dots> = (?v * 10 ^ l) * WORD_BASE + (x' mod 10 ^ l) * (?C * 10 ^ l) + (x div 10 ^ l * 10 ^ l + x mod 10 ^ l)"
      by (simp only: algebra_simps)
    also have "\<dots> = (?v * 10 ^ l + x' mod 10 ^ l) * WORD_BASE + x" unfolding mini_split(1)[OF l] by (simp add: algebra_simps)
    also have "\<dots> = bval WORD_BASE (zs @ [x']) * WORD_BASE + x" using ys(4) unfolding z0 by simp
    also have "\<dots> = bval WORD_BASE xs" using bval_append[of WORD_BASE "zs @ [x']" "[x]"] by (simp add: xs)
    finally show ?thesis .
  qed
  then show ?case using run ys y xs by (intro exI[of _ "ys @ [y]"]) simp
qed

lemma zout_window:
  assumes "zout (pre @ xs @ post) p q m" "length pre \<le> p div 9" "(q - 1) div 9 < length pre + length xs"
    and "length ws = length xs"
    and w: "\<And>i. length pre \<le> i \<Longrightarrow> i < length pre + length ws \<Longrightarrow> i < p' div 9 \<or> (q' - 1) div 9 < i \<Longrightarrow>
      (pre @ ws @ post) ! i = 0"
  shows "zout (pre @ ws @ post) p' q' m"
  unfolding zout_def
proof (intro allI impI)
  fix i assume i: "i < m" "i < p' div 9 \<or> (q' - 1) div 9 < i"
  show "(pre @ ws @ post) ! i = 0"
  proof (cases "length pre \<le> i \<and> i < length pre + length ws")
    case True
    then show ?thesis using w i by blast
  next
    case False
    then have "i < p div 9 \<or> (q - 1) div 9 < i" using assms(2,3,4) by linarith
    then have "(pre @ xs @ post) ! i = 0" using assms(1) i(1) unfolding zout_def by blast
    moreover have "(pre @ xs @ post) ! i = (pre @ ws @ post) ! i" using False assms(4) by (auto simp: nth_append)
    ultimately show ?thesis by simp
  qed
qed

text \<open>The words of a region, cut out of the buffer.\<close>

lemma holds_cut:
  assumes h: "holds buf p q N" and b: "below WORD_BASE buf"
  obtains pre xs post n where "buf = pre @ xs @ post" "length pre = p div 9" "length xs = Suc n" "(q - 1) div 9 = p div 9 + n"
    "below WORD_BASE xs" "bval WORD_BASE xs = N * 10 ^ (9 * (length pre + length xs) - q)" "q \<le> 9 * (length pre + length xs)"
    "p < q" "N < 10 ^ (q - p)" "xs ! 0 < 10 ^ (9 - p mod 9)" "10 ^ (9 * (length pre + length xs) - q) dvd last xs"
    "9 * (length pre + length xs) - q = 8 - (q - 1) mod 9"
proof -
  define a n where an: "a = p div 9" "n = (q - 1) div 9 - p div 9"
  define pre xs post where x: "pre = take a buf" "xs = seg buf a (Suc n)" "post = drop (a + Suc n) buf"
  have pq: "p < q" "q \<le> 9 * length buf" "N < 10 ^ (q - p)" using h by (simp_all add: holds_def)
  have le: "p div 9 \<le> (q - 1) div 9" using pq(1) by (intro div_le_mono) simp
  have e: "(q - 1) div 9 = a + n" using le by (simp add: an)
  have sn: "(q - 1) div 9 + 1 - p div 9 = Suc n" using e by (simp add: an(1))
  have el: "a + n < length buf" using pq unfolding e[symmetric] by auto
  have len: "length pre = a" "length xs = Suc n" using el by (simp_all add: x)
  have v: "bval WORD_BASE xs = N * 10 ^ (9 * (length pre + length xs) - q)"
    using h unfolding holds_def sn e len an(1)[symmetric] by (simp add: x(2) algebra_simps)
  have q: "q \<le> 9 * (length pre + length xs)" using ceil9[of q] unfolding e len by simp
  have bx: "below WORD_BASE xs" unfolding x using b by (intro below_take below_drop)
  have ne: "xs = xs ! 0 # tl xs" using len(2) by (cases xs) auto
  define r where "r = p mod 9"
  have pm: "p = 9 * a + r" "r < 9" by (simp_all add: an r_def)
  have "xs ! 0 * WORD_BASE ^ n \<le> bval WORD_BASE xs" using len(2) by (subst (2) ne) simp
  also have "\<dots> < 10 ^ (q - p) * 10 ^ (9 * (length pre + length xs) - q)" unfolding v using pq(3) by simp
  also have "\<dots> = 10 ^ (9 * (length pre + length xs) - p)" using q pq(1) by (simp flip: power_add)
  also have "9 * (length pre + length xs) - p = (9 - p mod 9) + 9 * n" unfolding len r_def[symmetric] by (subst pm(1)) (use pm(2) in simp)
  also have "(10 :: nat) ^ \<dots> = 10 ^ (9 - p mod 9) * WORD_BASE ^ n" by (simp only: power_add WORD_BASE_power)
  finally have x0: "xs ! 0 < 10 ^ (9 - p mod 9)" by simp
  have m: "9 * (length pre + length xs) - q = 8 - (q - 1) mod 9"
  proof -
    define r' where "r' = (q - 1) mod 9"
    have "q - 1 = 9 * (a + n) + r'" "r' < 9" unfolding r'_def using e by (metis mult_div_mod_eq) (rule pos_mod9)
    then have "q = 9 * (a + n) + r' + 1" using pq(1) by simp
    then show ?thesis unfolding len r'_def[symmetric] by simp
  qed
  have "10 ^ (9 * (length pre + length xs) - q) dvd last xs"
  proof -
    have "xs = butlast xs @ [last xs]" using len(2) by (metis append_butlast_last_id list.size(3) nat.distinct(1))
    then have "bval WORD_BASE xs = bval WORD_BASE (butlast xs) * WORD_BASE + last xs"
      using bval_append[of WORD_BASE "butlast xs" "[last xs]"] by simp
    moreover have "(10 :: nat) ^ (9 * (length pre + length xs) - q) dvd WORD_BASE"
      unfolding m WORD_BASE_pow by (intro le_imp_power_dvd) simp
    ultimately show ?thesis using v by (metis dvd_add_right_iff dvd_mult dvd_triv_right)
  qed
  moreover have "buf = pre @ xs @ post" unfolding x by (metis append_take_drop_id drop_drop add.commute)
  ultimately show thesis using that[of pre xs post n] len e v q pq bx x0 m unfolding an(1) by blast
qed

lemma mini_left_ok:
  assumes h: "holds (word_buf d) p q N" and b: "length (word_buf d) = 9" "below WORD_BASE (word_buf d)"
    and l: "1 \<le> l" "l \<le> 8" "l \<le> p"
  shows "\<exists>buf. do_mini_left_shift d l p q = Some (d\<lparr>word_buf := buf\<rparr>) \<and> length buf = 9 \<and> below WORD_BASE buf \<and>
    holds buf (p - l) (q - l) N \<and> (\<forall>m. zout (word_buf d) p q m \<longrightarrow> zout buf (p - l) (q - l) m)"
proof -
  let ?C = "10 ^ (9 - l) :: nat"
  obtain pre xs post n where x: "word_buf d = pre @ xs @ post" "length pre = p div 9" "length xs = Suc n" "(q - 1) div 9 = p div 9 + n"
    "below WORD_BASE xs" "bval WORD_BASE xs = N * 10 ^ (9 * (length pre + length xs) - q)" "q \<le> 9 * (length pre + length xs)"
    "p < q" "N < 10 ^ (q - p)" "xs ! 0 < 10 ^ (9 - p mod 9)"
    by (rule holds_cut[OF h b(2)])
  have bp: "below WORD_BASE pre" "below WORD_BASE post" using b(2) unfolding x(1) by simp_all
  define y where "y = (last xs mod ?C) * 10 ^ l"
  have y: "y < WORD_BASE" using mini_split(3)[OF l(1,2), of "last xs"] by (simp add: y_def less_le_trans[rotated])
  then have y32: "y < 2 ^ 32" using WORD_BASE_u32(2) by simp
  have t: "get_at TEN_POW (9 - l) = Some ?C" "get_at TEN_POW l = Some (10 ^ l)" using l by (simp_all add: get_at_def)
  have us: "usub q 1 = Some (q - 1)" "usub 9 l = Some (9 - l)" "usub q (Suc 0) = Some (q - Suc 0)" using x(8) l by (simp_all add: usub_def)
  have gx: "get_at (pre @ xs @ post) (p div 9) = Some (xs ! 0)" using x(2,3) by (simp add: get_at_def nth_append)
  have v: "bval WORD_BASE xs * 10 ^ l = N * 10 ^ (9 * (length pre + length xs) - (q - l))"
    using x(6,7,8) l(3) by (simp add: mult.assoc flip: power_add)
  have q': "p - l < q - l" "q - l \<le> 9 * (length pre + length xs)" "N < 10 ^ (q - l - (p - l))"
    using x(7,8,9) l(3) by simp_all
  have win: "\<exists>buf. do_mini_left_shift d l p q = Some (d\<lparr>word_buf := buf\<rparr>) \<and> length buf = 9 \<and> below WORD_BASE buf \<and>
      holds buf (p - l) (q - l) N \<and> (\<forall>m. zout (word_buf d) p q m \<longrightarrow> zout buf (p - l) (q - l) m)"
    if run: "do_mini_left_shift d l p q = Some (d\<lparr>word_buf := pr @ ws @ post\<rparr>)" and w: "word_buf d = pr @ zs @ post"
      "length ws = length zs" "length pr \<le> (p - l) div 9" "length pr + length ws = length pre + length xs" "below WORD_BASE ws"
      "below WORD_BASE pr" "bval WORD_BASE ws = bval WORD_BASE xs * 10 ^ l" for pr ws zs
  proof -
    have "bval WORD_BASE ws = N * 10 ^ (9 * (length pr + length ws) - (q - l))" using w(7) v w(4) by simp
    note hw = holds_window[OF w(5) this q'(1) q'(2)[folded w(4)] q'(3) w(3), where post = post]
    have A: "length pr \<le> p div 9" using w(3) div_le_mono[of "p - l" p 9] by simp
    have B: "(q - 1) div 9 < length pr + length zs" using w(2,4) x(2,3,4) by simp
    have "zout (pr @ ws @ post) (p - l) (q - l) m" if "zout (pr @ zs @ post) p q m" for m
      by (rule zout_window[OF that A B w(2)]) (rule hw(2))
    moreover have "length (pr @ ws @ post) = 9" using b(1) w(1,2) by simp
    ultimately show ?thesis using run hw(1) w(1,5,6) bp(2) by (intro exI[of _ "pr @ ws @ post"]) simp
  qed
  show ?thesis
  proof (cases "p mod 9 < l")
    case False
    then have "xs ! 0 < ?C" using x(10) by (rule_tac less_le_trans[OF x(10)]) (intro power_increasing, auto)
    then have z: "xs ! 0 div ?C = 0" by simp
    obtain ys where ys: "mini_left_loop n (p div 9) l (9 - l) (pre @ xs @ post) = Some (pre @ ys @ last xs # post)"
      "length ys = n" "below WORD_BASE ys" "bval WORD_BASE (ys @ [y]) = bval WORD_BASE xs * 10 ^ l"
      using mini_left_loop_ok[OF l(1,2) x(3,5) x(2)[symmetric]] z by (auto simp: y_def)
    have e: "p div 9 + n = length (pre @ ys)" using x(2) ys(2) by simp
    have "do_mini_left_shift d l p q = Some (d\<lparr>word_buf := pre @ (ys @ [y]) @ post\<rparr>)"
      using False ys(1) y32 x(1) set_at_mid[OF e, of "last xs" post y] get_at_mid[OF e, of "last xs" post]
      by (simp add: do_mini_left_shift_def Let_def us t x(4)[simplified] umul_def y_def[symmetric])
    moreover have "length pre \<le> (p - l) div 9"
    proof -
      have "9 * (p div 9) \<le> p - l" using False l(3) mult_div_mod_eq[of 9 p] by linarith
      then show ?thesis unfolding x(2) by (simp add: less_eq_div_iff_mult_less_eq mult.commute)
    qed
    moreover have "length (ys @ [y]) = length xs" "below WORD_BASE (ys @ [y])" using ys(2,3) x(3) y by simp_all
    ultimately show ?thesis using win[OF _ x(1), of "ys @ [y]"] ys(4) bp(1) by simp
  next
    case True
    then have "\<not> p < 9" using l(3) by (cases "p < 9") auto
    then have "0 < p div 9" by (simp add: div_greater_zero_iff)
    then obtain pr z where pr: "pre = pr @ [z]" "length pr = p div 9 - 1"
      using x(2) by (metis append_butlast_last_id length_butlast less_numeral_extra(3) list.size(3))
    define c where "c = xs ! 0 div ?C"
    have "xs ! 0 < WORD_BASE" using x(3,5) by (auto intro: below_nth)
    then have c: "c < WORD_BASE" unfolding c_def by (meson div_le_dividend le_less_trans)
    obtain ys where ys: "mini_left_loop n (p div 9) l (9 - l) ((pr @ [c]) @ xs @ post) = Some ((pr @ [c]) @ ys @ last xs # post)"
      "length ys = n" "below WORD_BASE ys" "bval WORD_BASE (ys @ [y]) + c * WORD_BASE ^ Suc n = bval WORD_BASE xs * 10 ^ l"
      using mini_left_loop_ok[OF l(1,2) x(3,5), of "p div 9" "pr @ [c]"] pr \<open>0 < p div 9\<close> by (auto simp: y_def c_def)
    have up: "usub (p div 9) (Suc 0) = Some (p div 9 - Suc 0)" using \<open>0 < p div 9\<close> by (simp add: usub_def)
    have s1: "set_at (pre @ xs @ post) (p div 9 - 1) c = Some ((pr @ [c]) @ xs @ post)"
      using pr set_at_mid[of "p div 9 - 1" pr z "xs @ post" c] by simp
    have e: "p div 9 + n = length (pr @ [c] @ ys)" using pr(2) ys(2) \<open>0 < p div 9\<close> by simp
    have "do_mini_left_shift d l p q = Some (d\<lparr>word_buf := pr @ (c # ys @ [y]) @ post\<rparr>)"
      using True ys(1) y32 x(1) s1 gx \<open>0 < p div 9\<close>
        set_at_mid[OF e, of "last xs" post y] get_at_mid[OF e, of "last xs" post]
      by (simp add: do_mini_left_shift_def Let_def us t x(4)[simplified] umul_def y_def[symmetric] up c_def[symmetric])
    moreover have "length pr \<le> (p - l) div 9"
    proof -
      have "9 * (p div 9 - 1) \<le> p - l" using l(2,3) mult_div_mod_eq[of 9 p] \<open>0 < p div 9\<close> by linarith
      then show ?thesis unfolding pr(2) by (simp add: less_eq_div_iff_mult_less_eq mult.commute)
    qed
    moreover have "bval WORD_BASE (c # ys @ [y]) = bval WORD_BASE xs * 10 ^ l" using ys(2,4) by simp
    moreover have "word_buf d = pr @ (z # xs) @ post" using x(1) pr(1) by simp
    moreover have "length (c # ys @ [y]) = length (z # xs)" "below WORD_BASE (c # ys @ [y])" "below WORD_BASE pr"
      "length pr + length (c # ys @ [y]) = length pre + length xs"
      using ys(2,3) x(3) y c bp(1) pr(1) by simp_all
    ultimately show ?thesis using win[of pr "c # ys @ [y]" "z # xs"] by blast
  qed
qed

lemma mini_right_ok:
  assumes h: "holds (word_buf d) p q N" and b: "length (word_buf d) = 9" "below WORD_BASE (word_buf d)"
    and r: "1 \<le> r" "r \<le> 8" "q + r \<le> 81"
  shows "\<exists>buf. do_mini_right_shift d r p q = Some (d\<lparr>word_buf := buf\<rparr>) \<and> length buf = 9 \<and> below WORD_BASE buf \<and>
    holds buf (p + r) (q + r) N \<and> (\<forall>m. zout (word_buf d) p q m \<longrightarrow> zout buf (p + r) (q + r) m)"
proof -
  let ?R = "10 ^ r :: nat" and ?C = "10 ^ (9 - r) :: nat"
  obtain pre xs post n where x: "word_buf d = pre @ xs @ post" "length pre = p div 9" "length xs = Suc n" "(q - 1) div 9 = p div 9 + n"
    "below WORD_BASE xs" "bval WORD_BASE xs = N * 10 ^ (9 * (length pre + length xs) - q)" "q \<le> 9 * (length pre + length xs)"
    "p < q" "N < 10 ^ (q - p)" "10 ^ (9 * (length pre + length xs) - q) dvd last xs"
    "9 * (length pre + length xs) - q = 8 - (q - 1) mod 9"
    by (rule holds_cut[OF h b(2)])
  define k where "k = 9 * (length pre + length xs) - q"
  have bp: "below WORD_BASE pre" "below WORD_BASE post" using b(2) unfolding x(1) by simp_all
  have t: "get_at TEN_POW (9 - r) = Some ?C" "get_at TEN_POW r = Some ?R" using r by (simp_all add: get_at_def)
  have us: "usub 9 r = Some (9 - r)" "usub q (Suc 0) = Some (q - Suc 0)" using x(8) r by (simp_all add: usub_def)
  have q': "p + r < q + r" "N < 10 ^ (q + r - (p + r))" "length pre \<le> (p + r) div 9"
    using x(2,8,9) by (simp_all add: div_le_mono)
  have x0: "xs ! 0 div ?R < WORD_BASE"
  proof -
    have "xs ! 0 < WORD_BASE" using x(3,5) by (auto intro: below_nth)
    then show ?thesis by (meson div_le_dividend le_less_trans)
  qed
  have gl: "get_at (pre @ xs @ post) (p div 9 + n) = Some (last xs)"
  proof -
    have "xs \<noteq> []" using x(3) by auto
    then have "xs ! n = last xs" using x(3) by (simp add: last_conv_nth)
    then show ?thesis using x(2,3) by (simp add: get_at_def nth_append)
  qed
  have win: "\<exists>buf. do_mini_right_shift d r p q = Some (d\<lparr>word_buf := buf\<rparr>) \<and> length buf = 9 \<and> below WORD_BASE buf \<and>
      holds buf (p + r) (q + r) N \<and> (\<forall>m. zout (word_buf d) p q m \<longrightarrow> zout buf (p + r) (q + r) m)"
    if run: "do_mini_right_shift d r p q = Some (d\<lparr>word_buf := pre @ ws @ po\<rparr>)" and w: "word_buf d = pre @ zs @ po"
      "length ws = length zs" "length xs \<le> length ws" "below WORD_BASE ws" "below WORD_BASE po"
      "q + r \<le> 9 * (length pre + length ws)" "bval WORD_BASE ws = N * 10 ^ (9 * (length pre + length ws) - (q + r))" for ws zs po
  proof -
    note hw = holds_window[OF w(4) w(7) q'(1) w(6) q'(2,3), where post = po]
    have B: "(q - 1) div 9 < length pre + length zs" using w(2,3) x(2,3,4) by simp
    have "zout (pre @ ws @ po) (p + r) (q + r) m" if "zout (pre @ zs @ po) p q m" for m
      by (rule zout_window[OF that _ B w(2)]) (simp add: x(2), rule hw(2))
    moreover have "length (pre @ ws @ po) = 9" using b(1) w(1,2) by simp
    ultimately show ?thesis using run hw(1) w(1,4,5) bp(1) by (intro exI[of _ "pre @ ws @ po"]) simp
  qed
  show ?thesis
  proof (cases "8 - (q - 1) mod 9 < r")
    case False
    then have kr: "r \<le> k" using x(11) by (simp add: k_def)
    have "?R dvd last xs" using x(10) kr unfolding k_def by (meson dvd_trans le_imp_power_dvd)
    then obtain ys where ys: "mini_right_loop n (p div 9) r (9 - r) (pre @ xs @ post) = Some (pre @ xs ! 0 # ys @ post)"
      "length ys = n" "below WORD_BASE ys" "bval WORD_BASE ((xs ! 0 div ?R) # ys) * ?R = bval WORD_BASE xs"
      using mini_right_loop_ok[OF r(1,2) x(3,5) x(2)[symmetric]] by auto
    have e: "p div 9 = length pre" using x(2) by simp
    have run: "do_mini_right_shift d r p q = Some (d\<lparr>word_buf := pre @ ((xs ! 0 div ?R) # ys) @ post\<rparr>)"
      using False ys(1) x(1) set_at_mid[OF e, of "xs ! 0" "ys @ post" "xs ! 0 div ?R"] get_at_mid[OF e, of "xs ! 0" "ys @ post"]
      by (simp add: do_mini_right_shift_def Let_def us t x(4)[simplified])
    have "bval WORD_BASE ((xs ! 0 div ?R) # ys) * ?R = (N * 10 ^ (k - r)) * ?R"
      unfolding ys(4) x(6) k_def[symmetric] using kr by (simp add: mult.assoc flip: power_add)
    then have v: "bval WORD_BASE ((xs ! 0 div ?R) # ys) = N * 10 ^ (k - r)" by simp
    have len: "length ((xs ! 0 div ?R) # ys) = length xs" using ys(2) x(3) by simp
    have A: "q + r \<le> 9 * (length pre + length xs)" using kr x(7) unfolding k_def by linarith
    have B: "9 * (length pre + length xs) - (q + r) = k - r" by (simp add: k_def)
    show ?thesis
      by (rule win[OF run x(1) len _ _ bp(2)]) (unfold len B, simp, simp add: ys(3) x0, rule A, rule v)
  next
    case True
    then have kr: "k < r" using x(11) by (simp add: k_def)
    have "9 * (length pre + length xs) < 81" using kr r(3) x(7) unfolding k_def by linarith
    then have "0 < length post" using b(1) unfolding x(1) length_append distrib_left by linarith
    then obtain z po where po: "post = z # po" by (cases post) auto
    define y where "y = (last xs mod ?R) * ?C"
    have r': "1 \<le> 9 - r" "9 - r \<le> 8" "9 - (9 - r) = r" using r by simp_all
    have y: "y < WORD_BASE" using mini_split(3)[OF r'(1,2), of "last xs"] unfolding r'(3) y_def by (simp add: less_le_trans[rotated])
    then have y32: "y < 2 ^ 32" using WORD_BASE_u32(2) by simp
    obtain ys where ys: "mini_right_loop n (p div 9) r (9 - r) (pre @ xs @ y # po) = Some (pre @ xs ! 0 # ys @ y # po)"
      "length ys = n" "below WORD_BASE ys" "bval WORD_BASE ((xs ! 0 div ?R) # ys) * ?R + last xs mod ?R = bval WORD_BASE xs"
      using mini_right_loop_ok[OF r(1,2) x(3,5) x(2)[symmetric], of "y # po"] by auto
    have e: "p div 9 = length pre" "Suc (p div 9 + n) = length (pre @ xs)" using x(2,3) by simp_all
    have run: "do_mini_right_shift d r p q = Some (d\<lparr>word_buf := pre @ ((xs ! 0 div ?R) # ys @ [y]) @ po\<rparr>)"
      using True ys(1) x(1) y32 gl[unfolded po] set_at_mid[OF e(2), of z po y]
        set_at_mid[OF e(1), of "xs ! 0" "ys @ y # po" "xs ! 0 div ?R"] get_at_mid[OF e(1), of "xs ! 0" "ys @ y # po"]
      by (simp add: do_mini_right_shift_def Let_def us t x(4)[simplified] po umul_def y_def[symmetric])
    let ?v = "bval WORD_BASE ((xs ! 0 div ?R) # ys)"
    have "bval WORD_BASE (((xs ! 0 div ?R) # ys) @ [y]) = ?v * WORD_BASE + y" by (simp only: bval_append) simp
    then have "bval WORD_BASE ((xs ! 0 div ?R) # ys @ [y]) * ?R = (?v * ?R) * WORD_BASE + (last xs mod ?R) * (?C * ?R)"
      by (simp add: y_def algebra_simps)
    also have "\<dots> = (?v * ?R + last xs mod ?R) * WORD_BASE" unfolding mini_split(1)[OF r(1,2)] by (simp only: algebra_simps)
    also have "\<dots> = N * (10 ^ k * WORD_BASE)" unfolding ys(4) x(6) k_def by simp
    also have "10 ^ k * WORD_BASE = 10 ^ (k + 9 - r) * ?R" using r(2) unfolding WORD_BASE_pow power_add[symmetric] by simp
    finally have v: "bval WORD_BASE ((xs ! 0 div ?R) # ys @ [y]) = N * 10 ^ (k + 9 - r)" by simp
    have len: "length ((xs ! 0 div ?R) # ys @ [y]) = length (xs @ [z])" using ys(2) x(3) by simp
    have wd: "word_buf d = pre @ (xs @ [z]) @ po" by (simp add: x(1) po)
    have A: "q + r \<le> 9 * (length pre + length (xs @ [z]))" using x(7) r(2) by simp
    have B: "9 * (length pre + length (xs @ [z])) - (q + r) = k + 9 - r" using x(7) by (simp add: k_def)
    have bpo: "below WORD_BASE po" using bp(2) po by simp
    show ?thesis
      by (rule win[OF run wd len _ _ bpo]) (unfold len B, simp, simp add: ys(3) x0 y, rule A, rule v)
  qed
qed

section \<open>Moving words, verified\<close>

lemma pull_words_ok:
  "length pre = i \<Longrightarrow> length old = s \<Longrightarrow> length xs = n \<Longrightarrow>
   \<exists>rest. pull_words n i s (pre @ old @ xs @ post) = Some (pre @ xs @ rest @ post) \<and> length rest = s \<and> (\<forall>b. below b old \<longrightarrow> below b xs \<longrightarrow> below b rest)"
proof (induction n arbitrary: pre i old xs)
  case 0
  then show ?case by auto
next
  case (Suc n)
  obtain x ys where xs: "xs = x # ys" "length ys = n" using Suc.prems(3) by (cases xs) auto
  have g: "get_at (pre @ old @ x # ys @ post) (i + s) = Some x" using Suc.prems by (simp add: get_at_def nth_append)
  obtain o1 os where o: "(old @ [x]) = o1 # os" "length os = s" using Suc.prems(2) by (cases old) auto
  have st: "set_at (pre @ old @ x # ys @ post) i x = Some ((pre @ [x]) @ os @ ys @ post)"
  proof -
    have "pre @ old @ x # ys @ post = pre @ o1 # os @ ys @ post" using o(1) by (metis append.assoc append_Cons append_Nil)
    then show ?thesis using Suc.prems(1) set_at_mid[of i pre o1 "os @ ys @ post" x] by (simp only: append.assoc append_Cons append_Nil)
  qed
  have "length (pre @ [x]) = i + 1" using Suc.prems(1) by simp
  from Suc.IH[OF this o(2) xs(2)] obtain rest where rest:
    "pull_words n (i + 1) s ((pre @ [x]) @ os @ ys @ post) = Some ((pre @ [x]) @ ys @ rest @ post)" "length rest = s"
    "\<forall>b. below b os \<longrightarrow> below b ys \<longrightarrow> below b rest" by blast
  have "below b os" if "below b old" "x < b" for b
  proof -
    have "below b (o1 # os)" unfolding o(1)[symmetric] using that by simp
    then show ?thesis by simp
  qed
  then show ?case using rest by (intro exI[of _ rest]) (simp add: xs g st[simplified])
qed

lemma push_words_ok:
  "length pre + length xs = a \<Longrightarrow> length old = s \<Longrightarrow> length xs = n \<Longrightarrow> b = length pre + s \<Longrightarrow>
   \<exists>rest. push_words n b s (pre @ xs @ old @ post) = Some (pre @ rest @ xs @ post) \<and> length rest = s \<and> (\<forall>b. below b old \<longrightarrow> below b xs \<longrightarrow> below b rest)"
proof (induction n arbitrary: xs old post a)
  case 0
  then show ?case by auto
next
  case (Suc n)
  obtain ys x where xs: "xs = ys @ [x]" "length ys = n" using Suc.prems(3) by (cases xs rule: rev_cases) auto
  have g: "get_at (pre @ ys @ x # old @ post) (b + n - s) = Some x" using Suc.prems xs(2) by (simp add: get_at_def nth_append)
  have u: "usub (b + n) s = Some (b + n - s)" using Suc.prems(4) by (simp add: usub_def)
  have "x # old = butlast (x # old) @ [last (x # old)]" by (rule append_butlast_last_id[symmetric]) simp
  moreover have "length (butlast (x # old)) = s" unfolding length_butlast using Suc.prems(2) by simp
  ultimately obtain os o1 where o: "x # old = os @ [o1]" "length os = s" by blast
  have st: "set_at (pre @ ys @ x # old @ post) (b + n) x = Some (pre @ ys @ os @ x # post)"
  proof -
    have "pre @ ys @ x # old @ post = (pre @ ys @ os) @ o1 # post" using o(1) by (metis append.assoc append_Cons append_Nil)
    then show ?thesis using Suc.prems(4) xs(2) o(2) set_at_mid[of "b + n" "pre @ ys @ os" o1 post x] by (simp only: append.assoc append_Cons append_Nil length_append) (simp add: ac_simps)
  qed
  from Suc.IH[OF refl o(2) xs(2) Suc.prems(4), of "x # post"] obtain rest where rest:
    "push_words n b s (pre @ ys @ os @ x # post) = Some (pre @ rest @ ys @ x # post)" "length rest = s"
    "\<forall>b. below b os \<longrightarrow> below b ys \<longrightarrow> below b rest" by blast
  have "below b os" if "below b old" "x < b" for b
  proof -
    have "below b (os @ [o1])" unfolding o(1)[symmetric] using that by simp
    then show ?thesis by simp
  qed
  then show ?case using rest by (intro exI[of _ rest]) (simp add: xs g st u)
qed

end
