(* ===== verification/Decimal_Shift_Correct.thy ===== *)
theory Decimal_Shift_Correct
  imports Decimal_Shift
begin

text \<open>
  \<open>shift\<close> multiplies by a power of ten: the bounds of the digits, the moves of whole words, the
  words cleared around the point, and the value of the result.
\<close>

section \<open>Moving and clearing words\<close>

lemma as_unsigned_small: "0 \<le> x \<Longrightarrow> x < 2 ^ w \<Longrightarrow> as_unsigned w x = nat x"
  by (simp add: as_unsigned_def)

lemma sdiv_nat: "0 \<le> x \<Longrightarrow> sdiv x 9 = x div 9"
  by (auto simp: sdiv_def sgn_if)

lemma holds_cong:
  assumes "holds buf p q N" "length buf' = length buf"
    and "\<And>i. p div 9 \<le> i \<Longrightarrow> i \<le> (q - 1) div 9 \<Longrightarrow> buf' ! i = buf ! i"
  shows "holds buf' p q N"
proof -
  define a where "a = p div 9"
  define n where "n = (q - 1) div 9 + 1 - a"
  have "p < q" "q \<le> 9 * length buf" using assms(1) by (simp_all only: holds_def)
  then have "q - 1 < length buf * 9" by linarith
  then have "(q - 1) div 9 < length buf" by (rule less_mult_imp_div_less)
  then have n: "a + n \<le> length buf \<or> n = 0" "\<And>i. i < n \<Longrightarrow> a + i \<le> (q - 1) div 9" unfolding n_def by linarith+
  have "seg buf' a n = seg buf a n"
  proof (cases "n = 0")
    case False
    with n(1) show ?thesis using assms(2) n(2) assms(3) by (intro nth_equalityI) (simp_all add: a_def)
  qed simp
  then show ?thesis using assms(1,2) unfolding holds_def a_def n_def by simp
qed

lemma zero_words_nth:
  assumes "i + n \<le> length buf"
  obtains buf' where "zero_words n i buf = Some buf'" "length buf' = length buf"
    "\<And>j. j < length buf \<Longrightarrow> buf' ! j = (if i \<le> j \<and> j < i + n then 0 else buf ! j)"
    "below WORD_BASE buf \<Longrightarrow> below WORD_BASE buf'"
proof
  let ?b = "take i buf @ zeros n @ drop (i + n) buf"
  show "zero_words n i buf = Some ?b" using assms by (rule zero_words_range)
  show "length ?b = length buf" using assms by simp
  show "?b ! j = (if i \<le> j \<and> j < i + n then 0 else buf ! j)" if "j < length buf" for j
    using assms that by (auto simp: nth_append)
  show "below WORD_BASE buf \<Longrightarrow> below WORD_BASE ?b" by (auto intro: below_take below_drop)
qed

lemma shift_words_left:
  assumes h: "holds buf p q N" and b: "length buf = 9" "below WORD_BASE buf"
    and s: "0 < s" "s \<le> p div 9" and nf: "0 < nf" "nf div 9 = int s"
  shows "\<exists>buf'. shift_words buf nf p q = Some (buf', - int s * 9) \<and> length buf' = 9 \<and> below WORD_BASE buf' \<and>
    holds buf' (p - 9 * s) (q - 9 * s) N"
proof -
  obtain pre xs post n where x: "buf = pre @ xs @ post" "length pre = p div 9" "length xs = Suc n" "(q - 1) div 9 = p div 9 + n"
    "below WORD_BASE xs" "bval WORD_BASE xs = N * 10 ^ (9 * (length pre + length xs) - q)" "q \<le> 9 * (length pre + length xs)"
    "p < q" "N < 10 ^ (q - p)"
    by (rule holds_cut[OF h b(2)])
  define a where "a = p div 9"
  have an: "a + n < 9" using b(1) x(1,2,3) by (simp add: a_def)
  define pr old where po: "pr = take (a - s) pre" "old = drop (a - s) pre"
  have pre: "pre = pr @ old" "length pr = a - s" "length old = s" using s(2) x(2) by (simp_all add: po a_def)
  have bb: "below WORD_BASE pr" "below WORD_BASE old" "below WORD_BASE post" using b(2) unfolding x(1) pre(1) by simp_all
  obtain rest where rest: "pull_words (Suc n) (a - s) s (pr @ old @ xs @ post) = Some (pr @ xs @ rest @ post)" "length rest = s"
    using pull_words_ok[OF pre(2,3) x(3), of post] by blast
  have z: "zero_words s (a - s + Suc n) (pr @ xs @ rest @ post) = Some (pr @ xs @ zeros s @ post)"
    using zero_words_ok[of "pr @ xs" "a - s + Suc n" rest s post] pre(2) x(3) rest(2) by simp
  have sa: "s \<le> a" using s(2) by (simp add: a_def)
  have u: "usub q 1 = Some (q - 1)" using x(8) by (simp add: usub_def)
  have c: "as_unsigned 64 (int a - int s) = a - s" "as_unsigned 64 (int a + int n - int s) = a + n - s"
    using sa an by (simp_all add: as_unsigned_small nat_diff_distrib' of_nat_diff)
  have "shift_words buf nf p q = do {
      buf \<leftarrow> pull_words (a + n - s + 1 - (a - s)) (a - s) s buf;
      buf \<leftarrow> zero_words s (a + n - s + 1) buf;
      Some (buf, - int s * 9) }"
    using nf unfolding shift_words_def u bind.bind_lunit by (simp add: Let_def sdiv_nat x(4)[unfolded One_nat_def] c a_def[symmetric])
  also have "\<dots> = Some (pr @ xs @ zeros s @ post, - int s * 9)"
    using rest(1) z sa by (simp add: x(1) pre(1) Suc_diff_le)
  finally have run: "shift_words buf nf p q = Some (pr @ xs @ zeros s @ post, - int s * 9)" .
  have p9: "9 * s \<le> p" using sa unfolding a_def by (metis mult_le_mono2 order_trans times_div_less_eq_dividend)
  have l: "length pre + length xs = length pr + length xs + s" using pre sa by simp
  have v: "bval WORD_BASE xs = N * 10 ^ (9 * (length pr + length xs) - (q - 9 * s))"
    unfolding x(6) l using p9 x(8) by (simp add: algebra_simps)
  have le: "q - 9 * s \<le> 9 * (length pr + length xs)" using x(7) unfolding l by simp
  have a': "length pr \<le> (p - 9 * s) div 9" using pre(2) by (simp add: a_def div_mult_self_is_m)
  have "holds (pr @ xs @ zeros s @ post) (p - 9 * s) (q - 9 * s) N"
    by (rule holds_window(1)[OF x(5) v _ le _ a']) (use x(8,9) p9 in simp_all)
  moreover have "length (pr @ xs @ zeros s @ post) = 9" using b(1) unfolding x(1) pre(1) by (simp add: pre(3))
  ultimately show ?thesis using run bb x(5) by (intro exI[of _ "pr @ xs @ zeros s @ post"]) simp
qed

lemma shift_words_right:
  assumes h: "holds buf p q N" and b: "length buf = 9" "below WORD_BASE buf"
    and s: "(q - 1) div 9 + s \<le> 8"
  shows "\<exists>buf'. shift_words buf (- 9 * int s) p q = Some (buf', int s * 9) \<and> length buf' = 9 \<and> below WORD_BASE buf' \<and>
    holds buf' (p + 9 * s) (q + 9 * s) N"
proof -
  obtain pre xs post n where x: "buf = pre @ xs @ post" "length pre = p div 9" "length xs = Suc n" "(q - 1) div 9 = p div 9 + n"
    "below WORD_BASE xs" "bval WORD_BASE xs = N * 10 ^ (9 * (length pre + length xs) - q)" "q \<le> 9 * (length pre + length xs)"
    "p < q" "N < 10 ^ (q - p)"
    by (rule holds_cut[OF h b(2)])
  define a where "a = p div 9"
  have an: "a + n + s \<le> 8" using s x(4) by (simp add: a_def)
  have lp: "length post = 9 - (a + Suc n)" using b(1) x(1,2,3) by (simp add: a_def)
  define old po where po: "old = take s post" "po = drop s post"
  have post: "post = old @ po" "length old = s" using an lp by (simp_all add: po)
  have bb: "below WORD_BASE pre" "below WORD_BASE po" using b(2) unfolding x(1) post(1) by simp_all
  have pa: "length pre = a" using x(2) by (simp add: a_def)
  obtain rest where rest: "push_words (Suc n) (a + s) s (pre @ xs @ old @ po) = Some (pre @ rest @ xs @ po)" "length rest = s"
    using push_words_ok[OF refl post(2) x(3), of "a + s" pre po] pa by auto
  have z: "zero_words s a (pre @ rest @ xs @ po) = Some (pre @ zeros s @ xs @ po)"
    using zero_words_ok[of pre a rest s "xs @ po"] pa rest(2) by simp
  have u: "usub q 1 = Some (q - 1)" using x(8) by (simp add: usub_def)
  have c: "as_unsigned 64 (int a + int n + int s) = a + n + s" "as_unsigned 64 (int a + int s) = a + s" "usub (a + s) s = Some a"
    using an by (simp_all add: as_unsigned_small nat_add_distrib usub_def)
  have sd: "sdiv (1 - (- 9 * int s)) 9 = int s" "\<not> 0 < - 9 * int s" by (simp_all add: sdiv_nat)
  have "shift_words buf (- 9 * int s) p q = do {
      buf \<leftarrow> push_words (a + n + s + 1 - (a + s)) (a + s) s buf;
      buf \<leftarrow> zero_words s a buf;
      Some (buf, int s * 9) }"
    unfolding shift_words_def u bind.bind_lunit using sd by (simp del: push_words.simps add: Let_def x(4)[unfolded One_nat_def] c a_def[symmetric])
  also have "\<dots> = Some (pre @ zeros s @ xs @ po, int s * 9)"
    using rest(1) z by (simp add: x(1) post(1))
  finally have run: "shift_words buf (- 9 * int s) p q = Some (pre @ zeros s @ xs @ po, int s * 9)" .
  have l: "length (pre @ zeros s) + length xs = length pre + length xs + s" by simp
  have v: "bval WORD_BASE xs = N * 10 ^ (9 * (length (pre @ zeros s) + length xs) - (q + 9 * s))"
    unfolding x(6) l by (simp add: algebra_simps)
  have le: "q + 9 * s \<le> 9 * (length (pre @ zeros s) + length xs)" using x(7) unfolding l by simp
  have a': "length (pre @ zeros s) \<le> (p + 9 * s) div 9" using x(2) by simp
  have "holds ((pre @ zeros s) @ xs @ po) (p + 9 * s) (q + 9 * s) N"
    by (rule holds_window(1)[OF x(5) v _ le _ a']) (use x(8,9) in simp_all)
  moreover have "length (pre @ zeros s @ xs @ po) = 9" using b(1) unfolding x(1) post(1) by (simp add: post(2))
  ultimately show ?thesis using run bb x(5) by (intro exI[of _ "pre @ zeros s @ xs @ po"]) simp
qed

lemma shift_clear_ok:
  assumes h: "holds buf p q N" and b: "length buf = 9" "below WORD_BASE buf"
    and w: "iw + fw \<le> 9" "q \<le> 9 * (iw + fw)" "0 < iw \<Longrightarrow> p < 9"
      "0 < fw \<Longrightarrow> iw + fw = (q - 1) div 9 + 1" "fw = 0 \<Longrightarrow> (q - 1) div 9 + 1 \<le> iw"
  shows "\<exists>buf'. shift_clear buf (int (9 * iw)) p q = Some buf' \<and> length buf' = 9 \<and> below WORD_BASE buf' \<and>
    holds buf' p q N \<and> zout buf' p q (iw + fw)"
proof -
  define a e where ae: "a = p div 9" "e = (q - 1) div 9"
  have pq: "p < q" using h by (simp add: holds_def)
  have u: "usub q 1 = Some (q - 1)" using pq by (simp add: usub_def)
  have ale: "a \<le> e" unfolding ae using pq by (intro div_le_mono) simp
  have e9: "e < 9" using w(1,4,5) by (cases "fw = 0") (auto simp: ae(2))
  have npw: "(if int (9 * iw) \<noteq> 0 then sdiv (int (9 * iw) - 1) (int DIGITS_PER_WORD) else 0) = int (iw - 1)"
  proof (cases iw)
    case (Suc k)
    have "int (9 * iw) - 1 = 8 + 9 * int k" by (simp add: Suc)
    then show ?thesis by (simp add: sdiv_nat Suc)
  qed simp
  have run: "shift_clear buf (int (9 * iw)) p q =
      (if iw - 1 > e then zero_words (iw - 1 - e) (e + 1) buf else zero_words (a - (iw - 1)) (iw - 1) buf)"
  proof -
    have "as_unsigned 64 (int e + 1) = e + 1" "as_unsigned 64 (int (iw - 1)) = iw - 1"
      using e9 w(1) by (simp_all add: as_unsigned_small nat_add_distrib)
    then show ?thesis unfolding shift_clear_def u bind.bind_lunit Let_def npw
      by (simp add: ae[symmetric] nat_diff_distrib' flip: of_nat_diff One_nat_def)
  qed
  show ?thesis
  proof (cases "iw - 1 > e")
    case True
    then have f0: "fw = 0" using w(4) by (cases "fw = 0") (auto simp: ae(2))
    obtain buf' where z: "zero_words (iw - 1 - e) (e + 1) buf = Some buf'" "length buf' = length buf"
      "\<And>j. j < length buf \<Longrightarrow> buf' ! j = (if e + 1 \<le> j \<and> j < e + 1 + (iw - 1 - e) then 0 else buf ! j)"
      "below WORD_BASE buf \<Longrightarrow> below WORD_BASE buf'"
      using zero_words_nth[of "e + 1" "iw - 1 - e" buf] True w(1) b(1) by auto
    have "holds buf' p q N" by (rule holds_cong[OF h z(2)]) (use z(3) e9 b(1) in \<open>simp add: ae\<close>)
    moreover have "zout buf' p q (iw + fw)"
    proof -
      have "a = 0" using w(3) True by (simp add: ae(1))
      then show ?thesis using z(3) b(1) w(1) f0 by (auto simp: zout_def ae)
    qed
    ultimately show ?thesis using run True z b by auto
  next
    case False
    have aw: "a - (iw - 1) + (iw - 1) \<le> 9" using ale e9 w(1) by linarith
    obtain buf' where z: "zero_words (a - (iw - 1)) (iw - 1) buf = Some buf'" "length buf' = length buf"
      "\<And>j. j < length buf \<Longrightarrow> buf' ! j = (if iw - 1 \<le> j \<and> j < iw - 1 + (a - (iw - 1)) then 0 else buf ! j)"
      "below WORD_BASE buf \<Longrightarrow> below WORD_BASE buf'"
      using zero_words_nth[of "iw - 1" "a - (iw - 1)" buf] aw b(1) by (metis add.commute)
    have a0: "0 < iw \<Longrightarrow> a = 0" using w(3) by (simp add: ae(1))
    have "holds buf' p q N" by (rule holds_cong[OF h z(2)]) (use z(3) e9 b(1) a0 in \<open>auto simp: ae\<close>)
    moreover have "zout buf' p q (iw + fw)"
      unfolding zout_def ae[symmetric]
    proof (intro allI impI)
      fix i assume i: "i < iw + fw" "i < a \<or> e < i"
      have "iw + fw \<le> e + 1" using w(4,5) False by (cases "fw = 0") (auto simp: ae(2))
      then have ia: "i < a" using i by auto
      then have "iw = 0" using a0 by auto
      then show "buf' ! i = 0" using z(3)[of i] ia i(1) b(1) w(1) by simp
    qed
    ultimately show ?thesis using run False z b by auto
  qed
qed

section \<open>The value of a region\<close>

lemma region_value:
  assumes h: "holds buf p q N" and z: "zout buf p q (iw + fw)" and b: "length buf = 9" "below WORD_BASE buf"
    and w: "iw + fw \<le> 9" "q \<le> 9 * (iw + fw)" "word_cnt ic = iw" "word_cnt fc = fw"
    and d: "word_buf d = buf" "int_cnt d = ic" "frac_cnt d = fc"
  shows "mag d * 10 ^ q = of_nat N * 10 ^ (9 * iw)"
proof -
  obtain pre xs post n where x: "buf = pre @ xs @ post" "length pre = p div 9" "length xs = Suc n" "(q - 1) div 9 = p div 9 + n"
    "bval WORD_BASE xs = N * 10 ^ (9 * (length pre + length xs) - q)" "q \<le> 9 * (length pre + length xs)" "p < q"
    by (rule holds_cut[OF h b(2)])
  define m k where mk: "m = iw + fw" "k = length pre + length xs"
  have km: "k \<le> m"
  proof -
    have "q - 1 < m * 9" using w(2) x(7) unfolding mk by linarith
    then have "(q - 1) div 9 < m" by (rule less_mult_imp_div_less)
    then show ?thesis using x(2,3,4) by (simp add: mk)
  qed
  have tk: "take m buf = pre @ xs @ take (m - k) post" using km by (simp add: x(1) mk)
  have lt: "length (take (m - k) post) = m - k" using b(1) w(1) x(1) by (simp add: mk)
  have zpre: "bval WORD_BASE pre = 0"
  proof -
    have "\<forall>i < length pre. buf ! i = 0" using z km x(2) unfolding zout_def mk by auto
    then have "\<forall>w\<in>set pre. w = 0" by (auto simp: x(1) in_set_conv_nth nth_append)
    then show ?thesis by (simp add: bval_zero_iff)
  qed
  have zpost: "bval WORD_BASE (take (m - k) post) = 0"
  proof -
    have "post ! j = 0" if "j < m - k" for j
    proof -
      have "buf ! (k + j) = 0" using z that x(2,3,4) unfolding zout_def by (auto simp: mk)
      then show ?thesis using that nth_append[of "pre @ xs" post "k + j"] by (simp add: x(1) mk)
    qed
    then have "\<forall>w\<in>set (take (m - k) post). w = 0" using lt by (auto simp: in_set_conv_nth)
    then show ?thesis by (simp add: bval_zero_iff)
  qed
  have "bval WORD_BASE (take m buf) = bval WORD_BASE xs * WORD_BASE ^ (m - k)"
    unfolding tk by (simp add: bval_append zpre zpost lt del: length_take)
  then have "bval WORD_BASE (take m buf) * 10 ^ q = N * (10 ^ (9 * k - q) * 10 ^ q * 10 ^ (9 * (m - k)))"
    unfolding x(5) WORD_BASE_power mk(2)[symmetric] by simp
  also have "10 ^ (9 * k - q) * 10 ^ q * 10 ^ (9 * (m - k)) = (10 :: nat) ^ (9 * m)"
    using x(6) km unfolding mk(2)[symmetric] by (simp add: diff_mult_distrib2 flip: power_add)
  finally have "of_nat (bval WORD_BASE (take m buf)) * 10 ^ q = (of_nat N * 10 ^ (9 * iw)) * (10 ^ (9 * fw) :: rat)"
    by (metis (no_types) mk(1) distrib_left mult.assoc of_nat_mult of_nat_numeral of_nat_power power_add)
  moreover have B9: "(of_nat WORD_BASE :: rat) ^ fw = 10 ^ (9 * fw)" by (simp add: WORD_BASE_def power_mult)
  have "mag d * 10 ^ (9 * fw) = of_nat (bval WORD_BASE (take m buf))"
    using d w(3,4) unfolding mag_def used_def by (simp add: mk B9)
  ultimately have "(mag d * 10 ^ q) * 10 ^ (9 * fw) = (of_nat N * 10 ^ (9 * iw)) * (10 ^ (9 * fw) :: rat)"
    by (metis mult.assoc mult.commute)
  then show ?thesis by simp
qed

section \<open>The digit bounds\<close>

lemma count_leading_zeroes_ok:
  "i \<le> 9 \<Longrightarrow> 0 < w \<Longrightarrow> w < 10 ^ Suc i \<Longrightarrow>
   \<exists>D. 1 \<le> D \<and> D \<le> Suc i \<and> 10 ^ (D - 1) \<le> w \<and> w < 10 ^ D \<and> count_leading_zeroes i w = Some (Suc i - D)"
proof (induction i)
  case 0
  then show ?case by (intro exI[of _ 1]) (simp add: count_leading_zeroes.simps[of 0] get_at_def)
next
  case (Suc i)
  have g: "get_at TEN_POW (Suc i) = Some (10 ^ Suc i)" using Suc.prems(1) by (simp add: get_at_def)
  show ?case
  proof (cases "10 ^ Suc i > w")
    case True
    from Suc.IH[OF _ Suc.prems(2) True] obtain D where D: "1 \<le> D" "D \<le> Suc i" "10 ^ (D - 1) \<le> w" "w < 10 ^ D"
      "count_leading_zeroes i w = Some (Suc i - D)" using Suc.prems(1) by auto
    then have "count_leading_zeroes (Suc i) w = Some (Suc (Suc i) - D)"
      using True by (subst count_leading_zeroes.simps) (simp add: g Suc_diff_le del: power_Suc)
    then show ?thesis using D by (intro exI[of _ D]) simp
  next
    case False
    then have "count_leading_zeroes (Suc i) w = Some 0" by (subst count_leading_zeroes.simps) (simp add: g del: power_Suc)
    then show ?thesis using False Suc.prems(3) by (intro exI[of _ "Suc (Suc i)"]) simp
  qed
qed

lemma count_trailing_zeroes_ok:
  assumes "0 < w" "w < WORD_BASE"
  shows "1 \<le> i \<Longrightarrow> i \<le> 9 \<Longrightarrow> 10 ^ (i - 1) dvd w \<Longrightarrow>
    \<exists>T. i - 1 \<le> T \<and> T \<le> 8 \<and> 10 ^ T dvd w \<and> count_trailing_zeroes i w = Some (T - (i - 1))"
proof (induction "9 - i" arbitrary: i)
  case 0
  then have "i = 9" by simp
  moreover have "w mod WORD_BASE \<noteq> 0" using assms by simp
  ultimately show ?case using 0 by (intro exI[of _ 8]) (subst count_trailing_zeroes.simps, simp add: WORD_BASE_pow)
next
  case (Suc n)
  show ?case
  proof (cases "10 ^ i dvd w")
    case True
    have "n = 9 - Suc i" "1 \<le> Suc i" "Suc i \<le> 9" "10 ^ (Suc i - 1) dvd w" using Suc True by simp_all
    from Suc.hyps(1)[OF this] obtain T where T: "Suc i - 1 \<le> T" "T \<le> 8" "10 ^ T dvd w"
      "count_trailing_zeroes (Suc i) w = Some (T - (Suc i - 1))" by blast
    moreover have "count_trailing_zeroes i w = Some (T - (i - 1))"
      using True T(1,4) Suc.prems by (subst count_trailing_zeroes.simps) (simp add: dvd_eq_mod_eq_0 Suc_diff_le)
    ultimately show ?thesis by (intro exI[of _ T]) simp
  next
    case False
    have "count_trailing_zeroes i w = Some 0"
      using False Suc.prems by (subst count_trailing_zeroes.simps) (simp add: dvd_eq_mod_eq_0)
    then show ?thesis using Suc.prems Suc.hyps(2) by (intro exI[of _ "i - 1"]) simp
  qed
qed

lemma last_nonzero_ok:
  "a \<le> e \<Longrightarrow> e < length buf \<Longrightarrow> buf ! a \<noteq> 0 \<Longrightarrow>
   \<exists>k. last_nonzero buf a e = Some k \<and> a \<le> k \<and> k \<le> e \<and> buf ! k \<noteq> 0 \<and> (\<forall>j. k < j \<and> j \<le> e \<longrightarrow> buf ! j = 0)"
proof (induction "e - a" arbitrary: e)
  case 0
  then show ?case by (intro exI[of _ e]) (subst last_nonzero.simps, auto)
next
  case (Suc n)
  show ?case
  proof (cases "buf ! e = 0")
    case True
    have "n = e - 1 - a" "a \<le> e - 1" "e - 1 < length buf" using Suc by auto
    from Suc.hyps(1)[OF this Suc.prems(3)] obtain k where k: "last_nonzero buf a (e - 1) = Some k" "a \<le> k" "k \<le> e - 1"
      "buf ! k \<noteq> 0" "\<forall>j. k < j \<and> j \<le> e - 1 \<longrightarrow> buf ! j = 0" by blast
    have "last_nonzero buf a e = Some k" using k(1) True Suc.hyps(2) Suc.prems by (subst last_nonzero.simps) (auto simp: get_at_def)
    moreover have "\<forall>j. k < j \<and> j \<le> e \<longrightarrow> buf ! j = 0"
    proof (intro allI impI)
      fix j assume j: "k < j \<and> j \<le> e"
      then show "buf ! j = 0" using k(5) True by (cases "j = e") auto
    qed
    ultimately show ?thesis using k by (intro exI[of _ k]) auto
  next
    case False
    then have "last_nonzero buf a e = Some e" using Suc.hyps(2) Suc.prems by (subst last_nonzero.simps) (simp add: get_at_def)
    then show ?thesis using False Suc.prems by (intro exI[of _ e]) auto
  qed
qed

text \<open>A decimal whose last fraction word has no digits below the counted ones.\<close>

definition trail_ok :: "decimal \<Rightarrow> bool" where
  "trail_ok d \<longleftrightarrow> 10 ^ (9 * frac_words d - frac_cnt d) dvd bval WORD_BASE (used d)"

lemma word_cnt_Suc: "n \<le> 80 \<Longrightarrow> word_cnt (Suc n) = Suc (n div 9)"
  by (simp add: word_cnt_def)

lemma pred_div9: "0 < (n :: nat) \<Longrightarrow> n = Suc ((n - 1) mod 9) + 9 * ((n - 1) div 9)"
  using mod_mult_div_eq[of "n - 1" 9] by (cases n) simp_all

lemma dvd_last_word:
  assumes "k \<le> 9" "xs \<noteq> []"
  shows "(10 :: nat) ^ k dvd bval WORD_BASE xs \<longleftrightarrow> 10 ^ k dvd last xs"
proof -
  have "xs = butlast xs @ [last xs]" using assms(2) by simp
  then have "bval WORD_BASE xs = bval WORD_BASE (butlast xs) * WORD_BASE + last xs"
    using bval_append[of WORD_BASE "butlast xs" "[last xs]"] by simp
  moreover have "(10 :: nat) ^ k dvd bval WORD_BASE (butlast xs) * WORD_BASE"
    unfolding WORD_BASE_pow using assms(1) by (intro dvd_mult le_imp_power_dvd)
  ultimately show ?thesis by (simp add: dvd_add_right_iff)
qed

lemma lead_word:
  assumes "dec_ok d" "lead_ok d" "0 < int_cnt d"
  shows "word_buf d ! 0 < 10 ^ Suc ((int_cnt d - 1) mod 9)"
proof -
  define n where "n = (int_cnt d - 1) div 9"
  have le: "int_cnt d \<le> 81" using dec_okD(3)[OF assms(1)] by (intro word_cnt_less) simp
  then have iw: "int_words d = Suc n" using word_cnt_Suc[of "int_cnt d - 1"] assms(3) by (simp add: n_def)
  have "int_cnt d = Suc ((int_cnt d - 1) mod 9) + 9 * n" unfolding n_def using assms(3) by (rule pred_div9)
  then have "(10 :: rat) ^ int_cnt d = 10 ^ Suc ((int_cnt d - 1) mod 9) * 10 ^ (9 * n)" by (metis power_add)
  moreover have "of_nat (word_buf d ! 0) * of_nat WORD_BASE ^ n \<le> mag d" by (rule mag_head[OF assms(1) iw])
  moreover have "(of_nat WORD_BASE :: rat) ^ n = 10 ^ (9 * n)" by (simp add: WORD_BASE_def power_mult)
  ultimately have "of_nat (word_buf d ! 0) * (10 :: rat) ^ (9 * n) < 10 ^ Suc ((int_cnt d - 1) mod 9) * 10 ^ (9 * n)"
    using assms(2) unfolding lead_ok_def by (metis le_less_trans)
  then have "(of_nat (word_buf d ! 0) :: rat) < 10 ^ Suc ((int_cnt d - 1) mod 9)" by (simp only: mult_less_cancel_right) simp
  then show ?thesis by (metis of_nat_less_iff of_nat_numeral of_nat_power)
qed

lemma tail_word:
  assumes "dec_ok d" "trail_ok d" "0 < frac_cnt d"
  shows "10 ^ (8 - (frac_cnt d - 1) mod 9) dvd word_buf d ! (int_words d + frac_words d - 1)"
proof -
  have le: "frac_cnt d \<le> 81" using dec_okD(3)[OF assms(1)] by (intro word_cnt_less) simp
  then have fw: "frac_words d = Suc ((frac_cnt d - 1) div 9)" using word_cnt_Suc[of "frac_cnt d - 1"] assms(3) by simp
  define r where "r = (frac_cnt d - 1) mod 9"
  have r: "r < 9" "frac_cnt d = Suc r + 9 * ((frac_cnt d - 1) div 9)"
    unfolding r_def by (rule pos_mod9, rule pred_div9[OF assms(3)])
  have k: "9 * frac_words d - frac_cnt d = 8 - r" 
  proof -
    define m where "m = (frac_cnt d - 1) div 9"
    have "frac_cnt d = Suc r + 9 * m" "frac_words d = Suc m" using r(2) fw by (simp_all only: m_def)
    then show ?thesis using r(1) by simp
  qed
  have ne: "used d \<noteq> []" "last (used d) = word_buf d ! (int_words d + frac_words d - 1)"
  proof -
    have l: "length (used d) = int_words d + frac_words d" using dec_okD(1,3)[OF assms(1)] by (simp add: used_def)
    then show n: "used d \<noteq> []" using fw by auto
    show "last (used d) = word_buf d ! (int_words d + frac_words d - 1)"
      unfolding last_conv_nth[OF n] l using fw by (simp add: used_def)
  qed
  show ?thesis using assms(2) dvd_last_word[OF _ ne(1), of "8 - r"] unfolding trail_ok_def k ne(2) r_def by simp
qed

lemma digit_bounds_zero: "dec_ok d \<Longrightarrow> mag d = 0 \<Longrightarrow> digit_bounds d = Some (0, 0)"
proof -
  assume d: "dec_ok d" "mag d = 0"
  define L where "L = int_words d + frac_words d"
  have L: "0 < L" "L \<le> length (word_buf d)" using dec_okD[OF d(1)] by (auto simp: L_def)
  obtain a where a: "skip_zeros_up (word_buf d) 0 L = Some a" "a \<le> L" "a < L \<longrightarrow> word_buf d ! a \<noteq> 0"
    using skip_zeros_up_ok[of 0 L "word_buf d"] L by auto
  have "word_buf d ! a = 0" if "a < L"
    using d(2) that L unfolding mag_zero_iff used_def L_def[symmetric] by (metis in_set_conv_nth length_take min.absorb2 nth_take)
  then have "a = L" using a by (cases "a < L") auto
  then show ?thesis using a(1) L by (simp add: digit_bounds_def L_def[symmetric] Let_def usub_def)
qed

lemma region_of_words:
  assumes b: "length buf = 9" "below WORD_BASE buf" and ae: "a \<le> e" "e < 9"
    and D: "1 \<le> D" "D \<le> 9" "buf ! a < 10 ^ D" and T: "T \<le> 8" "10 ^ T dvd buf ! e" and nz: "buf ! a \<noteq> 0"
  shows "\<exists>N. holds buf (9 * a + 9 - D) (9 * e + 9 - T) N"
proof -
  define n where "n = e - a"
  define ws where "ws = seg buf a (Suc n)"
  have lw: "length ws = Suc n" "length (take a buf) = a" using b(1) ae by (simp_all add: ws_def n_def)
  have bw: "below WORD_BASE ws" unfolding ws_def using b(2) by (intro below_take below_drop)
  have ne: "ws \<noteq> []" using lw by auto
  have w0: "ws ! 0 = buf ! a" "last ws = buf ! e" using b(1) ae lw ne by (simp_all add: ws_def last_conv_nth n_def)
  obtain zs where ws: "ws = buf ! a # zs" "length zs = n" using w0(1) lw(1) by (cases ws) auto
  have "10 ^ T dvd bval WORD_BASE ws" using dvd_last_word[OF _ ne, of T] T w0(2) by simp
  then obtain N where N: "bval WORD_BASE ws = N * 10 ^ T" by (metis dvd_def mult.commute)
  have lt: "bval WORD_BASE ws < 10 ^ (9 * n + D)"
  proof -
    have "bval WORD_BASE ws < (buf ! a + 1) * WORD_BASE ^ n" using bval_head_less[of WORD_BASE zs "buf ! a"] bw ws by simp
    also have "\<dots> \<le> 10 ^ D * 10 ^ (9 * n)" unfolding WORD_BASE_power using D(3) by (intro mult_le_mono1) simp
    finally show ?thesis by (simp add: power_add mult.commute)
  qed
  have "0 < bval WORD_BASE ws" using nz ws by simp
  then have "1 * 10 ^ T \<le> bval WORD_BASE ws" unfolding N by (intro mult_le_mono1) (cases N; simp)
  then have "(10 :: nat) ^ T < 10 ^ (9 * n + D)" using lt by (simp only: mult_1 le_less_trans)
  then have TD: "T < 9 * n + D" by (rule power_less_imp_less_exp[rotated]) simp
  have en: "e = a + n" using ae by (simp add: n_def)
  have pq: "9 * a + 9 - D < 9 * e + 9 - T" "9 * e + 9 - T - (9 * a + 9 - D) = 9 * n + D - T"
    using TD T(1) D unfolding en by simp_all
  have lt2: "N < 10 ^ (9 * n + D - T)"
  proof -
    have "N * 10 ^ T < 10 ^ (9 * n + D - T) * 10 ^ T" using lt N TD by (simp flip: power_add)
    then show ?thesis by simp
  qed
  have v: "bval WORD_BASE ws = N * 10 ^ (9 * (length (take a buf) + length ws) - (9 * e + 9 - T))"
    unfolding N lw en using T(1) by simp
  have q: "9 * e + 9 - T \<le> 9 * (length (take a buf) + length ws)" unfolding lw en by simp
  have a: "length (take a buf) \<le> (9 * a + 9 - D) div 9" unfolding lw using D(2) by (simp add: less_eq_div_iff_mult_less_eq)
  have buf: "buf = take a buf @ ws @ drop (a + Suc n) buf"
    unfolding ws_def by (metis append_take_drop_id drop_drop add.commute)
  have "holds (take a buf @ ws @ drop (a + Suc n) buf) (9 * a + 9 - D) (9 * e + 9 - T) N"
    by (rule holds_window(1)[OF bw v pq(1) q _ a]) (unfold pq(2), rule lt2)
  then show ?thesis unfolding buf[symmetric] by blast
qed

text \<open>The free places of the last word.\<close>

lemma word_cnt_last:
  assumes "0 < n" "word_cnt n \<le> 9" shows "9 * word_cnt n = n + (8 - (n - 1) mod 9)"
proof -
  obtain m where m: "n = Suc m" using assms(1) by (cases n) auto
  have "m \<le> 80" using word_cnt_less[OF assms(2)] m by simp
  moreover have "9 * (m div 9) + m mod 9 = m" "m mod 9 \<le> 8" by (simp_all add: less_Suc_eq_le[symmetric])
  ultimately have "9 + 9 * (m div 9) = Suc m + (8 - m mod 9)" by linarith
  then show ?thesis unfolding m using \<open>m \<le> 80\<close> by (simp add: word_cnt_Suc)
qed

lemma digit_bounds_ok:
  assumes d: "dec_ok d" "lead_ok d" "trail_ok d" "mag d \<noteq> 0"
  shows "\<exists>p q N. digit_bounds d = Some (p, q) \<and> holds (word_buf d) p q N \<and>
    zout (word_buf d) p q (int_words d + frac_words d) \<and> q \<le> 9 * (int_words d + frac_words d) \<and>
    9 * int_words d \<le> p + int_cnt d \<and> q \<le> 9 * int_words d + frac_cnt d"
proof -
  note ok = dec_okD[OF d(1)]
  let ?b = "word_buf d"
  define L where "L = int_words d + frac_words d"
  have L: "0 < L" "L \<le> 9" "L \<le> length ?b" using ok by (auto simp: L_def)
  obtain a where a: "skip_zeros_up ?b 0 L = Some a" "a \<le> L" "\<forall>j<a. ?b ! j = 0" "a < L \<longrightarrow> ?b ! a \<noteq> 0"
    using skip_zeros_up_ok[of 0 L ?b] L by auto
  have aL: "a < L"
  proof (rule ccontr)
    assume "\<not> a < L"
    then have "\<forall>w\<in>set (used d). w = 0" using a(2,3) by (auto simp: used_def L_def[symmetric] in_set_conv_nth)
    then show False using d(4) by (simp add: mag_zero_iff)
  qed
  then have az: "?b ! a \<noteq> 0" using a(4) by simp
  obtain e where e: "last_nonzero ?b a (L - 1) = Some e" "a \<le> e" "e \<le> L - 1" "?b ! e \<noteq> 0" "\<forall>j. e < j \<and> j \<le> L - 1 \<longrightarrow> ?b ! j = 0"
  proof -
    have "a \<le> L - 1" "L - 1 < length ?b" using aL L by linarith+
    from last_nonzero_ok[OF this az] show thesis using that by blast
  qed
  define i where "i = (if a = 0 \<and> int_cnt d > 0 then (int_cnt d - 1) mod 9 else 8)"
  have i8: "i \<le> 8" by (simp add: i_def less_Suc_eq_le[symmetric])
  have lw: "?b ! a < WORD_BASE" "?b ! e < WORD_BASE" using ok(1,2) aL L e(3) by (auto intro!: below_nth)
  have "?b ! a < 10 ^ Suc i"
  proof (cases "a = 0 \<and> int_cnt d > 0")
    case True
    then show ?thesis using lead_word[OF d(1,2)] by (simp add: i_def)
  next
    case False
    then have "i = 8" unfolding i_def by (rule if_not_P)
    then show ?thesis using lw(1) by (simp add: WORD_BASE_def)
  qed
  then obtain D where D: "1 \<le> D" "D \<le> Suc i" "?b ! a < 10 ^ D" "count_leading_zeroes i (?b ! a) = Some (Suc i - D)"
    using count_leading_zeroes_ok[of i "?b ! a"] i8 az by auto
  define j where "j = (if e = L - 1 \<and> frac_cnt d > 0 then 9 - (frac_cnt d - 1) mod 9 else 1)"
  have j19: "1 \<le> j" "j \<le> 9" using pos_mod9[of "frac_cnt d - 1"] by (auto simp: j_def)
  have "10 ^ (j - 1) dvd ?b ! e"
  proof (cases "e = L - 1 \<and> frac_cnt d > 0")
    case True
    then have "j - 1 = 8 - (frac_cnt d - 1) mod 9" "e = int_words d + frac_words d - 1" by (simp_all add: j_def L_def)
    then show ?thesis using tail_word[OF d(1,3)] True by simp
  next
    case False
    then have "j = 1" unfolding j_def by (rule if_not_P)
    then show ?thesis by simp
  qed
  then obtain T where T: "j - 1 \<le> T" "T \<le> 8" "10 ^ T dvd ?b ! e" "count_trailing_zeroes j (?b ! e) = Some (T - (j - 1))"
    using count_trailing_zeroes_ok[of "?b ! e" j] lw(2) e(4) j19 by auto
  let ?p = "9 * a + 9 - D" and ?q = "9 * e + 9 - T"
  have bounds: "digit_bounds d = Some (?p, ?q)"
  proof -
    have 1: "(if a = 0 \<and> int_cnt d > 0
        then let i = (int_cnt d - 1) mod DIGITS_PER_WORD in (i, DIGITS_PER_WORD - i - 1)
        else (DIGITS_PER_WORD - 1, a * DIGITS_PER_WORD)) = (i, 9 * a + 8 - i)"
      by (auto simp: i_def Let_def)
    have 2: "(if e = L - 1 \<and> frac_cnt d > 0
        then let i = (frac_cnt d - 1) mod DIGITS_PER_WORD + 1 in (DIGITS_PER_WORD - i + 1, e * DIGITS_PER_WORD + i)
        else (1, (e + 1) * DIGITS_PER_WORD)) = (j, 9 * e + 10 - j)"
    proof (cases "e = L - 1 \<and> frac_cnt d > 0")
      case True
      define r where "r = (frac_cnt d - 1) mod 9"
      have "r < 9" by (simp add: r_def)
      moreover have "j = 9 - r" using True by (simp add: j_def r_def)
      ultimately show ?thesis using True by (simp add: Let_def r_def[symmetric, unfolded One_nat_def] Suc_diff_le)
    next
      case False
      then have "j = 1" unfolding j_def by (rule if_not_P)
      then show ?thesis using False by simp
    qed
    have 3: "uadd 8 (9 * a + 8 - i) (Suc i - D) = Some ?p" "usub (9 * e + 10 - j) (T - (j - 1)) = Some ?q"
    proof -
      have "9 * a + 8 - i + (Suc i - D) = ?p" "?p < 256" using D(1,2) i8 aL L(2) by linarith+
      then show "uadd 8 (9 * a + 8 - i) (Suc i - D) = Some ?p" by (simp add: uadd_def)
      have "T - (j - 1) \<le> 9 * e + 10 - j" "9 * e + 10 - j - (T - (j - 1)) = ?q" using T(1,2) j19 by linarith+
      then show "usub (9 * e + 10 - j) (T - (j - 1)) = Some ?q" by (simp add: usub_def)
    qed
    have g: "get_at ?b a = Some (?b ! a)" "get_at ?b e = Some (?b ! e)" using aL e(3) L ok(1) by (simp_all add: get_at_def)
    have u: "usub L 1 = Some (L - 1)" using L(1) by (simp add: usub_def)
    have na: "\<not> L \<le> a" using aL by simp
    show ?thesis unfolding digit_bounds_def Let_def[of "word_buf d"] L_def[symmetric] Let_def[of L] u bind.bind_lunit a(1) if_not_P[OF na]
        1 prod.case g e(1) 2 by (simp only: Let_def bind.bind_lunit prod.case D(4) T(4) 3)
  qed
  have "e < 9" "D \<le> 9" using D(2) i8 e(3) L by linarith+
  then obtain N where h: "holds ?b ?p ?q N"
    using region_of_words[OF ok(1,2) e(2) _ D(1) _ D(3) T(2,3) az] by blast
  have "?p div 9 = a" using D(1,2) i8 by (intro div_nat_eqI) simp_all
  moreover have "(?q - 1) div 9 = e" using T(2) by (intro div_nat_eqI) simp_all
  ultimately have "zout ?b ?p ?q L" using a(3) e(5) by (auto simp: zout_def)
  moreover have "?q \<le> 9 * L" using e(3) L by linarith
  moreover have "9 * int_words d \<le> ?p + int_cnt d"
  proof (cases "a = 0")
    case True
    have "9 * int_words d \<le> int_cnt d + (8 - i)" if "0 < int_cnt d"
      using word_cnt_last[of "int_cnt d"] ok(3) that True by (simp add: i_def)
    then show ?thesis using True D(2) i8 by (cases "int_cnt d = 0") auto
  next
    case False
    have "9 * int_words d \<le> int_cnt d + 8" using word_cnt_last[of "int_cnt d"] ok(3) by (cases "int_cnt d = 0") auto
    moreover have "9 \<le> ?p" using False D(2) i8 by linarith
    ultimately show ?thesis by linarith
  qed
  moreover have "?q \<le> 9 * int_words d + frac_cnt d"
  proof (cases "frac_cnt d = 0")
    case True
    then show ?thesis using calculation(2) by (simp add: L_def)
  next
    case False
    note fl = word_cnt_last[of "frac_cnt d"]
    show ?thesis
    proof (cases "e = L - 1")
      case True
      then have "j = 9 - (frac_cnt d - 1) mod 9" using False by (simp add: j_def)
      then have "9 * e + 9 - T \<le> 9 * L - (8 - (frac_cnt d - 1) mod 9)" using T(1) True L(1) by linarith
      then show ?thesis using fl ok(3) False by (simp add: L_def)
    next
      case no: False
      then have "9 * e + 9 \<le> 9 * (L - 1)" using e(3) by linarith
      then show ?thesis using fl ok(3) False by (simp add: L_def)
    qed
  qed
  ultimately show ?thesis using bounds h unfolding L_def by blast
qed

section \<open>The alignment\<close>

lemma mini_room:
  fixes np :: int
  assumes "l + r = 9" "np mod 9 = int l mod 9" "word_cnt (nat (np - int p)) + word_cnt (nat (int q - np)) \<le> 9"
  shows "l \<le> p \<or> q + r \<le> 81"
proof -
  define A B where AB: "A = word_cnt (nat (np - int p))" "B = word_cnt (nat (int q - np))"
  have "A \<le> 9" "B \<le> 9" using assms(3) by (simp_all add: AB)
  then have "nat (np - int p) \<le> A * 9" "nat (int q - np) \<le> B * 9" unfolding AB by (simp_all only: word_cnt_ge)
  then have 1: "np - int p \<le> 9 * int A" "int q - np \<le> 9 * int B" by linarith+
  obtain k where k: "np = 9 * k + int l"
  proof -
    have "9 dvd np - int l" using assms(2) by (simp add: mod_eq_dvd_iff)
    then obtain k where "np - int l = 9 * k" by (rule dvdE)
    then show thesis using that[of k] by simp
  qed
  show ?thesis
  proof (rule ccontr)
    assume "\<not> ?thesis"
    then have "int p + 1 \<le> int l" "82 \<le> int q + int r" by auto
    then have "9 * k < 9 * int A" "72 - 9 * k < 9 * int B" using 1 k assms(1) by linarith+
    then have "k < int A" "8 - k < int B" by linarith+
    then show False using assms(3) unfolding AB[symmetric] by linarith
  qed
qed

lemma shift_align_ok:
  fixes s :: int
  assumes h: "holds (word_buf d) p q N" and b: "length (word_buf d) = 9" "below WORD_BASE (word_buf d)"
    and s: "s mod 9 \<noteq> 0" and q: "q \<le> 81"
    and np: "np mod 9 = s mod 9" "word_cnt (nat (np - int p)) + word_cnt (nat (int q - np)) \<le> 9"
  shows "\<exists>buf m p' q'. shift_align d s 9 p q = Some (d\<lparr>word_buf := buf\<rparr>, m) \<and> length buf = 9 \<and> below WORD_BASE buf \<and>
    int p' = int p + m \<and> int q' = int q + m \<and> q' \<le> 81 \<and> m \<le> 8 \<and> (np + m) mod 9 = 0 \<and> holds buf p' q' N \<and>
    (\<forall>k. zout (word_buf d) p q k \<longrightarrow> zout buf p' q' k)"
proof -
  define l where "l = nat (s mod 9)"
  have l: "1 \<le> l" "l \<le> 8" "int l = s mod 9"
  proof -
    have "0 \<le> s mod 9" "s mod 9 < 9" by simp_all
    then show "1 \<le> l" "l \<le> 8" "int l = s mod 9" using s unfolding l_def by linarith+
  qed
  define r where "r = 9 - l"
  have r: "1 \<le> r" "r \<le> 8" "l + r = 9" using l by (simp_all add: r_def)
  have room: "l \<le> p \<or> q + r \<le> 81" by (rule mini_room[OF r(3) _ np(2)]) (simp add: np(1) l(3))
  have pq: "p < q" using h by (simp add: holds_def)
  have npl: "(np - int l) mod 9 = 0" "(np + int r) mod 9 = 0"
  proof -
    have "np mod 9 = int l mod 9" using np(1) l(3) by simp
    then show "(np - int l) mod 9 = 0" by (simp add: mod_eq_dvd_iff)
    then have "(np - int l + 9) mod 9 = 0" by presburger
    moreover have "np - int l + 9 = np + int r" using r(3) by linarith
    ultimately show "(np + int r) mod 9 = 0" by (simp only:)
  qed
  have run: "shift_align d s 9 p q =
      (if (if s > 0 then l \<le> p else 81 - q < r)
       then do { d \<leftarrow> do_mini_left_shift d l p q; Some (d, - int l) }
       else do { d \<leftarrow> do_mini_right_shift d r p q; Some (d, int r) })"
  proof (cases "s > 0")
    case True
    then have "srem s 9 = s mod 9" by (simp add: srem_def)
    then show ?thesis using True by (simp add: shift_align_def Let_def l_def r_def)
  next
    case False
    have "srem (- s) 9 = int r"
    proof -
      have "s \<noteq> 0" using s by auto
      then have "srem (- s) 9 = (- s) mod 9" using False by (simp add: srem_def)
      also have "\<dots> = int r" using s l r by (simp add: zmod_zminus1_eq_if r_def of_nat_diff)
      finally show ?thesis .
    qed
    moreover have "usub 81 q = Some (81 - q)" using q by (simp add: usub_def)
    moreover have "9 - r = l" using r by simp
    ultimately show ?thesis using False by (simp add: shift_align_def Let_def)
  qed
  show ?thesis
  proof (cases "if s > 0 then l \<le> p else 81 - q < r")
    case True
    then have lp: "l \<le> p" using room by (auto split: if_splits)
    from mini_left_ok[OF h b l(1,2) lp] obtain buf where buf: "do_mini_left_shift d l p q = Some (d\<lparr>word_buf := buf\<rparr>)"
      "length buf = 9" "below WORD_BASE buf" "holds buf (p - l) (q - l) N" "\<forall>m. zout (word_buf d) p q m \<longrightarrow> zout buf (p - l) (q - l) m" by blast
    have "int (p - l) = int p + - int l" "int (q - l) = int q + - int l" using lp pq by linarith+
    moreover have "(np + - int l) mod 9 = 0" using npl(1) by simp
    moreover have "shift_align d s 9 p q = Some (d\<lparr>word_buf := buf\<rparr>, - int l)" using run True buf(1) by simp
    ultimately show ?thesis using buf q by (intro exI[of _ buf] exI[of _ "- int l"] exI[of _ "p - l"] exI[of _ "q - l"]) simp
  next
    case False
    then have qr: "q + r \<le> 81" using room q by (auto split: if_splits)
    from mini_right_ok[OF h b r(1,2) qr] obtain buf where buf: "do_mini_right_shift d r p q = Some (d\<lparr>word_buf := buf\<rparr>)"
      "length buf = 9" "below WORD_BASE buf" "holds buf (p + r) (q + r) N" "\<forall>m. zout (word_buf d) p q m \<longrightarrow> zout buf (p + r) (q + r) m" by blast
    have "shift_align d s 9 p q = Some (d\<lparr>word_buf := buf\<rparr>, int r)" unfolding run if_not_P[OF False] buf(1) by simp
    then show ?thesis using buf qr npl(2) r by (intro exI[of _ buf] exI[of _ "int r"] exI[of _ "p + r"] exI[of _ "q + r"]) simp
  qed
qed

text \<open>The word moves that put the point at its new place.\<close>

lemma shift_move_ok:
  fixes np :: int
  assumes h: "holds buf p q N" and b: "length buf = 9" "below WORD_BASE buf" and np: "np mod 9 = 0"
    and w: "word_cnt (nat (np - int p)) + word_cnt (nat (int q - np)) \<le> 9"
  defines "ic \<equiv> nat (np - int p)"
  shows "\<exists>buf' c p' q'. (if np - int ic \<ge> 9 \<or> np - int ic < 0 then shift_words buf (np - int ic) p q else Some (buf, 0)) = Some (buf', c) \<and>
    length buf' = 9 \<and> below WORD_BASE buf' \<and> holds buf' p' q' N \<and> int p' = int p + c \<and> int q' = int q + c \<and>
    np + c = 9 * int (word_cnt ic) \<and> (0 < word_cnt ic \<longrightarrow> p' < 9)"
proof -
  obtain k where k: "np = 9 * k" using np by (metis dvd_eq_mod_eq_0 dvdE)
  have pq: "p < q" using h by (simp add: holds_def)
  show ?thesis
  proof (cases "int p \<le> np")
    case True
    define n where "n = nat np"
    have n: "np = int n" "ic = n - p" "p \<le> n" using True by (simp_all add: n_def ic_def nat_diff_distrib' le_nat_iff)
    have n9: "n = 9 * nat k" unfolding n_def k using True k by (simp add: nat_mult_distrib)
    have nf: "np - int ic = int p" using n by simp
    have ic81: "ic \<le> 81" using w word_cnt_less[of ic] by (simp add: ic_def)
    define a where "a = p div 9"
    have wc: "n - 9 * a = 9 * word_cnt ic"
    proof -
      define m where "m = nat k"
      have nm: "n = 9 * m" using n9 by (simp add: m_def)
      define r where "r = p mod 9"
      have pr: "p = 9 * a + r" "r < 9" by (simp_all add: a_def r_def)
      have am: "a \<le> m" using n(3) pr nm by linarith
      have "ic = 9 * (m - a) - r" using n(2) pr nm by (simp add: diff_mult_distrib2)
      then have "word_cnt ic = m - a" using ic81 pr(2) am by (auto simp: word_cnt_def)
      then show ?thesis using nm by (simp add: diff_mult_distrib2)
    qed
    have a9: "9 * a \<le> p" by (simp add: a_def)
    then have wci: "np + - int a * 9 = 9 * int (word_cnt ic)" using wc n(1,3) by linarith
    show ?thesis
    proof (cases "9 \<le> p")
      case 9: True
      then have a0: "0 < a" by (simp add: a_def div_greater_zero_iff)
      have "int p div 9 = int a" by (simp add: a_def zdiv_int)
      then obtain buf' where "shift_words buf (int p) p q = Some (buf', - int a * 9)" "length buf' = 9" "below WORD_BASE buf'"
        "holds buf' (p - 9 * a) (q - 9 * a) N"
        using shift_words_left[OF h b a0, of "int p"] 9 by (auto simp: a_def)
      moreover have "int (p - 9 * a) = int p + - int a * 9" "int (q - 9 * a) = int q + - int a * 9" using a9 pq by linarith+
      moreover have "p - 9 * a < 9" unfolding a_def by (simp add: minus_mult_div_eq_mod)
      ultimately show ?thesis unfolding nf using wci 9
        by (intro exI[of _ buf'] exI[of _ "- int a * 9"] exI[of _ "p - 9 * a"] exI[of _ "q - 9 * a"]) simp
    next
      case False
      then have "a = 0" by (simp add: a_def)
      then show ?thesis unfolding nf using wci False h b by (intro exI[of _ buf] exI[of _ 0] exI[of _ p] exI[of _ q]) simp
    qed
  next
    case False
    then have ic0: "ic = 0" by (simp add: ic_def)
    have "np \<ge> 9 \<or> np < 0 \<or> np = 0" unfolding k by presburger
    then consider "np \<ge> 9" | "np < 0" | "np = 0" by blast
    then show ?thesis
    proof cases
      case 1
      define s where "s = nat k"
      have s: "k = int s" "0 < s" using 1 k by (auto simp: s_def)
      have sp: "9 * s < p" using False k s by linarith
      then have "s \<le> p div 9" by (simp add: less_eq_div_iff_mult_less_eq)
      then obtain buf' where buf': "shift_words buf np p q = Some (buf', - int s * 9)" "length buf' = 9" "below WORD_BASE buf'"
        "holds buf' (p - 9 * s) (q - 9 * s) N"
        using shift_words_left[OF h b s(2), of np] k s by auto
      have "int (p - 9 * s) = int p + - int s * 9" "int (q - 9 * s) = int q + - int s * 9" using sp pq by linarith+
      then show ?thesis using buf' 1 ic0 k s
        by (intro exI[of _ buf'] exI[of _ "- int s * 9"] exI[of _ "p - 9 * s"] exI[of _ "q - 9 * s"]) simp
    next
      case 2
      define s where "s = nat (- k)"
      have s: "np = - 9 * int s" using 2 k by (auto simp: s_def)
      have "nat (int q - np) = q + 9 * s" using s by simp
      then have "q + 9 * s \<le> 81" using w word_cnt_less[of "q + 9 * s"] by simp
      then have "(q - 1 + s * 9) div 9 \<le> 80 div 9" using pq by (intro div_le_mono) linarith
      then have "(q - 1) div 9 + s \<le> 8" by simp
      then obtain buf' where "shift_words buf np p q = Some (buf', int s * 9)" "length buf' = 9" "below WORD_BASE buf'"
        "holds buf' (p + 9 * s) (q + 9 * s) N"
        using shift_words_right[OF h b, of s] unfolding s by blast
      then show ?thesis using 2 ic0 s by (intro exI[of _ buf'] exI[of _ "int s * 9"] exI[of _ "p + 9 * s"] exI[of _ "q + 9 * s"]) simp
    next
      case 3
      then show ?thesis using ic0 h b by (intro exI[of _ buf] exI[of _ 0] exI[of _ p] exI[of _ q]) simp
    qed
  qed
qed

section \<open>\<open>shift\<close>, verified\<close>

lemma mag_powi:
  assumes "mag d * 10 ^ q = of_nat N * 10 ^ (9 * iw)"
  shows "mag d = of_nat N * 10 powi (9 * int iw - int q)"
proof -
  have "mag d = of_nat N * (10 ^ (9 * iw) / 10 ^ q)" using assms by (simp add: field_simps)
  also have "(10 :: rat) ^ (9 * iw) / 10 ^ q = 10 powi (int (9 * iw) - int q)"
    by (subst power_int_diff) (simp, simp only: power_int_of_nat)
  finally show ?thesis by simp
qed

lemma point_words:
  fixes q iw fc :: nat
  assumes "0 < q" "fc = nat (int q - 9 * int iw)" "word_cnt fc \<le> 9"
  shows "q \<le> 9 * (iw + word_cnt fc)" "0 < word_cnt fc \<Longrightarrow> iw + word_cnt fc = (q - 1) div 9 + 1"
    "word_cnt fc = 0 \<Longrightarrow> (q - 1) div 9 + 1 \<le> iw"
proof -
  have fc: "fc = q - 9 * iw" using assms(2) by simp
  have "fc \<le> word_cnt fc * 9" using assms(3) by (rule word_cnt_ge)
  then show "q \<le> 9 * (iw + word_cnt fc)" using fc by simp
  show "iw + word_cnt fc = (q - 1) div 9 + 1" if "0 < word_cnt fc"
  proof -
    have pos: "0 < fc" using that by simp
    have "fc \<le> 81" using assms(3) by (rule word_cnt_less)
    then have "word_cnt fc = Suc ((fc - 1) div 9)" using word_cnt_Suc[of "fc - 1"] pos by simp
    moreover have "q - 1 = fc - 1 + iw * 9" using fc pos by simp
    then have "(q - 1) div 9 = iw + (fc - 1) div 9" by simp
    ultimately show ?thesis by simp
  qed
  show "(q - 1) div 9 + 1 \<le> iw" if "word_cnt fc = 0"
  proof -
    have "fc = 0" using that word_cnt_pos[of fc] by simp
    then have "q - 1 < iw * 9" using fc assms(1) by simp
    then have "(q - 1) div 9 < iw" by (rule less_mult_imp_div_less)
    then show ?thesis by simp
  qed
qed

lemma shifted_ok:
  fixes d :: decimal
  assumes h: "holds buf p q N" and z: "zout buf p q (word_cnt ic + word_cnt fc)" and b: "length buf = 9" "below WORD_BASE buf"
    and w: "word_cnt ic + word_cnt fc \<le> 9" "fc = nat (int q - 9 * int (word_cnt ic))"
  defines "d' \<equiv> d\<lparr>word_buf := buf, int_cnt := as_unsigned 8 (int ic), frac_cnt := as_unsigned 8 (int fc)\<rparr>"
  shows "dec_ok d' \<and> mag d' = of_nat N * 10 powi (9 * int (word_cnt ic) - int q)"
proof -
  have pq: "0 < q" using h by (simp add: holds_def)
  have w9: "word_cnt ic \<le> 9" "word_cnt fc \<le> 9" using w(1) by simp_all
  have "ic \<le> 81" "fc \<le> 81" using w9 by (auto intro: word_cnt_less)
  then have c: "int_cnt d' = ic" "frac_cnt d' = fc" "word_buf d' = buf" by (simp_all add: d'_def as_unsigned_small)
  note pw = point_words[OF pq w(2) w9(2)]
  have "0 < word_cnt ic + word_cnt fc" using pw(1) pq by (cases "word_cnt ic + word_cnt fc") auto
  then have "dec_ok d'" using b w(1) unfolding dec_ok_def c by auto
  moreover have "mag d' * 10 ^ q = of_nat N * 10 ^ (9 * word_cnt ic)"
    by (rule region_value[OF h z b w(1) pw(1) refl refl c(3,1,2)])
  ultimately show ?thesis using mag_powi by blast
qed

definition shift_fits :: "decimal \<Rightarrow> int \<Rightarrow> bool" where
  "shift_fits d s = (case digit_bounds d of None \<Rightarrow> False | Some (p, q) \<Rightarrow>
     let np = int (9 * int_words d) + s in
     p = q \<or> word_cnt (nat (np - int p)) + word_cnt (nat (int q - np)) \<le> 9)"

text \<open>It is enough that the digits counted on both sides of the new point fit.\<close>

lemma shift_fits_counts:
  assumes d: "dec_ok d" "lead_ok d" "trail_ok d"
    and w: "word_cnt (nat (int (int_cnt d) + s)) + word_cnt (nat (int (frac_cnt d) - s)) \<le> 9"
  shows "shift_fits d s"
proof (cases "mag d = 0")
  case True
  then show ?thesis using digit_bounds_zero[OF d(1)] by (simp add: shift_fits_def)
next
  case False
  obtain p q where pq: "digit_bounds d = Some (p, q)" "9 * int_words d \<le> p + int_cnt d" "q \<le> 9 * int_words d + frac_cnt d"
    using digit_bounds_ok[OF d False] by blast
  let ?np = "int (9 * int_words d) + s"
  have "nat (?np - int p) \<le> nat (int (int_cnt d) + s)" "nat (int q - ?np) \<le> nat (int (frac_cnt d) - s)"
    using pq(2,3) by linarith+
  then have "word_cnt (nat (?np - int p)) + word_cnt (nat (int q - ?np)) \<le> 9"
    using w by (meson add_mono order_trans word_cnt_mono)
  then show ?thesis using pq(1) by (simp add: shift_fits_def Let_def)
qed

lemma shift_fit_ok:
  assumes "word_cnt ic + word_cnt fc \<le> 9"
  shows "shift_fit d 9 p q point (int ic) (int fc) = Some (Inr (Ok d, q, int fc))"
  using assms by (simp add: shift_fit_def Let_def)

lemma srem9: "srem s 9 = 0 \<longleftrightarrow> s mod 9 = (0 :: int)"
  by (auto simp: srem_def sgn_if mod_eq_0_iff_dvd)

lemma align_step:
  fixes s :: int
  assumes h: "holds (word_buf d) p q N" and b: "length (word_buf d) = 9" "below WORD_BASE (word_buf d)" and q: "q \<le> 81"
    and np: "np mod 9 = s mod 9" "word_cnt (nat (np - int p)) + word_cnt (nat (int q - np)) \<le> 9"
  obtains buf m p' q' where
    "(if srem s 9 \<noteq> 0 then do { (d, m) \<leftarrow> shift_align d s 9 p q; Some (Ok d, m) } else Some (Ok d, 0)) = Some (Ok (d\<lparr>word_buf := buf\<rparr>), m)"
    "length buf = 9" "below WORD_BASE buf" "int p' = int p + m" "int q' = int q + m" "q' \<le> 81" "m \<le> 8" "(np + m) mod 9 = 0"
    "holds buf p' q' N" "\<And>k. zout (word_buf d) p q k \<Longrightarrow> zout buf p' q' k" "srem s 9 = 0 \<Longrightarrow> m = 0"
proof (cases "s mod 9 = 0")
  case True
  then have "srem s 9 = 0" by (simp add: srem9)
  moreover have "d\<lparr>word_buf := word_buf d\<rparr> = d" by simp
  ultimately show thesis using that[of "word_buf d" 0 p q] h b q np True by simp
next
  case False
  then have nz: "srem s 9 \<noteq> 0" by (simp add: srem9)
  from shift_align_ok[OF h b False q np] obtain buf m p' q' where
    "shift_align d s 9 p q = Some (d\<lparr>word_buf := buf\<rparr>, m)" "length buf = 9" "below WORD_BASE buf"
    "int p' = int p + m" "int q' = int q + m" "q' \<le> 81" "m \<le> 8" "(np + m) mod 9 = 0" "holds buf p' q' N"
    "\<forall>k. zout (word_buf d) p q k \<longrightarrow> zout buf p' q' k" by (elim exE conjE) (rule that)
  then show thesis using that[of buf m p' q'] nz by simp
qed

lemma small_cast: "n \<le> 89 \<Longrightarrow> as_signed 8 (int n) = int n"
  by (rule as_signed_id) (auto simp: in_signed_def)

lemma shift_dec_ok:
  assumes d: "dec_ok d" "lead_ok d" "trail_ok d" "mag d \<noteq> 0"
    and s: "s \<noteq> 0" "- 162 \<le> s" "s \<le> 162" and fits: "shift_fits d s"
  shows "\<exists>d'. shift_dec d s = Some (Ok d') \<and> mag d' = mag d * 10 powi s \<and> negative d' = negative d \<and> dec_ok d'"
proof -
  note ok = dec_okD[OF d(1)]
  define iw L where iw: "iw = int_words d" "L = int_words d + frac_words d"
  obtain p q N where pq: "digit_bounds d = Some (p, q)" "holds (word_buf d) p q N" "zout (word_buf d) p q L" "q \<le> 9 * L"
    using digit_bounds_ok[OF d] unfolding iw by blast
  have lt: "p < q" "q \<le> 81" using pq(2,4) ok(3) by (simp_all add: holds_def iw)
  define np where "np = int (9 * iw) + s"
  define ic fc where icfc: "ic = nat (np - int p)" "fc = nat (int q - np)"
  have w: "word_cnt ic + word_cnt fc \<le> 9" using fits pq(1) lt unfolding icfc np_def iw shift_fits_def by (simp add: Let_def)
  have mod: "np mod 9 = s mod 9" by (simp add: np_def)
  obtain buf1 m p1 q1 where st:
    "(if srem s 9 \<noteq> 0 then do { (d, m) \<leftarrow> shift_align d s 9 p q; Some (Ok d, m) } else Some (Ok d, 0)) = Some (Ok (d\<lparr>word_buf := buf1\<rparr>), m)"
    and b1: "length buf1 = 9" "below WORD_BASE buf1" and m: "int p1 = int p + m" "int q1 = int q + m" "q1 \<le> 81" "m \<le> 8" "(np + m) mod 9 = 0"
    and h1: "holds buf1 p1 q1 N" "\<And>k. zout (word_buf d) p q k \<Longrightarrow> zout buf1 p1 q1 k" "srem s 9 = 0 \<Longrightarrow> m = 0"
    by (rule align_step[OF pq(2) ok(1,2) lt(2) mod w[unfolded icfc]]) (rule that)
  have shifted: "np + m - int p1 = np - int p" "int q1 - (np + m) = int q - np" using m(1,2) by simp_all
  obtain buf2 c p2 q2 where mv: "(if np + m - int ic \<ge> 9 \<or> np + m - int ic < 0 then shift_words buf1 (np + m - int ic) p1 q1 else Some (buf1, 0)) = Some (buf2, c)"
    and b2: "length buf2 = 9" "below WORD_BASE buf2" and h2: "holds buf2 p2 q2 N"
    and c: "int p2 = int p1 + c" "int q2 = int q1 + c" "np + m + c = 9 * int (word_cnt ic)" "0 < word_cnt ic \<longrightarrow> p2 < 9"
    using shift_move_ok[OF h1(1) b1 m(5), unfolded shifted] w unfolding icfc by auto
  have fc: "fc = nat (int q2 - 9 * int (word_cnt ic))" unfolding icfc(2) c(3)[symmetric] using c(2) m(2) by simp
  have q2: "0 < q2" "p2 \<le> q2" "q2 \<le> 81" using h2 b2(1) by (simp_all add: holds_def)
  note pw = point_words[OF q2(1) fc, OF order_trans[OF le_add2 w]]
  have val: "of_nat N * 10 powi (9 * int (word_cnt ic) - int q2) = mag d * 10 powi s"
  proof -
    have "mag d = of_nat N * 10 powi (9 * int iw - int q)"
    proof (rule mag_powi)
      show "mag d * 10 ^ q = of_nat N * 10 ^ (9 * iw)" unfolding iw(1)
        by (rule region_value[OF pq(2) pq(3)[unfolded iw(2)] ok(1,2,3) pq(4)[unfolded iw(2)] refl refl refl refl refl])
    qed
    moreover have "9 * int (word_cnt ic) - int q2 = (9 * int iw - int q) + s" using c(2,3) m(2) by (simp add: np_def)
    ultimately show ?thesis by (simp add: power_int_add)
  qed
  define fin where "fin buf = d\<lparr>word_buf := buf, int_cnt := as_unsigned 8 (int ic), frac_cnt := as_unsigned 8 (int fc)\<rparr>" for buf
  have ifs: "(if np < int p then 0 else np - int p) = int ic" "(if np > int q then 0 else int q - np) = int fc"
    by (simp_all add: icfc)
  have pt: "int (int_words d * DIGITS_PER_WORD) + s = np" by (simp add: np_def iw)
  have upper: "umul 8 DIGITS_PER_WORD 9 = Some 81" "umul 8 81 2 = Some 162" by (simp_all add: umul_def)
  let ?early = "srem s 9 \<noteq> 0 \<and> s + m = 0 \<and> np + m - int ic < 9"
  have run: "shift_dec d s = (if ?early then Some (Ok (fin buf1)) else do { buf \<leftarrow> shift_clear buf2 (np + m + c) p2 q2; Some (Ok (fin buf)) })"
  proof -
    have p1: "p1 < q1" using h1(1) by (simp add: holds_def)
    have sc: "scheck 8 (as_signed 8 (int p) + m) = Some (int p1)" "scheck 8 (as_signed 8 (int q) + m) = Some (int q1)"
      using lt m p1 by (simp_all add: small_cast scheck_def in_signed_def)
    have cu: "as_unsigned 8 (int p1) = p1" "as_unsigned 8 (int q1) = q1" "as_unsigned 8 (int p1 + c) = p2" "as_unsigned 8 (int q1 + c) = q2"
      unfolding c(1,2)[symmetric] using p1 m(3) q2 by (simp_all add: as_unsigned_small)
    have same: "(if srem s (int DIGITS_PER_WORD) \<noteq> 0 then (p1, q1) else (p, q)) = (p1, q1)" using h1(3) m(1,2) by auto
    have ne: "p \<noteq> q" using lt by simp
    have lim: "\<not> int 162 < s" "\<not> s < - int 162" using s by simp_all
    have st': "(if srem s (int DIGITS_PER_WORD) \<noteq> 0 then do { (d', m) \<leftarrow> shift_align (deref (Ok d)) s 9 p q; Some (res_map (\<lambda>_. d') (Ok d), m) } else Some (Ok d, 0)) =
        Some (Ok (d\<lparr>word_buf := buf1\<rparr>), m)" using st by (cases "srem s 9 = 0") simp_all
    have mv': "(if int DIGITS_PER_WORD \<le> np + m - int ic \<or> np + m - int ic < 0
        then shift_words (word_buf (deref (Ok (d\<lparr>word_buf := buf1\<rparr>)))) (np + m - int ic) p1 q1
        else Some (word_buf (deref (Ok (d\<lparr>word_buf := buf1\<rparr>))), 0)) = Some (buf2, c)" using mv by (auto split: if_splits)
    show ?thesis
      unfolding shift_dec_def shift_with_word_buf_len_def WORD_BUF_LEN_def if_not_P[OF s(1)] pq(1) bind.bind_lunit prod.case if_not_P[OF ne]
        upper if_not_P[OF lim(1)] if_not_P[OF lim(2)] Let_def pt ifs shift_fit_ok[OF w] sum.case st' sc
      unfolding bind.bind_lunit prod.case sc unfolding bind.bind_lunit cu unfolding same unfolding prod.case mv' bind.bind_lunit
      unfolding prod.case cu by (simp add: fin_def)
  qed
  have early: "dec_ok (fin buf1) \<and> mag (fin buf1) = mag d * 10 powi s" if e: "?early"
  proof -
    have np1: "np + m = int (9 * iw)" using e by (simp add: np_def)
    have "0 \<le> np + m - int ic" unfolding icfc(1) shifted(1)[symmetric] using np1 by simp
    then have c0: "c = 0" "buf2 = buf1" using mv e by (simp_all split: if_splits)
    have pp: "p2 = p1" "q2 = q1" using c(1,2) c0(1) by simp_all
    have iww: "word_cnt ic = iw" using c(3) c0(1) np1 by simp
    have "zout buf1 p1 q1 (word_cnt ic + word_cnt fc)"
      unfolding zout_def
    proof (intro allI impI)
      fix i assume i: "i < word_cnt ic + word_cnt fc" "i < p1 div 9 \<or> (q1 - 1) div 9 < i"
      have "p1 < Suc L * 9" using m(1,4) lt(1) pq(4) by simp
      then have "p1 div 9 < Suc L" by (rule less_mult_imp_div_less)
      moreover have "(q1 - 1) div 9 < i \<Longrightarrow> i < L"
      proof -
        assume a: "(q1 - 1) div 9 < i"
        then have "word_cnt fc = 0" using pw(2) i(1) unfolding pp by (cases "word_cnt fc = 0") auto
        then show "i < L" using i(1) iww by (simp add: iw)
      qed
      ultimately have "i < L" using i(2) by linarith
      then show "buf1 ! i = 0" using h1(2)[OF pq(3)] i(2) unfolding zout_def by blast
    qed
    from shifted_ok[OF h1(1) this b1 w fc[unfolded pp], of d] show ?thesis
      using val unfolding fin_def pp by simp
  qed
  have late: "\<exists>buf. shift_clear buf2 (np + m + c) p2 q2 = Some buf \<and> dec_ok (fin buf) \<and> mag (fin buf) = mag d * 10 powi s"
  proof -
    have p9: "0 < word_cnt ic \<Longrightarrow> p2 < 9" using c(4) by simp
    obtain buf where buf: "shift_clear buf2 (int (9 * word_cnt ic)) p2 q2 = Some buf" "length buf = 9" "below WORD_BASE buf"
      "holds buf p2 q2 N" "zout buf p2 q2 (word_cnt ic + word_cnt fc)"
      using shift_clear_ok[OF h2 b2 w pw(1) p9 pw(2,3)] by blast
    moreover have "np + m + c = int (9 * word_cnt ic)" using c(3) by simp
    ultimately show ?thesis using shifted_ok[OF buf(4,5,2,3) w fc, of d] val unfolding fin_def by simp
  qed
  have neg: "negative (fin buf) = negative d" for buf by (simp add: fin_def)
  show ?thesis
  proof (cases ?early)
    case True
    then show ?thesis using early[OF True] run neg by auto
  next
    case False
    then show ?thesis using late run neg by auto
  qed
qed

lemma shift_dec_parts:
  assumes d: "dec_ok d" "lead_ok d" "trail_ok d" and s: "- 162 \<le> s" "s \<le> 162" "shift_fits d s"
  obtains d' where "shift_dec d s = Some (Ok d')" "mag d' = mag d * 10 powi s" "dec_ok d'"
    "if s = 0 then d' = d else if mag d = 0 then d' = zero_dec else negative d' = negative d"
proof -
  consider "s = 0" | "s \<noteq> 0" "mag d = 0" | "s \<noteq> 0" "mag d \<noteq> 0" by blast
  then show thesis
  proof cases
    case 1
    then have "shift_dec d s = Some (Ok d)" by (simp add: shift_dec_def shift_with_word_buf_len_def)
    then show thesis using that[of d] 1 d(1) by simp
  next
    case 2
    then have "shift_dec d s = Some (Ok zero_dec)"
      using digit_bounds_zero[OF d(1)] by (simp add: shift_dec_def shift_with_word_buf_len_def)
    then show thesis using that[of zero_dec] 2 by simp
  next
    case 3
    then show thesis using shift_dec_ok[OF d 3(2,1) s] that by auto
  qed
qed

section \<open>Properties\<close>

text \<open>
  C25: \<open>shift\<close> multiplies by a power of ten. For a well-formed decimal without stray digits around
  the counted ones and a shift whose result fits the nine words of the buffer, \<open>shift\<close> returns
  \<open>Ok\<close> of a well-formed decimal whose value is exactly the value times \<open>10 ^ s\<close>; no step panics.\<close>

theorem shift_exact:
  assumes "dec_ok d" "lead_ok d" "trail_ok d" "shift_fits d s" "- 162 \<le> s" "s \<le> 162"
  shows "\<exists>d'. shift_dec d s = Some (Ok d') \<and> dec_value d' = dec_value d * 10 powi s \<and> dec_ok d'"
proof -
  consider "s = 0" | "s \<noteq> 0" "mag d = 0" | "s \<noteq> 0" "mag d \<noteq> 0" by blast
  then show ?thesis
  proof cases
    case 1
    then show ?thesis using assms(1) by (simp add: shift_dec_def shift_with_word_buf_len_def)
  next
    case 2
    then have "shift_dec d s = Some (Ok zero_dec)"
      using digit_bounds_zero[OF assms(1)] by (simp add: shift_dec_def shift_with_word_buf_len_def)
    then show ?thesis using 2 by (auto simp: dec_value_def)
  next
    case 3
    from shift_dec_ok[OF assms(1-3) 3(2,1) assms(5,6,4)] obtain d' where "shift_dec d s = Some (Ok d')"
      "mag d' = mag d * 10 powi s" "negative d' = negative d" "dec_ok d'" by blast
    then show ?thesis by (auto simp: dec_value_def)
  qed
qed

theorem shift_exact_witness:
  "\<exists>d'. shift_dec (dec_words 5 3 True [12345, 678000000]) (- 4) = Some (Ok d') \<and>
     dec_value d' = - 12345678 / 10000000 \<and> dec_ok d'"
proof -
  let ?d = "dec_words 5 3 True [12345, 678000000]"
  have ok: "dec_ok ?d" by (simp add: dec_ok_def below_def dec_words_defs)
  have m: "mag ?d = 12345678 / 1000" by (simp add: mag_def used_def WORD_BASE_def dec_words_defs)
  have "lead_ok ?d" unfolding lead_ok_def m by (simp add: dec_words_defs)
  moreover have "trail_ok ?d" by (simp add: trail_ok_def used_def WORD_BASE_def dec_words_defs)
  moreover have "shift_fits ?d (- 4)" by code_simp
  ultimately obtain d' where "shift_dec ?d (- 4) = Some (Ok d')" "dec_value d' = dec_value ?d * 10 powi (- 4)" "dec_ok d'"
    using shift_exact[OF ok, of "- 4"] by auto
  moreover have "dec_value ?d * 10 powi (- 4) = - 12345678 / 10000000"
    unfolding dec_value_def m by (simp add: dec_words_defs power_int_minus)
  ultimately show ?thesis by metis
qed

text \<open>
  A shift that rounds may lose the carry. Shifting the greatest 81-digit number right by one
  place rounds \<open>99...99.9\<close> up to \<open>10^80\<close>, but the word the carry needs is dropped: the result is
  \<open>10^71\<close>, tagged as truncated only.\<close>

theorem shift_loses_carry:
  "dec_value (dec_words 81 0 False (replicate 9 999999999)) = of_nat (10 ^ 81 - 1) \<and>
   shift_dec (dec_words 81 0 False (replicate 9 999999999)) (-1) = Some (Truncated (dec_words 80 0 False [0, 100000000])) \<and>
   dec_value (dec_words 80 0 False [0, 100000000]) = 10 ^ 71"
proof (intro conjI)
  let ?d = "dec_words 81 0 False (replicate 9 999999999)"
  have "bval WORD_BASE (used ?d) = 10 ^ 81 - 1" by code_simp
  then show "dec_value ?d = of_nat (10 ^ 81 - 1)" unfolding dec_value_def mag_def by (simp add: dec_words_defs)
  show "shift_dec ?d (-1) = Some (Truncated (dec_words 80 0 False [0, 100000000]))" by code_simp
  show "dec_value (dec_words 80 0 False [0, 100000000]) = 10 ^ 71" by (simp add: dec_value_def mag_def dec_words_defs)
qed

end
