(* ===== verification/Parse_Int.thy ===== *)
theory Parse_Int
  imports Errors
begin

text \<open>
  The integer parsers of \<open>src/allegro_poset/convert.rs\<close> that need no context:
  \<open>bytes_to_int_without_context\<close> and \<open>bytes_to_uint_without_context\<close>. Bytes are natural numbers.
\<close>

section \<open>Bytes\<close>

definition is_digit :: "nat \<Rightarrow> bool" where
  "is_digit c \<longleftrightarrow> 48 \<le> c \<and> c \<le> 57"

definition is_blank :: "nat \<Rightarrow> bool" where
  "is_blank b \<longleftrightarrow> b = 32 \<or> b = 9"

definition digit_val :: "nat \<Rightarrow> nat" where
  "digit_val c = c - 48"

lemma digit_val_less: "is_digit c \<Longrightarrow> digit_val c < 10"
  by (auto simp: is_digit_def digit_val_def)

section \<open>The parsers\<close>

text \<open>The loop over the digits; \<open>None\<close> is an overflow, which ends the loop.\<close>

fun acc_int :: "bool \<Rightarrow> nat list \<Rightarrow> int \<Rightarrow> int option" where
  "acc_int neg [] r = Some r"
| "acc_int neg (c # cs) r = do {
     r \<leftarrow> scheck 64 (r * 10);
     r \<leftarrow> scheck 64 (if neg then r - int (digit_val c) else r + int (digit_val c));
     acc_int neg cs r }"

definition bytes_to_int_without_context :: "nat list \<Rightarrow> int fresult" where
  "bytes_to_int_without_context bytes =
     (case dropWhile is_blank bytes of
        [] \<Rightarrow> Inr 0
      | c # cs \<Rightarrow>
          if c \<noteq> 45 \<and> \<not> is_digit c \<and> c \<noteq> 43 then Inr 0
          else (case acc_int (c = 45) (takeWhile is_digit cs) (if is_digit c then int c - 48 else 0) of
                  None \<Rightarrow> Inl (over_causetxctx ''BIGINT'' '''')
                | Some r \<Rightarrow> Inr r))"

fun acc_uint :: "nat list \<Rightarrow> nat \<Rightarrow> nat option" where
  "acc_uint [] r = Some r"
| "acc_uint (c # cs) r = do {
     r \<leftarrow> umul 64 r 10;
     r \<leftarrow> uadd 64 r (digit_val c);
     acc_uint cs r }"

definition bytes_to_uint_without_context :: "nat list \<Rightarrow> nat fresult" where
  "bytes_to_uint_without_context bytes =
     (case dropWhile is_blank bytes of
        [] \<Rightarrow> Inr 0
      | c # cs \<Rightarrow>
          if \<not> is_digit c \<and> c \<noteq> 43 then Inr 0
          else (case acc_uint (takeWhile is_digit cs) (if is_digit c then c - 48 else 0) of
                  None \<Rightarrow> Inl (over_causetxctx ''BIGINT UNSIGNED'' '''')
                | Some r \<Rightarrow> Inr r))"

section \<open>Digit strings\<close>

abbreviation digits_val :: "nat list \<Rightarrow> nat" where
  "digits_val cs \<equiv> bval 10 (map digit_val cs)"

lemma acc_grow: "0 \<le> r \<Longrightarrow> r * 10 \<le> r * 10 ^ Suc n + int m"
  by (simp add: mult_left_mono add_increasing2)

lemma acc_int_pos:
  "list_all is_digit cs \<Longrightarrow> 0 \<le> r \<Longrightarrow> in_signed 64 r \<Longrightarrow>
   acc_int False cs r = scheck 64 (r * 10 ^ length cs + int (digits_val cs))"
proof (induction cs arbitrary: r)
  case Nil
  then show ?case by (simp add: scheck_def)
next
  case (Cons c cs)
  let ?r = "r * 10 + int (digit_val c)"
  have v: "r * 10 ^ length (c # cs) + int (digits_val (c # cs)) = ?r * 10 ^ length cs + int (digits_val cs)"
    by (simp add: algebra_simps)
  have ge: "?r \<le> ?r * 10 ^ length cs + int (digits_val cs)"
    using Cons.prems(2) by (simp add: add_increasing2 mult_le_cancel_left1)
  show ?case
  proof (cases "in_signed 64 ?r")
    case True
    have "in_signed 64 (r * 10)" using True Cons.prems(2) by (auto simp: in_signed_def)
    then show ?thesis using True Cons.IH[of ?r] Cons.prems unfolding v by (simp add: scheck_def)
  next
    case False
    then have "\<not> in_signed 64 (?r * 10 ^ length cs + int (digits_val cs))"
      using ge Cons.prems(2) by (auto simp: in_signed_def)
    then show ?thesis using False unfolding v by (auto simp: scheck_def)
  qed
qed

lemma acc_int_neg:
  "list_all is_digit cs \<Longrightarrow> r \<le> 0 \<Longrightarrow> in_signed 64 r \<Longrightarrow>
   acc_int True cs r = scheck 64 (r * 10 ^ length cs - int (digits_val cs))"
proof (induction cs arbitrary: r)
  case Nil
  then show ?case by (simp add: scheck_def)
next
  case (Cons c cs)
  let ?r = "r * 10 - int (digit_val c)"
  have v: "r * 10 ^ length (c # cs) - int (digits_val (c # cs)) = ?r * 10 ^ length cs - int (digits_val cs)"
    by (simp add: algebra_simps)
  have le: "?r * 10 ^ length cs - int (digits_val cs) \<le> ?r"
  proof -
    have "?r * 10 ^ length cs \<le> ?r * 1" using Cons.prems(2) by (intro mult_left_mono_neg) simp_all
    then show ?thesis by simp
  qed
  show ?case
  proof (cases "in_signed 64 ?r")
    case True
    have "in_signed 64 (r * 10)" using True Cons.prems(2) by (auto simp: in_signed_def)
    then show ?thesis using True Cons.IH[of ?r] Cons.prems unfolding v by (simp add: scheck_def)
  next
    case False
    then have "\<not> in_signed 64 (?r * 10 ^ length cs - int (digits_val cs))"
      using le Cons.prems(2) by (auto simp: in_signed_def)
    then show ?thesis using False unfolding v by (auto simp: scheck_def)
  qed
qed

lemma acc_uint_ok:
  "list_all is_digit cs \<Longrightarrow> r < 2 ^ 64 \<Longrightarrow>
   acc_uint cs r = (if r * 10 ^ length cs + digits_val cs < 2 ^ 64 then Some (r * 10 ^ length cs + digits_val cs) else None)"
proof (induction cs arbitrary: r)
  case Nil
  then show ?case by simp
next
  case (Cons c cs)
  let ?r = "r * 10 + digit_val c"
  have v: "r * 10 ^ length (c # cs) + digits_val (c # cs) = ?r * 10 ^ length cs + digits_val cs"
    by (simp add: algebra_simps)
  have ge: "?r \<le> ?r * 10 ^ length cs + digits_val cs" by (simp add: trans_le_add1)
  show ?case
  proof (cases "?r < 2 ^ 64")
    case True
    then have "acc_uint (c # cs) r = acc_uint cs ?r" by (simp add: umul_def uadd_def)
    then show ?thesis using Cons.IH[OF _ True] Cons.prems(1) unfolding v by simp
  next
    case False
    then have "\<not> ?r * 10 ^ length cs + digits_val cs < 2 ^ 64" using ge by linarith
    moreover have "acc_uint (c # cs) r = None" using False by (auto simp: umul_def uadd_def)
    ultimately show ?thesis unfolding v by simp
  qed
qed

text \<open>What a signed digit string with blanks in front denotes.\<close>

definition sign_byte :: "nat list \<Rightarrow> bool" where
  "sign_byte sg \<longleftrightarrow> sg = [] \<or> sg = [43] \<or> sg = [45]"

definition signed_val :: "nat list \<Rightarrow> nat list \<Rightarrow> int" where
  "signed_val sg cs = (if sg = [45] then - int (digits_val cs) else int (digits_val cs))"

lemma blank_facts [simp]: "\<not> is_blank 43" "\<not> is_blank 45" "is_digit c \<Longrightarrow> \<not> is_blank c" "\<not> is_digit 43" "\<not> is_digit 45"
  by (auto simp: is_blank_def is_digit_def)

lemma dropWhile_blanks:
  "list_all is_blank bl \<Longrightarrow> ys = [] \<or> \<not> is_blank (ys ! 0) \<Longrightarrow> dropWhile is_blank (bl @ ys) = ys"
  by (induction bl) (cases ys; auto)+

lemma takeWhile_digits:
  "list_all is_digit cs \<Longrightarrow> rest = [] \<or> \<not> is_digit (rest ! 0) \<Longrightarrow> takeWhile is_digit (cs @ rest) = cs"
  by (induction cs) (cases rest; auto)+

lemma int_parse:
  assumes "list_all is_blank bl" "sign_byte sg" "list_all is_digit cs" "cs \<noteq> []" "rest = [] \<or> \<not> is_digit (rest ! 0)"
  shows "bytes_to_int_without_context (bl @ sg @ cs @ rest) =
    (if in_signed 64 (signed_val sg cs) then Inr (signed_val sg cs) else Inl (over_causetxctx ''BIGINT'' ''''))"
proof -
  obtain c ds where cs: "cs = c # ds" "is_digit c" "list_all is_digit ds" using assms(3,4) by (cases cs) auto
  have tw: "takeWhile is_digit (cs @ rest) = cs" "takeWhile is_digit (ds @ rest) = ds"
    using takeWhile_digits assms(3,5) cs(3) by blast+
  have dw: "dropWhile is_blank (bl @ sg @ cs @ rest) = sg @ cs @ rest"
    using assms(1,2) cs by (intro dropWhile_blanks) (auto simp: sign_byte_def)
  have c: "in_signed 64 (int (digit_val c))" "int c - 48 = int (digit_val c)"
    using cs(2) by (auto simp: in_signed_def is_digit_def digit_val_def)
  have z: "in_signed 64 0" by (simp add: in_signed_def)
  consider "sg = []" | "sg = [43]" | "sg = [45]" using assms(2) by (auto simp: sign_byte_def)
  then show ?thesis
  proof cases
    case 1
    have "acc_int False ds (int (digit_val c)) = scheck 64 (int (digits_val cs))"
      using acc_int_pos[OF cs(3) _ c(1)] by (simp add: cs(1))
    moreover have "c \<noteq> 45" using cs(2) by auto
    ultimately show ?thesis unfolding bytes_to_int_without_context_def dw using 1 cs tw c(2)
      by (auto simp: signed_val_def scheck_def)
  next
    case 2
    have "acc_int False cs 0 = scheck 64 (int (digits_val cs))" using acc_int_pos[OF assms(3) _ z] by simp
    then show ?thesis unfolding bytes_to_int_without_context_def dw using 2 tw by (auto simp: signed_val_def scheck_def)
  next
    case 3
    have "acc_int True cs 0 = scheck 64 (- int (digits_val cs))" using acc_int_neg[OF assms(3) _ z] by simp
    then show ?thesis unfolding bytes_to_int_without_context_def dw using 3 tw by (auto simp: signed_val_def scheck_def)
  qed
qed

section \<open>Properties\<close>

text \<open>
  C26: the \<open>i64\<close> parser reads the number a string starts with. After any blanks and an optional
  sign, the longest digit string is read as a decimal number; the result is that number when it
  fits an \<open>i64\<close> (down to and including the least one) and the out-of-range error otherwise,
  whatever follows the digits.\<close>

theorem bytes_to_int_parses:
  assumes "list_all is_blank bl" "sign_byte sg" "list_all is_digit cs" "cs \<noteq> []" "rest = [] \<or> \<not> is_digit (rest ! 0)"
  shows "bytes_to_int_without_context (bl @ sg @ cs @ rest) =
    (if in_signed 64 (signed_val sg cs) then Inr (signed_val sg cs) else Inl (over_causetxctx ''BIGINT'' ''''))"
  using assms by (rule int_parse)

theorem bytes_to_int_parses_witness:
  "bytes_to_int_without_context ([32, 9] @ [45] @ [52, 50] @ [46, 53]) = Inr (- 42)"
proof -
  have "bytes_to_int_without_context ([32, 9] @ [45] @ [52, 50] @ [46, 53]) =
    (if in_signed 64 (signed_val [45] [52, 50]) then Inr (signed_val [45] [52, 50]) else Inl (over_causetxctx ''BIGINT'' ''''))"
    by (rule bytes_to_int_parses) (simp_all add: is_blank_def sign_byte_def is_digit_def)
  also have "\<dots> = Inr (- 42)" by (simp add: signed_val_def digit_val_def in_signed_def)
  finally show ?thesis .
qed

end
