(* ===== verification/Decimal_Text.thy ===== *)
theory Decimal_Text
  imports Decimal_Shift_Correct Parse_Int
begin

text \<open>
  Decimals as text: \<open>prepare_buf\<close>, \<open>to_string\<close>, \<open>first_non_digit\<close>, \<open>from_bytes_with_word_buf\<close> and
  \<open>from_str\<close> of \<open>src/berolinasql/src/decimal.rs\<close>. A string is the list of its bytes. The function
  \<open>escape\<close> of the utility crate, which only formats the text of two errors, is a parameter.
\<close>

section \<open>Printing\<close>

text \<open>The capacity of the output, the first word to print, the digit counts.\<close>

definition prepare_buf :: "decimal \<Rightarrow> (nat \<times> nat \<times> nat \<times> nat \<times> nat) option" where
  "prepare_buf d = do {
     let fc = frac_cnt d;
     (word_start_idx, ic) \<leftarrow> remove_leading_zeroes d (int_cnt d);
     t \<leftarrow> uadd 8 ic fc;
     let (ic, word_start_idx) = (if t = 0 then (1, 0) else (ic, word_start_idx));
     let int_len = max 1 ic;
     len \<leftarrow> uadd 8 int_len fc;
     len \<leftarrow> (if negative d then uadd 8 len 1 else Some len);
     len \<leftarrow> (if fc > 0 then uadd 8 len 1 else Some len);
     Some (len, word_start_idx, int_len, ic, fc) }"

text \<open>\<open>for _ in 0..n { idx -= 1; buf[idx] = b'0' + x % 10; x /= 10 }\<close>, written from the end.\<close>

fun put_digits :: "nat \<Rightarrow> nat \<Rightarrow> nat list \<Rightarrow> nat list" where
  "put_digits 0 x out = out"
| "put_digits (Suc n) x out = put_digits n (x div 10) ((48 + x mod 10) # out)"

text \<open>\<open>while idx > base_idx\<close>, \<open>k\<close> digits being left.\<close>

function int_digits :: "nat list \<Rightarrow> nat \<Rightarrow> nat \<Rightarrow> nat list \<Rightarrow> nat list option" where
  "int_digits buf widx k out =
     (if k > 0
      then do {
        widx \<leftarrow> usub widx 1;
        x \<leftarrow> get_at buf widx;
        let n = min k DIGITS_PER_WORD;
        int_digits buf widx (k - n) (put_digits n x out) }
      else Some out)"
  by pat_completeness auto
termination
  by (relation "measure (\<lambda>(buf, widx, k, out). k)") auto

text \<open>\<open>for _ in 0..n { buf.push(x / DIG_MASK + b'0'); x = (x % DIG_MASK) * 10 }\<close>\<close>

fun push_digits :: "nat \<Rightarrow> nat \<Rightarrow> nat list \<Rightarrow> nat list option" where
  "push_digits 0 x out = Some out"
| "push_digits (Suc n) x out = do {
     c \<leftarrow> uadd 8 (x div DIG_MASK mod 256) 48;
     push_digits n ((x mod DIG_MASK) * 10) (out @ [c]) }"

text \<open>\<open>while buf.len() < exp_idx\<close>, \<open>k\<close> digits being left.\<close>

function frac_digits :: "nat list \<Rightarrow> nat \<Rightarrow> nat \<Rightarrow> nat list \<Rightarrow> nat list option" where
  "frac_digits buf widx k out =
     (if k > 0
      then do {
        x \<leftarrow> get_at buf widx;
        let n = min k DIGITS_PER_WORD;
        out \<leftarrow> push_digits n x out;
        frac_digits buf (widx + 1) (k - n) out }
      else Some out)"
  by pat_completeness auto
termination
  by (relation "measure (\<lambda>(buf, widx, k, out). k)") auto

declare int_digits.simps [simp del] frac_digits.simps [simp del]

definition to_string :: "decimal \<Rightarrow> nat list option" where
  "to_string d = do {
     (capacity, word_start_idx, int_len, ic, fc) \<leftarrow> prepare_buf d;
     let out = (if negative d then [45] else []);
     let out = out @ replicate (int_len - max ic 1) 48;
     ds \<leftarrow> (if ic > 0
           then int_digits (word_buf d) (word_start_idx + word_cnt ic) ic []
           else Some [48]);
     let out = out @ ds;
     if fc > 0
     then do {
       out \<leftarrow> frac_digits (word_buf d) (word_start_idx + word_cnt ic) fc (out @ [46]);
       Some (out @ replicate (capacity - length out) 48) }
     else Some out }"

text \<open>\<open>Display\<close>: the decimal is first rounded to its result scale.\<close>

definition display :: "decimal \<Rightarrow> nat list option" where
  "display d = do {
     r \<leftarrow> round_dec d (as_signed 8 (int (result_frac_cnt d))) HalfEven;
     to_string (deref r) }"

section \<open>Parsing\<close>

definition first_non_digit :: "nat list \<Rightarrow> nat \<Rightarrow> nat" where
  "first_non_digit bs start_idx =
     (if start_idx \<le> length bs then start_idx + length (takeWhile is_digit (drop start_idx bs)) else length bs)"

definition is_ascii_whitespace :: "nat \<Rightarrow> bool" where
  "is_ascii_whitespace c \<longleftrightarrow> c = 32 \<or> c = 9 \<or> c = 10 \<or> c = 12 \<or> c = 13"

text \<open>The loop over the integer digits, from the last one, and the store after it.\<close>

fun parse_int_words :: "nat list \<Rightarrow> nat \<Rightarrow> nat \<Rightarrow> nat \<Rightarrow> nat list \<Rightarrow> nat list option" where
  "parse_int_words [] inner_idx word_idx w buf =
     (if inner_idx \<noteq> 0
      then do { word_idx \<leftarrow> usub word_idx 1; set_at buf word_idx w }
      else Some buf)"
| "parse_int_words (c # cs) inner_idx word_idx w buf = do {
     v \<leftarrow> usub c 48;
     p \<leftarrow> get_at TEN_POW inner_idx;
     t \<leftarrow> umul 32 v p;
     w \<leftarrow> uadd 32 w t;
     if inner_idx + 1 = DIGITS_PER_WORD
     then do {
       word_idx \<leftarrow> usub word_idx 1;
       buf \<leftarrow> set_at buf word_idx w;
       parse_int_words cs 0 word_idx 0 buf }
     else parse_int_words cs (inner_idx + 1) word_idx w buf }"

text \<open>The loop over the fraction digits and the store after it.\<close>

fun parse_frac_words :: "nat list \<Rightarrow> nat \<Rightarrow> nat \<Rightarrow> nat \<Rightarrow> nat list \<Rightarrow> nat list option" where
  "parse_frac_words [] inner_idx word_idx w buf =
     (if inner_idx \<noteq> 0
      then do {
        p \<leftarrow> get_at TEN_POW (DIGITS_PER_WORD - inner_idx);
        x \<leftarrow> umul 32 w p;
        set_at buf word_idx x }
      else Some buf)"
| "parse_frac_words (c # cs) inner_idx word_idx w buf = do {
     v \<leftarrow> usub c 48;
     t \<leftarrow> umul 32 w 10;
     w \<leftarrow> uadd 32 v t;
     if inner_idx + 1 = DIGITS_PER_WORD
     then do {
       buf \<leftarrow> set_at buf word_idx w;
       parse_frac_words cs 0 (word_idx + 1) 0 buf }
     else parse_frac_words cs (inner_idx + 1) word_idx w buf }"

text \<open>The exponent: the decimal is shifted, or replaced by the extreme ones.\<close>

definition apply_exponent :: "int \<Rightarrow> decimal res \<Rightarrow> (decimal res + decimal res) option" where
  "apply_exponent ex d =
     (if ex > sdiv (2 ^ 31 - 1) 2
      then do {
        m \<leftarrow> max_or_min_dec (negative (deref d)) (WORD_BUF_LEN * DIGITS_PER_WORD) 0;
        Some (Inl (OverCausetxctx m)) }
      else if ex < sdiv (- (2 ^ 31)) 2 \<and> \<not> is_overCausetxctx d then Some (Inl (Truncated zero_dec))
      else if \<not> is_overCausetxctx d
      then do {
        r \<leftarrow> shift_dec (deref d) ex;
        case r of
          OverCausetxctx v \<Rightarrow> do {
            m \<leftarrow> max_or_min_dec (negative v) (WORD_BUF_LEN * DIGITS_PER_WORD) 0;
            Some (Inr (OverCausetxctx m)) }
        | Ok v \<Rightarrow> Some (Inr (if is_truncated d then Truncated v else Ok v))
        | Truncated v \<Rightarrow> Some (Inr (Truncated v)) }
      else Some (Inr d))"

text \<open>The end of the parser: no negative zero, and the result scale.\<close>

definition finish_parse :: "decimal res \<Rightarrow> decimal res" where
  "finish_parse d = res_map (\<lambda>v. v\<lparr>
     negative := (if list_all (\<lambda>c. c = 0) (word_buf v) then False else negative v),
     result_frac_cnt := frac_cnt v\<rparr>) d"

text \<open>The number behind the sign.\<close>

definition parse_number_bytes ::
    "(nat list \<Rightarrow> string) \<Rightarrow> nat list \<Rightarrow> bool \<Rightarrow> nat list \<Rightarrow> nat \<Rightarrow> decimal res fresult option" where
  "parse_number_bytes escape s neg bs word_buf_len = do {
     let int_idx = first_non_digit bs 0;
     let (end_idx, fc) =
       (if int_idx < length bs \<and> bs ! int_idx = 46
        then (first_non_digit bs (int_idx + 1), first_non_digit bs (int_idx + 1) - int_idx - 1)
        else (int_idx, 0));
     let ic = int_idx;
     if ic + fc = 0
     then Some (Inl (box_err (''\"'' @ escape s @ ''\" is invalid number'')))
     else do {
       let res = fix_word_cnt_err (word_cnt ic) (word_cnt fc) word_buf_len;
       let (int_word_cnt, frac_word_cnt) = deref res;
       let fc = (if is_ok res then fc else frac_word_cnt * DIGITS_PER_WORD);
       let ic = (if is_overCausetxctx res then int_word_cnt * DIGITS_PER_WORD else ic);
       let d = new_dec (ic mod 256) (fc mod 256) neg;
       start \<leftarrow> usub int_idx ic;
       ids \<leftarrow> slice_at bs start int_idx;
       buf \<leftarrow> parse_int_words (rev ids) 0 int_word_cnt 0 (word_buf d);
       buf \<leftarrow> parse_frac_words (take fc (drop (int_idx + 1) bs)) 0 int_word_cnt 0 buf;
       let d = res_map (\<lambda>_. d\<lparr>word_buf := buf\<rparr>) res;
       if end_idx < length bs \<and> (bs ! end_idx = 101 \<or> bs ! end_idx = 69)
       then (case bytes_to_int_without_context (drop (end_idx + 1) bs) of
               Inl e \<Rightarrow> Some (Inl e)
             | Inr ex \<Rightarrow> do {
                 r \<leftarrow> apply_exponent ex d;
                 Some (Inr (case r of Inl d \<Rightarrow> d | Inr d \<Rightarrow> finish_parse d)) })
       else Some (Inr (finish_parse d)) } }"

definition from_bytes_with_word_buf ::
    "(nat list \<Rightarrow> string) \<Rightarrow> nat list \<Rightarrow> nat \<Rightarrow> decimal res fresult option" where
  "from_bytes_with_word_buf escape s word_buf_len =
     (case dropWhile is_ascii_whitespace s of
        [] \<Rightarrow> Some (Inl (box_err (''\"'' @ escape s @ ''\" is empty'')))
      | b # rest \<Rightarrow>
          parse_number_bytes escape s (b = 45) (if b = 45 \<or> b = 43 then rest else b # rest) word_buf_len)"

definition from_bytes :: "(nat list \<Rightarrow> string) \<Rightarrow> nat list \<Rightarrow> decimal res fresult option" where
  "from_bytes escape s = from_bytes_with_word_buf escape s WORD_BUF_LEN"

definition from_str :: "(nat list \<Rightarrow> string) \<Rightarrow> nat list \<Rightarrow> decimal fresult option" where
  "from_str escape s = do {
     r \<leftarrow> from_bytes escape s;
     Some (case r of
         Inl e \<Rightarrow> Inl e
       | Inr (Ok d) \<Rightarrow> Inr d
       | Inr (OverCausetxctx _) \<Rightarrow> Inl (box_err (''parsing '' @ map char_of s @ '' will over_causetxctx''))
       | Inr (Truncated _) \<Rightarrow> Inl (box_err (''parsing '' @ map char_of s @ '' will truncated''))) }"

text \<open>\<open>ConvertTo<Decimal>\<close> for byte slices: an unreadable number is zero.\<close>

definition convert_bytes_decimal ::
    "(nat list \<Rightarrow> string) \<Rightarrow> nat list \<Rightarrow> 'tz eval_context \<Rightarrow> (decimal fresult \<times> 'tz eval_context) option" where
  "convert_bytes_decimal escape s ctx = do {
     r \<leftarrow> from_bytes escape s;
     let r = (case r of Inl _ \<Rightarrow> Ok zero_dec | Inr r \<Rightarrow> r);
     Some (into_result_impl r ctx None (Some (over_causetxctx ''DECIMAL'' ''''))) }"

end
