(* ===== verification/Decimal_Text_Correct.thy ===== *)
theory Decimal_Text_Correct
  imports Decimal_Text
begin

text \<open>
  What the printer writes and the parser reads: digit strings denote numbers, the printer writes
  the value of the decimal, the parser reads the value of the text, and printing then parsing
  gives the value back.
\<close>

section \<open>Digit strings\<close>

lemma digit_char: "d < 10 \<Longrightarrow> is_digit (48 + d)" "digit_val (48 + d) = d"
  by (simp_all add: is_digit_def digit_val_def)

lemma digits_val_append: "digits_val (xs @ ys) = digits_val xs * 10 ^ length ys + digits_val ys"
  by (simp add: bval_append)

lemma digits_val_less: "list_all is_digit cs \<Longrightarrow> digits_val cs < 10 ^ length cs"
  using bval_less[of 10 "map digit_val cs"] digit_val_less by (auto simp: below_def list_all_iff)

lemma put_digits_ok:
  "\<exists>ds. put_digits n x out = ds @ out \<and> length ds = n \<and> list_all is_digit ds \<and> digits_val ds = x mod 10 ^ n"
proof (induction n arbitrary: x out)
  case (Suc n)
  obtain ds where ds: "put_digits n (x div 10) ((48 + x mod 10) # out) = ds @ (48 + x mod 10) # out" "length ds = n"
    "list_all is_digit ds" "digits_val ds = x div 10 mod 10 ^ n" using Suc[of "x div 10" "(48 + x mod 10) # out"] by blast
  have "digits_val (ds @ [48 + x mod 10]) = x div 10 mod 10 ^ n * 10 + x mod 10"
    unfolding digits_val_append ds(4) by (simp add: digit_char)
  also have "\<dots> = x mod 10 ^ Suc n" by (simp add: mod_mult2_eq mult.commute)
  finally show ?case using ds digit_char(1)[of "x mod 10"] by (intro exI[of _ "ds @ [48 + x mod 10]"]) simp
qed simp

lemma bval_take_Suc:
  assumes "w < length buf"
  shows "bval WORD_BASE (take (Suc w) buf) = bval WORD_BASE (take w buf) * WORD_BASE + buf ! w"
  using bval_append[of WORD_BASE "take w buf" "[buf ! w]"] assms by (simp add: take_Suc_conv_app_nth)

lemma mod_word_split:
  assumes "x < WORD_BASE" "9 \<le> k"
  shows "(v * WORD_BASE + x) mod 10 ^ k = (v mod 10 ^ (k - 9)) * WORD_BASE + x"
proof -
  have k: "(10 :: nat) ^ k = WORD_BASE * 10 ^ (k - 9)"
    unfolding WORD_BASE_pow power_add[symmetric] using assms(2) by simp
  have "(v * WORD_BASE + x) mod (WORD_BASE * 10 ^ (k - 9)) =
      WORD_BASE * ((v * WORD_BASE + x) div WORD_BASE mod 10 ^ (k - 9)) + (v * WORD_BASE + x) mod WORD_BASE"
    by (rule mod_mult2_eq)
  then show ?thesis unfolding k using assms(1) by (simp add: mult.commute)
qed

lemma int_digits_ok:
  "below WORD_BASE buf \<Longrightarrow> widx \<le> length buf \<Longrightarrow> k \<le> 9 * widx \<Longrightarrow>
   \<exists>ds. int_digits buf widx k out = Some (ds @ out) \<and> length ds = k \<and> list_all is_digit ds \<and>
     digits_val ds = bval WORD_BASE (take widx buf) mod 10 ^ k"
proof (induction buf widx k out rule: int_digits.induct)
  case (1 buf widx k out)
  show ?case
  proof (cases "k > 0")
    case True
    then obtain w where w: "widx = Suc w" using "1.prems"(3) by (cases widx) auto
    define n where "n = min k 9"
    define x where "x = buf ! w"
    have x: "get_at buf w = Some x" "x < WORD_BASE" using "1.prems"(1,2) w by (auto simp: get_at_def x_def below_nth)
    obtain d1 where d1: "put_digits n x out = d1 @ out" "length d1 = n" "list_all is_digit d1" "digits_val d1 = x mod 10 ^ n"
      using put_digits_ok by blast
    have le: "w \<le> length buf" "k - n \<le> 9 * w" using "1.prems"(2,3) w by (auto simp: n_def)
    have "usub widx 1 = Some w" using w by simp
    from "1.IH"[OF True this x(1) n_def[folded DIGITS_PER_WORD_def] "1.prems"(1) le]
    obtain ds where ds: "int_digits buf w (k - n) (put_digits n x out) = Some (ds @ put_digits n x out)" "length ds = k - n"
      "list_all is_digit ds" "digits_val ds = bval WORD_BASE (take w buf) mod 10 ^ (k - n)" by blast
    have run: "int_digits buf widx k out = Some ((ds @ d1) @ out)"
      using ds(1) d1(1) x(1) True w by (subst int_digits.simps) (simp add: Let_def n_def[symmetric])
    have tk: "bval WORD_BASE (take widx buf) = bval WORD_BASE (take w buf) * WORD_BASE + x"
      using bval_take_Suc[of w buf] "1.prems"(2) w by (simp add: x_def)
    have "digits_val (ds @ d1) = bval WORD_BASE (take widx buf) mod 10 ^ k"
    proof (cases "9 \<le> k")
      case True
      then have n9: "n = 9" by (simp add: n_def)
      have "x mod 10 ^ n = x" using x(2) unfolding n9 WORD_BASE_pow[symmetric] by simp
      then show ?thesis
        unfolding digits_val_append tk mod_word_split[OF x(2) True] d1(2,4) ds(4) n9 by (simp add: WORD_BASE_pow)
    next
      case False
      then have n: "n = k" "ds = []" using ds(2) by (simp_all add: n_def)
      have "10 ^ k dvd WORD_BASE" unfolding WORD_BASE_pow using False by (intro le_imp_power_dvd) simp
      then have "bval WORD_BASE (take widx buf) mod 10 ^ k = x mod 10 ^ k" unfolding tk
        by (metis dvd_mult mod_add_left_eq mod_eq_0_iff_dvd add_0)
      then show ?thesis using n d1 by simp
    qed
    then show ?thesis using run ds d1 by (intro exI[of _ "ds @ d1"]) (simp add: n_def)
  next
    case False
    then show ?thesis by (subst int_digits.simps) simp
  qed
qed

lemma push_digits_ok:
  "x < WORD_BASE \<Longrightarrow> n \<le> 9 \<Longrightarrow>
   \<exists>ds. push_digits n x out = Some (out @ ds) \<and> length ds = n \<and> list_all is_digit ds \<and> digits_val ds = x div 10 ^ (9 - n)"
proof (induction n arbitrary: x out)
  case 0
  then show ?case by (simp add: WORD_BASE_pow)
next
  case (Suc n)
  define c y where cy: "c = x div DIG_MASK" "y = x mod DIG_MASK"
  have c: "c < 10" "y < DIG_MASK" using Suc.prems(1) by (auto simp: cy DIG_MASK_def WORD_BASE_def)
  have y10: "y * 10 < WORD_BASE" using c(2) by (simp add: DIG_MASK_def WORD_BASE_def)
  obtain ds where ds: "push_digits n (y * 10) (out @ [48 + c]) = Some ((out @ [48 + c]) @ ds)" "length ds = n"
    "list_all is_digit ds" "digits_val ds = y * 10 div 10 ^ (9 - n)" using Suc.IH[OF y10, of "out @ [48 + c]"] Suc.prems(2) by auto
  have u: "uadd 8 (x div DIG_MASK mod 256) 48 = Some (48 + c)" using c(1) by (simp add: uadd_def cy(1))
  have "digits_val ((48 + c) # ds) = c * 10 ^ n + y div 10 ^ (8 - n)"
  proof -
    have "9 - n = Suc (8 - n)" using Suc.prems(2) by simp
    then have "y * 10 div 10 ^ (9 - n) = y div 10 ^ (8 - n)" by (simp add: mult.commute)
    then show ?thesis using ds(2,4) by (simp add: digit_char(2))
  qed
  also have "\<dots> = (c * 10 ^ n * 10 ^ (8 - n) + y) div 10 ^ (8 - n)" by simp
  also have "c * 10 ^ n * 10 ^ (8 - n) = c * DIG_MASK"
  proof -
    have "(10 :: nat) ^ n * 10 ^ (8 - n) = DIG_MASK" unfolding power_add[symmetric] using Suc.prems(2) by (simp add: DIG_MASK_def)
    then show ?thesis by (simp only: mult.assoc)
  qed
  also have "c * DIG_MASK + y = x" unfolding cy by (rule div_mult_mod_eq)
  finally have "digits_val ((48 + c) # ds) = x div 10 ^ (9 - Suc n)" by simp
  then show ?case using u ds c(1) digit_char(1)[OF c(1)] by (intro exI[of _ "(48 + c) # ds"]) (simp add: cy(2)[symmetric])
qed

lemma frac_digits_ok:
  "below WORD_BASE buf \<Longrightarrow> k \<le> 81 \<Longrightarrow> widx + word_cnt k \<le> length buf \<Longrightarrow>
   \<exists>ds. frac_digits buf widx k out = Some (out @ ds) \<and> length ds = k \<and> list_all is_digit ds \<and>
     digits_val ds = bval WORD_BASE (seg buf widx (word_cnt k)) div 10 ^ (9 * word_cnt k - k)"
proof (induction buf widx k out rule: frac_digits.induct)
  case (1 buf widx k out)
  show ?case
  proof (cases "k > 0")
    case True
    define n where "n = min k 9"
    have wk: "word_cnt k = Suc (word_cnt (k - n))" using True "1.prems"(2)
      by (cases "k \<le> 9") (auto simp: n_def word_cnt_def le_div_geq)
    define x where "x = buf ! widx"
    have lt: "widx < length buf" using "1.prems"(3) wk by simp
    have x: "get_at buf widx = Some x" "x < WORD_BASE" using "1.prems"(1) lt by (auto simp: get_at_def x_def below_nth)
    have n9: "n \<le> 9" by (simp add: n_def)
    obtain d1 where d1: "push_digits n x out = Some (out @ d1)" "length d1 = n" "list_all is_digit d1" "digits_val d1 = x div 10 ^ (9 - n)"
      using push_digits_ok[OF x(2) n9] by blast
    have le: "k - n \<le> 81" "widx + 1 + word_cnt (k - n) \<le> length buf" using "1.prems"(2,3) wk by simp_all
    from "1.IH"[OF True x(1) n_def[folded DIGITS_PER_WORD_def] d1(1) "1.prems"(1) le]
    obtain ds where ds: "frac_digits buf (widx + 1) (k - n) (out @ d1) = Some ((out @ d1) @ ds)" "length ds = k - n"
      "list_all is_digit ds" "digits_val ds = bval WORD_BASE (seg buf (widx + 1) (word_cnt (k - n))) div 10 ^ (9 * word_cnt (k - n) - (k - n))" by blast
    have run: "frac_digits buf widx k out = Some (out @ d1 @ ds)"
      using ds(1) d1(1) x(1) True by (subst frac_digits.simps) (simp add: Let_def n_def[symmetric])
    define m where "m = word_cnt (k - n)"
    define t where "t = bval WORD_BASE (seg buf (widx + 1) m)"
    have sg: "seg buf widx (Suc m) = x # seg buf (widx + 1) m" using lt by (simp add: x_def Cons_nth_drop_Suc[symmetric])
    have lm: "length (seg buf (widx + 1) m) = m" using le(2) by (simp add: m_def)
    have bv: "bval WORD_BASE (seg buf widx (word_cnt k)) = x * 10 ^ (9 * m) + t"
      unfolding wk m_def[symmetric] sg using lm by (simp add: t_def WORD_BASE_power)
    have "digits_val (d1 @ ds) = bval WORD_BASE (seg buf widx (word_cnt k)) div 10 ^ (9 * word_cnt k - k)"
    proof (cases "9 \<le> k")
      case True
      then have n9: "n = 9" by (simp add: n_def)
      have m9: "m \<le> 9" using word_cnt_mono[OF le(1)] by (simp add: m_def word_cnt_def[of 81])
      then have km: "k - 9 \<le> 9 * m" "9 * word_cnt k - k = 9 * m - (k - 9)"
        using word_cnt_ge[of "k - 9"] True unfolding wk m_def[symmetric] by (simp_all add: m_def n9)
      have "(10 :: nat) ^ (9 * m) = 10 ^ (k - 9) * 10 ^ (9 * m - (k - 9))" using km(1) by (simp flip: power_add)
      then have "(x * 10 ^ (9 * m) + t) div 10 ^ (9 * m - (k - 9)) = x * 10 ^ (k - 9) + t div 10 ^ (9 * m - (k - 9))"
        by (simp add: mult.assoc[symmetric])
      then show ?thesis unfolding bv km(2) digits_val_append d1(4) ds(2,4) n9 m_def[symmetric] t_def[symmetric] by (simp add: m_def n9 t_def)
    next
      case False
      then have n: "n = k" "ds = []" "m = 0" using ds(2) by (simp_all add: n_def m_def)
      then show ?thesis unfolding bv using d1(4) wk by (simp add: m_def[symmetric] t_def)
    qed
    then show ?thesis using run ds d1 by (intro exI[of _ "d1 @ ds"]) (simp add: n_def)
  next
    case False
    then show ?thesis by (subst frac_digits.simps) simp
  qed
qed

section \<open>The leading zeros\<close>

lemma skip_zero_words_ok:
  "j \<le> iw \<Longrightarrow> iw \<le> length buf \<Longrightarrow>
   \<exists>k. skip_zero_words buf (9 * (iw - j)) 9 j = Some (9 * (iw - k), k) \<and> j \<le> k \<and> k \<le> iw \<and>
     (\<forall>i. j \<le> i \<and> i < k \<longrightarrow> buf ! i = 0) \<and> (k < iw \<longrightarrow> buf ! k \<noteq> 0)"
proof (induction "iw - j" arbitrary: j)
  case 0
  then show ?case by (intro exI[of _ iw]) (subst skip_zero_words.simps, auto)
next
  case (Suc n)
  show ?case
  proof (cases "buf ! j = 0")
    case True
    have "n = iw - Suc j" "Suc j \<le> iw" using Suc.hyps(2) by auto
    from Suc.hyps(1)[OF this Suc.prems(2)] obtain k where k: "skip_zero_words buf (9 * (iw - Suc j)) 9 (Suc j) = Some (9 * (iw - k), k)"
      "Suc j \<le> k" "k \<le> iw" "\<forall>i. Suc j \<le> i \<and> i < k \<longrightarrow> buf ! i = 0" "k < iw \<longrightarrow> buf ! k \<noteq> 0" by blast
    have "iw - j = Suc (iw - Suc j)" using \<open>Suc j \<le> iw\<close> by simp
    then have "usub (9 * (iw - j)) 9 = Some (9 * (iw - Suc j))" by (simp add: usub_def)
    then have "skip_zero_words buf (9 * (iw - j)) 9 j = Some (9 * (iw - k), k)"
      using k(1) True \<open>Suc j \<le> iw\<close> Suc.prems(2) by (subst skip_zero_words.simps) simp
    moreover have "\<forall>i. j \<le> i \<and> i < k \<longrightarrow> buf ! i = 0" using k(4) True by (metis Suc_leI le_eq_less_or_eq)
    ultimately show ?thesis using k by (intro exI[of _ k]) simp
  next
    case False
    then have "skip_zero_words buf (9 * (iw - j)) 9 j = Some (9 * (iw - j), j)"
      using Suc.hyps(2) Suc.prems by (subst skip_zero_words.simps) auto
    then show ?thesis using False Suc.prems by (intro exI[of _ j]) simp
  qed
qed

text \<open>The digit count of a number whose first nonzero word is known.\<close>

lemma digit_count:
  assumes "below WORD_BASE buf" "k < iw" "iw \<le> length buf" "\<forall>i<k. buf ! i = 0"
    and "1 \<le> D" "10 ^ (D - 1) \<le> buf ! k" "buf ! k < 10 ^ D"
  shows "bval WORD_BASE (take iw buf) < 10 ^ (9 * (iw - Suc k) + D)" "10 ^ (9 * (iw - Suc k) + D - 1) \<le> bval WORD_BASE (take iw buf)"
proof -
  define ws where "ws = seg buf (Suc k) (iw - Suc k)"
  have lw: "length ws = iw - Suc k" "below WORD_BASE ws" using assms(1,3) by (auto simp: ws_def)
  have "take iw buf = take k buf @ seg buf k (iw - k)" using take_add[of k "iw - k" buf] assms(2) by simp
  also have "seg buf k (iw - k) = buf ! k # ws"
    using assms(2,3) by (simp add: ws_def Cons_nth_drop_Suc[symmetric] take_Cons' Suc_diff_Suc[symmetric])
  finally have tk: "take iw buf = take k buf @ buf ! k # ws" .
  have z: "bval WORD_BASE (take k buf) = 0"
    using assms(2,3,4) by (auto simp: bval_zero_iff in_set_conv_nth)
  have b: "bval WORD_BASE (take iw buf) = buf ! k * 10 ^ (9 * (iw - Suc k)) + bval WORD_BASE ws"
    unfolding tk by (simp add: bval_append z lw(1) WORD_BASE_power)
  have lt: "bval WORD_BASE ws < 10 ^ (9 * (iw - Suc k))" using bval_less[OF lw(2)] lw(1) by (simp add: WORD_BASE_power)
  have "buf ! k * 10 ^ (9 * (iw - Suc k)) + bval WORD_BASE ws < (buf ! k + 1) * 10 ^ (9 * (iw - Suc k))" using lt by simp
  also have "\<dots> \<le> 10 ^ D * 10 ^ (9 * (iw - Suc k))" using assms(7) by (intro mult_le_mono1) simp
  finally show "bval WORD_BASE (take iw buf) < 10 ^ (9 * (iw - Suc k) + D)" unfolding b by (simp add: power_add mult.commute)
  have "10 ^ (D - 1) * 10 ^ (9 * (iw - Suc k)) \<le> buf ! k * 10 ^ (9 * (iw - Suc k))" using assms(6) by (rule mult_le_mono1)
  moreover have "9 * (iw - Suc k) + D - 1 = (D - 1) + 9 * (iw - Suc k)" using assms(5) by simp
  ultimately show "10 ^ (9 * (iw - Suc k) + D - 1) \<le> bval WORD_BASE (take iw buf)" unfolding b by (simp add: power_add trans_le_add1)
qed

lemma remove_leading_zeroes_ok:
  assumes d: "dec_ok d" "lead_ok d"
  shows "\<exists>wi c. remove_leading_zeroes d (int_cnt d) = Some (wi, c) \<and> c \<le> 9 * int_words d \<and> wi + word_cnt c = int_words d \<and>
    ipart d < 10 ^ c \<and> (0 < c \<longrightarrow> 10 ^ (c - 1) \<le> ipart d)"
proof -
  note ok = dec_okD[OF d(1)]
  let ?b = "word_buf d" and ?n = "int_cnt d"
  define iw where "iw = int_words d"
  have iw9: "iw \<le> 9" "iw \<le> length ?b" using ok by (simp_all add: iw_def)
  have n81: "?n \<le> 81" using iw9(1) by (auto simp: iw_def intro: word_cnt_less)
  have u: "uadd 8 ?n (DIGITS_PER_WORD - 1) = Some (?n + 8)" using n81 by (simp add: uadd_def)
  define i where "i = (?n + 8) mod 9 + 1"
  have start: "remove_leading_zeroes d ?n = do {
      (cnt, word_idx) \<leftarrow> skip_zero_words ?b ?n i 0;
      if cnt > 0
      then do { w \<leftarrow> get_at ?b word_idx; z \<leftarrow> count_leading_zeroes ((cnt - 1) mod DIGITS_PER_WORD) w; cnt \<leftarrow> usub cnt z; Some (word_idx, cnt) }
      else Some (word_idx, cnt) }"
    unfolding remove_leading_zeroes_def u bind.bind_lunit by (simp add: i_def)
  have final: ?thesis if k: "skip_zero_words ?b ?n i 0 = Some (cnt, k)" "k < iw" "\<forall>j<k. ?b ! j = 0" "?b ! k \<noteq> 0"
    "cnt = 9 * (iw - Suc k) + Suc r" "r \<le> 8" "?b ! k < 10 ^ Suc r" for cnt k r
  proof -
    have rm: "(cnt - 1) mod 9 = r" using k(5,6) by simp
    obtain D where D: "1 \<le> D" "D \<le> Suc r" "10 ^ (D - 1) \<le> ?b ! k" "?b ! k < 10 ^ D" "count_leading_zeroes r (?b ! k) = Some (Suc r - D)"
      using count_leading_zeroes_ok[of r "?b ! k"] k(4,6,7) by auto
    have g: "get_at ?b k = Some (?b ! k)" using k(2) iw9 by (simp add: get_at_def)
    define c where "c = 9 * (iw - Suc k) + D"
    have us: "usub cnt (Suc r - D) = Some c" using k(5) D(2) by (simp add: usub_def c_def)
    have "remove_leading_zeroes d ?n = Some (k, c)"
      unfolding start k(1) using k(5) g rm D(5) us by simp
    moreover have "word_cnt c = iw - k"
    proof -
      define m where "m = iw - Suc k"
      have m: "iw - k = Suc m" "m \<le> 8" using k(2) iw9(1) by (simp_all add: m_def)
      have "c = Suc (D - 1 + m * 9)" "D - 1 < 9" using D(1,2) k(6) by (simp_all add: c_def m_def)
      then show ?thesis using word_cnt_Suc[of "D - 1 + m * 9"] m by simp
    qed
    moreover have "c \<le> 9 * iw" using D(2) k(2,6) by (simp add: c_def)
    ultimately show ?thesis
      using digit_count[OF ok(2) k(2) iw9(2) k(3) D(1,3,4)] k(2) unfolding ipart_def iw_def[symmetric] c_def[symmetric] by auto
  qed
  have zero: ?thesis if k: "skip_zero_words ?b ?n i 0 = Some (0, iw)" "\<forall>j<iw. ?b ! j = 0"
  proof -
    have "remove_leading_zeroes d ?n = Some (iw, 0)" unfolding start k(1) by simp
    moreover have "ipart d = 0" unfolding ipart_def iw_def[symmetric] using k(2) iw9 by (auto simp: bval_zero_iff in_set_conv_nth)
    ultimately show ?thesis by (auto simp: iw_def)
  qed
  show ?thesis
  proof (cases "?n = 0")
    case True
    then show ?thesis using zero by (simp add: iw_def skip_zero_words.simps)
  next
    case False
    then have pos: "0 < ?n" by simp
    define r where "r = (?n - 1) mod 9"
    have r8: "r \<le> 8" using pos_mod9[of "?n - 1"] by (simp add: r_def)
    have ir: "i = Suc r"
    proof -
      have "?n + 8 = ?n - 1 + 9" using pos by simp
      then have "(?n + 8) mod 9 = (?n - 1) mod 9" by (simp only: mod_add_self2)
      then show ?thesis by (simp add: i_def r_def)
    qed
    have iws: "iw = Suc ((?n - 1) div 9)" using word_cnt_Suc[of "?n - 1"] n81 pos by (simp add: iw_def)
    have nr: "?n = 9 * (iw - 1) + Suc r" using pred_div9[OF pos] unfolding iws r_def by simp
    have l0: "?b \<noteq> []" using ok(1) by auto
    have lw: "?b ! 0 < 10 ^ Suc r" unfolding r_def by (rule lead_word[OF d pos])
    show ?thesis
    proof (cases "?b ! 0 = 0")
      case b0: False
      have "skip_zero_words ?b ?n i 0 = Some (?n, 0)" using pos b0 l0 by (subst skip_zero_words.simps) simp
      moreover have "0 < iw" unfolding iws by simp
      ultimately show ?thesis by (rule final) (use b0 nr[unfolded One_nat_def] r8 lw in simp_all)
    next
      case b0: True
      have "usub ?n i = Some (9 * (iw - 1))" using nr by (simp add: ir usub_def)
      then have step: "skip_zero_words ?b ?n i 0 = skip_zero_words ?b (9 * (iw - 1)) 9 1"
        using pos b0 l0 by (subst skip_zero_words.simps) simp
      obtain k where k: "skip_zero_words ?b (9 * (iw - 1)) 9 1 = Some (9 * (iw - k), k)" "1 \<le> k" "k \<le> iw"
        "\<forall>i. 1 \<le> i \<and> i < k \<longrightarrow> ?b ! i = 0" "k < iw \<longrightarrow> ?b ! k \<noteq> 0"
        using skip_zero_words_ok[of 1 iw ?b] iws iw9(2) by auto
      have zs: "\<forall>j<k. ?b ! j = 0" using k(4) b0 by (metis One_nat_def Suc_leI gr0I)
      show ?thesis
      proof (cases "k < iw")
        case True
        have "?b ! k < WORD_BASE" using ok(2) True iw9 by (auto intro: below_nth)
        then have "?b ! k < 10 ^ Suc 8" by (simp add: WORD_BASE_def)
        moreover have "9 * (iw - k) = 9 * (iw - Suc k) + Suc 8" using True by simp
        ultimately show ?thesis using final[of "9 * (iw - k)" k 8] step k(1,5) True zs by simp
      next
        case False
        then have "k = iw" using k(3) by simp
        then show ?thesis using zero step k(1) zs by simp
      qed
    qed
  qed
qed

section \<open>The printer, verified\<close>

text \<open>The shape of the printed text: sign, integer digits, point and fraction digits.\<close>

definition dec_text :: "bool \<Rightarrow> nat list \<Rightarrow> nat list \<Rightarrow> nat list" where
  "dec_text neg I F = (if neg then [45] else []) @ I @ (if F = [] then [] else 46 # F)"

lemma to_string_ok:
  assumes d: "dec_ok d" "lead_ok d"
  shows "\<exists>I F. to_string d = Some (dec_text (negative d) I F) \<and> list_all is_digit I \<and> list_all is_digit F \<and>
    length F = frac_cnt d \<and> digits_val I = ipart d \<and> 0 < length I \<and> length I \<le> max 1 (9 * int_words d) \<and> (I = [48] \<or> I ! 0 \<noteq> 48) \<and>
    digits_val F = bval WORD_BASE (seg (word_buf d) (int_words d) (frac_words d)) div 10 ^ (9 * frac_words d - frac_cnt d)"
proof -
  note ok = dec_okD[OF d(1)]
  let ?b = "word_buf d"
  obtain wi c where rl: "remove_leading_zeroes d (int_cnt d) = Some (wi, c)" "c \<le> 9 * int_words d" "wi + word_cnt c = int_words d"
    "ipart d < 10 ^ c" "0 < c \<longrightarrow> 10 ^ (c - 1) \<le> ipart d" using remove_leading_zeroes_ok[OF d] by blast
  have fc81: "frac_cnt d \<le> 81" and c81: "c \<le> 81" using ok(3) rl(2) word_cnt_less[of "frac_cnt d"] by auto
  define ic ws where icws: "ic = (if c + frac_cnt d = 0 then 1 else c)" "ws = (if c + frac_cnt d = 0 then 0 else wi)"
  have ic81: "ic \<le> 81" using c81 by (simp add: icws)
  define len where "len = max 1 ic + frac_cnt d + of_bool (negative d) + of_bool (frac_cnt d > 0)"
  have pb: "prepare_buf d = Some (len, ws, max 1 ic, ic, frac_cnt d)"
    using fc81 c81 ic81 unfolding prepare_buf_def rl(1) by (auto simp: Let_def uadd_def icws len_def)
  define sg :: "nat list" where "sg = (if negative d then [45] else [])"
  have lsg: "length sg = of_bool (negative d)" by (simp add: sg_def)
  have "\<exists>I. (if ic > 0 then int_digits ?b (ws + word_cnt ic) ic [] else Some [48]) = Some I \<and> list_all is_digit I \<and>
      length I = max 1 ic \<and> digits_val I = ipart d \<and> (I = [48] \<or> I ! 0 \<noteq> 48)"
  proof (cases "c = 0")
    case True
    then have ip: "ipart d = 0" using rl(4) by simp
    show ?thesis
    proof (cases "frac_cnt d = 0")
      case False
      then show ?thesis using True ip by (intro exI[of _ "[48]"]) (simp add: icws digit_val_def is_digit_def)
    next
      case f0: True
      then have iw: "0 < int_words d" using ok(4) by simp
      have "bval WORD_BASE (take (Suc 0) ?b) = 0"
      proof -
        have "bval WORD_BASE (take (int_words d) ?b) = 0" using ip by (simp add: ipart_def)
        then have "\<forall>w\<in>set (take (int_words d) ?b). w = 0" by (simp add: bval_zero_iff)
        moreover have "set (take (Suc 0) ?b) \<subseteq> set (take (int_words d) ?b)" using iw by (intro set_take_subset_set_take) (rule Suc_leI)
        ultimately show ?thesis by (auto simp: bval_zero_iff)
      qed
      then obtain I where I: "int_digits ?b 1 1 [] = Some I" "length I = 1" "list_all is_digit I" "digits_val I = 0"
        using int_digits_ok[OF ok(2), of 1 1 "[]"] ok(1) by auto
      then have "I = [48]" by (cases I) (auto simp: digit_val_def is_digit_def)
      then show ?thesis using I True f0 ip by (intro exI[of _ I]) (simp add: icws word_cnt_def)
    qed
  next
    case False
    then have e: "ic = c" "ws = wi" by (simp_all add: icws)
    obtain I where I: "int_digits ?b (int_words d) c [] = Some I" "length I = c" "list_all is_digit I" "digits_val I = ipart d"
      using int_digits_ok[OF ok(2) _ rl(2), of "[]"] ok(1,3) rl(4) by (auto simp: ipart_def)
    obtain x xs where x: "I = x # xs" using I(2) False by (cases I) auto
    have "x \<noteq> 48"
    proof
      assume "x = 48"
      then have "digits_val I < 10 ^ (c - 1)" using digits_val_less[of xs] I(2,3) x by (auto simp: digit_val_def)
      then show False using rl(5) I(4) False by simp
    qed
    then show ?thesis using I False x unfolding e rl(3) by (intro exI[of _ I]) simp
  qed
  then obtain I where I: "(if ic > 0 then int_digits ?b (ws + word_cnt ic) ic [] else Some [48]) = Some I" "list_all is_digit I"
    "length I = max 1 ic" "digits_val I = ipart d" "I = [48] \<or> I ! 0 \<noteq> 48" by blast
  have li: "0 < length I" "length I \<le> max 1 (9 * int_words d)" using I(3) rl(2) by (auto simp: icws)
  show ?thesis
  proof (cases "frac_cnt d = 0")
    case True
    then have "to_string d = Some (dec_text (negative d) I [])"
      unfolding to_string_def pb using I(1,3) by (simp add: Let_def dec_text_def)
    then show ?thesis using I li True by (intro exI[of _ I] exI[of _ "[]"]) simp
  next
    case False
    then have e: "ws + word_cnt ic = int_words d" using rl(3) by (simp add: icws)
    obtain F where F: "frac_digits ?b (int_words d) (frac_cnt d) (sg @ I @ [46]) = Some ((sg @ I @ [46]) @ F)" "length F = frac_cnt d"
      "list_all is_digit F" "digits_val F = bval WORD_BASE (seg ?b (int_words d) (frac_words d)) div 10 ^ (9 * frac_words d - frac_cnt d)"
      using frac_digits_ok[OF ok(2) fc81, of "int_words d" "sg @ I @ [46]"] ok(1,3) by auto
    have "F \<noteq> []" using F(2) False by auto
    moreover have "len = length (sg @ I @ [46] @ F)" using False by (simp add: len_def lsg I(3) F(2))
    ultimately have "to_string d = Some (dec_text (negative d) I F)"
      unfolding to_string_def pb using I(1,3) F(1,2) False by (simp add: Let_def dec_text_def e sg_def)
    then show ?thesis using I li F by (intro exI[of _ I] exI[of _ F]) simp
  qed
qed

lemma text_value:
  assumes d: "dec_ok d" "trail_ok d"
    and F: "digits_val F = bval WORD_BASE (seg (word_buf d) (int_words d) (frac_words d)) div 10 ^ (9 * frac_words d - frac_cnt d)"
      "length F = frac_cnt d" and I: "digits_val I = ipart d"
  shows "mag d = of_nat (digits_val (I @ F)) / 10 ^ length F"
proof -
  note ok = dec_okD[OF d(1)]
  let ?t = "seg (word_buf d) (int_words d) (frac_words d)" and ?k = "9 * frac_words d - frac_cnt d"
  have lt: "length ?t = frac_words d" using ok(1,3) by simp
  have fk: "frac_cnt d + ?k = 9 * frac_words d" using word_cnt_ge[of "frac_cnt d"] ok(3) by simp
  have us: "used d = take (int_words d) (word_buf d) @ ?t" by (simp add: used_def take_add)
  have B: "(of_nat WORD_BASE :: rat) ^ frac_words d = 10 ^ frac_cnt d * 10 ^ ?k"
    unfolding power_add[symmetric] fk by (simp add: WORD_BASE_def power_mult)
  have bu: "bval WORD_BASE (used d) = ipart d * 10 ^ (9 * frac_words d) + bval WORD_BASE ?t"
    unfolding us bval_append lt by (simp add: ipart_def WORD_BASE_power)
  have "10 ^ ?k dvd ipart d * 10 ^ (9 * frac_words d)" by (intro dvd_mult le_imp_power_dvd) simp
  then have "10 ^ ?k dvd bval WORD_BASE ?t" using d(2) unfolding trail_ok_def bu by (simp add: dvd_add_right_iff)
  then have t: "bval WORD_BASE ?t = digits_val F * 10 ^ ?k" unfolding F(1) by simp
  have "bval WORD_BASE (used d) = (ipart d * 10 ^ frac_cnt d + digits_val F) * 10 ^ ?k"
    unfolding bu t add_mult_distrib mult.assoc power_add[symmetric] fk ..
  then have "bval WORD_BASE (used d) = digits_val (I @ F) * 10 ^ ?k" unfolding digits_val_append I F(2) .
  then have "mag d = of_nat (digits_val (I @ F)) * 10 ^ ?k / (10 ^ frac_cnt d * 10 ^ ?k)" unfolding mag_def B by simp
  then show ?thesis by (simp add: F(2))
qed


section \<open>The parser, verified\<close>

lemma digit_step:
  assumes "is_digit c" "w < 10 ^ inner" "inner < 9"
  shows "usub c 48 = Some (digit_val c)" "get_at TEN_POW inner = Some (10 ^ inner)"
    "umul 32 (digit_val c) (10 ^ inner) = Some (digit_val c * 10 ^ inner)"
    "uadd 32 w (digit_val c * 10 ^ inner) = Some (w + digit_val c * 10 ^ inner)"
    "w + digit_val c * 10 ^ inner < 10 ^ Suc inner"
    "umul 32 w 10 = Some (w * 10)" "uadd 32 (digit_val c) (w * 10) = Some (w * 10 + digit_val c)"
    "w * 10 + digit_val c < 10 ^ Suc inner"
proof -
  have d: "digit_val c \<le> 9" using digit_val_less[OF assms(1)] by simp
  have p: "10 ^ inner \<le> (10 :: nat) ^ 8" using assms(3) by (intro power_increasing) simp_all
  have v: "digit_val c * 10 ^ inner \<le> 9 * 10 ^ inner" using d by (rule mult_le_mono1)
  have "9 * 10 ^ inner + 10 ^ inner < (2 :: nat) ^ 32" using p by simp
  then have b: "w + digit_val c * 10 ^ inner < 2 ^ 32" using v assms(2) by linarith
  show "usub c 48 = Some (digit_val c)" using assms(1) by (simp add: usub_def digit_val_def is_digit_def)
  show "get_at TEN_POW inner = Some (10 ^ inner)" using assms(3) by (simp add: get_at_def)
  show "umul 32 (digit_val c) (10 ^ inner) = Some (digit_val c * 10 ^ inner)" using le_less_trans[OF v, of "2 ^ 32"] p by (simp add: umul_def)
  show "uadd 32 w (digit_val c * 10 ^ inner) = Some (w + digit_val c * 10 ^ inner)" using b by (simp add: uadd_def)
  show "w + digit_val c * 10 ^ inner < 10 ^ Suc inner" unfolding power_Suc using v assms(2) by linarith
  show "umul 32 w 10 = Some (w * 10)" using p assms(2) by (simp add: umul_def)
  show "uadd 32 (digit_val c) (w * 10) = Some (w * 10 + digit_val c)" using p d assms(2) by (simp add: uadd_def)
  show "w * 10 + digit_val c < 10 ^ Suc inner" using d assms(2) by simp
qed

lemma parse_int_words_ok:
  "list_all is_digit cs \<Longrightarrow> inner < 9 \<Longrightarrow> w < 10 ^ inner \<Longrightarrow> length cs + inner \<le> 9 * widx \<Longrightarrow>
   \<exists>pre. parse_int_words cs inner widx w (replicate widx 0 @ post) = Some (pre @ post) \<and> length pre = widx \<and>
     below WORD_BASE pre \<and> bval WORD_BASE pre = digits_val (rev cs) * 10 ^ inner + w"
proof (induction cs arbitrary: inner widx w post)
  case Nil
  show ?case
  proof (cases "inner = 0")
    case True
    then show ?thesis using Nil.prems(3) by (intro exI[of _ "replicate widx 0"]) simp
  next
    case False
    then obtain k where k: "widx = Suc k" using Nil.prems(4) by (cases widx) auto
    have "(10 :: nat) ^ inner \<le> 10 ^ 9" using Nil.prems(2) by (intro power_increasing) simp_all
    then have "w < WORD_BASE" using Nil.prems(3) by (simp add: WORD_BASE_def)
    moreover have "set_at (replicate (Suc k) 0 @ post) k w = Some ((replicate k 0 @ [w]) @ post)"
      using set_at_mid[of k "replicate k 0" 0 post w] by (simp add: replicate_app_Cons_same)
    ultimately show ?thesis using False k by (intro exI[of _ "replicate k 0 @ [w]"]) (simp add: bval_append)
  qed
next
  case (Cons c cs)
  have c: "is_digit c" "list_all is_digit cs" using Cons.prems(1) by simp_all
  note st = digit_step[OF c(1) Cons.prems(3,2)]
  let ?w = "w + digit_val c * 10 ^ inner"
  have dv: "digits_val (rev (c # cs)) = digits_val (rev cs) * 10 + digit_val c"
    by (simp add: bval_append)
  show ?case
  proof (cases "inner + 1 = 9")
    case True
    then obtain k where k: "widx = Suc k" "length cs \<le> 9 * k" using Cons.prems(4) by (cases widx) auto
    obtain pre where pre: "parse_int_words cs 0 k 0 (replicate k 0 @ ?w # post) = Some (pre @ ?w # post)" "length pre = k"
      "below WORD_BASE pre" "bval WORD_BASE pre = digits_val (rev cs)"
      using Cons.IH[of 0 0 k "?w # post"] c(2) k(2) by auto
    have sa: "set_at (replicate (Suc k) 0 @ post) k ?w = Some (replicate k 0 @ ?w # post)"
      using set_at_mid[of k "replicate k 0" 0 post ?w] by (simp add: replicate_app_Cons_same)
    have w: "?w < WORD_BASE" using st(5) True by (simp add: WORD_BASE_def)
    have i8: "inner = 8" using True by simp
    have "parse_int_words (c # cs) inner widx w (replicate widx 0 @ post) = Some ((pre @ [?w]) @ post)"
      unfolding k(1) parse_int_words.simps using pre(1) sa i8
      by (simp add: st(1) st(2)[unfolded i8, simplified] st(3)[unfolded i8, simplified] st(4)[unfolded i8, simplified])
    moreover have "bval WORD_BASE (pre @ [?w]) = digits_val (rev (c # cs)) * 10 ^ inner + w"
      unfolding bval_append dv pre(4) by (simp add: i8 WORD_BASE_def)
    ultimately show ?thesis using pre(2,3) w k(1) by (intro exI[of _ "pre @ [?w]"]) simp
  next
    case False
    then have i: "Suc inner < 9" using Cons.prems(2) by simp
    obtain pre where pre: "parse_int_words cs (Suc inner) widx ?w (replicate widx 0 @ post) = Some (pre @ post)" "length pre = widx"
      "below WORD_BASE pre" "bval WORD_BASE pre = digits_val (rev cs) * 10 ^ Suc inner + ?w"
      using Cons.IH[OF c(2) i st(5), of widx post] Cons.prems(4) by auto
    have "parse_int_words (c # cs) inner widx w (replicate widx 0 @ post) = Some (pre @ post)"
      unfolding parse_int_words.simps using pre(1) False by (simp add: st(1-4))
    moreover have "bval WORD_BASE pre = digits_val (rev (c # cs)) * 10 ^ inner + w"
      unfolding pre(4) dv by (simp add: add_mult_distrib)
    ultimately show ?thesis using pre(2,3) by blast
  qed
qed

lemma parse_frac_words_ok:
  "list_all is_digit cs \<Longrightarrow> inner < 9 \<Longrightarrow> w < 10 ^ inner \<Longrightarrow> inner + length cs \<le> 9 * n \<Longrightarrow>
   \<exists>fs. parse_frac_words cs inner (length pre) w (pre @ replicate n 0 @ post) = Some (pre @ fs @ post) \<and> length fs = n \<and>
     below WORD_BASE fs \<and> bval WORD_BASE fs = (w * 10 ^ length cs + digits_val cs) * 10 ^ (9 * n - inner - length cs)"
proof (induction cs arbitrary: inner n w pre)
  case Nil
  show ?case
  proof (cases "inner = 0")
    case True
    then show ?thesis using Nil.prems(3) by (intro exI[of _ "replicate n 0"]) simp
  next
    case False
    then obtain m where m: "n = Suc m" using Nil.prems(4) by (cases n) auto
    let ?x = "w * 10 ^ (9 - inner)"
    have "?x < 10 ^ inner * 10 ^ (9 - inner)" using Nil.prems(3) by simp
    then have x: "?x < WORD_BASE" unfolding power_add[symmetric] using Nil.prems(2) by (simp add: WORD_BASE_def)
    have g: "get_at TEN_POW (9 - inner) = Some (10 ^ (9 - inner))" by (simp add: get_at_def)
    have u: "umul 32 w (10 ^ (9 - inner)) = Some ?x" using x by (simp add: umul_def WORD_BASE_def)
    have e: "9 - inner + 9 * m = 9 * n - inner" using Nil.prems(2) m by simp
    have "bval WORD_BASE (?x # replicate m 0) = w * 10 ^ (9 * n - inner)"
      unfolding e[symmetric] by (simp add: WORD_BASE_power power_add)
    then show ?thesis using False m g u x
      by (intro exI[of _ "?x # replicate m 0"]) (simp add: set_at_def list_update_append)
  qed
next
  case (Cons c cs)
  have c: "is_digit c" "list_all is_digit cs" using Cons.prems(1) by simp_all
  note st = digit_step[OF c(1) Cons.prems(3,2)]
  let ?w = "w * 10 + digit_val c" and ?l = "length cs"
  have v: "w * 10 ^ length (c # cs) + digits_val (c # cs) = ?w * 10 ^ ?l + digits_val cs"
    by (simp add: algebra_simps)
  show ?case
  proof (cases "inner + 1 = 9")
    case True
    then obtain m where m: "n = Suc m" "?l \<le> 9 * m" using Cons.prems(4) by (cases n) auto
    obtain fs where fs: "parse_frac_words cs 0 (Suc (length pre)) 0 ((pre @ [?w]) @ replicate m 0 @ post) = Some ((pre @ [?w]) @ fs @ post)"
      "length fs = m" "below WORD_BASE fs" "bval WORD_BASE fs = digits_val cs * 10 ^ (9 * m - ?l)"
      using Cons.IH[of 0 0 m "pre @ [?w]"] c(2) m(2) by auto
    have sa: "set_at (pre @ replicate n 0 @ post) (length pre) ?w = Some ((pre @ [?w]) @ replicate m 0 @ post)"
      using m(1) by (simp add: set_at_def list_update_append)
    have w: "?w < WORD_BASE" using st(8) True by (simp add: WORD_BASE_def)
    have e: "9 * n - inner - length (c # cs) = 9 * m - ?l" using True m by simp
    have "(10 :: nat) ^ (9 * m) = 10 ^ ?l * 10 ^ (9 * m - ?l)" unfolding power_add[symmetric] using m(2) by simp
    then have "bval WORD_BASE (?w # fs) = (?w * 10 ^ ?l + digits_val cs) * 10 ^ (9 * m - ?l)"
      by (simp add: fs(2,4) WORD_BASE_power add_mult_distrib)
    moreover have "parse_frac_words (c # cs) inner (length pre) w (pre @ replicate n 0 @ post) = Some (pre @ (?w # fs) @ post)"
      unfolding parse_frac_words.simps using fs(1) sa True by (simp add: st(1,6,7))
    ultimately show ?thesis unfolding v e using fs(2,3) w m(1) by (intro exI[of _ "?w # fs"]) simp
  next
    case False
    then have i: "Suc inner < 9" using Cons.prems(2) by simp
    obtain fs where fs: "parse_frac_words cs (Suc inner) (length pre) ?w (pre @ replicate n 0 @ post) = Some (pre @ fs @ post)"
      "length fs = n" "below WORD_BASE fs" "bval WORD_BASE fs = (?w * 10 ^ ?l + digits_val cs) * 10 ^ (9 * n - Suc inner - ?l)"
      using Cons.IH[OF c(2) i st(8), of n pre] Cons.prems(4) by auto
    have "parse_frac_words (c # cs) inner (length pre) w (pre @ replicate n 0 @ post) = Some (pre @ fs @ post)"
      unfolding parse_frac_words.simps using fs(1) False by (simp add: st(1,6,7))
    then show ?thesis unfolding v using fs(2,3,4) by (intro exI[of _ fs]) simp
  qed
qed

text \<open>
  What a number text looks like: \<open>I\<close> and \<open>F\<close> are the digits, \<open>t\<close> is what follows them, which may be
  an exponent.
\<close>

definition mantissa_text :: "nat list \<Rightarrow> nat list \<Rightarrow> nat list \<Rightarrow> nat list \<Rightarrow> nat list \<Rightarrow> bool" where
  "mantissa_text I pt F t s \<longleftrightarrow> s = I @ pt @ F @ t \<and> list_all is_digit I \<and> list_all is_digit F \<and> I @ F \<noteq> [] \<and>
     (pt = [46] \<or> pt = [] \<and> F = []) \<and> (t = [] \<or> \<not> is_digit (t ! 0) \<and> (pt = [] \<longrightarrow> t ! 0 \<noteq> 46))"

abbreviation exp_mark :: "nat list \<Rightarrow> bool" where
  "exp_mark t \<equiv> t \<noteq> [] \<and> (t ! 0 = 101 \<or> t ! 0 = 69)"

text \<open>
  The exponent a tail stands for: zero when it does not start with the letter, otherwise the signed
  number that follows, behind any blanks and in front of anything that is no digit.
\<close>

definition exponent_text :: "nat list \<Rightarrow> int \<Rightarrow> bool" where
  "exponent_text t ex \<longleftrightarrow> (if exp_mark t
     then \<exists>bl sg cs rest. drop 1 t = bl @ sg @ cs @ rest \<and> list_all is_blank bl \<and> sign_byte sg \<and> list_all is_digit cs \<and>
       cs \<noteq> [] \<and> (rest = [] \<or> \<not> is_digit (rest ! 0)) \<and> ex = signed_val sg cs
     else ex = 0)"

lemma exponent_textI:
  "c = 101 \<or> c = 69 \<Longrightarrow> list_all is_blank bl \<Longrightarrow> sign_byte sg \<Longrightarrow> list_all is_digit cs \<Longrightarrow> cs \<noteq> [] \<Longrightarrow>
   rest = [] \<or> \<not> is_digit (rest ! 0) \<Longrightarrow> exponent_text (c # bl @ sg @ cs @ rest) (signed_val sg cs)"
  by (auto simp: exponent_text_def)

abbreviation number_text :: "nat list \<Rightarrow> nat list \<Rightarrow> nat list \<Rightarrow> nat list \<Rightarrow> nat list \<Rightarrow> bool" where
  "number_text I pt F rest s \<equiv> mantissa_text I pt F rest s \<and> \<not> exp_mark rest"

lemma parse_scan:
  assumes "mantissa_text I pt F t bs"
  shows "first_non_digit bs 0 = length I"
    "length I < length bs \<and> bs ! length I = 46 \<longleftrightarrow> pt = [46]"
    "pt = [46] \<Longrightarrow> first_non_digit bs (length I + 1) = length I + 1 + length F"
    "n \<le> length F \<Longrightarrow> take n (drop (length I + 1) bs) = take n F"
    "n \<le> length I \<Longrightarrow> slice_at bs n (length I) = Some (drop n I)"
    "e = length (I @ pt @ F) \<Longrightarrow> (e < length bs \<and> (bs ! e = 101 \<or> bs ! e = 69)) = exp_mark t"
    "e = length (I @ pt @ F) \<Longrightarrow> drop (e + 1) bs = drop 1 t"
proof -
  have bs: "bs = I @ pt @ F @ t" and d: "list_all is_digit I" "list_all is_digit F"
    and pt: "pt = [46] \<or> pt = [] \<and> F = []"
    and t: "t = [] \<or> \<not> is_digit (t ! 0) \<and> (pt = [] \<longrightarrow> t ! 0 \<noteq> 46)"
    using assms unfolding mantissa_text_def by blast+
  have p: "\<not> is_digit 46" by (simp add: is_digit_def)
  have "takeWhile is_digit (I @ pt @ F @ t) = I"
    using d(1) pt t p by (intro takeWhile_digits) auto
  then show "first_non_digit bs 0 = length I" by (simp add: first_non_digit_def bs)
  show "length I < length bs \<and> bs ! length I = 46 \<longleftrightarrow> pt = [46]"
    using pt t by (cases t) (auto simp: bs nth_append)
  have "takeWhile is_digit (F @ t) = F" using d(2) t by (intro takeWhile_digits) auto
  then show "first_non_digit bs (length I + 1) = length I + 1 + length F" if "pt = [46]"
    by (simp add: first_non_digit_def bs that)
  show "take n (drop (length I + 1) bs) = take n F" if "n \<le> length F" using pt that by (auto simp: bs)
  show "slice_at bs n (length I) = Some (drop n I)" if "n \<le> length I" using that by (simp add: slice_at_def bs)
  show "(e < length bs \<and> (bs ! e = 101 \<or> bs ! e = 69)) = exp_mark t" if "e = length (I @ pt @ F)"
    unfolding that bs by (cases t) (auto simp: nth_append)
  show "drop (e + 1) bs = drop 1 t" if "e = length (I @ pt @ F)"
    unfolding that bs by simp
qed

lemma word_cnt_room: "word_cnt n \<le> 9 \<Longrightarrow> n \<le> 9 * word_cnt n"
  using word_cnt_ge[of n] by simp

lemma parse_fill:
  assumes d: "list_all is_digit I" "list_all is_digit F" and fit: "word_cnt (length I) + word_cnt (length F) \<le> 9"
  shows "\<exists>buf. parse_int_words (rev I) 0 (word_cnt (length I)) 0 (replicate 9 0) = Some (take (word_cnt (length I)) buf @ replicate (9 - word_cnt (length I)) 0) \<and>
    parse_frac_words F 0 (word_cnt (length I)) 0 (take (word_cnt (length I)) buf @ replicate (9 - word_cnt (length I)) 0) = Some buf \<and>
    length buf = 9 \<and> below WORD_BASE buf \<and>
    bval WORD_BASE (take (word_cnt (length I) + word_cnt (length F)) buf) =
      digits_val (I @ F) * 10 ^ (9 * word_cnt (length F) - length F) \<and>
    (\<forall>w\<in>set (drop (word_cnt (length I) + word_cnt (length F)) buf). w = 0)"
proof -
  let ?i = "word_cnt (length I)" and ?f = "word_cnt (length F)"
  have li: "length I \<le> 9 * ?i" and lf: "length F \<le> 9 * ?f" using fit by (auto intro!: word_cnt_room)
  have z: "replicate 9 0 = replicate ?i 0 @ replicate (9 - ?i) (0 :: nat)"
    using fit by (simp add: replicate_add[symmetric])
  have z2: "replicate (9 - ?i) 0 = replicate ?f 0 @ replicate (9 - ?i - ?f) (0 :: nat)"
    using fit by (simp add: replicate_add[symmetric])
  obtain pre where pre: "parse_int_words (rev I) 0 ?i 0 (replicate 9 0) = Some (pre @ replicate (9 - ?i) 0)" "length pre = ?i"
    "below WORD_BASE pre" "bval WORD_BASE pre = digits_val I"
    using parse_int_words_ok[of "rev I" 0 0 ?i "replicate (9 - ?i) 0"] d(1) li unfolding z by auto
  obtain fs where fs: "parse_frac_words F 0 (length pre) 0 (pre @ replicate ?f 0 @ replicate (9 - ?i - ?f) 0) = Some (pre @ fs @ replicate (9 - ?i - ?f) 0)"
    "length fs = ?f" "below WORD_BASE fs" "bval WORD_BASE fs = digits_val F * 10 ^ (9 * ?f - length F)"
    using parse_frac_words_ok[OF d(2), of 0 0 ?f pre "replicate (9 - ?i - ?f) 0"] lf by auto
  let ?buf = "pre @ fs @ replicate (9 - ?i - ?f) 0"
  have tk: "take ?i ?buf = pre" using pre(2) by simp
  have tk2: "take (?i + ?f) ?buf = pre @ fs" using pre(2) fs(2) by simp
  have p: "(10 :: nat) ^ (9 * ?f) = 10 ^ length F * 10 ^ (9 * ?f - length F)"
    unfolding power_add[symmetric] using lf by simp
  have "bval WORD_BASE (pre @ fs) = digits_val (I @ F) * 10 ^ (9 * ?f - length F)"
    unfolding bval_append digits_val_append pre(4) fs(2,4) WORD_BASE_power p by (simp add: algebra_simps)
  then show ?thesis using pre fs fit unfolding z2
    by (intro exI[of _ ?buf]) (simp only: tk tk2, simp)
qed

text \<open>The rational number a signed text with a point denotes.\<close>

definition text_val :: "bool \<Rightarrow> nat list \<Rightarrow> nat list \<Rightarrow> rat" where
  "text_val neg I F = (if neg then -1 else 1) * of_nat (digits_val (I @ F)) / 10 ^ length F"

lemma parsed_dec_ok:
  assumes b: "length buf = 9" "below WORD_BASE buf"
    and v: "bval WORD_BASE (take (word_cnt i + word_cnt f) buf) = n * 10 ^ (9 * word_cnt f - f)"
    and fit: "word_cnt i + word_cnt f \<le> 9" "0 < i + f" "n < 10 ^ (i + f)"
    and d: "int_cnt d = i" "frac_cnt d = f" "word_buf d = buf"
  shows "dec_ok d" "lead_ok d" "trail_ok d" "mag d = of_nat n / 10 ^ f"
proof -
  have f: "f + (9 * word_cnt f - f) = 9 * word_cnt f" using word_cnt_room[of f] fit(1) by simp
  have B: "(of_nat WORD_BASE :: rat) ^ word_cnt f = 10 ^ f * 10 ^ (9 * word_cnt f - f)"
    unfolding power_add[symmetric] f by (simp add: WORD_BASE_def power_mult)
  show "dec_ok d" using b fit d by (simp add: dec_ok_def)
  show "trail_ok d" using v d by (simp add: trail_ok_def used_def)
  show m: "mag d = of_nat n / 10 ^ f" using v d unfolding mag_def used_def d B by simp
  have "(of_nat n :: rat) < of_nat (10 ^ (i + f))" unfolding of_nat_less_iff using fit(3) .
  then show "lead_ok d" unfolding lead_ok_def m d by (simp add: power_add divide_simps)
qed

lemma finish_parse_ok:
  assumes "mag d = 0 \<longrightarrow> list_all (\<lambda>c. c = 0) (word_buf d)"
  shows "finish_parse (Ok d) = Ok (d\<lparr>negative := negative d \<and> mag d \<noteq> 0, result_frac_cnt := frac_cnt d\<rparr>)"
    "finish_parse (Truncated d) = Truncated (d\<lparr>negative := negative d \<and> mag d \<noteq> 0, result_frac_cnt := frac_cnt d\<rparr>)"
proof -
  have "list_all (\<lambda>c. c = 0) (word_buf d) \<Longrightarrow> mag d = 0"
    by (auto simp: mag_zero_iff list_all_iff used_def dest: in_set_takeD)
  then have "list_all (\<lambda>c. c = 0) (word_buf d) \<longleftrightarrow> mag d = 0" using assms by blast
  then show "finish_parse (Ok d) = Ok (d\<lparr>negative := negative d \<and> mag d \<noteq> 0, result_frac_cnt := frac_cnt d\<rparr>)"
    "finish_parse (Truncated d) = Truncated (d\<lparr>negative := negative d \<and> mag d \<noteq> 0, result_frac_cnt := frac_cnt d\<rparr>)"
    by (simp_all add: finish_parse_def)
qed

text \<open>What the parser does with the digits \<open>x\<close> it has read and the tail \<open>t\<close>.\<close>

definition finish_text :: "decimal res \<Rightarrow> nat list \<Rightarrow> decimal res fresult option" where
  "finish_text x t =
     (if exp_mark t
      then (case bytes_to_int_without_context (drop 1 t) of
              Inl e \<Rightarrow> Some (Inl e)
            | Inr ex \<Rightarrow> do {
                r \<leftarrow> apply_exponent ex x;
                Some (Inr (case r of Inl d \<Rightarrow> d | Inr d \<Rightarrow> finish_parse d)) })
      else Some (Inr (finish_parse x)))"

text \<open>The digits that are kept, when the integer part alone fits the nine words.\<close>

definition kept_frac :: "nat list \<Rightarrow> nat list \<Rightarrow> nat list" where
  "kept_frac I F = (if word_cnt (length I) + word_cnt (length F) \<le> 9 then F
     else take ((9 - word_cnt (length I)) * 9) F)"

lemma kept_frac_ok:
  assumes "word_cnt (length I) \<le> 9"
  shows "word_cnt (length I) + word_cnt (length (kept_frac I F)) \<le> 9" "length (kept_frac I F) \<le> length F"
    "word_cnt (length I) + word_cnt (length F) > 9 \<Longrightarrow> length (kept_frac I F) = (9 - word_cnt (length I)) * 9 \<and>
       word_cnt (length (kept_frac I F)) = 9 - word_cnt (length I)"
    "kept_frac I F = take (length (kept_frac I F)) F" "I @ F \<noteq> [] \<Longrightarrow> I @ kept_frac I F \<noteq> []"
proof -
  let ?k = "9 - word_cnt (length I)"
  have m: "word_cnt (?k * 9) = ?k" using word_cnt_mult[of ?k] by simp
  have l: "length (kept_frac I F) = ?k * 9" if "word_cnt (length I) + word_cnt (length F) > 9"
  proof -
    have "\<not> length F \<le> ?k * 9" using word_cnt_mono[of "length F" "?k * 9"] m that assms by auto
    then show ?thesis using that by (simp add: kept_frac_def)
  qed
  show "word_cnt (length I) + word_cnt (length (kept_frac I F)) \<le> 9"
    using l m assms by (cases "word_cnt (length I) + word_cnt (length F) \<le> 9") (auto simp: kept_frac_def)
  show "length (kept_frac I F) \<le> length F" by (simp add: kept_frac_def)
  show "length (kept_frac I F) = ?k * 9 \<and> word_cnt (length (kept_frac I F)) = ?k"
    if "word_cnt (length I) + word_cnt (length F) > 9" using l[OF that] m by simp
  show "kept_frac I F = take (length (kept_frac I F)) F" by (simp add: kept_frac_def min_def)
  show "I @ kept_frac I F \<noteq> []" if "I @ F \<noteq> []"
  proof (cases "I = []")
    case True
    then have "F \<noteq> []" using that by simp
    then show ?thesis using True by (auto simp: kept_frac_def word_cnt_def)
  qed simp
qed

lemma from_bytes_sign:
  assumes bs: "mantissa_text I pt F t bs" and ws: "list_all is_ascii_whitespace ws" and sg: "sign_byte sg"
  shows "from_bytes escape (ws @ sg @ bs) = parse_number_bytes escape (ws @ sg @ bs) (sg = [45]) bs 9"
proof -
  obtain b u where bt: "bs = b # u" "is_digit b \<or> b = 46"
    using bs by (cases I) (auto simp: mantissa_text_def)
  have nw: "\<not> is_ascii_whitespace b" "b \<noteq> 45" "b \<noteq> 43" using bt(2) by (auto simp: is_digit_def is_ascii_whitespace_def)
  have dw: "dropWhile is_ascii_whitespace (ws @ sg @ bs) = sg @ bs"
    using ws sg nw(1) bt(1) by (induction ws) (auto simp: sign_byte_def is_ascii_whitespace_def)
  show ?thesis
    using sg nw bt(1) unfolding from_bytes_def from_bytes_with_word_buf_def dw sign_byte_def by auto
qed

lemma parse_mantissa:
  assumes bs: "mantissa_text I pt F t bs" and ws: "list_all is_ascii_whitespace ws" and sg: "sign_byte sg"
    and fit: "word_cnt (length I) \<le> 9"
  obtains d where
    "from_bytes escape (ws @ sg @ bs) =
      finish_text (if word_cnt (length I) + word_cnt (length F) \<le> 9 then Ok d else Truncated d) t"
    "dec_ok d" "lead_ok d" "trail_ok d" "int_cnt d = length I" "frac_cnt d = length (kept_frac I F)"
    "negative d = (sg = [45])" "mag d = of_nat (digits_val (I @ kept_frac I F)) / 10 ^ length (kept_frac I F)"
    "mag d = 0 \<longrightarrow> list_all (\<lambda>c. c = 0) (word_buf d)"
proof -
  note sc = parse_scan[OF bs]
  have n: "list_all is_digit I" "list_all is_digit F" "I @ F \<noteq> []" "pt = [46] \<or> pt = [] \<and> F = []"
    using bs unfolding mantissa_text_def by blast+
  note kf = kept_frac_ok[OF fit]
  define K where "K = kept_frac I F"
  note kf = kf[where F = F, folded K_def]
  let ?i = "word_cnt (length I)" and ?f = "word_cnt (length F)" and ?k = "word_cnt (length K)"
  have dK: "list_all is_digit K" by (subst kf(4)) (use n(2) in \<open>auto simp: list_all_iff dest: in_set_takeD\<close>)
  obtain buf where buf: "parse_int_words (rev I) 0 ?i 0 (replicate 9 0) = Some (take ?i buf @ replicate (9 - ?i) 0)"
    "parse_frac_words K 0 ?i 0 (take ?i buf @ replicate (9 - ?i) 0) = Some buf" "length buf = 9" "below WORD_BASE buf"
    "bval WORD_BASE (take (?i + ?k) buf) = digits_val (I @ K) * 10 ^ (9 * ?k - length K)"
    "\<forall>w\<in>set (drop (?i + ?k) buf). w = 0"
    using parse_fill[OF n(1) dK kf(1)] by blast
  have l81: "length I \<le> 81" "length K \<le> 81" using kf(1) by (simp_all add: word_cnt_less)
  have nz: "length I + length F \<noteq> 0" "0 < length I + length K" using n(3) kf(5)[OF n(3)] by auto
  let ?d = "(new_dec (length I) (length K) (sg = [45]))\<lparr>word_buf := buf\<rparr>"
  let ?e = "if length I < length bs \<and> bs ! length I = 46
      then (first_non_digit bs (length I + 1), first_non_digit bs (length I + 1) - length I - 1) else (length I, 0)"
  have e: "?e = (length (I @ pt @ F), length F)" using sc(2,3) n(4) by auto
  define res where "res = fix_word_cnt_err ?i ?f 9"
  have res: "res = (if ?i + ?f \<le> 9 then Ok (?i, ?f) else Truncated (?i, 9 - ?i))"
    using fit by (auto simp: res_def fix_word_cnt_err_def)
  have r: "deref res = (?i, ?k)" "\<not> is_overCausetxctx res"
    "(if is_ok res then length F else ?k * DIGITS_PER_WORD) = length K"
    using kf(3) by (auto simp: res K_def kept_frac_def)
  have m: "length I mod 256 = length I" "length K mod 256 = length K" using l81 by simp_all
  have tK: "take (length K) (drop (length I + 1) bs) = K" unfolding sc(4)[OF kf(2)] by (rule kf(4)[symmetric])
  have ok: "dec_ok ?d" "lead_ok ?d" "trail_ok ?d" "mag ?d = of_nat (digits_val (I @ K)) / 10 ^ length K"
    using parsed_dec_ok[OF buf(3,4,5) kf(1) nz(2), of ?d] digits_val_less[of "I @ K"] n(1) dK by (simp_all add: new_dec_def)
  have "from_bytes escape (ws @ sg @ bs) = parse_number_bytes escape (ws @ sg @ bs) (sg = [45]) bs 9"
    by (rule from_bytes_sign[OF bs ws sg])
  also have "\<dots> = finish_text (res_map (\<lambda>_. ?d) res) t"
    unfolding parse_number_bytes_def Let_def sc(1) e prod.case res_def[symmetric] r(1) r(3) if_not_P[OF r(2)]
      sc(6)[OF refl] sc(7)[OF refl] finish_text_def m tK if_not_P[OF nz(1)]
    using sc(5)[of 0] buf(1,2) by (simp add: usub_def new_dec_def)
  also have "res_map (\<lambda>_. ?d) res = (if ?i + ?f \<le> 9 then Ok ?d else Truncated ?d)" by (simp add: res)
  finally have "from_bytes escape (ws @ sg @ bs) = finish_text (if ?i + ?f \<le> 9 then Ok ?d else Truncated ?d) t" .
  moreover have "mag ?d = 0 \<longrightarrow> list_all (\<lambda>c. c = 0) (word_buf ?d)"
  proof
    assume "mag ?d = 0"
    then have "\<forall>w\<in>set (take (?i + ?k) buf). w = 0" by (simp add: mag_zero_iff used_def new_dec_def)
    then show "list_all (\<lambda>c. c = 0) (word_buf ?d)"
      using buf(6) set_append[of "take (?i + ?k) buf" "drop (?i + ?k) buf"] by (auto simp: list_all_iff)
  qed
  ultimately show thesis using that[of ?d] ok unfolding K_def by (simp add: new_dec_def)
qed

text \<open>An integer part of more than nine words overflows.\<close>

lemma parse_too_long:
  assumes bs: "mantissa_text I pt F t bs" and ws: "list_all is_ascii_whitespace ws" and sg: "sign_byte sg"
    and long: "9 < word_cnt (length I)"
  obtains v where "from_bytes escape (ws @ sg @ bs) = finish_text (OverCausetxctx v) t"
proof -
  note sc = parse_scan[OF bs]
  have n: "list_all is_digit I" "I @ F \<noteq> []" "pt = [46] \<or> pt = [] \<and> F = []"
    using bs unfolding mantissa_text_def by blast+
  have l: "81 < length I" using long by (auto simp: word_cnt_def split: if_splits)
  let ?e = "if length I < length bs \<and> bs ! length I = 46
      then (first_non_digit bs (length I + 1), first_non_digit bs (length I + 1) - length I - 1) else (length I, 0)"
  have e: "?e = (length (I @ pt @ F), length F)" using sc(2,3) n(3) by auto
  have nz: "length I + length F \<noteq> 0" using l by auto
  have res: "fix_word_cnt_err (word_cnt (length I)) (word_cnt (length F)) 9 = OverCausetxctx (9, 0)"
    using long by (simp add: fix_word_cnt_err_def)
  let ?J = "drop (length I - 81) I"
  have J: "list_all is_digit (rev ?J)" "length (rev ?J) = 81" using n(1) l by (auto simp: list_all_iff dest: in_set_dropD)
  obtain pre where pre: "parse_int_words (rev ?J) 0 9 0 (replicate 9 0 @ []) = Some (pre @ [])"
    using parse_int_words_ok[OF J(1), of 0 0 9 "[]"] J(2) by auto
  have "from_bytes escape (ws @ sg @ bs) = parse_number_bytes escape (ws @ sg @ bs) (sg = [45]) bs 9"
    by (rule from_bytes_sign[OF bs ws sg])
  also have "\<dots> = finish_text (OverCausetxctx ((new_dec 81 0 (sg = [45]))\<lparr>word_buf := pre\<rparr>)) t"
    unfolding parse_number_bytes_def Let_def sc(1) e prod.case res if_not_P[OF nz]
      sc(6)[OF refl] sc(7)[OF refl] finish_text_def
    using sc(5)[of "length I - 81"] pre l by (simp add: usub_def new_dec_def cong: sum.case_cong)
  finally show thesis by (rule that)
qed

text \<open>The exponent.\<close>

lemma exponent_limits: "sdiv 2147483647 2 = 1073741823" "sdiv (- 2147483648) 2 = - 1073741824"
  by (simp_all add: sdiv_def)

lemma finish_text_exponent:
  assumes "exponent_text t ex" "- 162 \<le> ex" "ex \<le> 162"
  shows "finish_text x t = (if exp_mark t
    then do { r \<leftarrow> apply_exponent ex x; Some (Inr (case r of Inl d \<Rightarrow> d | Inr d \<Rightarrow> finish_parse d)) }
    else Some (Inr (finish_parse x)))"
proof (cases "exp_mark t")
  case True
  obtain bl sg cs rest where t: "drop 1 t = bl @ sg @ cs @ rest" "list_all is_blank bl" "sign_byte sg" "list_all is_digit cs"
    "cs \<noteq> []" "rest = [] \<or> \<not> is_digit (rest ! 0)" "ex = signed_val sg cs"
    using assms(1) True unfolding exponent_text_def by auto
  have "in_signed 64 ex" using assms(2,3) by (simp add: in_signed_def)
  then have "bytes_to_int_without_context (drop 1 t) = Inr ex"
    unfolding t(1) int_parse[OF t(2-6)] t(7) by simp
  then show ?thesis using True by (simp add: finish_text_def)
next
  case False
  then show ?thesis by (simp only: finish_text_def if_False)
qed

lemma finish_text_over:
  assumes "exponent_text t ex" "- 162 \<le> ex" "ex \<le> 162"
  shows "\<exists>w. finish_text (OverCausetxctx v) t = Some (Inr (OverCausetxctx w))"
  unfolding finish_text_exponent[OF assms] using assms(2,3)
  by (simp add: apply_exponent_def exponent_limits finish_parse_def)

lemma finish_text_ok:
  assumes t: "exponent_text t ex" "- 162 \<le> ex" "ex \<le> 162"
    and d: "dec_ok d" "lead_ok d" "trail_ok d" "mag d = 0 \<longrightarrow> list_all (\<lambda>c. c = 0) (word_buf d)" and fits: "shift_fits d ex"
  obtains d' where "finish_text (Ok d) t = Some (Inr (Ok d'))" "dec_ok d'" "sign_ok d'" "result_frac_cnt d' = frac_cnt d'"
    "dec_value d' = dec_value d * 10 powi ex"
    "ex = 0 \<Longrightarrow> d' = d\<lparr>negative := negative d \<and> mag d \<noteq> 0, result_frac_cnt := frac_cnt d\<rparr>"
proof -
  obtain x where x: "shift_dec d ex = Some (Ok x)" "mag x = mag d * 10 powi ex" "dec_ok x"
    "if ex = 0 then x = d else if mag d = 0 then x = zero_dec else negative x = negative d"
    using shift_dec_parts[OF d(1-3) t(2,3) fits] by blast
  have z: "mag x = 0 \<longrightarrow> list_all (\<lambda>c. c = 0) (word_buf x)"
    using x(2,4) d(4) by (auto simp: zero_dec_def new_dec_def list_all_iff split: if_splits)
  let ?x = "x\<lparr>negative := negative x \<and> mag x \<noteq> 0, result_frac_cnt := frac_cnt x\<rparr>"
  have "finish_text (Ok d) t = Some (Inr (finish_parse (Ok x)))"
  proof (cases "exp_mark t")
    case True
    have "apply_exponent ex (Ok d) = Some (Inr (Ok x))"
      using t(2,3) x(1) by (simp add: apply_exponent_def exponent_limits)
    then show ?thesis unfolding finish_text_exponent[OF t] using True by simp
  next
    case False
    then have "ex = 0" using t(1) by (auto simp: exponent_text_def split: if_splits)
    then have "x = d" using x(4) by simp
    then show ?thesis by (simp only: finish_text_def False if_False)
  qed
  then have run: "finish_text (Ok d) t = Some (Inr (Ok ?x))" using finish_parse_ok(1)[OF z] by simp
  have n: "(negative x \<and> mag x \<noteq> 0) = (negative d \<and> mag d \<noteq> 0)"
  proof (cases "mag d = 0")
    case False
    then have "negative x = negative d" using x(4) by (cases "ex = 0") simp_all
    then show ?thesis using False x(2) by simp
  qed (simp add: x(2))
  have "dec_value ?x = (if negative x \<and> mag x \<noteq> 0 then - mag x else mag x)" unfolding dec_value_def mag_update by simp
  also have "\<dots> = dec_value d * 10 powi ex" unfolding n unfolding x(2) dec_value_def by (cases "mag d = 0") simp_all
  finally have "dec_value ?x = dec_value d * 10 powi ex" .
  moreover have "dec_ok ?x" using x(3) by simp
  moreover have "sign_ok ?x" unfolding sign_ok_def mag_update by simp
  ultimately show thesis using that[OF run] x(4) by simp
qed

text \<open>The two cases in which digits are kept: all of them, or the fraction cut.\<close>

lemma parse_fitting:
  assumes bs: "mantissa_text I pt F t bs" "exponent_text t ex" "list_all is_ascii_whitespace ws" "sign_byte sg"
    "- 162 \<le> ex" "ex \<le> 162" and fit: "word_cnt (length I) + word_cnt (length F) \<le> 9"
    and moved: "exp_mark t \<longrightarrow> word_cnt (nat (int (length I) + ex)) + word_cnt (nat (int (length F) - ex)) \<le> 9"
  shows "\<exists>d. from_bytes escape (ws @ sg @ bs) = Some (Inr (Ok d)) \<and> dec_ok d \<and> sign_ok d \<and> result_frac_cnt d = frac_cnt d \<and>
    dec_value d = text_val (sg = [45]) I F * 10 powi ex \<and>
    (ex = 0 \<longrightarrow> lead_ok d \<and> trail_ok d \<and> int_cnt d = length I \<and> frac_cnt d = length F)"
proof -
  have i: "word_cnt (length I) \<le> 9" and K: "kept_frac I F = F" using fit by (simp_all add: kept_frac_def)
  obtain d where d: "from_bytes escape (ws @ sg @ bs) = finish_text (Ok d) t" "dec_ok d" "lead_ok d" "trail_ok d"
    "int_cnt d = length I" "frac_cnt d = length F" "negative d = (sg = [45])"
    "mag d = of_nat (digits_val (I @ F)) / 10 ^ length F" "mag d = 0 \<longrightarrow> list_all (\<lambda>c. c = 0) (word_buf d)"
    using parse_mantissa[OF bs(1,3,4) i, of escape] fit unfolding K by auto
  have v: "dec_value d = text_val (sg = [45]) I F" by (simp add: dec_value_def d(7,8) text_val_def)
  have "word_cnt (nat (int (length I) + ex)) + word_cnt (nat (int (length F) - ex)) \<le> 9"
  proof (cases "exp_mark t")
    case no: False
    then have "ex = 0" using bs(2) unfolding exponent_text_def if_not_P[OF no] by simp
    then show ?thesis using fit by simp
  qed (use moved in simp)
  then have "shift_fits d ex" by (intro shift_fits_counts[OF d(2-4)]) (simp add: d(5,6))
  then obtain d' where d': "finish_text (Ok d) t = Some (Inr (Ok d'))" "dec_ok d'" "sign_ok d'" "result_frac_cnt d' = frac_cnt d'"
    "dec_value d' = dec_value d * 10 powi ex"
    "ex = 0 \<Longrightarrow> d' = d\<lparr>negative := negative d \<and> mag d \<noteq> 0, result_frac_cnt := frac_cnt d\<rparr>"
    using finish_text_ok[OF bs(2,5,6) d(2-4,9)] by blast
  have "ex = 0 \<longrightarrow> lead_ok d' \<and> trail_ok d' \<and> int_cnt d' = length I \<and> frac_cnt d' = length F"
    using d'(6) d(3-6) by (auto simp: lead_ok_def trail_ok_def used_def)
  then show ?thesis using d(1) d'(1-5) v by auto
qed

lemma parse_cut:
  assumes bs: "mantissa_text I pt F t bs" "list_all is_ascii_whitespace ws" "sign_byte sg" and t: "\<not> exp_mark t"
    and i: "word_cnt (length I) \<le> 9" "9 < word_cnt (length I) + word_cnt (length F)"
  shows "\<exists>d. from_bytes escape (ws @ sg @ bs) = Some (Inr (Truncated d)) \<and> dec_ok d \<and> sign_ok d \<and>
    result_frac_cnt d = frac_cnt d \<and> dec_value d = text_val (sg = [45]) I (kept_frac I F) \<and>
    lead_ok d \<and> trail_ok d \<and> int_cnt d = length I \<and> frac_cnt d = length (kept_frac I F)"
proof -
  obtain d where d: "from_bytes escape (ws @ sg @ bs) = finish_text (Truncated d) t" "dec_ok d" "lead_ok d" "trail_ok d"
    "int_cnt d = length I" "frac_cnt d = length (kept_frac I F)" "negative d = (sg = [45])"
    "mag d = of_nat (digits_val (I @ kept_frac I F)) / 10 ^ length (kept_frac I F)"
    "mag d = 0 \<longrightarrow> list_all (\<lambda>c. c = 0) (word_buf d)"
    using parse_mantissa[OF bs i(1), of escape] i(2) by auto
  let ?d = "d\<lparr>negative := negative d \<and> mag d \<noteq> 0, result_frac_cnt := frac_cnt d\<rparr>"
  have "from_bytes escape (ws @ sg @ bs) = Some (Inr (Truncated ?d))"
    unfolding d(1) finish_text_def if_not_P[OF t] finish_parse_ok(2)[OF d(9)] ..
  moreover have "dec_ok ?d" "lead_ok ?d" "trail_ok ?d" using d(2-4) by (simp_all add: lead_ok_def trail_ok_def used_def)
  moreover have "sign_ok ?d" unfolding sign_ok_def mag_update by simp
  moreover have "dec_value ?d = text_val (sg = [45]) I (kept_frac I F)"
    unfolding dec_value_def mag_update using d(7,8) by (auto simp: text_val_def)
  ultimately show ?thesis using d(5,6) by (intro exI[of _ ?d]) simp
qed

lemma parse_number:
  assumes bs: "number_text I pt F rest bs" and ws: "list_all is_ascii_whitespace ws" and sg: "sign_byte sg"
    and fit: "word_cnt (length I) + word_cnt (length F) \<le> 9"
  shows "\<exists>d. from_bytes escape (ws @ sg @ bs) = Some (Inr (Ok d)) \<and> dec_ok d \<and> sign_ok d \<and> lead_ok d \<and> trail_ok d \<and>
    int_cnt d = length I \<and> frac_cnt d = length F \<and> result_frac_cnt d = length F \<and> dec_value d = text_val (sg = [45]) I F"
proof -
  have no: "\<not> exp_mark rest" using bs by blast
  have "exponent_text rest 0" unfolding exponent_text_def if_not_P[OF no] ..
  from parse_fitting[OF _ this ws sg _ _ fit, of pt bs escape] bs show ?thesis by auto
qed

lemma printed_text:
  assumes d: "dec_ok d" "lead_ok d" "trail_ok d"
  shows "\<exists>I F. to_string d = Some (dec_text (negative d) I F) \<and> list_all is_digit I \<and> list_all is_digit F \<and>
    length F = frac_cnt d \<and> text_val (negative d) I F = dec_value d \<and> (I = [48] \<or> I ! 0 \<noteq> 48) \<and> I \<noteq> [] \<and>
    word_cnt (length I) \<le> max 1 (int_words d)"
proof -
  obtain I F where IF: "to_string d = Some (dec_text (negative d) I F)" "list_all is_digit I" "list_all is_digit F"
    "length F = frac_cnt d" "digits_val I = ipart d" "0 < length I" "length I \<le> max 1 (9 * int_words d)" "I = [48] \<or> I ! 0 \<noteq> 48"
    "digits_val F = bval WORD_BASE (seg (word_buf d) (int_words d) (frac_words d)) div 10 ^ (9 * frac_words d - frac_cnt d)"
    using to_string_ok[OF d(1,2)] by blast
  have "text_val (negative d) I F = dec_value d"
    using text_value[OF d(1,3) IF(9,4,5)] by (simp add: text_val_def dec_value_def)
  moreover have "word_cnt (length I) \<le> max 1 (int_words d)"
    using word_cnt_mono[OF IF(7)] word_cnt_mult[of "int_words d"] dec_okD(3)[OF d(1)]
    by (simp add: word_cnt_max mult.commute word_cnt_def[of "Suc 0"])
  ultimately show ?thesis using IF by auto
qed

lemma print_parse:
  assumes d: "dec_ok d" "lead_ok d" "trail_ok d" and fit: "max 1 (int_words d) + frac_words d \<le> WORD_BUF_LEN"
  shows "\<exists>t d'. to_string d = Some t \<and> from_str escape t = Some (Inr d') \<and> dec_value d' = dec_value d \<and>
    frac_cnt d' = frac_cnt d \<and> dec_ok d' \<and> sign_ok d' \<and> lead_ok d' \<and> trail_ok d'"
proof -
  obtain I F where IF: "to_string d = Some (dec_text (negative d) I F)" "list_all is_digit I" "list_all is_digit F"
    "length F = frac_cnt d" "text_val (negative d) I F = dec_value d" "I \<noteq> []" "word_cnt (length I) \<le> max 1 (int_words d)"
    using printed_text[OF d] by blast
  let ?pt = "if F = [] then [] else [46]" and ?sg = "if negative d then [45] else []"
  have "number_text I ?pt F [] (I @ ?pt @ F)" using IF(2,3,6) by (simp add: mantissa_text_def)
  moreover have "word_cnt (length I) + word_cnt (length F) \<le> 9" using IF(4,7) fit by simp
  moreover have "sign_byte ?sg" by (simp add: sign_byte_def)
  ultimately obtain d' where d': "from_bytes escape ([] @ ?sg @ I @ ?pt @ F) = Some (Inr (Ok d'))" "dec_ok d'" "sign_ok d'"
    "lead_ok d'" "trail_ok d'" "frac_cnt d' = length F" "dec_value d' = text_val (?sg = [45]) I F"
    using parse_number[of I ?pt F "[]" "I @ ?pt @ F" "[]" ?sg escape] by auto
  have "[] @ ?sg @ I @ ?pt @ F = dec_text (negative d) I F" by (simp add: dec_text_def)
  then have "from_str escape (dec_text (negative d) I F) = Some (Inr d')" using d'(1) by (simp only: from_str_def) simp
  then show ?thesis using d' IF by (intro exI[of _ "dec_text (negative d) I F"] exI[of _ d']) auto
qed

section \<open>Properties\<close>

text \<open>
  C15: the printer is exact. On a well-formed decimal whose digits fit the counted places it does
  not panic and writes the sign, the integer digits without a redundant leading zero and, behind
  the point, exactly the fraction digits the decimal counts; the text denotes the decimal's value.\<close>

theorem to_string_prints:
  assumes "dec_ok d" "lead_ok d" "trail_ok d"
  shows "\<exists>I F. to_string d = Some (dec_text (negative d) I F) \<and> list_all is_digit I \<and> list_all is_digit F \<and>
    length F = frac_cnt d \<and> text_val (negative d) I F = dec_value d \<and> (I = [48] \<or> I ! 0 \<noteq> 48) \<and> I \<noteq> []"
  using printed_text[OF assms] by blast

theorem to_string_prints_witness:
  "to_string (dec_words 3 2 True [12, 450000000]) = Some [45, 49, 50, 46, 52, 53] \<and>
   (\<exists>I F. to_string (dec_words 3 2 True [12, 450000000]) = Some (dec_text True I F) \<and>
     text_val True I F = dec_value (dec_words 3 2 True [12, 450000000]))"
proof -
  let ?d = "dec_words 3 2 True [12, 450000000]"
  have ok: "dec_ok ?d" "lead_ok ?d" "trail_ok ?d"
    by (simp_all add: dec_words_defs lead_ok_def trail_ok_def mag_def)
  have neg: "negative ?d = True" by (simp add: dec_words_defs)
  show ?thesis
  proof (intro conjI)
    show "to_string ?d = Some [45, 49, 50, 46, 52, 53]" by code_simp
    show "\<exists>I F. to_string ?d = Some (dec_text True I F) \<and> text_val True I F = dec_value ?d"
      using to_string_prints[OF ok] unfolding neg by blast
  qed
qed

text \<open>
  C14: the parser is exact. Take any whitespace, an optional sign, integer digits and fraction
  digits, at least one in all, and a tail that is no digit, or an exponent of at most 162 in
  absolute value; whatever follows is ignored. The parser never panics and never fails on it. More
  than nine words of integer digits overflow. If the digits fit nine words and still do at the new
  place of the point, the result is a well-formed decimal, never a negative zero, with exactly the
  value of the text, \<open>text_val * 10 ^ ex\<close>, and without an exponent its digit counts. If the digits do
  not fit and there is no exponent, the result is reported as truncated, and it is the value of
  the text with the fraction cut to the words that are left. (What remains are exponents that move
  digits out of the buffer, where \<open>shift_loses_carry\<close> shows a wrong result.)\<close>

theorem from_bytes_parses:
  assumes "mantissa_text I pt F t bs" "exponent_text t ex" "list_all is_ascii_whitespace ws" "sign_byte sg"
    "- 162 \<le> ex" "ex \<le> 162"
    "exp_mark t \<longrightarrow> WORD_BUF_LEN < word_cnt (length I) \<or>
      word_cnt (length I) + word_cnt (length F) \<le> WORD_BUF_LEN \<and>
      word_cnt (nat (int (length I) + ex)) + word_cnt (nat (int (length F) - ex)) \<le> WORD_BUF_LEN"
  shows "\<exists>x. from_bytes escape (ws @ sg @ bs) = Some (Inr x) \<and>
    (if WORD_BUF_LEN < word_cnt (length I) then is_overCausetxctx x
     else let F' = (if word_cnt (length I) + word_cnt (length F) \<le> WORD_BUF_LEN then F
                    else take ((WORD_BUF_LEN - word_cnt (length I)) * DIGITS_PER_WORD) F) in
       (if word_cnt (length I) + word_cnt (length F) \<le> WORD_BUF_LEN then is_ok x else is_truncated x) \<and>
       dec_ok (deref x) \<and> sign_ok (deref x) \<and> result_frac_cnt (deref x) = frac_cnt (deref x) \<and>
       dec_value (deref x) = text_val (sg = [45]) I F' * 10 powi ex \<and>
       (ex = 0 \<longrightarrow> lead_ok (deref x) \<and> trail_ok (deref x) \<and> int_cnt (deref x) = length I \<and> frac_cnt (deref x) = length F'))"
proof -
  consider "9 < word_cnt (length I)" | "word_cnt (length I) + word_cnt (length F) \<le> 9"
    | "\<not> 9 < word_cnt (length I)" "\<not> word_cnt (length I) + word_cnt (length F) \<le> 9" by linarith
  then show ?thesis
  proof cases
    case 1
    obtain v where "from_bytes escape (ws @ sg @ bs) = finish_text (OverCausetxctx v) t"
      using parse_too_long[OF assms(1,3,4) 1] by blast
    then show ?thesis using finish_text_over[OF assms(2,5,6), of v] 1 by auto
  next
    case 2
    then have "word_cnt (length I) \<le> 9" by simp
    with assms(7) have "exp_mark t \<longrightarrow> word_cnt (nat (int (length I) + ex)) + word_cnt (nat (int (length F) - ex)) \<le> 9" by auto
    from parse_fitting[OF assms(1-6) 2 this, of escape] 2 show ?thesis by (auto simp: Let_def)
  next
    case 3
    then have no: "\<not> exp_mark t" using assms(7) by auto
    have i: "word_cnt (length I) \<le> 9" "9 < word_cnt (length I) + word_cnt (length F)" using 3 by simp_all
    have "ex = 0" using assms(2) unfolding exponent_text_def if_not_P[OF no] by simp
    with parse_cut[OF assms(1,3,4) no i, of escape] 3 show ?thesis by (auto simp: Let_def kept_frac_def)
  qed
qed

text \<open>The witness reads \<open>" -12.5E-3x"\<close> as -0.0125.\<close>

theorem from_bytes_parses_witness:
  "\<exists>x. from_bytes (\<lambda>_. []) ([32] @ [45] @ [49, 50, 46, 53, 69, 45, 51, 120]) = Some (Inr x) \<and> is_ok x \<and>
    dec_value (deref x) = - 125 / 10000"
proof -
  have "mantissa_text [49, 50] [46] [53] [69, 45, 51, 120] [49, 50, 46, 53, 69, 45, 51, 120]"
    by (simp add: mantissa_text_def is_digit_def)
  moreover have "exponent_text [69, 45, 51, 120] (- 3)"
    using exponent_textI[of 69 "[]" "[45]" "[51]" "[120]"]
    by (simp add: sign_byte_def is_digit_def signed_val_def digit_val_def)
  moreover have "list_all is_ascii_whitespace [32]" "sign_byte [45]" by (simp_all add: is_ascii_whitespace_def sign_byte_def)
  moreover have "text_val ([45 :: nat] = [45]) [49, 50] [53] * 10 powi (- 3) = - 125 / 10000"
    by (simp add: text_val_def digit_val_def power_int_minus)
  moreover have w: "word_cnt (length [49 :: nat, 50]) = 1" "word_cnt (length [53 :: nat]) = 1" "word_cnt 0 = 0" "word_cnt 4 = 1"
    by (simp_all add: word_cnt_def)
  ultimately show ?thesis
    using from_bytes_parses[of "[49, 50]" "[46]" "[53]" "[69, 45, 51, 120]" _ "- 3" "[32]" "[45]" "\<lambda>_. []"]
    by (fastforce simp: w)
qed

text \<open>
  C13: printing and parsing back is the identity on values. For a well-formed decimal whose
  printed text fits the buffer, \<open>from_str (to_string d)\<close> succeeds and gives a well-formed decimal
  of the same value and the same scale.\<close>

theorem parse_print_roundtrip:
  assumes "dec_ok d" "lead_ok d" "trail_ok d" "max 1 (int_words d) + frac_words d \<le> WORD_BUF_LEN"
  shows "\<exists>t d'. to_string d = Some t \<and> from_str escape t = Some (Inr d') \<and> dec_value d' = dec_value d \<and>
    frac_cnt d' = frac_cnt d \<and> dec_ok d' \<and> sign_ok d' \<and> lead_ok d' \<and> trail_ok d'"
  using assms by (rule print_parse)

theorem parse_print_roundtrip_witness:
  "dec_value (dec_words 0 3 True [5000000]) = - 1 / 200 \<and>
   (\<exists>t d'. to_string (dec_words 0 3 True [5000000]) = Some t \<and> from_str (\<lambda>_. []) t = Some (Inr d') \<and>
     dec_value d' = dec_value (dec_words 0 3 True [5000000]))"
proof -
  let ?d = "dec_words 0 3 True [5000000]"
  have "dec_ok ?d" "lead_ok ?d" "trail_ok ?d" "max 1 (int_words ?d) + frac_words ?d \<le> WORD_BUF_LEN"
    by (simp_all add: dec_words_defs lead_ok_def trail_ok_def mag_def)
  moreover have "dec_value ?d = - 1 / 200" by (simp add: dec_value_def mag_def dec_words_defs)
  ultimately show ?thesis using parse_print_roundtrip[of ?d "\<lambda>_. []"] by blast
qed

end
