(* ===== verification/Decimal_Codec.thy ===== *)
theory Decimal_Codec
  imports Decimal_Text_Correct
begin

unbundle bit_operations_syntax

text \<open>
  The comparable binary format of decimals: \<open>DecimalEncoder::write_decimal\<close>, \<open>read_word\<close> and
  \<open>DecimalDecoder::read_decimal\<close> of \<open>src/berolinasql/src/decimal.rs\<close>. A writer is the list of
  the bytes written so far, which grows without failing; a reader is the list of bytes left.
\<close>

section \<open>Writing\<close>

text \<open>The macros \<open>write_u8!\<close> and \<open>write_word!\<close>; the state is the output and \<open>written\<close>.\<close>

definition write_u8 :: "nat \<Rightarrow> nat list \<times> nat \<Rightarrow> nat list \<times> nat" where
  "write_u8 b = (\<lambda>(out, written). (out @ [if written = 0 then b XOR 0x80 else b], written + 1))"

definition word_bytes :: "nat \<Rightarrow> nat \<Rightarrow> nat list option" where
  "word_bytes word sz =
     (if sz = 1 then Some [word mod 256]
      else if sz = 2 then Some [word div 2 ^ 8 mod 256, word mod 256]
      else if sz = 3 then Some [word div 2 ^ 16 mod 256, word div 2 ^ 8 mod 256, word mod 256]
      else if sz = 4
      then Some [word div 2 ^ 24 mod 256, word div 2 ^ 16 mod 256, word div 2 ^ 8 mod 256, word mod 256]
      else None)"

definition write_word :: "nat \<Rightarrow> nat \<Rightarrow> nat list \<times> nat \<Rightarrow> (nat list \<times> nat) option" where
  "write_word word sz = (\<lambda>(out, written). do {
     bs \<leftarrow> word_bytes word sz;
     let bs = (if written = 0 then bs[0 := bs ! 0 XOR 0x80] else bs);
     Some (out @ bs, written + sz) })"

text \<open>The bytes that \<open>n\<close> digits take.\<close>

definition digits_size :: "nat \<Rightarrow> nat" where
  "digits_size n = n div DIGITS_PER_WORD * WORD_SIZE + DIG_2_BYTES ! (n - n div DIGITS_PER_WORD * DIGITS_PER_WORD)"

text \<open>\<open>for _ in .. { write_u8!(self, mask as u8, written) }\<close>\<close>

fun write_fill :: "nat \<Rightarrow> nat \<Rightarrow> nat list \<times> nat \<Rightarrow> nat list \<times> nat" where
  "write_fill 0 msk st = st"
| "write_fill (Suc n) msk st = write_fill n msk (write_u8 (msk mod 256) st)"

text \<open>The integer part: its words and leading digits, or the overflow.\<close>

definition write_int_part ::
    "nat \<Rightarrow> nat \<Rightarrow> nat \<Rightarrow> nat \<Rightarrow> nat \<Rightarrow> nat \<Rightarrow> nat list \<times> nat \<Rightarrow> (nat \<times> nat \<times> nat \<times> unit res \<times> (nat list \<times> nat)) option" where
  "write_int_part ic prec_int start_idx src_int_cnt mask0 int_size st =
     (let int_word_cnt = prec_int div DIGITS_PER_WORD;
          leading_digits = prec_int - int_word_cnt * DIGITS_PER_WORD;
          src_int_word_cnt = src_int_cnt div DIGITS_PER_WORD;
          src_leading_digits = src_int_cnt - src_int_word_cnt * DIGITS_PER_WORD;
          src_int_size = digits_size src_int_cnt
      in if ic < src_int_cnt
         then do {
           w \<leftarrow> usub src_int_word_cnt int_word_cnt;
           let start_idx = start_idx + w;
           let start_idx = (if src_leading_digits > 0 then start_idx + 1 else start_idx);
           start_idx \<leftarrow> (if leading_digits > 0 then usub start_idx 1 else Some start_idx);
           Some (start_idx, int_word_cnt, leading_digits, OverCausetxctx (), st) }
         else Some (start_idx, src_int_word_cnt, src_leading_digits, Ok (),
           if int_size > src_int_size then write_fill (int_size - src_int_size) mask0 st else st))"

text \<open>The fraction: how many words and trailing digits to write, and the size to fill up to.\<close>

definition plan_frac_part :: "nat \<Rightarrow> nat \<Rightarrow> unit res \<Rightarrow> nat \<times> nat \<times> nat \<times> unit res" where
  "plan_frac_part fr src_frac_cnt res =
     (let frac_word_cnt = fr div DIGITS_PER_WORD;
          trailing_digits = fr - frac_word_cnt * DIGITS_PER_WORD;
          src_frac_word_cnt = src_frac_cnt div DIGITS_PER_WORD;
          src_trailing_digits = src_frac_cnt - src_frac_word_cnt * DIGITS_PER_WORD;
          frac_size = digits_size fr;
          src_frac_size = digits_size src_frac_cnt
      in if frac_size < src_frac_size then (frac_word_cnt, trailing_digits, frac_size, Truncated ())
         else if frac_size > src_frac_size \<and> src_trailing_digits > 0
         then (if frac_word_cnt = src_frac_word_cnt
               then (src_frac_word_cnt, trailing_digits, src_frac_size, res)
               else (src_frac_word_cnt + 1, 0, frac_size, res))
         else (src_frac_word_cnt, src_trailing_digits, frac_size, res))"

text \<open>\<open>while src_word_start_idx < stop\<close>, \<open>n\<close> words being left.\<close>

fun write_words :: "nat list \<Rightarrow> nat \<Rightarrow> nat \<Rightarrow> nat \<Rightarrow> nat list \<times> nat \<Rightarrow> (nat list \<times> nat) option" where
  "write_words buf msk idx 0 st = Some st"
| "write_words buf msk idx (Suc n) st = do {
     w \<leftarrow> get_at buf idx;
     st \<leftarrow> write_word (w XOR msk) 4 st;
     write_words buf msk (idx + 1) n st }"

text \<open>\<open>while src_trailing_digits < lim && DIG_2_BYTES[src_trailing_digits] == i\<close>\<close>

function grow_trailing :: "nat \<Rightarrow> nat \<Rightarrow> nat \<Rightarrow> nat option" where
  "grow_trailing i lmt t =
     (if t < lmt
      then do {
        b \<leftarrow> get_at DIG_2_BYTES t;
        if b = i then grow_trailing i lmt (t + 1) else Some t }
      else Some t)"
  by pat_completeness auto
termination
  by (relation "measure (\<lambda>(i, lmt, t). lmt - t)") auto

declare grow_trailing.simps [simp del]

definition write_leading :: "nat list \<Rightarrow> nat \<Rightarrow> nat \<Rightarrow> nat \<Rightarrow> nat list \<times> nat \<Rightarrow> (nat \<times> (nat list \<times> nat)) option" where
  "write_leading buf msk idx digits st =
     (if digits > 0
      then do {
        i \<leftarrow> get_at DIG_2_BYTES digits;
        w \<leftarrow> get_at buf idx;
        p \<leftarrow> get_at TEN_POW digits;
        st \<leftarrow> write_word ((w mod p) XOR msk) i st;
        Some (idx + 1, st) }
      else Some (idx, st))"

definition write_trailing :: "nat list \<Rightarrow> nat \<Rightarrow> nat \<Rightarrow> nat \<Rightarrow> nat \<Rightarrow> nat list \<times> nat \<Rightarrow> (nat list \<times> nat) option" where
  "write_trailing buf msk idx digits lmt st =
     (if digits > 0
      then do {
        i \<leftarrow> get_at DIG_2_BYTES digits;
        digits \<leftarrow> grow_trailing i lmt digits;
        w \<leftarrow> get_at buf idx;
        e \<leftarrow> usub DIGITS_PER_WORD digits;
        p \<leftarrow> get_at TEN_POW e;
        write_word ((w div p) XOR msk) i st }
      else Some st)"

definition write_decimal :: "decimal \<Rightarrow> nat \<Rightarrow> nat \<Rightarrow> (nat list \<times> unit res) option" where
  "write_decimal d prec fr = do {
     let msk = (if negative d then 2 ^ 32 - 1 else 0);
     prec_int \<leftarrow> usub prec fr;
     let frac_word_cnt = fr div DIGITS_PER_WORD;
     let trailing_digits = fr - frac_word_cnt * DIGITS_PER_WORD;
     let int_size = digits_size prec_int;
     let src_frac_size = digits_size (frac_cnt d);
     (start_idx, src_int_cnt) \<leftarrow> remove_leading_zeroes d (int_cnt d);
     t \<leftarrow> uadd 8 src_int_cnt src_frac_size;
     let (msk, ic) = (if t = 0 then (0, 1) else (msk, prec_int));
     (start_idx, src_int_word_cnt, src_leading_digits, res, st) \<leftarrow>
       write_int_part ic prec_int start_idx src_int_cnt msk int_size ([prec, fr], 0);
     let (src_frac_word_cnt, src_trailing_digits, frac_size, res) = plan_frac_part fr (frac_cnt d) res;
     (start_idx, st) \<leftarrow> write_leading (word_buf d) msk start_idx src_leading_digits st;
     let n = src_int_word_cnt + src_frac_word_cnt;
     st \<leftarrow> write_words (word_buf d) msk start_idx n st;
     let lmt = (if src_frac_word_cnt < frac_word_cnt then DIGITS_PER_WORD else trailing_digits);
     (out, written) \<leftarrow> write_trailing (word_buf d) msk (start_idx + n) src_trailing_digits lmt st;
     let st = (if frac_size > src_frac_size
        then write_fill (min (frac_size - src_frac_size) (int_size + frac_size - written)) msk (out, written)
        else (out, written));
     Some (fst st, res) }"

section \<open>Reading\<close>

text \<open>\<open>read_word\<close>: the word, the bytes left and the flag \<open>is_first\<close>.\<close>

definition read_word :: "nat list \<Rightarrow> nat \<Rightarrow> bool \<Rightarrow> (nat \<times> nat list \<times> bool) fresult option" where
  "read_word buf sz is_first =
     (if length buf < sz then Some (Inl unexpected_eof)
      else do {
        b0 \<leftarrow> get_at buf 0;
        let b0 = (if is_first then b0 XOR 0x80 else b0);
        let s0 = as_signed 8 (int b0);
        r \<leftarrow> (if sz = 1 then Some (as_unsigned 32 s0)
             else if sz = 2 then Some (as_unsigned 32 (s0 * 2 ^ 8 + int (buf ! 1)))
             else if sz = 3
             then Some (if b0 AND 128 > 0
                        then (255 * 2 ^ 24) OR (b0 * 2 ^ 16) OR (buf ! 1 * 2 ^ 8) OR (buf ! 2)
                        else (b0 * 2 ^ 16) OR (buf ! 1 * 2 ^ 8) OR (buf ! 2))
             else if sz = 4
             then Some (as_unsigned 32 (s0 * 2 ^ 24 + int (buf ! 1) * 2 ^ 16 + int (buf ! 2) * 2 ^ 8 + int (buf ! 3)))
             else None);
        Some (Inr (r, drop sz buf, False)) })"

text \<open>The words of the integer part, leading zero words being skipped, \<open>n\<close> words being left.\<close>

fun read_int_words ::
    "nat \<Rightarrow> nat \<Rightarrow> nat \<Rightarrow> decimal \<Rightarrow> nat list \<Rightarrow> bool \<Rightarrow> (nat \<times> decimal \<times> nat list \<times> bool) fresult option" where
  "read_int_words 0 msk idx d bs is_first = Some (Inr (idx, d, bs, is_first))"
| "read_int_words (Suc n) msk idx d bs is_first = do {
     r \<leftarrow> read_word bs 4 is_first;
     case r of
       Inl e \<Rightarrow> Some (Inl e)
     | Inr (w, bs, is_first) \<Rightarrow> do {
         buf \<leftarrow> set_at (word_buf d) idx (w XOR msk);
         let d = d\<lparr>word_buf := buf\<rparr>;
         if w XOR msk > WORD_MAX then Some (Inl (box_err ''invalid int part for decimal number''))
         else if idx > 0 \<or> w XOR msk \<noteq> 0 then read_int_words n msk (idx + 1) d bs is_first
         else do {
           ic \<leftarrow> usub (int_cnt d) DIGITS_PER_WORD;
           read_int_words n msk idx (d\<lparr>int_cnt := ic\<rparr>) bs is_first } } }"

fun read_frac_words ::
    "nat \<Rightarrow> nat \<Rightarrow> nat \<Rightarrow> decimal \<Rightarrow> nat list \<Rightarrow> bool \<Rightarrow> (nat \<times> decimal \<times> nat list \<times> bool) fresult option" where
  "read_frac_words 0 msk idx d bs is_first = Some (Inr (idx, d, bs, is_first))"
| "read_frac_words (Suc n) msk idx d bs is_first = do {
     r \<leftarrow> read_word bs 4 is_first;
     case r of
       Inl e \<Rightarrow> Some (Inl e)
     | Inr (w, bs, is_first) \<Rightarrow> do {
         buf \<leftarrow> set_at (word_buf d) idx (w XOR msk);
         if w XOR msk > WORD_MAX then Some (Inl (box_err ''invalid frac part decimal number''))
         else read_frac_words n msk (idx + 1) (d\<lparr>word_buf := buf\<rparr>) bs is_first } }"

definition read_leading :: "nat \<Rightarrow> nat \<Rightarrow> decimal \<Rightarrow> nat list \<Rightarrow> (nat \<times> decimal \<times> nat list \<times> bool) fresult option" where
  "read_leading leading_digits msk d bs =
     (if leading_digits > 0
      then do {
        i \<leftarrow> get_at DIG_2_BYTES leading_digits;
        r \<leftarrow> read_word bs i True;
        case r of
          Inl e \<Rightarrow> Some (Inl e)
        | Inr (w, bs, is_first) \<Rightarrow> do {
            buf \<leftarrow> set_at (word_buf d) 0 (w XOR msk);
            let d = d\<lparr>word_buf := buf\<rparr>;
            p \<leftarrow> get_at TEN_POW (leading_digits + 1);
            if w XOR msk \<ge> p then Some (Inl (box_err ''invalid leading digits for decimal number''))
            else if w XOR msk \<noteq> 0 then Some (Inr (1, d, bs, is_first))
            else do {
              ic \<leftarrow> usub (int_cnt d) leading_digits;
              Some (Inr (0, d\<lparr>int_cnt := ic\<rparr>, bs, is_first)) } } }
      else Some (Inr (0, d, bs, True)))"

definition read_trailing :: "nat \<Rightarrow> nat \<Rightarrow> nat \<Rightarrow> decimal \<Rightarrow> nat list \<Rightarrow> bool \<Rightarrow> (decimal \<times> nat list) fresult option" where
  "read_trailing trailing_digits msk idx d bs is_first =
     (if trailing_digits > 0
      then do {
        i \<leftarrow> get_at DIG_2_BYTES trailing_digits;
        r \<leftarrow> read_word bs i is_first;
        case r of
          Inl e \<Rightarrow> Some (Inl e)
        | Inr (w, bs, _) \<Rightarrow> do {
            p \<leftarrow> get_at TEN_POW (DIGITS_PER_WORD - trailing_digits);
            let x = w XOR msk;
            if umul 32 x p \<noteq> None \<and> x * p \<le> WORD_MAX
            then do {
              buf \<leftarrow> set_at (word_buf d) idx (x * p);
              Some (Inr (d\<lparr>word_buf := buf\<rparr>, bs)) }
            else Some (Inl (box_err ''invalid trailing digits for decimal number'')) } }
      else Some (Inr (d, bs)))"

text \<open>\<open>Debug\<close> of the result of \<open>fix_word_cnt_err\<close>.\<close>

definition debug_word_cnts :: "(nat \<times> nat) res \<Rightarrow> string" where
  "debug_word_cnts r =
     (let p = ''(('' @ show_nat (fst (deref r)) @ '', '' @ show_nat (snd (deref r)) @ ''))''
      in (if is_ok r then ''Ok'' else if is_truncated r then ''Truncated'' else ''OverCausetxctx'') @ p)"

definition read_decimal :: "nat list \<Rightarrow> (decimal \<times> nat list) fresult option" where
  "read_decimal bytes =
     (if length bytes < 3
      then Some (Inl (box_err (''decimal too short: '' @ show_nat (length bytes) @ '' < 3'')))
      else
        let prec = bytes ! 0; fc = bytes ! 1; bs = drop 2 bytes
        in if prec < fc
        then Some (Inl (box_err (''invalid decimal, precision '' @ show_nat prec @ '' < frac_cnt '' @ show_nat fc)))
        else do {
          let ic = prec - fc;
          let int_word_cnt = ic div DIGITS_PER_WORD;
          let leading_digits = ic - int_word_cnt * DIGITS_PER_WORD;
          let frac_word_cnt = fc div DIGITS_PER_WORD;
          let trailing_digits = fc - frac_word_cnt * DIGITS_PER_WORD;
          let int_word_to = (if leading_digits > 0 then int_word_cnt + 1 else int_word_cnt);
          let frac_word_to = (if trailing_digits > 0 then frac_word_cnt + 1 else frac_word_cnt);
          let msk = (if bs ! 0 AND 0x80 > 0 then 0 else 2 ^ 32 - 1);
          let res = fix_word_cnt_err int_word_to frac_word_to WORD_BUF_LEN;
          if \<not> is_ok res
          then Some (Inl (box_err (''decoding decimal failed: '' @ debug_word_cnts res)))
          else do {
            let d = (new_dec ic fc (msk \<noteq> 0))\<lparr>result_frac_cnt := fc\<rparr>;
            r \<leftarrow> read_leading leading_digits msk d bs;
            case r of
              Inl e \<Rightarrow> Some (Inl e)
            | Inr (idx, d, bs, is_first) \<Rightarrow> do {
                r \<leftarrow> read_int_words int_word_cnt msk idx d bs is_first;
                case r of
                  Inl e \<Rightarrow> Some (Inl e)
                | Inr (idx, d, bs, is_first) \<Rightarrow> do {
                    r \<leftarrow> read_frac_words frac_word_cnt msk idx d bs is_first;
                    case r of
                      Inl e \<Rightarrow> Some (Inl e)
                    | Inr (idx, d, bs, is_first) \<Rightarrow> do {
                        r \<leftarrow> read_trailing trailing_digits msk idx d bs is_first;
                        case r of
                          Inl e \<Rightarrow> Some (Inl e)
                        | Inr (d, bs) \<Rightarrow>
                            let d = (if int_cnt d = 0 \<and> frac_cnt d = 0 then zero_dec else d)
                            in Some (Inr (d\<lparr>result_frac_cnt := fc\<rparr>, bs)) } } } } })"

end
