(* ===== verification/Decimal_Codec_Correct.thy ===== *)
theory Decimal_Codec_Correct
  imports Decimal_Codec
begin

text \<open>
  The binary format of decimals, verified: the encoder writes the digits of the value in groups of
  whole bytes, complemented for a negative number and with the first bit flipped; the decoder
  reads them back; and the byte order of the encodings is the order of the values.
\<close>

section \<open>Bytes and masks\<close>

lemma bit7: "(b :: nat) < 256 \<Longrightarrow> bit b 7 \<longleftrightarrow> 128 \<le> b"
  by (cases "b < 128") (auto simp: bit_iff_odd div_nat_eqI[of _ 1])

lemma and_128: "(b :: nat) < 256 \<Longrightarrow> b AND 128 > 0 \<longleftrightarrow> 128 \<le> b"
  using and_exp_eq_0_iff_not_bit[of b 7] bit7[of b] by (simp add: neq0_conv[symmetric] del: neq0_conv)

lemma xor_128: "(b :: nat) < 256 \<Longrightarrow> b XOR 128 = (if 128 \<le> b then b - 128 else b + 128)"
proof -
  assume b: "b < 256"
  have low: "c XOR 128 = c + 128" if "c < 128" for c :: nat
  proof -
    have "c XOR 128 = flip_bit 7 c" by (simp add: flip_bit_nat_def push_bit_eq_mult)
    then show ?thesis using bit7[of c] that by (simp add: flip_bit_eq_if set_bit_eq)
  qed
  show ?thesis
  proof (cases "128 \<le> b")
    case True
    then have "b = (b - 128) XOR 128" using low[of "b - 128"] b by simp
    then have "b XOR 128 = (b - 128) XOR (128 XOR 128)" by (metis xor.assoc)
    then show ?thesis using True by simp
  qed (use low in simp)
qed

lemma xor_mask:
  assumes "(x :: nat) < 2 ^ n"
  shows "x XOR (2 ^ n - 1) = 2 ^ n - 1 - x"
proof -
  have self: "take_bit n (int x) = int x" using assms by (simp add: take_bit_int_eq_self)
  then have top: "m < n" if "bit x m" for m using that by (metis bit_take_bit_iff bit_of_nat_iff_bit)
  have "int x XOR mask n = take_bit n (NOT (int x))"
    by (rule bit_eqI) (auto simp: bit_simps dest: top)
  also have "\<dots> = mask n - take_bit n (int x)" by (rule take_bit_not_eq_mask_diff)
  also note self
  finally have e: "int x XOR mask n = mask n - int x" .
  have m: "mask n = int (2 ^ n - 1)" by (simp add: mask_eq_exp_minus_1 of_nat_diff)
  have "int (x XOR (2 ^ n - 1)) = int x XOR int (2 ^ n - 1)" by (rule of_nat_xor_eq)
  also have "\<dots> = int (2 ^ n - 1) - int x" using e unfolding m .
  finally show ?thesis using assms by linarith
qed

text \<open>The bytes of a word, most significant first.\<close>

fun be :: "nat \<Rightarrow> nat \<Rightarrow> nat list" where
  "be 0 w = []"
| "be (Suc k) w = (w div 256 ^ k mod 256) # be k w"

lemma length_be [simp]: "length (be k w) = k"
  by (induction k) auto

lemma be_below: "below 256 (be k w)"
  by (induction k) auto

lemma bval_be: "bval 256 (be k w) = w mod 256 ^ k"
proof (induction k)
  case (Suc k)
  have "w mod 256 ^ Suc k = 256 ^ k * (w div 256 ^ k mod 256) + w mod 256 ^ k"
    using mod_mult2_eq[of w "256 ^ k" 256] by (simp add: mult.commute)
  then show ?case using Suc by (simp add: mult.commute)
qed simp

lemma be_unfold:
  "be 1 w = [w mod 256]" "be 2 w = [w div 2 ^ 8 mod 256, w mod 256]"
  "be 3 w = [w div 2 ^ 16 mod 256, w div 2 ^ 8 mod 256, w mod 256]"
  "be 4 w = [w div 2 ^ 24 mod 256, w div 2 ^ 16 mod 256, w div 2 ^ 8 mod 256, w mod 256]"
proof -
  have "be (Suc 0) w = [w mod 256]" "be (Suc (Suc 0)) w = [w div 2 ^ 8 mod 256, w mod 256]"
    "be (Suc (Suc (Suc 0))) w = [w div 2 ^ 16 mod 256, w div 2 ^ 8 mod 256, w mod 256]"
    "be (Suc (Suc (Suc (Suc 0)))) w = [w div 2 ^ 24 mod 256, w div 2 ^ 16 mod 256, w div 2 ^ 8 mod 256, w mod 256]"
    by simp_all
  moreover have "(4 :: nat) = Suc (Suc (Suc (Suc 0)))" by simp
  ultimately show "be 1 w = [w mod 256]" "be 2 w = [w div 2 ^ 8 mod 256, w mod 256]"
    "be 3 w = [w div 2 ^ 16 mod 256, w div 2 ^ 8 mod 256, w mod 256]"
    "be 4 w = [w div 2 ^ 24 mod 256, w div 2 ^ 16 mod 256, w div 2 ^ 8 mod 256, w mod 256]"
    by (simp_all only: One_nat_def numeral_2_eq_2 numeral_3_eq_3)
qed

lemma word_bytes_be: "1 \<le> k \<Longrightarrow> k \<le> 4 \<Longrightarrow> word_bytes w k = Some (be k w)"
proof -
  assume "1 \<le> k" "k \<le> 4"
  then have "k = 1 \<or> k = 2 \<or> k = 3 \<or> k = 4" by auto
  then show ?thesis by (elim disjE) (simp_all only: be_unfold, simp_all add: word_bytes_def)
qed

lemma be_pad: "w < 256 ^ k \<Longrightarrow> k \<le> m \<Longrightarrow> be m w = replicate (m - k) 0 @ be k w"
proof (induction m)
  case (Suc m)
  show ?case
  proof (cases "k = Suc m")
    case False
    then have k: "k \<le> m" using Suc.prems(2) by simp
    have "(256 :: nat) ^ k \<le> 256 ^ m" using k by (intro power_increasing) simp_all
    then have "w div 256 ^ m = 0" using Suc.prems(1) by (intro div_less) linarith
    then show ?thesis using Suc.IH[OF Suc.prems(1) k] k by (simp add: Suc_diff_le)
  qed simp
qed simp

text \<open>A masked byte and the bytes as they are written: masked, the very first one flipped.\<close>

definition cpl :: "bool \<Rightarrow> nat \<Rightarrow> nat" where
  "cpl neg b = (if neg then 255 - b else b)"

definition enc_bytes :: "bool \<Rightarrow> bool \<Rightarrow> nat list \<Rightarrow> nat list" where
  "enc_bytes neg f bs = (case map (cpl neg) bs of [] \<Rightarrow> [] | b # cs \<Rightarrow> (if f then b XOR 128 else b) # cs)"

lemma length_enc_bytes [simp]: "length (enc_bytes neg f bs) = length bs"
  by (cases bs) (auto simp: enc_bytes_def)

lemma enc_bytes_append:
  "enc_bytes neg f (xs @ ys) = enc_bytes neg f xs @ enc_bytes neg (f \<and> xs = []) ys"
  by (cases xs; cases ys) (auto simp: enc_bytes_def)

abbreviation mask32 :: "bool \<Rightarrow> nat" where
  "mask32 neg \<equiv> (if neg then 2 ^ 32 - 1 else 0)"

lemma be_complement: "k \<le> 4 \<Longrightarrow> w < 2 ^ 32 \<Longrightarrow> be k (2 ^ 32 - 1 - w) = map (\<lambda>b. 255 - b) (be k w)"
proof (induction k)
  case (Suc k)
  let ?M = "256 ^ k :: nat"
  have M: "?M * 256 dvd 2 ^ 32"
  proof -
    have "?M * 256 = 2 ^ (8 * Suc k)" unfolding power_mult by simp
    also have "\<dots> dvd (2 ^ 32 :: nat)" using Suc.prems(1) by (intro le_imp_power_dvd) simp
    finally show ?thesis .
  qed
  then obtain q where q: "(2 :: nat) ^ 32 = ?M * 256 * q" by (elim dvdE)
  define a r where "a = w div ?M" and "r = w mod ?M"
  have w: "w = ?M * a + r" "r < ?M" by (simp_all add: a_def r_def)
  have a: "a < 256 * q"
  proof -
    have "?M * a + r < ?M * (256 * q)" using Suc.prems(2) w(1) unfolding q by (simp add: mult.assoc)
    then have "?M * a < ?M * (256 * q)" by (rule add_lessD1)
    then show ?thesis by simp
  qed
  have "2 ^ 32 - 1 - w = ?M * (256 * q - 1 - a) + (?M - 1 - r)"
  proof -
    have "256 * q = Suc (256 * q - 1 - a) + a" using a by simp
    then have "?M * (256 * q) = ?M * (256 * q - 1 - a) + ?M + ?M * a" by (metis add.commute add_mult_distrib2 mult_Suc_right)
    then show ?thesis using w unfolding q by (simp add: mult.assoc)
  qed
  moreover have "?M - 1 - r < ?M" by simp
  ultimately have "(2 ^ 32 - 1 - w) div ?M = 256 * q - 1 - a" by simp
  moreover have "(256 * q - 1 - a) mod 256 = 255 - a mod 256"
  proof -
    obtain m where m: "a = 256 * m + a mod 256" "m < q" using a
      by (metis div_mult_mod_eq less_mult_imp_div_less mult.commute)
    have "256 * q - 1 - a = 256 * (q - 1 - m) + (255 - a mod 256)"
    proof -
      have "256 * q = 256 * Suc (q - 1 - m) + 256 * m" using m(2) by (simp flip: distrib_left)
      then show ?thesis using m(1) mod_less_divisor[of 256 a] unfolding mult_Suc_right by simp
    qed
    moreover have "(256 * k + r) mod 256 = r" if "r < 256" for k r :: nat using that by simp
    moreover have "255 - a mod 256 < 256" by simp
    ultimately show ?thesis by presburger
  qed
  ultimately show ?case using Suc by (simp add: a_def)
qed simp

lemma write_word_enc:
  assumes "w < 2 ^ 32" "1 \<le> k" "k \<le> 4"
  shows "write_word (w XOR mask32 neg) k (out, n) = Some (out @ enc_bytes neg (n = 0) (be k w), n + k)"
proof -
  have "be k (w XOR mask32 neg) = map (cpl neg) (be k w)"
    using be_complement[OF assms(3,1)] xor_mask[OF assms(1)] by (cases neg) (simp_all add: cpl_def[abs_def])
  moreover obtain b bs where "be k w = b # bs" using assms(2) by (cases k) auto
  ultimately show ?thesis
    unfolding write_word_def using word_bytes_be[OF assms(2,3)] by (simp add: enc_bytes_def)
qed

lemma write_fill_enc:
  "write_fill m (mask32 neg) (out, n) = (out @ enc_bytes neg (n = 0) (replicate m 0), n + m)"
proof (induction m arbitrary: out n)
  case (Suc m)
  have "mask32 neg mod 256 = cpl neg 0" by (simp add: cpl_def)
  then have "write_u8 (mask32 neg mod 256) (out, n) = (out @ enc_bytes neg (n = 0) [0], Suc n)"
    by (simp add: write_u8_def enc_bytes_def)
  then show ?case using Suc[of "out @ enc_bytes neg (n = 0) [0]" "Suc n"] enc_bytes_append[of neg "n = 0" "[0]" "replicate m 0"]
    by (simp only: write_fill.simps) simp
qed (simp add: enc_bytes_def)

lemma write_words_enc:
  "below (2 ^ 32) buf \<Longrightarrow> i + m \<le> length buf \<Longrightarrow>
   write_words buf (mask32 neg) i m (out, n) =
     Some (out @ enc_bytes neg (n = 0) (concat (map (be 4) (seg buf i m))), n + 4 * m)"
proof (induction m arbitrary: i out n)
  case 0
  then show ?case by (simp add: enc_bytes_def)
next
  case (Suc m)
  have i: "i < length buf" "i + 1 + m \<le> length buf" using Suc.prems(2) by auto
  have sg: "seg buf i (Suc m) = buf ! i # seg buf (Suc i) m"
    using i(1) by (simp add: Cons_nth_drop_Suc[symmetric])
  have w: "write_word (buf ! i XOR mask32 neg) 4 (out, n) = Some (out @ enc_bytes neg (n = 0) (be 4 (buf ! i)), n + 4)"
    using below_nth[OF Suc.prems(1) i(1)] by (intro write_word_enc) simp_all
  have ne: "be 4 (buf ! i) \<noteq> []" by (metis length_be length_0_conv zero_neq_numeral)
  show ?case using Suc.IH[OF Suc.prems(1), of "Suc i"] i w sg ne
    by (simp add: get_at_def enc_bytes_append algebra_simps del: take_drop)
qed

section \<open>Digit groups\<close>

abbreviation dig2b :: "nat \<Rightarrow> nat" where
  "dig2b n \<equiv> DIG_2_BYTES ! n"

lemma le_9_cases: "(n :: nat) \<le> 9 \<Longrightarrow> n = 0 \<or> n = 1 \<or> n = 2 \<or> n = 3 \<or> n = 4 \<or> n = 5 \<or> n = 6 \<or> n = 7 \<or> n = 8 \<or> n = 9"
  by auto

lemma dig2b_le: "n \<le> 9 \<Longrightarrow> dig2b n \<le> 4"
  using le_9_cases[of n] by (auto simp: DIG_2_BYTES_def)

lemma dig2b_pos: "0 < n \<Longrightarrow> n \<le> 9 \<Longrightarrow> 1 \<le> dig2b n"
  using le_9_cases[of n] by (auto simp: DIG_2_BYTES_def)

lemma dig2b_pow: "n \<le> 9 \<Longrightarrow> (10 :: nat) ^ n \<le> 256 ^ dig2b n"
  using le_9_cases[of n] by (auto simp: DIG_2_BYTES_def)

lemma dig2b_half: "0 < n \<Longrightarrow> n \<le> 9 \<Longrightarrow> 2 * 10 ^ n \<le> (256 :: nat) ^ dig2b n"
  using le_9_cases[of n] by (auto simp: DIG_2_BYTES_def)

lemma dig2b_Suc: "n < 9 \<Longrightarrow> dig2b n \<le> dig2b (Suc n)"
  using le_9_cases[of n] by (auto simp: DIG_2_BYTES_def)

lemma dig2b_mono: "m \<le> n \<Longrightarrow> n \<le> 9 \<Longrightarrow> dig2b m \<le> dig2b n"
proof (induction n)
  case (Suc n)
  then show ?case using dig2b_Suc[of n] by (cases "m = Suc n") auto
qed simp

lemma dig2b_ends [simp]: "dig2b 0 = 0" "dig2b 9 = 4"
  by (simp_all add: DIG_2_BYTES_def)

lemma digits_size_eq: "digits_size n = n div 9 * 4 + dig2b (n mod 9)"
  by (simp add: digits_size_def minus_div_mult_eq_mod)

text \<open>The bytes of the number \<open>N\<close> written in groups of \<open>ns\<close> digits.\<close>

fun enc_digits :: "nat list \<Rightarrow> nat \<Rightarrow> nat list" where
  "enc_digits [] N = []"
| "enc_digits (n # ns) N = be (dig2b n) (N div 10 ^ sum_list ns mod 10 ^ n) @ enc_digits ns N"

definition lead_groups :: "nat \<Rightarrow> nat list" where
  "lead_groups ic = (if ic mod 9 = 0 then [] else [ic mod 9]) @ replicate (ic div 9) 9"

definition trail_groups :: "nat \<Rightarrow> nat list" where
  "trail_groups fc = replicate (fc div 9) 9 @ (if fc mod 9 = 0 then [] else [fc mod 9])"

lemma sum_groups [simp]: "sum_list (lead_groups n) = n" "sum_list (trail_groups n) = n"
  by (auto simp: lead_groups_def trail_groups_def sum_list_replicate)

lemma div_mod_pow: "(A * 10 ^ (a + b) + F) div 10 ^ b mod 10 ^ a = F div 10 ^ b mod (10 ^ a :: nat)"
proof -
  have "A * 10 ^ (a + b) + F = F + 10 ^ b * (A * 10 ^ a)" by (simp add: power_add)
  then have "(A * 10 ^ (a + b) + F) div 10 ^ b = (F + 10 ^ b * (A * 10 ^ a)) div 10 ^ b" by (rule arg_cong)
  also have "\<dots> = F div 10 ^ b + A * 10 ^ a" by (simp add: add.commute)
  finally have "(A * 10 ^ (a + b) + F) div 10 ^ b = F div 10 ^ b + A * 10 ^ a" .
  then show ?thesis by simp
qed

lemma enc_digits_high: "enc_digits ns (A * 10 ^ (k + sum_list ns) + F) = enc_digits ns F"
proof (induction ns arbitrary: k)
  case (Cons n ns)
  have e: "k + sum_list (n # ns) = n + sum_list ns + k" "k + sum_list (n # ns) = (k + n) + sum_list ns" by simp_all
  have "(A * 10 ^ (k + sum_list (n # ns)) + F) div 10 ^ sum_list ns mod 10 ^ n = F div 10 ^ sum_list ns mod 10 ^ n"
    unfolding e(1) power_add using div_mod_pow[of "A * 10 ^ k" n "sum_list ns" F] by (simp add: power_add algebra_simps)
  then show ?case using Cons[of "k + n"] unfolding e(2) by simp
qed simp

lemma enc_digits_append:
  assumes "F < 10 ^ sum_list ms"
  shows "enc_digits (ns @ ms) (A * 10 ^ sum_list ms + F) = enc_digits ns A @ enc_digits ms F"
proof (induction ns)
  case Nil
  show ?case using enc_digits_high[of ms A 0 F] by simp
next
  case (Cons n ns)
  have "(A * 10 ^ sum_list ms + F) div 10 ^ sum_list (ns @ ms) = A div 10 ^ sum_list ns"
    using assms by (simp add: power_add mult.commute[of "10 ^ sum_list ns"] div_mult2_eq)
  then show ?case using Cons by simp
qed

lemma length_enc_digits: "length (enc_digits ns N) = sum_list (map dig2b ns)"
  by (induction ns) auto

lemma groups_size: "sum_list (map dig2b (lead_groups n)) = digits_size n" "sum_list (map dig2b (trail_groups n)) = digits_size n"
  by (auto simp: lead_groups_def trail_groups_def digits_size_eq sum_list_replicate)

lemma enc_digits_words:
  "below WORD_BASE ws \<Longrightarrow> m = length ws \<Longrightarrow> enc_digits (replicate m 9) (bval WORD_BASE ws) = concat (map (be 4) ws)"
proof (induction ws arbitrary: m)
  case (Cons w ws)
  have s: "sum_list (replicate (length ws) 9) = 9 * length ws" by (simp add: sum_list_replicate)
  have lt: "bval WORD_BASE ws < 10 ^ (9 * length ws)" using Cons.prems(1) bval_less[of WORD_BASE ws] by (simp add: WORD_BASE_power)
  have v: "bval WORD_BASE (w # ws) = w * 10 ^ (9 * length ws) + bval WORD_BASE ws" by (simp add: WORD_BASE_power)
  have "w < 10 ^ 9" using Cons.prems(1) by (simp add: WORD_BASE_pow)
  then have "bval WORD_BASE (w # ws) div 10 ^ (9 * length ws) mod 10 ^ 9 = w" unfolding v using lt by simp
  moreover have "enc_digits (replicate (length ws) 9) (bval WORD_BASE (w # ws)) = enc_digits (replicate (length ws) 9) (bval WORD_BASE ws)"
    unfolding v using enc_digits_high[of "replicate (length ws) 9" w 0 "bval WORD_BASE ws"] s by simp
  ultimately show ?case using Cons s by (simp del: bval.simps)
qed simp

lemma lead_groups_Suc:
  "lead_groups (Suc c) = Suc (c mod 9) # replicate (c div 9) 9" "digits_size (Suc c) = c div 9 * 4 + dig2b (Suc (c mod 9))"
  by (auto simp: lead_groups_def digits_size_eq div_Suc mod_Suc)

lemma lead_pad_step:
  assumes "A < 10 ^ c"
  shows "enc_digits (lead_groups (Suc c)) A = replicate (digits_size (Suc c) - digits_size c) 0 @ enc_digits (lead_groups c) A"
    "digits_size c \<le> digits_size (Suc c)"
proof -
  let ?n = "c mod 9" and ?k = "c div 9"
  have n: "?n < 9" by simp
  define w where "w = A div 10 ^ (9 * ?k)"
  have "A < 10 ^ ?n * 10 ^ (9 * ?k)" using assms unfolding power_add[symmetric] by simp
  then have w: "w < 10 ^ ?n" unfolding w_def by (rule less_mult_imp_div_less)
  have w': "w < 10 ^ Suc ?n" using w by simp
  have p: "be (dig2b (Suc ?n)) w = replicate (dig2b (Suc ?n) - dig2b ?n) 0 @ be (dig2b ?n) w"
    using dig2b_pow[of ?n] w n dig2b_Suc[OF n] by (intro be_pad) linarith+
  show "digits_size c \<le> digits_size (Suc c)" unfolding lead_groups_Suc(2) using dig2b_Suc[OF n] by (simp add: digits_size_eq)
  have d: "digits_size (Suc c) - digits_size c = dig2b (Suc ?n) - dig2b ?n" unfolding lead_groups_Suc(2) by (simp add: digits_size_eq)
  have s: "sum_list (replicate ?k 9) = 9 * ?k" by (simp add: sum_list_replicate)
  have "enc_digits (lead_groups c) A = be (dig2b ?n) w @ enc_digits (replicate ?k 9) A"
    using w by (auto simp: lead_groups_def s w_def)
  moreover have "enc_digits (lead_groups (Suc c)) A = be (dig2b (Suc ?n)) w @ enc_digits (replicate ?k 9) A"
    unfolding lead_groups_Suc enc_digits.simps s w_def[symmetric] using w' by simp
  ultimately show "enc_digits (lead_groups (Suc c)) A = replicate (digits_size (Suc c) - digits_size c) 0 @ enc_digits (lead_groups c) A"
    unfolding d p by simp
qed

lemma lead_pad:
  "A < 10 ^ c \<Longrightarrow> c \<le> ic \<Longrightarrow> digits_size c \<le> digits_size ic \<and>
   enc_digits (lead_groups ic) A = replicate (digits_size ic - digits_size c) 0 @ enc_digits (lead_groups c) A"
proof (induction ic)
  case (Suc ic)
  show ?case
  proof (cases "c = Suc ic")
    case False
    then have c: "c \<le> ic" using Suc.prems(2) by simp
    have "(10 :: nat) ^ c \<le> 10 ^ ic" using c by (intro power_increasing) simp_all
    then have "A < 10 ^ ic" using Suc.prems(1) by linarith
    note st = lead_pad_step[OF this]
    have "replicate (digits_size (Suc ic) - digits_size ic) 0 @ replicate (digits_size ic - digits_size c) 0 =
        replicate (digits_size (Suc ic) - digits_size c) (0 :: nat)"
      using st(2) Suc.IH[OF Suc.prems(1) c] by (simp flip: replicate_add)
    then show ?thesis using Suc.IH[OF Suc.prems(1) c] st by simp
  qed simp
qed simp

lemma word_cnt_div: "n \<le> 81 \<Longrightarrow> word_cnt n = n div 9 + (if n mod 9 = 0 then 0 else 1)"
  by (cases n) (auto simp: word_cnt_Suc div_Suc)

lemma lead_words:
  assumes "below WORD_BASE ws" "length ws = word_cnt c" "c \<le> 81"
  shows "enc_digits (lead_groups c) (bval WORD_BASE ws) =
    (if c mod 9 = 0 then concat (map (be 4) ws) else be (dig2b (c mod 9)) (ws ! 0 mod 10 ^ (c mod 9)) @ concat (map (be 4) (drop 1 ws)))"
proof (cases "c mod 9 = 0")
  case True
  then have "word_cnt c = c div 9" using assms(3) by (simp add: word_cnt_div)
  then show ?thesis using True assms enc_digits_words[of ws] by (simp add: lead_groups_def)
next
  case False
  have "word_cnt c = Suc (c div 9)" using assms(3) False by (simp add: word_cnt_div)
  then obtain w xs where ws: "ws = w # xs" "length xs = c div 9" using assms(2) by (cases ws) auto
  have s: "sum_list (replicate (c div 9) 9) = 9 * length xs" using ws(2) by (simp add: sum_list_replicate)
  have v: "bval WORD_BASE ws = w * 10 ^ (9 * length xs) + bval WORD_BASE xs" by (simp add: WORD_BASE_power ws)
  have "bval WORD_BASE xs < 10 ^ (9 * length xs)" using assms(1) ws(1) bval_less[of WORD_BASE xs] by (simp add: WORD_BASE_power)
  then have "bval WORD_BASE ws div 10 ^ (9 * length xs) = w" unfolding v by simp
  moreover have "enc_digits (replicate (c div 9) 9) (bval WORD_BASE ws) = concat (map (be 4) xs)"
    unfolding v using enc_digits_high[of "replicate (c div 9) 9" w 0 "bval WORD_BASE xs"] s enc_digits_words[of xs "c div 9"] assms(1) ws by simp
  ultimately show ?thesis using False ws(1) s by (simp add: lead_groups_def)
qed

lemma trail_words:
  assumes "below WORD_BASE ws" "length ws = word_cnt fr" "fr \<le> 81"
  shows "enc_digits (trail_groups fr) (bval WORD_BASE ws div 10 ^ (9 * word_cnt fr - fr)) =
    concat (map (be 4) (take (fr div 9) ws)) @ (if fr mod 9 = 0 then [] else be (dig2b (fr mod 9)) (ws ! (fr div 9) div 10 ^ (9 - fr mod 9)))"
proof (cases "fr mod 9 = 0")
  case True
  then have "word_cnt fr = fr div 9" "9 * (fr div 9) = fr" using assms(3) by (auto simp: word_cnt_div)
  then show ?thesis using True assms enc_digits_words[of ws] by (simp add: trail_groups_def)
next
  case False
  define k t where "k = fr div 9" and "t = fr mod 9"
  have fr: "fr = 9 * k + t" and t: "0 < t" "t < 9" using False by (simp_all add: k_def t_def)
  have wc: "word_cnt fr = Suc k" using assms(3) False by (simp add: word_cnt_div k_def)
  obtain xs w where ws: "ws = xs @ [w]" "length xs = k" using assms(2) unfolding wc
    by (metis append_butlast_last_id length_butlast diff_Suc_1 list.size(3) nat.distinct(1))
  have b: "below WORD_BASE xs" "w < 10 ^ 9" using assms(1) ws(1) by (simp_all add: WORD_BASE_pow)
  have e: "9 * word_cnt fr - fr = 9 - t" unfolding wc using fr t by simp
  have p: "(10 :: nat) ^ 9 = 10 ^ t * 10 ^ (9 - t)" unfolding power_add[symmetric] using t by simp
  have "bval WORD_BASE ws = bval WORD_BASE xs * 10 ^ t * 10 ^ (9 - t) + w"
    unfolding ws(1) bval_append mult.assoc p[symmetric] by (simp add: WORD_BASE_pow)
  then have v: "bval WORD_BASE ws div 10 ^ (9 - t) = bval WORD_BASE xs * 10 ^ t + w div 10 ^ (9 - t)" by simp
  have lt: "w div 10 ^ (9 - t) < 10 ^ t" using b(2) unfolding p by (rule less_mult_imp_div_less)
  have "enc_digits (replicate k 9 @ [t]) (bval WORD_BASE xs * 10 ^ sum_list [t] + w div 10 ^ (9 - t)) =
      concat (map (be 4) xs) @ be (dig2b t) (w div 10 ^ (9 - t))"
    using enc_digits_append[of "w div 10 ^ (9 - t)" "[t]" "replicate k 9" "bval WORD_BASE xs"] lt enc_digits_words[OF b(1), of k] ws(2) by simp
  then show ?thesis unfolding e v using False ws by (simp add: trail_groups_def k_def[symmetric] t_def[symmetric] nth_append)
qed

lemma grow_trailing_ok:
  "s \<le> lmt \<Longrightarrow> lmt \<le> 9 \<Longrightarrow> dig2b lmt = i \<Longrightarrow> dig2b s = i \<Longrightarrow> grow_trailing i lmt s = Some lmt"
proof (induction i lmt s rule: grow_trailing.induct)
  case (1 i lmt s)
  show ?case
  proof (cases "s < lmt")
    case True
    have "s < length DIG_2_BYTES" using True "1.prems"(2) by (simp add: DIG_2_BYTES_def)
    then have g: "get_at DIG_2_BYTES s = Some i" using "1.prems"(4) by (simp add: get_at_def)
    have "dig2b (Suc s) = i"
      using dig2b_mono[of "Suc s" lmt] dig2b_mono[of s "Suc s"] "1.prems" True by auto
    then have "grow_trailing i lmt (s + 1) = Some lmt" using "1.IH"[OF True g refl] "1.prems" True by simp
    then show ?thesis using True g by (subst grow_trailing.simps) simp
  next
    case False
    then show ?thesis using "1.prems"(1) by (subst grow_trailing.simps) simp
  qed
qed

lemma be_zero [simp]: "be k 0 = replicate k 0"
  by (induction k) auto

lemma concat_zeros [simp]: "concat (replicate m (replicate k (0 :: nat))) = replicate (k * m) 0"
  by (induction m) (simp_all add: replicate_add)

lemma below_u32: "below WORD_BASE buf \<Longrightarrow> below (2 ^ 32) buf"
  unfolding below_def using WORD_BASE_u32(1) by force

lemma write_trailing_enc:
  assumes "below WORD_BASE buf" "i < length buf" "0 < s" "s \<le> lmt" "lmt \<le> 9" "dig2b lmt = dig2b s"
  shows "write_trailing buf (mask32 neg) i s lmt (out, n) =
    Some (out @ enc_bytes neg (n = 0) (be (dig2b lmt) (buf ! i div 10 ^ (9 - lmt))), n + dig2b lmt)"
proof -
  have "s < length DIG_2_BYTES" using assms by (simp add: DIG_2_BYTES_def)
  then have "get_at DIG_2_BYTES s = Some (dig2b lmt)" using assms(6) by (simp add: get_at_def)
  moreover have "grow_trailing (dig2b lmt) lmt s = Some lmt" by (rule grow_trailing_ok[OF assms(4,5) refl assms(6)[symmetric]])
  moreover have "buf ! i < 2 ^ 32" using below_nth[OF below_u32[OF assms(1)] assms(2)] .
  then have "buf ! i div 10 ^ (9 - lmt) < 2 ^ 32" by (rule le_less_trans[OF div_le_dividend])
  then have "write_word (buf ! i div 10 ^ (9 - lmt) XOR mask32 neg) (dig2b lmt) (out, n) =
      Some (out @ enc_bytes neg (n = 0) (be (dig2b lmt) (buf ! i div 10 ^ (9 - lmt))), n + dig2b lmt)"
    using dig2b_pos[of lmt] dig2b_le[of lmt] assms(3-5) by (intro write_word_enc) simp_all
  ultimately show ?thesis using assms(2,3,5) by (simp add: write_trailing_def get_at_def usub_def)
qed

text \<open>The fraction words of the source, filled up with zeros to the words of the target.\<close>

definition frac_fill :: "nat list \<Rightarrow> nat \<Rightarrow> nat \<Rightarrow> nat \<Rightarrow> nat list" where
  "frac_fill buf iw fc fr = take (word_cnt fr) (seg buf iw (word_cnt fc) @ replicate 9 0)"

definition frac_bytes :: "nat list \<Rightarrow> nat \<Rightarrow> nat list" where
  "frac_bytes ws fr = concat (map (be 4) (take (fr div 9) ws)) @
     (if fr mod 9 = 0 then [] else be (dig2b (fr mod 9)) (ws ! (fr div 9) div 10 ^ (9 - fr mod 9)))"

text \<open>What the encoder writes for the fraction: words, a trailing group and zero bytes.\<close>

definition frac_parts :: "nat list \<Rightarrow> nat \<Rightarrow> nat \<Rightarrow> nat \<Rightarrow> nat \<Rightarrow> nat \<Rightarrow> nat \<Rightarrow> nat list \<Rightarrow> bool" where
  "frac_parts buf iw fc fr sfw s fsz tail \<longleftrightarrow>
     (\<forall>neg out n. write_trailing buf (mask32 neg) (iw + sfw) s (if sfw < fr div 9 then 9 else fr mod 9) (out, n) =
        Some (out @ enc_bytes neg (n = 0) tail, n + length tail)) \<and> iw + sfw \<le> length buf \<and>
     frac_bytes (frac_fill buf iw fc fr) fr = concat (map (be 4) (seg buf iw sfw)) @ tail @
       replicate (if fsz > digits_size fc then min (fsz - digits_size fc) (fsz - (4 * sfw + length tail)) else 0) 0"

lemma no_trailing: "write_trailing buf m i 0 lmt (out, n) = Some (out @ enc_bytes neg (n = 0) [], n + length ([] :: nat list))"
  by (simp add: write_trailing_def enc_bytes_def)

lemma frac_parts_same:
  assumes "below WORD_BASE buf" "iw + word_cnt fc \<le> length buf" "fc \<le> fr" "fr \<le> 81" "fc div 9 = fr div 9" "0 < fc mod 9"
    "s = fc mod 9 \<and> dig2b (fc mod 9) = dig2b (fr mod 9) \<or> s = fr mod 9"
  shows "frac_parts buf iw fc fr (fr div 9) s (digits_size fc) (be (dig2b (fr mod 9)) (buf ! (iw + fr div 9) div 10 ^ (9 - fr mod 9)))"
proof -
  let ?k = "fr div 9" and ?t = "fr mod 9"
  have wc: "word_cnt fc = Suc ?k" using assms(3-6) by (simp add: word_cnt_div)
  have st: "fc mod 9 \<le> ?t" using assms(3,5) by (metis add_le_cancel_left mult_div_mod_eq)
  then have wr: "word_cnt fr = Suc ?k" using assms(4,6) by (simp add: word_cnt_div)
  have i: "iw + ?k < length buf" using assms(2) wc by simp
  have len: "length (seg buf iw (Suc ?k)) = Suc ?k" using assms(2) wc by simp
  have ff: "frac_fill buf iw fc fr = seg buf iw (Suc ?k)" using len unfolding frac_fill_def wc wr by simp
  have fb: "frac_bytes (frac_fill buf iw fc fr) fr =
      concat (map (be 4) (seg buf iw ?k)) @ be (dig2b ?t) (buf ! (iw + ?k) div 10 ^ (9 - ?t))"
    unfolding ff frac_bytes_def using st assms(6) i by (simp add: min_absorb1 take_take)
  have "0 < s" "s \<le> ?t" "dig2b ?t = dig2b s" using assms(6,7) st by auto
  then have "write_trailing buf (mask32 neg) (iw + ?k) s ?t (out, n) =
      Some (out @ enc_bytes neg (n = 0) (be (dig2b ?t) (buf ! (iw + ?k) div 10 ^ (9 - ?t))), n + dig2b ?t)" for neg out n
    using write_trailing_enc[OF assms(1) i, of s ?t] by (simp add: less_imp_le)
  then show ?thesis using i fb unfolding frac_parts_def by simp
qed

lemma frac_bytes_long:
  assumes "iw + word_cnt fc \<le> length buf" "word_cnt fc \<le> fr div 9" "fr \<le> 81"
  shows "frac_bytes (frac_fill buf iw fc fr) fr = concat (map (be 4) (seg buf iw (word_cnt fc))) @ replicate (digits_size fr - 4 * word_cnt fc) 0"
proof -
  let ?f = "word_cnt fc" and ?k = "fr div 9" and ?t = "fr mod 9"
  let ?s = "seg buf iw ?f"
  have len: "length ?s = ?f" using assms(1) by simp
  have k9: "?k \<le> 9" using assms(3) div_le_mono[of fr 81 9] by simp
  have wr: "?k \<le> word_cnt fr" "?t \<noteq> 0 \<Longrightarrow> ?k < word_cnt fr" using assms(3) by (simp_all add: word_cnt_div)
  have tk: "take ?k (frac_fill buf iw fc fr) = ?s @ replicate (?k - ?f) 0"
    unfolding frac_fill_def take_take using wr(1) len k9 assms(2) by (simp add: min_absorb1)
  have nt: "frac_fill buf iw fc fr ! ?k = 0" if "?t \<noteq> 0"
  proof -
    have "?k < 9" using k9 that assms(3) mult_div_mod_eq[of 9 fr] by linarith
    then have "(?s @ replicate 9 0) ! ?k = 0" using len assms(2) by (simp add: nth_append)
    then show ?thesis unfolding frac_fill_def nth_take[OF wr(2)[OF that]] .
  qed
  have "frac_bytes (frac_fill buf iw fc fr) fr = concat (map (be 4) ?s) @ replicate (4 * (?k - ?f)) 0 @ (if ?t = 0 then [] else replicate (dig2b ?t) 0)"
    unfolding frac_bytes_def tk using nt by simp
  also have "replicate (4 * (?k - ?f)) 0 @ (if ?t = 0 then [] else replicate (dig2b ?t) 0) = replicate (digits_size fr - 4 * ?f) (0 :: nat)"
    using assms(2) by (simp add: digits_size_eq algebra_simps flip: replicate_add)
  finally show ?thesis .
qed

lemma plan_frac_ok:
  assumes b: "below WORD_BASE buf" "iw + word_cnt fc \<le> length buf" "fc \<le> fr" "fr \<le> 81"
    and p: "plan_frac_part fr fc r = (sfw, s, fsz, r')"
  shows "r' = r \<and> (\<exists>tail. frac_parts buf iw fc fr sfw s fsz tail)"
proof -
  let ?k = "fr div 9" and ?t = "fr mod 9" and ?j = "fc div 9" and ?s = "fc mod 9"
  have m: "fr - ?k * 9 = ?t" "fc - ?j * 9 = ?s" by (simp_all add: minus_div_mult_eq_mod)
  have jk: "?j \<le> ?k" using b(3) by (rule div_le_mono)
  have st: "?s \<le> ?t" if "?j = ?k" using b(3) that by (metis add_le_cancel_left mult_div_mod_eq)
  have d9: "dig2b ?s \<le> 4" by (simp add: dig2b_le)
  have le: "digits_size fc \<le> digits_size fr"
    using jk st dig2b_mono[of ?s ?t] d9 unfolding digits_size_eq by (cases "?j = ?k") auto
  have pl: "plan_frac_part fr fc r =
     (if digits_size fr > digits_size fc \<and> ?s > 0
      then (if ?k = ?j then (?j, ?t, digits_size fc, r) else (?j + 1, 0, digits_size fr, r))
      else (?j, ?s, digits_size fr, r))"
    unfolding plan_frac_part_def Let_def DIGITS_PER_WORD_def m using le by simp
  consider (same) "?j = ?k" "0 < ?s" | (zero) "?s = 0" | (more) "?j < ?k" "0 < ?s" "digits_size fc < digits_size fr"
    | (full) "?j < ?k" "0 < ?s" "digits_size fc = digits_size fr" using jk le by force
  then show ?thesis
  proof cases
    case same
    have "?t = fr mod 9 \<and> sfw = ?k \<and> r' = r \<and> fsz = digits_size fc \<and> (s = ?s \<and> dig2b ?s = dig2b ?t \<or> s = ?t)"
      using p same le unfolding pl by (auto split: if_splits simp: digits_size_eq)
    then show ?thesis using frac_parts_same[OF b same, of s] by blast
  next
    case zero
    then have e: "sfw = ?j" "s = 0" "fsz = digits_size fr" "r' = r" using p unfolding pl by auto
    have wc: "word_cnt fc = ?j" using b(3,4) zero by (simp add: word_cnt_div)
    have sz: "digits_size fc = 4 * ?j" using zero by (simp add: digits_size_eq)
    have "frac_parts buf iw fc fr ?j 0 (digits_size fr) []"
      unfolding frac_parts_def using frac_bytes_long[of iw fc buf fr] wc b(2,4) jk sz no_trailing by auto
    then show ?thesis using e by blast
  next
    case more
    then have e: "sfw = Suc ?j" "s = 0" "fsz = digits_size fr" "r' = r" using p unfolding pl by auto
    have wc: "word_cnt fc = Suc ?j" using b(3,4) more by (simp add: word_cnt_div)
    have sz: "digits_size fc \<le> 4 * Suc ?j" using d9 by (simp add: digits_size_eq)
    have mn: "min (digits_size fr - digits_size fc) (digits_size fr - 4 * Suc ?j) = digits_size fr - 4 * Suc ?j"
      using sz by (intro min_absorb2 diff_le_mono2)
    have "frac_parts buf iw fc fr (Suc ?j) 0 (digits_size fr) []"
      unfolding frac_parts_def using frac_bytes_long[of iw fc buf fr] wc b(2,4) more sz mn no_trailing by auto
    then show ?thesis using e by blast
  next
    case full
    then have e: "sfw = ?j" "s = ?s" "fsz = digits_size fr" "r' = r" using p unfolding pl by auto
    have wc: "word_cnt fc = Suc ?j" using b(3,4) full by (simp add: word_cnt_div)
    have x: "?k * 4 + dig2b ?t = ?j * 4 + dig2b ?s" using full(3) by (simp add: digits_size_eq)
    have kj: "?k = Suc ?j" "dig2b ?s = 4" "dig2b ?t = 0" using x full(1) d9 by auto
    have t0: "?t = 0" using kj(3) dig2b_pos[of ?t] by (cases "?t = 0") auto
    have i: "iw + ?j < length buf" using b(2) wc by simp
    have "seg buf iw (Suc ?j) = seg buf iw ?j @ [buf ! (iw + ?j)]"
      using i by (simp add: take_Suc_conv_app_nth)
    then have fb: "frac_bytes (frac_fill buf iw fc fr) fr = concat (map (be 4) (seg buf iw ?j)) @ be 4 (buf ! (iw + ?j))"
      using frac_bytes_long[of iw fc buf fr] b(2,4) wc kj t0 by (simp add: digits_size_eq)
    have "write_trailing buf (mask32 neg) (iw + ?j) ?s 9 (out, n) =
      Some (out @ enc_bytes neg (n = 0) (be 4 (buf ! (iw + ?j))), n + 4)" for neg out n
      using write_trailing_enc[OF b(1) i, of ?s 9] full(2) kj(2) by (simp add: less_imp_le)
    then have "frac_parts buf iw fc fr ?j ?s (digits_size fr) (be 4 (buf ! (iw + ?j)))"
      unfolding frac_parts_def using fb full i by simp
    then show ?thesis using e by blast
  qed
qed

section \<open>The encoder, verified\<close>

text \<open>The number formed by all digits of a decimal at the scale \<open>fr\<close>.\<close>

definition scaled :: "decimal \<Rightarrow> nat \<Rightarrow> nat" where
  "scaled d fr = ipart d * 10 ^ fr +
     bval WORD_BASE (frac_fill (word_buf d) (int_words d) (frac_cnt d) fr) div 10 ^ (9 * word_cnt fr - fr)"

definition fits :: "decimal \<Rightarrow> nat \<Rightarrow> nat \<Rightarrow> bool" where
  "fits d prec fr \<longleftrightarrow> 0 < prec \<and> fr \<le> prec \<and> word_cnt (prec - fr) + word_cnt fr \<le> WORD_BUF_LEN \<and>
     frac_cnt d \<le> fr \<and> ipart d < 10 ^ (prec - fr)"

definition dec_bytes :: "decimal \<Rightarrow> nat \<Rightarrow> nat \<Rightarrow> nat list" where
  "dec_bytes d prec fr = enc_digits (lead_groups (prec - fr) @ trail_groups fr) (scaled d fr)"

lemma frac_fill_facts:
  assumes "dec_ok d" "fr \<le> 81"
  shows "below WORD_BASE (frac_fill (word_buf d) (int_words d) (frac_cnt d) fr)"
    "length (frac_fill (word_buf d) (int_words d) (frac_cnt d) fr) = word_cnt fr"
    "bval WORD_BASE (frac_fill (word_buf d) (int_words d) (frac_cnt d) fr) div 10 ^ (9 * word_cnt fr - fr) < 10 ^ fr"
proof -
  let ?f = "frac_fill (word_buf d) (int_words d) (frac_cnt d) fr"
  have w9: "word_cnt fr \<le> 9" using word_cnt_mono[OF assms(2)] by (simp add: word_cnt_def)
  show b: "below WORD_BASE ?f" unfolding frac_fill_def using dec_okD(2)[OF assms(1)] by (auto intro!: below_take below_drop)
  show l: "length ?f = word_cnt fr" unfolding frac_fill_def using w9 by simp
  have "bval WORD_BASE ?f < 10 ^ (9 * word_cnt fr)" using bval_less[OF b] by (simp add: l WORD_BASE_power)
  also have "9 * word_cnt fr = fr + (9 * word_cnt fr - fr)" using word_cnt_room[OF w9] by simp
  finally show "bval WORD_BASE ?f div 10 ^ (9 * word_cnt fr - fr) < 10 ^ fr"
    unfolding power_add by (rule less_mult_imp_div_less)
qed

lemma int_part_bytes:
  assumes ok: "dec_ok d" "lead_ok d" and rl: "remove_leading_zeroes d (int_cnt d) = Some (wi, c)" and c: "c \<le> ic"
  shows "enc_digits (lead_groups ic) (ipart d) = replicate (digits_size ic - digits_size c) 0 @
      (if c mod 9 = 0 then [] else be (dig2b (c mod 9)) (word_buf d ! wi mod 10 ^ (c mod 9))) @
      concat (map (be 4) (seg (word_buf d) (if c mod 9 = 0 then wi else Suc wi) (c div 9)))"
    "digits_size c \<le> digits_size ic"
    "(if c mod 9 = 0 then wi else Suc wi) + c div 9 = int_words d" "c mod 9 \<noteq> 0 \<Longrightarrow> wi < length (word_buf d)" "c \<le> 81"
proof -
  note d = dec_okD[OF ok(1)]
  have f: "c \<le> 9 * int_words d" "wi + word_cnt c = int_words d" "ipart d < 10 ^ c"
    using remove_leading_zeroes_ok[OF ok] unfolding rl by auto
  show c81: "c \<le> 81" using f(1) d(3) by simp
  have wc: "word_cnt c = c div 9 + (if c mod 9 = 0 then 0 else 1)" using c81 by (rule word_cnt_div)
  show "digits_size c \<le> digits_size ic" using lead_pad[OF f(3) c] by blast
  show iw: "(if c mod 9 = 0 then wi else Suc wi) + c div 9 = int_words d" using f(2) wc by auto
  show wl: "c mod 9 \<noteq> 0 \<Longrightarrow> wi < length (word_buf d)" using f(2) wc d(1,3) by auto
  let ?ws = "seg (word_buf d) wi (word_cnt c)"
  have len: "length ?ws = word_cnt c" using f(2) d(1,3) by simp
  have b: "below WORD_BASE ?ws" using d(2) by (auto intro!: below_take below_drop)
  have "take (int_words d) (word_buf d) = take wi (word_buf d) @ ?ws" unfolding f(2)[symmetric] by (simp add: take_add)
  then have "ipart d = bval WORD_BASE (take wi (word_buf d)) * WORD_BASE ^ word_cnt c + bval WORD_BASE ?ws"
    unfolding ipart_def using len by (simp add: bval_append)
  moreover have "ipart d < WORD_BASE ^ word_cnt c"
  proof -
    have "c \<le> 9 * word_cnt c" using word_cnt_room[of c] word_cnt_mono[OF c81] by (simp add: word_cnt_def[of 81])
    then have "(10 :: nat) ^ c \<le> 10 ^ (9 * word_cnt c)" by (intro power_increasing) simp_all
    then show ?thesis using f(3) unfolding WORD_BASE_power by linarith
  qed
  ultimately have ip: "ipart d = bval WORD_BASE ?ws" by (cases "bval WORD_BASE (take wi (word_buf d))") auto
  have lw: "enc_digits (lead_groups c) (ipart d) =
      (if c mod 9 = 0 then concat (map (be 4) ?ws) else be (dig2b (c mod 9)) (?ws ! 0 mod 10 ^ (c mod 9)) @ concat (map (be 4) (drop 1 ?ws)))"
    unfolding ip by (rule lead_words[OF b len c81])
  have "c mod 9 \<noteq> 0 \<Longrightarrow> ?ws ! 0 = word_buf d ! wi" using wl wc by simp
  moreover have "c mod 9 \<noteq> 0 \<Longrightarrow> drop 1 ?ws = seg (word_buf d) (Suc wi) (c div 9)" using wc by (simp add: drop_take)
  ultimately show "enc_digits (lead_groups ic) (ipart d) = replicate (digits_size ic - digits_size c) 0 @
      (if c mod 9 = 0 then [] else be (dig2b (c mod 9)) (word_buf d ! wi mod 10 ^ (c mod 9))) @
      concat (map (be 4) (seg (word_buf d) (if c mod 9 = 0 then wi else Suc wi) (c div 9)))"
    using lead_pad[OF f(3) c] lw wc by auto
qed

lemma write_leading_enc:
  assumes "below WORD_BASE buf" "t \<le> 9" "t \<noteq> 0 \<Longrightarrow> i < length buf"
  shows "write_leading buf (mask32 neg) i t (out, n) =
    Some (if t = 0 then i else Suc i, out @ enc_bytes neg (n = 0) (if t = 0 then [] else be (dig2b t) (buf ! i mod 10 ^ t)), n + dig2b t)"
proof (cases "t = 0")
  case True
  then show ?thesis by (simp add: write_leading_def enc_bytes_def)
next
  case False
  have "buf ! i < 2 ^ 32" using below_nth[OF below_u32[OF assms(1)] assms(3)[OF False]] .
  then have "buf ! i mod 10 ^ t < 2 ^ 32" by (rule le_less_trans[OF mod_less_eq_dividend])
  then have "write_word ((buf ! i mod 10 ^ t) XOR mask32 neg) (dig2b t) (out, n) =
      Some (out @ enc_bytes neg (n = 0) (be (dig2b t) (buf ! i mod 10 ^ t)), n + dig2b t)"
    using dig2b_pos[of t] dig2b_le[of t] assms(2) False by (intro write_word_enc) simp_all
  moreover have "t < length DIG_2_BYTES" using assms(2) by (simp add: DIG_2_BYTES_def)
  ultimately show ?thesis using False assms(2,3) by (simp add: write_leading_def get_at_def)
qed

lemma digits_size_zero: "digits_size n = 0 \<longleftrightarrow> n = 0"
proof
  assume "digits_size n = 0"
  then have "n div 9 = 0" and z: "dig2b (n mod 9) = 0" by (simp_all add: digits_size_eq)
  moreover have "n mod 9 = 0" using z dig2b_pos[of "n mod 9"] by (cases "n mod 9 = 0") auto
  ultimately show "n = 0" using mult_div_mod_eq[of 9 n] by simp
qed (simp add: digits_size_eq)

lemma enc_bytes_Nil [simp]: "enc_bytes neg f [] = []"
  by (simp add: enc_bytes_def)

lemma write_decimal_ok:
  assumes ok: "dec_ok d" "lead_ok d" "sign_ok d" and ft: "fits d prec fr"
  shows "write_decimal d prec fr = Some ([prec, fr] @ enc_bytes (negative d) True (dec_bytes d prec fr), Ok ())"
proof -
  note dk = dec_okD[OF ok(1)]
  let ?b = "word_buf d" and ?ic = "prec - fr" and ?neg = "negative d"
  have f: "fr \<le> prec" "word_cnt ?ic + word_cnt fr \<le> 9" "frac_cnt d \<le> fr" "ipart d < 10 ^ ?ic" using ft by (simp_all add: fits_def)
  have fr81: "fr \<le> 81" using f(2) by (intro word_cnt_less) simp
  obtain wi c where rl: "remove_leading_zeroes d (int_cnt d) = Some (wi, c)" "0 < c \<longrightarrow> 10 ^ (c - 1) \<le> ipart d" "ipart d < 10 ^ c"
    using remove_leading_zeroes_ok[OF ok(1,2)] by blast
  have c: "c \<le> ?ic"
  proof (cases "c = 0")
    case False
    then have "(10 :: nat) ^ (c - 1) < 10 ^ ?ic" using rl(2) f(4) by linarith
    then have "c - 1 < ?ic" by (simp add: power_strict_increasing_iff)
    then show ?thesis by simp
  qed simp
  note ip = int_part_bytes[OF ok(1,2) rl(1) c]
  let ?i = "if c mod 9 = 0 then wi else Suc wi"
  have fc81: "frac_cnt d \<le> 81" using f(3) fr81 by simp
  have "digits_size (frac_cnt d) \<le> 40"
    using div_le_mono[OF fc81, of 9] dig2b_le[of "frac_cnt d mod 9"] by (simp add: digits_size_eq)
  then have u: "uadd 8 c (digits_size (frac_cnt d)) = Some (c + digits_size (frac_cnt d))" using ip(5) by (simp add: uadd_def)
  have mk: "(if c + digits_size (frac_cnt d) = 0 then (0, 1) else (mask32 ?neg, ?ic)) = (mask32 ?neg, if c + digits_size (frac_cnt d) = 0 then 1 else ?ic)"
  proof (cases "c + digits_size (frac_cnt d) = 0")
    case True
    then have "ipart d = 0" "frac_words d = 0" using rl(3) by (simp_all add: digits_size_zero)
    then have "mag d = 0" by (simp add: mag_def used_def ipart_def)
    then show ?thesis using True ok(3) by (simp add: sign_ok_def)
  qed auto
  let ?r0 = "replicate (digits_size ?ic - digits_size c) (0 :: nat)" and ?r1 = "if c mod 9 = 0 then [] else be (dig2b (c mod 9)) (?b ! wi mod 10 ^ (c mod 9))"
  have wip: "write_int_part (if c + digits_size (frac_cnt d) = 0 then 1 else ?ic) ?ic wi c (mask32 ?neg) (digits_size ?ic) ([prec, fr], 0) =
      Some (wi, c div 9, c mod 9, Ok (), [prec, fr] @ enc_bytes ?neg True ?r0, length ?r0)"
  proof -
    have "\<not> (if c + digits_size (frac_cnt d) = 0 then 1 else ?ic) < c" using c by auto
    then show ?thesis using write_fill_enc[of "digits_size ?ic - digits_size c" ?neg "[prec, fr]" 0] ip(2)
      by (auto simp: write_int_part_def Let_def minus_div_mult_eq_mod)
  qed
  obtain sfw s fsz r' where pl: "plan_frac_part fr (frac_cnt d) (Ok ()) = (sfw, s, fsz, r')" by (metis prod_cases4)
  have iwl: "int_words d + frac_words d \<le> length ?b" using dk(1,3) by simp
  obtain tail where r': "r' = Ok ()" and fp: "frac_parts ?b (int_words d) (frac_cnt d) fr sfw s fsz tail"
    using plan_frac_ok[OF dk(2) iwl f(3) fr81 pl] by blast
  let ?n = "c div 9 + sfw"
  have wt: "write_trailing ?b (mask32 neg) (int_words d + sfw) s (if sfw < fr div 9 then 9 else fr mod 9) (out, n) =
        Some (out @ enc_bytes neg (n = 0) tail, n + length tail)" for neg out n using fp unfolding frac_parts_def by blast
  have in_: "?i + ?n = int_words d + sfw" using ip(3) by simp
  have ln: "?i + ?n \<le> length ?b" unfolding in_ using fp unfolding frac_parts_def by blast
  let ?w = "concat (map (be 4) (seg ?b ?i ?n))" and ?z = "if fsz > digits_size (frac_cnt d) then min (fsz - digits_size (frac_cnt d)) (fsz - (4 * sfw + length tail)) else 0"
  have wsplit: "seg ?b ?i ?n = seg ?b ?i (c div 9) @ seg ?b (int_words d) sfw"
    unfolding ip(3)[symmetric] take_add drop_drop by (simp add: add.commute)
  have body: "dec_bytes d prec fr = ?r0 @ ?r1 @ ?w @ tail @ replicate ?z 0"
  proof -
    have "dec_bytes d prec fr = enc_digits (lead_groups ?ic) (ipart d) @ frac_bytes (frac_fill ?b (int_words d) (frac_cnt d) fr) fr"
      unfolding dec_bytes_def scaled_def frac_bytes_def trail_words[OF frac_fill_facts(1,2)[OF ok(1) fr81] fr81, symmetric]
      using enc_digits_append[of _ "trail_groups fr"] frac_fill_facts(3)[OF ok(1) fr81] by simp
    then show ?thesis using fp unfolding ip(1) frac_parts_def wsplit by simp
  qed
  have lw: "length ?w = 4 * ?n" using ln by (simp add: length_concat o_def sum_list_triv)
  have l1: "length ?r1 = dig2b (c mod 9)" by simp
  have wr: "length ?r0 + dig2b (c mod 9) + 4 * ?n + length tail = digits_size ?ic + (4 * sfw + length tail)"
    using ip(2) by (simp add: digits_size_eq)
  have fsz0: "digits_size ?ic + fsz - (digits_size ?ic + (4 * sfw + length tail)) = fsz - (4 * sfw + length tail)" by simp
  have us: "usub prec fr = Some ?ic" using f(1) by (simp add: usub_def)
  let ?st = "\<lambda>R. ([prec, fr] @ enc_bytes ?neg True R, length R)"
  have app: "([prec, fr] @ enc_bytes ?neg True R) @ enc_bytes ?neg (length R = 0) bs = [prec, fr] @ enc_bytes ?neg True (R @ bs)" for R bs
    by (simp add: enc_bytes_append)
  have s1: "write_leading ?b (mask32 ?neg) wi (c mod 9) (?st ?r0) = Some (?i, ?st (?r0 @ ?r1))"
    using write_leading_enc[OF dk(2) less_imp_le[OF mod_less_divisor] ip(4), of c ?neg "[prec, fr] @ enc_bytes ?neg True ?r0" "length ?r0"]
    using l1 by (simp add: enc_bytes_append)
  have s2: "write_words ?b (mask32 ?neg) ?i ?n (?st (?r0 @ ?r1)) = Some (?st ((?r0 @ ?r1) @ ?w))"
    using write_words_enc[OF below_u32[OF dk(2)] ln, of ?neg "[prec, fr] @ enc_bytes ?neg True (?r0 @ ?r1)" "length (?r0 @ ?r1)"]
    unfolding app using lw by simp
  let ?R3 = "((?r0 @ ?r1) @ ?w) @ tail"
  have s3: "write_trailing ?b (mask32 ?neg) (?i + ?n) s (if sfw < fr div 9 then 9 else fr mod 9) (?st ((?r0 @ ?r1) @ ?w)) = Some (?st ?R3)"
    unfolding in_ using wt[of ?neg "[prec, fr] @ enc_bytes ?neg True ((?r0 @ ?r1) @ ?w)" "length ((?r0 @ ?r1) @ ?w)"] unfolding app by simp
  have n3: "length ?R3 = digits_size ?ic + (4 * sfw + length tail)" using wr l1 lw by simp
  have fill: "write_fill z (mask32 ?neg) (?st R) = ?st (R @ replicate z 0)" for z R
    unfolding write_fill_enc by (simp add: enc_bytes_append)
  have s4: "fst (if digits_size (frac_cnt d) < fsz
        then write_fill (min (fsz - digits_size (frac_cnt d)) (digits_size ?ic + fsz - length ?R3)) (mask32 ?neg) (?st ?R3)
        else ?st ?R3) = [prec, fr] @ enc_bytes ?neg True (dec_bytes d prec fr)"
    unfolding fill unfolding n3 fsz0 body by (cases "digits_size (frac_cnt d) < fsz") simp_all
  show ?thesis
    unfolding write_decimal_def Let_def us rl(1) DIGITS_PER_WORD_def minus_div_mult_eq_mod
    by (simp only: bind.bind_lunit case_prod_conv u mk wip pl r' s1 s2 s3 s4)
qed

lemma frac_dvd:
  assumes "dec_ok d" "trail_ok d"
  shows "10 ^ (9 * frac_words d - frac_cnt d) dvd bval WORD_BASE (seg (word_buf d) (int_words d) (frac_words d))"
    "bval WORD_BASE (used d) = ipart d * 10 ^ (9 * frac_words d) + bval WORD_BASE (seg (word_buf d) (int_words d) (frac_words d))"
proof -
  let ?t = "seg (word_buf d) (int_words d) (frac_words d)" and ?k = "9 * frac_words d - frac_cnt d"
  have lt: "length ?t = frac_words d" using dec_okD[OF assms(1)] by simp
  have us: "used d = take (int_words d) (word_buf d) @ ?t" by (simp add: used_def take_add)
  show bu: "bval WORD_BASE (used d) = ipart d * 10 ^ (9 * frac_words d) + bval WORD_BASE ?t"
    unfolding us bval_append lt by (simp add: ipart_def WORD_BASE_power)
  have "10 ^ ?k dvd ipart d * 10 ^ (9 * frac_words d)" by (intro dvd_mult le_imp_power_dvd) simp
  then show "10 ^ ?k dvd bval WORD_BASE ?t" using assms(2) unfolding trail_ok_def bu by (simp add: dvd_add_right_iff)
qed

lemma scaled_value:
  assumes ok: "dec_ok d" "trail_ok d" and fr: "frac_cnt d \<le> fr" "fr \<le> 81"
  shows "mag d = of_nat (scaled d fr) / 10 ^ fr"
proof -
  note dk = dec_okD[OF ok(1)]
  let ?fw = "frac_words d" and ?fc = "frac_cnt d" and ?m = "word_cnt fr"
  let ?t = "seg (word_buf d) (int_words d) ?fw"
  have lt: "length ?t = ?fw" using dk(1,3) by simp
  have fm: "?fw \<le> ?m" using word_cnt_mono[OF fr(1)] .
  have m9: "?m \<le> 9" using word_cnt_mono[OF fr(2)] by (simp add: word_cnt_def)
  have e1: "?fc + (9 * ?fw - ?fc) = 9 * ?fw" using word_cnt_room[of ?fc] fm m9 by simp
  have e2: "fr + (9 * ?m - fr) = 9 * ?m" using word_cnt_room[OF m9] by simp
  obtain g where g: "bval WORD_BASE ?t = g * 10 ^ (9 * ?fw - ?fc)" using frac_dvd(1)[OF ok] by (metis dvdE mult.commute)
  have "frac_fill (word_buf d) (int_words d) ?fc fr = ?t @ replicate (?m - ?fw) 0"
    unfolding frac_fill_def using lt fm m9 by simp
  then have "bval WORD_BASE (frac_fill (word_buf d) (int_words d) ?fc fr) = g * 10 ^ (9 * ?fw - ?fc) * 10 ^ (9 * (?m - ?fw))"
    by (simp add: bval_append g WORD_BASE_power)
  also have "\<dots> = g * 10 ^ (fr - ?fc) * 10 ^ (9 * ?m - fr)"
  proof -
    have "9 * ?fw - ?fc + 9 * (?m - ?fw) = fr - ?fc + (9 * ?m - fr)" using e1 e2 fr(1) fm by simp
    then show ?thesis unfolding mult.assoc power_add[symmetric] by simp
  qed
  finally have sc: "scaled d fr = ipart d * 10 ^ fr + g * 10 ^ (fr - ?fc)" unfolding scaled_def by simp
  have B: "(of_nat WORD_BASE :: rat) ^ ?fw = 10 ^ ?fc * 10 ^ (9 * ?fw - ?fc)"
    unfolding power_add[symmetric] e1 by (simp add: WORD_BASE_def power_mult)
  have N: "bval WORD_BASE (used d) = (ipart d * 10 ^ ?fc + g) * 10 ^ (9 * ?fw - ?fc)"
    unfolding frac_dvd(2)[OF ok] g add_mult_distrib mult.assoc power_add[symmetric] e1 ..
  have "mag d = of_nat (ipart d * 10 ^ ?fc + g) / 10 ^ ?fc" unfolding mag_def B N by simp
  moreover have "scaled d fr = (ipart d * 10 ^ ?fc + g) * 10 ^ (fr - ?fc)"
    unfolding sc add_mult_distrib mult.assoc power_add[symmetric] using fr(1) by simp
  moreover have "(10 :: rat) ^ fr = 10 ^ ?fc * 10 ^ (fr - ?fc)" unfolding power_add[symmetric] using fr(1) by simp
  ultimately show ?thesis by simp
qed

section \<open>The order of the encodings\<close>

text \<open>The comparison of byte strings, as \<open>memcmp\<close> and the order of the storage engine define it.\<close>

fun byte_cmp :: "nat list \<Rightarrow> nat list \<Rightarrow> partitioning" where
  "byte_cmp [] [] = Equal"
| "byte_cmp [] (y # ys) = Less"
| "byte_cmp (x # xs) [] = Greater"
| "byte_cmp (x # xs) (y # ys) = (if x < y then Less else if y < x then Greater else byte_cmp xs ys)"

lemma digit_less: "(x :: nat) < y \<Longrightarrow> v < B \<Longrightarrow> x * B + v < y * B + w"
proof -
  assume "x < y" "v < B"
  then have "x * B + v < Suc x * B" by simp
  also have "\<dots> \<le> y * B" using \<open>x < y\<close> by (intro mult_le_mono1) simp
  finally show ?thesis by simp
qed

lemma byte_cmp_bval:
  "length xs = length ys \<Longrightarrow> below 256 xs \<Longrightarrow> below 256 ys \<Longrightarrow> byte_cmp xs ys = cmp_val (bval 256 xs) (bval 256 ys)"
proof (induction xs ys rule: byte_cmp.induct)
  case (4 x xs y ys)
  have l: "length xs = length ys" "below 256 xs" "below 256 ys" using "4.prems" by simp_all
  have lt: "bval 256 xs < 256 ^ length ys" "bval 256 ys < 256 ^ length ys" using bval_less l by metis+
  consider "x < y" | "y < x" | "x = y" by linarith
  then show ?case
  proof cases
    case 1
    then show ?thesis using digit_less[OF 1 lt(1), of "bval 256 ys"] l(1) by (simp add: cmp_val_def)
  next
    case 2
    then show ?thesis using digit_less[OF 2 lt(2), of "bval 256 xs"] l(1) by (simp add: cmp_val_def)
  next
    case 3
    then show ?thesis using 4 l by (simp add: cmp_val_def)
  qed
qed (simp_all add: cmp_val_def)

lemma enc_digits_below: "below 256 (enc_digits ns N)"
  by (induction ns) (simp_all add: be_below)

lemma enc_digits_Cons:
  assumes "n \<le> 9" "N < 10 ^ sum_list (n # ns)"
  defines "q \<equiv> N div 10 ^ sum_list ns" and "r \<equiv> N mod 10 ^ sum_list ns"
  shows "bval 256 (enc_digits (n # ns) N) = q * 256 ^ length (enc_digits ns r) + bval 256 (enc_digits ns r)"
    "q < 10 ^ n" "N = q * 10 ^ sum_list ns + r" "r < 10 ^ sum_list ns" "bval 256 (enc_digits ns r) < 256 ^ length (enc_digits ns r)"
proof -
  show q: "q < 10 ^ n" unfolding q_def using assms(2) by (intro less_mult_imp_div_less) (simp add: power_add)
  show "N = q * 10 ^ sum_list ns + r" unfolding q_def r_def by (rule div_mult_mod_eq[symmetric])
  show "r < 10 ^ sum_list ns" unfolding r_def by simp
  show "bval 256 (enc_digits ns r) < 256 ^ length (enc_digits ns r)" by (rule bval_less[OF enc_digits_below])
  have "enc_digits ns N = enc_digits ns r"
    using enc_digits_high[of ns q 0 r] unfolding q_def r_def add_0 div_mult_mod_eq .
  moreover have "q mod 256 ^ dig2b n = q" using dig2b_pow[OF assms(1)] q by simp
  ultimately show "bval 256 (enc_digits (n # ns) N) = q * 256 ^ length (enc_digits ns r) + bval 256 (enc_digits ns r)"
    using q unfolding enc_digits.simps bval_append bval_be q_def[symmetric] by simp
qed

lemma enc_digits_mono:
  "list_all (\<lambda>n. n \<le> 9) ns \<Longrightarrow> M < N \<Longrightarrow> N < 10 ^ sum_list ns \<Longrightarrow> bval 256 (enc_digits ns M) < bval 256 (enc_digits ns N)"
proof (induction ns arbitrary: M N)
  case (Cons n ns)
  have n: "n \<le> 9" "list_all (\<lambda>n. n \<le> 9) ns" using Cons.prems(1) by simp_all
  have lM: "M < 10 ^ sum_list (n # ns)" using Cons.prems(2,3) by linarith
  let ?S = "10 ^ sum_list ns"
  note cM = enc_digits_Cons[OF n(1) lM] and cN = enc_digits_Cons[OF n(1) Cons.prems(3)]
  show ?case
  proof (cases "M div ?S < N div ?S")
    case True
    have "length (enc_digits ns (M mod ?S)) = length (enc_digits ns (N mod ?S))" by (simp add: length_enc_digits)
    then show ?thesis unfolding cM(1) cN(1) using digit_less[OF True] cM(5) by metis
  next
    case False
    then have eq: "M div ?S = N div ?S" using div_le_mono[of M N ?S] Cons.prems(2) by simp
    then have "M mod ?S < N mod ?S" using cM(3) cN(3) Cons.prems(2) by (metis nat_add_left_cancel_less)
    then have "bval 256 (enc_digits ns (M mod ?S)) < bval 256 (enc_digits ns (N mod ?S))" using Cons.IH[OF n(2)] cN(4) by blast
    then show ?thesis unfolding cM(1) cN(1) eq by (simp add: length_enc_digits)
  qed
qed simp

lemma bval_complement: "below 256 bs \<Longrightarrow> bval 256 (map (\<lambda>b. 255 - b) bs) + bval 256 bs + 1 = 256 ^ length bs"
proof (induction bs)
  case (Cons b bs)
  have "(255 - b) * 256 ^ length bs + b * 256 ^ length bs = 255 * 256 ^ length bs"
    using Cons.prems unfolding add_mult_distrib[symmetric] by simp
  then show ?case using Cons by simp
qed simp

lemma bval_enc_bytes:
  assumes "below 256 bs" "bs = b # cs" "b < 128"
  shows "int (bval 256 (enc_bytes neg True bs)) = 128 * 256 ^ length cs + (if neg then - 1 - int (bval 256 bs) else int (bval 256 bs))"
proof -
  have b: "below 256 cs" using assms(1,2) by simp
  have neg: "(255 - b) XOR 128 = 127 - b" using xor_128[of "255 - b"] assms(3) by simp
  have pos: "b XOR 128 = b + 128" using xor_128[of b] assms(3) by simp
  have e1: "int (127 - b) = 127 - int b" using assms(3) by simp
  have e2: "int (bval 256 (map (\<lambda>b. 255 - b) cs)) = 256 ^ length cs - 1 - int (bval 256 cs)"
    using arg_cong[OF bval_complement[OF b], of int] by simp
  have "int (bval 256 ((127 - b) # map (\<lambda>b. 255 - b) cs)) = 128 * 256 ^ length cs - 1 - int (bval 256 bs)"
    unfolding assms(2) bval.simps of_nat_add of_nat_mult length_map e1 e2 by (simp add: algebra_simps)
  moreover have "enc_bytes True True bs = (127 - b) # map (\<lambda>b. 255 - b) cs" "enc_bytes False True bs = (b + 128) # cs"
    unfolding enc_bytes_def assms(2) cpl_def[abs_def] using neg pos by simp_all
  ultimately show ?thesis by (cases neg) (simp_all add: assms(2) algebra_simps del: bval.simps(2), simp add: distrib_right)
qed

lemma enc_bytes_below: "below 256 bs \<Longrightarrow> below 256 (enc_bytes neg True bs)"
proof (cases bs)
  case (Cons b cs)
  assume "below 256 bs"
  then have "b < 256" "below 256 cs" using Cons by simp_all
  then show ?thesis using xor_128[of "cpl neg b"] by (auto simp: enc_bytes_def Cons below_def cpl_def)
qed simp

text \<open>The groups of a format with at least one digit start with a byte below 128.\<close>

definition dec_groups :: "nat \<Rightarrow> nat \<Rightarrow> nat list" where
  "dec_groups prec fr = lead_groups (prec - fr) @ trail_groups fr"

lemma dec_groups_facts:
  "list_all (\<lambda>n. n \<le> 9) (dec_groups prec fr)" "list_all (\<lambda>n. 0 < n) (dec_groups prec fr)"
  "fr \<le> prec \<Longrightarrow> sum_list (dec_groups prec fr) = prec"
  by (auto simp: dec_groups_def lead_groups_def trail_groups_def list_all_iff less_imp_le sum_list_replicate)

lemma enc_digits_first:
  assumes "0 < prec" "fr \<le> prec" "N < 10 ^ prec"
  obtains b cs where "enc_digits (dec_groups prec fr) N = b # cs" "b < 128"
proof -
  have "dec_groups prec fr \<noteq> []" using dec_groups_facts(3)[OF assms(2)] assms(1) by auto
  then obtain n ns where g: "dec_groups prec fr = n # ns" by (cases "dec_groups prec fr") auto
  have n: "n \<le> 9" "0 < n" "n + sum_list ns = prec" using dec_groups_facts[where prec = prec and fr = fr] assms(2) unfolding g by auto
  define q where "q = N div 10 ^ sum_list ns"
  have "N < 10 ^ n * 10 ^ sum_list ns" using assms(3) n(3) unfolding power_add[symmetric] by simp
  then have q: "q < 10 ^ n" unfolding q_def by (rule less_mult_imp_div_less)
  obtain k where k: "dig2b n = Suc k" using dig2b_pos[OF n(2,1)] by (cases "dig2b n") auto
  have "q < 128 * 256 ^ k" using q dig2b_half[OF n(2,1)] unfolding k by simp
  then have "q div 256 ^ k < 128" by (rule less_mult_imp_div_less)
  moreover have "enc_digits (dec_groups prec fr) N = (q div 256 ^ k mod 256) # be k q @ enc_digits ns N"
    unfolding g using q by (simp add: k q_def)
  ultimately show thesis using that by force
qed

lemma enc_order:
  assumes f: "0 < prec" "fr \<le> prec" "M < 10 ^ prec" "N < 10 ^ prec"
  shows "byte_cmp (enc_bytes m True (enc_digits (dec_groups prec fr) M)) (enc_bytes n True (enc_digits (dec_groups prec fr) N)) =
    cmp_val (if m then - 1 - int M else int M) (if n then - 1 - int N else int N)"
proof -
  let ?V = "\<lambda>N. bval 256 (enc_digits (dec_groups prec fr) N)"
  note g = dec_groups_facts(1)[of prec fr] dec_groups_facts(3)[OF f(2)]
  have iff: "?V M < ?V N \<longleftrightarrow> M < N" "?V M = ?V N \<longleftrightarrow> M = N" "?V N < ?V M \<longleftrightarrow> N < M"
    using enc_digits_mono[OF g(1), of M N] enc_digits_mono[OF g(1), of N M] f(3,4) unfolding g(2)
    by (cases rule: linorder_cases[of M N]; simp)+
  define L where "L = length (enc_digits (dec_groups prec fr) M)"
  have LN: "length (enc_digits (dec_groups prec fr) K) = L" for K by (simp add: L_def length_enc_digits)
  have v: "int (bval 256 (enc_bytes s True (enc_digits (dec_groups prec fr) K))) =
      128 * 256 ^ (L - 1) + (if s then - 1 - int (?V K) else int (?V K))" if K: "K < 10 ^ prec" for s K
  proof -
    obtain b cs where b: "enc_digits (dec_groups prec fr) K = b # cs" "b < 128" using enc_digits_first[OF f(1,2) K] .
    have "length cs = L - 1" using LN[of K] b(1) by simp
    then show ?thesis using bval_enc_bytes[OF enc_digits_below b, of s] by simp
  qed
  have "byte_cmp (enc_bytes m True (enc_digits (dec_groups prec fr) M)) (enc_bytes n True (enc_digits (dec_groups prec fr) N)) =
      cmp_val (bval 256 (enc_bytes m True (enc_digits (dec_groups prec fr) M))) (bval 256 (enc_bytes n True (enc_digits (dec_groups prec fr) N)))"
    by (intro byte_cmp_bval enc_bytes_below enc_digits_below) (simp add: LN)
  also have "\<dots> = cmp_val (int (bval 256 (enc_bytes m True (enc_digits (dec_groups prec fr) M)))) (int (bval 256 (enc_bytes n True (enc_digits (dec_groups prec fr) N))))"
    by (simp add: cmp_val_def)
  also have "\<dots> = cmp_val (if m then - 1 - int M else int M) (if n then - 1 - int N else int N)"
    unfolding v[OF f(3)] v[OF f(4)] using iff by (cases m; cases n; simp add: cmp_val_def)
  finally show ?thesis .
qed

end
