(* ===== verification/Decimal_Codec_Roundtrip.thy ===== *)
theory Decimal_Codec_Roundtrip
  imports Decimal_Codec_Correct
begin

text \<open>
  The decoder of the binary format, verified: it reads the digit groups the encoder writes, so
  that decoding an encoding gives the value back.
\<close>

section \<open>Reading one group\<close>

lemma or_add: "(y :: nat) < 2 ^ n \<Longrightarrow> (x * 2 ^ n) OR y = x * 2 ^ n + y"
proof -
  assume y: "y < 2 ^ n"
  have t: "take_bit n (int y) = int y" using y by (simp add: take_bit_int_eq_self)
  have "int ((x * 2 ^ n) OR y) = push_bit n (int x) OR take_bit n (int y)"
    unfolding t of_nat_or_eq by (simp add: push_bit_eq_mult)
  also have "\<dots> = concat_bit n (int y) (int x)" by (simp add: concat_bit_def or.commute)
  also have "\<dots> = take_bit n (int y) + push_bit n (int x)" by (rule concat_bit_eq)
  also have "\<dots> = int (x * 2 ^ n + y)" unfolding t by (simp add: push_bit_eq_mult)
  finally show ?thesis by linarith
qed

lemma or3:
  assumes "a < 256" "b < 256" "(c :: nat) < 256"
  shows "(a * 2 ^ 16) OR (b * 2 ^ 8) OR c = a * 2 ^ 16 + b * 2 ^ 8 + c"
    "(255 * 2 ^ 24) OR (a * 2 ^ 16) OR (b * 2 ^ 8) OR c = 255 * 2 ^ 24 + (a * 2 ^ 16 + b * 2 ^ 8 + c)"
proof -
  have bc: "(b * 2 ^ 8) OR c = b * 2 ^ 8 + c" using or_add[of c 8 b] assms(3) by simp
  have abc: "(a * 2 ^ 16) OR (b * 2 ^ 8 + c) = a * 2 ^ 16 + (b * 2 ^ 8 + c)" using or_add[of "b * 2 ^ 8 + c" 16 a] assms(2,3) by simp
  then show e: "(a * 2 ^ 16) OR (b * 2 ^ 8) OR c = a * 2 ^ 16 + b * 2 ^ 8 + c" unfolding or.assoc bc by simp
  have "(255 * 2 ^ 24) OR (a * 2 ^ 16 + (b * 2 ^ 8 + c)) = 255 * 2 ^ 24 + (a * 2 ^ 16 + (b * 2 ^ 8 + c))"
    by (rule or_add) (use assms in simp)
  then show "(255 * 2 ^ 24) OR (a * 2 ^ 16) OR (b * 2 ^ 8) OR c = 255 * 2 ^ 24 + (a * 2 ^ 16 + b * 2 ^ 8 + c)"
    unfolding or.assoc bc abc by simp
qed

lemma xor_128_twice: "((b :: nat) XOR 128) XOR 128 = b"
  by (simp add: xor.assoc)

lemma sign_byte_cpl: "b < 128 \<Longrightarrow> as_signed 8 (int (cpl neg b)) = (if neg then - 1 - int b else int b)"
proof (cases neg)
  case True
  assume b: "b < 128"
  have "(383 - int b) mod 256 = (127 - int b) mod 256" using mod_add_self2[of "127 - int b" 256] by (simp add: algebra_simps)
  also have "\<dots> = 127 - int b" using b by (intro mod_pos_pos_trivial) simp_all
  finally show ?thesis using True b by (simp add: cpl_def as_signed_def)
next
  case False
  assume "b < 128"
  then show ?thesis using False by (simp add: cpl_def as_signed_def)
qed

lemma as_unsigned_cpl: "w < 2 ^ 32 \<Longrightarrow> as_unsigned 32 (if neg then - 1 - int w else int w) = w XOR mask32 neg"
proof (cases neg)
  case True
  assume w: "w < 2 ^ 32"
  have "(- 1 - int w) mod 2 ^ 32 = (2 ^ 32 - 1 - int w) mod 2 ^ 32"
    using mod_add_self1[of "2 ^ 32" "- 1 - int w"] by simp
  also have "\<dots> = 2 ^ 32 - 1 - int w" using w by (intro mod_pos_pos_trivial) simp_all
  finally show ?thesis using True w xor_mask[OF w] by (simp add: as_unsigned_def nat_diff_distrib)
next
  case False
  assume "w < 2 ^ 32"
  then show ?thesis using False by (simp add: as_unsigned_def)
qed

lemma cpl_le [simp]: "b < 256 \<Longrightarrow> cpl neg b < 256"
  by (simp add: cpl_def less_imp_diff_less)

lemma enc_group:
  assumes "1 \<le> k" "2 * w < 256 ^ k"
  obtains b cs where "be k w = b # cs" "b < 128" "length cs = k - 1"
    "enc_bytes neg f (be k w) = (if f then cpl neg b XOR 128 else cpl neg b) # map (cpl neg) cs"
proof -
  obtain m where k: "k = Suc m" using assms(1) by (cases k) auto
  have "w < 128 * 256 ^ m" using assms(2) k by simp
  then have "w div 256 ^ m < 128" by (rule less_mult_imp_div_less)
  then show thesis using that[of "w div 256 ^ m" "be m w"] by (simp add: k enc_bytes_def)
qed

lemma read_word_enc:
  assumes k: "1 \<le> k" "k \<le> 4" and w: "2 * w < 256 ^ k"
  shows "read_word (enc_bytes neg f (be k w) @ rest) k f = Some (Inr (w XOR mask32 neg, rest, False))"
proof -
  obtain b cs where b: "be k w = b # cs" "b < 128" "length cs = k - 1"
    "enc_bytes neg f (be k w) = (if f then cpl neg b XOR 128 else cpl neg b) # map (cpl neg) cs"
    using enc_group[OF k(1) w] by blast
  have "(256 :: nat) ^ k \<le> 256 ^ 4" using k by (intro power_increasing) simp_all
  then have w32: "w < 2 ^ 32" using w by simp
  have bel: "below 256 cs" using be_below[of k w] b(1) by simp
  have "w < 256 ^ k" using w by linarith
  then have v: "b * 256 ^ length cs + bval 256 cs = w" using bval_be[of k w] b(1) by simp
  let ?x = "enc_bytes neg f (be k w) @ rest"
  have len: "length (enc_bytes neg f (be k w)) = k" by simp
  have g0: "get_at ?x 0 = Some (if f then cpl neg b XOR 128 else cpl neg b)" unfolding b(4) by (simp add: get_at_def)
  have b0: "(if f then (if f then cpl neg b XOR 128 else cpl neg b) XOR 128 else (if f then cpl neg b XOR 128 else cpl neg b)) = cpl neg b"
    by (simp add: xor_128_twice)
  have dr: "drop k ?x = rest" by simp
  have nth: "?x ! Suc i = cpl neg (cs ! i)" if "i < length cs" for i unfolding b(4) using that by (simp add: nth_append)
  note s0 = sign_byte_cpl[OF b(2), of neg]
  have res: "read_word ?x k f = Some (Inr (r, rest, False))" if
    "(if k = 1 then Some (as_unsigned 32 (if neg then - 1 - int b else int b))
      else if k = 2 then Some (as_unsigned 32 ((if neg then - 1 - int b else int b) * 2 ^ 8 + int (?x ! 1)))
      else if k = 3 then Some (if cpl neg b AND 128 > 0
                        then (255 * 2 ^ 24) OR (cpl neg b * 2 ^ 16) OR (?x ! 1 * 2 ^ 8) OR (?x ! 2)
                        else (cpl neg b * 2 ^ 16) OR (?x ! 1 * 2 ^ 8) OR (?x ! 2))
      else if k = 4 then Some (as_unsigned 32 ((if neg then - 1 - int b else int b) * 2 ^ 24 + int (?x ! 1) * 2 ^ 16 + int (?x ! 2) * 2 ^ 8 + int (?x ! 3)))
      else None) = Some r" for r
    unfolding read_word_def using that len by (simp only: g0 bind.bind_lunit Let_def b0 s0 dr) simp
  have cpl_int: "int (cpl neg c) = (if neg then 255 - int c else int c)" if "c < 256" for c using that by (simp add: cpl_def)
  consider "k = 1" | "k = 2" | "k = 3" | "k = 4" using k by linarith
  then show ?thesis
  proof cases
    case 1
    then have "w = b" using v b(3) by simp
    then show ?thesis using 1 as_unsigned_cpl[OF w32, of neg] by (intro res) (cases neg; simp)
  next
    case 2
    then obtain c where c: "cs = [c]" "c < 256" using b(3) bel by (cases cs) auto
    have x1: "?x ! 1 = cpl neg c" using nth[of 0] c by simp
    have "int w = int b * 256 + int c" using v c by simp
    then have "(if neg then - 1 - int b else int b) * 2 ^ 8 + int (cpl neg c) = (if neg then - 1 - int w else int w)"
      using cpl_int[OF c(2)] by simp
    then show ?thesis using 2 as_unsigned_cpl[OF w32, of neg] unfolding x1[symmetric] by (intro res) simp
  next
    case 3
    then obtain c e where c: "cs = [c, e]" "c < 256" "e < 256" using b(3) bel by (auto simp: length_Suc_conv numeral_3_eq_3)
    have x: "?x ! 1 = cpl neg c" "?x ! 2 = cpl neg e" using nth[of 0] nth[of 1] c by (simp_all add: numeral_2_eq_2)
    have iw: "w = b * 65536 + c * 256 + e" using v c by simp
    have a: "cpl neg b AND 128 > 0 \<longleftrightarrow> neg" using and_128[of "cpl neg b"] b(2) by (auto simp: cpl_def)
    have "(if cpl neg b AND 128 > 0 then (255 * 2 ^ 24) OR (cpl neg b * 2 ^ 16) OR (cpl neg c * 2 ^ 8) OR (cpl neg e)
            else (cpl neg b * 2 ^ 16) OR (cpl neg c * 2 ^ 8) OR (cpl neg e)) = w XOR mask32 neg"
    proof (cases neg)
      case True
      have "255 * 2 ^ 24 + ((255 - b) * 2 ^ 16 + (255 - c) * 2 ^ 8 + (255 - e)) = 2 ^ 32 - 1 - w"
        unfolding iw using b(2) c(2,3) by simp
      then show ?thesis using True xor_mask[OF w32] or3(2)[of "255 - b" "255 - c" "255 - e"] unfolding a by (simp add: cpl_def)
    next
      case False
      then show ?thesis using iw b(2) c(2,3) or3(1)[of b c e] unfolding a by (simp add: cpl_def)
    qed
    then show ?thesis using 3 unfolding x[symmetric] by (intro res) simp
  next
    case 4
    then have "length cs = Suc (Suc (Suc 0))" using b(3) by simp
    then obtain c e g where c: "cs = [c, e, g]" "c < 256" "e < 256" "g < 256" using bel by (auto simp: length_Suc_conv)
    have x: "?x ! 1 = cpl neg c" "?x ! 2 = cpl neg e" "?x ! 3 = cpl neg g" using nth[of 0] nth[of 1] nth[of 2] c
      by (simp_all add: numeral_2_eq_2 numeral_3_eq_3)
    have "int w = int b * 2 ^ 24 + int c * 2 ^ 16 + int e * 2 ^ 8 + int g" using v c by simp
    then have "(if neg then - 1 - int b else int b) * 2 ^ 24 + int (cpl neg c) * 2 ^ 16 + int (cpl neg e) * 2 ^ 8 + int (cpl neg g) =
        (if neg then - 1 - int w else int w)"
      using cpl_int[OF c(2)] cpl_int[OF c(3)] cpl_int[OF c(4)] by (cases neg) simp_all
    then show ?thesis using 4 as_unsigned_cpl[OF w32, of neg] unfolding x[symmetric] by (intro res) simp
  qed
qed

section \<open>Reading the words\<close>

text \<open>A buffer whose first words are \<open>pre\<close> and whose other words are zero.\<close>

definition filled :: "nat list \<Rightarrow> nat list" where
  "filled pre = pre @ replicate (9 - length pre) 0"

lemma set_filled: "length pre < 9 \<Longrightarrow> set_at (filled pre) (length pre) w = Some (filled (pre @ [w]))"
proof -
  assume "length pre < 9"
  then obtain k where "9 - length pre = Suc k" by (metis Suc_diff_Suc)
  moreover have "9 - Suc (length pre) = k" using calculation by simp
  ultimately show ?thesis by (simp add: filled_def set_at_def list_update_append)
qed

lemma filled_zero: "filled [0] = filled []"
  by (simp add: filled_def numeral_eq_Suc)

lemma xor_mask_twice: "w < 2 ^ 32 \<Longrightarrow> (w XOR mask32 neg) XOR mask32 neg = w"
  by (simp add: xor.assoc)

lemma read_full_word:
  assumes "w < WORD_BASE"
  shows "read_word (enc_bytes neg f (be 4 w) @ rest) 4 f = Some (Inr (w XOR mask32 neg, rest, False))"
    "(w XOR mask32 neg) XOR mask32 neg = w" "\<not> w > WORD_MAX"
proof -
  show "read_word (enc_bytes neg f (be 4 w) @ rest) 4 f = Some (Inr (w XOR mask32 neg, rest, False))"
    using assms by (intro read_word_enc) (simp_all add: WORD_BASE_def)
qed (use assms in \<open>auto simp: xor.assoc WORD_MAX_def WORD_BASE_def\<close>)

text \<open>The words that the decoder keeps of the integer part.\<close>

definition kept :: "nat list \<Rightarrow> nat list \<Rightarrow> nat list" where
  "kept pre ws = (if pre = [] then dropWhile (\<lambda>w. w = 0) ws else pre @ ws)"

lemma kept_Cons: "kept pre (w # ws) = (if pre = [] \<and> w = 0 then kept [] ws else kept (pre @ [w]) ws)"
  by (auto simp: kept_def)

lemma bval_kept: "bval b (kept pre ws) = bval b pre * b ^ length ws + bval b ws"
proof -
  have "bval b (dropWhile (\<lambda>w. w = 0) ws) = bval b ws" by (induction ws) auto
  then show ?thesis by (simp add: kept_def bval_append)
qed

lemma length_kept: "length (kept pre ws) \<le> length pre + length ws"
  by (simp add: kept_def length_dropWhile_le)

lemma below_kept: "below b pre \<Longrightarrow> below b ws \<Longrightarrow> below b (kept pre ws)"
  by (auto simp: kept_def below_def dest: set_dropWhileD)

lemma enc_concat_Cons:
  "enc_bytes neg f (be 4 w @ xs) @ rest = enc_bytes neg f (be 4 w) @ (enc_bytes neg False xs @ rest)"
proof -
  have "be 4 w \<noteq> []" by (metis length_be length_0_conv zero_neq_numeral)
  then show ?thesis by (simp add: enc_bytes_append)
qed

lemmas read_words_step = list.map concat.simps length_Cons enc_concat_Cons

lemma read_int_words_enc:
  "below WORD_BASE ws \<Longrightarrow> length pre + length ws \<le> 9 \<Longrightarrow> word_buf d = filled pre \<Longrightarrow>
   9 * length ws \<le> int_cnt d \<or> pre \<noteq> [] \<Longrightarrow>
   read_int_words (length ws) (mask32 neg) (length pre) d (enc_bytes neg f (concat (map (be 4) ws)) @ rest) f =
     Some (Inr (length (kept pre ws),
       d\<lparr>word_buf := filled (kept pre ws), int_cnt := int_cnt d - 9 * (length pre + length ws - length (kept pre ws))\<rparr>,
       rest, f \<and> ws = []))"
proof (induction ws arbitrary: pre d f)
  case Nil
  then show ?case by (simp add: kept_def enc_bytes_def)
next
  case (Cons w ws)
  have w: "w < WORD_BASE" "below WORD_BASE ws" using Cons.prems(1) by simp_all
  have sa: "set_at (word_buf d) (length pre) w = Some (filled (pre @ [w]))"
    using Cons.prems(2,3) set_filled[of pre w] by simp
  note rw = read_full_word[OF w(1)]
  show ?case
  proof (cases "pre = [] \<and> w = 0")
    case True
    let ?d = "d\<lparr>word_buf := filled [], int_cnt := int_cnt d - 9\<rparr>"
    have us: "usub (int_cnt d) 9 = Some (int_cnt d - 9)" using Cons.prems(4) True by (simp add: usub_def)
    have "read_int_words (length (w # ws)) (mask32 neg) (length pre) d (enc_bytes neg f (concat (map (be 4) (w # ws))) @ rest) f =
        read_int_words (length ws) (mask32 neg) 0 ?d (enc_bytes neg False (concat (map (be 4) ws)) @ rest) False"
      unfolding read_words_step read_int_words.simps rw(1) bind.bind_lunit sum.case case_prod_conv rw(2)
      using True sa us filled_zero by (simp add: Let_def WORD_MAX_def)
    also have "\<dots> = Some (Inr (length (kept [] ws), ?d\<lparr>word_buf := filled (kept [] ws),
        int_cnt := int_cnt ?d - 9 * (length ws - length (kept [] ws))\<rparr>, rest, False))"
      using Cons.IH[OF w(2), of "[]" ?d False] Cons.prems True by simp
    finally have "read_int_words (length (w # ws)) (mask32 neg) (length pre) d (enc_bytes neg f (concat (map (be 4) (w # ws))) @ rest) f = \<dots>" .
    moreover have "kept pre (w # ws) = kept [] ws" using True unfolding kept_Cons by auto
    ultimately show ?thesis using True length_kept[of "[]" ws] by (simp only:) (simp add: Suc_diff_le)
  next
    case False
    let ?d = "d\<lparr>word_buf := filled (pre @ [w])\<rparr>"
    have "read_int_words (length (w # ws)) (mask32 neg) (length pre) d (enc_bytes neg f (concat (map (be 4) (w # ws))) @ rest) f =
        read_int_words (length ws) (mask32 neg) (length (pre @ [w])) ?d (enc_bytes neg False (concat (map (be 4) ws)) @ rest) False"
      unfolding read_words_step read_int_words.simps rw(1) bind.bind_lunit sum.case case_prod_conv rw(2) sa
      using False rw(3) by (simp add: Let_def)
    also have "\<dots> = Some (Inr (length (kept (pre @ [w]) ws), ?d\<lparr>word_buf := filled (kept (pre @ [w]) ws),
        int_cnt := int_cnt ?d - 9 * (length (pre @ [w]) + length ws - length (kept (pre @ [w]) ws))\<rparr>, rest, False))"
      using Cons.IH[OF w(2), of "pre @ [w]" ?d False] Cons.prems by simp
    finally have "read_int_words (length (w # ws)) (mask32 neg) (length pre) d (enc_bytes neg f (concat (map (be 4) (w # ws))) @ rest) f = \<dots>" .
    moreover have "kept pre (w # ws) = kept (pre @ [w]) ws" using False unfolding kept_Cons by auto
    ultimately show ?thesis by (simp only:) simp
  qed
qed

lemma read_frac_words_enc:
  "below WORD_BASE ws \<Longrightarrow> length pre + length ws \<le> 9 \<Longrightarrow> word_buf d = filled pre \<Longrightarrow>
   read_frac_words (length ws) (mask32 neg) (length pre) d (enc_bytes neg f (concat (map (be 4) ws)) @ rest) f =
     Some (Inr (length pre + length ws, d\<lparr>word_buf := filled (pre @ ws)\<rparr>, rest, f \<and> ws = []))"
proof (induction ws arbitrary: pre d f)
  case Nil
  then show ?case by (simp add: enc_bytes_def)
next
  case (Cons w ws)
  have w: "w < WORD_BASE" "below WORD_BASE ws" using Cons.prems(1) by simp_all
  have sa: "set_at (word_buf d) (length pre) w = Some (filled (pre @ [w]))"
    using Cons.prems(2,3) set_filled[of pre w] by simp
  note rw = read_full_word[OF w(1)]
  let ?d = "d\<lparr>word_buf := filled (pre @ [w])\<rparr>"
  have "read_frac_words (length (w # ws)) (mask32 neg) (length pre) d (enc_bytes neg f (concat (map (be 4) (w # ws))) @ rest) f =
      read_frac_words (length ws) (mask32 neg) (length (pre @ [w])) ?d (enc_bytes neg False (concat (map (be 4) ws)) @ rest) False"
    unfolding read_words_step read_frac_words.simps rw(1) bind.bind_lunit sum.case case_prod_conv rw(2) sa
    using rw(3) by simp
  also have "\<dots> = Some (Inr (length (pre @ [w]) + length ws, ?d\<lparr>word_buf := filled ((pre @ [w]) @ ws)\<rparr>, rest, False))"
    using Cons.IH[OF w(2), of "pre @ [w]" ?d False] Cons.prems by simp
  finally show ?case by simp
qed

lemma words_exist: "N < WORD_BASE ^ m \<Longrightarrow> \<exists>ws. length ws = m \<and> below WORD_BASE ws \<and> bval WORD_BASE ws = N"
proof (induction m arbitrary: N)
  case (Suc m)
  have "N mod WORD_BASE ^ m < WORD_BASE ^ m" by simp
  from Suc.IH[OF this] obtain ws where ws: "length ws = m" "below WORD_BASE ws" "bval WORD_BASE ws = N mod WORD_BASE ^ m" by blast
  have "N div WORD_BASE ^ m < WORD_BASE" using Suc.prems by (intro less_mult_imp_div_less) simp
  then show ?case using ws by (intro exI[of _ "N div WORD_BASE ^ m # ws"]) (simp add: div_mult_mod_eq)
qed simp

lemma read_leading_enc:
  assumes "ll < 9" "w < 10 ^ ll" "word_buf d = filled []" "ll \<le> int_cnt d"
  defines "pre \<equiv> (if w = 0 then [] else [w])"
  shows "read_leading ll (mask32 neg) d (enc_bytes neg True ((if ll = 0 then [] else be (dig2b ll) w) @ xs) @ rest) =
    Some (Inr (length pre, d\<lparr>word_buf := filled pre, int_cnt := int_cnt d - (if pre = [] then ll else 0)\<rparr>,
      enc_bytes neg (ll = 0) xs @ rest, ll = 0))"
proof (cases "ll = 0")
  case True
  then have "pre = []" using assms(2) by (simp add: pre_def)
  then show ?thesis using True assms(3) by (simp add: read_leading_def)
next
  case False
  have k: "1 \<le> dig2b ll" "dig2b ll \<le> 4" "2 * w < 256 ^ dig2b ll"
    using dig2b_pos[of ll] dig2b_le[of ll] dig2b_half[of ll] False assms(1,2) by auto
  have "be (dig2b ll) w \<noteq> []" using k(1) by (metis length_be length_0_conv not_one_le_zero)
  then have sp: "enc_bytes neg True ((if ll = 0 then [] else be (dig2b ll) w) @ xs) @ rest =
      enc_bytes neg True (be (dig2b ll) w) @ enc_bytes neg False xs @ rest" using False by (simp add: enc_bytes_append)
  have g: "get_at DIG_2_BYTES ll = Some (dig2b ll)" using assms(1) by (simp add: get_at_def DIG_2_BYTES_def)
  have t: "get_at TEN_POW (ll + 1) = Some (10 ^ Suc ll)" using assms(1) by (simp add: get_at_def)
  have w: "\<not> w \<ge> 10 ^ Suc ll" "(w XOR mask32 neg) XOR mask32 neg = w" using assms(2) by (simp_all add: xor.assoc)
  have sa: "set_at (word_buf d) 0 w = Some (filled [w])" using set_filled[of "[]" w] assms(3) by simp
  show ?thesis
    unfolding read_leading_def sp g bind.bind_lunit read_word_enc[OF k] sum.case case_prod_conv w(2) sa Let_def t
    using False w(1) assms(4) filled_zero by (auto simp: pre_def usub_def)
qed

lemma read_trailing_enc:
  assumes "t < 9" "x < 10 ^ t" "word_buf d = filled pre" "length pre + of_bool (t \<noteq> 0) \<le> 9"
  shows "read_trailing t (mask32 neg) (length pre) d (enc_bytes neg f (if t = 0 then [] else be (dig2b t) x) @ rest) f =
    Some (Inr (d\<lparr>word_buf := filled (pre @ (if t = 0 then [] else [x * 10 ^ (9 - t)]))\<rparr>, rest))"
proof (cases "t = 0")
  case True
  then show ?thesis using assms(3) by (simp add: read_trailing_def)
next
  case False
  have k: "1 \<le> dig2b t" "dig2b t \<le> 4" "2 * x < 256 ^ dig2b t"
    using dig2b_pos[of t] dig2b_le[of t] dig2b_half[of t] False assms(1,2) by auto
  have g: "get_at DIG_2_BYTES t = Some (dig2b t)" using assms(1) by (simp add: get_at_def DIG_2_BYTES_def)
  have tp: "get_at TEN_POW (DIGITS_PER_WORD - t) = Some (10 ^ (9 - t))" by (simp add: get_at_def)
  have "x * 10 ^ (9 - t) < 10 ^ t * 10 ^ (9 - t)" using assms(2) by simp
  then have b: "x * 10 ^ (9 - t) < 1000000000" unfolding power_add[symmetric] using assms(1) by simp
  have c: "umul 32 x (10 ^ (9 - t)) \<noteq> None \<and> x * 10 ^ (9 - t) \<le> WORD_MAX" using b by (simp add: umul_def WORD_MAX_def WORD_BASE_def)
  have m: "(x XOR mask32 neg) XOR mask32 neg = x" by (simp add: xor.assoc)
  have sa: "set_at (word_buf d) (length pre) (x * 10 ^ (9 - t)) = Some (filled (pre @ [x * 10 ^ (9 - t)]))"
    using set_filled[of pre] assms(3,4) False by simp
  have e: "(if t = 0 then [] else be (dig2b t) x) = be (dig2b t) x" using False by simp
  show ?thesis
    unfolding read_trailing_def g bind.bind_lunit e read_word_enc[OF k] sum.case case_prod_conv tp Let_def m sa
    using False c by simp
qed

text \<open>A decimal whose words are exactly its integer words and its fraction words.\<close>

lemma assembled_dec:
  assumes d: "word_buf d = filled (I @ Fw)" "below WORD_BASE (I @ Fw)" "int_words d = length I" "frac_words d = length Fw"
    and l: "length I + length Fw \<le> 9" "0 < int_cnt d + frac_cnt d"
    and v: "bval WORD_BASE I = A" "bval WORD_BASE Fw = F * 10 ^ (9 * frac_words d - frac_cnt d)" "A < 10 ^ int_cnt d" "F < 10 ^ frac_cnt d"
  shows "dec_ok d" "lead_ok d" "trail_ok d" "mag d = of_nat (A * 10 ^ frac_cnt d + F) / 10 ^ frac_cnt d"
proof -
  let ?fc = "frac_cnt d" and ?k = "9 * frac_words d - frac_cnt d"
  have fk: "?fc + ?k = 9 * frac_words d" using word_cnt_room[of ?fc] d(4) l(1) by simp
  have us: "used d = I @ Fw" unfolding used_def d(1,3,4) filled_def by simp
  have bu: "bval WORD_BASE (used d) = (A * 10 ^ ?fc + F) * 10 ^ ?k"
    unfolding us bval_append v(1,2) d(4)[symmetric] WORD_BASE_power add_mult_distrib mult.assoc power_add[symmetric] fk ..
  have B: "(of_nat WORD_BASE :: rat) ^ frac_words d = 10 ^ ?fc * 10 ^ ?k"
    unfolding power_add[symmetric] fk by (simp add: WORD_BASE_def power_mult)
  show "dec_ok d" using d l by (simp add: dec_ok_def filled_def)
  show "trail_ok d" unfolding trail_ok_def bu by simp
  show m: "mag d = of_nat (A * 10 ^ ?fc + F) / 10 ^ ?fc" unfolding mag_def bu B by simp
  have "A * 10 ^ ?fc + F < Suc A * 10 ^ ?fc" using v(4) by simp
  also have "\<dots> \<le> 10 ^ int_cnt d * 10 ^ ?fc" using v(3) by (intro mult_le_mono1) simp
  finally have "(of_nat (A * 10 ^ ?fc + F) :: rat) < of_nat (10 ^ int_cnt d * 10 ^ ?fc)" by (subst of_nat_less_iff)
  then show "lead_ok d" unfolding lead_ok_def m by (simp add: divide_simps)
qed

lemma lead_split:
  assumes "A < 10 ^ ic" "ic \<le> 81"
  obtains w ws where "length ws = ic div 9" "below WORD_BASE ws" "w < 10 ^ (ic mod 9)" "w * WORD_BASE ^ length ws + bval WORD_BASE ws = A"
    "enc_digits (lead_groups ic) A = (if ic mod 9 = 0 then [] else be (dig2b (ic mod 9)) w) @ concat (map (be 4) ws)"
proof -
  let ?m = "ic div 9" and ?t = "ic mod 9"
  define w where "w = A div WORD_BASE ^ ?m"
  have "A < 10 ^ ?t * WORD_BASE ^ ?m" using assms(1) unfolding WORD_BASE_power power_add[symmetric] by simp
  then have w: "w < 10 ^ ?t" unfolding w_def by (rule less_mult_imp_div_less)
  obtain ws where ws: "length ws = ?m" "below WORD_BASE ws" "bval WORD_BASE ws = A mod WORD_BASE ^ ?m"
    using words_exist[of "A mod WORD_BASE ^ ?m" ?m] by auto
  have A: "w * WORD_BASE ^ length ws + bval WORD_BASE ws = A" unfolding ws w_def by (rule div_mult_mod_eq)
  have s: "sum_list (replicate ?m 9) = 9 * ?m" by (simp add: sum_list_replicate)
  have "A div 10 ^ (9 * ?m) = w" unfolding w_def WORD_BASE_power ..
  moreover have "enc_digits (replicate ?m 9) A = concat (map (be 4) ws)"
    using enc_digits_high[of "replicate ?m 9" w 0 "bval WORD_BASE ws"] enc_digits_words[OF ws(2), of ?m] A ws(1) unfolding s WORD_BASE_power by simp
  ultimately show thesis using that[OF ws(1,2) w A] w by (auto simp: lead_groups_def s)
qed

lemma trail_split:
  assumes "F < 10 ^ fr" "word_cnt fr \<le> 9"
  obtains xs x where "length xs = fr div 9" "below WORD_BASE xs" "x < 10 ^ (fr mod 9)"
    "bval WORD_BASE (xs @ (if fr mod 9 = 0 then [] else [x * 10 ^ (9 - fr mod 9)])) = F * 10 ^ (9 * word_cnt fr - fr)"
    "below WORD_BASE (xs @ (if fr mod 9 = 0 then [] else [x * 10 ^ (9 - fr mod 9)]))"
    "enc_digits (trail_groups fr) F = concat (map (be 4) xs) @ (if fr mod 9 = 0 then [] else be (dig2b (fr mod 9)) x)"
proof -
  let ?k = "fr div 9" and ?t = "fr mod 9"
  have fr81: "fr \<le> 81" using assms(2) by (rule word_cnt_less)
  define x where "x = F mod 10 ^ ?t"
  have "F < 10 ^ (9 * ?k) * 10 ^ ?t" using assms(1) unfolding power_add[symmetric] by simp
  then have "F div 10 ^ ?t < WORD_BASE ^ ?k" unfolding WORD_BASE_power by (rule less_mult_imp_div_less)
  then obtain xs where xs: "length xs = ?k" "below WORD_BASE xs" "bval WORD_BASE xs = F div 10 ^ ?t" using words_exist by blast
  have F: "F = bval WORD_BASE xs * 10 ^ ?t + x" unfolding xs x_def by (rule div_mult_mod_eq[symmetric])
  have x: "x < 10 ^ ?t" unfolding x_def by simp
  have p: "10 ^ ?t * 10 ^ (9 - ?t) = WORD_BASE" unfolding power_add[symmetric] WORD_BASE_pow by simp
  have "x * 10 ^ (9 - ?t) < 10 ^ ?t * 10 ^ (9 - ?t)" using x by simp
  then have b: "below WORD_BASE (xs @ (if ?t = 0 then [] else [x * 10 ^ (9 - ?t)]))" using xs(2) unfolding p by simp
  have v: "bval WORD_BASE (xs @ (if ?t = 0 then [] else [x * 10 ^ (9 - ?t)])) = F * 10 ^ (9 * word_cnt fr - fr)"
  proof (cases "?t = 0")
    case True
    then have "9 * word_cnt fr - fr = 0" using fr81 by (auto simp: word_cnt_div)
    then show ?thesis using True F x by simp
  next
    case False
    have "9 * word_cnt fr - fr = 9 - ?t" using False word_cnt_div[OF fr81] by simp (use mult_div_mod_eq[of 9 fr] in linarith)
    then show ?thesis unfolding F bval_append using False by (simp add: add_mult_distrib mult.assoc p)
  qed
  have "enc_digits (trail_groups fr) F = concat (map (be 4) xs) @ (if ?t = 0 then [] else be (dig2b ?t) x)"
  proof (cases "?t = 0")
    case True
    then show ?thesis using enc_digits_words[OF xs(2), of ?k] xs(1) F x by (simp add: trail_groups_def)
  next
    case False
    then show ?thesis using enc_digits_append[of x "[?t]" "replicate ?k 9" "bval WORD_BASE xs"] x enc_digits_words[OF xs(2), of ?k] xs(1) F
      by (simp add: trail_groups_def)
  qed
  then show thesis using that[OF xs(1,2) x v b] by blast
qed

lemma read_decimal_enc:
  assumes f: "0 < prec" "fr \<le> prec" "word_cnt (prec - fr) + word_cnt fr \<le> 9" "N < 10 ^ prec" "neg \<Longrightarrow> N \<noteq> 0"
  shows "\<exists>d. read_decimal ([prec, fr] @ enc_bytes neg True (enc_digits (dec_groups prec fr) N) @ rest) = Some (Inr (d, rest)) \<and>
    dec_ok d \<and> lead_ok d \<and> trail_ok d \<and> negative d = neg \<and> mag d = of_nat N / 10 ^ fr \<and> frac_cnt d = fr \<and> result_frac_cnt d = fr"
proof -
  define ic where "ic = prec - fr"
  have f3: "word_cnt ic + word_cnt fr \<le> 9" using f(3) by (simp add: ic_def)
  let ?ll = "ic mod 9" and ?iw = "ic div 9" and ?fw = "fr div 9" and ?t = "fr mod 9"
  define A F where "A = N div 10 ^ fr" and "F = N mod 10 ^ fr"
  have N: "N = A * 10 ^ fr + F" unfolding A_def F_def by (rule div_mult_mod_eq[symmetric])
  have "N < 10 ^ ic * 10 ^ fr" using f(2,4) unfolding power_add[symmetric] ic_def by simp
  then have A: "A < 10 ^ ic" unfolding A_def by (rule less_mult_imp_div_less)
  have F: "F < 10 ^ fr" unfolding F_def by simp
  have c81: "ic \<le> 81" "fr \<le> 81" using f3 by (auto intro!: word_cnt_less)
  have wc: "word_cnt ic = ?iw + (if ?ll = 0 then 0 else 1)" "word_cnt fr = ?fw + (if ?t = 0 then 0 else 1)"
    using c81 by (simp_all add: word_cnt_div)
  obtain w ws where w: "length ws = ?iw" "below WORD_BASE ws" "w < 10 ^ ?ll" "w * WORD_BASE ^ length ws + bval WORD_BASE ws = A"
    "enc_digits (lead_groups ic) A = (if ?ll = 0 then [] else be (dig2b ?ll) w) @ concat (map (be 4) ws)"
    using lead_split[OF A c81(1)] .
  obtain xs x where x: "length xs = ?fw" "below WORD_BASE xs" "x < 10 ^ ?t"
    "bval WORD_BASE (xs @ (if ?t = 0 then [] else [x * 10 ^ (9 - ?t)])) = F * 10 ^ (9 * word_cnt fr - fr)"
    "below WORD_BASE (xs @ (if ?t = 0 then [] else [x * 10 ^ (9 - ?t)]))"
    "enc_digits (trail_groups fr) F = concat (map (be 4) xs) @ (if ?t = 0 then [] else be (dig2b ?t) x)"
    using trail_split[OF F, of thesis] f3 by simp
  let ?r1 = "if ?ll = 0 then [] else be (dig2b ?ll) w" and ?r2 = "concat (map (be 4) ws)" and ?r3 = "concat (map (be 4) xs)"
    and ?r4 = "if ?t = 0 then [] else be (dig2b ?t) x"
  have body: "enc_digits (dec_groups prec fr) N = ?r1 @ ?r2 @ ?r3 @ ?r4"
    unfolding dec_groups_def ic_def[symmetric] N using enc_digits_append[of F "trail_groups fr" "lead_groups ic" A] F w(5) x(6) by simp
  define pre where "pre = (if w = 0 then [] else [w])"
  let ?I = "kept pre ws" and ?Fw = "xs @ (if ?t = 0 then [] else [x * 10 ^ (9 - ?t)])"
  let ?d0 = "(new_dec ic fr neg)\<lparr>result_frac_cnt := fr\<rparr>"
  define c where "c = ic - (if pre = [] then ?ll else 0) - 9 * (length pre + length ws - length ?I)"
  let ?d1 = "?d0\<lparr>word_buf := filled pre, int_cnt := ic - (if pre = [] then ?ll else 0)\<rparr>"
    and ?d2 = "?d0\<lparr>word_buf := filled ?I, int_cnt := c\<rparr>" and ?d4 = "?d0\<lparr>word_buf := filled (?I @ ?Fw), int_cnt := c\<rparr>"
  have prl: "?ll = 0 \<Longrightarrow> pre = []" "length pre \<le> of_bool (?ll \<noteq> 0)" using w(3) by (auto simp: pre_def)
  have lI: "length ?I \<le> word_cnt ic" using length_kept[of pre ws] prl(2) w(1) wc(1) by (cases "?ll = 0") auto
  have lF: "length ?Fw = word_cnt fr" using x(1) wc(2) by simp
  have ne: "concat (map (be 4) zs) = [] \<longleftrightarrow> zs = []" for zs by (cases zs) (simp_all add: be_unfold(4))
  have r1: "read_leading ?ll (mask32 neg) ?d0 (enc_bytes neg True (?r1 @ ?r2 @ ?r3 @ ?r4) @ rest) =
      Some (Inr (length pre, ?d1, enc_bytes neg (?ll = 0) (?r2 @ ?r3 @ ?r4) @ rest, ?ll = 0))"
    using read_leading_enc[of ?ll w ?d0 neg "?r2 @ ?r3 @ ?r4" rest] w(3) unfolding pre_def[symmetric]
    by (simp add: new_dec_def filled_def)
  let ?f1 = "?ll = 0" and ?f2 = "?ll = 0 \<and> ws = []" and ?f3 = "(?ll = 0 \<and> ws = []) \<and> xs = []"
  have e2: "enc_bytes neg ?f1 (?r2 @ ?r3 @ ?r4) @ rest = enc_bytes neg ?f1 ?r2 @ enc_bytes neg ?f2 (?r3 @ ?r4) @ rest"
    unfolding enc_bytes_append[of _ _ ?r2] ne by simp
  have r2: "read_int_words ?iw (mask32 neg) (length pre) ?d1 (enc_bytes neg ?f1 (?r2 @ ?r3 @ ?r4) @ rest) ?f1 =
      Some (Inr (length ?I, ?d2, enc_bytes neg ?f2 (?r3 @ ?r4) @ rest, ?f2))"
  proof -
    have "length pre + length ws \<le> 9" using prl(2) w(1) wc(1) f3 by (cases "?ll = 0") auto
    moreover have "9 * length ws \<le> int_cnt ?d1 \<or> pre \<noteq> []" using w(1) minus_mod_eq_mult_div[of ic 9] by simp
    ultimately show ?thesis unfolding e2 using read_int_words_enc[OF w(2), of pre ?d1 neg ?f1 "enc_bytes neg ?f2 (?r3 @ ?r4) @ rest"] w(1)
      by (simp add: c_def)
  qed
  have e3: "enc_bytes neg ?f2 (?r3 @ ?r4) @ rest = enc_bytes neg ?f2 ?r3 @ enc_bytes neg ?f3 ?r4 @ rest"
    unfolding enc_bytes_append[of _ _ ?r3] ne by simp
  have r3: "read_frac_words ?fw (mask32 neg) (length ?I) ?d2 (enc_bytes neg ?f2 (?r3 @ ?r4) @ rest) ?f2 =
      Some (Inr (length (?I @ xs), ?d2\<lparr>word_buf := filled (?I @ xs)\<rparr>, enc_bytes neg ?f3 ?r4 @ rest, ?f3))"
    unfolding e3 using read_frac_words_enc[OF x(2), of ?I ?d2 neg ?f2 "enc_bytes neg ?f3 ?r4 @ rest"] x(1) lI wc f3 by simp
  have r4: "read_trailing ?t (mask32 neg) (length (?I @ xs)) (?d2\<lparr>word_buf := filled (?I @ xs)\<rparr>) (enc_bytes neg ?f3 ?r4 @ rest) ?f3 = Some (Inr (?d4, rest))"
    using read_trailing_enc[of ?t x "?d2\<lparr>word_buf := filled (?I @ xs)\<rparr>" "?I @ xs" neg ?f3 rest] x(1,3) lI wc f3 by auto
  have fst_: "enc_bytes neg True (?r1 @ ?r2 @ ?r3 @ ?r4) ! 0 AND 128 > 0 \<longleftrightarrow> \<not> neg" and len: "0 < length (enc_bytes neg True (?r1 @ ?r2 @ ?r3 @ ?r4))"
  proof -
    obtain b cs where b: "?r1 @ ?r2 @ ?r3 @ ?r4 = b # cs" "b < 128" using enc_digits_first[OF f(1,2,4)] unfolding body .
    have e: "enc_bytes neg True (b # cs) = (cpl neg b XOR 128) # map (cpl neg) cs" by (simp add: enc_bytes_def)
    have "cpl neg b XOR 128 = (if neg then 127 - b else b + 128)" using xor_128[of "cpl neg b"] b(2) by (auto simp: cpl_def)
    then show "enc_bytes neg True (?r1 @ ?r2 @ ?r3 @ ?r4) ! 0 AND 128 > 0 \<longleftrightarrow> \<not> neg" unfolding b(1) e using b(2) and_128[of "127 - b"] and_128[of "b + 128"] by (cases neg) (simp_all add: less_imp_diff_less)
    show "0 < length (enc_bytes neg True (?r1 @ ?r2 @ ?r3 @ ?r4))" unfolding b(1) by simp
  qed
  have rd: "read_decimal ([prec, fr] @ enc_bytes neg True (enc_digits (dec_groups prec fr) N) @ rest) =
      Some (Inr ((if int_cnt ?d4 = 0 \<and> frac_cnt ?d4 = 0 then zero_dec else ?d4)\<lparr>result_frac_cnt := fr\<rparr>, rest))"
  proof -
    let ?B = "enc_bytes neg True (?r1 @ ?r2 @ ?r3 @ ?r4)"
    have h: "\<not> length ([prec, fr] @ ?B @ rest) < 3" "([prec, fr] @ ?B @ rest) ! 0 = prec" "([prec, fr] @ ?B @ rest) ! 1 = fr"
      "drop 2 ([prec, fr] @ ?B @ rest) = ?B @ rest" "(?B @ rest) ! 0 = ?B ! 0" "\<not> prec < fr" using len f(2) by (auto simp: nth_append)
    have mk: "(if ?B ! 0 AND 128 > 0 then 0 else 2 ^ 32 - 1) = mask32 neg" using fst_ by simp
    have fx: "is_ok (fix_word_cnt_err (if ?ll > 0 then ?iw + 1 else ?iw) (if ?t > 0 then ?fw + 1 else ?fw) WORD_BUF_LEN)"
      using f3 wc by (auto simp: fix_word_cnt_err_def)
    have mz: "mask32 neg \<noteq> 0 \<longleftrightarrow> neg" by simp
    show ?thesis unfolding body read_decimal_def h(2-5) Let_def ic_def[symmetric] DIGITS_PER_WORD_def minus_div_mult_eq_mod mk mz
      using h(1,6) fx by (simp only: if_False not_True_eq_False r1 r2 r3 r4 bind.bind_lunit sum.case case_prod_conv)
  qed
  have I: "bval WORD_BASE ?I = A" "below WORD_BASE ?I" "word_cnt c = length ?I" "A < 10 ^ c"
  proof -
    have "bval WORD_BASE pre = w" by (simp add: pre_def)
    then show vI: "bval WORD_BASE ?I = A" using w(4) unfolding bval_kept by simp
    have "w < WORD_BASE"
    proof -
      have "(10 :: nat) ^ ?ll \<le> 10 ^ 9" by (intro power_increasing) simp_all
      then show ?thesis using w(3) by (simp add: WORD_BASE_def)
    qed
    then show bI: "below WORD_BASE ?I" by (intro below_kept w(2)) (simp add: pre_def)
    show "word_cnt c = length ?I" "A < 10 ^ c"
    proof -
      have "word_cnt c = length ?I \<and> A < 10 ^ c"
      proof (cases "pre = []")
        case True
        have lk: "length ?I \<le> length ws" using length_kept[of pre ws] True by simp
        have "c = 9 * ?iw - 9 * (?iw - length ?I)" using True w(1) minus_mod_eq_mult_div[of ic 9] by (simp add: c_def)
        moreover have "9 * a - 9 * (a - b) = b * 9" if "b \<le> a" for a b :: nat using that by simp
        ultimately have c: "c = length ?I * 9" using lk w(1) by simp
        have "length ?I \<le> 9" using lI f3 by simp
        then show ?thesis using bval_less[OF bI] vI c by (simp add: WORD_BASE_power mult.commute)
      next
        case False
        then have "?ll \<noteq> 0" "length pre = 1" "length ?I = Suc ?iw" using prl(1) w(1) by (auto simp: pre_def kept_def split: if_splits)
        then show ?thesis using False wc(1) A w(1) by (simp add: c_def)
      qed
      then show "word_cnt c = length ?I" "A < 10 ^ c" by blast+
    qed
  qed
  show ?thesis
  proof (cases "c = 0 \<and> fr = 0")
    case True
    then have "N = 0" using I(4) F N by simp
    moreover have "lead_ok (zero_dec\<lparr>result_frac_cnt := 0\<rparr>)" "trail_ok (zero_dec\<lparr>result_frac_cnt := 0\<rparr>)"
      "negative zero_dec = False" "frac_cnt zero_dec = 0"
      by (simp_all add: lead_ok_def trail_ok_def) (simp_all add: zero_dec_def new_dec_def)
    ultimately show ?thesis using f(5) True unfolding rd
      by (intro exI[of _ "zero_dec\<lparr>result_frac_cnt := 0\<rparr>"]) (auto simp: new_dec_def)
  next
    case False
    let ?d = "?d4\<lparr>result_frac_cnt := fr\<rparr>"
    have sel: "word_buf ?d = filled (?I @ ?Fw)" "int_cnt ?d = c" "frac_cnt ?d = fr" "negative ?d = neg" "result_frac_cnt ?d = fr"
      by (simp_all add: new_dec_def)
    have b: "below WORD_BASE (?I @ ?Fw)" unfolding below_simps using I(2) x(5) by simp
    have l: "length ?I + length ?Fw \<le> 9" using lF lI f3 by linarith
    have p: "0 < int_cnt ?d + frac_cnt ?d" unfolding sel using False by auto
    have "dec_ok ?d" "lead_ok ?d" "trail_ok ?d" "mag ?d = of_nat (A * 10 ^ fr + F) / 10 ^ fr"
      using assembled_dec[of ?d ?I ?Fw A F, OF sel(1) b _ _ l p I(1)] unfolding sel using I(3,4) lF x(4) F by (simp_all only:)
    moreover have "int_cnt ?d4 = c" "frac_cnt ?d4 = fr" by (simp_all add: new_dec_def)
    ultimately show ?thesis unfolding rd unfolding N using False sel(3-5) by (intro exI[of _ ?d]) (simp only: if_False simp_thms)
  qed
qed

section \<open>The two together\<close>

lemma scaled_dec_less:
  assumes "dec_ok d" "fits d prec fr"
  shows "scaled d fr < 10 ^ prec"
proof -
  have f: "fr \<le> prec" "word_cnt fr \<le> 9" "ipart d < 10 ^ (prec - fr)" using assms(2) by (simp_all add: fits_def)
  have "scaled d fr < Suc (ipart d) * 10 ^ fr"
    unfolding scaled_def using frac_fill_facts(3)[OF assms(1) word_cnt_less[OF f(2)]] by simp
  also have "\<dots> \<le> 10 ^ (prec - fr) * 10 ^ fr" using f(3) by (intro mult_le_mono1) simp
  also have "\<dots> = 10 ^ prec" unfolding power_add[symmetric] using f(1) by simp
  finally show ?thesis .
qed

lemma encoded:
  assumes d: "dec_ok d" "lead_ok d" "trail_ok d" "sign_ok d" and ft: "fits d prec fr"
  shows "write_decimal d prec fr = Some ([prec, fr] @ enc_bytes (negative d) True (enc_digits (dec_groups prec fr) (scaled d fr)), Ok ())"
    "scaled d fr < 10 ^ prec" "mag d = of_nat (scaled d fr) / 10 ^ fr" "negative d \<Longrightarrow> scaled d fr \<noteq> 0"
    "0 < prec" "fr \<le> prec" "word_cnt (prec - fr) + word_cnt fr \<le> 9"
proof -
  show f: "0 < prec" "fr \<le> prec" "word_cnt (prec - fr) + word_cnt fr \<le> 9" using ft by (simp_all add: fits_def)
  show "write_decimal d prec fr = Some ([prec, fr] @ enc_bytes (negative d) True (enc_digits (dec_groups prec fr) (scaled d fr)), Ok ())"
    unfolding dec_groups_def dec_bytes_def[symmetric] by (rule write_decimal_ok[OF d(1,2,4) ft])
  show "scaled d fr < 10 ^ prec" by (rule scaled_dec_less[OF d(1) ft])
  have "frac_cnt d \<le> fr" using ft by (simp add: fits_def)
  then show m: "mag d = of_nat (scaled d fr) / 10 ^ fr" using f(3) by (intro scaled_value[OF d(1,3)] word_cnt_less) simp_all
  show "negative d \<Longrightarrow> scaled d fr \<noteq> 0" using d(4) unfolding sign_ok_def m by simp
qed

section \<open>Properties\<close>

text \<open>
  C11: decoding an encoded decimal gives its value back. For a well-formed decimal that is not the
  negative zero and has no digits outside the counted places, and any precision and scale that hold all its digits and fit the buffer, \<open>write_decimal\<close> reports no
  loss, and \<open>read_decimal\<close> on its output (followed by anything) succeeds, consumes exactly the
  written bytes, and returns a well-formed decimal of the same value with the requested scale.\<close>

theorem decimal_codec_roundtrip:
  assumes "dec_ok d" "lead_ok d" "trail_ok d" "sign_ok d" "fits d prec fr"
  shows "\<exists>bs d'. write_decimal d prec fr = Some (bs, Ok ()) \<and> read_decimal (bs @ rest) = Some (Inr (d', rest)) \<and>
    dec_value d' = dec_value d \<and> frac_cnt d' = fr \<and> result_frac_cnt d' = fr \<and> dec_ok d' \<and> lead_ok d' \<and> trail_ok d' \<and> sign_ok d'"
proof -
  note e = encoded[OF assms]
  obtain d' where d': "read_decimal ([prec, fr] @ enc_bytes (negative d) True (enc_digits (dec_groups prec fr) (scaled d fr)) @ rest) = Some (Inr (d', rest))"
    "dec_ok d'" "lead_ok d'" "trail_ok d'" "negative d' = negative d" "mag d' = of_nat (scaled d fr) / 10 ^ fr" "frac_cnt d' = fr" "result_frac_cnt d' = fr"
    using read_decimal_enc[OF e(5-7,2,4), where rest = rest] by blast
  have "mag d' = mag d" using d'(6) e(3) by simp
  then have "dec_value d' = dec_value d" "sign_ok d'" using d'(5) assms(4) by (simp_all add: dec_value_def sign_ok_def)
  then show ?thesis using d' e(1) by auto
qed

theorem decimal_codec_roundtrip_witness:
  "fits (dec_words 12 4 True [123, 456000789, 123400000]) 30 8 \<and>
   (\<exists>bs d'. write_decimal (dec_words 12 4 True [123, 456000789, 123400000]) 30 8 = Some (bs, Ok ()) \<and>
     read_decimal (bs @ [7]) = Some (Inr (d', [7])) \<and> dec_value d' = dec_value (dec_words 12 4 True [123, 456000789, 123400000]))"
proof -
  let ?d = "dec_words 12 4 True [123, 456000789, 123400000]"
  have "dec_ok ?d" "lead_ok ?d" "trail_ok ?d" "sign_ok ?d" "fits ?d 30 8"
    by (simp_all add: dec_words_defs lead_ok_def trail_ok_def mag_def fits_def ipart_def)
  with decimal_codec_roundtrip[of ?d 30 8 "[7]"] show ?thesis by blast
qed

text \<open>
  C12: the encoding is comparable. The encodings of two well-formed decimals, neither of them the
  negative zero nor with digits outside the counted places, at one precision and scale that hold
  the digits of both and fit the buffer (\<open>fits\<close>) compare, byte by byte, exactly as the numbers do,
  across signs and representations.\<close>

theorem decimal_codec_order:
  assumes "dec_ok x" "lead_ok x" "trail_ok x" "sign_ok x" "fits x prec fr"
    and "dec_ok y" "lead_ok y" "trail_ok y" "sign_ok y" "fits y prec fr"
  shows "\<exists>bx by'. write_decimal x prec fr = Some (bx, Ok ()) \<and> write_decimal y prec fr = Some (by', Ok ()) \<and>
    byte_cmp bx by' = cmp_val (dec_value x) (dec_value y)"
proof -
  note ex = encoded[OF assms(1-5)] and ey = encoded[OF assms(6-10)]
  let ?M = "scaled x fr" and ?N = "scaled y fr"
  have v: "dec_value x = of_int (if negative x then - int ?M else int ?M) / 10 ^ fr" "dec_value y = of_int (if negative y then - int ?N else int ?N) / 10 ^ fr"
    unfolding dec_value_def ex(3) ey(3) by auto
  have "cmp_val (if negative x then - 1 - int ?M else int ?M) (if negative y then - 1 - int ?N else int ?N) =
      cmp_val (if negative x then - int ?M else int ?M) (if negative y then - int ?N else int ?N)"
    using ex(4) ey(4) by (auto simp: cmp_val_def)
  also have "\<dots> = cmp_val (dec_value x) (dec_value y)" unfolding v by (simp add: cmp_val_def divide_less_cancel)
  finally show ?thesis using enc_order[OF ex(5,6,2) ey(2)] ex(1) ey(1) by simp
qed

theorem decimal_codec_order_witness:
  "\<exists>bx by'. write_decimal (dec_words 3 1 True [105, 500000000]) 10 4 = Some (bx, Ok ()) \<and>
     write_decimal (dec_words 2 2 True [20, 250000000]) 10 4 = Some (by', Ok ()) \<and> byte_cmp bx by' = Less"
proof -
  let ?x = "dec_words 3 1 True [105, 500000000]" and ?y = "dec_words 2 2 True [20, 250000000]"
  have x: "dec_ok ?x" "lead_ok ?x" "trail_ok ?x" "sign_ok ?x" "fits ?x 10 4"
    by (simp_all add: dec_words_defs lead_ok_def trail_ok_def mag_def fits_def ipart_def)
  have y: "dec_ok ?y" "lead_ok ?y" "trail_ok ?y" "sign_ok ?y" "fits ?y 10 4"
    by (simp_all add: dec_words_defs lead_ok_def trail_ok_def mag_def fits_def ipart_def)
  have "cmp_val (dec_value ?x) (dec_value ?y) = Less" by (simp add: dec_value_def mag_def dec_words_defs)
  then show ?thesis using decimal_codec_order[OF x y] by auto
qed

text \<open>
  An encoding with too small a scale may be unreadable. Writing \<open>1.1234\<close> at scale 3 keeps
  four fraction digits, because three and four digits take the same two bytes, reports success,
  and the decoder rejects the bytes.\<close>

theorem write_decimal_unreadable:
  "write_decimal (dec_words 1 4 False [1, 123400000]) 4 3 = Some ([4, 3, 129, 4, 210], Ok ()) \<and>
   read_decimal [4, 3, 129, 4, 210] = Some (Inl (box_err ''invalid trailing digits for decimal number''))"
proof
  show "write_decimal (dec_words 1 4 False [1, 123400000]) 4 3 = Some ([4, 3, 129, 4, 210], Ok ())" by code_simp
  show "read_decimal [4, 3, 129, 4, 210] = Some (Inl (box_err ''invalid trailing digits for decimal number''))" by code_simp
qed

end
