(* ===== verification/Decimal_Div.thy ===== *)
theory Decimal_Div
  imports Decimal_Text_Correct
begin

text \<open>
  Division and remainder of decimals: \<open>do_div_mod_impl\<close> of \<open>src/berolinasql/src/decimal.rs\<close>, the
  method \<open>div\<close> and the operators \<open>/\<close> and \<open>%\<close>. The outer option of a result is the panic; the
  inner one is the \<open>Option\<close> of the code, whose \<open>None\<close> is a division by zero.
\<close>

section \<open>One step of the long division\<close>

text \<open>The guess of the next word of the quotient, in \<open>i64\<close> arithmetic.\<close>

definition div_correct :: "int \<Rightarrow> int \<Rightarrow> int \<Rightarrow> int \<Rightarrow> int \<Rightarrow> int option" where
  "div_correct r0 r1 x y guess = do {
     a \<leftarrow> scheck 64 (r1 * guess);
     b \<leftarrow> scheck 64 (guess * r0);
     b \<leftarrow> scheck 64 (x - b);
     b \<leftarrow> scheck 64 (b * int WORD_BASE);
     b \<leftarrow> scheck 64 (b + y);
     Some (if a > b then guess - 1 else guess) }"

definition div_guess :: "nat list \<Rightarrow> nat \<Rightarrow> nat list \<Rightarrow> nat \<Rightarrow> nat \<Rightarrow> int \<Rightarrow> int \<Rightarrow> int \<Rightarrow> int option" where
  "div_guess buf l_idx rb r_start r_len norm_factor r_norm dcarry = do {
     w0 \<leftarrow> get_at buf l_idx;
     p \<leftarrow> scheck 64 (dcarry * int WORD_BASE);
     x \<leftarrow> scheck 64 (int w0 + p);
     w1 \<leftarrow> get_at buf (l_idx + 1);
     let y = int w1;
     nx \<leftarrow> scheck 64 (norm_factor * x);
     ny \<leftarrow> scheck 64 (norm_factor * y);
     n \<leftarrow> scheck 64 (nx + sdiv ny (int WORD_BASE));
     let guess = sdiv n r_norm;
     let guess = (if guess \<ge> int WORD_BASE then int WORD_BASE - 1 else guess);
     if r_len > 0
     then do {
       r0 \<leftarrow> get_at rb r_start;
       r1 \<leftarrow> get_at rb (r_start + 1);
       guess \<leftarrow> div_correct (int r0) (int r1) x y guess;
       div_correct (int r0) (int r1) x y guess }
     else Some guess }"

text \<open>The multiplication of the divisor by the guess and its subtraction, \<open>n\<close> words being left.\<close>

fun mul_sub :: "nat list \<Rightarrow> nat \<Rightarrow> nat \<Rightarrow> nat list \<Rightarrow> int \<Rightarrow> nat \<Rightarrow> int \<Rightarrow> (nat list \<times> int) option" where
  "mul_sub rb r_idx l_idx buf guess 0 carry = Some (buf, carry)"
| "mul_sub rb r_idx l_idx buf guess (Suc n) carry = do {
     r \<leftarrow> get_at rb r_idx;
     x \<leftarrow> scheck 64 (guess * int r);
     let hi = sdiv x (int WORD_BASE);
     let lo = x - hi * int WORD_BASE;
     l \<leftarrow> get_at buf l_idx;
     (s, carry) \<leftarrow> sub2_word l (as_unsigned 32 lo) carry;
     buf \<leftarrow> set_at buf l_idx s;
     carry \<leftarrow> scheck 32 (carry + as_signed 32 hi);
     mul_sub rb (r_idx - 1) (l_idx - 1) buf guess n carry }"

text \<open>Adding the divisor back after a guess that was too large.\<close>

fun add_back :: "nat list \<Rightarrow> nat \<Rightarrow> nat \<Rightarrow> nat list \<Rightarrow> nat \<Rightarrow> nat \<Rightarrow> nat list option" where
  "add_back rb r_idx l_idx buf 0 carry = Some buf"
| "add_back rb r_idx l_idx buf (Suc n) carry = do {
     l \<leftarrow> get_at buf l_idx;
     r \<leftarrow> get_at rb r_idx;
     (s, carry) \<leftarrow> add_word l r carry;
     buf \<leftarrow> set_at buf l_idx s;
     add_back rb (r_idx - 1) (l_idx - 1) buf n carry }"

text \<open>One word of the quotient: the guess and the rest of the dividend.\<close>

definition div_step ::
    "nat list \<Rightarrow> nat \<Rightarrow> nat \<Rightarrow> int \<Rightarrow> int \<Rightarrow> nat list \<Rightarrow> nat \<Rightarrow> int \<Rightarrow> (int \<times> nat list) option" where
  "div_step rb r_start r_len norm_factor r_norm buf l_idx dcarry = do {
     w \<leftarrow> get_at buf l_idx;
     r0 \<leftarrow> get_at rb r_start;
     if dcarry = 0 \<and> w < r0 then Some (0, buf)
     else do {
       guess \<leftarrow> div_guess buf l_idx rb r_start r_len norm_factor r_norm dcarry;
       (buf, carry) \<leftarrow> mul_sub rb (r_start + r_len) (l_idx + r_len) buf guess (r_len + 1) 0;
       if dcarry < carry
       then do {
         buf \<leftarrow> add_back rb (r_start + r_len) (l_idx + r_len) buf (r_len + 1) 0;
         Some (guess - 1, buf) }
       else Some (guess, buf) } }"

text \<open>\<open>for idx_to in idx_to..int_word_to + frac_word_to\<close>, \<open>n\<close> words being left.\<close>

fun div_loop ::
    "nat list \<Rightarrow> nat \<Rightarrow> nat \<Rightarrow> int \<Rightarrow> int \<Rightarrow> bool \<Rightarrow> nat \<Rightarrow> nat \<Rightarrow> nat list \<Rightarrow> nat list \<Rightarrow> nat \<Rightarrow> int \<Rightarrow>
     (nat list \<times> nat list \<times> nat \<times> int) option" where
  "div_loop rb r_start r_len nf rn do_mod idx_to 0 qb buf l_idx dcarry = Some (qb, buf, l_idx, dcarry)"
| "div_loop rb r_start r_len nf rn do_mod idx_to (Suc n) qb buf l_idx dcarry = do {
     (guess, buf) \<leftarrow> div_step rb r_start r_len nf rn buf l_idx dcarry;
     qb \<leftarrow> (if do_mod then Some qb else set_at qb idx_to (as_unsigned 32 guess));
     w \<leftarrow> get_at buf l_idx;
     div_loop rb r_start r_len nf rn do_mod (idx_to + 1) n qb buf (l_idx + 1) (as_signed 32 (int w)) }"

section \<open>The remainder\<close>

text \<open>\<open>word_cnt!\<close> on a signed length, which counts no words when it is negative.\<close>

definition word_cnt_i :: "int \<Rightarrow> nat" where
  "word_cnt_i len = (if len \<le> 0 then 0 else word_cnt (nat len))"

text \<open>\<open>while int_word_to < 0 { res.word_buf[idx_to] = 0; .. }\<close>\<close>

fun clear_words :: "nat list \<Rightarrow> nat \<Rightarrow> nat \<Rightarrow> nat list option" where
  "clear_words wb idx 0 = Some wb"
| "clear_words wb idx (Suc n) = do { wb \<leftarrow> set_at wb idx 0; clear_words wb (idx + 1) n }"

text \<open>
  The number of integer words and fraction words of the remainder, the end of its words in the
  dividend buffer, and the words to skip in the result; \<open>Inl\<close> is an early result.
\<close>

definition mod_layout ::
    "decimal \<Rightarrow> nat \<Rightarrow> int \<Rightarrow> nat \<Rightarrow> decimal \<Rightarrow> (decimal res + (nat \<times> nat \<times> nat \<times> nat \<times> decimal)) option" where
  "mod_layout rhs l_idx int_word_to frac_word_to d =
     (if int_word_to = 0 \<and> frac_word_to = 0 then Some (Inl (Ok zero_dec))
      else if int_word_to \<le> 0
      then (if as_unsigned 8 (- int_word_to) \<ge> WORD_BUF_LEN then Some (Inl (Truncated zero_dec))
            else do {
              a \<leftarrow> scheck 8 (as_signed 8 (int l_idx) + int_word_to);
              a \<leftarrow> scheck 8 (a + as_signed 8 (int frac_word_to));
              b \<leftarrow> scheck 8 (as_signed 8 (int frac_word_to) + int_word_to);
              wb \<leftarrow> clear_words (word_buf d) 0 (nat (- int_word_to));
              Some (Inr (0, as_unsigned 8 b, as_unsigned 8 a, nat (- int_word_to), d\<lparr>int_cnt := 0, word_buf := wb\<rparr>)) })
      else if as_unsigned 8 int_word_to > WORD_BUF_LEN
      then Some (Inl (OverCausetxctx (d\<lparr>int_cnt := DIGITS_PER_WORD * WORD_BUF_LEN, frac_cnt := 0\<rparr>)))
      else do {
        s \<leftarrow> uadd 8 (l_idx mod 256) (as_unsigned 8 int_word_to);
        s \<leftarrow> uadd 8 s frac_word_to;
        ic \<leftarrow> umul 8 (as_unsigned 8 int_word_to) DIGITS_PER_WORD;
        Some (Inr (as_unsigned 8 int_word_to, frac_word_to, s, 0, d\<lparr>int_cnt := min ic (int_cnt rhs)\<rparr>)) })"

definition mod_result ::
    "decimal \<Rightarrow> nat \<Rightarrow> nat \<Rightarrow> nat list \<Rightarrow> nat \<Rightarrow> int \<Rightarrow> decimal \<Rightarrow> decimal res option" where
  "mod_result rhs l_prec l_frac_cnt buf l_idx dcarry d = do {
     (buf, l_idx) \<leftarrow> (if dcarry \<noteq> 0
        then do {
          l_idx \<leftarrow> usub l_idx 1;
          buf \<leftarrow> set_at buf l_idx (as_unsigned 32 dcarry);
          Some (buf, l_idx) }
        else Some (buf, l_idx));
     let int_cnt_to = int l_prec - int l_frac_cnt - as_signed 32 (int l_idx) * int DIGITS_PER_WORD;
     let int_word_to = (if int_cnt_to < 0 then as_signed 8 (sdiv int_cnt_to (int DIGITS_PER_WORD)) else int (word_cnt_i int_cnt_to));
     let frac_word_to = word_cnt (frac_cnt d);
     lay \<leftarrow> mod_layout rhs l_idx int_word_to frac_word_to d;
     case lay of
       Inl r \<Rightarrow> Some r
     | Inr (iw, fw, l_stop, idx_to, d) \<Rightarrow> do {
         t \<leftarrow> uadd 8 iw fw;
         (l_stop, r) \<leftarrow> (if t > WORD_BUF_LEN
            then do {
              l_stop \<leftarrow> usub l_stop (t - WORD_BUF_LEN);
              fw \<leftarrow> usub WORD_BUF_LEN iw;
              fc \<leftarrow> usub fw iw;
              Some (l_stop, Truncated (d\<lparr>frac_cnt := fc\<rparr>)) }
            else Some (l_stop, Ok d));
         src \<leftarrow> slice_at buf l_idx l_stop;
         if idx_to + length src \<le> length (word_buf d)
         then Some (res_map (\<lambda>d. d\<lparr>word_buf := take idx_to (word_buf d) @ src @ drop (idx_to + length src) (word_buf d)\<rparr>) r)
         else None } }"

section \<open>The operation\<close>

text \<open>\<open>while rhs.word_buf[r_stop] == 0 && r_stop >= r_start { r_stop -= 1 }\<close>\<close>

fun last_word :: "nat list \<Rightarrow> nat \<Rightarrow> nat \<Rightarrow> nat option" where
  "last_word rb r_start 0 = do { w \<leftarrow> get_at rb 0; if w = 0 \<and> 0 \<ge> r_start then None else Some 0 }"
| "last_word rb r_start (Suc s) = do {
     w \<leftarrow> get_at rb (Suc s);
     if w = 0 \<and> Suc s \<ge> r_start then last_word rb r_start s else Some (Suc s) }"

definition sat_add8 :: "nat \<Rightarrow> nat \<Rightarrow> nat" where
  "sat_add8 a b = min (a + b) 255"

definition sat_mul8 :: "nat \<Rightarrow> nat \<Rightarrow> nat" where
  "sat_mul8 a b = min (a * b) 255"

text \<open>The long division of two nonzero operands.\<close>

definition long_div ::
    "decimal \<Rightarrow> decimal \<Rightarrow> nat \<Rightarrow> bool \<Rightarrow> nat \<Rightarrow> nat \<Rightarrow> nat \<Rightarrow> nat \<Rightarrow> nat \<Rightarrow> nat \<Rightarrow> decimal res option" where
  "long_div lhs rhs frac_incr do_mod r_idx r_prec r_frac_cnt l_idx l_prec l_frac_cnt = do {
     a \<leftarrow> usub l_frac_cnt (frac_cnt lhs);
     a \<leftarrow> uadd 8 a r_frac_cnt;
     a \<leftarrow> usub a (frac_cnt rhs);
     let frac_incr = frac_incr - a;
     let int_cnt_to = (int l_prec - int l_frac_cnt) - (int r_prec - int r_frac_cnt);
     l0 \<leftarrow> get_at (word_buf lhs) l_idx;
     r0 \<leftarrow> get_at (word_buf rhs) r_idx;
     let int_cnt_to = (if l0 \<ge> r0 then int_cnt_to + 1 else int_cnt_to);
     let (int_cnt_to, int_word_to) =
       (if int_cnt_to < 0 then (sdiv int_cnt_to (int DIGITS_PER_WORD), 0) else (int_cnt_to, word_cnt_i int_cnt_to));
     let (int_word_to, frac_word_to, res) =
       (if do_mod then (int_word_to, 0, Ok (new_dec 0 (max (frac_cnt lhs) (frac_cnt rhs)) (negative lhs)))
        else
          let frac_word_to = word_cnt (sat_add8 (sat_add8 l_frac_cnt r_frac_cnt) frac_incr);
              sz = fix_word_cnt_err int_word_to frac_word_to WORD_BUF_LEN;
              (iw, fw) = deref sz
          in (iw, fw, res_map (\<lambda>_. new_dec (iw * DIGITS_PER_WORD) (fw * DIGITS_PER_WORD) (negative lhs \<noteq> negative rhs)) sz));
     let idx_to = (if \<not> do_mod \<and> int_cnt_to < 0 then min (as_unsigned 8 (- int_cnt_to)) WORD_BUF_LEN else 0);
     let i = word_cnt l_prec;
     let l_len = max 3 (i + word_cnt (sat_add8 (sat_add8 (sat_mul8 r_frac_cnt 2) frac_incr) 1) + 1);
     src \<leftarrow> slice_at (word_buf lhs) l_idx (l_idx + i);
     if i \<le> l_len then do {
       let buf = src @ replicate (l_len - i) 0;
       e \<leftarrow> usub (r_idx + word_cnt r_prec) 1;
       r_stop \<leftarrow> last_word (word_buf rhs) r_idx e;
       r_len \<leftarrow> usub r_stop r_idx;
       let norm_factor = int (WORD_BASE div (r0 + 1));
       let r_norm = norm_factor * int r0;
       r_norm \<leftarrow> (if r_len > 0
          then do {
            r1 \<leftarrow> get_at (word_buf rhs) (r_idx + 1);
            Some (r_norm + sdiv (norm_factor * int r1) (int WORD_BASE)) }
          else Some r_norm);
       b0 \<leftarrow> get_at buf 0;
       let (dcarry, k) = (if b0 < r0 then (as_signed 32 (int b0), 1) else (0, 0));
       (qb, buf, k, dcarry) \<leftarrow> div_loop (word_buf rhs) r_idx r_len norm_factor r_norm do_mod idx_to
         (int_word_to + frac_word_to - idx_to) (word_buf (deref res)) buf k dcarry;
       if do_mod then mod_result rhs l_prec l_frac_cnt buf k dcarry (deref res)
       else Some (res_map (\<lambda>d. d\<lparr>word_buf := qb\<rparr>) res) }
     else None }"

definition do_div_mod_impl :: "decimal \<Rightarrow> decimal \<Rightarrow> nat \<Rightarrow> bool \<Rightarrow> decimal res option option" where
  "do_div_mod_impl lhs rhs frac_incr do_mod = do {
     let r_frac_cnt = word_cnt (frac_cnt rhs) * DIGITS_PER_WORD;
     rp \<leftarrow> uadd 8 (int_cnt rhs) r_frac_cnt;
     (r_idx, r_prec) \<leftarrow> remove_leading_zeroes rhs rp;
     if r_prec = 0 then Some None
     else do {
       let l_frac_cnt = word_cnt (frac_cnt lhs) * DIGITS_PER_WORD;
       lp \<leftarrow> uadd 8 (int_cnt lhs) l_frac_cnt;
       (l_idx, l_prec) \<leftarrow> remove_leading_zeroes lhs lp;
       if l_prec = 0 then Some (Some (Ok zero_dec))
       else do {
         r \<leftarrow> long_div lhs rhs frac_incr do_mod r_idx r_prec r_frac_cnt l_idx l_prec l_frac_cnt;
         Some (Some r) } } }"

definition do_div_mod :: "decimal \<Rightarrow> decimal \<Rightarrow> nat \<Rightarrow> bool \<Rightarrow> decimal res option option" where
  "do_div_mod lhs rhs frac_incr do_mod = do_div_mod_impl lhs rhs frac_incr do_mod"

text \<open>The method \<open>div\<close> and the operators.\<close>

definition div_with_incr :: "decimal \<Rightarrow> decimal \<Rightarrow> nat \<Rightarrow> decimal res option option" where
  "div_with_incr l r frac_incr = do {
     let rfc = min (sat_add8 (result_frac_cnt l) frac_incr) MAX_FRACTION;
     q \<leftarrow> do_div_mod l r frac_incr False;
     Some (map_option (res_map (\<lambda>d. d\<lparr>result_frac_cnt := rfc\<rparr>)) q) }"

definition div_dec :: "decimal \<Rightarrow> decimal \<Rightarrow> decimal res option option" where
  "div_dec l r = div_with_incr l r DEFAULT_DIV_FRAC_INCR"

definition rem_dec :: "decimal \<Rightarrow> decimal \<Rightarrow> decimal res option option" where
  "rem_dec l r = do {
     let rfc = max (result_frac_cnt l) (result_frac_cnt r);
     q \<leftarrow> do_div_mod_impl l r 0 True;
     Some (map_option (res_map (\<lambda>d. d\<lparr>result_frac_cnt := rfc\<rparr>)) q) }"

section \<open>Leading zeroes of all digits\<close>

lemma word_cnt_add9: "word_cnt a + b \<le> 9 \<Longrightarrow> word_cnt (a + b * 9) = word_cnt a + b"
proof (cases "a = 0")
  case False
  assume l: "word_cnt a + b \<le> 9"
  define m where "m = a - 1"
  have a: "a = Suc m" using False by (simp add: m_def)
  have "a \<le> 81" using l by (intro word_cnt_less) simp
  then have w: "word_cnt a = Suc (m div 9)" using word_cnt_Suc[of m] a by simp
  then have "m div 9 \<le> 8 - b" "b \<le> 8" using l by simp_all
  then have "m + b * 9 \<le> 80" using div_mult_mod_eq[of m 9] pos_mod9[of m] by linarith
  then show ?thesis using word_cnt_Suc[of "m + b * 9"] w a by simp
qed simp

lemma remove_leading_zeroes_all:
  assumes d: "dec_ok d" "lead_ok d"
  shows "\<exists>wi c. uadd 8 (int_cnt d) (frac_words d * DIGITS_PER_WORD) = Some (int_cnt d + frac_words d * 9) \<and>
    remove_leading_zeroes d (int_cnt d + frac_words d * 9) = Some (wi, c) \<and> wi + word_cnt c = int_words d + frac_words d \<and>
    bval WORD_BASE (used d) < 10 ^ c \<and> (0 < c \<longrightarrow> 10 ^ (c - 1) \<le> bval WORD_BASE (used d))"
proof -
  let ?n = "int_cnt d + frac_words d * 9"
  let ?e = "d\<lparr>int_cnt := ?n, frac_cnt := 0\<rparr>"
  note ok = dec_okD[OF d(1)]
  have wc: "word_cnt ?n = int_words d + frac_words d" using ok(3) by (rule word_cnt_add9)
  have n81: "?n \<le> 81" using wc ok(3) by (intro word_cnt_less) simp
  have ip: "ipart ?e = bval WORD_BASE (used d)" by (simp add: ipart_def used_def wc)
  have e_ok: "dec_ok ?e" using d(1) ok(4) wc by (auto simp: dec_ok_def)
  have "mag ?e = of_nat (bval WORD_BASE (used d))" by (simp add: mag_def used_def wc)
  also have "\<dots> = mag d * of_nat WORD_BASE ^ frac_words d" by (simp add: mag_mult)
  also have "\<dots> < 10 ^ int_cnt d * of_nat WORD_BASE ^ frac_words d" using d(2) by (simp add: lead_ok_def)
  also have "\<dots> = 10 ^ ?n" by (simp add: power_add WORD_BASE_def mult.commute[of _ 9] power_mult)
  finally have "lead_ok ?e" by (simp add: lead_ok_def)
  from remove_leading_zeroes_ok[OF e_ok this] obtain wi c where "remove_leading_zeroes ?e ?n = Some (wi, c)"
    "wi + word_cnt c = int_words d + frac_words d" "bval WORD_BASE (used d) < 10 ^ c" "0 < c \<longrightarrow> 10 ^ (c - 1) \<le> bval WORD_BASE (used d)"
    unfolding ip by (auto simp: wc)
  moreover have "word_buf ?e = word_buf d" by simp
  then have "remove_leading_zeroes ?e ?n = remove_leading_zeroes d ?n" by (simp only: remove_leading_zeroes_def)
  ultimately show ?thesis using n81 by (simp add: uadd_def)
qed

lemma no_digits_iff:
  assumes "dec_ok d" "bval WORD_BASE (used d) < 10 ^ c" "0 < c \<longrightarrow> 10 ^ (c - 1) \<le> bval WORD_BASE (used d)"
  shows "c = 0 \<longleftrightarrow> mag d = 0"
  using assms by (auto simp: mag_def)

section \<open>Properties\<close>

text \<open>
  C35: division by zero is recognised exactly. On well-formed operands the quotient and the
  remainder are \<open>None\<close> when the divisor denotes zero, in whatever representation, and the decimal
  zero when only the dividend does; neither panics there, and a nonzero divisor is never reported
  as zero.\<close>

theorem division_by_zero_exact:
  assumes "dec_ok l" "lead_ok l" "dec_ok r" "lead_ok r"
  shows "(dec_value r = 0 \<longrightarrow> div_dec l r = Some None \<and> rem_dec l r = Some None) \<and>
    (dec_value r \<noteq> 0 \<longrightarrow> div_dec l r \<noteq> Some None \<and> rem_dec l r \<noteq> Some None) \<and>
    (dec_value r \<noteq> 0 \<and> dec_value l = 0 \<longrightarrow>
       (\<exists>q. div_dec l r = Some (Some (Ok q)) \<and> dec_value q = 0) \<and> (\<exists>m. rem_dec l r = Some (Some (Ok m)) \<and> dec_value m = 0))"
proof -
  obtain ri rc where r: "uadd 8 (int_cnt r) (frac_words r * DIGITS_PER_WORD) = Some (int_cnt r + frac_words r * 9)"
    "remove_leading_zeroes r (int_cnt r + frac_words r * 9) = Some (ri, rc)" "rc = 0 \<longleftrightarrow> mag r = 0"
    using remove_leading_zeroes_all[OF assms(3,4)] no_digits_iff[OF assms(3)] by metis
  obtain li lc where l: "uadd 8 (int_cnt l) (frac_words l * DIGITS_PER_WORD) = Some (int_cnt l + frac_words l * 9)"
    "remove_leading_zeroes l (int_cnt l + frac_words l * 9) = Some (li, lc)" "lc = 0 \<longleftrightarrow> mag l = 0"
    using remove_leading_zeroes_all[OF assms(1,2)] no_digits_iff[OF assms(1)] by metis
  have v: "dec_value r = 0 \<longleftrightarrow> rc = 0" "dec_value l = 0 \<longleftrightarrow> lc = 0" using r(3) l(3) by (simp_all add: dec_value_def)
  have core: "do_div_mod_impl l r i m = (if rc = 0 then Some None else if lc = 0 then Some (Some (Ok zero_dec))
      else map_option Some (long_div l r i m ri rc (frac_words r * DIGITS_PER_WORD) li lc (frac_words l * DIGITS_PER_WORD)))" for i m
    unfolding do_div_mod_impl_def Let_def r(1,2) l(1,2) bind.bind_lunit case_prod_conv r(2) l(2) by (simp add: map_conv_bind_option comp_def)
  have z: "dec_value (zero_dec\<lparr>result_frac_cnt := k\<rparr>) = 0" for k by (simp add: dec_value_def)
  show ?thesis unfolding v div_dec_def div_with_incr_def do_div_mod_def rem_dec_def Let_def core
    using z by (auto simp: map_conv_bind_option split: bind_splits)
qed

theorem division_by_zero_exact_witness:
  "dec_value (dec_words 0 3 True [0]) = 0 \<and> div_dec (dec_words 2 1 False [10, 500000000]) (dec_words 0 3 True [0]) = Some None \<and>
   rem_dec (dec_words 2 1 False [10, 500000000]) (dec_words 0 3 True [0]) = Some None"
proof -
  let ?l = "dec_words 2 1 False [10, 500000000]" and ?r = "dec_words 0 3 True [0]"
  have "dec_ok ?l" "lead_ok ?l" "dec_ok ?r" "lead_ok ?r"
    by (simp_all add: dec_words_defs lead_ok_def mag_def)
  moreover have "dec_value ?r = 0" by (simp add: dec_value_def mag_def dec_words_defs)
  ultimately show ?thesis using division_by_zero_exact[of ?l ?r] by blast
qed

end
