(* ===== verification/Decimal_Div_Guess.thy ===== *)
theory Decimal_Div_Guess
  imports Decimal_Div
begin

text \<open>
  The guess of a quotient word in \<open>do_div_mod_impl\<close> of \<open>src/berolinasql/src/decimal.rs\<close>: the
  estimate from the normalised leading words is at most two too large, the two corrections make
  it the quotient of the three leading words of the dividend by the two of the divisor, which
  exceeds the quotient word by at most one. All intermediate values fit 64 bits.
\<close>

section \<open>The estimate\<close>

lemma norm_half:
  fixes b r0 :: int
  assumes "1 \<le> r0" "r0 < b" "even b"
  shows "b \<le> 2 * (r0 * (b div (r0 + 1)))"
proof -
  let ?k = "b div (r0 + 1)"
  have k: "b < ?k * (r0 + 1) + (r0 + 1)" "?k * (r0 + 1) \<le> b"
    using assms pos_mod_bound[of "r0 + 1" b] pos_mod_sign[of "r0 + 1" b] div_mult_mod_eq[of b "r0 + 1"] by linarith+
  have k1: "1 \<le> ?k" using assms by (simp add: pos_imp_zdiv_pos_iff int_one_le_iff_zero_less)
  have "0 \<le> (r0 - 1) * (?k - 1)" using assms k1 by simp
  then have "b - 1 \<le> 2 * (r0 * ?k)" using k(1) by (simp add: algebra_simps)
  moreover have "b - 1 \<noteq> 2 * (r0 * ?k)" using assms(3) by presburger
  ultimately show ?thesis by linarith
qed

lemma div_mono_scale:
  fixes a b c n :: int
  assumes "0 < b" "0 < n div b" "0 \<le> p" "p * n \<le> a"
  shows "p \<le> (a div b) div (n div b)"
proof -
  have "p * (n div b) * b \<le> p * n" using assms by (metis div_mult_mod_eq mult.assoc mult_left_mono pos_mod_sign add_increasing2 le_add_same_cancel1)
  then have "p * (n div b) \<le> a div b" using assms by (metis order_trans zdiv_mono1 nonzero_mult_div_cancel_right less_imp_neq)
  then show ?thesis using assms(2) by (metis zdiv_mono1 nonzero_mult_div_cancel_right less_imp_neq)
qed

lemma estimate_ge:
  fixes X V nf b :: int
  assumes "0 < b" "0 < (nf * V) div b" "0 \<le> X" "0 < V" "0 \<le> nf"
  shows "X div V \<le> (nf * X div b) div (nf * V div b)"
proof (rule div_mono_scale)
  have "X div V * V \<le> X" using assms(4) by (metis div_mult_mod_eq le_add_same_cancel1 pos_mod_sign)
  then have "nf * (X div V * V) \<le> nf * X" using assms(5) by (rule mult_left_mono)
  then show "X div V * (nf * V) \<le> nf * X" by (simp add: ac_simps)
qed (use assms in \<open>simp_all add: pos_imp_zdiv_nonneg_iff\<close>)

lemma estimate_le:
  fixes X V nf b g :: int
  assumes "0 < b" "0 < (nf * V) div b" "0 < nf" "b * b \<le> 2 * (nf * V)"
    "0 \<le> g" "g \<le> b" "g \<le> (nf * X div b) div (nf * V div b)"
  shows "(g - 2) * V \<le> X"
proof -
  let ?N = "nf * X div b" and ?D = "nf * V div b"
  have "g * ?D \<le> ?N div ?D * ?D" using assms by (intro mult_right_mono) simp_all
  also have "\<dots> \<le> ?N" using assms(2) by (metis div_mult_mod_eq le_add_same_cancel1 pos_mod_sign)
  finally have 1: "g * ?D * b \<le> ?N * b" using assms(1) by simp
  have "?N * b \<le> nf * X" using assms(1) by (metis div_mult_mod_eq le_add_same_cancel1 pos_mod_sign)
  with 1 have 1: "g * (?D * b) \<le> nf * X" by (simp add: mult.assoc)
  have "nf * V \<le> ?D * b + b" using assms(1) pos_mod_bound[of b "nf * V"] div_mult_mod_eq[of "nf * V" b] by linarith
  then have "g * (nf * V) \<le> g * (?D * b + b)" using assms(5) by (rule mult_left_mono)
  also have "\<dots> = g * (?D * b) + g * b" by (simp add: algebra_simps)
  finally have "g * (nf * V) \<le> nf * X + g * b" using 1 by linarith
  moreover have "g * b \<le> b * b" using assms by (intro mult_right_mono) simp_all
  ultimately have "g * (nf * V) \<le> nf * X + 2 * (nf * V)" using assms(4) by linarith
  then have "nf * ((g - 2) * V) \<le> nf * X" by (simp add: algebra_simps)
  then show ?thesis using assms(3) by (simp only: mult_le_cancel_left_pos)
qed

text \<open>One correction of the guess, as a function on integers.\<close>

definition corrected :: "int \<Rightarrow> int \<Rightarrow> int \<Rightarrow> int" where
  "corrected X V g = (if g * V > X then g - 1 else g)"

lemma le_div_iff_mult: "0 < (V::int) \<Longrightarrow> g \<le> X div V \<longleftrightarrow> g * V \<le> X"
  by (metis div_mult_mod_eq le_add_same_cancel1 mult_right_mono nonzero_mult_div_cancel_right order.trans pos_mod_sign zdiv_mono1 less_le not_less)

lemma corrected_twice:
  assumes "0 < V" "min (X div V) m \<le> g" "g \<le> m" "(g - 2) * V \<le> X"
  shows "corrected X V (corrected X V g) = min (X div V) m"
proof -
  have c: "corrected X V h = (if h \<le> X div V then h else h - 1)" for h
    using le_div_iff_mult[OF assms(1), of h X] by (simp add: corrected_def)
  have "g - 2 \<le> X div V" using assms(1,4) by (simp add: le_div_iff_mult)
  then show ?thesis using assms(2,3) unfolding c by (simp add: min_def split: if_splits)
qed

text \<open>The guess exceeds the quotient word by at most one.\<close>

lemma quotient_digit:
  fixes X V M t v :: int
  assumes "0 \<le> X" "0 \<le> t" "t < M" "0 \<le> v" "v < M" "b \<le> V" "0 < b" "X * M + t < (V * M + v) * b"
    and p: "p = min (X div V) (b - 1)"
  shows "(X * M + t) div (V * M + v) \<le> p" "p \<le> (X * M + t) div (V * M + v) + 1"
proof -
  let ?T = "X * M + t" and ?R = "V * M + v" and ?q = "(X * M + t) div (V * M + v)"
  have M: "0 < M" and V: "0 < V" using assms by linarith+
  then have R: "0 < ?R" using assms(4) by (simp add: add_pos_nonneg)
  have T0: "0 \<le> ?T" using assms M by simp
  have q0: "0 \<le> ?q" using T0 R by (simp add: pos_imp_zdiv_nonneg_iff)
  have q: "?q * ?R \<le> ?T" using le_div_iff_mult[OF R, of ?q ?T] by simp
  have "?q * (V * M) \<le> ?q * ?R" using q0 assms(4) by (intro mult_left_mono) simp_all
  with q have "?q * V * M < (X + 1) * M" using assms(3) by (simp add: algebra_simps)
  then have "?q * V < X + 1" using M by (simp only: mult_less_cancel_right_pos)
  then have "?q \<le> X div V" using V by (simp add: le_div_iff_mult)
  moreover have "?q * ?R < b * ?R" using q assms(8) by (simp only: mult.commute[of b])
  then have "?q \<le> b - 1" using R by (simp only: mult_less_cancel_right_pos)
  ultimately show "?q \<le> p" using p by simp
  have "p * V \<le> X" using p V by (simp add: le_div_iff_mult[symmetric])
  then have 1: "p * V * M \<le> X * M" using M by simp
  have p0: "0 \<le> p" using p assms V by (simp add: pos_imp_zdiv_nonneg_iff)
  have "p * v \<le> p * M" using p0 assms by (intro mult_left_mono) simp_all
  moreover have "p * M \<le> V * M" using p assms M by (intro mult_right_mono) simp_all
  ultimately have "p * v - V * M \<le> 0" by linarith
  then have "(p - 1) * ?R \<le> ?T" using 1 assms(2,4) by (simp add: algebra_simps)
  then show "p \<le> ?q + 1" using le_div_iff_mult[OF R, of "p - 1" ?T] by simp
qed

section \<open>The guess of the code\<close>

lemma scheck64: "\<bar>x\<bar> \<le> 9000000000000000000 \<Longrightarrow> scheck 64 x = Some x"
  by (auto simp: scheck_def in_signed_def abs_le_iff)

lemma div_correct_ok:
  assumes "1 \<le> r0" "r0 < 1000000000" "0 \<le> r1" "r1 < 1000000000" "0 \<le> y" "y < 1000000000"
    "0 \<le> g" "g < 1000000000" "0 \<le> x" "\<bar>x - g * r0\<bar> \<le> 4000000000"
  shows "div_correct r0 r1 x y g = Some (corrected (x * 1000000000 + y) (r0 * 1000000000 + r1) g)"
proof -
  have a: "0 \<le> r1 * g" "r1 * g \<le> 1000000000 * 1000000000" "0 \<le> g * r0" "g * r0 \<le> 1000000000 * 1000000000"
    using assms by (intro mult_mono mult_nonneg_nonneg; simp)+
  have "\<bar>(x - g * r0) * 1000000000 + y\<bar> \<le> 4000000001000000000" "\<bar>(x - g * r0) * 1000000000\<bar> \<le> 4000000000000000000"
    using assms by (simp_all add: abs_le_iff)
  moreover have "r1 * g > (x - g * r0) * 1000000000 + y \<longleftrightarrow> g * (r0 * 1000000000 + r1) > x * 1000000000 + y"
    by (simp add: algebra_simps)
  ultimately show ?thesis using a assms
    by (simp add: div_correct_def WORD_BASE_def scheck64 corrected_def abs_le_iff del: mult_less_cancel_left)
qed

lemma guess_difference:
  fixes x y r0 r1 g :: int
  assumes r: "1 \<le> r0" "r0 < 1000000000" "0 \<le> r1" "r1 < 1000000000" and xy: "0 \<le> y" "y < 1000000000" "0 \<le> x"
    and x: "x < (r0 + 1) * 1000000000"
    and g: "0 \<le> g" "g < 1000000000" "min ((x * 1000000000 + y) div (r0 * 1000000000 + r1)) 999999999 \<le> g"
      "(g - 2) * (r0 * 1000000000 + r1) \<le> x * 1000000000 + y"
  shows "\<bar>x - g * r0\<bar> \<le> 4000000000"
proof -
  let ?V = "r0 * 1000000000 + r1" and ?X = "x * 1000000000 + y"
  have V: "0 < ?V" using r by simp
  have "x - g * r0 \<le> 4000000000"
  proof (cases "g = 999999999")
    case False
    then have "?X div ?V < g + 1" using g by simp
    then have "?X < (g + 1) * ?V" using le_div_iff_mult[OF V, of "g + 1" ?X] by linarith
    moreover have "(g + 1) * r1 \<le> 1000000000 * 1000000000" using g r by (intro mult_mono) simp_all
    ultimately have "(x - g * r0) * 1000000000 \<le> 2000000000 * 1000000000" using r xy by (simp add: algebra_simps)
    then show ?thesis by simp
  qed (use x r in simp)
  moreover have "- 4000000000 \<le> x - g * r0"
  proof (cases "g \<le> 2")
    case True
    then have "g * r0 \<le> 2 * r0" using r by (intro mult_right_mono) simp_all
    then show ?thesis using r xy by linarith
  next
    case False
    then have "0 \<le> (g - 2) * r1" using r by simp
    then have "(g - 2) * r0 * 1000000000 < (x + 1) * 1000000000" using g(4) xy by (simp add: algebra_simps)
    then have "(g - 2) * r0 < x + 1" by simp
    then show ?thesis using r by (simp add: algebra_simps)
  qed
  ultimately show ?thesis by (simp add: abs_le_iff)
qed

lemma div_correct_twice:
  assumes r: "1 \<le> r0" "r0 < 1000000000" "0 \<le> r1" "r1 < 1000000000" and xy: "0 \<le> y" "y < 1000000000" "0 \<le> x"
    "x < (r0 + 1) * 1000000000"
    and g: "0 \<le> g" "g < 1000000000" "min ((x * 1000000000 + y) div (r0 * 1000000000 + r1)) 999999999 \<le> g"
      "(g - 2) * (r0 * 1000000000 + r1) \<le> x * 1000000000 + y"
  shows "div_correct r0 r1 x y g \<bind> div_correct r0 r1 x y =
    Some (min ((x * 1000000000 + y) div (r0 * 1000000000 + r1)) 999999999)"
proof -
  let ?V = "r0 * 1000000000 + r1" and ?X = "x * 1000000000 + y"
  have V: "0 < ?V" using r by simp
  define h where "h = corrected ?X ?V g"
  have X0: "0 \<le> ?X" using xy by simp
  have p0: "0 \<le> min (?X div ?V) 999999999" using X0 V by (simp add: pos_imp_zdiv_nonneg_iff)
  have h: "h \<le> g" "(h - 2) * ?V \<le> ?X" "min (?X div ?V) 999999999 \<le> h"
    using g V le_div_iff_mult[OF V, of g ?X] by (auto simp: h_def corrected_def algebra_simps min_def)
  have h0: "0 \<le> h" "h < 1000000000" using h p0 g by linarith+
  have "div_correct r0 r1 x y g = Some h" unfolding h_def
    using guess_difference[OF r xy g] r xy g by (intro div_correct_ok) simp_all
  moreover have "div_correct r0 r1 x y h = Some (corrected ?X ?V h)"
    using guess_difference[OF r xy h0 h(3,2)] r xy h0 by (intro div_correct_ok) simp_all
  moreover have "corrected ?X ?V h = min (?X div ?V) 999999999"
    unfolding h_def using V g by (intro corrected_twice) simp_all
  ultimately show ?thesis by simp
qed

text \<open>The normalising factor and the normalised divisor.\<close>

lemma norm_factor_bounds:
  fixes r0 nf :: int
  assumes "1 \<le> r0" "r0 < 1000000000" "nf = 1000000000 div (r0 + 1)"
  shows "1 \<le> nf" "nf \<le> 1000000000" "nf * (r0 + 1) \<le> 1000000000" "1000000000 \<le> 2 * (nf * r0)"
proof -
  show "1 \<le> nf" using assms by (simp add: int_one_le_iff_zero_less pos_imp_zdiv_pos_iff)
  show "nf \<le> 1000000000" using assms zdiv_mono2[of 1000000000 1 "r0 + 1"] by simp
  show "nf * (r0 + 1) \<le> 1000000000" using assms le_div_iff_mult[of "r0 + 1" nf 1000000000] by simp
  show "1000000000 \<le> 2 * (nf * r0)" using norm_half[of r0 1000000000] assms by (simp add: mult.commute)
qed

lemma split_scale: "(nf * (x * b + y)) div b = nf * x + nf * y div b" if "0 < b" for nf x y b :: int
proof -
  have "nf * (x * b + y) = nf * y + nf * x * b" by (simp add: algebra_simps)
  then show ?thesis using that by simp
qed

definition word_quotient :: "nat list \<Rightarrow> nat \<Rightarrow> nat list \<Rightarrow> nat \<Rightarrow> nat \<Rightarrow> int \<Rightarrow> int" where
  "word_quotient buf k rb r_start r_len dcarry =
     (let x = dcarry * 1000000000 + int (buf ! k) in
      if r_len = 0 then x div int (rb ! r_start)
      else (x * 1000000000 + int (buf ! (k + 1))) div (int (rb ! r_start) * 1000000000 + int (rb ! (r_start + 1))))"

lemma div_guess_ok:
  assumes b: "k + 1 < length buf" "below WORD_BASE buf" and r: "r_start + r_len < length rb" "below WORD_BASE rb"
    and r0: "1 \<le> rb ! r_start" and c: "0 \<le> c" "c \<le> int (rb ! r_start)"
    and nf: "nf = int (WORD_BASE div (rb ! r_start + 1))"
    and rn: "rn = nf * int (rb ! r_start) + (if r_len > 0 then nf * int (rb ! (r_start + 1)) div int WORD_BASE else 0)"
  shows "div_guess buf k rb r_start r_len nf rn c = Some (min (word_quotient buf k rb r_start r_len c) 999999999)"
proof -
  define d0 d1 w y where "d0 = int (rb ! r_start)" "d1 = (if r_len > 0 then int (rb ! (r_start + 1)) else 0)"
    "w = int (buf ! k)" "y = int (buf ! (k + 1))"
  note defs = this
  define x where "x = c * 1000000000 + w"
  let ?X = "x * 1000000000 + y" and ?V = "d0 * 1000000000 + d1"
  have wb: "buf ! k < 1000000000" "buf ! (k + 1) < 1000000000" "rb ! r_start < 1000000000"
    "r_len > 0 \<Longrightarrow> rb ! (r_start + 1) < 1000000000"
    using b r below_nth[of WORD_BASE buf] below_nth[of WORD_BASE rb] by (simp_all add: WORD_BASE_def)
  have d: "1 \<le> d0" "d0 < 1000000000" "0 \<le> d1" "d1 < 1000000000" "0 \<le> y" "y < 1000000000" "0 \<le> w" "w < 1000000000"
    using wb r0 by (auto simp: defs)
  have x: "0 \<le> x" "x < (d0 + 1) * 1000000000" using c d by (simp_all add: x_def defs(1)[symmetric])
  have nf': "nf = 1000000000 div (d0 + 1)" by (simp add: nf defs(1) WORD_BASE_def zdiv_int ac_simps)
  note n = norm_factor_bounds[OF d(1,2) nf']
  have "nf * x \<le> nf * ((d0 + 1) * 1000000000)" using n x by (intro mult_left_mono) simp_all
  also have "\<dots> = nf * (d0 + 1) * 1000000000" by simp
  also have "\<dots> \<le> 1000000000 * 1000000000" using n by (intro mult_right_mono) simp_all
  finally have nx: "0 \<le> nf * x" "nf * x \<le> 1000000000000000000" using n x by simp_all
  have ny: "0 \<le> nf * y" "nf * y \<le> 1000000000 * 1000000000" using n d by (intro mult_nonneg_nonneg mult_mono; simp)+
  have "nf * d1 div 1000000000 \<ge> 0" using n d by (simp add: pos_imp_zdiv_nonneg_iff)
  moreover have rn': "rn = nf * d0 + nf * d1 div 1000000000" using rn by (simp add: defs(1,2) WORD_BASE_def)
  ultimately have rn0: "0 < rn" using n by linarith
  have rnV: "rn = nf * ?V div 1000000000" unfolding rn' by (rule split_scale[symmetric]) simp
  have yq: "0 \<le> nf * y div 1000000000" "nf * y div 1000000000 \<le> 1000000000"
    using ny zdiv_mono1[of "nf * y" "1000000000 * 1000000000" 1000000000] by (simp_all add: pos_imp_zdiv_nonneg_iff)
  have num: "nf * x + nf * y div 1000000000 = nf * ?X div 1000000000" by (rule split_scale[symmetric]) simp
  let ?g = "nf * ?X div 1000000000 div rn"
  have X0: "0 \<le> nf * ?X div 1000000000" using nx yq num by linarith
  have g: "sdiv (nf * ?X div 1000000000) rn = ?g" "0 \<le> ?g"
    using rn0 X0 by (simp_all add: sdiv_pos pos_imp_zdiv_nonneg_iff)
  have c9: "c \<le> 1000000000" "\<bar>c * 1000000000\<bar> \<le> 1000000000000000000" "\<bar>w + c * 1000000000\<bar> \<le> 2000000000000000000"
    using c d by (simp_all add: defs(1)[symmetric] abs_le_iff)
  have num': "\<bar>nf * ?X div 1000000000\<bar> \<le> 9000000000000000000" using nx yq num by linarith
  have guess: "div_guess buf k rb r_start r_len nf rn c =
     (let g = min ?g 999999999 in
      if r_len > 0 then div_correct d0 d1 x y g \<bind> div_correct d0 d1 x y else Some g)"
  proof -
    have m: "(if 1000000000 \<le> ?g then 1000000000 - 1 else ?g) = min ?g 999999999" by (simp add: min_def)
    have xw: "w + c * 1000000000 = x" by (simp add: x_def)
    have sy: "sdiv (nf * y) 1000000000 = nf * y div 1000000000" using ny by (simp add: sdiv_pos)
    have yw: "int (buf ! Suc k) = y" by (simp add: defs)
    have r1: "r_len > 0 \<Longrightarrow> int (rb ! Suc r_start) = d1" by (simp add: defs(2))
    show ?thesis using b r c9 nx ny num' unfolding div_guess_def Let_def
      by (simp add: get_at_def defs(1,3,4)[symmetric] WORD_BASE_def scheck64 xw sy num g(1) m r1 yw cong: if_cong)
  qed
  show ?thesis
  proof (cases "r_len = 0")
    case True
    then have d1: "d1 = 0" by (simp add: defs)
    have "nf * y < nf * 1000000000" using n d by (intro mult_strict_left_mono) simp_all
    then have "\<not> nf \<le> nf * y div 1000000000" by (simp add: le_div_iff_mult)
    then have "(nf * y div 1000000000 + x * nf) div nf = x" using yq(1) n by simp
    then have "(nf * y div 1000000000 + x * nf) div (nf * d0) = x div d0" using d by (simp add: zdiv_zmult2_eq)
    then show ?thesis using True guess rn' d1 num by (simp add: word_quotient_def x_def defs(1,3)[symmetric] ac_simps)
  next
    case False
    have V: "0 < ?V" using d by simp
    have "2 * (nf * ?V) = 2 * (nf * d0) * 1000000000 + 2 * (nf * d1)" by (simp add: algebra_simps)
    moreover have "0 \<le> nf * d1" using n d by simp
    ultimately have half: "1000000000 * 1000000000 \<le> 2 * (nf * ?V)" using n by linarith
    have lo: "?X div ?V \<le> ?g" unfolding rnV using rn0 rnV n d x V by (intro estimate_ge) simp_all
    have hi: "(min ?g 999999999 - 2) * ?V \<le> ?X"
      using rn0 n half g(2) unfolding rnV by (intro estimate_le[where b = 1000000000 and nf = nf]) simp_all
    have "div_correct d0 d1 x y (min ?g 999999999) \<bind> div_correct d0 d1 x y = Some (min (?X div ?V) 999999999)"
      using d x g(2) lo hi by (intro div_correct_twice) simp_all
    moreover have "int (buf ! Suc k) = y" "int (rb ! Suc r_start) = d1" using False by (simp_all add: defs)
    ultimately show ?thesis using False guess by (simp add: word_quotient_def x_def defs(1,3)[symmetric] Let_def)
  qed
qed

end
