(* ===== verification/Decimal_Div_Step.thy ===== *)
theory Decimal_Div_Step
  imports Decimal_Div_Guess
begin

text \<open>
  One step of the long division in \<open>do_div_mod_impl\<close> of \<open>src/berolinasql/src/decimal.rs\<close>: the
  multiplication of the divisor by the guess and its subtraction, the addition back, and the
  step they make up, which replaces a window of the dividend by its remainder and returns the
  quotient word.
\<close>

section \<open>Multiply and subtract, add back\<close>

lemma as_unsigned_32_nat: "0 \<le> x \<Longrightarrow> x < 4294967296 \<Longrightarrow> as_unsigned 32 x = nat x"
  by (simp add: as_unsigned_def)

lemma sub2_word_ok:
  assumes "l < WORD_BASE" "lo < WORD_BASE" "0 \<le> c" "c < int WORD_BASE"
  obtains s b where "sub2_word l lo c = Some (s, b)" "s < WORD_BASE" "0 \<le> b" "b \<le> 2"
    "int s - b * int WORD_BASE = int l - int lo - c"
proof -
  let ?d = "int l - int lo - c"
  have n: "l < 1000000000" "lo < 1000000000" "0 \<le> c" "c < 1000000000" using assms by (simp_all add: WORD_BASE_def)
  have v: "sub2_word l lo c = Some
      (if ?d < - 1000000000 then (as_unsigned 32 (?d + 2000000000), 2)
       else if ?d < 0 then (as_unsigned 32 (?d + 1000000000), 1) else (as_unsigned 32 ?d, 0))"
    using n by (simp add: sub2_word_def as_signed_small scheck_def in_signed_def WORD_BASE_def algebra_simps)
  show thesis using n v that[of "nat (?d + 2000000000)" 2] that[of "nat (?d + 1000000000)" 1] that[of "nat ?d" 0]
    by (auto simp: as_unsigned_32_nat WORD_BASE_def split: if_splits)
qed

lemma seg_last: "r + n < length rb \<Longrightarrow>
    bval b (take (Suc n) (drop r rb)) = bval b (take n (drop r rb)) * b + rb ! (r + n)"
  by (simp add: seg_Suc bval_append)

lemma seg_less:
  assumes "below b ws" "0 < b"
  shows "bval b (take j (drop i ws)) < b ^ j"
proof -
  have "bval b (take j (drop i ws)) < b ^ length (take j (drop i ws))" using assms by (intro bval_less) auto
  also have "\<dots> \<le> b ^ j" using assms(2) by (intro power_increasing) simp_all
  finally show ?thesis .
qed

lemma seg_hd: "i < length xs \<Longrightarrow> take (Suc j) (drop i xs) = xs ! i # take j (drop (Suc i) xs)"
  by (metis Cons_nth_drop_Suc take_Suc_Cons)

lemma seg_head:
  assumes "i + m < length xs"
  shows "bval b (take (Suc m) (drop i xs)) = xs ! i * b ^ m + bval b (take m (drop (Suc i) xs))"
proof -
  have "length (take m (drop (Suc i) xs)) = m" using assms by simp
  then show ?thesis using assms by (simp add: seg_hd del: length_take)
qed

lemma mul_sub_ok:
  assumes "below WORD_BASE rb" "0 \<le> g" "g < int WORD_BASE"
  shows "length pre = q \<Longrightarrow> length old = n \<Longrightarrow> below WORD_BASE old \<Longrightarrow> r + n \<le> length rb \<Longrightarrow>
    0 \<le> c \<Longrightarrow> c < int WORD_BASE \<Longrightarrow>
    \<exists>c' zs. mul_sub rb (r + n - 1) (q + n - 1) (pre @ old @ post) g n c = Some (pre @ zs @ post, c') \<and>
      length zs = n \<and> below WORD_BASE zs \<and> 0 \<le> c' \<and>
      int (bval WORD_BASE zs) - c' * int WORD_BASE ^ n =
      int (bval WORD_BASE old) - g * int (bval WORD_BASE (take n (drop r rb))) - c"
proof (induction n arbitrary: old post c)
  case (Suc n)
  obtain old' l where old: "old = old' @ [l]" "length old' = n" using split_last Suc.prems(2) by blast
  have l: "l < WORD_BASE" "below WORD_BASE old'" using Suc.prems(3) old by simp_all
  define d where "d = rb ! (r + n)"
  have d: "d < WORD_BASE" "r + n < length rb" using Suc.prems below_nth[OF assms(1)] by (simp_all add: d_def)
  define x hi lo where "x = g * int d" "hi = x div 1000000000" "lo = x mod 1000000000"
  note defs = this
  have gd: "0 \<le> g" "g \<le> 999999999" "int d \<le> 999999999" using assms d by (simp_all add: WORD_BASE_def)
  have x: "0 \<le> x" "x \<le> 999999999 * 999999999" using gd unfolding defs by (intro mult_nonneg_nonneg mult_mono; simp)+
  have hi: "0 \<le> hi" "hi \<le> 999999999" using x zdiv_mono1[of x "999999999 * 999999999" 1000000000] by (simp_all add: defs)
  have lo: "0 \<le> lo" "lo < 1000000000" "x = hi * 1000000000 + lo" by (simp_all add: defs)
  obtain s b where s: "sub2_word l (nat lo) c = Some (s, b)" "s < WORD_BASE" "0 \<le> b" "b \<le> 2"
      "int s - b * int WORD_BASE = int l - int (nat lo) - c"
    using l(1) lo Suc.prems by (rule_tac sub2_word_ok[of l "nat lo" c]) (simp_all add: WORD_BASE_def)
  have se: "int s - (b + hi) * 1000000000 = int l - x - c" using s(5) lo by (simp add: WORD_BASE_def)
  then have "(b + hi) * 1000000000 \<le> 999999999 + 999999999 * 999999999 + 999999999"
    using s(2) x Suc.prems(6) by (simp add: WORD_BASE_def)
  then have c1: "0 \<le> b + hi" "b + hi < 1000000000" using s hi by simp_all
  have set: "set_at (pre @ old @ post) (q + n) s = Some (pre @ old' @ s # post)"
    using set_at_mid[of "q + n" "pre @ old'"] Suc.prems old by simp
  have get: "get_at (pre @ old @ post) (q + n) = Some l" "get_at rb (r + n) = Some d"
    using get_at_mid[of "q + n" "pre @ old'"] Suc.prems old d by (simp_all add: get_at_def d_def)
  have hi32: "as_signed 32 hi = hi" by (rule as_signed_id) (use hi in \<open>simp_all add: in_signed_def\<close>)
  have step: "mul_sub rb (r + Suc n - 1) (q + Suc n - 1) (pre @ old @ post) g (Suc n) c =
      mul_sub rb (r + n - 1) (q + n - 1) (pre @ old' @ s # post) g n (b + hi)"
  proof -
    have a: "scheck 64 (g * int d) = Some x" using x by (simp add: defs scheck64)
    have e: "sdiv x (int WORD_BASE) = hi" "x - hi * int WORD_BASE = lo" "as_unsigned 32 lo = nat lo"
      using x lo(1,2) by (simp add: sdiv_pos WORD_BASE_def defs(2)) (use lo in \<open>simp_all add: WORD_BASE_def as_unsigned_32_nat\<close>)
    have f: "scheck 32 (b + hi) = Some (b + hi)" using c1 by (simp add: scheck_def in_signed_def)
    show ?thesis by (simp add: get a e s(1) set hi32 f Let_def)
  qed
  from Suc.IH[of old' "b + hi" "s # post"] Suc.prems old l c1 obtain c' zs where
    IH: "mul_sub rb (r + n - 1) (q + n - 1) (pre @ old' @ s # post) g n (b + hi) = Some (pre @ zs @ s # post, c')"
      "length zs = n" "below WORD_BASE zs" "0 \<le> c'"
      "int (bval WORD_BASE zs) - c' * int WORD_BASE ^ n =
        int (bval WORD_BASE old') - g * int (bval WORD_BASE (take n (drop r rb))) - (b + hi)"
    by (auto simp: WORD_BASE_def)
  have "int (bval WORD_BASE (zs @ [s])) - c' * int WORD_BASE ^ Suc n =
      (int (bval WORD_BASE zs) - c' * int WORD_BASE ^ n) * int WORD_BASE + int s"
    by (simp add: bval_append algebra_simps)
  also have "\<dots> = int (bval WORD_BASE old) - g * int (bval WORD_BASE (take (Suc n) (drop r rb))) - c"
    unfolding IH(5) seg_last[OF d(2)] d_def[symmetric] using se by (simp add: old(1) bval_append defs(1) algebra_simps WORD_BASE_def)
  finally show ?case using step IH s(2) by (intro exI[of _ c'] exI[of _ "zs @ [s]"]) simp
qed simp

lemma add_back_ok:
  assumes "below WORD_BASE rb"
  shows "length pre = q \<Longrightarrow> length old = n \<Longrightarrow> below WORD_BASE old \<Longrightarrow> r + n \<le> length rb \<Longrightarrow> c \<le> 1 \<Longrightarrow>
    \<exists>c' zs. add_back rb (r + n - 1) (q + n - 1) (pre @ old @ post) n c = Some (pre @ zs @ post) \<and>
      length zs = n \<and> below WORD_BASE zs \<and>
      bval WORD_BASE zs + c' * WORD_BASE ^ n = bval WORD_BASE old + bval WORD_BASE (take n (drop r rb)) + c"
proof (induction n arbitrary: old post c)
  case (Suc n)
  obtain old' l where old: "old = old' @ [l]" "length old' = n" using split_last Suc.prems(2) by blast
  have l: "l < WORD_BASE" "below WORD_BASE old'" using Suc.prems(3) old by simp_all
  have d: "rb ! (r + n) < WORD_BASE" "r + n < length rb" using Suc.prems below_nth[OF assms(1)] by simp_all
  obtain s c1 where s: "add_word l (rb ! (r + n)) c = Some (s, c1)" "s < WORD_BASE" "c1 \<le> 1"
      "s + c1 * WORD_BASE = l + rb ! (r + n) + c"
    using add_word_ok[OF l(1) d(1) Suc.prems(5)] by blast
  have set: "set_at (pre @ old @ post) (q + n) s = Some (pre @ old' @ s # post)"
    using set_at_mid[of "q + n" "pre @ old'"] Suc.prems old by simp
  have get: "get_at (pre @ old @ post) (q + n) = Some l" "get_at rb (r + n) = Some (rb ! (r + n))"
    using get_at_mid[of "q + n" "pre @ old'"] Suc.prems old d by (simp_all add: get_at_def)
  have step: "add_back rb (r + Suc n - 1) (q + Suc n - 1) (pre @ old @ post) (Suc n) c =
      add_back rb (r + n - 1) (q + n - 1) (pre @ old' @ s # post) n c1"
    by (simp add: get s(1) set)
  from Suc.IH[of old' c1 "s # post"] Suc.prems old l s(3) obtain c' zs where
    IH: "add_back rb (r + n - 1) (q + n - 1) (pre @ old' @ s # post) n c1 = Some (pre @ zs @ s # post)"
      "length zs = n" "below WORD_BASE zs"
      "bval WORD_BASE zs + c' * WORD_BASE ^ n = bval WORD_BASE old' + bval WORD_BASE (take n (drop r rb)) + c1"
    by auto
  have "bval WORD_BASE (zs @ [s]) + c' * WORD_BASE ^ Suc n = (bval WORD_BASE zs + c' * WORD_BASE ^ n) * WORD_BASE + s"
    by (simp add: bval_append algebra_simps)
  also have "\<dots> = (bval WORD_BASE old' + bval WORD_BASE (take n (drop r rb))) * WORD_BASE + (s + c1 * WORD_BASE)"
    unfolding IH(4) by (simp add: algebra_simps)
  also have "\<dots> = bval WORD_BASE old + bval WORD_BASE (take (Suc n) (drop r rb)) + c"
    unfolding s(4) by (simp add: seg_last[OF d(2)] old(1) bval_append algebra_simps)
  finally show ?case using step IH s(2) by (intro exI[of _ c'] exI[of _ "zs @ [s]"]) simp
qed simp

section \<open>One word of the quotient\<close>

text \<open>The guess is the quotient word or one more.\<close>

lemma word_quotient_digit:
  fixes d k :: nat
  assumes b: "k + m < length buf" "below WORD_BASE buf"
    and r: "r_start + m < length rb" "below WORD_BASE rb"
    and r0: "1 \<le> rb ! r_start"
    and T: "T = d * WORD_BASE ^ Suc m + bval WORD_BASE (take (Suc m) (drop k buf))"
    and R: "R = bval WORD_BASE (take (Suc m) (drop r_start rb))"
    and lt: "T < R * WORD_BASE" and p: "p = min (word_quotient buf k rb r_start m (int d)) 999999999"
  shows "int (T div R) \<le> p" "p \<le> int (T div R) + 1"
proof -
  have "int (T div R) \<le> p \<and> p \<le> int (T div R) + 1"
  proof (cases m)
    case 0
    have TR: "T = d * 1000000000 + buf ! k" "R = rb ! r_start"
      using 0 b r by (auto simp: T R seg_hd WORD_BASE_def)
    have "T div R < 1000000000" using lt r0 TR(2) by (simp add: div_less_iff_less_mult mult.commute WORD_BASE_def)
    moreover have "word_quotient buf k rb r_start m (int d) = int (T div R)"
      using 0 by (simp add: word_quotient_def TR zdiv_int)
    ultimately show ?thesis using p by simp
  next
    case (Suc j)
    define B M where "B = (1000000000::int)" "M = int WORD_BASE ^ j"
    define X V where "X = (int d * B + int (buf ! k)) * B + int (buf ! Suc k)" "V = int (rb ! r_start) * B + int (rb ! Suc r_start)"
    define t v where "t = int (bval WORD_BASE (take j (drop (Suc (Suc k)) buf)))" "v = int (bval WORD_BASE (take j (drop (Suc (Suc r_start)) rb)))"
    have len: "Suc k < length buf" "Suc r_start < length rb" using Suc b r by auto
    have tv: "0 \<le> t" "t < M" "0 \<le> v" "v < M"
      using seg_less[OF b(2), of j] seg_less[OF r(2), of j] by (simp_all add: t_v_def B_M_def flip: of_nat_power)
    have L: "min (length buf - Suc (Suc k)) j = j" "min (length rb - Suc (Suc r_start)) j = j" using Suc b r by simp_all
    have TX: "int T = X * M + t" "int R = V * M + v"
      using len Suc L by (simp_all add: T R seg_hd X_V_def t_v_def B_M_def WORD_BASE_def algebra_simps)
    have "B \<le> V" using r0 by (simp add: X_V_def B_M_def)
    moreover have "int T < int (R * WORD_BASE)" using lt by (simp only: of_nat_less_iff)
    then have "X * M + t < (V * M + v) * B" using TX by (simp add: B_M_def WORD_BASE_def)
    moreover have "p = min (X div V) (B - 1)" using p Suc by (simp add: word_quotient_def X_V_def B_M_def)
    ultimately show ?thesis using quotient_digit[of X t M v B V p] tv TX[symmetric]
      by (simp add: X_V_def B_M_def zdiv_int)
  qed
  then show "int (T div R) \<le> p" "p \<le> int (T div R) + 1" by simp_all
qed

lemma eq_of_bounded_multiple:
  fixes x :: int
  assumes "e * M + z = x" "0 \<le> z" "z < M" "0 \<le> x" "x < M"
  shows "z = x"
proof -
  have "x = z + e * M" using assms(1) by simp
  then have "x mod M = z mod M" by simp
  then show ?thesis using assms by simp
qed

lemma div_step_ok:
  fixes d k :: nat
  assumes b: "k + m < length buf" "k + 1 < length buf" "below WORD_BASE buf"
    and r: "r_start + m < length rb" "below WORD_BASE rb" and r0: "1 \<le> rb ! r_start"
    and nf: "nf = int (WORD_BASE div (rb ! r_start + 1))"
    and rn: "rn = nf * int (rb ! r_start) + (if m > 0 then nf * int (rb ! (r_start + 1)) div int WORD_BASE else 0)"
    and T: "T = d * WORD_BASE ^ Suc m + bval WORD_BASE (take (Suc m) (drop k buf))"
    and R: "R = bval WORD_BASE (take (Suc m) (drop r_start rb))"
    and lt: "T < R * WORD_BASE"
  shows "\<exists>zs. div_step rb r_start m nf rn buf k (int d) = Some (int (T div R), take k buf @ zs @ drop (Suc (k + m)) buf) \<and>
    length zs = Suc m \<and> below WORD_BASE zs \<and> bval WORD_BASE zs = T mod R"
proof -
  define old where "old = take (Suc m) (drop k buf)"
  define M where "M = WORD_BASE ^ Suc m"
  have split: "take k buf @ take (Suc m) (drop k buf) @ drop (Suc m + k) buf = buf"
    by (metis append_take_drop_id drop_drop)
  have old: "length old = Suc m" "below WORD_BASE old" "buf = take k buf @ old @ drop (Suc (k + m)) buf" "length (take k buf) = k"
    using b split by (simp_all add: old_def add.commute below_take below_drop)
  have M: "0 < M" "bval WORD_BASE old < M" using bval_less[OF old(2)] old(1) by (simp_all add: M_def)
  have Rhead: "R = rb ! r_start * WORD_BASE ^ m + bval WORD_BASE (take m (drop (Suc r_start) rb))"
    using r by (simp add: R seg_head)
  have Rlt: "R < (rb ! r_start + 1) * WORD_BASE ^ m" "rb ! r_start * WORD_BASE ^ m \<le> R"
    using seg_less[OF r(2), of m "Suc r_start"] by (simp_all add: Rhead)
  have R0: "0 < R" using Rlt(2) r0 by (metis WORD_BASE_pos(1) less_le_trans mult_pos_pos zero_less_power zero_less_one)
  have RM: "R \<le> M" using seg_less[OF r(2), of "Suc m" r_start] by (simp add: R M_def)
  have get: "get_at buf k = Some (buf ! k)" "get_at rb r_start = Some (rb ! r_start)" using b r by (simp_all add: get_at_def)
  show ?thesis
  proof (cases "d = 0 \<and> buf ! k < rb ! r_start")
    case True
    have "T < (buf ! k + 1) * WORD_BASE ^ m" using True seg_less[OF b(3), of m "Suc k"] b by (simp add: T seg_head)
    also have "\<dots> \<le> rb ! r_start * WORD_BASE ^ m" using True by (intro mult_right_mono) simp_all
    finally have "T < R" using Rlt(2) by linarith
    then show ?thesis using True old get by (intro exI[of _ old]) (simp add: div_step_def T old_def[symmetric])
  next
    case False
    then have nF: "(d = 0 \<and> buf ! k < rb ! r_start) = False" by blast
    define p where "p = min (word_quotient buf k rb r_start m (int d)) 999999999"
    have dr: "d \<le> rb ! r_start"
    proof -
      have "d * M \<le> T" by (simp add: T M_def)
      also have "T < R * WORD_BASE" by (rule lt)
      also have "\<dots> \<le> (rb ! r_start + 1) * WORD_BASE ^ m * WORD_BASE" using Rlt(1) by (intro mult_right_mono) simp_all
      finally have "d * M < (rb ! r_start + 1) * M" by (simp add: M_def ac_simps)
      then have "d < rb ! r_start + 1" by (simp only: mult_less_cancel2)
      then show ?thesis by simp
    qed
    have guess: "div_guess buf k rb r_start m nf rn (int d) = Some p"
      unfolding p_def using b r r0 dr nf rn by (intro div_guess_ok) simp_all
    note p = word_quotient_digit[OF b(1,3) r r0 T R lt p_def]
    have p0: "0 \<le> p" "p < int WORD_BASE" using p(1) by (simp_all add: p_def WORD_BASE_def)
    obtain c zs where z: "mul_sub rb (r_start + m) (k + m) buf p (Suc m) 0 = Some (take k buf @ zs @ drop (Suc (k + m)) buf, c)"
      "length zs = Suc m" "below WORD_BASE zs" "0 \<le> c"
      "int (bval WORD_BASE zs) - c * int M = int (bval WORD_BASE old) - p * int R"
      using mul_sub_ok[OF r(2) p0 old(4,1,2), of r_start 0 "drop (Suc (k + m)) buf"] r old(3) by (auto simp: M_def R)
    have zM: "bval WORD_BASE zs < M" using bval_less[OF z(3)] z(2) by (simp add: M_def)
    have TM: "int T = int d * int M + int (bval WORD_BASE old)" by (simp add: T M_def old_def)
    have diff: "int T - p * int R = (int d - c) * int M + int (bval WORD_BASE zs)" using z(5) TM by (simp add: algebra_simps)
    have qr: "int T = int (T div R) * int R + int (T mod R)" by (simp flip: of_nat_mult of_nat_add)
    have tm: "int (T mod R) < int R" "int (T mod R) < int M" using R0 RM by (simp_all add: order.strict_trans2[OF mod_less_divisor])
    show ?thesis
    proof (cases "int d < c")
      case True
      have "(int d - c) * int M \<le> - 1 * int M" using True by (intro mult_right_mono) simp_all
      then have "int T < p * int R" using diff zM by simp
      then have pe: "p = int (T div R) + 1" using p qr by (cases "p = int (T div R)") auto
      obtain c2 ys where y: "add_back rb (r_start + m) (k + m) (take k buf @ zs @ drop (Suc (k + m)) buf) (Suc m) 0 =
          Some (take k buf @ ys @ drop (Suc (k + m)) buf)"
        "length ys = Suc m" "below WORD_BASE ys" "bval WORD_BASE ys + c2 * M = bval WORD_BASE zs + R"
        using add_back_ok[OF r(2) old(4) z(2,3), of r_start 0 "drop (Suc (k + m)) buf"] r by (auto simp: M_def R)
      have yM: "bval WORD_BASE ys < M" using bval_less[OF y(3)] y(2) by (simp add: M_def)
      have "int (bval WORD_BASE ys) + int c2 * int M = int (bval WORD_BASE zs) + int R" using y(4) by (metis of_nat_add of_nat_mult)
      then have "(int d - c + int c2) * int M + int (bval WORD_BASE ys) = int (T mod R)"
        using diff qr pe by (simp add: algebra_simps)
      then have "int (bval WORD_BASE ys) = int (T mod R)" by (rule eq_of_bounded_multiple) (use yM tm in simp_all)
      show ?thesis using True get guess z(1) y(1-3) pe \<open>int (bval WORD_BASE ys) = int (T mod R)\<close>
        by (intro exI[of _ ys]) (simp add: div_step_def nF del: mul_sub.simps add_back.simps)
    next
      case ge: False
      have "0 \<le> (int d - c) * int M" using ge by simp
      then have "p * int R \<le> int T" using diff by linarith
      then have "p * int R < (int (T div R) + 1) * int R" using qr tm(1) by (simp add: algebra_simps)
      then have pe: "p = int (T div R)" using p R0 by (simp add: mult_less_cancel_right)
      then have "(int d - c) * int M + int (bval WORD_BASE zs) = int (T mod R)" using diff qr by simp
      then have "int (bval WORD_BASE zs) = int (T mod R)" by (rule eq_of_bounded_multiple) (use zM tm in simp_all)
      show ?thesis using ge get guess z(1-3) pe \<open>int (bval WORD_BASE zs) = int (T mod R)\<close> by (intro exI[of _ zs]) (simp add: div_step_def nF del: mul_sub.simps add_back.simps)
    qed
  qed
qed

end
