(* ===== verification/Decimal_Div_Loop.thy ===== *)
theory Decimal_Div_Loop
  imports Decimal_Div_Step
begin

text \<open>
  The loop of the long division in \<open>do_div_mod_impl\<close> of \<open>src/berolinasql/src/decimal.rs\<close>: it
  writes the words of the quotient of a window of the dividend and leaves the remainder in it.
\<close>

text \<open>The carry and the next \<open>n\<close> words of the dividend as a number.\<close>

definition part_value :: "nat \<Rightarrow> nat list \<Rightarrow> nat \<Rightarrow> nat \<Rightarrow> nat" where
  "part_value d buf k n = d * WORD_BASE ^ n + bval WORD_BASE (take n (drop k buf))"

lemma part_value_add:
  "k + a + b \<le> length buf \<Longrightarrow>
   part_value d buf k (a + b) = part_value d buf k a * WORD_BASE ^ b + bval WORD_BASE (take b (drop (k + a) buf))"
  by (simp add: part_value_def take_add bval_append power_add algebra_simps)

lemma part_value_Suc:
  "k + m < length buf \<Longrightarrow> part_value d buf k (Suc m) = part_value d buf k m * WORD_BASE + buf ! (k + m)"
  by (simp add: part_value_def seg_last algebra_simps)

lemma div_mult_add:
  fixes a b c R :: nat
  assumes "0 < R"
  shows "(a * b + c) div R = (a div R) * b + ((a mod R) * b + c) div R" "(a * b + c) mod R = ((a mod R) * b + c) mod R"
proof -
  have "a * b = ((a div R) * R + a mod R) * b" by simp
  also have "\<dots> = (a mod R) * b + ((a div R) * b) * R" by (simp only: algebra_simps)
  finally have e: "a * b + c = ((a mod R) * b + c) + ((a div R) * b) * R" by linarith
  show "(a * b + c) div R = (a div R) * b + ((a mod R) * b + c) div R" "(a * b + c) mod R = ((a mod R) * b + c) mod R"
    unfolding e using div_mult_self1[of R "(a mod R) * b + c" "(a div R) * b"] assms by (simp_all only: mod_mult_self1 not_gr0 simp_thms neq0_conv)
qed

lemma div_loop_ok:
  assumes r: "r_start + m < length rb" "below WORD_BASE rb" and r0: "1 \<le> rb ! r_start"
    and nf: "nf = int (WORD_BASE div (rb ! r_start + 1))"
    and rn: "rn = nf * int (rb ! r_start) + (if m > 0 then nf * int (rb ! (r_start + 1)) div int WORD_BASE else 0)"
    and R: "R = bval WORD_BASE (take (Suc m) (drop r_start rb))"
  shows "k + n + m \<le> length buf \<Longrightarrow> k + n < length buf \<Longrightarrow> below WORD_BASE buf \<Longrightarrow> part_value d buf k m < R \<Longrightarrow>
    (\<not> do_mod \<longrightarrow> idx + n \<le> length qb) \<Longrightarrow> (d \<noteq> 0 \<longrightarrow> 0 < k \<and> buf ! (k - 1) = d) \<Longrightarrow>
    \<exists>qs buf' d'. div_loop rb r_start m nf rn do_mod idx n qb buf k (int d) =
        Some (if do_mod then qb else take idx qb @ qs @ drop (idx + n) qb, buf', k + n, int d') \<and>
      length qs = n \<and> below WORD_BASE qs \<and> length buf' = length buf \<and> below WORD_BASE buf' \<and>
      drop (k + n + m) buf' = drop (k + n + m) buf \<and> (d' \<noteq> 0 \<longrightarrow> 0 < k + n \<and> buf' ! (k + n - 1) = d') \<and>
      bval WORD_BASE qs = part_value d buf k (m + n) div R \<and>
      part_value d' buf' (k + n) m = part_value d buf k (m + n) mod R"
proof (induction n arbitrary: d idx qb buf k)
  case 0
  then show ?case by (intro exI[of _ "[]"] exI[of _ buf] exI[of _ d]) simp
next
  case (Suc n)
  let ?T = "part_value d buf k (Suc m)"
  have R0: "0 < R" using Suc.prems(4) by simp
  have bk: "k + m < length buf" "k + 1 < length buf" using Suc.prems(1,2) by simp_all
  have w: "buf ! (k + m) < WORD_BASE" using below_nth[OF Suc.prems(3)] bk by simp
  have "?T < (part_value d buf k m + 1) * WORD_BASE" using w bk by (simp add: part_value_Suc)
  also have "\<dots> \<le> R * WORD_BASE" using Suc.prems(4) by (intro mult_right_mono) simp_all
  finally have lt: "?T < R * WORD_BASE" .
  obtain zs where z: "div_step rb r_start m nf rn buf k (int d) = Some (int (?T div R), take k buf @ zs @ drop (Suc (k + m)) buf)"
      "length zs = Suc m" "below WORD_BASE zs" "bval WORD_BASE zs = ?T mod R"
    using div_step_ok[OF bk Suc.prems(3) r r0 nf rn part_value_def R lt] by blast
  obtain z0 zt where zs: "zs = z0 # zt" "length zt = m" using z(2) by (cases zs) auto
  let ?b = "take k buf @ zs @ drop (Suc (k + m)) buf"
  have lb: "length ?b = length buf" "below WORD_BASE ?b" using z bk Suc.prems(3) by (auto simp: below_take below_drop)
  have z0: "get_at ?b k = Some z0" "?b ! k = z0" "z0 < WORD_BASE" "as_signed 32 (int z0) = int z0"
    using bk zs z(3) by (simp_all add: get_at_def nth_append as_signed_small WORD_BASE_def)
  have db: "drop (Suc k) ?b = zt @ drop (Suc (k + m)) buf" using bk zs by (simp add: Suc_diff_le[symmetric])
  have rem1: "part_value z0 ?b (Suc k) m = ?T mod R" using z(4) by (simp only: part_value_def db) (simp add: zs)
  define g where "g = as_unsigned 32 (int (?T div R))"
  have gB: "?T div R < WORD_BASE" using lt R0 by (simp add: div_less_iff_less_mult mult.commute)
  then have g: "g = ?T div R" by (simp add: g_def as_unsigned_32_nat WORD_BASE_def)
  define qb1 where "qb1 = (if do_mod then qb else qb[idx := g])"
  have q1: "(if do_mod then Some qb else set_at qb idx g) = Some qb1" using Suc.prems(5) by (auto simp: qb1_def set_at_def)
  have IH: "\<exists>qs buf' d'. div_loop rb r_start m nf rn do_mod (idx + 1) n qb1 ?b (Suc k) (int z0) =
        Some (if do_mod then qb1 else take (idx + 1) qb1 @ qs @ drop (idx + 1 + n) qb1, buf', Suc k + n, int d') \<and>
      length qs = n \<and> below WORD_BASE qs \<and> length buf' = length ?b \<and> below WORD_BASE buf' \<and>
      drop (Suc k + n + m) buf' = drop (Suc k + n + m) ?b \<and> (d' \<noteq> 0 \<longrightarrow> 0 < Suc k + n \<and> buf' ! (Suc k + n - 1) = d') \<and>
      bval WORD_BASE qs = part_value z0 ?b (Suc k) (m + n) div R \<and>
      part_value d' buf' (Suc k + n) m = part_value z0 ?b (Suc k) (m + n) mod R"
    by (rule Suc.IH) (use Suc.prems lb z0 rem1 R0 in \<open>simp_all add: qb1_def\<close>)
  then obtain qs buf' d' where I: "div_loop rb r_start m nf rn do_mod (idx + 1) n qb1 ?b (Suc k) (int z0) =
        Some (if do_mod then qb1 else take (idx + 1) qb1 @ qs @ drop (idx + 1 + n) qb1, buf', Suc k + n, int d')"
      "length qs = n" "below WORD_BASE qs" "length buf' = length ?b" "below WORD_BASE buf'"
      "drop (Suc k + n + m) buf' = drop (Suc k + n + m) ?b" "d' \<noteq> 0 \<longrightarrow> buf' ! (k + n) = d'"
      "bval WORD_BASE qs = part_value z0 ?b (Suc k) (m + n) div R"
      "part_value d' buf' (Suc k + n) m = part_value z0 ?b (Suc k) (m + n) mod R" by auto
  let ?u = "bval WORD_BASE (take n (drop (Suc (k + m)) buf))"
  have p1: "part_value z0 ?b (Suc k) (m + n) = ?T mod R * WORD_BASE ^ n + ?u"
  proof -
    have "drop (Suc k + m) ?b = drop (Suc (k + m)) buf" using bk z(2) by simp
    then show ?thesis using part_value_add[of "Suc k" m n ?b z0] rem1 lb Suc.prems(1) by simp
  qed
  have p0: "part_value d buf k (m + Suc n) = ?T * WORD_BASE ^ n + ?u"
    using part_value_add[of k "Suc m" n buf d] Suc.prems(1) by simp
  note dm = div_mult_add[OF R0, of ?T "WORD_BASE ^ n" ?u]
  have run: "div_loop rb r_start m nf rn do_mod idx (Suc n) qb buf k (int d) =
      Some (if do_mod then qb else take idx qb @ (g # qs) @ drop (idx + Suc n) qb, buf', k + Suc n, int d')"
  proof (cases do_mod)
    case True
    then show ?thesis using I(1) by (simp add: z(1) z0(1,4) qb1_def)
  next
    case False
    then have "idx < length qb" using Suc.prems(5) by simp
    then have "set_at qb idx g = Some qb1" "take (idx + 1) qb1 = take idx qb @ [g]" "drop (Suc (idx + n)) qb1 = drop (Suc (idx + n)) qb"
      using False by (simp_all add: qb1_def set_at_def take_Suc_conv_app_nth)
    then show ?thesis using False I(1) by (simp add: z(1) g_def[symmetric] z0(1,4))
  qed
  have dr: "drop (k + Suc n + m) ?b = drop (k + Suc n + m) buf" using bk z(2) by (simp add: ac_simps)
  show ?case
  proof (intro exI conjI)
    show "div_loop rb r_start m nf rn do_mod idx (Suc n) qb buf k (int d) =
      Some (if do_mod then qb else take idx qb @ (g # qs) @ drop (idx + Suc n) qb, buf', k + Suc n, int d')" by (rule run)
    show "length (g # qs) = Suc n" "below WORD_BASE (g # qs)" using I(2,3) gB g by simp_all
    show "length buf' = length buf" "below WORD_BASE buf'" using I(4,5) lb by simp_all
    show "drop (k + Suc n + m) buf' = drop (k + Suc n + m) buf" using I(6) unfolding dr[symmetric] by simp
    show "d' \<noteq> 0 \<longrightarrow> 0 < k + Suc n \<and> buf' ! (k + Suc n - 1) = d'" using I(7) by simp
    show "bval WORD_BASE (g # qs) = part_value d buf k (m + Suc n) div R" unfolding p0 dm(1) using I(2,8) p1 g by simp
    show "part_value d' buf' (k + Suc n) m = part_value d buf k (m + Suc n) mod R" unfolding p0 dm(2) using I(9) p1 by simp
  qed
qed

end
