(* ===== verification/Decimal_Div_Setup.thy ===== *)
theory Decimal_Div_Setup
  imports Decimal_Div_Loop
begin

text \<open>
  What precedes and what follows the loop of the long division in \<open>do_div_mod_impl\<close> of
  \<open>src/berolinasql/src/decimal.rs\<close>: the significant words of an operand, the words of the
  quotient, and the quotient and remainder of the whole numbers.
\<close>

section \<open>The significant words of an operand\<close>

text \<open>\<open>n\<close> words from \<open>wi\<close> on hold the \<open>c\<close> significant digits, \<open>p\<close> of them in the first.\<close>

definition sig_words :: "decimal \<Rightarrow> nat \<Rightarrow> nat \<Rightarrow> nat \<Rightarrow> nat \<Rightarrow> bool" where
  "sig_words d wi c n p \<longleftrightarrow> 1 \<le> n \<and> wi + n = int_words d + frac_words d \<and> word_cnt c = n \<and> c = 9 * (n - 1) + p \<and>
     1 \<le> p \<and> p \<le> 9 \<and> bval WORD_BASE (used d) = bval WORD_BASE (take n (drop wi (word_buf d))) \<and>
     10 ^ (p - 1) \<le> word_buf d ! wi \<and> word_buf d ! wi < 10 ^ p"

lemma word_cnt_split:
  assumes "word_cnt c = n" "0 < c" "n \<le> 9"
  shows "\<exists>p. c = 9 * (n - 1) + p \<and> 1 \<le> p \<and> p \<le> 9"
proof -
  have "c \<le> 81" using assms by (intro word_cnt_less) simp
  then have n: "n = (c + 8) div 9" using assms(1) by (simp add: word_cnt_def)
  then have "9 * n \<le> c + 8" "c + 8 < 9 * n + 9" by simp_all
  moreover have "1 \<le> n" using n assms(2) by simp
  ultimately show ?thesis by (intro exI[of _ "c - 9 * (n - 1)"]) auto
qed

lemma sig_words_exist:
  assumes d: "dec_ok d" "lead_ok d" and nz: "mag d \<noteq> 0"
  shows "\<exists>wi c n p. uadd 8 (int_cnt d) (frac_words d * DIGITS_PER_WORD) = Some (int_cnt d + frac_words d * 9) \<and>
    remove_leading_zeroes d (int_cnt d + frac_words d * 9) = Some (wi, c) \<and> sig_words d wi c n p"
proof -
  from remove_leading_zeroes_all[OF d] obtain wi c where
    rm: "uadd 8 (int_cnt d) (frac_words d * DIGITS_PER_WORD) = Some (int_cnt d + frac_words d * 9)"
      "remove_leading_zeroes d (int_cnt d + frac_words d * 9) = Some (wi, c)" "wi + word_cnt c = int_words d + frac_words d"
    and b: "bval WORD_BASE (used d) < 10 ^ c" "0 < c \<longrightarrow> 10 ^ (c - 1) \<le> bval WORD_BASE (used d)" by blast
  have c: "0 < c" using no_digits_iff[OF d(1) b] nz by simp
  note ok = dec_okD[OF d(1)]
  define n where "n = word_cnt c"
  have n: "1 \<le> n" "n \<le> 9" "wi + n \<le> 9" "wi + n = int_words d + frac_words d" using c rm(3) ok(3) by (simp_all add: n_def Suc_le_eq)
  obtain p where p: "c = 9 * (n - 1) + p" "1 \<le> p" "p \<le> 9" using word_cnt_split[OF n_def[symmetric] c n(2)] by blast
  let ?S = "take n (drop wi (word_buf d))"
  have u: "used d = take wi (word_buf d) @ ?S" using take_add[of wi n "word_buf d"] n(4) by (simp add: used_def)
  have lS: "length ?S = n" using n ok(1) by simp
  have "c \<le> 9 * n" using p n by simp
  then have "(10::nat) ^ c \<le> 10 ^ (9 * n)" by (rule power_increasing) simp
  also have "\<dots> = WORD_BASE ^ n" by (simp only: WORD_BASE_pow power_mult)
  finally have "bval WORD_BASE (used d) < WORD_BASE ^ n" using b(1) by linarith
  moreover have "bval WORD_BASE (used d) = bval WORD_BASE (take wi (word_buf d)) * WORD_BASE ^ n + bval WORD_BASE ?S"
    using u lS by (simp only: bval_append)
  ultimately have "bval WORD_BASE (take wi (word_buf d)) * WORD_BASE ^ n < 1 * WORD_BASE ^ n" by linarith
  then have "bval WORD_BASE (take wi (word_buf d)) = 0" by (simp only: mult_less_cancel2 less_one)
  then have N: "bval WORD_BASE (used d) = bval WORD_BASE ?S" using u by (simp add: bval_append)
  let ?w = "word_buf d ! wi" and ?t = "bval WORD_BASE (take (n - 1) (drop (Suc wi) (word_buf d)))"
  have h: "bval WORD_BASE ?S = ?w * WORD_BASE ^ (n - 1) + ?t"
    using seg_head[of wi "n - 1" "word_buf d" WORD_BASE] n ok(1) by simp
  have t: "?t < WORD_BASE ^ (n - 1)" using ok(2) by (intro seg_less) simp_all
  have pw: "10 ^ q * WORD_BASE ^ (n - 1) = (10::nat) ^ (9 * (n - 1) + q)" for q
    by (simp add: WORD_BASE_pow power_add power_mult)
  have "c - 1 = 9 * (n - 1) + (p - 1)" using p by simp
  then have "10 ^ (p - 1) * WORD_BASE ^ (n - 1) = (10::nat) ^ (c - 1)" by (simp only: pw)
  also have "\<dots> \<le> bval WORD_BASE ?S" using b(2) c N by simp
  also have "\<dots> < (?w + 1) * WORD_BASE ^ (n - 1)" using h t by simp
  finally have lo: "10 ^ (p - 1) < ?w + 1" by (simp only: mult_less_cancel2)
  have "?w * WORD_BASE ^ (n - 1) \<le> bval WORD_BASE ?S" by (simp add: h)
  also have "\<dots> < 10 ^ c" using b(1) N by simp
  also have "\<dots> = 10 ^ p * WORD_BASE ^ (n - 1)" by (simp only: pw p(1))
  finally have hi: "?w < 10 ^ p" by (simp only: mult_less_cancel2)
  have "sig_words d wi c n p" unfolding sig_words_def
    using lo by (intro conjI n(1,4) n_def[symmetric] p N hi) simp
  with rm show ?thesis by blast
qed

section \<open>The words of the quotient\<close>

text \<open>
  The number of integer words of the quotient, negative when it starts behind the point: the
  difference of the integer words of the operands, one more when the dividend starts with the
  greater word.
\<close>

definition quot_words :: "decimal \<Rightarrow> nat \<Rightarrow> nat \<Rightarrow> decimal \<Rightarrow> nat \<Rightarrow> nat \<Rightarrow> int" where
  "quot_words l li nl r ri nr = (int nl - int (frac_words l)) - (int nr - int (frac_words r)) +
     (if word_buf r ! ri \<le> word_buf l ! li then 1 else 0)"

lemma digits_bound:
  assumes "sig_words l li lc nl lp" "sig_words r ri rc nr rp"
    and z: "z = (int lc - int (frac_words l * 9)) - (int rc - int (frac_words r * 9)) + (if word_buf r ! ri \<le> word_buf l ! li then 1 else 0)"
  shows "9 * (quot_words l li nl r ri nr - 1) < z" "z \<le> 9 * quot_words l li nl r ri nr"
proof -
  note s = assms(1,2)[unfolded sig_words_def]
  have e: "int lc = 9 * (int nl - 1) + int lp" "int rc = 9 * (int nr - 1) + int rp" using s by auto
  have "9 * (quot_words l li nl r ri nr - 1) < z \<and> z \<le> 9 * quot_words l li nl r ri nr"
  proof (cases "word_buf r ! ri \<le> word_buf l ! li")
    case True
    have "10 ^ (rp - 1) < (10::nat) ^ lp" using s True by (meson le_less_trans less_le_trans)
    then have "rp - 1 < lp" by simp
    then show ?thesis using s True by (simp add: z e quot_words_def)
  next
    case False
    have "10 ^ (lp - 1) < (10::nat) ^ rp" using s False by (meson le_less_trans less_trans linorder_not_le)
    then have "lp - 1 < rp" by simp
    then show ?thesis using s False by (simp add: z e quot_words_def)
  qed
  then show "9 * (quot_words l li nl r ri nr - 1) < z" "z \<le> 9 * quot_words l li nl r ri nr" by simp_all
qed

lemma word_cnt_digits:
  assumes "9 * (q - 1) < z" "z \<le> 9 * q" "0 \<le> z"
  shows "word_cnt_i z = (if q \<le> 9 then nat q else 10)"
proof (cases "z = 0")
  case False
  obtain m where m: "q = int m" using assms by (metis zero_le_imp_eq_int le_trans mult_pos_neg not_less zero_less_numeral order.strict_trans2)
  obtain k where k: "z = int k" using assms(3) by (metis zero_le_imp_eq_int)
  have b: "9 * m < k + 9" "k \<le> 9 * m" using assms m k by simp_all
  show ?thesis
  proof (cases "m \<le> 9")
    case True
    have "(k + 8) div 9 = m" using b by (intro div_nat_eqI) simp_all
    then show ?thesis using True b False m k by (simp add: word_cnt_i_def word_cnt_def)
  qed (use b m k in \<open>simp add: word_cnt_i_def word_cnt_def\<close>)
qed (use assms in \<open>auto simp: word_cnt_i_def\<close>)

lemma sdiv_digits:
  assumes "9 * (q - 1) < z" "z \<le> 9 * q" "z < 0"
  shows "sdiv z 9 = q"
proof -
  have "q \<le> 0" using assms by simp
  moreover have "(- z) div 9 = - q" using assms by (intro int_div_pos_eq[of _ _ _ "- z + 9 * q"]) simp_all
  ultimately show ?thesis using assms by (simp add: sdiv_def sgn_if)
qed

section \<open>The loop from the first word\<close>

text \<open>The words of the dividend before the loop, and the carry and position it starts with.\<close>

lemma bval_prefix:
  assumes "below WORD_BASE ws" "t \<le> length ws + e"
  shows "bval WORD_BASE (take t (ws @ replicate e 0)) = (bval WORD_BASE ws * WORD_BASE ^ t) div WORD_BASE ^ length ws"
proof (cases "length ws \<le> t")
  case True
  then have "WORD_BASE ^ t = WORD_BASE ^ (t - length ws) * WORD_BASE ^ length ws" by (simp flip: power_add)
  moreover have "min (t - length ws) e = t - length ws" using True assms(2) by simp
  ultimately show ?thesis using True by (simp add: bval_append)
next
  case False
  let ?a = "take t ws" and ?b = "drop t ws" and ?k = "length ws - t"
  have p: "WORD_BASE ^ length ws = WORD_BASE ^ ?k * WORD_BASE ^ t" using False by (simp flip: power_add)
  have "bval WORD_BASE ws = bval WORD_BASE (?a @ ?b)" by simp
  also have "\<dots> = bval WORD_BASE ?a * WORD_BASE ^ ?k + bval WORD_BASE ?b" unfolding bval_append by simp
  finally have v: "bval WORD_BASE ws = bval WORD_BASE ?a * WORD_BASE ^ ?k + bval WORD_BASE ?b" .
  have "bval WORD_BASE ?b < WORD_BASE ^ length ?b" using assms(1) by (intro bval_less below_drop)
  then have "bval WORD_BASE ws div WORD_BASE ^ ?k = bval WORD_BASE ?a" by (simp add: v)
  then have "bval WORD_BASE ws * WORD_BASE ^ t div (WORD_BASE ^ ?k * WORD_BASE ^ t) = bval WORD_BASE ?a" by simp
  then show ?thesis using False p by simp
qed

lemma last_word_ok:
  assumes "r + n \<le> length rb" "1 \<le> rb ! r"
  shows "1 \<le> n \<Longrightarrow> \<exists>m. last_word rb r (r + n - 1) = Some (r + m) \<and> m < n \<and>
    bval WORD_BASE (take n (drop r rb)) = bval WORD_BASE (take (Suc m) (drop r rb)) * WORD_BASE ^ (n - 1 - m)"
  using assms(1)
proof (induction n)
  case (Suc n)
  have get: "get_at rb (r + n) = Some (rb ! (r + n))" using Suc.prems by (simp add: get_at_def)
  show ?case
  proof (cases "rb ! (r + n) = 0")
    case False
    then have "last_word rb r (r + n) = Some (r + n)" using get by (cases "r + n") auto
    then show ?thesis by (intro exI[of _ n]) simp
  next
    case True
    then have n: "1 \<le> n" using assms(2) by (cases n) auto
    with Suc obtain m where m: "last_word rb r (r + n - 1) = Some (r + m)" "m < n"
      "bval WORD_BASE (take n (drop r rb)) = bval WORD_BASE (take (Suc m) (drop r rb)) * WORD_BASE ^ (n - 1 - m)" by auto
    have "last_word rb r (r + n) = last_word rb r (r + n - 1)" using get True n by (cases "r + n") auto
    moreover have "bval WORD_BASE (take (Suc n) (drop r rb)) = bval WORD_BASE (take n (drop r rb)) * WORD_BASE"
      using True Suc.prems by (simp add: seg_last)
    moreover have "WORD_BASE ^ (n - m) = WORD_BASE ^ (n - 1 - m) * WORD_BASE"
      using m(2) by (metis Suc_diff_Suc diff_Suc_eq_diff_pred mult.commute power_Suc)
    ultimately show ?thesis using m by (intro exI[of _ m]) simp
  qed
qed simp

lemma loop_start:
  assumes L: "length L = n" "1 \<le> n" "below WORD_BASE L" and rb: "r + m < length rb" "below WORD_BASE rb" "1 \<le> rb ! r"
    and buf: "buf = L @ replicate e 0" and R: "R = bval WORD_BASE (take (Suc m) (drop r rb))"
    and s: "(d, k) = (if L ! 0 < rb ! r then (L ! 0, 1) else (0, 0))"
  shows "k + m \<le> length buf \<Longrightarrow> part_value d buf k m < R"
    "k + j \<le> length buf \<Longrightarrow> part_value d buf k j = bval WORD_BASE (take (k + j) buf)"
    "d \<noteq> 0 \<longrightarrow> 0 < k \<and> buf ! (k - 1) = d" "below WORD_BASE buf" "buf ! 0 = L ! 0"
proof -
  show b: "below WORD_BASE buf" "buf ! 0 = L ! 0" using L by (simp_all add: buf nth_append)
  have pv: "part_value d buf k j = bval WORD_BASE (take (k + j) buf)" if "k + j \<le> length buf" for j
  proof (cases "L ! 0 < rb ! r")
    case True
    then show ?thesis using s that seg_head[of 0 j buf WORD_BASE] b(2) by (simp add: part_value_def)
  qed (use s in \<open>simp add: part_value_def\<close>)
  then show "k + j \<le> length buf \<Longrightarrow> part_value d buf k j = bval WORD_BASE (take (k + j) buf)" .
  show "d \<noteq> 0 \<longrightarrow> 0 < k \<and> buf ! (k - 1) = d" using s b(2) by (auto split: if_splits)
  have R': "rb ! r * WORD_BASE ^ m \<le> R" using seg_head[of r m rb WORD_BASE] rb by (simp add: R)
  assume k: "k + m \<le> length buf"
  show "part_value d buf k m < R"
  proof (cases "L ! 0 < rb ! r")
    case True
    have "part_value d buf k m < (L ! 0 + 1) * WORD_BASE ^ m" using True s seg_less[OF b(1), of m k] by (simp add: part_value_def)
    also have "\<dots> \<le> rb ! r * WORD_BASE ^ m" using True by (intro mult_right_mono) simp_all
    finally show ?thesis using R' by linarith
  next
    case False
    have "part_value d buf k m < 1 * WORD_BASE ^ m" using False s seg_less[OF b(1), of m 0] by (simp add: part_value_def)
    also have "\<dots> \<le> rb ! r * WORD_BASE ^ m" using rb(3) by (intro mult_right_mono) simp_all
    finally show ?thesis using R' by linarith
  qed
qed

section \<open>The size of the quotient\<close>

lemma sig_bounds:
  assumes "sig_words d wi c n p" "dec_ok d"
  shows "word_buf d ! wi * WORD_BASE ^ (n - 1) \<le> bval WORD_BASE (used d)"
    "bval WORD_BASE (used d) < (word_buf d ! wi + 1) * WORD_BASE ^ (n - 1)" "1 \<le> word_buf d ! wi" "word_buf d ! wi < WORD_BASE"
    "wi + n \<le> 9"
proof -
  note s = assms(1)[unfolded sig_words_def] and ok = dec_okD[OF assms(2)]
  show wi: "wi + n \<le> 9" using s ok by simp
  have h: "bval WORD_BASE (used d) = word_buf d ! wi * WORD_BASE ^ (n - 1) + bval WORD_BASE (take (n - 1) (drop (Suc wi) (word_buf d)))"
    using seg_head[of wi "n - 1" "word_buf d" WORD_BASE] s ok(1) wi by simp
  show "word_buf d ! wi * WORD_BASE ^ (n - 1) \<le> bval WORD_BASE (used d)" by (simp add: h)
  show "bval WORD_BASE (used d) < (word_buf d ! wi + 1) * WORD_BASE ^ (n - 1)"
    using seg_less[OF ok(2), of "n - 1" "Suc wi"] by (simp add: h)
  have "(1::nat) \<le> 10 ^ (p - 1)" by simp
  then show "1 \<le> word_buf d ! wi" using s by linarith
  show "word_buf d ! wi < WORD_BASE" using below_nth[OF ok(2)] ok(1) wi s by simp
qed

lemma quot_bounds:
  assumes l: "sig_words l li lc nl lp" "dec_ok l" and r: "sig_words r ri rc nr rp" "dec_ok r"
  shows "mag l / mag r < of_nat WORD_BASE powi quot_words l li nl r ri nr"
    "of_nat WORD_BASE powi (quot_words l li nl r ri nr - 1) < 2 * (mag l / mag r)"
proof -
  let ?N = "bval WORD_BASE (used l)" and ?M = "bval WORD_BASE (used r)" and ?b = "of_nat WORD_BASE :: rat"
  let ?Q = "quot_words l li nl r ri nr"
  note L = sig_bounds[OF l] and R = sig_bounds[OF r]
  have n: "1 \<le> nl" "1 \<le> nr" using l r by (simp_all add: sig_words_def)
  define e where "e = (if word_buf r ! ri \<le> word_buf l ! li then 1 else 0 :: nat)"
  have b0: "?b \<noteq> 0" "0 < ?b" by simp_all
  have M0: "0 < ?M" using R(1,3) by (metis WORD_BASE_pos(1) less_le_trans mult_pos_pos zero_less_one zero_less_power)
  have pn: "WORD_BASE ^ n = WORD_BASE * WORD_BASE ^ (n - 1)" if "1 \<le> n" for n using that by (cases n) simp_all
  have up: "?N * WORD_BASE ^ (nr - 1) < ?M * WORD_BASE ^ (nl - 1 + e)"
  proof -
    have "word_buf l ! li + 1 \<le> word_buf r ! ri * WORD_BASE ^ e"
    proof (cases "e = 0")
      case False
      have "1 * WORD_BASE \<le> word_buf r ! ri * WORD_BASE" using R(3) by (rule mult_right_mono) simp
      then have "word_buf l ! li + 1 \<le> word_buf r ! ri * WORD_BASE" using L(4) by linarith
      then show ?thesis using False by (simp add: e_def split: if_splits)
    qed (simp add: e_def split: if_splits)
    then have "(word_buf l ! li + 1) * WORD_BASE ^ (nl - 1) \<le> word_buf r ! ri * WORD_BASE ^ e * WORD_BASE ^ (nl - 1)"
      by (rule mult_right_mono) simp
    with L(2) have "?N < word_buf r ! ri * WORD_BASE ^ e * WORD_BASE ^ (nl - 1)" by linarith
    then have "?N * WORD_BASE ^ (nr - 1) < word_buf r ! ri * WORD_BASE ^ e * WORD_BASE ^ (nl - 1) * WORD_BASE ^ (nr - 1)" by simp
    also have "\<dots> = word_buf r ! ri * WORD_BASE ^ (nr - 1) * WORD_BASE ^ (nl - 1 + e)" by (simp add: power_add ac_simps)
    also have "\<dots> \<le> ?M * WORD_BASE ^ (nl - 1 + e)" using R(1) by (intro mult_right_mono) simp_all
    finally show ?thesis .
  qed
  have lo: "?M * WORD_BASE ^ (nl - 1 + e) < 2 * ?N * WORD_BASE ^ nr"
  proof -
    have "(word_buf r ! ri + 1) * WORD_BASE ^ e \<le> 2 * word_buf l ! li * WORD_BASE"
    proof (cases "e = 0")
      case True
      have "1 * WORD_BASE \<le> 2 * word_buf l ! li * WORD_BASE" using L(3) by (intro mult_right_mono) simp_all
      then have "word_buf r ! ri + 1 \<le> 2 * word_buf l ! li * WORD_BASE" using R(4) by linarith
      then show ?thesis using True by simp
    next
      case False
      then have "word_buf r ! ri + 1 \<le> 2 * word_buf l ! li" "e = 1" using L(3) by (simp_all add: e_def split: if_splits)
      then have "(word_buf r ! ri + 1) * WORD_BASE \<le> 2 * word_buf l ! li * WORD_BASE" by (intro mult_right_mono) simp_all
      then show ?thesis using \<open>e = 1\<close> by (simp only: power_one_right)
    qed
    have "?M * WORD_BASE ^ (nl - 1 + e) < (word_buf r ! ri + 1) * WORD_BASE ^ (nr - 1) * WORD_BASE ^ (nl - 1 + e)"
      using R(2) by simp
    also have "\<dots> = ((word_buf r ! ri + 1) * WORD_BASE ^ e) * (WORD_BASE ^ (nl - 1) * WORD_BASE ^ (nr - 1))"
      by (simp only: power_add ac_simps)
    also have "\<dots> \<le> (2 * word_buf l ! li * WORD_BASE) * (WORD_BASE ^ (nl - 1) * WORD_BASE ^ (nr - 1))"
      by (rule mult_right_mono) (fact, simp)
    also have "\<dots> = 2 * (word_buf l ! li * WORD_BASE ^ (nl - 1)) * WORD_BASE ^ nr" by (simp only: pn[OF n(2)] ac_simps)
    also have "\<dots> \<le> 2 * ?N * WORD_BASE ^ nr" using L(1) by (intro mult_mono) simp_all
    finally show ?thesis .
  qed
  have x: "mag l / mag r = of_nat ?N / of_nat ?M * ?b powi (int (frac_words r) - int (frac_words l))"
    by (simp add: mag_def power_int_diff)
  have q: "?Q = int (nl - 1 + e) - int (nr - 1) + (int (frac_words r) - int (frac_words l))"
    using n by (simp add: quot_words_def e_def)
  have pos: "0 < ?b powi (int (frac_words r) - int (frac_words l))" by (simp add: zero_less_power_int)
  have "(of_nat (?N * WORD_BASE ^ (nr - 1)) :: rat) < of_nat (?M * WORD_BASE ^ (nl - 1 + e))" using up by (simp only: of_nat_less_iff)
  then have "of_nat ?N / of_nat ?M < ?b ^ (nl - 1 + e) / ?b ^ (nr - 1)" using M0 by (simp add: field_simps)
  then have "of_nat ?N / of_nat ?M < ?b powi (int (nl - 1 + e) - int (nr - 1))" by (simp add: power_int_diff del: of_nat_add)
  then show "mag l / mag r < ?b powi ?Q" unfolding x q power_int_add[OF disjI1[OF b0(1)]] using pos by (rule mult_strict_right_mono)
  have "(of_nat (?M * WORD_BASE ^ (nl - 1 + e)) :: rat) < of_nat (2 * ?N * WORD_BASE ^ nr)" using lo by (simp only: of_nat_less_iff)
  then have "?b ^ (nl - 1 + e) / ?b ^ nr < 2 * (of_nat ?N / of_nat ?M)" using M0 by (simp add: field_simps)
  then have lt: "?b powi (int (nl - 1 + e) - int nr) < 2 * (of_nat ?N / of_nat ?M)" by (simp add: power_int_diff del: of_nat_add)
  have q1: "?Q - 1 = int (nl - 1 + e) - int nr + (int (frac_words r) - int (frac_words l))" using q n by simp
  have "?b powi (?Q - 1) = ?b powi (int (nl - 1 + e) - int nr) * ?b powi (int (frac_words r) - int (frac_words l))"
    unfolding q1 by (rule power_int_add) simp
  also have "\<dots> < 2 * (of_nat ?N / of_nat ?M) * ?b powi (int (frac_words r) - int (frac_words l))"
    using lt pos by (rule mult_strict_right_mono)
  finally show "?b powi (?Q - 1) < 2 * (mag l / mag r)" by (simp only: x mult.assoc)
qed

end
