(* ===== verification/Decimal_Div_Correct.thy ===== *)
theory Decimal_Div_Correct
  imports Decimal_Div_Setup
begin

text \<open>
  Correctness of the division and the remainder of decimals, \<open>do_div_mod_impl\<close> of
  \<open>src/berolinasql/src/decimal.rs\<close>: the quotient is exact up to the words of the result, the
  remainder is exact, and where both operations go wrong.
\<close>

section \<open>The code around the loop\<close>

text \<open>The words of the quotient, and the length of the buffer for the dividend.\<close>

definition result_words :: "bool \<Rightarrow> decimal \<Rightarrow> decimal \<Rightarrow> nat \<Rightarrow> int \<Rightarrow> nat \<times> nat \<times> decimal res" where
  "result_words do_mod l r incr q =
     (let iw = (if q \<le> 9 then nat q else 10) in
      if do_mod then (iw, 0, Ok (new_dec 0 (max (frac_cnt l) (frac_cnt r)) (negative l)))
      else
        let sz = fix_word_cnt_err iw (word_cnt (sat_add8 (sat_add8 (frac_words l * 9) (frac_words r * 9)) incr)) 9;
            (iw, fw) = deref sz
        in (iw, fw, res_map (\<lambda>_. new_dec (iw * 9) (fw * 9) (negative l \<noteq> negative r)) sz))"

definition buf_words :: "nat \<Rightarrow> decimal \<Rightarrow> nat \<Rightarrow> nat" where
  "buf_words n r incr = max 3 (n + word_cnt (sat_add8 (sat_add8 (sat_mul8 (frac_words r * 9) 2) incr) 1) + 1)"

definition frac_slack :: "decimal \<Rightarrow> decimal \<Rightarrow> nat" where
  "frac_slack l r = (frac_words l * 9 - frac_cnt l) + (frac_words r * 9 - frac_cnt r)"

lemma frac_cnt_le: "dec_ok d \<Longrightarrow> frac_cnt d \<le> frac_words d * 9"
  using word_cnt_ge[of "frac_cnt d"] dec_okD(3)[of d] by simp

lemma long_div_loop:
  assumes l: "sig_words l li lc nl lp" "dec_ok l" and r: "sig_words r ri rc nr rp" "dec_ok r"
    and Q: "Q = quot_words l li nl r ri nr" and incr: "incr = frac_incr - frac_slack l r"
    and w: "(iw, fw, res) = result_words do_mod l r incr Q"
    and idx: "idx = (if \<not> do_mod \<and> Q < 0 then min (nat (- Q)) 9 else 0)"
    and L: "L = take nl (drop li (word_buf l))" and buf: "buf = L @ replicate (buf_words nl r incr - nl) 0"
    and dk: "(d, k) = (if L ! 0 < word_buf r ! ri then (L ! 0, 1) else (0, 0))"
    and m: "last_word (word_buf r) ri (ri + nr - 1) = Some (ri + m)" "m < nr"
    and nf: "nf = int (WORD_BASE div (word_buf r ! ri + 1))"
    and rn: "rn = nf * int (word_buf r ! ri) + (if m > 0 then nf * int (word_buf r ! (ri + 1)) div int WORD_BASE else 0)"
  shows "long_div l r frac_incr do_mod ri rc (frac_words r * 9) li lc (frac_words l * 9) =
    div_loop (word_buf r) ri m nf rn do_mod idx (iw + fw - idx) (word_buf (deref res)) buf k (int d) \<bind>
    (\<lambda>(qb, buf, k, dcarry).
       if do_mod then mod_result r lc (frac_words l * 9) buf k dcarry (deref res)
       else Some (res_map (\<lambda>d. d\<lparr>word_buf := qb\<rparr>) res))"
proof -
  note sl = l(1)[unfolded sig_words_def] and sr = r(1)[unfolded sig_words_def]
  note bl = sig_bounds[OF l] and br = sig_bounds[OF r]
  have lens: "length (word_buf l) = 9" "length (word_buf r) = 9" using dec_okD(1) l(2) r(2) by blast+
  have fl: "frac_cnt l \<le> frac_words l * 9" "frac_cnt r \<le> frac_words r * 9" using l(2) r(2) by (auto intro: frac_cnt_le)
  have f9: "frac_words l \<le> 9" "frac_words r \<le> 9" using dec_okD(3)[OF l(2)] dec_okD(3)[OF r(2)] by simp_all
  define z where "z = (int lc - int (frac_words l * 9)) - (int rc - int (frac_words r * 9)) + (if word_buf r ! ri \<le> word_buf l ! li then 1 else 0)"
  have zq: "9 * (Q - 1) < z" "z \<le> 9 * Q" using digits_bound[OF l(1) r(1) z_def] Q by simp_all
  obtain ict where pair: "(if z < 0 then (sdiv z 9, 0) else (z, word_cnt_i z)) = (ict, if Q \<le> 9 then nat Q else 10)"
      "ict < 0 \<longleftrightarrow> Q < 0" "Q < 0 \<longrightarrow> ict = Q"
    using word_cnt_digits[OF zq] sdiv_digits[OF zq] zq by (cases "z < 0") auto
  have a: "usub (frac_words l * 9) (frac_cnt l) = Some (frac_words l * 9 - frac_cnt l)"
    "uadd 8 (frac_words l * 9 - frac_cnt l) (frac_words r * 9) = Some (frac_words l * 9 - frac_cnt l + frac_words r * 9)"
    "usub (frac_words l * 9 - frac_cnt l + frac_words r * 9) (frac_cnt r) = Some (frac_slack l r)"
    using fl f9 by (simp_all add: usub_def uadd_def frac_slack_def)
  have n1: "1 \<le> nl" "1 \<le> nr" using sl sr by simp_all
  have g: "get_at (word_buf l) li = Some (word_buf l ! li)" "get_at (word_buf r) ri = Some (word_buf r ! ri)"
    using lens bl(5) br(5) n1 by (simp_all add: get_at_def)
  have Q17: "- Q < 256" "- Q < 256" using Q sl sr f9 dec_okD(3)[OF r(2)] by (auto simp: quot_words_def)
  have ix: "(if \<not> do_mod \<and> ict < 0 then min (as_unsigned 8 (- ict)) 9 else 0) = idx"
    using pair Q17 by (auto simp: idx as_unsigned_def)
  have sl': "slice_at (word_buf l) li (li + nl) = Some L" "length L = nl" "L ! 0 = word_buf l ! li" "buf ! 0 = L ! 0" "buf \<noteq> []"
    using bl(5) lens(1) n1 by (auto simp: slice_at_def L buf nth_append)
  have e: "usub (ri + nr) 1 = Some (ri + nr - 1)" "usub (ri + m) ri = Some m" using n1 by (simp_all add: usub_def)
  have rn1: "(if m > 0 then do {
            r1 \<leftarrow> get_at (word_buf r) (ri + 1);
            Some (nf * int (word_buf r ! ri) + sdiv (nf * int r1) (int WORD_BASE)) }
          else Some (nf * int (word_buf r ! ri))) = Some rn"
    using m(2) br(5) lens unfolding rn by (simp add: get_at_def sdiv_pos nf)
  have b0: "get_at buf 0 = Some (L ! 0)" using sl' by (simp add: get_at_def)
  have dk1: "(if L ! 0 < word_buf r ! ri then (as_signed 32 (int (L ! 0)), 1) else (0, 0)) = (int d, k)"
    using dk bl(4) sl'(3) by (auto simp: as_signed_small WORD_BASE_def split: if_splits)
  have zc: "(if word_buf r ! ri \<le> word_buf l ! li then int lc - int (frac_words l * 9) - (int rc - int (frac_words r * 9)) + 1
      else int lc - int (frac_words l * 9) - (int rc - int (frac_words r * 9))) = z" by (simp add: z_def)
  have ll: "buf_words nl r incr = max 3 (nl + word_cnt (sat_add8 (sat_add8 (sat_mul8 (frac_words r * 9) 2) incr) 1) + 1)"
    "nl \<le> buf_words nl r incr" by (simp_all add: buf_words_def)
  have wc: "word_cnt lc = nl" "word_cnt rc = nr" using sl sr by blast+
  note w' = w[symmetric, unfolded result_words_def Let_def]
  show ?thesis
    unfolding long_div_def Let_def a g bind.bind_lunit zc incr[symmetric] wc DIGITS_PER_WORD_def WORD_BUF_LEN_def of_nat_numeral pair(1) case_prod_conv
      w' ll(1)[symmetric] sl'(1) if_P[OF ll(2)] e(1) m(1) e(2) nf[symmetric] rn1 buf[symmetric] b0 dk1 ix ..
qed

section \<open>Sizes\<close>

lemma buf_words_ge:
  assumes "frac_words r \<le> 9"
  shows "n + frac_words r + 2 \<le> buf_words n r incr"
    "frac_words r \<le> 4 \<Longrightarrow> incr \<le> 8 \<Longrightarrow> n + 2 * frac_words r + 2 \<le> buf_words n r incr"
proof -
  let ?w = "word_cnt (sat_add8 (sat_add8 (sat_mul8 (frac_words r * 9) 2) incr) 1)"
  have "frac_words r + 1 \<le> ?w"
  proof (cases "frac_words r \<le> 4")
    case True
    have "word_cnt (2 * frac_words r * 9 + 1) \<le> ?w" using True by (intro word_cnt_mono) (simp add: sat_add8_def sat_mul8_def)
    moreover have "word_cnt (2 * frac_words r * 9 + 1) = 2 * frac_words r + 1" using True by (simp add: word_cnt_def)
    ultimately show ?thesis by simp
  next
    case False
    have "word_cnt 82 \<le> ?w" using False assms by (intro word_cnt_mono) (simp add: sat_add8_def sat_mul8_def)
    then show ?thesis using assms by (simp add: word_cnt_def)
  qed
  then show "n + frac_words r + 2 \<le> buf_words n r incr" by (simp add: buf_words_def)
  assume "frac_words r \<le> 4" "incr \<le> 8"
  then have "?w = word_cnt (2 * frac_words r * 9 + incr + 1)" "2 * frac_words r * 9 + incr + 1 \<le> 81"
    by (simp_all add: sat_add8_def sat_mul8_def)
  moreover have "2 * frac_words r + 1 \<le> (2 * frac_words r * 9 + incr + 1 + 8) div 9" by simp
  ultimately have "2 * frac_words r + 1 \<le> ?w" by (simp add: word_cnt_def)
  then show "n + 2 * frac_words r + 2 \<le> buf_words n r incr" by (simp add: buf_words_def)
qed

lemma word_cnt_mult_le: "word_cnt (n * 9) \<le> n"
  by (auto simp: word_cnt_def)

text \<open>The three outcomes of the size computation of a quotient.\<close>

lemma result_words_cases:
  assumes d: "dec_ok l" "dec_ok r" and w: "(iw, fw, res) = result_words False l r incr Q"
    and incr: "incr = i - frac_slack l r" "i \<le> 8"
  shows "fw \<le> frac_words l + frac_words r + 1" "iw + fw \<le> 9" "int iw = max 0 Q \<or> (Q \<ge> 10 \<and> iw = 9 \<and> fw = 0)"
    "deref res = new_dec (iw * 9) (fw * 9) (negative l \<noteq> negative r)"
    "is_overCausetxctx res \<longleftrightarrow> Q \<ge> 10"
    "is_ok res \<Longrightarrow> frac_cnt l + frac_cnt r + i \<le> fw * 9" "\<not> is_ok res \<Longrightarrow> iw + fw = 9"
proof -
  let ?iw = "if Q \<le> 9 then nat Q else 10" and ?f = "word_cnt (sat_add8 (sat_add8 (frac_words l * 9) (frac_words r * 9)) incr)"
  have fl: "frac_cnt l \<le> frac_words l * 9" "frac_cnt r \<le> frac_words r * 9" using d by (auto intro: frac_cnt_le)
  have f9: "frac_words l \<le> 9" "frac_words r \<le> 9" using dec_okD(3)[OF d(1)] dec_okD(3)[OF d(2)] by simp_all
  have s: "sat_add8 (sat_add8 (frac_words l * 9) (frac_words r * 9)) incr = (frac_words l + frac_words r) * 9 + incr"
    using f9 incr by (simp add: sat_add8_def algebra_simps)
  have ub: "?f \<le> frac_words l + frac_words r + 1"
  proof -
    have "?f \<le> word_cnt ((frac_words l + frac_words r + 1) * 9)" unfolding s using incr by (intro word_cnt_mono) simp
    also have "\<dots> \<le> frac_words l + frac_words r + 1" by (rule word_cnt_mult_le)
    finally show ?thesis .
  qed
  have lb: "?f \<le> 9 \<Longrightarrow> frac_cnt l + frac_cnt r + i \<le> ?f * 9"
    using word_cnt_ge[of "(frac_words l + frac_words r) * 9 + incr"] fl incr unfolding s by (simp add: frac_slack_def)
  note w' = w[unfolded result_words_def fix_word_cnt_err_def Let_def]
  have c: "res = (if ?iw + ?f > 9 then if ?iw > 9 then OverCausetxctx (deref res) else Truncated (deref res) else Ok (deref res))"
    "iw = (if ?iw > 9 then 9 else ?iw)" "fw = (if ?iw + ?f > 9 then if ?iw > 9 then 0 else 9 - ?iw else ?f)"
    "deref res = new_dec (iw * 9) (fw * 9) (negative l \<noteq> negative r)"
    using w' by (auto split: if_splits)
  show "deref res = new_dec (iw * 9) (fw * 9) (negative l \<noteq> negative r)" by (rule c)
  show "fw \<le> frac_words l + frac_words r + 1" "iw + fw \<le> 9" using c(2,3) ub by (auto split: if_splits)
  show "int iw = max 0 Q \<or> (Q \<ge> 10 \<and> iw = 9 \<and> fw = 0)" using c(2,3) by (auto split: if_splits)
  show "is_overCausetxctx res \<longleftrightarrow> Q \<ge> 10" by (subst c(1)) auto
  show "is_ok res \<Longrightarrow> frac_cnt l + frac_cnt r + i \<le> fw * 9" using lb by (subst (asm) c(1)) (auto simp: c(3) split: if_splits)
  show "\<not> is_ok res \<Longrightarrow> iw + fw = 9" by (subst (asm) c(1)) (auto simp: c(2,3) split: if_splits)
qed

section \<open>The loop in terms of the operands\<close>

text \<open>
  What the loop is entered with, for operands whose significant words are known. The last
  nonzero word of the divisor is \<open>m\<close> words behind its first.
\<close>

lemma loop_entered:
  assumes l: "sig_words l li lc nl lp" "dec_ok l" and r: "sig_words r ri rc nr rp" "dec_ok r"
    and L: "L = take nl (drop li (word_buf l))" and buf: "buf = L @ replicate e 0"
    and dk: "(d, k) = (if L ! 0 < word_buf r ! ri then (L ! 0, 1) else (0, 0))"
    and m: "m < nr" and R: "R = bval WORD_BASE (take (Suc m) (drop ri (word_buf r)))"
  shows "length L = nl" "below WORD_BASE L" "bval WORD_BASE L = bval WORD_BASE (used l)" "ri + m < length (word_buf r)" "below WORD_BASE (word_buf r)"
    "1 \<le> word_buf r ! ri" "below WORD_BASE buf" "d \<noteq> 0 \<longrightarrow> 0 < k \<and> buf ! (k - 1) = d" "0 < R" "d \<noteq> 0 \<longleftrightarrow> k = 1"
    "int k = 1 - (if word_buf r ! ri \<le> word_buf l ! li then 1 else 0)"
    "k + m \<le> length buf \<Longrightarrow> part_value d buf k m < R"
    "k + j \<le> length buf \<Longrightarrow> part_value d buf k j = bval WORD_BASE (used l) * WORD_BASE ^ (k + j) div WORD_BASE ^ nl"
proof -
  note bl = sig_bounds[OF l] and br = sig_bounds[OF r] and okl = dec_okD[OF l(2)] and okr = dec_okD[OF r(2)]
  have n1: "1 \<le> nl" "1 \<le> nr" using l(1) r(1) by (simp_all add: sig_words_def)
  show lL: "length L = nl" "below WORD_BASE L" using bl(5) okl by (auto simp: L)
  show vL: "bval WORD_BASE L = bval WORD_BASE (used l)" using l(1) by (simp add: sig_words_def L)
  show rb: "ri + m < length (word_buf r)" "below WORD_BASE (word_buf r)" "1 \<le> word_buf r ! ri"
    using br m okr by simp_all
  note ls = loop_start[OF lL(1) n1(1) lL(2) rb buf R dk]
  have L0: "L ! 0 = word_buf l ! li" using bl(5) n1 okl(1) by (simp add: L)
  show "below WORD_BASE buf" "d \<noteq> 0 \<longrightarrow> 0 < k \<and> buf ! (k - 1) = d" using ls(3,4) by simp_all
  show "d \<noteq> 0 \<longleftrightarrow> k = 1" "int k = 1 - (if word_buf r ! ri \<le> word_buf l ! li then 1 else 0)"
    using dk L0 bl(3) by (auto split: if_splits)
  have "word_buf r ! ri * WORD_BASE ^ m \<le> R" using seg_head[of ri m "word_buf r" WORD_BASE] rb by (simp add: R)
  then show "0 < R" using rb(3) by (metis WORD_BASE_pos(1) less_le_trans mult_pos_pos zero_less_one zero_less_power)
  show "k + m \<le> length buf \<Longrightarrow> part_value d buf k m < R" by (rule ls(1))
  show "k + j \<le> length buf \<Longrightarrow> part_value d buf k j = bval WORD_BASE (used l) * WORD_BASE ^ (k + j) div WORD_BASE ^ nl"
    using ls(2)[of j] bval_prefix[OF lL(2), of "k + j" e] by (simp add: buf lL(1) vL)
qed

lemma quotient_value:
  fixes N M R B :: nat
  assumes "M = R * B ^ (nr - 1 - m)" "m < nr" "0 < B"
  shows "N * B ^ (k + (m + n)) div B ^ nl div R = N * B ^ (k + n + nr - 1) div (B ^ nl * M)"
proof -
  have e: "k + (m + n) + (nr - 1 - m) = k + n + nr - 1" using assms(2) by simp
  have "N * B ^ (k + (m + n)) div B ^ nl div R = N * B ^ (k + (m + n)) div (B ^ nl * R)" by (rule div_mult2_eq[symmetric])
  also have "\<dots> = N * B ^ (k + (m + n)) * B ^ (nr - 1 - m) div (B ^ nl * R * B ^ (nr - 1 - m))" using assms(3) by simp
  also have "N * B ^ (k + (m + n)) * B ^ (nr - 1 - m) = N * B ^ (k + n + nr - 1)" by (simp only: mult.assoc power_add[symmetric] e)
  finally show ?thesis by (simp only: assms(1) mult.assoc)
qed

text \<open>The quotient of the magnitudes, cut after \<open>f\<close> words behind the point.\<close>

lemma quotient_floor:
  assumes "FL + e = nl + FR + f" "0 < M" "0 < B"
  shows "\<lfloor>(of_nat N / of_nat B ^ FL) / (of_nat M / of_nat B ^ FR) * of_nat B ^ f :: rat\<rfloor> = int (N * B ^ e div (B ^ nl * M))"
proof -
  have "(of_nat B :: rat) ^ FL * of_nat B ^ e = of_nat B ^ nl * of_nat B ^ FR * of_nat B ^ f"
    by (simp only: power_add[symmetric] assms(1))
  then have "(of_nat N / of_nat B ^ FL) / (of_nat M / of_nat B ^ FR) * of_nat B ^ f = (of_nat (N * B ^ e) / of_nat (B ^ nl * M) :: rat)"
    using assms(2,3) by (simp add: field_simps)
  then show ?thesis by (simp only: floor_divide_of_nat_eq of_int_of_nat_eq)
qed

section \<open>The quotient\<close>

lemma mag_words:
  assumes "int_cnt d = iw * 9" "frac_cnt d = fw * 9" "iw + fw \<le> 9"
  shows "mag d = of_nat (bval WORD_BASE (take (iw + fw) (word_buf d))) / of_nat WORD_BASE ^ fw"
  using assms by (simp add: mag_def used_def)

lemma small_quotient:
  assumes "x < of_nat WORD_BASE powi q" "q + int f \<le> 0" "0 \<le> x"
  shows "\<lfloor>x * of_nat WORD_BASE ^ f :: rat\<rfloor> = 0"
proof -
  have b: "(1::rat) \<le> of_nat WORD_BASE" by (simp add: WORD_BASE_def)
  have "x * of_nat WORD_BASE ^ f < of_nat WORD_BASE powi q * of_nat WORD_BASE ^ f"
    using assms(1) by (intro mult_strict_right_mono) simp_all
  also have "\<dots> = of_nat WORD_BASE powi (q + int f)" by (simp add: power_int_add)
  also have "\<dots> \<le> of_nat WORD_BASE powi 0" using assms(2) b by (rule power_int_increasing)
  finally show ?thesis using assms(3) by (simp add: floor_eq_iff)
qed

lemma long_div_quotient:
  assumes l: "sig_words l li lc nl lp" "dec_ok l" and r: "sig_words r ri rc nr rp" "dec_ok r"
    and f: "frac_words r \<le> 4" and i: "i \<le> 8" and Q: "Q = quot_words l li nl r ri nr"
  shows "\<exists>res iw fw. long_div l r i False ri rc (frac_words r * 9) li lc (frac_words l * 9) = Some res \<and>
    (is_overCausetxctx res \<longleftrightarrow> 10 \<le> Q) \<and> (is_ok res \<longrightarrow> frac_cnt l + frac_cnt r + i \<le> fw * 9) \<and> (\<not> is_ok res \<longrightarrow> iw + fw = 9) \<and>
    iw + fw \<le> 9 \<and> int_cnt (deref res) = iw * 9 \<and> frac_cnt (deref res) = fw * 9 \<and> negative (deref res) = (negative l \<noteq> negative r) \<and>
    length (word_buf (deref res)) = 9 \<and> below WORD_BASE (word_buf (deref res)) \<and>
    (\<not> is_overCausetxctx res \<longrightarrow> mag (deref res) = of_int \<lfloor>mag l / mag r * of_nat WORD_BASE ^ fw\<rfloor> / of_nat WORD_BASE ^ fw)"
proof -
  define incr where "incr = i - frac_slack l r"
  define L where "L = take nl (drop li (word_buf l))"
  define buf where "buf = L @ replicate (buf_words nl r incr - nl) 0"
  obtain d k :: nat where dk: "(d, k) = (if L ! 0 < word_buf r ! ri then (L ! 0, 1) else (0, 0))" by (metis surj_pair)
  obtain iw fw res where w: "(iw, fw, res) = result_words False l r incr Q" by (metis surj_pair)
  note rw = result_words_cases[OF l(2) r(2) w incr_def i]
  define idx where "idx = (if Q < 0 then min (nat (- Q)) 9 else 0)"
  have br: "ri + nr \<le> length (word_buf r)" "1 \<le> word_buf r ! ri" "1 \<le> nr" "frac_words r \<le> 9"
    using sig_bounds[OF r] dec_okD[OF r(2)] r(1) by (simp_all add: sig_words_def)
  obtain m where m: "last_word (word_buf r) ri (ri + nr - 1) = Some (ri + m)" "m < nr"
    "bval WORD_BASE (take nr (drop ri (word_buf r))) = bval WORD_BASE (take (Suc m) (drop ri (word_buf r))) * WORD_BASE ^ (nr - 1 - m)"
    using last_word_ok[OF br(1-3)] by blast
  define R where "R = bval WORD_BASE (take (Suc m) (drop ri (word_buf r)))"
  note en = loop_entered[OF l r L_def buf_def dk m(2) R_def]
  let ?N = "bval WORD_BASE (used l)" and ?M = "bval WORD_BASE (used r)"
  have M: "?M = R * WORD_BASE ^ (nr - 1 - m)" using r(1) m(3) by (simp add: sig_words_def R_def)
  then have M0: "0 < ?M" using en(9) by simp
  define n where "n = iw + fw - idx"
  have bl: "nl + 2 * frac_words r + 2 \<le> length buf"
  proof -
    have "incr \<le> 8" using i by (simp add: incr_def)
    then have "nl + 2 * frac_words r + 2 \<le> buf_words nl r incr" by (rule buf_words_ge(2)[OF br(4) f])
    then show ?thesis using en(1) by (simp add: buf_def)
  qed
  have q: "Q = (int nl - int (frac_words l)) - (int nr - int (frac_words r)) + 1 - int k"
    using en(11) by (simp add: Q quot_words_def)
  have nQ: "int n \<le> max 0 (Q + int fw)" using rw(2,3) by (auto simp: n_def idx_def)
  have nle: "n \<noteq> 0 \<Longrightarrow> k + n + m \<le> length buf \<and> k + n < length buf" using nQ q rw(1) m(2) bl by linarith
  have run: "\<exists>qs buf' d'. div_loop (word_buf r) ri m (int (WORD_BASE div (word_buf r ! ri + 1)))
      (int (WORD_BASE div (word_buf r ! ri + 1)) * int (word_buf r ! ri) +
       (if m > 0 then int (WORD_BASE div (word_buf r ! ri + 1)) * int (word_buf r ! (ri + 1)) div int WORD_BASE else 0))
      False idx n (replicate 9 0) buf k (int d) = Some (take idx (replicate 9 0) @ qs @ drop (idx + n) (replicate 9 0), buf', k + n, d') \<and>
      length qs = n \<and> below WORD_BASE qs \<and> (n \<noteq> 0 \<longrightarrow> bval WORD_BASE qs = ?N * WORD_BASE ^ (k + n + nr - 1) div (WORD_BASE ^ nl * ?M))"
  proof (cases "n = 0")
    case True
    have "idx \<le> 9" by (simp add: idx_def)
    then show ?thesis using True by (simp add: min_def flip: replicate_add)
  next
    case False
    have "idx + n \<le> 9" using rw(2) False by (simp add: n_def)
    then show ?thesis
      using div_loop_ok[OF en(4,5,6) refl refl R_def, where do_mod = False and idx = idx and qb = "replicate 9 0" and k = k and n = n and buf = buf and d = d]
        nle[OF False] en(7,8,12) en(13)[of "m + n"] quotient_value[OF M m(2), of ?N k n nl] by (auto simp: add.assoc)
  qed
  then obtain qs buf' d' where qs: "div_loop (word_buf r) ri m (int (WORD_BASE div (word_buf r ! ri + 1)))
      (int (WORD_BASE div (word_buf r ! ri + 1)) * int (word_buf r ! ri) +
       (if m > 0 then int (WORD_BASE div (word_buf r ! ri + 1)) * int (word_buf r ! (ri + 1)) div int WORD_BASE else 0))
      False idx n (replicate 9 0) buf k (int d) = Some (take idx (replicate 9 0) @ qs @ drop (idx + n) (replicate 9 0), buf', k + n, d')"
    "length qs = n" "below WORD_BASE qs" "n \<noteq> 0 \<longrightarrow> bval WORD_BASE qs = ?N * WORD_BASE ^ (k + n + nr - 1) div (WORD_BASE ^ nl * ?M)" by blast
  let ?wb = "take idx (replicate 9 0) @ qs @ drop (idx + n) (replicate 9 (0::nat))"
  let ?res = "res_map (\<lambda>d. d\<lparr>word_buf := ?wb\<rparr>) res"
  have idx9: "idx \<le> 9" by (simp add: idx_def)
  have len: "length ?wb = 9" "below WORD_BASE ?wb" using qs(2,3) idx9 rw(2) by (auto simp: n_def)
  have ld: "long_div l r i False ri rc (frac_words r * 9) li lc (frac_words l * 9) = Some ?res"
    using long_div_loop[OF l r Q incr_def w _ L_def buf_def dk m(1,2) refl refl, of idx] qs(1) rw(4)
    by (simp add: idx_def n_def new_dec_def)
  have val: "mag (deref ?res) = of_int \<lfloor>mag l / mag r * of_nat WORD_BASE ^ fw\<rfloor> / of_nat WORD_BASE ^ fw" if no: "\<not> 10 \<le> Q"
  proof -
    have iwQ: "int iw = max 0 Q" using rw(3) no by simp
    let ?ws = "take (iw + fw) ?wb"
    have mv: "mag (deref ?res) = of_nat (bval WORD_BASE ?ws) / of_nat WORD_BASE ^ fw"
      using mag_words[of "deref ?res" iw fw] rw(2,4) by (simp add: new_dec_def)
    have x0: "0 \<le> mag l / mag r" by (simp add: mag_nonneg)
    show ?thesis
    proof (cases "n = 0")
      case True
      have "bval WORD_BASE ?wb = 0" using True qs(2) by (simp add: bval_append)
      then have "bval WORD_BASE ?ws = 0" by (metis bval_zero_iff in_set_takeD WORD_BASE_pos(1))
      moreover have "Q + int fw \<le> 0" using True iwQ rw(2) by (simp add: n_def idx_def split: if_splits)
      then have "\<lfloor>mag l / mag r * of_nat WORD_BASE ^ fw\<rfloor> = 0"
        using small_quotient[OF _ _ x0] quot_bounds(1)[OF l r] Q by blast
      ultimately show ?thesis using mv by simp
    next
      case False
      then have nq: "int n = Q + int fw" "idx + n = iw + fw" using iwQ rw(2) by (auto simp: n_def idx_def)
      have "?ws = replicate idx 0 @ qs" using nq(2) qs(2) idx9 by (simp add: min_def)
      then have b: "bval WORD_BASE ?ws = ?N * WORD_BASE ^ (k + n + nr - 1) div (WORD_BASE ^ nl * ?M)"
        using qs(4) False by (simp add: bval_append)
      have "frac_words l + (k + n + nr - 1) = nl + frac_words r + fw" using nq(1) q br(3) by linarith
      then show ?thesis unfolding mv b unfolding mag_def by (subst quotient_floor[OF _ M0]) simp_all
    qed
  qed
  show ?thesis by (rule exI[of _ ?res], rule exI[of _ iw], rule exI[of _ fw])
    (use ld val rw(2,4-7) len in \<open>auto simp: new_dec_def\<close>)
qed

section \<open>Division of decimals\<close>

text \<open>A number cut towards zero after \<open>f\<close> words behind the point.\<close>

definition cut_words :: "nat \<Rightarrow> rat \<Rightarrow> rat" where
  "cut_words f x = (if x < 0 then - 1 else 1) * (of_int \<lfloor>\<bar>x\<bar> * of_nat WORD_BASE ^ f\<rfloor> / of_nat WORD_BASE ^ f)"

lemma abs_quotient: "\<bar>dec_value l / dec_value r\<bar> = mag l / mag r"
  using mag_nonneg[of l] mag_nonneg[of r] by (simp add: dec_value_def abs_divide)

lemma quotient_negative:
  "mag l \<noteq> 0 \<Longrightarrow> mag r \<noteq> 0 \<Longrightarrow> dec_value l / dec_value r < 0 \<longleftrightarrow> negative l \<noteq> negative r"
  using mag_nonneg[of l] mag_nonneg[of r] by (auto simp: dec_value_def divide_less_0_iff)

text \<open>
  C6: division is correct. For well-formed nonzero operands, the divisor with at most 36 fraction
  digits, the quotient is returned without panic; unless it is reported as overflowing it is the
  exact quotient cut towards zero after the fraction words of the result. A result that is \<open>Ok\<close> has at
  least the fraction digits of both operands and the four of the division increment, one that is
  truncated fills all nine words, and an overflow means a quotient of more than half of what nine
  integer words hold.\<close>

theorem div_dec_correct:
  assumes "dec_ok l" "lead_ok l" "dec_ok r" "lead_ok r" "dec_value l \<noteq> 0" "dec_value r \<noteq> 0" "frac_cnt r \<le> 36"
  shows "\<exists>res. div_dec l r = Some (Some res) \<and>
    (is_overCausetxctx res \<longrightarrow> of_nat WORD_BASE ^ 9 < 2 * \<bar>dec_value l / dec_value r\<bar>) \<and>
    (\<not> is_overCausetxctx res \<longrightarrow> dec_ok (deref res) \<and>
       dec_value (deref res) = cut_words (frac_words (deref res)) (dec_value l / dec_value r)) \<and>
    (is_ok res \<longrightarrow> frac_cnt l + frac_cnt r + DEFAULT_DIV_FRAC_INCR \<le> frac_cnt (deref res)) \<and>
    (is_truncated res \<longrightarrow> int_words (deref res) + frac_words (deref res) = WORD_BUF_LEN)"
proof -
  have nz: "mag l \<noteq> 0" "mag r \<noteq> 0" using assms(5,6) by (auto simp: dec_value_def split: if_splits)
  obtain li lc nl lp where l: "uadd 8 (int_cnt l) (frac_words l * DIGITS_PER_WORD) = Some (int_cnt l + frac_words l * 9)"
    "remove_leading_zeroes l (int_cnt l + frac_words l * 9) = Some (li, lc)" "sig_words l li lc nl lp"
    using sig_words_exist[OF assms(1,2) nz(1)] by blast
  obtain ri rc nr rp where r: "uadd 8 (int_cnt r) (frac_words r * DIGITS_PER_WORD) = Some (int_cnt r + frac_words r * 9)"
    "remove_leading_zeroes r (int_cnt r + frac_words r * 9) = Some (ri, rc)" "sig_words r ri rc nr rp"
    using sig_words_exist[OF assms(3,4) nz(2)] by blast
  have c: "lc \<noteq> 0" "rc \<noteq> 0" using l(3) r(3) by (auto simp: sig_words_def)
  have f: "frac_words r \<le> 4" using word_cnt_mono[OF assms(7)] by (simp add: word_cnt_def)
  define Q where "Q = quot_words l li nl r ri nr"
  from long_div_quotient[OF l(3) assms(1) r(3) assms(3) f _ Q_def, of 4] obtain res iw fw where
    q: "long_div l r 4 False ri rc (frac_words r * 9) li lc (frac_words l * 9) = Some res"
      "is_overCausetxctx res \<longleftrightarrow> 10 \<le> Q" "is_ok res \<longrightarrow> frac_cnt l + frac_cnt r + 4 \<le> fw * 9" "\<not> is_ok res \<longrightarrow> iw + fw = 9"
      "iw + fw \<le> 9" "int_cnt (deref res) = iw * 9" "frac_cnt (deref res) = fw * 9" "negative (deref res) = (negative l \<noteq> negative r)"
      "length (word_buf (deref res)) = 9" "below WORD_BASE (word_buf (deref res))"
      "\<not> is_overCausetxctx res \<longrightarrow> mag (deref res) = of_int \<lfloor>mag l / mag r * of_nat WORD_BASE ^ fw\<rfloor> / of_nat WORD_BASE ^ fw" by auto
  define res2 where "res2 = res_map (\<lambda>d. d\<lparr>result_frac_cnt := min (sat_add8 (result_frac_cnt l) 4) MAX_FRACTION\<rparr>) res"
  have run: "div_dec l r = Some (Some res2)"
    unfolding div_dec_def div_with_incr_def do_div_mod_def do_div_mod_impl_def Let_def r(1,2) l(1,2) bind.bind_lunit case_prod_conv
    using c q(1) by (simp add: res2_def r(2) l(2))
  have over: "of_nat WORD_BASE ^ 9 < 2 * \<bar>dec_value l / dec_value r\<bar>" if "is_overCausetxctx res"
  proof -
    have "(of_nat WORD_BASE :: rat) powi 9 \<le> of_nat WORD_BASE powi (Q - 1)"
      using q(2) that by (intro power_int_increasing) (simp_all add: WORD_BASE_def)
    then show ?thesis using quot_bounds(2)[OF l(3) assms(1) r(3) assms(3)] unfolding abs_quotient by (simp add: Q_def)
  qed
  have w: "int_words (deref res) = iw" "frac_words (deref res) = fw" using q(5-7) by simp_all
  have "0 < iw + fw" using q(3,4) by (cases "is_ok res") auto
  then have ok: "dec_ok (deref res)" using q(5-7,9,10) w by (simp add: dec_ok_def)
  have v: "\<not> is_overCausetxctx res \<Longrightarrow> dec_value (deref res) = cut_words fw (dec_value l / dec_value r)"
    unfolding cut_words_def abs_quotient quotient_negative[OF nz] using q(8,11) by (simp add: dec_value_def)
  have w2: "deref res2 = (deref res)\<lparr>result_frac_cnt := min (sat_add8 (result_frac_cnt l) 4) MAX_FRACTION\<rparr>" by (simp add: res2_def)
  have v2: "dec_value (deref res2) = dec_value (deref res)" by (simp add: w2 dec_value_def)
  have t2: "is_overCausetxctx res2 = is_overCausetxctx res" "is_ok res2 = is_ok res" "is_truncated res2 = is_truncated res" "is_truncated res \<longrightarrow> \<not> is_ok res"
    by (simp add: res2_def, simp add: res2_def, simp add: res2_def, cases res) simp_all
  show ?thesis
    by (intro exI[of _ res2] conjI impI run) (use over ok v v2 t2 q(3,4,7) w in \<open>simp_all add: w2\<close>)
qed

theorem div_dec_correct_witness:
  "div_dec (dec_words 2 1 True [10, 500000000]) (dec_words 1 0 False [4]) =
     Some (Some (Ok ((dec_words 9 9 True [2, 625000000])\<lparr>result_frac_cnt := 4\<rparr>))) \<and>
   dec_value ((dec_words 9 9 True [2, 625000000])\<lparr>result_frac_cnt := 4\<rparr>) =
     cut_words 1 (dec_value (dec_words 2 1 True [10, 500000000]) / dec_value (dec_words 1 0 False [4]))"
proof -
  let ?l = "dec_words 2 1 True [10, 500000000]" and ?r = "dec_words 1 0 False [4]"
  let ?q = "(dec_words 9 9 True [2, 625000000])\<lparr>result_frac_cnt := 4\<rparr>"
  have run: "div_dec ?l ?r = Some (Some (Ok ?q))" by code_simp
  have "dec_ok ?l" "lead_ok ?l" "dec_ok ?r" "lead_ok ?r" "dec_value ?l \<noteq> 0" "dec_value ?r \<noteq> 0" "frac_cnt ?r \<le> 36"
    by (simp_all add: dec_words_defs lead_ok_def mag_def dec_value_def)
  from div_dec_correct[OF this] run have "dec_value ?q = cut_words (frac_words ?q) (dec_value ?l / dec_value ?r)" by auto
  moreover have "frac_words ?q = 1" by (simp add: dec_words_defs)
  ultimately show ?thesis using run by simp
qed

section \<open>Where the division fails\<close>

text \<open>
  The buffer for the dividend counts at most ten words for the fraction of the divisor, so a divisor
  with more than 36 fraction digits can make the subtraction index past its end. Here the divisor has
  81 fraction digits, the quotient one word of weight and seven zero words before the next.\<close>

lemma division_overruns_buffer:
  "dec_ok (dec_words 0 81 False [1, 0, 0, 0, 0, 999999999, 999999999, 999999999, 999999999]) \<and>
   div_dec (dec_words 37 0 False [1, 0, 0, 0, 1])
     (dec_words 0 81 False [1, 0, 0, 0, 0, 999999999, 999999999, 999999999, 999999999]) = None"
  by (rule conjI, simp add: dec_words_defs, code_simp)

end
