(* ===== verification/Decimal_Rem_Correct.thy ===== *)
theory Decimal_Rem_Correct
  imports Decimal_Div_Correct
begin

text \<open>
  Correctness of the remainder of decimals, the \<open>do_mod\<close> branch of \<open>do_div_mod_impl\<close> of
  \<open>src/berolinasql/src/decimal.rs\<close>: what the loop leaves in the dividend, and the decimal the
  code builds from it.
\<close>

section \<open>The remainder in the dividend\<close>

lemma mod_scale:
  fixes p r b u :: nat
  assumes "u < b" "0 < r"
  shows "(p * b + u) mod (r * b) = (p mod r) * b + u"
proof -
  have "p * b = ((p div r) * r + p mod r) * b" by simp
  also have "\<dots> = (p mod r) * b + (p div r) * (r * b)" by (simp only: algebra_simps)
  finally have "p * b + u = ((p mod r) * b + u) + (p div r) * (r * b)" by linarith
  then have "(p * b + u) mod (r * b) = ((p mod r) * b + u) mod (r * b)" by (simp only: mod_mult_self1)
  also have "\<dots> = (p mod r) * b + u"
  proof (rule mod_less)
    have "(p mod r + 1) * b \<le> r * b" using assms(2) by (intro mult_right_mono) (simp_all add: Suc_le_eq)
    then show "(p mod r) * b + u < r * b" using assms(1) by simp
  qed
  finally show ?thesis .
qed

lemma long_div_remainder:
  assumes l: "sig_words l li lc nl lp" "dec_ok l" and r: "sig_words r ri rc nr rp" "dec_ok r"
    and Q: "Q = quot_words l li nl r ri nr" "Q \<le> 10"
    and F: "F = max (frac_words l) (frac_words r)" and Z: "Z = nl + F - frac_words l"
  shows "\<exists>buf k d. long_div l r i True ri rc (frac_words r * 9) li lc (frac_words l * 9) =
      mod_result r lc (frac_words l * 9) buf k (int d) (new_dec 0 (max (frac_cnt l) (frac_cnt r)) (negative l)) \<and>
    k \<le> Z \<and> Z \<le> length buf \<and> below WORD_BASE buf \<and> (d \<noteq> 0 \<longrightarrow> 0 < k \<and> buf ! (k - 1) = d) \<and>
    Z - (if d = 0 then k else k - 1) \<le> 9 \<and> int nl - int (frac_words l) - int (if d = 0 then k else k - 1) \<le> int (int_words r) \<and>
    part_value d buf k (Z - k) =
      (bval WORD_BASE (used l) * WORD_BASE ^ (F - frac_words l)) mod (bval WORD_BASE (used r) * WORD_BASE ^ (F - frac_words r))"
proof -
  define incr where "incr = i - frac_slack l r"
  define L where "L = take nl (drop li (word_buf l))"
  define buf where "buf = L @ replicate (buf_words nl r incr - nl) 0"
  obtain d k :: nat where dk: "(d, k) = (if L ! 0 < word_buf r ! ri then (L ! 0, 1) else (0, 0))" by (metis surj_pair)
  have w: "(nat Q, 0, Ok (new_dec 0 (max (frac_cnt l) (frac_cnt r)) (negative l))) = result_words True l r incr Q"
    using Q(2) by (auto simp: result_words_def)
  have br: "ri + nr \<le> length (word_buf r)" "1 \<le> word_buf r ! ri" "1 \<le> nr" "frac_words r \<le> 9" "ri + nr = int_words r + frac_words r"
    using sig_bounds[OF r] dec_okD[OF r(2)] r(1) by (simp_all add: sig_words_def)
  have bl: "1 \<le> nl" "nl \<le> 9" "li + nl = int_words l + frac_words l"
    using sig_bounds[OF l] dec_okD[OF l(2)] l(1) by (simp_all add: sig_words_def)
  have nr9: "nr \<le> 9" using br(1) dec_okD(1)[OF r(2)] by simp
  obtain m where m: "last_word (word_buf r) ri (ri + nr - 1) = Some (ri + m)" "m < nr"
    "bval WORD_BASE (take nr (drop ri (word_buf r))) = bval WORD_BASE (take (Suc m) (drop ri (word_buf r))) * WORD_BASE ^ (nr - 1 - m)"
    using last_word_ok[OF br(1-3)] by blast
  define R where "R = bval WORD_BASE (take (Suc m) (drop ri (word_buf r)))"
  note en = loop_entered[OF l r L_def buf_def dk m(2) R_def]
  let ?N = "bval WORD_BASE (used l)" and ?M = "bval WORD_BASE (used r)"
  have M: "?M = R * WORD_BASE ^ (nr - 1 - m)" using r(1) m(3) by (simp add: sig_words_def R_def)
  define n where "n = nat Q"
  have bufl: "nl + frac_words r + 2 \<le> length buf" using buf_words_ge(1)[OF br(4), of nl incr] en(1) by (simp add: buf_def)
  have q: "Q = (int nl - int (frac_words l)) - (int nr - int (frac_words r)) + 1 - int k"
    using en(11) by (simp add: Q quot_words_def)
  have k1: "k \<le> 1" using en(11) by (simp split: if_splits)
  have ZF: "Z + frac_words l = nl + F" "frac_words l \<le> F" "frac_words r \<le> F" "F = frac_words l \<or> F = frac_words r" using F Z by auto
  have Zl: "Z \<le> length buf" "nl \<le> Z" "Z - nl = F - frac_words l" using ZF bufl by linarith+
  have Zpow: "?N * WORD_BASE ^ Z div WORD_BASE ^ nl = ?N * WORD_BASE ^ (F - frac_words l)"
  proof -
    have "WORD_BASE ^ Z = WORD_BASE ^ (Z - nl) * WORD_BASE ^ nl" using Zl(2) by (simp flip: power_add)
    then show ?thesis using Zl(3) by simp
  qed
  have ld: "long_div l r i True ri rc (frac_words r * 9) li lc (frac_words l * 9) =
    div_loop (word_buf r) ri m (int (WORD_BASE div (word_buf r ! ri + 1)))
      (int (WORD_BASE div (word_buf r ! ri + 1)) * int (word_buf r ! ri) +
       (if m > 0 then int (WORD_BASE div (word_buf r ! ri + 1)) * int (word_buf r ! (ri + 1)) div int WORD_BASE else 0))
      True 0 n (replicate 9 0) buf k (int d) \<bind>
    (\<lambda>(qb, buf, k, dcarry). mod_result r lc (frac_words l * 9) buf k dcarry (new_dec 0 (max (frac_cnt l) (frac_cnt r)) (negative l)))"
    using long_div_loop[OF l r Q(1) incr_def w refl L_def buf_def dk m(1,2) refl refl] by (simp add: n_def new_dec_def)
  show ?thesis
  proof (cases "n = 0")
    case True
    have kZ: "k \<le> Z" using k1 bl(1) Zl(2) by linarith
    have "mag l / mag r < of_nat WORD_BASE powi Q" using quot_bounds(1)[OF l r] Q(1) by simp
    then have "\<lfloor>mag l / mag r * of_nat WORD_BASE ^ 0\<rfloor> = 0" using True by (intro small_quotient) (simp_all add: n_def mag_nonneg)
    then have "mag l / mag r < 1" by (simp add: floor_eq_iff)
    moreover have "0 < ?M" using M en(9) by simp
    then have "0 < mag r" by (simp add: mag_def)
    ultimately have "mag l < mag r" by (simp add: divide_less_eq)
    then have "(of_nat ?N / of_nat WORD_BASE ^ frac_words l) * of_nat WORD_BASE ^ F < (of_nat ?M / of_nat WORD_BASE ^ frac_words r) * (of_nat WORD_BASE ^ F :: rat)"
      by (intro mult_strict_right_mono) (simp_all add: mag_def)
    moreover have pF: "(of_nat WORD_BASE :: rat) ^ F = of_nat WORD_BASE ^ (F - frac_words l) * of_nat WORD_BASE ^ frac_words l"
      "(of_nat WORD_BASE :: rat) ^ F = of_nat WORD_BASE ^ (F - frac_words r) * of_nat WORD_BASE ^ frac_words r"
      using ZF by (simp_all flip: power_add)
    have "(of_nat ?N / of_nat WORD_BASE ^ frac_words l) * of_nat WORD_BASE ^ F = (of_nat (?N * WORD_BASE ^ (F - frac_words l)) :: rat)"
      by (subst pF(1)) simp
    moreover have "(of_nat ?M / of_nat WORD_BASE ^ frac_words r) * of_nat WORD_BASE ^ F = (of_nat (?M * WORD_BASE ^ (F - frac_words r)) :: rat)"
      by (subst pF(2)) simp
    ultimately have "(of_nat (?N * WORD_BASE ^ (F - frac_words l)) :: rat) < of_nat (?M * WORD_BASE ^ (F - frac_words r))" by (simp only:)
    then have lt: "?N * WORD_BASE ^ (F - frac_words l) < ?M * WORD_BASE ^ (F - frac_words r)" by (simp only: of_nat_less_iff)
    have "part_value d buf k (Z - k) = ?N * WORD_BASE ^ (F - frac_words l)" using en(13)[of "Z - k"] kZ Zl(1) Zpow by simp
    then have v: "part_value d buf k (Z - k) = (?N * WORD_BASE ^ (F - frac_words l)) mod (?M * WORD_BASE ^ (F - frac_words r))" using lt by simp
    have K: "(if d = 0 then k else k - 1) = 0" using en(10) k1 by auto
    have "Z \<le> 9" using True q ZF bl(2) nr9 k1 by (auto simp: n_def)
    moreover have "int nl - int (frac_words l) \<le> int (int_words r)" using True q br(5) k1 by (simp add: n_def)
    ultimately show ?thesis using True ld kZ Zl(1) en(7,8) v K
      by (intro exI[of _ buf] exI[of _ k] exI[of _ d]) simp
  next
    case False
    then have nQ: "int n = Q" by (simp add: n_def)
    have sz: "k + n + m \<le> length buf" "k + n < length buf" using nQ q m(2) bufl by linarith+
    obtain qb buf' d' where run: "div_loop (word_buf r) ri m (int (WORD_BASE div (word_buf r ! ri + 1)))
      (int (WORD_BASE div (word_buf r ! ri + 1)) * int (word_buf r ! ri) +
       (if m > 0 then int (WORD_BASE div (word_buf r ! ri + 1)) * int (word_buf r ! (ri + 1)) div int WORD_BASE else 0))
      True 0 n (replicate 9 0) buf k (int d) = Some (qb, buf', k + n, int d')" "length buf' = length buf" "below WORD_BASE buf'"
      "drop (k + n + m) buf' = drop (k + n + m) buf" "d' \<noteq> 0 \<longrightarrow> 0 < k + n \<and> buf' ! (k + n - 1) = d'"
      "part_value d' buf' (k + n) m = part_value d buf k (m + n) mod R"
      using div_loop_ok[OF en(4,5,6) refl refl R_def, where do_mod = True and idx = 0 and qb = "replicate 9 0" and k = k and n = n and buf = buf and d = d]
        sz en(7,8,12) by auto
    define b where "b = F - frac_words r + (nr - 1 - m)"
    have Zk: "int (Z - (k + n)) = int F - int (frac_words r) + int nr - 1" "k + n \<le> Z" "Z = k + n + m + b" "Z - (k + n) = m + b"
      using nQ q ZF br(3) m(2) unfolding b_def by linarith+
    let ?u = "bval WORD_BASE (take b (drop (k + n + m) buf))"
    have ub: "?u < WORD_BASE ^ b" using en(7) by (intro seg_less) simp_all
    have P: "part_value d buf k (m + n) * WORD_BASE ^ b + ?u = ?N * WORD_BASE ^ (F - frac_words l)"
      using part_value_add[of k "m + n" b buf d] en(13)[of "m + n + b"] Zk(3) Zl(1) Zpow by (simp add: ac_simps)
    have RM: "R * WORD_BASE ^ b = ?M * WORD_BASE ^ (F - frac_words r)" by (simp add: M b_def power_add ac_simps)
    have "part_value d' buf' (k + n) (Z - (k + n)) = (part_value d buf k (m + n) mod R) * WORD_BASE ^ b + ?u"
      using part_value_add[of "k + n" m b buf' d'] run(2,4,6) Zk Zl(1) by (simp add: ac_simps)
    also have "\<dots> = (part_value d buf k (m + n) * WORD_BASE ^ b + ?u) mod (R * WORD_BASE ^ b)" using mod_scale[OF ub en(9)] by simp
    finally have v: "part_value d' buf' (k + n) (Z - (k + n)) = (?N * WORD_BASE ^ (F - frac_words l)) mod (?M * WORD_BASE ^ (F - frac_words r))"
      unfolding P RM .
    define K where "K = (if d' = 0 then k + n else k + n - 1)"
    have K: "k + n \<le> K + 1" by (auto simp: K_def)
    have "Z - K \<le> 9" using K Zk(1) ZF(4) nQ q bl(2) nr9 br(3) by linarith
    moreover have "int nl - int (frac_words l) - int K \<le> int (int_words r)" using K nQ q br(5) by linarith
    ultimately show ?thesis using ld run Zk(2) Zl(1) v
      by (intro exI[of _ buf'] exI[of _ "k + n"] exI[of _ d']) (simp add: K_def)
  qed
qed

section \<open>The decimal of the remainder\<close>

lemma zeros_update: "i < n \<Longrightarrow> (replicate n x)[i := x] = replicate n x"
  by (simp add: list_update_same_conv)

lemma clear_words_zeros: "idx + n \<le> 9 \<Longrightarrow> clear_words (replicate 9 0) idx n = Some (replicate 9 0)"
  by (induction n arbitrary: idx) (simp_all add: set_at_def zeros_update)

lemma as_signed_8: "- 128 \<le> x \<Longrightarrow> x < 128 \<Longrightarrow> as_signed 8 x = x"
  by (rule as_signed_id) (simp_all add: in_signed_def)

lemma mod_layout_ok:
  assumes IW: "IW \<le> 9" "- int F \<le> IW" "IW + int F \<le> 9" "F \<le> 9" and Z: "int K + IW + int F = int Z" "Z \<le> 18" "K \<le> Z"
    and d: "d = new_dec 0 fc neg" "word_cnt fc = F"
  shows "mod_layout r K IW F d =
    (if IW = 0 \<and> F = 0 then Some (Inl (Ok zero_dec))
     else if IW \<le> - 9 then Some (Inl (Truncated zero_dec))
     else Some (Inr (nat IW, if IW \<le> 0 then nat (int F + IW) else F, Z, nat (- IW),
       d\<lparr>int_cnt := (if IW \<le> 0 then 0 else min (nat IW * 9) (int_cnt r))\<rparr>)))"
proof -
  have u: "IW \<le> 0 \<Longrightarrow> as_unsigned 8 (- IW) = nat (- IW)" "0 \<le> IW \<Longrightarrow> as_unsigned 8 IW = nat IW"
    using IW by (simp_all add: as_unsigned_def)
  have s: "as_signed 8 (int K) = int K" "as_signed 8 (int F) = int F" using IW Z by (simp_all add: as_signed_8)
  consider "IW = 0 \<and> F = 0" | "IW \<le> - 9" | "IW \<le> 0" "\<not> IW \<le> - 9" "\<not> (IW = 0 \<and> F = 0)" | "0 < IW" by linarith
  then show ?thesis
  proof cases
    case 2
    then have "9 \<le> nat (- IW)" by simp
    then show ?thesis using 2 IW u by (simp add: mod_layout_def)
  next
    case 3
    have "scheck 8 (int K + IW) = Some (int K + IW)" "scheck 8 (int K + IW + int F) = Some (int Z)" "scheck 8 (int F + IW) = Some (int F + IW)"
      using IW Z by (simp_all add: scheck_def in_signed_def)
    moreover have "clear_words (replicate 9 0) 0 (nat (- IW)) = Some (replicate 9 0)" using 3 by (intro clear_words_zeros) simp
    moreover have "as_unsigned 8 (int F + IW) = nat (int F + IW)" "as_unsigned 8 (int Z) = Z" using IW Z by (simp_all add: as_unsigned_def)
    ultimately show ?thesis using 3 IW u s by (simp add: mod_layout_def d(1) new_dec_def)
  next
    case 4
    have "uadd 8 (K mod 256) (nat IW) = Some (K + nat IW)" "uadd 8 (K + nat IW) F = Some Z" "umul 8 (nat IW) 9 = Some (nat IW * 9)"
      using IW Z 4 by (auto simp: uadd_def umul_def)
    then show ?thesis using 4 IW u by (simp add: mod_layout_def)
  qed (simp add: mod_layout_def)
qed

lemma mod_result_ok:
  assumes l: "sig_words l li lc nl lp" "dec_ok l" and F: "frac_words l \<le> F" "F \<le> 9" "word_cnt fc = F"
    and Z: "Z = nl + F - frac_words l" "k \<le> Z" "Z \<le> length buf" "below WORD_BASE buf" and d: "d \<noteq> 0 \<longrightarrow> 0 < k \<and> buf ! (k - 1) = d"
    and K: "K = (if d = 0 then k else k - 1)" "Z - K \<le> 9" "int nl - int (frac_words l) - int K \<le> int (int_words r)"
    and r: "dec_ok r"
  shows "\<exists>res. mod_result r lc (frac_words l * 9) buf k (int d) (new_dec 0 fc neg) = Some res \<and> \<not> is_overCausetxctx res \<and>
    dec_ok (deref res) \<and> mag (deref res) = of_nat (part_value d buf k (Z - k)) / of_nat WORD_BASE ^ F \<and>
    (negative (deref res) = neg \<or> mag (deref res) = 0)"
proof -
  define IW where "IW = int nl - int (frac_words l) - int K"
  let ?d = "new_dec 0 fc neg" and ?S = "take (Z - K) (drop K buf)"
  note s = l(1)[unfolded sig_words_def]
  have nl: "1 \<le> nl" "nl \<le> 9" "lc = 9 * (nl - 1) + lp" "1 \<le> lp" "lp \<le> 9" using s sig_bounds(5)[OF l] by simp_all
  have KZ: "K \<le> Z" "k \<le> K + 1" "int Z = int nl + int F - int (frac_words l)" using K Z F by (auto split: if_splits)
  have IF: "IW + int F = int (Z - K)" using KZ by (simp add: IW_def)
  have rw: "int_words r \<le> 9" using dec_okD(3)[OF r] by simp
  have IW: "IW \<le> 9" "- int F \<le> IW" "IW + int F \<le> 9" using IF K(2,3) rw by (simp_all add: IW_def)
  have V: "part_value d buf k (Z - k) = bval WORD_BASE ?S"
  proof (cases "d = 0")
    case False
    then have "0 < k" "buf ! K = d" "Z - K = Suc (Z - k)" "K + (Z - k) < length buf" "Suc K = k" using d K(1) Z by auto
    then show ?thesis using seg_head[of K "Z - k" buf WORD_BASE] by (simp add: part_value_def)
  qed (use K(1) in \<open>simp add: part_value_def\<close>)
  have lS: "length ?S = Z - K" "below WORD_BASE ?S" using Z KZ by auto
  have put: "(if int d \<noteq> 0 then do {
          l_idx \<leftarrow> usub k 1;
          buf \<leftarrow> set_at buf l_idx (as_unsigned 32 (int d));
          Some (buf, l_idx) }
        else Some (buf, k)) = Some (buf, K)"
  proof (cases "d = 0")
    case False
    then have "k - 1 < length buf" "0 < k" "buf ! (k - 1) = d" using d Z by auto
    moreover from this have "d < WORD_BASE" using below_nth[OF Z(4)] by blast
    ultimately show ?thesis using False K(1) by (simp add: usub_def set_at_def as_unsigned_32_nat WORD_BASE_def list_update_same_conv)
  qed (use K(1) in simp)
  define z where "z = int lc - int (frac_words l * 9) - as_signed 32 (int K) * int DIGITS_PER_WORD"
  have "as_signed 32 (int K) = int K" using KZ F Z nl by (intro as_signed_small) simp
  then have zq: "9 * (IW - 1) < z" "z \<le> 9 * IW" using nl by (simp_all add: z_def IW_def)
  have iw: "(if z < 0 then as_signed 8 (sdiv z (int DIGITS_PER_WORD)) else int (word_cnt_i z)) = IW"
    using word_cnt_digits[OF zq] sdiv_digits[OF zq] IW F zq by (auto simp: as_signed_8)
  have lay: "mod_layout r K IW (word_cnt (frac_cnt ?d)) ?d = (if IW = 0 \<and> F = 0 then Some (Inl (Ok zero_dec))
     else if IW \<le> - 9 then Some (Inl (Truncated zero_dec))
     else Some (Inr (nat IW, if IW \<le> 0 then nat (int F + IW) else F, Z, nat (- IW),
       ?d\<lparr>int_cnt := (if IW \<le> 0 then 0 else min (nat IW * 9) (int_cnt r))\<rparr>)))"
    using mod_layout_ok[OF IW F(2) _ _ KZ(1) refl F(3), of r neg] IF KZ F nl Z(1) by (simp add: F(3) new_dec_def)
  note start = mod_result_def[of r lc "frac_words l * 9" buf k "int d" ?d] put bind.bind_lunit case_prod_conv Let_def z_def[symmetric] iw lay
  consider "IW = 0 \<and> F = 0" | "IW \<le> - 9" | "- 9 < IW" "\<not> (IW = 0 \<and> F = 0)" by linarith
  then show ?thesis
  proof cases
    case 1
    then show ?thesis unfolding start using V IF by simp
  next
    case 2
    then have "Z - K = 0" using IF F IW by simp
    then show ?thesis unfolding start using V 2 IW by simp
  next
    case 3
    define iw where "iw = nat IW"
    define r1 where "r1 = ?d\<lparr>int_cnt := (if IW \<le> 0 then 0 else min (nat IW * 9) (int_cnt r)), word_buf := replicate (nat (- IW)) 0 @ ?S @ replicate (9 - (nat (- IW) + (Z - K))) 0\<rparr>"
    have tot: "nat (- IW) + (Z - K) = iw + F" using IF IW by (simp add: iw_def)
    have fit: "iw + F \<le> 9" using IW F(2) by (simp add: iw_def)
    have t: "uadd 8 (nat IW) (if IW \<le> 0 then nat (int F + IW) else F) = Some (nat IW + (if IW \<le> 0 then nat (int F + IW) else F))"
      "\<not> nat IW + (if IW \<le> 0 then nat (int F + IW) else F) > 9" using IW F(2) by (auto simp: uadd_def)
    have sl: "slice_at buf K Z = Some ?S" using KZ Z by (simp add: slice_at_def)
    have run: "mod_result r lc (frac_words l * 9) buf k (int d) ?d = Some (Ok r1)"
      unfolding start using 3 t sl lS(1) tot fit by (auto simp: r1_def new_dec_def min_def not_le)
    have wc: "word_cnt (int_cnt r1) = iw"
    proof (cases "IW \<le> 0")
      case False
      have "iw \<le> int_words r" using K(3) False by (simp add: IW_def iw_def)
      moreover have "word_cnt (min (iw * 9) (int_cnt r)) = min (word_cnt (iw * 9)) (int_words r)"
        using word_cnt_mono[of "iw * 9" "int_cnt r"] word_cnt_mono[of "int_cnt r" "iw * 9"] by (auto simp: min_def)
      ultimately show ?thesis using False fit by (simp add: r1_def iw_def)
    qed (simp add: r1_def iw_def)
    have fwc: "frac_words r1 = F" using F(3) by (simp add: r1_def new_dec_def)
    have wb: "word_buf r1 = replicate (nat (- IW)) 0 @ ?S @ replicate (9 - (nat (- IW) + (Z - K))) 0" by (simp add: r1_def)
    have "used r1 = replicate (nat (- IW)) 0 @ ?S" unfolding used_def wc fwc wb tot[symmetric] by (simp add: lS(1) del: length_take length_drop)
    then have mv: "mag r1 = of_nat (bval WORD_BASE ?S) / of_nat WORD_BASE ^ F" by (simp add: mag_def bval_append fwc)
    have "0 < iw + F" using 3 IW by (auto simp: iw_def)
    then have "0 < int_cnt r1 + frac_cnt r1" using wc fwc by (metis add_gr_0 word_cnt_pos)
    then have "dec_ok r1" using wc fwc fit lS tot by (simp add: dec_ok_def wb del: length_take length_drop)
    then show ?thesis using run mv V by (intro exI[of _ "Ok r1"]) (simp add: r1_def new_dec_def)
  qed
qed

section \<open>Remainders of decimals\<close>

lemma mod_floor:
  fixes c :: rat
  assumes "c \<noteq> 0"
  shows "of_nat (a mod b) / c = of_nat a / c - (of_nat b / c) * of_int \<lfloor>(of_nat a / c) / (of_nat b / c)\<rfloor>"
proof -
  have "(of_nat a / c) / (of_nat b / c) = (of_nat a / of_nat b :: rat)" using assms by simp
  then have fl: "\<lfloor>(of_nat a / c) / (of_nat b / c)\<rfloor> = int (a div b)" by (simp only: floor_divide_of_nat_eq of_int_of_nat_eq)
  have "a = b * (a div b) + a mod b" by simp
  then have "(of_nat a :: rat) = of_nat b * of_nat (a div b) + of_nat (a mod b)" by (metis of_nat_add of_nat_mult)
  then have "(of_nat (a mod b) :: rat) = of_nat a - of_nat b * of_nat (a div b)" by linarith
  then show ?thesis unfolding fl by (simp add: diff_divide_distrib)
qed

lemma remainder_value:
  fixes N M B F FL FR :: nat
  assumes "0 < B" "FL \<le> F" "FR \<le> F"
  shows "of_nat ((N * B ^ (F - FL)) mod (M * B ^ (F - FR))) / of_nat B ^ F =
    (of_nat N / of_nat B ^ FL - (of_nat M / of_nat B ^ FR) * of_int \<lfloor>(of_nat N / of_nat B ^ FL) / (of_nat M / of_nat B ^ FR) :: rat\<rfloor> :: rat)"
proof -
  have p: "(of_nat B :: rat) ^ F = of_nat B ^ (F - FL) * of_nat B ^ FL" "(of_nat B :: rat) ^ F = of_nat B ^ (F - FR) * of_nat B ^ FR"
    using assms(2,3) by (simp_all flip: power_add)
  have n: "of_nat (N * B ^ (F - FL)) / of_nat B ^ F = (of_nat N / of_nat B ^ FL :: rat)" using assms(1) by (subst p(1)) simp
  have m: "of_nat (M * B ^ (F - FR)) / of_nat B ^ F = (of_nat M / of_nat B ^ FR :: rat)" using assms(1) by (subst p(2)) simp
  show ?thesis using mod_floor[of "of_nat B ^ F" "N * B ^ (F - FL)" "M * B ^ (F - FR)"] assms(1) unfolding n m by simp
qed

text \<open>
  C7: the remainder is exact. For well-formed nonzero operands whose quotient fits nine integer words
  it is returned without panic and without overflow, is well-formed, and is the dividend less the
  divisor times the quotient cut towards zero, so that it has the sign of the dividend.\<close>

theorem rem_dec_correct:
  assumes "dec_ok l" "lead_ok l" "dec_ok r" "lead_ok r" "dec_value l \<noteq> 0" "dec_value r \<noteq> 0"
    "\<bar>dec_value l / dec_value r\<bar> < of_nat WORD_BASE ^ 9"
  shows "\<exists>res. rem_dec l r = Some (Some res) \<and> \<not> is_overCausetxctx res \<and> dec_ok (deref res) \<and>
    dec_value (deref res) = dec_value l - dec_value r * cut_words 0 (dec_value l / dec_value r)"
proof -
  have nz: "mag l \<noteq> 0" "mag r \<noteq> 0" using assms(5,6) by (auto simp: dec_value_def split: if_splits)
  obtain li lc nl lp where l: "uadd 8 (int_cnt l) (frac_words l * DIGITS_PER_WORD) = Some (int_cnt l + frac_words l * 9)"
    "remove_leading_zeroes l (int_cnt l + frac_words l * 9) = Some (li, lc)" "sig_words l li lc nl lp"
    using sig_words_exist[OF assms(1,2) nz(1)] by blast
  obtain ri rc nr rp where r: "uadd 8 (int_cnt r) (frac_words r * DIGITS_PER_WORD) = Some (int_cnt r + frac_words r * 9)"
    "remove_leading_zeroes r (int_cnt r + frac_words r * 9) = Some (ri, rc)" "sig_words r ri rc nr rp"
    using sig_words_exist[OF assms(3,4) nz(2)] by blast
  have c: "lc \<noteq> 0" "rc \<noteq> 0" using l(3) r(3) by (auto simp: sig_words_def)
  define Q where "Q = quot_words l li nl r ri nr"
  have Q10: "Q \<le> 10"
  proof (rule ccontr)
    assume "\<not> Q \<le> 10"
    then have "(of_nat WORD_BASE :: rat) powi 10 \<le> of_nat WORD_BASE powi (Q - 1)"
      by (intro power_int_increasing) (simp_all add: WORD_BASE_def)
    also have "\<dots> < 2 * (mag l / mag r)" using quot_bounds(2)[OF l(3) assms(1) r(3) assms(3)] by (simp add: Q_def)
    also have "\<dots> < 2 * of_nat WORD_BASE ^ 9" using assms(7) unfolding abs_quotient by simp
    finally show False by (simp add: WORD_BASE_def)
  qed
  define F where "F = max (frac_words l) (frac_words r)"
  have F: "frac_words l \<le> F" "frac_words r \<le> F" "F \<le> 9" "word_cnt (max (frac_cnt l) (frac_cnt r)) = F"
    using dec_okD(3)[OF assms(1)] dec_okD(3)[OF assms(3)] by (simp_all add: F_def word_cnt_max)
  from long_div_remainder[OF l(3) assms(1) r(3) assms(3) Q_def Q10 F_def refl, of 0] obtain buf k d where
    ld: "long_div l r 0 True ri rc (frac_words r * 9) li lc (frac_words l * 9) =
      mod_result r lc (frac_words l * 9) buf k (int d) (new_dec 0 (max (frac_cnt l) (frac_cnt r)) (negative l))"
      "k \<le> nl + F - frac_words l" "nl + F - frac_words l \<le> length buf" "below WORD_BASE buf" "d \<noteq> 0 \<longrightarrow> 0 < k \<and> buf ! (k - 1) = d"
      "nl + F - frac_words l - (if d = 0 then k else k - 1) \<le> 9"
      "int nl - int (frac_words l) - int (if d = 0 then k else k - 1) \<le> int (int_words r)"
    and v: "part_value d buf k (nl + F - frac_words l - k) =
      (bval WORD_BASE (used l) * WORD_BASE ^ (F - frac_words l)) mod (bval WORD_BASE (used r) * WORD_BASE ^ (F - frac_words r))" by blast
  obtain res where res: "mod_result r lc (frac_words l * 9) buf k (int d) (new_dec 0 (max (frac_cnt l) (frac_cnt r)) (negative l)) = Some res"
    "\<not> is_overCausetxctx res" "dec_ok (deref res)" "mag (deref res) = of_nat (part_value d buf k (nl + F - frac_words l - k)) / of_nat WORD_BASE ^ F"
    "negative (deref res) = negative l \<or> mag (deref res) = 0"
    using mod_result_ok[OF l(3) assms(1) F(1,3,4) refl ld(2-5) refl ld(6,7) assms(3)] by blast
  have mv: "mag (deref res) = mag l - mag r * of_int \<lfloor>mag l / mag r\<rfloor>"
    unfolding res(4) v mag_def[of l] mag_def[of r] by (rule remainder_value) (use F in simp_all)
  define res2 where "res2 = res_map (\<lambda>d. d\<lparr>result_frac_cnt := max (result_frac_cnt l) (result_frac_cnt r)\<rparr>) res"
  have run: "rem_dec l r = Some (Some res2)"
    unfolding rem_dec_def do_div_mod_impl_def Let_def r(1,2) l(1,2) bind.bind_lunit case_prod_conv
    using c ld(1) res(1) by (simp add: res2_def r(2) l(2))
  have "dec_value (deref res) = (if negative l then - mag (deref res) else mag (deref res))" using res(5) by (auto simp: dec_value_def)
  then have "dec_value (deref res) = dec_value l - dec_value r * cut_words 0 (dec_value l / dec_value r)"
    unfolding cut_words_def abs_quotient quotient_negative[OF nz] mv by (simp add: dec_value_def)
  moreover have "dec_value (deref res2) = dec_value (deref res)" by (simp add: res2_def dec_value_def)
  ultimately show ?thesis using run res(2,3) by (intro exI[of _ res2]) (simp add: res2_def)
qed

theorem rem_dec_correct_witness:
  "rem_dec (dec_words 2 1 True [10, 500000000]) (dec_words 1 0 False [4]) = Some (Some (Ok (dec_words 1 1 True [2, 500000000]))) \<and>
   dec_value (dec_words 1 1 True [2, 500000000]) =
     dec_value (dec_words 2 1 True [10, 500000000]) - dec_value (dec_words 1 0 False [4]) *
       cut_words 0 (dec_value (dec_words 2 1 True [10, 500000000]) / dec_value (dec_words 1 0 False [4]))"
proof -
  let ?l = "dec_words 2 1 True [10, 500000000]" and ?r = "dec_words 1 0 False [4]" and ?m = "dec_words 1 1 True [2, 500000000]"
  have run: "rem_dec ?l ?r = Some (Some (Ok ?m))" by code_simp
  have "dec_ok ?l" "lead_ok ?l" "dec_ok ?r" "lead_ok ?r" "dec_value ?l \<noteq> 0" "dec_value ?r \<noteq> 0"
    "\<bar>dec_value ?l / dec_value ?r\<bar> < of_nat WORD_BASE ^ 9"
    by (simp_all add: dec_words_defs lead_ok_def mag_def dec_value_def)
  from rem_dec_correct[OF this] run show ?thesis by auto
qed

section \<open>Where the remainder fails\<close>

text \<open>
  The words of the integer quotient are counted by \<open>word_cnt!\<close>, which saturates at ten, so the loop
  stops early when the quotient is longer: here the result is one half, more than the divisor, and
  the true remainder is a billionth of it.\<close>

lemma remainder_not_reduced:
  "rem_dec (dec_words 81 0 False [900000000, 0, 0, 0, 0, 0, 0, 0, 5]) (dec_words 0 18 False [0, 900000000]) =
     Some (Some (Ok (dec_words 0 18 False [500000000]))) \<and>
   dec_value (dec_words 0 18 False [500000000]) = 1 / 2 \<and> dec_value (dec_words 0 18 False [0, 900000000]) = 9 / 10 ^ 10"
proof -
  have "rem_dec (dec_words 81 0 False [900000000, 0, 0, 0, 0, 0, 0, 0, 5]) (dec_words 0 18 False [0, 900000000]) =
      Some (Some (Ok (dec_words 0 18 False [500000000])))"
    by code_simp
  then show ?thesis by (simp add: dec_words_defs dec_value_def mag_def)
qed

end
