(* ===== verification/Field_Type.thy ===== *)
theory Field_Type
  imports Eval_Context
begin

text \<open>
  Column types, \<open>src/causet/src/field_type.rs\<close> and \<open>src/causet/src/eval_type.rs\<close>: the type codes
  and their conversions, collations, column flags, the accessor trait and its two
  implementations, and the evaluation type of a column type.

  The protocol messages \<open>FieldType\<close> and \<open>ColumnInfo\<close> are generated code; the file only reads
  and writes their fields, so they are records of these fields. A conversion that transmutes a
  number which is no discriminant is undefined behaviour, the outer \<open>None\<close>.
\<close>

section \<open>Type codes\<close>

datatype field_type_tp =
    Tp_Unspecified | Tp_Tiny | Tp_Short | Tp_Long | Tp_Float | Tp_Double | Tp_Null | Tp_Timestamp
  | Tp_LongLong | Tp_Int24 | Tp_Date | Tp_Duration | Tp_DateTime | Tp_Year | Tp_NewDate | Tp_VarChar
  | Tp_Bit | Tp_JSON | Tp_NewDecimal | Tp_Enum | Tp_Set | Tp_TinyBlob | Tp_MediumBlob | Tp_LongBlob
  | Tp_Blob | Tp_VarString | Tp_String | Tp_Geometry

primrec tp_code :: "field_type_tp \<Rightarrow> int" where
  "tp_code Tp_Unspecified = 0" | "tp_code Tp_Tiny = 1" | "tp_code Tp_Short = 2" | "tp_code Tp_Long = 3"
| "tp_code Tp_Float = 4" | "tp_code Tp_Double = 5" | "tp_code Tp_Null = 6" | "tp_code Tp_Timestamp = 7"
| "tp_code Tp_LongLong = 8" | "tp_code Tp_Int24 = 9" | "tp_code Tp_Date = 10" | "tp_code Tp_Duration = 11"
| "tp_code Tp_DateTime = 12" | "tp_code Tp_Year = 13" | "tp_code Tp_NewDate = 14" | "tp_code Tp_VarChar = 15"
| "tp_code Tp_Bit = 16" | "tp_code Tp_JSON = 0xf5" | "tp_code Tp_NewDecimal = 0xf6" | "tp_code Tp_Enum = 0xf7"
| "tp_code Tp_Set = 0xf8" | "tp_code Tp_TinyBlob = 0xf9" | "tp_code Tp_MediumBlob = 0xfa"
| "tp_code Tp_LongBlob = 0xfb" | "tp_code Tp_Blob = 0xfc" | "tp_code Tp_VarString = 0xfd"
| "tp_code Tp_String = 0xfe" | "tp_code Tp_Geometry = 0xff"

definition all_tps :: "field_type_tp list" where
  "all_tps = [Tp_Unspecified, Tp_Tiny, Tp_Short, Tp_Long, Tp_Float, Tp_Double, Tp_Null, Tp_Timestamp,
     Tp_LongLong, Tp_Int24, Tp_Date, Tp_Duration, Tp_DateTime, Tp_Year, Tp_NewDate, Tp_VarChar, Tp_Bit,
     Tp_JSON, Tp_NewDecimal, Tp_Enum, Tp_Set, Tp_TinyBlob, Tp_MediumBlob, Tp_LongBlob, Tp_Blob,
     Tp_VarString, Tp_String, Tp_Geometry]"

text \<open>\<open>transmute\<close> of an \<open>i32\<close>: \<open>None\<close> when it is no discriminant.\<close>

definition transmute_tp :: "int \<Rightarrow> field_type_tp option" where
  "transmute_tp i = find (\<lambda>t. tp_code t = i) all_tps"

definition tp_from_i32 :: "int \<Rightarrow> field_type_tp option option" where
  "tp_from_i32 i =
     (if (tp_code Tp_Unspecified \<ge> 0 \<and> i \<le> tp_code Tp_Bit) \<or> (i \<ge> tp_code Tp_JSON \<and> i \<le> tp_code Tp_Geometry)
      then map_option Some (transmute_tp i) else Some None)"

definition tp_from_u8 :: "nat \<Rightarrow> field_type_tp option option" where
  "tp_from_u8 i =
     (if int i \<le> tp_code Tp_Bit \<or> int i \<ge> tp_code Tp_JSON
      then map_option Some (transmute_tp (int i)) else Some None)"

definition tp_to_u8 :: "field_type_tp \<Rightarrow> nat option" where
  "tp_to_u8 t = Some (as_unsigned 8 (tp_code t))"

text \<open>\<open>Display\<close> is \<open>Debug\<close>, the name of the variant.\<close>

primrec tp_display :: "field_type_tp \<Rightarrow> string" where
  "tp_display Tp_Unspecified = ''Unspecified''" | "tp_display Tp_Tiny = ''Tiny''" | "tp_display Tp_Short = ''Short''"
| "tp_display Tp_Long = ''Long''" | "tp_display Tp_Float = ''Float''" | "tp_display Tp_Double = ''Double''"
| "tp_display Tp_Null = ''Null''" | "tp_display Tp_Timestamp = ''Timestamp''" | "tp_display Tp_LongLong = ''LongLong''"
| "tp_display Tp_Int24 = ''Int24''" | "tp_display Tp_Date = ''Date''" | "tp_display Tp_Duration = ''Duration''"
| "tp_display Tp_DateTime = ''DateTime''" | "tp_display Tp_Year = ''Year''" | "tp_display Tp_NewDate = ''NewDate''"
| "tp_display Tp_VarChar = ''VarChar''" | "tp_display Tp_Bit = ''Bit''" | "tp_display Tp_JSON = ''JSON''"
| "tp_display Tp_NewDecimal = ''NewDecimal''" | "tp_display Tp_Enum = ''Enum''" | "tp_display Tp_Set = ''Set''"
| "tp_display Tp_TinyBlob = ''TinyBlob''" | "tp_display Tp_MediumBlob = ''MediumBlob''"
| "tp_display Tp_LongBlob = ''LongBlob''" | "tp_display Tp_Blob = ''Blob''" | "tp_display Tp_VarString = ''VarString''"
| "tp_display Tp_String = ''String''" | "tp_display Tp_Geometry = ''Geometry''"

section \<open>Collations and flags\<close>

text \<open>The error type of the type layer, with the two variants its functions return.\<close>

datatype data_type_error = UnsupportedType field_type_tp | UnsupportedCollation int

datatype collation = Col_Binary | Col_Utf8Mb4Bin | Col_Utf8Mb4BinNoPadding | Col_Utf8Mb4GeneralCi

primrec collation_code :: "collation \<Rightarrow> int" where
  "collation_code Col_Binary = 63" | "collation_code Col_Utf8Mb4Bin = -46"
| "collation_code Col_Utf8Mb4BinNoPadding = 46" | "collation_code Col_Utf8Mb4GeneralCi = -45"

definition collation_from_i32 :: "int \<Rightarrow> data_type_error + collation" where
  "collation_from_i32 n =
     (if n = -33 \<or> n = -45 then Inr Col_Utf8Mb4GeneralCi
      else if n = -46 \<or> n = -83 \<or> n = -65 \<or> n = -47 then Inr Col_Utf8Mb4Bin
      else if n = -63 \<or> n = 63 then Inr Col_Binary
      else if n \<ge> 0 then Inr Col_Utf8Mb4BinNoPadding
      else Inl (UnsupportedCollation n))"

type_synonym column_flags = "32 word"

definition FT_NOT_NULL :: column_flags where "FT_NOT_NULL = 1"
definition FT_UNSIGNED :: column_flags where "FT_UNSIGNED = push_bit 5 1"
definition FT_BINARY :: column_flags where "FT_BINARY = push_bit 7 1"
definition FT_PARSE_TO_JSON :: column_flags where "FT_PARSE_TO_JSON = push_bit 18 1"
definition FT_IS_BOOLEAN :: column_flags where "FT_IS_BOOLEAN = push_bit 19 1"

definition FT_ALL :: column_flags where
  "FT_ALL = or (or (or (or FT_NOT_NULL FT_UNSIGNED) FT_BINARY) FT_PARSE_TO_JSON) FT_IS_BOOLEAN"

text \<open>\<open>from_bits_truncate\<close> of the flag set.\<close>

definition ft_from_bits_truncate :: "column_flags \<Rightarrow> column_flags" where
  "ft_from_bits_truncate b = and b FT_ALL"

definition ft_contains :: "column_flags \<Rightarrow> column_flags \<Rightarrow> bool" where
  "ft_contains s f \<longleftrightarrow> and s f = f"

section \<open>The accessor trait\<close>

text \<open>The provided methods, on the type, collation and flags the implementer returns.\<close>

definition is_hybrid :: "field_type_tp \<Rightarrow> bool" where
  "is_hybrid tp \<longleftrightarrow> tp = Tp_Enum \<or> tp = Tp_Bit \<or> tp = Tp_Set"

definition is_blob_like :: "field_type_tp \<Rightarrow> bool" where
  "is_blob_like tp \<longleftrightarrow> tp = Tp_TinyBlob \<or> tp = Tp_MediumBlob \<or> tp = Tp_Blob \<or> tp = Tp_LongBlob"

definition is_char_like :: "field_type_tp \<Rightarrow> bool" where
  "is_char_like tp \<longleftrightarrow> tp = Tp_String \<or> tp = Tp_VarChar"

definition is_varchar_like :: "field_type_tp \<Rightarrow> bool" where
  "is_varchar_like tp \<longleftrightarrow> tp = Tp_VarString \<or> tp = Tp_VarChar"

definition is_string_like :: "field_type_tp \<Rightarrow> bool" where
  "is_string_like tp \<longleftrightarrow> is_blob_like tp \<or> is_char_like tp \<or> is_varchar_like tp \<or> tp = Tp_Unspecified"

definition is_binary_string_like :: "(data_type_error + collation) \<Rightarrow> field_type_tp \<Rightarrow> bool" where
  "is_binary_string_like col tp \<longleftrightarrow>
     (case col of Inr c \<Rightarrow> c = Col_Binary | Inl _ \<Rightarrow> False) \<and> is_string_like tp"

definition is_non_binary_string_like :: "(data_type_error + collation) \<Rightarrow> field_type_tp \<Rightarrow> bool" where
  "is_non_binary_string_like col tp \<longleftrightarrow>
     (case col of Inr c \<Rightarrow> c \<noteq> Col_Binary | Inl _ \<Rightarrow> True) \<and> is_string_like tp"

definition is_unsigned :: "column_flags \<Rightarrow> bool" where
  "is_unsigned f \<longleftrightarrow> ft_contains f FT_UNSIGNED"

text \<open>\<open>from_i32(..).unwrap_or(Unspecified)\<close>\<close>

definition tp_or_unspecified :: "int \<Rightarrow> field_type_tp option" where
  "tp_or_unspecified i = map_option (case_option Tp_Unspecified id) (tp_from_i32 i)"

subsection \<open>\<open>FieldType\<close>\<close>

record pb_field_type =
  ft_get_tp :: int
  ft_get_flag :: column_flags
  ft_get_flen :: int
  ft_get_decimal :: int
  ft_get_collate :: int
  ft_get_charset :: string

definition ft_tp :: "pb_field_type \<Rightarrow> field_type_tp option" where
  "ft_tp ft = tp_or_unspecified (ft_get_tp ft)"

definition ft_set_tp :: "pb_field_type \<Rightarrow> field_type_tp \<Rightarrow> pb_field_type" where
  "ft_set_tp ft t = ft\<lparr>ft_get_tp := tp_code t\<rparr>"

definition ft_flag :: "pb_field_type \<Rightarrow> column_flags" where
  "ft_flag ft = ft_from_bits_truncate (ft_get_flag ft)"

definition ft_set_flag :: "pb_field_type \<Rightarrow> column_flags \<Rightarrow> pb_field_type" where
  "ft_set_flag ft f = ft\<lparr>ft_get_flag := f\<rparr>"

definition ft_flen :: "pb_field_type \<Rightarrow> int" where
  "ft_flen ft = ft_get_flen ft"

definition ft_set_flen :: "pb_field_type \<Rightarrow> int \<Rightarrow> pb_field_type" where
  "ft_set_flen ft n = ft\<lparr>ft_get_flen := as_signed 32 n\<rparr>"

definition ft_decimal :: "pb_field_type \<Rightarrow> int" where
  "ft_decimal ft = ft_get_decimal ft"

definition ft_set_decimal :: "pb_field_type \<Rightarrow> int \<Rightarrow> pb_field_type" where
  "ft_set_decimal ft n = ft\<lparr>ft_get_decimal := as_signed 32 n\<rparr>"

definition ft_collation :: "pb_field_type \<Rightarrow> data_type_error + collation" where
  "ft_collation ft = collation_from_i32 (ft_get_collate ft)"

definition ft_set_collation :: "pb_field_type \<Rightarrow> collation \<Rightarrow> pb_field_type" where
  "ft_set_collation ft c = ft\<lparr>ft_get_collate := collation_code c\<rparr>"

text \<open>The message with every field at its default, and \<open>From<FieldTypeTp>\<close>.\<close>

definition ft_default :: pb_field_type where
  "ft_default = \<lparr>ft_get_tp = 0, ft_get_flag = 0, ft_get_flen = 0, ft_get_decimal = 0, ft_get_collate = 0, ft_get_charset = []\<rparr>"

definition ft_from_tp :: "field_type_tp \<Rightarrow> pb_field_type" where
  "ft_from_tp t = ft_set_tp ft_default t"

subsection \<open>\<open>ColumnInfo\<close>\<close>

record pb_column_info =
  ci_get_tp :: int
  ci_get_flag :: int
  ci_get_column_len :: int
  ci_get_decimal :: int
  ci_get_collation :: int

definition ci_tp :: "pb_column_info \<Rightarrow> field_type_tp option" where
  "ci_tp ci = tp_or_unspecified (ci_get_tp ci)"

definition ci_set_tp :: "pb_column_info \<Rightarrow> field_type_tp \<Rightarrow> pb_column_info" where
  "ci_set_tp ci t = ci\<lparr>ci_get_tp := tp_code t\<rparr>"

definition ci_flag :: "pb_column_info \<Rightarrow> column_flags" where
  "ci_flag ci = ft_from_bits_truncate (word_of_int (ci_get_flag ci))"

definition ci_set_flag :: "pb_column_info \<Rightarrow> column_flags \<Rightarrow> pb_column_info" where
  "ci_set_flag ci f = ci\<lparr>ci_get_flag := sint f\<rparr>"

definition ci_flen :: "pb_column_info \<Rightarrow> int" where
  "ci_flen ci = ci_get_column_len ci"

definition ci_set_flen :: "pb_column_info \<Rightarrow> int \<Rightarrow> pb_column_info" where
  "ci_set_flen ci n = ci\<lparr>ci_get_column_len := as_signed 32 n\<rparr>"

definition ci_decimal :: "pb_column_info \<Rightarrow> int" where
  "ci_decimal ci = ci_get_decimal ci"

definition ci_set_decimal :: "pb_column_info \<Rightarrow> int \<Rightarrow> pb_column_info" where
  "ci_set_decimal ci n = ci\<lparr>ci_get_decimal := as_signed 32 n\<rparr>"

definition ci_collation :: "pb_column_info \<Rightarrow> data_type_error + collation" where
  "ci_collation ci = collation_from_i32 (ci_get_collation ci)"

definition ci_set_collation :: "pb_column_info \<Rightarrow> collation \<Rightarrow> pb_column_info" where
  "ci_set_collation ci c = ci\<lparr>ci_get_collation := collation_code c\<rparr>"

definition ci_default :: pb_column_info where
  "ci_default = \<lparr>ci_get_tp = 0, ci_get_flag = 0, ci_get_column_len = 0, ci_get_decimal = 0, ci_get_collation = 0\<rparr>"

definition ci_from_tp :: "field_type_tp \<Rightarrow> pb_column_info" where
  "ci_from_tp t = ci_set_tp ci_default t"

section \<open>Evaluation types\<close>

text \<open>The evaluation types that a column type is mapped to.\<close>

datatype eval_type = Ev_Int | Ev_Real | Ev_Decimal | Ev_DateTime | Ev_Duration | Ev_Bytes | Ev_Json

text \<open>The arms in the order of the source: the first one that matches decides.\<close>

definition eval_type_try_from :: "field_type_tp \<Rightarrow> data_type_error + eval_type" where
  "eval_type_try_from tp =
     (if tp = Tp_LongLong then Inr Ev_Int
      else if tp = Tp_Double then Inr Ev_Real
      else if tp = Tp_NewDecimal then Inr Ev_Decimal
      else if tp = Tp_String then Inr Ev_Bytes
      else if tp = Tp_DateTime then Inr Ev_DateTime
      else if tp \<in> {Tp_Tiny, Tp_Short, Tp_Int24, Tp_Long, Tp_LongLong, Tp_Float, Tp_Double, Tp_Year} then Inr Ev_Int
      else if tp = Tp_NewDecimal then Inr Ev_Decimal
      else if tp \<in> {Tp_Timestamp, Tp_Date, Tp_DateTime} then Inr Ev_DateTime
      else if tp = Tp_Duration then Inr Ev_Duration
      else if tp = Tp_JSON then Inr Ev_Json
      else if tp \<in> {Tp_VarChar, Tp_TinyBlob, Tp_MediumBlob, Tp_LongBlob, Tp_Blob, Tp_VarString, Tp_String} then Inr Ev_Bytes
      else Inl (UnsupportedType tp))"

section \<open>The enumeration of column types\<close>

datatype field_type =
    Ft_TinyInt | Ft_SmallInt | Ft_Int | Ft_BigInt | Ft_Float | Ft_Double | Ft_Decimal | Ft_Date
  | Ft_Datetime | Ft_Timestamp | Ft_Duration | Ft_Year | Ft_Char | Ft_VarChar | Ft_Binary
  | Ft_VarBinary | Ft_TinyBlob | Ft_Blob | Ft_MediumBlob | Ft_LongBlob | Ft_TinyText | Ft_Text
  | Ft_MediumText | Ft_LongText | Ft_Enum | Ft_Set | Ft_Bit | Ft_Geometry
  | Ft_SuseIsolatedString | Ft_Json | Ft_Other string

primrec as_str :: "field_type \<Rightarrow> string" where
  "as_str Ft_TinyInt = ''TinyInt''"
| "as_str Ft_SmallInt = ''SmallInt''"
| "as_str Ft_Int = ''int''"
| "as_str Ft_BigInt = ''bigint''"
| "as_str Ft_Float = ''float''"
| "as_str Ft_Double = ''double''"
| "as_str Ft_Decimal = ''decimal''"
| "as_str Ft_Date = ''date''"
| "as_str Ft_Datetime = ''datetime''"
| "as_str Ft_Timestamp = ''timestamp''"
| "as_str Ft_Duration = ''duration''"
| "as_str Ft_Year = ''year''"
| "as_str Ft_Char = ''char''"
| "as_str Ft_VarChar = ''varchar''"
| "as_str Ft_Binary = ''binary''"
| "as_str Ft_VarBinary = ''varbinary''"
| "as_str Ft_TinyBlob = ''tinyblob''"
| "as_str Ft_Blob = ''blob''"
| "as_str Ft_MediumBlob = ''mediumblob''"
| "as_str Ft_LongBlob = ''longblob''"
| "as_str Ft_TinyText = ''tinytext''"
| "as_str Ft_Text = ''text''"
| "as_str Ft_MediumText = ''mediumtext''"
| "as_str Ft_LongText = ''longtext''"
| "as_str Ft_Enum = ''enum''"
| "as_str Ft_Set = ''set''"
| "as_str Ft_Bit = ''bit''"
| "as_str Ft_Geometry = ''geometry''"
| "as_str Ft_SuseIsolatedString = ''suse_isolated_string''"
| "as_str Ft_Json = ''json''"
| "as_str (Ft_Other s) = s"

definition is_string :: "field_type \<Rightarrow> bool" where
  "is_string t \<longleftrightarrow> t \<in> {Ft_Char, Ft_VarChar, Ft_TinyText, Ft_Text, Ft_MediumText, Ft_LongText, Ft_Enum, Ft_Set}"

definition is_binary :: "field_type \<Rightarrow> bool" where
  "is_binary t \<longleftrightarrow> t \<in> {Ft_Binary, Ft_VarBinary, Ft_TinyBlob, Ft_Blob, Ft_MediumBlob, Ft_LongBlob}"

definition is_blob :: "field_type \<Rightarrow> bool" where
  "is_blob t \<longleftrightarrow> t \<in> {Ft_TinyBlob, Ft_Blob, Ft_MediumBlob, Ft_LongBlob}"

definition is_text :: "field_type \<Rightarrow> bool" where
  "is_text t \<longleftrightarrow> t \<in> {Ft_TinyText, Ft_Text, Ft_MediumText, Ft_LongText}"

definition is_numeric :: "field_type \<Rightarrow> bool" where
  "is_numeric t \<longleftrightarrow> t \<in> {Ft_TinyInt, Ft_SmallInt, Ft_Int, Ft_BigInt, Ft_Float, Ft_Double, Ft_Decimal}"

definition is_integer :: "field_type \<Rightarrow> bool" where
  "is_integer t \<longleftrightarrow> t \<in> {Ft_TinyInt, Ft_SmallInt, Ft_Int, Ft_BigInt}"

definition is_unsigned_type :: "field_type \<Rightarrow> bool" where
  "is_unsigned_type t \<longleftrightarrow> t \<in> {Ft_TinyInt}"

definition is_float :: "field_type \<Rightarrow> bool" where
  "is_float t \<longleftrightarrow> t \<in> {Ft_Float, Ft_Double, Ft_Decimal}"

definition is_decimal :: "field_type \<Rightarrow> bool" where
  "is_decimal t \<longleftrightarrow> t \<in> {Ft_Decimal}"

section \<open>Lemmas\<close>

lemma all_tps_complete: "t \<in> set all_tps"
  by (cases t) (simp_all add: all_tps_def)

lemma tp_code_bounds: "0 \<le> tp_code t" "tp_code t < 256" "tp_code t \<le> 16 \<or> 245 \<le> tp_code t"
  by (cases t; simp)+

lemma transmute_code: "transmute_tp (tp_code t) = Some t"
  by (cases t) (simp_all add: transmute_tp_def all_tps_def)

lemma tp_code_inj: "tp_code s = tp_code t \<Longrightarrow> s = t"
  by (metis option.inject transmute_code)

lemma transmute_None: "transmute_tp i = None \<longleftrightarrow> (\<forall>t. tp_code t \<noteq> i)"
  using all_tps_complete by (auto simp: transmute_tp_def find_None_iff)

lemma low_code: "0 \<le> i \<Longrightarrow> i \<le> 16 \<Longrightarrow> transmute_tp i \<noteq> None"
proof -
  have "list_all (\<lambda>i. transmute_tp i \<noteq> None) [0..16]" by code_simp
  then show "0 \<le> i \<Longrightarrow> i \<le> 16 \<Longrightarrow> transmute_tp i \<noteq> None" by (simp only: list_all_iff set_upto atLeastAtMost_iff simp_thms)
qed

lemma high_code: "245 \<le> i \<Longrightarrow> i \<le> 255 \<Longrightarrow> transmute_tp i \<noteq> None"
proof -
  have "list_all (\<lambda>i. transmute_tp i \<noteq> None) [245..255]" by code_simp
  then show "245 \<le> i \<Longrightarrow> i \<le> 255 \<Longrightarrow> transmute_tp i \<noteq> None" by (simp only: list_all_iff set_upto atLeastAtMost_iff simp_thms)
qed

lemma tp_from_i32_undefined: "tp_from_i32 i = None \<longleftrightarrow> i < 0"
proof -
  have "transmute_tp i = None" if "i < 0" using that tp_code_bounds(1) by (auto simp: transmute_None) (metis not_le)
  then show ?thesis using low_code[of i] high_code[of i] by (cases "i < 0") (auto simp: tp_from_i32_def)
qed

lemma tp_from_i32_code: "tp_from_i32 (tp_code t) = Some (Some t)"
  using tp_code_bounds[of t] by (auto simp: tp_from_i32_def transmute_code)

lemma tp_from_u8_defined: "i < 256 \<Longrightarrow> tp_from_u8 i \<noteq> None"
  using low_code[of "int i"] high_code[of "int i"] by (auto simp: tp_from_u8_def)

lemma tp_or_unspecified_code [simp]: "tp_or_unspecified (tp_code t) = Some t"
  by (simp add: tp_or_unspecified_def tp_from_i32_code)

lemma collation_code_back [simp]: "collation_from_i32 (collation_code c) = Inr c"
  by (cases c) (simp_all add: collation_from_i32_def)

section \<open>The contract of the accessor trait\<close>

text \<open>What an implementer of \<open>FieldTypeAccessor\<close> promises: what was set is read back, and
  setting one attribute leaves the others alone.\<close>

locale type_accessor =
  fixes get_tp :: "'a \<Rightarrow> field_type_tp option" and set_tp :: "'a \<Rightarrow> field_type_tp \<Rightarrow> 'a"
    and get_flag :: "'a \<Rightarrow> column_flags" and set_flag :: "'a \<Rightarrow> column_flags \<Rightarrow> 'a"
    and get_flen :: "'a \<Rightarrow> int" and set_flen :: "'a \<Rightarrow> int \<Rightarrow> 'a"
    and get_decimal :: "'a \<Rightarrow> int" and set_decimal :: "'a \<Rightarrow> int \<Rightarrow> 'a"
    and get_collation :: "'a \<Rightarrow> data_type_error + collation" and set_collation :: "'a \<Rightarrow> collation \<Rightarrow> 'a"
  assumes get_set:
      "get_tp (set_tp a t) = Some t" "get_flag (set_flag a f) = ft_from_bits_truncate f"
      "in_signed 32 n \<Longrightarrow> get_flen (set_flen a n) = n" "in_signed 32 n \<Longrightarrow> get_decimal (set_decimal a n) = n"
      "get_collation (set_collation a c) = Inr c"
    and frame:
      "get_tp (set_flag a f) = get_tp a" "get_tp (set_flen a n) = get_tp a" "get_tp (set_decimal a n) = get_tp a"
      "get_tp (set_collation a c) = get_tp a"
      "get_flag (set_tp a t) = get_flag a" "get_flag (set_flen a n) = get_flag a" "get_flag (set_decimal a n) = get_flag a"
      "get_flag (set_collation a c) = get_flag a"
      "get_flen (set_tp a t) = get_flen a" "get_flen (set_flag a f) = get_flen a" "get_flen (set_decimal a n) = get_flen a"
      "get_flen (set_collation a c) = get_flen a"
      "get_decimal (set_tp a t) = get_decimal a" "get_decimal (set_flag a f) = get_decimal a" "get_decimal (set_flen a n) = get_decimal a"
      "get_decimal (set_collation a c) = get_decimal a"
      "get_collation (set_tp a t) = get_collation a" "get_collation (set_flag a f) = get_collation a"
      "get_collation (set_flen a n) = get_collation a" "get_collation (set_decimal a n) = get_collation a"
begin

definition described :: "'a \<Rightarrow> field_type_tp \<Rightarrow> column_flags \<Rightarrow> int \<Rightarrow> int \<Rightarrow> collation \<Rightarrow> bool" where
  "described a t f n m c \<longleftrightarrow>
     get_tp a = Some t \<and> get_flag a = f \<and> get_flen a = n \<and> get_decimal a = m \<and> get_collation a = Inr c"

lemma set_all:
  assumes "ft_from_bits_truncate f = f" "in_signed 32 n" "in_signed 32 m"
  shows "described (set_collation (set_decimal (set_flen (set_flag (set_tp a t) f) n) m) c) t f n m c"
  unfolding described_def using assms by (simp add: get_set frame)

end

lemmas ft_accessor_defs = ft_tp_def ft_set_tp_def ft_flag_def ft_set_flag_def ft_flen_def ft_set_flen_def
  ft_decimal_def ft_set_decimal_def ft_collation_def ft_set_collation_def

lemmas ci_accessor_defs = ci_tp_def ci_set_tp_def ci_flag_def ci_set_flag_def ci_flen_def ci_set_flen_def
  ci_decimal_def ci_set_decimal_def ci_collation_def ci_set_collation_def

interpretation ft: type_accessor ft_tp ft_set_tp ft_flag ft_set_flag ft_flen ft_set_flen ft_decimal ft_set_decimal
    ft_collation ft_set_collation
  by unfold_locales (simp_all add: ft_accessor_defs as_signed_id)

interpretation ci: type_accessor ci_tp ci_set_tp ci_flag ci_set_flag ci_flen ci_set_flen ci_decimal ci_set_decimal
    ci_collation ci_set_collation
  by unfold_locales (simp_all add: ci_accessor_defs as_signed_id)

section \<open>Properties\<close>

text \<open>
  C36: the conversions of type codes are exact. Every type survives the way through its \<open>i32\<close> and
  its \<open>u8\<close> code; the conversion from \<open>u8\<close> is defined on every byte; the conversion from \<open>i32\<close>
  is undefined behaviour exactly for the negative numbers, which its range check lets through.\<close>

theorem type_code_conversions:
  "tp_from_i32 (tp_code t) = Some (Some t) \<and> tp_to_u8 t = Some (nat (tp_code t)) \<and> tp_from_u8 (nat (tp_code t)) = Some (Some t) \<and>
   list_all (\<lambda>i. tp_from_u8 i \<noteq> None) [0..<256] \<and> (tp_from_i32 i = None \<longleftrightarrow> i < 0)"
proof (intro conjI)
  show "tp_from_i32 (tp_code t) = Some (Some t)" by (rule tp_from_i32_code)
  show "tp_to_u8 t = Some (nat (tp_code t))" using tp_code_bounds[of t] by (simp add: tp_to_u8_def as_unsigned_def)
  show "tp_from_u8 (nat (tp_code t)) = Some (Some t)" using tp_code_bounds[of t] by (auto simp: tp_from_u8_def transmute_code)
  show "list_all (\<lambda>i. tp_from_u8 i \<noteq> None) [0..<256]" using tp_from_u8_defined by (simp add: list_all_iff del: not_None_eq)
  show "tp_from_i32 i = None \<longleftrightarrow> i < 0" by (rule tp_from_i32_undefined)
qed

text \<open>
  Both protocol messages implement the accessor contract: after setting type, flags, length,
  scale and collation, each of them reads back as it was set, for \<open>FieldType\<close> and for
  \<open>ColumnInfo\<close>, whose flags travel through a signed field.\<close>

theorem accessors_read_back:
  assumes "ft_from_bits_truncate f = f" "in_signed 32 n" "in_signed 32 m"
  shows "let x = ft_set_collation (ft_set_decimal (ft_set_flen (ft_set_flag (ft_set_tp a t) f) n) m) c;
      y = ci_set_collation (ci_set_decimal (ci_set_flen (ci_set_flag (ci_set_tp b t) f) n) m) c in
    (ft_tp x = Some t \<and> ft_flag x = f \<and> ft_flen x = n \<and> ft_decimal x = m \<and> ft_collation x = Inr c) \<and>
    (ci_tp y = Some t \<and> ci_flag y = f \<and> ci_flen y = n \<and> ci_decimal y = m \<and> ci_collation y = Inr c)"
  using ft.set_all[OF assms, of a t c] ci.set_all[OF assms, of b t c]
  unfolding Let_def ft.described_def ci.described_def by blast

theorem accessors_read_back_witness:
  "ci_flag (ci_set_collation (ci_set_decimal (ci_set_flen (ci_set_flag (ci_set_tp ci_default Tp_NewDecimal) FT_UNSIGNED) 10) 2) Col_Binary) = FT_UNSIGNED \<and>
   is_unsigned FT_UNSIGNED"
proof -
  have "ft_from_bits_truncate FT_UNSIGNED = FT_UNSIGNED" by code_simp
  moreover have "in_signed 32 10" "in_signed 32 2" by (simp_all add: in_signed_def)
  moreover have "is_unsigned FT_UNSIGNED" by code_simp
  ultimately show ?thesis
    using accessors_read_back[of FT_UNSIGNED 10 2 ft_default Tp_NewDecimal Col_Binary ci_default] unfolding Let_def by blast
qed

text \<open>
  Which column types have an evaluation type. Exactly the types without one are reported as
  unsupported, every blob and character type is evaluated as bytes, and \<open>Float\<close>, unlike
  \<open>Double\<close>, is evaluated as an integer.\<close>

theorem eval_type_classification:
  "(eval_type_try_from t = Inl (UnsupportedType t) \<longleftrightarrow> t \<in> {Tp_Unspecified, Tp_Null, Tp_NewDate, Tp_Bit, Tp_Enum, Tp_Set, Tp_Geometry}) \<and>
   (eval_type_try_from t = Inr Ev_Bytes \<longleftrightarrow> is_string_like t \<and> t \<noteq> Tp_Unspecified) \<and>
   (eval_type_try_from t = Inr Ev_Real \<longleftrightarrow> t = Tp_Double) \<and> eval_type_try_from Tp_Float = Inr Ev_Int"
  by (cases t) (simp_all add: eval_type_try_from_def is_string_like_def is_blob_like_def is_char_like_def is_varchar_like_def)

end
