(* ===== verification/Convert.thy ===== *)
theory Convert
  imports Field_Type Decimal_Text_Correct
begin

text \<open>
  Casts between SQL types, \<open>src/allegro_poset/convert.rs\<close>: the bounds of the integer column types,
  the casts of integers and decimals to them, the valid prefixes of number texts, and strings cut
  or padded to the length of a column. Strings are their bytes. Every cast runs in an evaluation
  context and returns the one it leaves; a panic is the outer \<open>None\<close>.
\<close>

unbundle bit_operations_syntax

section \<open>Bounds of the integer types\<close>

definition integer_unsigned_upper_bound :: "field_type_tp \<Rightarrow> nat option" where
  "integer_unsigned_upper_bound tp =
     (if tp = Tp_Tiny then Some (2 ^ 8 - 1)
      else if tp = Tp_Short then Some (2 ^ 16 - 1)
      else if tp = Tp_Int24 then Some (2 ^ 24 - 1)
      else if tp = Tp_Long then Some (2 ^ 32 - 1)
      else if tp = Tp_LongLong \<or> tp = Tp_Bit \<or> tp = Tp_Set \<or> tp = Tp_Enum then Some (2 ^ 64 - 1)
      else None)"

definition integer_signed_upper_bound :: "field_type_tp \<Rightarrow> int option" where
  "integer_signed_upper_bound tp =
     (if tp = Tp_Tiny then Some (2 ^ 7 - 1)
      else if tp = Tp_Short then Some (2 ^ 15 - 1)
      else if tp = Tp_Int24 then Some (2 ^ 23 - 1)
      else if tp = Tp_Long then Some (2 ^ 31 - 1)
      else if tp = Tp_LongLong then Some (2 ^ 63 - 1)
      else None)"

definition integer_signed_lower_bound :: "field_type_tp \<Rightarrow> int option" where
  "integer_signed_lower_bound tp =
     (if tp = Tp_Tiny then Some (- (2 ^ 7))
      else if tp = Tp_Short then Some (- (2 ^ 15))
      else if tp = Tp_Int24 then Some (- (2 ^ 23))
      else if tp = Tp_Long then Some (- (2 ^ 31))
      else if tp = Tp_LongLong then Some (- (2 ^ 63))
      else None)"

definition UNSPECIFIED_LENGTH :: int where [simp]: "UNSPECIFIED_LENGTH = - 1"

definition truncate_binary :: "nat list \<Rightarrow> int \<Rightarrow> nat list" where
  "truncate_binary s flen =
     (if flen \<noteq> UNSPECIFIED_LENGTH \<and> length s > as_unsigned 64 flen then take (as_unsigned 64 flen) s else s)"

section \<open>Integers\<close>

text \<open>The private \<open>over_causetxctx\<close> of the file.\<close>

definition constant_overflow :: "int \<Rightarrow> field_type_tp \<Rightarrow> error" where
  "constant_overflow val bound =
     Eval (''constant '' @ show_int val @ '' overCausetxctxs '' @ tp_display bound) ERR_DATA_OUT_OF_RANGE"

text \<open>\<open>ctx.handle_overCausetxctx_err(e)?; return Ok(x)\<close>\<close>

definition clip_to :: "'a \<Rightarrow> error \<Rightarrow> 'tz eval_context \<Rightarrow> 'a fresult \<times> 'tz eval_context" where
  "clip_to x e ctx = map_unit (handle_overCausetxctx_err e ctx) x"

definition i64_to_int :: "int \<Rightarrow> field_type_tp \<Rightarrow> 'tz eval_context \<Rightarrow> (int fresult \<times> 'tz eval_context) option" where
  "i64_to_int x tp ctx = do {
     lower_bound \<leftarrow> integer_signed_lower_bound tp;
     if x < lower_bound then Some (clip_to lower_bound (constant_overflow x tp) ctx)
     else do {
       upper_bound \<leftarrow> integer_signed_upper_bound tp;
       Some (if x > upper_bound then clip_to upper_bound (constant_overflow x tp) ctx else (Inr x, ctx)) } }"

definition i64_to_uint :: "int \<Rightarrow> field_type_tp \<Rightarrow> 'tz eval_context \<Rightarrow> (nat fresult \<times> 'tz eval_context) option" where
  "i64_to_uint x tp ctx =
     (if x < 0 \<and> should_clip_to_zero ctx then Some (clip_to 0 (constant_overflow x tp) ctx)
      else do {
        upper_bound \<leftarrow> integer_unsigned_upper_bound tp;
        Some (if as_unsigned 64 x > upper_bound then clip_to upper_bound (constant_overflow x tp) ctx
              else (Inr (as_unsigned 64 x), ctx)) })"

definition u64_to_int :: "nat \<Rightarrow> field_type_tp \<Rightarrow> 'tz eval_context \<Rightarrow> (int fresult \<times> 'tz eval_context) option" where
  "u64_to_int x tp ctx = do {
     upper_bound \<leftarrow> integer_signed_upper_bound tp;
     Some (if x > as_unsigned 64 upper_bound then clip_to upper_bound (constant_overflow (int x) tp) ctx
           else (Inr (as_signed 64 (int x)), ctx)) }"

definition u64_to_uint :: "nat \<Rightarrow> field_type_tp \<Rightarrow> 'tz eval_context \<Rightarrow> (nat fresult \<times> 'tz eval_context) option" where
  "u64_to_uint x tp ctx = do {
     upper_bound \<leftarrow> integer_unsigned_upper_bound tp;
     Some (if x > upper_bound then clip_to upper_bound (constant_overflow (int x) tp) ctx else (Inr x, ctx)) }"

section \<open>Decimals\<close>

text \<open>\<open>e?\<close> in a context: an error ends the function, a value goes on.\<close>

definition try_ctx ::
    "'a fresult \<times> 'tz eval_context \<Rightarrow> ('a \<Rightarrow> 'tz eval_context \<Rightarrow> ('b fresult \<times> 'tz eval_context) option) \<Rightarrow>
     ('b fresult \<times> 'tz eval_context) option" where
  "try_ctx rc f = (case rc of (Inl e, ctx) \<Rightarrow> Some (Inl e, ctx) | (Inr x, ctx) \<Rightarrow> f x ctx)"

definition round_decimal_with_ctx :: "decimal \<Rightarrow> 'tz eval_context \<Rightarrow> (decimal fresult \<times> 'tz eval_context) option" where
  "round_decimal_with_ctx dec ctx = do {
     r \<leftarrow> round_dec dec 0 HalfEven;
     Some (into_result_impl r ctx None (Some (over_causetxctx ''DECIMAL'' ''''))) }"

definition dec_to_int :: "decimal \<Rightarrow> field_type_tp \<Rightarrow> 'tz eval_context \<Rightarrow> (int fresult \<times> 'tz eval_context) option" where
  "dec_to_int d tp ctx = do {
     rd \<leftarrow> round_decimal_with_ctx d ctx;
     try_ctx rd (\<lambda>dec ctx. do {
       val \<leftarrow> as_i64 dec;
       txt \<leftarrow> display dec;
       try_ctx (into_result_impl val ctx None (Some (truncated_wrong_val ''DECIMAL'' (map char_of txt))))
         (\<lambda>r ctx. i64_to_int r tp ctx) }) }"

definition dec_to_uint :: "decimal \<Rightarrow> field_type_tp \<Rightarrow> 'tz eval_context \<Rightarrow> (nat fresult \<times> 'tz eval_context) option" where
  "dec_to_uint d tp ctx = do {
     rd \<leftarrow> round_decimal_with_ctx d ctx;
     try_ctx rd (\<lambda>dec ctx. do {
       val \<leftarrow> as_u64 dec;
       txt \<leftarrow> display dec;
       try_ctx (into_result_impl val ctx None (Some (truncated_wrong_val ''DECIMAL'' (map char_of txt))))
         (\<lambda>r ctx. u64_to_uint r tp ctx) }) }"

definition decimal_as_u64 :: "decimal \<Rightarrow> field_type_tp \<Rightarrow> 'tz eval_context \<Rightarrow> (nat fresult \<times> 'tz eval_context) option" where
  "decimal_as_u64 dec tp ctx = do {
     val \<leftarrow> as_u64 dec;
     txt \<leftarrow> display dec;
     try_ctx (into_result_impl val ctx None (Some (over_causetxctx ''DECIMAL'' (map char_of txt))))
       (\<lambda>r ctx. u64_to_uint r tp ctx) }"

section \<open>Prefixes of number texts\<close>

text \<open>The loop of \<open>get_valid_float_prefix\<close>: position, flags, valid length and exponent index.\<close>

fun float_prefix_loop :: "nat list \<Rightarrow> nat \<Rightarrow> bool \<Rightarrow> bool \<Rightarrow> nat \<Rightarrow> nat \<Rightarrow> nat" where
  "float_prefix_loop [] i saw_dot saw_digit valid_len e_idx = valid_len"
| "float_prefix_loop (c # cs) i saw_dot saw_digit valid_len e_idx =
     (if c = 43 \<or> c = 45
      then (if i \<noteq> 0 \<and> (e_idx = 0 \<or> i \<noteq> e_idx + 1) then valid_len
            else float_prefix_loop cs (i + 1) saw_dot saw_digit valid_len e_idx)
      else if c = 46
      then (if saw_dot \<or> e_idx > 0 then valid_len
            else float_prefix_loop cs (i + 1) True saw_digit (if saw_digit then i + 1 else valid_len) e_idx)
      else if c = 101 \<or> c = 69
      then (if \<not> saw_digit then valid_len
            else if e_idx \<noteq> 0 then valid_len
            else float_prefix_loop cs (i + 1) saw_dot saw_digit valid_len i)
      else if c < 48 \<or> c > 57 then valid_len
      else float_prefix_loop cs (i + 1) saw_dot True (i + 1) e_idx)"

definition get_valid_float_prefix :: "nat list \<Rightarrow> 'tz eval_context \<Rightarrow> nat list fresult \<times> 'tz eval_context" where
  "get_valid_float_prefix s ctx =
     (let valid_len = float_prefix_loop s 0 False False 0 0;
          r = (if valid_len = 0 \<or> valid_len < length s
               then handle_truncate_err (truncated_wrong_val ''INTEGER'' (map char_of s)) ctx else (Inr (), ctx))
      in map_unit r (if valid_len = 0 then [48] else take valid_len s))"

fun int_prefix_loop :: "nat list \<Rightarrow> nat \<Rightarrow> nat \<Rightarrow> nat" where
  "int_prefix_loop [] i valid_len = valid_len"
| "int_prefix_loop (c # cs) i valid_len =
     (if (c = 43 \<or> c = 45) \<and> i = 0 then int_prefix_loop cs (i + 1) valid_len
      else if c \<ge> 48 \<and> c \<le> 57 then int_prefix_loop cs (i + 1) (i + 1)
      else valid_len)"

text \<open>
  Outside a \<open>SELECT\<close> the text is read as a float and rounded by \<open>float_str_to_int_string\<close>, whose
  body in the source ends without a result; it is a parameter.
\<close>

definition get_valid_int_prefix ::
    "(nat list \<Rightarrow> 'tz eval_context \<Rightarrow> nat list fresult \<times> 'tz eval_context) \<Rightarrow>
     nat list \<Rightarrow> 'tz eval_context \<Rightarrow> nat list fresult \<times> 'tz eval_context" where
  "get_valid_int_prefix float_str_to_int_string s ctx =
     (if \<not> has_flag ctx IN_SELECT_STMT
      then (case get_valid_float_prefix s ctx of
              (Inl e, ctx) \<Rightarrow> (Inl e, ctx)
            | (Inr vs, ctx) \<Rightarrow> float_str_to_int_string vs ctx)
      else
        let valid_len = int_prefix_loop s 0 0;
            valid = (if take valid_len s = [] then [48] else take valid_len s);
            r = (if valid_len = 0 \<or> valid_len < length s
                 then handle_truncate_err (truncated_wrong_val ''INTEGER'' (map char_of s)) ctx else (Inr (), ctx))
        in map_unit r valid)"

text \<open>\<open>s.rfind(|c| c != '9' && c != '+' && c != '-')\<close>\<close>

definition rfind_bump :: "nat list \<Rightarrow> nat option" where
  "rfind_bump s = (case dropWhile (\<lambda>c. c = 57 \<or> c = 43 \<or> c = 45) (rev s) of [] \<Rightarrow> None | _ # r \<Rightarrow> Some (length r))"

definition round_int_str :: "nat \<Rightarrow> nat list \<Rightarrow> nat list" where
  "round_int_str num_next_dot s =
     (if num_next_dot < 53 then s
      else case rfind_bump s of
          Some idx \<Rightarrow> take idx s @ [s ! idx + 1] @ replicate (length s - (idx + 1)) 48
        | None \<Rightarrow>
            (if s \<noteq> [] \<and> (s ! 0 = 43 \<or> s ! 0 = 45) then take 1 s @ [49] @ replicate (length s - 1) 48
             else [49] @ replicate (length s) 48))"

section \<open>UTF-8\<close>

text \<open>
  The bytes of one character at the start of a byte string, as \<open>str::from_utf8\<close> accepts them:
  its length, or \<open>None\<close> for an invalid or truncated sequence.
\<close>

definition is_cont :: "nat \<Rightarrow> bool" where
  "is_cont b \<longleftrightarrow> 0x80 \<le> b \<and> b \<le> 0xbf"

fun utf8_char :: "nat list \<Rightarrow> nat option" where
  "utf8_char [] = None"
| "utf8_char (a # bs) =
     (if a < 0x80 then Some 1
      else if 0xc2 \<le> a \<and> a \<le> 0xdf
      then (case bs of b # _ \<Rightarrow> if is_cont b then Some 2 else None | [] \<Rightarrow> None)
      else if 0xe0 \<le> a \<and> a \<le> 0xef
      then (case bs of
              b # c # _ \<Rightarrow>
                if is_cont b \<and> is_cont c \<and> (a = 0xe0 \<longrightarrow> 0xa0 \<le> b) \<and> (a = 0xed \<longrightarrow> b \<le> 0x9f) then Some 3 else None
            | _ \<Rightarrow> None)
      else if 0xf0 \<le> a \<and> a \<le> 0xf4
      then (case bs of
              b # c # d # _ \<Rightarrow>
                if is_cont b \<and> is_cont c \<and> is_cont d \<and> (a = 0xf0 \<longrightarrow> 0x90 \<le> b) \<and> (a = 0xf4 \<longrightarrow> b \<le> 0x8f)
                then Some 4 else None
            | _ \<Rightarrow> None)
      else None)"

lemma utf8_char_pos: "utf8_char s = Some n \<Longrightarrow> 0 < n \<and> n \<le> length s"
  by (cases s rule: utf8_char.cases) (auto split: if_splits list.splits)

text \<open>The start positions of the characters and the position the decoding stops at.\<close>

function utf8_scan :: "nat list \<Rightarrow> nat \<Rightarrow> nat list \<times> nat" where
  "utf8_scan s pos =
     (case utf8_char s of
        None \<Rightarrow> ([], pos)
      | Some n \<Rightarrow> (case utf8_scan (drop n s) (pos + n) of (ps, e) \<Rightarrow> (pos # ps, e)))"
  by pat_completeness auto
termination
  using utf8_char_pos by (relation "measure (\<lambda>(s, pos). length s)") (force dest: utf8_char_pos)+

declare utf8_scan.simps [simp del]

definition valid_up_to :: "nat list \<Rightarrow> nat" where
  "valid_up_to s = snd (utf8_scan s 0)"

definition is_utf8 :: "nat list \<Rightarrow> bool" where
  "is_utf8 s \<longleftrightarrow> valid_up_to s = length s"

text \<open>The byte positions of \<open>char_indices\<close>.\<close>

definition char_indices :: "nat list \<Rightarrow> nat list" where
  "char_indices s = fst (utf8_scan s 0)"

definition get_valid_utf8_prefix :: "nat list \<Rightarrow> 'tz eval_context \<Rightarrow> nat list fresult \<times> 'tz eval_context" where
  "get_valid_utf8_prefix bytes ctx =
     (if is_utf8 bytes then (Inr bytes, ctx)
      else map_unit (handle_truncate True ctx) (take (valid_up_to bytes) bytes))"

section \<open>Strings of a column\<close>

definition CHARSET_UTF8 :: string where "CHARSET_UTF8 = ''utf8''"
definition CHARSET_UTF8MB4 :: string where "CHARSET_UTF8MB4 = ''utf8mb4''"

definition too_long :: "nat \<Rightarrow> nat \<Rightarrow> error" where
  "too_long flen len = data_too_long (''Data Too Long, field len '' @ show_nat flen @ '', data len '' @ show_nat len)"

definition produce_str_with_specified_tp ::
    "nat list \<Rightarrow> pb_field_type \<Rightarrow> bool \<Rightarrow> 'tz eval_context \<Rightarrow> (nat list fresult \<times> 'tz eval_context) option" where
  "produce_str_with_specified_tp s ft pad_zero ctx =
     (if ft_flen ft < 0 then Some (Inr s, ctx)
      else
        let flen = nat (ft_flen ft); chs = ft_get_charset ft
        in if chs = CHARSET_UTF8 \<or> chs = CHARSET_UTF8MB4
        then (if \<not> is_utf8 s then None
              else case drop flen (char_indices s) of
                  [] \<Rightarrow> Some (Inr s, ctx)
                | truncate_pos # rest \<Rightarrow>
                    let char_count = flen + 1 + length rest
                    in Some (map_unit (handle_truncate_err (too_long flen char_count) ctx) (truncate_binary s (int truncate_pos))))
        else if length s > flen
        then Some (map_unit (handle_truncate_err (too_long flen (length s)) ctx) (truncate_binary s (int flen)))
        else do {
          tp \<leftarrow> ft_tp ft;
          Some (Inr (if tp = Tp_String \<and> length s < flen \<and> is_binary_string_like (ft_collation ft) tp \<and> pad_zero
                     then s @ replicate (flen - length s) 0 else s), ctx) })"

definition pad_zero_for_binary_type :: "nat list \<Rightarrow> pb_field_type \<Rightarrow> nat list option" where
  "pad_zero_for_binary_type s ft =
     (if ft_flen ft < 0 then Some s
      else do {
        let flen = nat (ft_flen ft);
        tp \<leftarrow> ft_tp ft;
        Some (if tp = Tp_String \<and> (case ft_collation ft of Inr c \<Rightarrow> c = Col_Binary | Inl _ \<Rightarrow> False) \<and> length s < flen
              then s @ replicate (flen - length s) 0 else s) })"

end
