(* ===== verification/Convert_Correct.thy ===== *)
theory Convert_Correct
  imports Convert
begin

text \<open>
  The casts, verified: integers are clamped to the bounds of the column type, rounding an integer
  text adds one to its value, and a string cut to a column length is a prefix of whole characters.
\<close>

abbreviation ctx_with :: "flags \<Rightarrow> unit eval_context" where
  "ctx_with f \<equiv> new_eval_context (from_flag () f)"

section \<open>Clamping\<close>

text \<open>What a cast to a range does: in range nothing, out of range what the flags say.\<close>

definition clamped :: "'a::linorder \<Rightarrow> 'a \<Rightarrow> 'a \<Rightarrow> error \<Rightarrow> 'tz eval_context \<Rightarrow> 'a fresult \<times> 'tz eval_context" where
  "clamped lo hi x e ctx =
     (if lo \<le> x \<and> x \<le> hi then (Inr x, ctx)
      else if has_flag ctx OVERCausetxctx_AS_WARNING then (Inr (if x < lo then lo else hi), warn e ctx)
      else (Inl e, ctx))"

lemma clip_to_flag: "clip_to b e ctx = (if has_flag ctx OVERCausetxctx_AS_WARNING then (Inr b, warn e ctx) else (Inl e, ctx))"
  by (simp add: clip_to_def map_unit_def handle_overCausetxctx_err_def)

lemma bounds_cases:
  assumes "integer_signed_lower_bound tp = Some lo" "integer_signed_upper_bound tp = Some hi"
  obtains w where "w \<in> {8, 16, 24, 32, 64 :: nat}" "lo = - (2 ^ (w - 1))" "hi = 2 ^ (w - 1) - 1" "integer_unsigned_upper_bound tp = Some (2 ^ w - 1)"
proof -
  have "tp \<in> {Tp_Tiny, Tp_Short, Tp_Int24, Tp_Long, Tp_LongLong}"
    using assms(1) by (auto simp: integer_signed_lower_bound_def split: if_splits)
  then show thesis using assms that[of 8] that[of 16] that[of 24] that[of 32] that[of 64]
    by (auto simp: integer_signed_lower_bound_def integer_signed_upper_bound_def integer_unsigned_upper_bound_def)
qed

lemma as_unsigned_nonneg: "0 \<le> x \<Longrightarrow> x < 2 ^ 64 \<Longrightarrow> as_unsigned 64 x = nat x"
  by (simp add: as_unsigned_def)

section \<open>Rounding an integer text\<close>

lemma digits_val_nines: "digits_val (replicate k 57) + 1 = 10 ^ k"
  by (induction k) (auto simp: digit_val_def)

lemma digits_val_zeros [simp]: "digits_val (replicate k 48) = 0"
  by (induction k) (simp_all add: digit_val_def)

lemma digit_val_0: "digit_val 48 = 0"
  by (simp add: digit_val_def)

lemma split_nines: "\<exists>xs k. cs = xs @ replicate k 57 \<and> (xs = [] \<or> last xs \<noteq> 57)"
proof (induction cs rule: rev_induct)
  case Nil
  show ?case by (intro exI[of _ "[]"] exI[of _ 0]) simp
next
  case (snoc c cs)
  then obtain xs k where x: "cs = xs @ replicate k 57" "xs = [] \<or> last xs \<noteq> 57" by blast
  show ?case
  proof (cases "c = 57")
    case True
    then show ?thesis using x by (intro exI[of _ xs] exI[of _ "Suc k"]) (simp add: replicate_append_same)
  next
    case False
    then show ?thesis by (intro exI[of _ "cs @ [c]"] exI[of _ 0]) simp
  qed
qed

lemma drop_nines: "dropWhile (\<lambda>c. c = 57 \<or> c = 43 \<or> c = 45) (replicate k 57 @ xs) = dropWhile (\<lambda>c. c = 57 \<or> c = 43 \<or> c = 45) (xs :: nat list)"
  by (induction k) simp_all

lemma rfind_nines: "rfind_bump (ys @ replicate k 57) = rfind_bump ys"
  by (simp add: rfind_bump_def drop_nines)

lemma rfind_digit: "is_digit y \<Longrightarrow> y \<noteq> 57 \<Longrightarrow> rfind_bump (ys @ [y]) = Some (length ys)"
  by (auto simp: rfind_bump_def is_digit_def)

lemma rfind_sign: "sign_byte sg \<Longrightarrow> rfind_bump sg = None"
  by (auto simp: rfind_bump_def sign_byte_def)

lemma round_up_text:
  assumes sg: "sign_byte sg" and cs: "list_all is_digit cs" and c: "53 \<le> c"
  shows "\<exists>ds. round_int_str c (sg @ cs) = sg @ ds \<and> list_all is_digit ds \<and> digits_val ds = digits_val cs + 1"
proof -
  obtain xs k where x: "cs = xs @ replicate k 57" "xs = [] \<or> last xs \<noteq> 57" using split_nines by blast
  show ?thesis
  proof (cases "xs = []")
    case False
    then obtain ys y where y: "xs = ys @ [y]" "y \<noteq> 57" using x(2) by (metis append_butlast_last_id)
    have d: "is_digit y" "list_all is_digit ys" using cs x(1) y(1) by auto
    have "rfind_bump (sg @ cs) = Some (length (sg @ ys))"
      using rfind_nines[of "(sg @ ys) @ [y]" k] rfind_digit[OF d(1) y(2), of "sg @ ys"] by (simp add: x(1) y(1))
    then have "round_int_str c (sg @ cs) = sg @ ys @ [y + 1] @ replicate k 48"
      using c by (simp add: round_int_str_def x(1) y(1) nth_append)
    moreover have "list_all is_digit (ys @ [y + 1] @ replicate k 48)"
      using d y(2) by (auto simp: is_digit_def list_all_iff)
    moreover have "digits_val (ys @ [y + 1] @ replicate k 48) = digits_val cs + 1"
    proof -
      have "digit_val (y + 1) = digit_val y + 1" using d(1) unfolding digit_val_def is_digit_def by linarith
      then show ?thesis using digits_val_nines[of k] by (simp add: x(1) y(1) bval_append add_mult_distrib digit_val_0)
    qed
    ultimately show ?thesis by blast
  next
    case True
    then have cs': "cs = replicate k 57" using x(1) by simp
    have "rfind_bump (sg @ cs) = None" using rfind_nines[of sg k] rfind_sign[OF sg] by (simp add: cs')
    moreover have "sg = [] \<Longrightarrow> cs \<noteq> [] \<Longrightarrow> cs ! 0 = 57" by (simp add: cs')
    ultimately have "round_int_str c (sg @ cs) = sg @ [49] @ replicate k 48"
      using c sg by (auto simp: round_int_str_def sign_byte_def cs')
    moreover have "list_all is_digit ([49] @ replicate k 48)" by (simp add: is_digit_def list_all_iff)
    moreover have "digits_val ([49] @ replicate k 48) = digits_val cs + 1" using digits_val_nines[of k] by (simp add: cs' digit_val_def)
    ultimately show ?thesis by blast
  qed
qed

section \<open>Characters\<close>

lemma utf8_char_take: "utf8_char s = Some n \<Longrightarrow> n \<le> m \<Longrightarrow> utf8_char (take m s) = Some n"
proof -
  assume a: "utf8_char s = Some n" "n \<le> m"
  obtain b bs where s: "s = b # bs" using a(1) by (cases s) auto
  have "n \<le> 4" using a(1) by (auto simp: s split: if_splits list.splits)
  then have "n = 1 \<or> n = 2 \<or> n = 3 \<or> n = 4" using utf8_char_pos[OF a(1)] by auto
  moreover have "m = Suc (m - 1)" using a(2) utf8_char_pos[OF a(1)] by simp
  ultimately show ?thesis using a unfolding s
    by (cases m; cases "m - 1"; cases "m - 2"; cases "m - 3") (auto split: if_splits list.splits)
qed

lemma utf8_scan_Some:
  "utf8_char s = Some n \<Longrightarrow> utf8_scan s pos = (pos # fst (utf8_scan (drop n s) (pos + n)), snd (utf8_scan (drop n s) (pos + n)))"
  by (subst utf8_scan.simps) (simp split: prod.splits)

lemma utf8_scan_None: "utf8_char s = None \<Longrightarrow> utf8_scan s pos = ([], pos)"
  by (subst utf8_scan.simps) simp

text \<open>Cutting a string at the start of its \<open>k\<close>-th character.\<close>

lemma utf8_cut:
  "utf8_scan s pos = (ps, e) \<Longrightarrow> k < length ps \<Longrightarrow>
   pos \<le> ps ! k \<and> ps ! k - pos < length s \<and> utf8_scan (take (ps ! k - pos) s) pos = (take k ps, ps ! k)"
proof (induction s pos arbitrary: ps e k rule: utf8_scan.induct)
  case (1 s pos)
  show ?case
  proof (cases "utf8_char s")
    case None
    then show ?thesis using "1.prems" by (simp add: utf8_scan_None)
  next
    case (Some n)
    note np = utf8_char_pos[OF Some]
    obtain qs where sc: "utf8_scan (drop n s) (pos + n) = (qs, e)" "ps = pos # qs"
      using "1.prems"(1) unfolding utf8_scan_Some[OF Some] by (metis prod.collapse prod.inject)
    show ?thesis
    proof (cases k)
      case 0
      then show ?thesis using np sc(2) by (auto simp: utf8_scan_None)
    next
      case (Suc j)
      then have j: "j < length qs" using "1.prems"(2) sc(2) by simp
      note ih = "1.IH"[OF Some sc(1) j]
      let ?m = "qs ! j - pos"
      have m: "n \<le> ?m" using conjunct1[OF ih] by linarith
      have dt: "drop n (take ?m s) = take (qs ! j - (pos + n)) (drop n s)" by (simp add: drop_take)
      have "utf8_char (take ?m s) = Some n" by (rule utf8_char_take[OF Some m])
      then have "utf8_scan (take ?m s) pos = (pos # take j qs, qs ! j)" using ih unfolding utf8_scan_Some[OF \<open>utf8_char (take ?m s) = Some n\<close>] dt by simp
      then show ?thesis using ih np sc(2) Suc by auto
    qed
  qed
qed

lemma char_indices_cut:
  assumes "k < length (char_indices s)"
  shows "char_indices s ! k < length s" "char_indices (take (char_indices s ! k) s) = take k (char_indices s)"
    "is_utf8 (take (char_indices s ! k) s)"
proof -
  obtain ps e where sc: "utf8_scan s 0 = (ps, e)" by fastforce
  have ps: "char_indices s = ps" by (simp add: char_indices_def sc)
  note cut = utf8_cut[OF sc, of k]
  show "char_indices s ! k < length s" using cut assms unfolding ps by simp
  then show "char_indices (take (char_indices s ! k) s) = take k (char_indices s)" "is_utf8 (take (char_indices s ! k) s)"
    using cut assms unfolding ps by (simp_all add: char_indices_def is_utf8_def valid_up_to_def)
qed

text \<open>What decoding accepts is itself accepted: the valid prefix is valid UTF-8.\<close>

lemma utf8_prefix_scan: "utf8_scan s pos = (ps, e) \<Longrightarrow> pos \<le> e \<and> e - pos \<le> length s \<and> utf8_scan (take (e - pos) s) pos = (ps, e)"
proof (induction s pos arbitrary: ps e rule: utf8_scan.induct)
  case (1 s pos)
  show ?case
  proof (cases "utf8_char s")
    case None
    then show ?thesis using "1.prems" by (simp add: utf8_scan_None)
  next
    case (Some n)
    note np = utf8_char_pos[OF Some]
    obtain qs where sc: "utf8_scan (drop n s) (pos + n) = (qs, e)" "ps = pos # qs"
      using "1.prems"(1) unfolding utf8_scan_Some[OF Some] by (metis prod.collapse prod.inject)
    note ih = "1.IH"[OF Some sc(1)]
    have m: "n \<le> e - pos" using conjunct1[OF ih] by linarith
    have dt: "drop n (take (e - pos) s) = take (e - (pos + n)) (drop n s)" by (simp add: drop_take)
    have c: "utf8_char (take (e - pos) s) = Some n" by (rule utf8_char_take[OF Some m])
    have "utf8_scan (take (e - pos) s) pos = (ps, e)" using ih unfolding utf8_scan_Some[OF c] dt sc(2) by simp
    then show ?thesis using ih np by auto
  qed
qed

lemma valid_up_to_prefix: "valid_up_to s \<le> length s" "is_utf8 (take (valid_up_to s) s)"
  using utf8_prefix_scan[of s 0 "fst (utf8_scan s 0)" "snd (utf8_scan s 0)"] by (simp_all add: valid_up_to_def is_utf8_def)

section \<open>Properties\<close>

text \<open>
  C33: the integer casts clamp. For each of the five integer column types, a cast gives the number
  itself when it is within the bounds of the type and otherwise the bound it passed, with one
  warning, or an error when overflows are not warnings; an \<open>i64\<close> cast to an unsigned type is
  clipped at zero in the statements that ask for it, and wraps to \<open>u64\<close> in the others.\<close>

theorem integer_casts_clamp:
  assumes "integer_signed_lower_bound tp = Some lo" "integer_signed_upper_bound tp = Some hi"
    and "integer_unsigned_upper_bound tp = Some uhi" "in_signed 64 x" "n < 2 ^ 64"
  shows "i64_to_int x tp ctx = Some (clamped lo hi x (constant_overflow x tp) ctx) \<and>
    u64_to_int n tp ctx = Some (clamped lo hi (int n) (constant_overflow (int n) tp) ctx) \<and>
    u64_to_uint n tp ctx = Some (clamped 0 uhi n (constant_overflow (int n) tp) ctx) \<and>
    i64_to_uint x tp ctx = Some (if x < 0 \<and> should_clip_to_zero ctx
      then clip_to 0 (constant_overflow x tp) ctx
      else clamped 0 uhi (nat (x mod 2 ^ 64)) (constant_overflow x tp) ctx)"
proof -
  obtain w where w: "w \<in> {8, 16, 24, 32, 64 :: nat}" "lo = - (2 ^ (w - 1))" "hi = 2 ^ (w - 1) - 1"
    by (rule bounds_cases[OF assms(1,2)])
  then have b: "lo \<le> 0" "0 \<le> hi" "hi < 2 ^ 63" by auto
  have h: "as_unsigned 64 hi = nat hi" using b by (intro as_unsigned_nonneg) auto
  have n: "\<not> nat hi < n \<Longrightarrow> as_signed 64 (int n) = int n" using b by (intro as_signed_id) (auto simp: in_signed_def)
  have 1: "i64_to_int x tp ctx = Some (clamped lo hi x (constant_overflow x tp) ctx)"
    using b by (auto simp: i64_to_int_def assms(1,2) clamped_def clip_to_flag)
  have 2: "u64_to_int n tp ctx = Some (clamped lo hi (int n) (constant_overflow (int n) tp) ctx)"
    using b n by (auto simp: u64_to_int_def assms(2) h clamped_def clip_to_flag nat_less_iff)
  have 3: "u64_to_uint n tp ctx = Some (clamped 0 uhi n (constant_overflow (int n) tp) ctx)"
    by (auto simp: u64_to_uint_def assms(3) clamped_def clip_to_flag)
  have 4: "i64_to_uint x tp ctx = Some (if x < 0 \<and> should_clip_to_zero ctx then clip_to 0 (constant_overflow x tp) ctx
      else clamped 0 uhi (nat (x mod 2 ^ 64)) (constant_overflow x tp) ctx)"
    by (auto simp: i64_to_uint_def assms(3) clamped_def clip_to_flag as_unsigned_def)
  show ?thesis using 1 2 3 4 by blast
qed

theorem integer_casts_clamp_witness:
  "i64_to_int 40000 Tp_Short (ctx_with OVERCausetxctx_AS_WARNING) =
     Some (clamped (- 32768) 32767 40000 (constant_overflow 40000 Tp_Short) (ctx_with OVERCausetxctx_AS_WARNING)) \<and>
   i64_to_uint (- 1) Tp_Short (ctx_with OVERCausetxctx_AS_WARNING) =
     Some (clamped 0 65535 18446744073709551615 (constant_overflow (- 1) Tp_Short) (ctx_with OVERCausetxctx_AS_WARNING))"
proof -
  have "integer_signed_lower_bound Tp_Short = Some (- 32768)" "integer_signed_upper_bound Tp_Short = Some 32767"
    "integer_unsigned_upper_bound Tp_Short = Some 65535"
    by (simp_all add: integer_signed_lower_bound_def integer_signed_upper_bound_def integer_unsigned_upper_bound_def)
  moreover have "in_signed 64 40000" "in_signed 64 (- 1)" "(0::nat) < 2 ^ 64" by (simp_all add: in_signed_def)
  moreover have "\<not> should_clip_to_zero (ctx_with OVERCausetxctx_AS_WARNING)" by code_simp
  ultimately show ?thesis
    using integer_casts_clamp[of Tp_Short "- 32768" 32767 65535 40000 0 "ctx_with OVERCausetxctx_AS_WARNING"]
      integer_casts_clamp[of Tp_Short "- 32768" 32767 65535 "- 1" 0 "ctx_with OVERCausetxctx_AS_WARNING"]
    by simp
qed

text \<open>
  C40: rounding an integer text. \<open>round_int_str\<close> keeps the text when the digit behind the point is
  below 5; otherwise it keeps the sign and adds one to the number the digits denote, growing the
  text by a digit when it consists of nines.\<close>

theorem round_int_str_increments:
  assumes "sign_byte sg" "list_all is_digit cs"
  shows "\<exists>ds. round_int_str c (sg @ cs) = sg @ ds \<and> list_all is_digit ds \<and>
    digits_val ds = digits_val cs + (if c < 53 then 0 else 1)"
proof (cases "c < 53")
  case True
  then show ?thesis using assms(2) by (auto simp: round_int_str_def)
next
  case False
  then show ?thesis using round_up_text[OF assms, of c] by simp
qed

theorem round_int_str_increments_witness:
  "(\<exists>ds. round_int_str 55 ([45] @ [57, 57, 57]) = [45] @ ds \<and> digits_val ds = 1000) \<and>
   round_int_str 55 [45, 57, 57, 57] = [45, 49, 48, 48, 48]"
proof -
  have "sign_byte [45]" "list_all is_digit [57, 57, 57]" by (simp_all add: sign_byte_def is_digit_def)
  moreover have "digits_val [57, 57, 57] = 999" by (simp add: digit_val_def)
  moreover have "round_int_str 55 [45, 57, 57, 57] = [45, 49, 48, 48, 48]" by code_simp
  ultimately show ?thesis using round_int_str_increments[of "[45]" "[57, 57, 57]" 55] by fastforce
qed

text \<open>
  C34: a string cast to a column of \<open>flen\<close> characters. For a valid UTF-8 string and a UTF-8
  charset the result is the string itself when it has at most \<open>flen\<close> characters; otherwise the
  truncation is reported, and unless that is an error the result is the prefix of exactly
  \<open>flen\<close> whole characters, which is valid UTF-8 again. No panic.\<close>

theorem produce_str_fits:
  assumes "is_utf8 s" "length s < 2 ^ 63" "0 \<le> ft_flen ft" "ft_get_charset ft \<in> {CHARSET_UTF8, CHARSET_UTF8MB4}"
  shows "let n = nat (ft_flen ft); cnt = length (char_indices s);
      r = produce_str_with_specified_tp s ft pad_zero ctx in
    if cnt \<le> n then r = Some (Inr s, ctx)
    else \<exists>p q. s = p @ q \<and> is_utf8 p \<and> length (char_indices p) = n \<and>
      r = Some (if has_flag ctx IGNORE_TRUNCATE then (Inr p, ctx)
                else if has_flag ctx TRUNCATE_AS_WARNING then (Inr p, warn (too_long n cnt) ctx)
                else (Inl (too_long n cnt), ctx))"
proof (cases "length (char_indices s) \<le> nat (ft_flen ft)")
  case True
  then show ?thesis using assms by (auto simp: produce_str_with_specified_tp_def)
next
  case False
  let ?n = "nat (ft_flen ft)" and ?cs = "char_indices s"
  let ?p = "take (?cs ! ?n) s"
  have n: "?n < length ?cs" using False by simp
  note cut = char_indices_cut[OF n]
  have d: "drop ?n ?cs = ?cs ! ?n # drop (Suc ?n) ?cs" using n by (simp add: Cons_nth_drop_Suc)
  have c: "?n + 1 + length (drop (Suc ?n) ?cs) = length ?cs" using n by simp
  have u: "as_unsigned 64 (int (?cs ! ?n)) = ?cs ! ?n" using cut(1) assms(2) by (simp add: as_unsigned_def)
  have t: "truncate_binary s (int (?cs ! ?n)) = ?p" using cut(1) unfolding truncate_binary_def u by simp
  have r: "produce_str_with_specified_tp s ft pad_zero ctx = Some (map_unit (handle_truncate_err (too_long ?n (length ?cs)) ctx) ?p)"
    using assms(1,3,4) unfolding produce_str_with_specified_tp_def Let_def d c[symmetric] list.case t by auto
  have "s = ?p @ drop (?cs ! ?n) s" "length (char_indices ?p) = ?n" using cut(2) n by auto
  then show ?thesis using False cut(3) unfolding r Let_def if_not_P[OF False]
    by (intro exI[of _ ?p] exI[of _ "drop (?cs ! ?n) s"] conjI) (auto simp: map_unit_def handle_truncate_err_def)
qed

theorem produce_str_fits_witness:
  "produce_str_with_specified_tp [65, 195, 169, 66] (ft_default\<lparr>ft_get_flen := 2, ft_get_charset := ''utf8mb4''\<rparr>) False
     (ctx_with TRUNCATE_AS_WARNING) =
   Some (Inr [65, 195, 169], warn (too_long 2 3) (ctx_with TRUNCATE_AS_WARNING))"
proof -
  let ?s = "[65, 195, 169, 66] :: nat list" and ?ft = "ft_default\<lparr>ft_get_flen := 2, ft_get_charset := ''utf8mb4''\<rparr>"
  have u: "is_utf8 ?s" "char_indices ?s = [0, 1, 3]" by code_simp+
  have f: "ft_flen ?ft = 2" "ft_get_charset ?ft = CHARSET_UTF8MB4" by (simp_all add: ft_flen_def CHARSET_UTF8MB4_def as_signed_def)
  have h: "\<not> has_flag (ctx_with TRUNCATE_AS_WARNING) IGNORE_TRUNCATE" "has_flag (ctx_with TRUNCATE_AS_WARNING) TRUNCATE_AS_WARNING" by code_simp+
  have "\<exists>p q. ?s = p @ q \<and> is_utf8 p \<and> length (char_indices p) = 2 \<and>
      produce_str_with_specified_tp ?s ?ft False (ctx_with TRUNCATE_AS_WARNING) = Some (Inr p, warn (too_long 2 3) (ctx_with TRUNCATE_AS_WARNING))"
    using produce_str_fits[of ?s ?ft False "ctx_with TRUNCATE_AS_WARNING"] u f h unfolding Let_def by (simp add: numeral_3_eq_3)
  moreover have "p = [65, 195, 169]" if "?s = p @ q" "length (char_indices p) = 2" "is_utf8 p" for p q :: "nat list"
  proof -
    have "length ?s = length p + length q" unfolding that(1) by (rule length_append)
    then have "length p \<le> 4" by simp
    moreover have "p = take (length p) ?s" using that(1) by (metis append_eq_conv_conj)
    ultimately have "p \<in> set (map (\<lambda>k. take k ?s) [0..<5])" by (auto simp: image_iff intro!: bexI[of _ "length p"])
    moreover have "list_all (\<lambda>p. length (char_indices p) \<noteq> 2 \<or> \<not> is_utf8 p \<or> p = [65, 195, 169]) (map (\<lambda>k. take k ?s) [0..<5])" by code_simp
    ultimately show ?thesis using that(2,3) by (simp only: list_all_iff) blast
  qed
  ultimately show ?thesis by metis
qed

end
