(* ===== verification/Duration.thy ===== *)
theory Duration
  imports Convert
begin

text \<open>
  SQL time values, \<open>src/berolinasql/src/duration.rs\<close>: the range checks, rounding to a fractional
  precision, the constructors, the parser, the printer, checked arithmetic, comparison and the
  chunk codec. A duration is a signed number of nanoseconds with a fractional precision.

  What the file takes from elsewhere is a record of parameters: the precision check and its two
  constants, the character parsers of the crate \<open>nom\<close> (a string is its bytes; a parser returns
  the rest and its result, or nothing), the date-time reader, and the little-endian number codec.
\<close>

section \<open>Constants and data\<close>

definition NANOS_PER_SEC :: int where [simp]: "NANOS_PER_SEC = 1000000000"
definition NANOS_PER_MILLI :: int where [simp]: "NANOS_PER_MILLI = 1000000"
definition NANOS_PER_MICRO :: int where [simp]: "NANOS_PER_MICRO = 1000"
definition NANO_WIDTH :: nat where [simp]: "NANO_WIDTH = 9"
definition SECS_PER_HOUR :: int where [simp]: "SECS_PER_HOUR = 3600"
definition SECS_PER_MINUTE :: int where [simp]: "SECS_PER_MINUTE = 60"
definition MAX_HOUR_PART :: nat where [simp]: "MAX_HOUR_PART = 838"
definition MAX_MINUTE_PART :: nat where [simp]: "MAX_MINUTE_PART = 59"
definition MAX_SECOND_PART :: nat where [simp]: "MAX_SECOND_PART = 59"
definition MAX_NANOS_PART :: nat where [simp]: "MAX_NANOS_PART = 999999999"

definition MAX_NANOS :: int where
  "MAX_NANOS = (int MAX_HOUR_PART * SECS_PER_HOUR + int MAX_MINUTE_PART * SECS_PER_MINUTE + int MAX_SECOND_PART)
     * NANOS_PER_SEC + int MAX_NANOS_PART"

record duration =
  dur_secs :: int
  dur_nanos :: int
  dur_fsp :: nat

record 'tz dur_env =
  check_fsp :: "int \<Rightarrow> nat fresult"
  MAX_FSP :: int
  DEFAULT_FSP :: int
  digit0 :: "nat list \<Rightarrow> (nat list \<times> nat list) option"
  digit1 :: "nat list \<Rightarrow> (nat list \<times> nat list) option"
  space0 :: "nat list \<Rightarrow> nat list option"
  space1 :: "nat list \<Rightarrow> nat list option"
  char1 :: "nat \<Rightarrow> nat list \<Rightarrow> nat list option"
  opt_char :: "nat \<Rightarrow> nat list \<Rightarrow> (nat list \<times> bool) option"
  anychar :: "nat list \<Rightarrow> (nat list \<times> nat) option"
  datetime_duration :: "nat list \<Rightarrow> int \<Rightarrow> 'tz eval_context \<Rightarrow> duration fresult \<times> 'tz eval_context"
  write_i64_le :: "int \<Rightarrow> nat list"
  read_i64_le :: "nat list \<Rightarrow> (int \<times> nat list) fresult"

section \<open>Range checks\<close>

definition check_hour_part :: "nat \<Rightarrow> nat fresult" where
  "check_hour_part hour =
     (if hour > MAX_HOUR_PART then Inl (Eval ''DURATION OVERCausetxctx'' ERR_DATA_OUT_OF_RANGE) else Inr hour)"

definition check_minute_part :: "nat \<Rightarrow> nat fresult" where
  "check_minute_part minute =
     (if minute > MAX_MINUTE_PART then Inl (truncated_wrong_val ''MINUTES'' (show_nat minute)) else Inr minute)"

definition check_second_part :: "nat \<Rightarrow> nat fresult" where
  "check_second_part second =
     (if second > MAX_SECOND_PART then Inl (truncated_wrong_val ''SECONDS'' (show_nat second)) else Inr second)"

definition check_nanos_part :: "nat \<Rightarrow> nat fresult" where
  "check_nanos_part nanos =
     (if nanos > MAX_NANOS_PART then Inl (truncated_wrong_val ''NANOS'' (show_nat nanos)) else Inr nanos)"

definition check_nanos :: "int \<Rightarrow> int fresult" where
  "check_nanos nanos =
     (if nanos < - MAX_NANOS \<or> nanos > MAX_NANOS then Inl (truncated_wrong_val ''NANOS'' (show_int nanos)) else Inr nanos)"

definition checked_round :: "int \<Rightarrow> nat \<Rightarrow> int fresult option" where
  "checked_round nanos fsp =
     try_res (check_nanos nanos) (\<lambda>_. do {
       i \<leftarrow> usub NANO_WIDTH fsp;
       p \<leftarrow> get_at TEN_POW i;
       let min_step = int p;
       let rm = srem nanos min_step;
       a \<leftarrow> scheck 64 (nanos - rm);
       n \<leftarrow> (if \<bar>rm\<bar> < sdiv min_step 2 then Some a
             else do {
               m \<leftarrow> scheck 64 (min_step * sgn nanos);
               scheck 64 (a + m) });
       Some (check_nanos n) })"

section \<open>Parts of a duration\<close>

definition is_neg :: "duration \<Rightarrow> bool" where
  "is_neg d \<longleftrightarrow> dur_nanos d < 0"

definition to_secs :: "duration \<Rightarrow> int" where
  "to_secs d = sdiv (dur_nanos d) NANOS_PER_SEC"

definition hours :: "duration \<Rightarrow> nat" where
  "hours d = as_unsigned 32 (sdiv \<bar>to_secs d\<bar> SECS_PER_HOUR)"

definition minutes :: "duration \<Rightarrow> nat" where
  "minutes d = as_unsigned 32 (srem (sdiv \<bar>to_secs d\<bar> SECS_PER_MINUTE) 60)"

definition secs :: "duration \<Rightarrow> nat" where
  "secs d = as_unsigned 32 (srem \<bar>to_secs d\<bar> SECS_PER_MINUTE)"

definition subsec_nanos :: "duration \<Rightarrow> nat option" where
  "subsec_nanos d = do {
     a \<leftarrow> scheck 64 \<bar>dur_nanos d\<bar>;
     Some (as_unsigned 32 (srem a NANOS_PER_SEC)) }"

definition subsec_micros :: "duration \<Rightarrow> nat option" where
  "subsec_micros d = do { n \<leftarrow> subsec_nanos d; Some (n div 1000) }"

definition maximize_fsp :: "'tz dur_env \<Rightarrow> duration \<Rightarrow> duration" where
  "maximize_fsp env d = d\<lparr>dur_fsp := as_unsigned 8 (MAX_FSP env)\<rparr>"

definition to_millis :: "duration \<Rightarrow> int" where
  "to_millis d = sdiv (dur_nanos d) NANOS_PER_MILLI"

definition to_micros :: "duration \<Rightarrow> int" where
  "to_micros d = sdiv (dur_nanos d) NANOS_PER_MICRO"

definition to_nanos :: "duration \<Rightarrow> int" where
  "to_nanos d = dur_nanos d"

definition zero_dur :: "'tz dur_env \<Rightarrow> duration" where
  "zero_dur env = \<lparr>dur_secs = 0, dur_nanos = 0, dur_fsp = as_unsigned 8 (DEFAULT_FSP env)\<rparr>"

definition is_zero_dur :: "duration \<Rightarrow> bool" where
  "is_zero_dur d \<longleftrightarrow> dur_nanos d = 0"

definition abs_dur :: "duration \<Rightarrow> duration option" where
  "abs_dur d = do { a \<leftarrow> scheck 64 \<bar>dur_nanos d\<bar>; Some (d\<lparr>dur_nanos := a\<rparr>) }"

section \<open>Constructors\<close>

definition dur_overflow :: error where
  "dur_overflow = Eval ''DURATION OVERCausetxctx'' ERR_DATA_OUT_OF_RANGE"

text \<open>\<open>n.checked_mul(unit).ok_or_else(..)\<close>\<close>

definition checked_scale :: "int \<Rightarrow> int \<Rightarrow> int fresult" where
  "checked_scale n unt = (if in_signed 64 (n * unt) then Inr (n * unt) else Inl dur_overflow)"

definition from_secs :: "'tz dur_env \<Rightarrow> int \<Rightarrow> int \<Rightarrow> duration fresult option" where
  "from_secs env s fsp =
     try_res (check_fsp env fsp) (\<lambda>fsp.
     try_res (checked_scale s NANOS_PER_SEC) (\<lambda>nanos.
     try_res (check_nanos nanos) (\<lambda>_.
     Some (Inr \<lparr>dur_secs = s, dur_nanos = nanos, dur_fsp = fsp\<rparr>))))"

definition from_nanos :: "'tz dur_env \<Rightarrow> int \<Rightarrow> int \<Rightarrow> duration fresult option" where
  "from_nanos env nanos fsp =
     try_res (check_fsp env fsp) (\<lambda>fsp. do {
       r \<leftarrow> checked_round nanos fsp;
       try_res r (\<lambda>nanos. Some (Inr \<lparr>dur_secs = 0, dur_nanos = nanos, dur_fsp = fsp\<rparr>)) })"

text \<open>\<open>from_millis\<close> and \<open>from_micros\<close> differ in their unit.\<close>

definition from_unit :: "'tz dur_env \<Rightarrow> int \<Rightarrow> int \<Rightarrow> int \<Rightarrow> duration fresult option" where
  "from_unit env unt n fsp =
     try_res (check_fsp env fsp) (\<lambda>fsp.
     try_res (checked_scale n unt) (\<lambda>nanos. do {
       r \<leftarrow> checked_round nanos fsp;
       try_res r (\<lambda>nanos. Some (Inr \<lparr>dur_secs = 0, dur_nanos = nanos, dur_fsp = fsp\<rparr>)) }))"

definition from_millis :: "'tz dur_env \<Rightarrow> int \<Rightarrow> int \<Rightarrow> duration fresult option" where
  "from_millis env millis fsp = from_unit env NANOS_PER_MILLI millis fsp"

definition from_micros :: "'tz dur_env \<Rightarrow> int \<Rightarrow> int \<Rightarrow> duration fresult option" where
  "from_micros env micros fsp = from_unit env NANOS_PER_MICRO micros fsp"

definition new_from_parts :: "'tz dur_env \<Rightarrow> bool \<Rightarrow> nat \<Rightarrow> nat \<Rightarrow> nat \<Rightarrow> nat \<Rightarrow> int \<Rightarrow> duration fresult option" where
  "new_from_parts env neg hour minute second nanos fsp =
     try_res (check_minute_part minute) (\<lambda>_.
     try_res (check_second_part second) (\<lambda>_.
     try_res (check_nanos_part nanos) (\<lambda>_.
     try_res (check_hour_part hour) (\<lambda>_.
     try_res (check_fsp env fsp) (\<lambda>fsp. do {
       let signum = (if neg then - 1 else 1);
       let minute = int minute + int hour * 60;
       let second = int second + minute * SECS_PER_MINUTE;
       nanos \<leftarrow> scheck 64 (int nanos + second * NANOS_PER_SEC);
       r \<leftarrow> checked_round (signum * nanos) fsp;
       try_res r (\<lambda>nanos. Some (Inr \<lparr>dur_secs = 0, dur_nanos = nanos, dur_fsp = fsp\<rparr>)) })))))"

definition round_frac :: "'tz dur_env \<Rightarrow> duration \<Rightarrow> int \<Rightarrow> duration fresult option" where
  "round_frac env d fsp =
     try_res (check_fsp env fsp) (\<lambda>fsp.
       if fsp \<ge> dur_fsp d then Some (Inr (d\<lparr>dur_fsp := fsp\<rparr>))
       else do {
         r \<leftarrow> checked_round (dur_nanos d) fsp;
         try_res r (\<lambda>nanos. Some (Inr \<lparr>dur_secs = 0, dur_nanos = nanos, dur_fsp = fsp\<rparr>)) })"

definition checked_add_dur :: "duration \<Rightarrow> duration \<Rightarrow> duration option" where
  "checked_add_dur d rhs = do {
     nanos \<leftarrow> scheck 64 (dur_nanos d + dur_nanos rhs);
     case check_nanos nanos of
       Inl _ \<Rightarrow> None
     | Inr _ \<Rightarrow> Some \<lparr>dur_secs = 0, dur_nanos = nanos, dur_fsp = max (dur_fsp d) (dur_fsp rhs)\<rparr> }"

definition checked_sub_dur :: "duration \<Rightarrow> duration \<Rightarrow> duration option" where
  "checked_sub_dur d rhs = do {
     nanos \<leftarrow> scheck 64 (dur_nanos d - dur_nanos rhs);
     case check_nanos nanos of
       Inl _ \<Rightarrow> None
     | Inr _ \<Rightarrow> Some \<lparr>dur_secs = 0, dur_nanos = nanos, dur_fsp = max (dur_fsp d) (dur_fsp rhs)\<rparr> }"

text \<open>The number \<open>hhmmss\<close>; the absolute value of the least \<open>i64\<close> panics.\<close>

definition from_i64_with_ctx_and_check :: "'tz dur_env \<Rightarrow> int \<Rightarrow> int \<Rightarrow> duration fresult option" where
  "from_i64_with_ctx_and_check env n fsp = do {
     a \<leftarrow> scheck 64 \<bar>n\<bar>;
     let hour = as_unsigned 32 (sdiv a 10000);
     let minute = as_unsigned 32 (srem (sdiv a 100) 100);
     let second = as_unsigned 32 (srem a 100);
     if hour > MAX_HOUR_PART \<or> minute > MAX_MINUTE_PART \<or> second > MAX_SECOND_PART
     then Some (Inl (Eval (''invalid time format: '' @ [CHR 0x27] @ show_int n @ [CHR 0x27]) ERR_TRUNCATE_WRONG_VALUE))
     else new_from_parts env (n < 0) hour minute second 0 fsp }"

section \<open>Printing\<close>

text \<open>The bytes of \<open>{:0w$}\<close>: decimal digits, filled with zeros to a width.\<close>

definition pad_digits :: "nat \<Rightarrow> nat \<Rightarrow> nat list" where
  "pad_digits w n = (let ds = map of_char (show_nat n) in replicate (w - length ds) 48 @ ds)"

definition format_dur :: "nat list \<Rightarrow> duration \<Rightarrow> nat list option" where
  "format_dur sep d = do {
     let s = (if is_neg d then [45] else []) @ pad_digits 2 (hours d) @ sep @ pad_digits 2 (minutes d) @ sep @ pad_digits 2 (secs d);
     if dur_fsp d > 0
     then do {
       n \<leftarrow> subsec_nanos d;
       i \<leftarrow> usub NANO_WIDTH (dur_fsp d);
       p \<leftarrow> get_at TEN_POW i;
       Some (s @ [46] @ pad_digits (dur_fsp d) (n div p)) }
     else Some s }"

definition to_numeric_string :: "duration \<Rightarrow> nat list option" where
  "to_numeric_string d = format_dur [] d"

definition display_dur :: "duration \<Rightarrow> nat list option" where
  "display_dur d = format_dur [58] d"

text \<open>\<open>ConvertTo<Decimal>\<close>: an unreadable text fails the debug assertion.\<close>

definition dur_to_decimal :: "(nat list \<Rightarrow> string) \<Rightarrow> duration \<Rightarrow> decimal fresult option" where
  "dur_to_decimal escape d = do {
     s \<leftarrow> to_numeric_string d;
     r \<leftarrow> from_str escape s;
     case r of Inl e \<Rightarrow> None | Inr x \<Rightarrow> Some (Inr x) }"

section \<open>Comparison\<close>

definition eq_dur :: "duration \<Rightarrow> duration \<Rightarrow> bool" where
  "eq_dur l r \<longleftrightarrow> dur_nanos l = dur_nanos r"

definition cmp_dur :: "duration \<Rightarrow> duration \<Rightarrow> partitioning" where
  "cmp_dur l r = cmp_val (dur_nanos l) (dur_nanos r)"

definition hash_dur :: "duration \<Rightarrow> int" where
  "hash_dur d = dur_nanos d"

section \<open>Parsing\<close>

text \<open>\<open>number\<close>: digits that fit \<open>u32\<close>.\<close>

definition number :: "'tz dur_env \<Rightarrow> nat list \<Rightarrow> (nat list \<times> nat) option" where
  "number env input = do {
     (rest, num) \<leftarrow> digit1 env input;
     if digits_val num < 2 ^ 32 then Some (rest, digits_val num) else None }"

definition colon :: "'tz dur_env \<Rightarrow> nat list \<Rightarrow> nat list option" where
  "colon env input = do {
     rest \<leftarrow> space0 env input;
     rest \<leftarrow> char1 env 58 rest;
     space0 env rest }"

text \<open>The loop of \<open>hhmmss_delimited\<close>, \<open>n\<close> rounds being left.\<close>

fun delimited_loop :: "'tz dur_env \<Rightarrow> bool \<Rightarrow> nat \<Rightarrow> nat \<Rightarrow> nat list \<Rightarrow> nat list \<Rightarrow> (nat list \<times> nat list) option" where
  "delimited_loop env require_colon i 0 rest hhmmss = Some (rest, hhmmss)"
| "delimited_loop env require_colon i (Suc n) rest hhmmss =
     (case colon env rest of
        Some remain \<Rightarrow> do {
          (remain, num) \<leftarrow> number env remain;
          delimited_loop env require_colon (i + 1) n remain (hhmmss[i := num]) }
      | None \<Rightarrow> if i = 1 \<and> require_colon then None else Some (rest, hhmmss))"

definition hhmmss_delimited :: "'tz dur_env \<Rightarrow> nat list \<Rightarrow> bool \<Rightarrow> (nat list \<times> nat list) option" where
  "hhmmss_delimited env input require_colon = do {
     (rest, hour) \<leftarrow> number env input;
     delimited_loop env require_colon 1 2 rest [hour, 0, 0] }"

definition day_hhmmss :: "'tz dur_env \<Rightarrow> nat list \<Rightarrow> (nat list \<times> nat \<times> nat list) option" where
  "day_hhmmss env input = do {
     (rest, day) \<leftarrow> number env input;
     rest \<leftarrow> space1 env rest;
     (rest, hhmmss) \<leftarrow> hhmmss_delimited env rest False;
     Some (rest, day, hhmmss) }"

definition hhmmss_compact :: "'tz dur_env \<Rightarrow> nat list \<Rightarrow> (nat list \<times> nat list) option" where
  "hhmmss_compact env input = do {
     (rest, num) \<leftarrow> number env input;
     Some (rest, [num div 10000, (num div 100) mod 100, num mod 100]) }"

text \<open>\<open>char::is_ascii_punctuation\<close>\<close>

definition is_ascii_punctuation :: "nat \<Rightarrow> bool" where
  "is_ascii_punctuation c \<longleftrightarrow> 33 \<le> c \<and> c \<le> 47 \<or> 58 \<le> c \<and> c \<le> 64 \<or> 91 \<le> c \<and> c \<le> 96 \<or> 123 \<le> c \<and> c \<le> 126"

definition anysep :: "'tz dur_env \<Rightarrow> nat list \<Rightarrow> nat list option" where
  "anysep env input = do {
     (rest, sep) \<leftarrow> anychar env input;
     if is_ascii_punctuation sep then Some rest else None }"

text \<open>Whether \<open>hhmmss_datetime\<close> hands the text to the date-time reader.\<close>

definition datetime_shape :: "'tz dur_env \<Rightarrow> nat list \<Rightarrow> bool" where
  "datetime_shape env input =
     (case digit1 env input of
        None \<Rightarrow> False
      | Some (rest, digits) \<Rightarrow>
          (if length digits = 12 \<or> length digits = 14 then True
           else (case (do {
                   rest \<leftarrow> anysep env rest;
                   (rest, _) \<leftarrow> digit1 env rest;
                   rest \<leftarrow> anysep env rest;
                   (rest, _) \<leftarrow> digit1 env rest;
                   Some rest }) of
                   Some (c # _) \<Rightarrow> c = 84 \<or> c = 32
                 | _ \<Rightarrow> False)))"

definition hhmmss_datetime :: "'tz dur_env \<Rightarrow> nat list \<Rightarrow> nat \<Rightarrow> 'tz eval_context \<Rightarrow> duration option \<times> 'tz eval_context" where
  "hhmmss_datetime env input fsp ctx =
     (if datetime_shape env input
      then (case datetime_duration env input (as_signed 8 (int fsp)) ctx of
              (Inl _, ctx) \<Rightarrow> (None, ctx)
            | (Inr d, ctx) \<Rightarrow> (Some d, ctx))
      else (None, ctx))"

text \<open>\<open>fraction\<close>: nanoseconds; the outer option is the panic, the inner one the parse error.\<close>

definition fraction :: "'tz dur_env \<Rightarrow> nat list \<Rightarrow> nat \<Rightarrow> (nat list \<times> nat) option option" where
  "fraction env input fsp =
     (case opt_char env 46 input of
        None \<Rightarrow> Some None
      | Some (rest, False) \<Rightarrow> Some (Some (rest, 0))
      | Some (rest, True) \<Rightarrow>
          (case digit0 env rest of
             None \<Rightarrow> Some None
           | Some (rest, digits) \<Rightarrow>
               let (num, len) = (if fsp \<ge> length digits then (number env digits, length digits)
                                 else (number env (take (fsp + 1) digits), fsp + 1))
               in case num of
                    None \<Rightarrow> Some None
                  | Some (_, fr) \<Rightarrow> do {
                      p \<leftarrow> get_at TEN_POW (NANO_WIDTH - len);
                      v \<leftarrow> umul 32 fr p;
                      Some (Some (rest, v)) }))"

text \<open>The three ways to write the fields, in the order they are tried.\<close>

definition parse_fields :: "'tz dur_env \<Rightarrow> nat list \<Rightarrow> (nat list \<times> nat list) option" where
  "parse_fields env rest =
     (let by_day = (case day_hhmmss env rest of
            Some (r, day, hms) \<Rightarrow>
              (if day * 24 < 2 ^ 32 \<and> day * 24 + hms ! 0 < 2 ^ 32 then Some (r, [day * 24 + hms ! 0, hms ! 1, hms ! 2]) else None)
          | None \<Rightarrow> None)
      in case by_day of
           Some x \<Rightarrow> Some x
         | None \<Rightarrow> (case hhmmss_delimited env rest True of Some x \<Rightarrow> Some x | None \<Rightarrow> hhmmss_compact env rest))"

text \<open>The fraction and the end of the text behind the fields.\<close>

definition parse_tail :: "'tz dur_env \<Rightarrow> bool \<Rightarrow> nat list \<Rightarrow> nat list \<Rightarrow> nat \<Rightarrow> duration fresult option option" where
  "parse_tail env neg rest hms fsp =
     (case space0 env rest of
        None \<Rightarrow> Some None
      | Some rest \<Rightarrow> do {
          f \<leftarrow> fraction env rest fsp;
          case f of
            None \<Rightarrow> Some None
          | Some (rest, fr) \<Rightarrow>
              if rest \<noteq> [] then Some None
              else do {
                r \<leftarrow> new_from_parts env neg (hms ! 0) (hms ! 1) (hms ! 2) fr (as_signed 8 (int fsp));
                Some (Some r) } })"

text \<open>An overflow is handled by the context and replaced by the largest duration.\<close>

definition recover_overflow ::
    "nat list \<Rightarrow> bool \<Rightarrow> nat \<Rightarrow> duration fresult option \<times> 'tz eval_context \<Rightarrow> duration option \<times> 'tz eval_context" where
  "recover_overflow input neg fsp rc =
     (case rc of
        (None, ctx) \<Rightarrow> (None, ctx)
      | (Some (Inr d), ctx) \<Rightarrow> (Some d, ctx)
      | (Some (Inl e), ctx) \<Rightarrow>
          (if is_over_causetxctx e
           then (case handle_overCausetxctx_err (truncated_wrong_val ''TIME'' (map char_of input)) ctx of
                   (Inl _, ctx) \<Rightarrow> (None, ctx)
                 | (Inr _, ctx) \<Rightarrow>
                     (Some \<lparr>dur_secs = 0, dur_nanos = (if neg then - MAX_NANOS else MAX_NANOS), dur_fsp = fsp\<rparr>, ctx))
           else (None, ctx)))"

definition parse_text :: "'tz dur_env \<Rightarrow> nat list \<Rightarrow> nat \<Rightarrow> 'tz eval_context \<Rightarrow> (duration option \<times> 'tz eval_context) option" where
  "parse_text env input fsp ctx =
     (if input = [] then Some (Some (zero_dur env), ctx)
      else case opt_char env 45 input of
          None \<Rightarrow> Some (None, ctx)
        | Some (rest, neg) \<Rightarrow>
            (case space0 env rest of
               None \<Rightarrow> Some (None, ctx)
             | Some rest \<Rightarrow> do {
                 r \<leftarrow> (case parse_fields env rest of
                        None \<Rightarrow> Some None
                      | Some (rest', hms) \<Rightarrow> parse_tail env neg rest' hms fsp);
                 let rc = (case r of
                        Some x \<Rightarrow> (Some x, ctx)
                      | None \<Rightarrow> (case hhmmss_datetime env rest fsp ctx of (d, ctx) \<Rightarrow> (map_option Inr d, ctx)));
                 Some (recover_overflow input neg fsp rc) }))"

subsection \<open>Trimming\<close>

text \<open>\<open>str::trim\<close>: the bytes of one white-space character at the start, or at the end reversed.\<close>

definition ws_start :: "nat list \<Rightarrow> nat" where
  "ws_start s =
     (if s \<noteq> [] \<and> (9 \<le> s ! 0 \<and> s ! 0 \<le> 13 \<or> s ! 0 = 32) then 1
      else if take 2 s \<in> {[0xc2, 0x85], [0xc2, 0xa0]} then 2
      else if take 3 s \<in> {[0xe1, 0x9a, 0x80], [0xe2, 0x80, 0xa8], [0xe2, 0x80, 0xa9], [0xe2, 0x80, 0xaf],
                            [0xe2, 0x81, 0x9f], [0xe3, 0x80, 0x80]} then 3
      else if length s \<ge> 3 \<and> take 2 s = [0xe2, 0x80] \<and> 0x80 \<le> s ! 2 \<and> s ! 2 \<le> 0x8a then 3
      else 0)"

function trim_start :: "nat list \<Rightarrow> nat list" where
  "trim_start s = (if ws_start s = 0 \<or> s = [] then s else trim_start (drop (ws_start s) s))"
  by pat_completeness auto
termination
  by (relation "measure length") auto

definition ws_end :: "nat list \<Rightarrow> nat" where
  "ws_end s =
     (if ws_start (drop (length s - 1) s) = 1 then 1
      else if length s \<ge> 2 \<and> ws_start (drop (length s - 2) s) = 2 then 2
      else if length s \<ge> 3 \<and> ws_start (drop (length s - 3) s) = 3 then 3
      else 0)"

function trim_end :: "nat list \<Rightarrow> nat list" where
  "trim_end s = (if ws_end s = 0 \<or> s = [] then s else trim_end (take (length s - ws_end s) s))"
  by pat_completeness auto
termination
  by (relation "measure length") auto

declare trim_start.simps [simp del] trim_end.simps [simp del]

definition parse_dur :: "'tz dur_env \<Rightarrow> nat list \<Rightarrow> int \<Rightarrow> 'tz eval_context \<Rightarrow> (duration fresult \<times> 'tz eval_context) option" where
  "parse_dur env bytes fsp ctx =
     (if \<not> is_utf8 bytes then Some (Inl (Encoding (valid_up_to bytes)), ctx)
      else let input = trim_end (trim_start bytes)
      in case check_fsp env fsp of
           Inl e \<Rightarrow> Some (Inl e, ctx)
         | Inr fsp \<Rightarrow> do {
             (r, ctx) \<leftarrow> parse_text env input fsp ctx;
             Some (case r of Some d \<Rightarrow> Inr d | None \<Rightarrow> Inl (truncated_wrong_val ''TIME'' (map char_of input)), ctx) })"

section \<open>Chunks\<close>

definition write_duration_to_chunk :: "'tz dur_env \<Rightarrow> duration \<Rightarrow> nat list" where
  "write_duration_to_chunk env d = write_i64_le env (to_nanos d)"

definition read_duration_from_chunk :: "'tz dur_env \<Rightarrow> nat list \<Rightarrow> int \<Rightarrow> (duration \<times> nat list) fresult option" where
  "read_duration_from_chunk env bs fsp =
     try_res (read_i64_le env bs) (\<lambda>(nanos, rest). do {
       r \<leftarrow> from_nanos env nanos (as_signed 8 fsp);
       try_res r (\<lambda>d. Some (Inr (d, rest))) })"

definition dur_as_bool :: "duration \<Rightarrow> bool" where
  "dur_as_bool d \<longleftrightarrow> dur_nanos d \<noteq> 0"

end
