(* ===== verification/Duration_Correct.thy ===== *)
theory Duration_Correct
  imports Duration Decimal_Codec_Correct
begin

text \<open>
  Durations, verified: rounding is half away from zero, every duration the operations produce is
  in range, the printed text parses back, and the conversion to a decimal is exact. The laws the
  parameters have to obey are collected in \<open>env_ok\<close>.
\<close>

section \<open>The parameters\<close>

definition env_ok :: "'tz dur_env \<Rightarrow> bool" where
  "env_ok env \<longleftrightarrow>
     (\<forall>f g. check_fsp env f = Inr g \<longrightarrow> g \<le> 6) \<and>
     (\<forall>g\<le>6. check_fsp env (int g) = Inr g) \<and>
     MAX_FSP env = 6 \<and> DEFAULT_FSP env = 0 \<and>
     (\<forall>s. digit0 env s = Some (dropWhile is_digit s, takeWhile is_digit s)) \<and>
     (\<forall>s. digit1 env s = (if takeWhile is_digit s = [] then None else Some (dropWhile is_digit s, takeWhile is_digit s))) \<and>
     (\<forall>s. space0 env s = Some (dropWhile (\<lambda>c. c = 32 \<or> c = 9) s)) \<and>
     (\<forall>s. space1 env s = (if takeWhile (\<lambda>c. c = 32 \<or> c = 9) s = [] then None else Some (dropWhile (\<lambda>c. c = 32 \<or> c = 9) s))) \<and>
     (\<forall>c s. char1 env c s = (if s \<noteq> [] \<and> s ! 0 = c then Some (drop 1 s) else None)) \<and>
     (\<forall>c s. opt_char env c s = Some (if s \<noteq> [] \<and> s ! 0 = c then (drop 1 s, True) else (s, False))) \<and>
     (\<forall>s f ctx d ctx'. datetime_duration env s f ctx = (Inr d, ctx') \<longrightarrow> \<bar>dur_nanos d\<bar> \<le> MAX_NANOS \<and> dur_fsp d \<le> 6) \<and>
     (\<forall>x rest. in_signed 64 x \<longrightarrow> read_i64_le env (write_i64_le env x @ rest) = Inr (x, rest))"

lemma env_okD:
  assumes "env_ok env"
  shows "check_fsp env f = Inr g \<Longrightarrow> g \<le> 6" and "g \<le> 6 \<Longrightarrow> check_fsp env (int g) = Inr g"
    and "MAX_FSP env = 6" and "DEFAULT_FSP env = 0"
    and "digit0 env s = Some (dropWhile is_digit s, takeWhile is_digit s)"
    and "digit1 env s = (if takeWhile is_digit s = [] then None else Some (dropWhile is_digit s, takeWhile is_digit s))"
    and "space0 env s = Some (dropWhile (\<lambda>c. c = 32 \<or> c = 9) s)"
    and "space1 env s = (if takeWhile (\<lambda>c. c = 32 \<or> c = 9) s = [] then None else Some (dropWhile (\<lambda>c. c = 32 \<or> c = 9) s))"
    and "char1 env c s = (if s \<noteq> [] \<and> s ! 0 = c then Some (drop 1 s) else None)"
    and "opt_char env c s = Some (if s \<noteq> [] \<and> s ! 0 = c then (drop 1 s, True) else (s, False))"
    and "datetime_duration env s i ctx = (Inr d, ctx') \<Longrightarrow> \<bar>dur_nanos d\<bar> \<le> MAX_NANOS \<and> dur_fsp d \<le> 6"
    and "in_signed 64 x \<Longrightarrow> read_i64_le env (write_i64_le env x @ rest) = Inr (x, rest)"
  using assms unfolding env_ok_def by blast+

section \<open>Rounding\<close>

definition dur_ok :: "duration \<Rightarrow> bool" where
  "dur_ok d \<longleftrightarrow> \<bar>dur_nanos d\<bar> \<le> MAX_NANOS \<and> dur_fsp d \<le> 6"

text \<open>The nanoseconds of one unit of the last fractional digit, and the nearest multiple of it, halves away from zero.\<close>

definition fsp_step :: "nat \<Rightarrow> int" where
  "fsp_step fsp = 10 ^ (9 - fsp)"

definition nearest :: "int \<Rightarrow> int \<Rightarrow> int" where
  "nearest s n = sgn n * ((\<bar>n\<bar> + s div 2) div s) * s"

lemma MAX_NANOS_val: "MAX_NANOS = 3020399999999999"
  by (simp add: MAX_NANOS_def)

lemma in_signed_64: "\<bar>x\<bar> \<le> 9000000000000000000 \<Longrightarrow> in_signed 64 x"
  by (auto simp: in_signed_def abs_le_iff)

lemma check_nanos_iff: "check_nanos n = (if \<bar>n\<bar> \<le> MAX_NANOS then Inr n else Inl (truncated_wrong_val ''NANOS'' (show_int n)))"
  by (auto simp: check_nanos_def)

lemma fsp_step_facts:
  assumes "fsp \<le> 6"
  shows "1000 \<le> fsp_step fsp" "fsp_step fsp \<le> 1000000000" "even (fsp_step fsp)"
proof -
  have "fsp \<in> {0, 1, 2, 3, 4, 5, 6}" using assms by auto
  then show "1000 \<le> fsp_step fsp" "fsp_step fsp \<le> 1000000000" "even (fsp_step fsp)" by (auto simp: fsp_step_def)
qed

lemma nearest_cases:
  assumes "0 < s" "even s"
  shows "nearest s n = (if \<bar>n\<bar> mod s < s div 2 then n - srem n s else n - srem n s + s * sgn n)"
proof -
  let ?a = "\<bar>n\<bar>" and ?h = "s div 2"
  have a: "?a = ?a div s * s + ?a mod s" by simp
  have s2: "s = 2 * ?h" using assms(2) by simp
  have r: "0 \<le> ?a mod s" "?a mod s < s" using assms(1) by simp_all
  have q: "(?a + ?h) div s = (if ?a mod s < ?h then ?a div s else ?a div s + 1)"
  proof -
    have "?a + ?h = (?a mod s + ?h) + ?a div s * s" by simp
    then have "(?a + ?h) div s = (?a mod s + ?h) div s + ?a div s" using assms(1) by (metis div_mult_self1 less_irrefl add.commute)
    moreover have "(?a mod s + ?h) div s = (if ?a mod s < ?h then 0 else 1)"
    proof (cases "?a mod s < ?h")
      case True
      then have "(?a mod s + ?h) div s = 0" using r s2 by (intro div_pos_pos_trivial) linarith+
      then show ?thesis using True by simp
    next
      case False
      then have "(?a mod s + ?h - s) div s = 0" using r s2 by (intro div_pos_pos_trivial) linarith+
      moreover have "s \<le> ?a mod s + ?h" using False s2 by linarith
      ultimately show ?thesis using False assms(1) by (simp add: div_pos_geq)
    qed
    ultimately show ?thesis by auto
  qed
  have n: "n = sgn n * ?a" by (simp add: sgn_mult_abs)
  have "n - srem n s = sgn n * (?a div s * s)" unfolding srem_def using n a assms(1) by (metis abs_of_pos add_diff_cancel_right' right_diff_distrib)
  then show ?thesis unfolding nearest_def q by (auto simp: algebra_simps)
qed

lemma nearest_aligned: "s dvd nearest s n"
  by (simp add: nearest_def)

lemma nearest_id: "0 < s \<Longrightarrow> even s \<Longrightarrow> s dvd n \<Longrightarrow> nearest s n = n"
proof -
  assume s: "0 < s" "even s" "s dvd n"
  then have "\<bar>n\<bar> mod s = 0" by simp
  moreover have "0 < s div 2" using s(1,2) by (auto elim: evenE)
  ultimately show ?thesis using nearest_cases[OF s(1,2), of n] s by (simp add: srem_def)
qed

lemma nearest_dist:
  assumes "0 < s" "even s"
  shows "2 * \<bar>nearest s n - n\<bar> \<le> s" "2 * \<bar>nearest s n - n\<bar> = s \<Longrightarrow> \<bar>n\<bar> < \<bar>nearest s n\<bar>"
proof -
  define h q r where "h = s div 2" and "q = (\<bar>n\<bar> + h) div s" and "r = (\<bar>n\<bar> + h) mod s"
  have s: "s = 2 * h" using assms(2) by (simp add: h_def)
  have n: "\<bar>n\<bar> = q * s + r - h" using div_mult_mod_eq[of "\<bar>n\<bar> + h" s] by (simp add: q_def r_def)
  have r: "0 \<le> r" "r < s" using assms(1) by (simp_all add: r_def)
  have "nearest s n - n = sgn n * (q * s - \<bar>n\<bar>)" by (simp add: nearest_def q_def h_def algebra_simps abs_mult_sgn)
  then have d: "\<bar>nearest s n - n\<bar> = (if n = 0 then 0 else \<bar>h - r\<bar>)" using n by (simp add: abs_mult abs_sgn_eq)
  then show "2 * \<bar>nearest s n - n\<bar> \<le> s" using r s by auto
  assume "2 * \<bar>nearest s n - n\<bar> = s"
  then have "n \<noteq> 0" "r = 0" using d r s assms(1) by (auto split: if_splits)
  then have "\<bar>n\<bar> = q * s - h" "\<bar>nearest s n\<bar> = \<bar>q * s\<bar>" using n by (simp_all add: nearest_def q_def h_def abs_mult)
  then show "\<bar>n\<bar> < \<bar>nearest s n\<bar>" using assms(1) s by linarith
qed

lemma checked_round_ok:
  assumes "fsp \<le> 6"
  shows "checked_round n fsp = Some (if \<bar>n\<bar> \<le> MAX_NANOS then check_nanos (nearest (fsp_step fsp) n) else check_nanos n)"
proof (cases "\<bar>n\<bar> \<le> MAX_NANOS")
  case True
  let ?s = "fsp_step fsp"
  note st = fsp_step_facts[OF assms]
  have p: "get_at TEN_POW (9 - fsp) = Some (10 ^ (9 - fsp))" by (simp add: get_at_def length_TEN_POW TEN_POW_nth)
  have s: "(10::int) ^ (9 - fsp) = ?s" by (simp add: fsp_step_def)
  have r: "\<bar>srem n ?s\<bar> = \<bar>n\<bar> mod ?s" using st(1) by (auto simp: srem_def abs_mult sgn_if)
  have d: "sdiv ?s 2 = ?s div 2" using st(1) by (simp add: sdiv_def)
  have rb: "\<bar>n\<bar> mod ?s < ?s" "0 \<le> \<bar>n\<bar> mod ?s" using st(1) by simp_all
  have b: "in_signed 64 (n - srem n ?s)" "in_signed 64 (?s * sgn n)" "in_signed 64 (n - srem n ?s + ?s * sgn n)"
  proof -
    have "\<bar>srem n ?s\<bar> \<le> 1000000000" using r rb(1) st(2) by linarith
    moreover have "\<bar>?s * sgn n\<bar> \<le> 1000000000" "\<bar>n\<bar> \<le> 3020399999999999" using st(1,2) True by (simp_all add: abs_mult MAX_NANOS_val sgn_if)
    ultimately show "in_signed 64 (n - srem n ?s)" "in_signed 64 (?s * sgn n)" "in_signed 64 (n - srem n ?s + ?s * sgn n)"
      by (intro in_signed_64; linarith)+
  qed
  have "usub 9 fsp = Some (9 - fsp)" using assms by (simp add: usub_def)
  then have "checked_round n fsp = Some (check_nanos (if \<bar>n\<bar> mod ?s < ?s div 2 then n - srem n ?s else n - srem n ?s + ?s * sgn n))"
    using True b by (simp add: checked_round_def try_res_def check_nanos_iff[of n] p s r d scheck_def Let_def)
  moreover have "nearest ?s n = (if \<bar>n\<bar> mod ?s < ?s div 2 then n - srem n ?s else n - srem n ?s + ?s * sgn n)"
    using st(1,3) by (intro nearest_cases) simp_all
  ultimately show ?thesis using True by simp
next
  case False
  then show ?thesis by (simp add: checked_round_def check_nanos_iff try_res_def)
qed

section \<open>Every operation stays in range\<close>

lemma checked_round_range:
  assumes "fsp \<le> 6"
  shows "\<exists>r. checked_round n fsp = Some r \<and> (\<forall>m. r = Inr m \<longrightarrow> \<bar>m\<bar> \<le> MAX_NANOS)"
  by (auto simp: checked_round_ok[OF assms] check_nanos_iff)

text \<open>A rounded number of nanoseconds made a duration.\<close>

lemma round_dur:
  assumes "fsp \<le> 6"
  shows "\<exists>r. Option.bind (checked_round n fsp) (\<lambda>r. try_res r (\<lambda>nanos. Some (Inr \<lparr>dur_secs = 0, dur_nanos = nanos, dur_fsp = fsp\<rparr>))) = Some r \<and>
    (\<forall>d. r = Inr d \<longrightarrow> dur_ok d)"
proof -
  obtain r where r: "checked_round n fsp = Some r" "\<forall>m. r = Inr m \<longrightarrow> \<bar>m\<bar> \<le> MAX_NANOS" using checked_round_range[OF assms] by blast
  then show ?thesis using assms by (cases r) (auto simp: try_res_def dur_ok_def)
qed

lemma new_from_parts_total:
  assumes "env_ok env"
  shows "\<exists>r. new_from_parts env neg h m s ns f = Some r \<and> (\<forall>d. r = Inr d \<longrightarrow> dur_ok d)"
proof -
  note parts = new_from_parts_def check_minute_part_def check_second_part_def check_nanos_part_def check_hour_part_def try_res_def
  show ?thesis
  proof (cases "m \<le> 59 \<and> s \<le> 59 \<and> ns \<le> 999999999 \<and> h \<le> 838")
    case in_range: True
    show ?thesis
    proof (cases "check_fsp env f")
      case (Inr fsp)
      then have "fsp \<le> 6" using env_okD(1)[OF assms] by blast
      moreover have "in_signed 64 (int ns + (int s + (int m + int h * 60) * 60) * 1000000000)"
        using in_range by (simp add: in_signed_def)
      ultimately show ?thesis using in_range round_dur[of fsp] by (simp add: parts scheck_def Let_def Inr)
    qed (use in_range in \<open>simp add: parts\<close>)
  qed (auto simp: parts)
qed

lemma from_unit_total:
  assumes "env_ok env"
  shows "\<exists>r. from_unit env u n f = Some r \<and> (\<forall>d. r = Inr d \<longrightarrow> dur_ok d)"
proof (cases "check_fsp env f")
  case (Inr fsp)
  then have "fsp \<le> 6" using env_okD(1)[OF assms] by blast
  then show ?thesis using round_dur[of fsp "n * u"] by (auto simp: from_unit_def try_res_def Inr checked_scale_def)
qed (simp add: from_unit_def try_res_def)

lemma from_nanos_total:
  assumes "env_ok env"
  shows "\<exists>r. from_nanos env n f = Some r \<and> (\<forall>d. r = Inr d \<longrightarrow> dur_ok d)"
proof (cases "check_fsp env f")
  case (Inr fsp)
  then have "fsp \<le> 6" using env_okD(1)[OF assms] by blast
  then show ?thesis using round_dur[of fsp n] by (auto simp: from_nanos_def try_res_def Inr)
qed (simp add: from_nanos_def try_res_def)

lemma round_frac_total:
  assumes "env_ok env" "dur_ok d"
  shows "\<exists>r. round_frac env d f = Some r \<and> (\<forall>d. r = Inr d \<longrightarrow> dur_ok d)"
proof (cases "check_fsp env f")
  case (Inr fsp)
  then have "fsp \<le> 6" using env_okD(1)[OF assms(1)] by blast
  then show ?thesis using round_dur[of fsp "dur_nanos d"] assms(2) by (auto simp: round_frac_def try_res_def Inr dur_ok_def)
qed (simp add: round_frac_def try_res_def)

lemma from_secs_range: "env_ok env \<Longrightarrow> from_secs env s f = Some (Inr d) \<Longrightarrow> dur_ok d"
  using env_okD(1)[of env]
  by (auto simp: from_secs_def try_res_def checked_scale_def check_nanos_iff dur_ok_def split: sum.splits if_splits)

lemma from_i64_range:
  assumes "env_ok env" "from_i64_with_ctx_and_check env n f = Some (Inr d)"
  shows "dur_ok d"
proof -
  have "\<exists>h m s. new_from_parts env (n < 0) h m s 0 f = Some (Inr d)"
    using assms(2) by (auto simp: from_i64_with_ctx_and_check_def Let_def scheck_def split: if_splits)
  then show ?thesis using new_from_parts_total[OF assms(1), where neg = "n < 0" and ns = 0 and f = f] by (metis option.inject)
qed

lemma add_sub_range:
  "checked_add_dur a b = Some d \<Longrightarrow> dur_ok a \<Longrightarrow> dur_ok b \<Longrightarrow> dur_ok d"
  "checked_sub_dur a b = Some d \<Longrightarrow> dur_ok a \<Longrightarrow> dur_ok b \<Longrightarrow> dur_ok d"
  by (auto simp: checked_add_dur_def checked_sub_dur_def check_nanos_iff dur_ok_def scheck_def split: if_splits)

section \<open>The parser returns\<close>

lemma digits_val_bound: "list_all is_digit ds \<Longrightarrow> digits_val ds < 10 ^ length ds"
  by (rule digits_val_less)

lemma fraction_total:
  assumes "env_ok env" "fsp \<le> 6"
  shows "\<exists>r. fraction env input fsp = Some r"
proof -
  note E = env_okD[OF assms(1)]
  have dg: "list_all is_digit (takeWhile is_digit s)" for s by (auto simp: list_all_iff dest: set_takeWhileD)
  have n: "\<exists>r. (case number env ds of None \<Rightarrow> Some None
      | Some (u, fr) \<Rightarrow> Option.bind (get_at TEN_POW (NANO_WIDTH - k)) (\<lambda>p. Option.bind (umul 32 fr p) (\<lambda>v. Some (Some (rest, v))))) = Some r"
    if "list_all is_digit ds" "length ds = k" "k \<le> 7" for ds rest k
  proof (cases "number env ds")
    case (Some x)
    have tw: "takeWhile is_digit ds = ds" using that(1) by (simp add: list_all_iff)
    then have "snd x = digits_val ds" using Some by (auto simp: number_def E(6) tw split: if_splits)
    then have "snd x * 10 ^ (9 - k) < 10 ^ k * 10 ^ (9 - k)" using digits_val_bound[OF that(1)] that(2) by simp
    also have "\<dots> = 10 ^ 9" using that(3) by (simp flip: power_add)
    finally have "snd x * 10 ^ (9 - k) < 2 ^ 32" by simp
    then show ?thesis by (cases x) (simp add: Some get_at_def length_TEN_POW TEN_POW_nth umul_def)
  qed simp
  let ?r = "drop (Suc 0) input"
  let ?ds = "takeWhile is_digit ?r"
  have t: "list_all is_digit (take (Suc fsp) ?ds)" using dg[of ?r] by (meson list_all_iff in_set_takeD)
  show ?thesis
  proof (cases "input \<noteq> [] \<and> input ! 0 = 46")
    case True
    show ?thesis
    proof (cases "length ?ds \<le> fsp")
      case le: True
      from n[OF dg refl, of ?r "dropWhile is_digit ?r"] show ?thesis using le assms(2) by (simp add: fraction_def E(5,10) True Let_def)
    next
      case False
      then have "length (take (Suc fsp) ?ds) = Suc fsp" by simp
      from n[OF t this, of "dropWhile is_digit ?r"] show ?thesis using False assms(2) by (simp add: fraction_def E(5,10) True Let_def)
    qed
  qed (auto simp: fraction_def E(10))
qed

lemma parse_tail_total:
  assumes "env_ok env" "fsp \<le> 6"
  shows "\<exists>r. parse_tail env neg rest hms fsp = Some r \<and> (\<forall>d. r = Some (Inr d) \<longrightarrow> dur_ok d)"
proof -
  let ?rest = "dropWhile (\<lambda>c. c = 32 \<or> c = 9) rest"
  obtain r where r: "fraction env ?rest fsp = Some r" using fraction_total[OF assms] by blast
  obtain q where q: "new_from_parts env neg (hms ! 0) (hms ! 1) (hms ! 2) (snd (the r)) (as_signed 8 (int fsp)) = Some q" "\<forall>d. q = Inr d \<longrightarrow> dur_ok d"
    using new_from_parts_total[OF assms(1)] by blast
  show ?thesis using q by (cases r) (auto simp: parse_tail_def env_okD(7)[OF assms(1)] r split: prod.splits)
qed

lemma parse_text_total:
  assumes "env_ok env" "fsp \<le> 6"
  shows "\<exists>r ctx'. parse_text env input fsp ctx = Some (r, ctx') \<and> (\<forall>d. r = Some d \<longrightarrow> dur_ok d)"
proof (cases "input = []")
  case True
  then show ?thesis by (simp add: parse_text_def zero_dur_def env_okD(4)[OF assms(1)] dur_ok_def as_unsigned_def MAX_NANOS_val)
next
  case False
  note E = env_okD[OF assms(1)]
  obtain rest neg where o: "opt_char env 45 input = Some (rest, neg)" unfolding E(10) by (metis prod.collapse)
  let ?rest = "dropWhile (\<lambda>c. c = 32 \<or> c = 9) rest"
  obtain r where r: "(case parse_fields env ?rest of None \<Rightarrow> Some None | Some (rest', hms) \<Rightarrow> parse_tail env neg rest' hms fsp) = Some r"
    "\<forall>d. r = Some (Inr d) \<longrightarrow> dur_ok d"
    using parse_tail_total[OF assms] by (cases "parse_fields env ?rest") (auto split: prod.splits, metis)
  define rc where "rc = (case r of Some x \<Rightarrow> (Some x, ctx)
      | None \<Rightarrow> (case hhmmss_datetime env ?rest fsp ctx of (d, ctx) \<Rightarrow> (map_option Inr d, ctx)))"
  have rc: "dur_ok d" if "fst rc = Some (Inr d)" for d
    using that r(2) E(11) by (fastforce simp: rc_def hhmmss_datetime_def dur_ok_def split: option.splits prod.splits sum.splits if_splits)
  have p: "parse_text env input fsp ctx = Some (recover_overflow input neg fsp rc)"
    using False r(1) by (simp add: parse_text_def o E(7) rc_def)
  have "dur_ok d" if "fst (recover_overflow input neg fsp rc) = Some d" for d
    using that rc assms(2) by (auto simp: recover_overflow_def dur_ok_def MAX_NANOS_val split: prod.splits option.splits sum.splits if_splits)
  then show ?thesis unfolding p by (metis prod.collapse)
qed

lemma parse_dur_total:
  assumes "env_ok env"
  shows "\<exists>r ctx'. parse_dur env bytes f ctx = Some (r, ctx') \<and> (\<forall>d. r = Inr d \<longrightarrow> dur_ok d)"
proof (cases "is_utf8 bytes")
  case True
  show ?thesis
  proof (cases "check_fsp env f")
    case (Inr fsp)
    then have "fsp \<le> 6" using env_okD(1)[OF assms] by blast
    then obtain r ctx' where "parse_text env (trim_end (trim_start bytes)) fsp ctx = Some (r, ctx')" "\<forall>d. r = Some d \<longrightarrow> dur_ok d"
      using parse_text_total[OF assms] by blast
    then show ?thesis using True by (cases r) (simp_all add: parse_dur_def Inr Let_def)
  qed (simp add: parse_dur_def True Let_def)
qed (simp add: parse_dur_def)

section \<open>The parts of a duration\<close>

lemma srem_pos: "0 \<le> a \<Longrightarrow> 0 < b \<Longrightarrow> srem a b = a mod b"
  by (auto simp: srem_def sgn_if)

lemma abs_to_secs: "\<bar>to_secs d\<bar> = \<bar>dur_nanos d\<bar> div 1000000000"
  by (auto simp: to_secs_def sdiv_def abs_mult sgn_if pos_imp_zdiv_nonneg_iff)

lemma as_unsigned_32: "0 \<le> x \<Longrightarrow> x < 4294967296 \<Longrightarrow> as_unsigned 32 x = nat x"
  by (simp add: as_unsigned_def)

lemma dur_parts:
  assumes "dur_ok d"
  defines "N \<equiv> nat \<bar>dur_nanos d\<bar>"
  shows "hours d = N div 1000000000 div 3600" "minutes d = N div 1000000000 div 60 mod 60" "secs d = N div 1000000000 mod 60"
    "subsec_nanos d = Some (N mod 1000000000)" "hours d \<le> 838"
proof -
  define T where "T = \<bar>dur_nanos d\<bar> div 1000000000"
  have N: "int N = \<bar>dur_nanos d\<bar>" "N \<le> 3020399999999999" using assms by (simp_all add: dur_ok_def MAX_NANOS_val nat_le_iff)
  have T: "T = int (N div 1000000000)" using N(1) by (simp add: T_def zdiv_int)
  have b: "N div 1000000000 \<le> 3020399" using N(2) by simp
  have T0: "0 \<le> T" "T \<le> 3020399" using T b by simp_all
  have h: "hours d = nat (T div 3600)" using T0 by (simp add: hours_def abs_to_secs T_def[symmetric] sdiv_pos as_unsigned_32)
  show "hours d = N div 1000000000 div 3600" unfolding h T by (simp add: nat_div_distrib)
  then show "hours d \<le> 838" using b by (auto intro: order.trans[OF div_le_mono[OF b]])
  have "minutes d = nat (T div 60 mod 60)" using T0 by (simp add: minutes_def abs_to_secs T_def[symmetric] sdiv_pos srem_pos as_unsigned_32)
  then show "minutes d = N div 1000000000 div 60 mod 60" unfolding T by (simp add: nat_div_distrib nat_mod_distrib)
  have "secs d = nat (T mod 60)" using T0 by (simp add: secs_def abs_to_secs T_def[symmetric] srem_pos as_unsigned_32)
  then show "secs d = N div 1000000000 mod 60" unfolding T by (simp add: nat_mod_distrib)
  have "in_signed 64 \<bar>dur_nanos d\<bar>" using N by (intro in_signed_64) simp
  then show "subsec_nanos d = Some (N mod 1000000000)"
    using N(1) by (simp add: subsec_nanos_def scheck_def srem_pos as_unsigned_32 N_def nat_mod_distrib)
qed

lemma parts_le:
  assumes "dur_ok d"
  shows "minutes d \<le> 59" "secs d \<le> 59"
proof -
  have "x mod 60 \<le> 59" for x :: nat using mod_less_divisor[of 60 x] by linarith
  then show "minutes d \<le> 59" "secs d \<le> 59" using dur_parts(2,3)[OF assms] by simp_all
qed

lemma dur_total:
  assumes "dur_ok d"
  shows "((hours d * 60 + minutes d) * 60 + secs d) * 1000000000 + the (subsec_nanos d) = nat \<bar>dur_nanos d\<bar>"
proof -
  define N where "N = nat \<bar>dur_nanos d\<bar>"
  define T where "T = N div 1000000000"
  have "T div 3600 = T div 60 div 60" using div_mult2_eq[of T 60 60] by simp
  then have "T div 3600 * 60 + T div 60 mod 60 = T div 60" using div_mult_mod_eq[of "T div 60" 60] by linarith
  then have "(T div 3600 * 60 + T div 60 mod 60) * 60 + T mod 60 = T" using div_mult_mod_eq[of T 60] by simp
  moreover have "T * 1000000000 + N mod 1000000000 = N" unfolding T_def by (rule div_mult_mod_eq)
  ultimately show ?thesis unfolding dur_parts[OF assms] option.sel N_def[symmetric] T_def[symmetric] by (simp only:)
qed

section \<open>Printing\<close>

lemma of_char_digit: "k < 10 \<Longrightarrow> of_char (char_of (48 + k :: nat)) = 48 + k"
  by (simp add: of_char_of)

lemma show_nat_ok:
  defines "ds n \<equiv> map of_char (show_nat n) :: nat list"
  shows "list_all is_digit (ds n) \<and> digits_val (ds n) = n \<and> ds n \<noteq> [] \<and> (length (ds n) = 1 \<or> 10 ^ (length (ds n) - 1) \<le> n)"
proof (induction n rule: less_induct)
  case (less n)
  show ?case
  proof (cases "n < 10")
    case True
    then show ?thesis by (simp add: ds_def show_nat.simps[of n] of_char_digit is_digit_def digit_val_def)
  next
    case False
    then have l: "n div 10 < n" by simp
    have d: "ds n = ds (n div 10) @ [48 + n mod 10]" using False unfolding ds_def
      by (subst show_nat.simps) (simp add: of_char_digit del: of_char_of)
    have "10 ^ length (ds (n div 10)) \<le> n"
    proof (cases "length (ds (n div 10)) = 1")
      case False2: False
      then have "10 ^ (length (ds (n div 10)) - 1) \<le> n div 10" "length (ds (n div 10)) \<noteq> 0" using less[OF l] by auto
      then have "10 ^ (length (ds (n div 10)) - 1) * 10 \<le> n" by linarith
      then show ?thesis using \<open>length (ds (n div 10)) \<noteq> 0\<close> by (cases "length (ds (n div 10))") auto
    qed (use False in simp)
    moreover have "n mod 10 < 10" by simp
    then have "is_digit (48 + n mod 10)" "digit_val (48 + n mod 10) = n mod 10" unfolding is_digit_def digit_val_def by linarith+
    ultimately show ?thesis using less[OF l] unfolding d by (simp add: bval_append)
  qed
qed

lemma pad_digits_ok:
  assumes "0 < w"
  shows "list_all is_digit (pad_digits w n)" "digits_val (pad_digits w n) = n" "pad_digits w n \<noteq> []"
    "n < 10 ^ w \<Longrightarrow> length (pad_digits w n) = w"
proof -
  let ?ds = "map of_char (show_nat n) :: nat list"
  note s = show_nat_ok[of n]
  have p: "pad_digits w n = replicate (w - length ?ds) 48 @ ?ds" by (simp add: pad_digits_def Let_def)
  have z: "digits_val (replicate k 48) = 0" for k by (induction k) (simp_all add: digit_val_def)
  show "list_all is_digit (pad_digits w n)" "pad_digits w n \<noteq> []" using s by (auto simp: p list_all_iff is_digit_def)
  show "digits_val (pad_digits w n) = n" using s z unfolding p digits_val_append by simp
  assume n: "n < 10 ^ w"
  have "length ?ds \<le> w"
  proof (rule ccontr)
    assume a: "\<not> length ?ds \<le> w"
    then have "10 ^ (length ?ds - 1) \<le> n" using s assms by auto
    moreover have "(10::nat) ^ w \<le> 10 ^ (length ?ds - 1)" using a by (intro power_increasing) auto
    ultimately show False using n by linarith
  qed
  then show "length (pad_digits w n) = w" by (simp add: p)
qed

text \<open>The text of a duration: sign, three fields and the digits of the fraction.\<close>

lemma format_dur_ok:
  assumes "dur_ok d"
  shows "\<exists>F. format_dur sep d = Some ((if is_neg d then [45] else []) @ pad_digits 2 (hours d) @ sep @ pad_digits 2 (minutes d) @ sep @
      pad_digits 2 (secs d) @ (if 0 < dur_fsp d then [46] else []) @ F) \<and>
    list_all is_digit F \<and> length F = dur_fsp d \<and> digits_val F = the (subsec_nanos d) div 10 ^ (9 - dur_fsp d)"
proof (cases "0 < dur_fsp d")
  case True
  have f: "dur_fsp d \<le> 6" using assms by (simp add: dur_ok_def)
  obtain n where n: "subsec_nanos d = Some n" "n < 1000000000" using dur_parts(4)[OF assms] by simp
  let ?F = "pad_digits (dur_fsp d) (n div 10 ^ (9 - dur_fsp d))"
  have "(1000000000::nat) = 10 ^ dur_fsp d * 10 ^ (9 - dur_fsp d)" using f by (simp flip: power_add)
  then have "n div 10 ^ (9 - dur_fsp d) < 10 ^ dur_fsp d" using n(2) by (simp add: div_less_iff_less_mult)
  then have "length ?F = dur_fsp d" "list_all is_digit ?F" "digits_val ?F = n div 10 ^ (9 - dur_fsp d)"
    using pad_digits_ok[OF True] by simp_all
  then show ?thesis using True n(1) f
    by (auto simp: format_dur_def Let_def get_at_def length_TEN_POW TEN_POW_nth usub_def intro!: exI[of _ ?F])
next
  case False
  obtain n where n: "subsec_nanos d = Some n" "n < 1000000000" using dur_parts(4)[OF assms] by simp
  then show ?thesis using False by (simp add: format_dur_def)
qed

section \<open>Parsing the printed text\<close>

lemma takeWhile_digits_rest:
  assumes "list_all is_digit ds" "rest = [] \<or> \<not> is_digit (rest ! 0)"
  shows "takeWhile is_digit (ds @ rest) = ds" "dropWhile is_digit (ds @ rest) = rest"
proof -
  have "takeWhile is_digit rest = [] \<and> dropWhile is_digit rest = rest" using assms(2) by (cases rest) auto
  then show "takeWhile is_digit (ds @ rest) = ds" "dropWhile is_digit (ds @ rest) = rest"
    using assms(1) by (auto simp: list_all_iff takeWhile_append dropWhile_append)
qed

lemma number_ok:
  assumes "env_ok env" "list_all is_digit ds" "ds \<noteq> []" "rest = [] \<or> \<not> is_digit (rest ! 0)" "digits_val ds < 2 ^ 32"
  shows "number env (ds @ rest) = Some (rest, digits_val ds)"
  using assms(3,5) by (simp add: number_def env_okD(6)[OF assms(1)] takeWhile_digits_rest[OF assms(2,4)])

lemma skip_no_space: "s = [] \<or> s ! 0 \<noteq> 32 \<and> s ! 0 \<noteq> 9 \<Longrightarrow> dropWhile (\<lambda>c. c = 32 \<or> c = 9) s = s"
  by (cases s) auto

lemma digit_head: "list_all is_digit ds \<Longrightarrow> ds \<noteq> [] \<Longrightarrow> is_digit ((ds @ rest) ! 0)"
  by (cases ds) auto

lemma colon_ok:
  assumes "env_ok env" "list_all is_digit ds" "ds \<noteq> []"
  shows "colon env (58 # ds @ rest) = Some (ds @ rest)"
proof -
  have "is_digit ((ds @ rest) ! 0)" using digit_head[OF assms(2,3)] .
  then have "dropWhile (\<lambda>c. c = 32 \<or> c = 9) (ds @ rest) = ds @ rest" by (intro skip_no_space) (auto simp: is_digit_def)
  then show ?thesis by (simp add: colon_def env_okD(7,9)[OF assms(1)])
qed

lemma parse_fields_ok:
  assumes "env_ok env" and H: "list_all is_digit H" "H \<noteq> []" "digits_val H < 2 ^ 32" and M: "list_all is_digit M" "M \<noteq> []" "digits_val M < 2 ^ 32"
    and S: "list_all is_digit S" "S \<noteq> []" "digits_val S < 2 ^ 32" and rest: "rest = [] \<or> \<not> is_digit (rest ! 0)"
  shows "parse_fields env (H @ 58 # M @ 58 # S @ rest) = Some (rest, [digits_val H, digits_val M, digits_val S])"
proof -
  have c: "\<not> is_digit 58" by (simp add: is_digit_def)
  have n1: "number env (H @ 58 # M @ 58 # S @ rest) = Some (58 # M @ 58 # S @ rest, digits_val H)"
    using H c by (intro number_ok[OF assms(1)]) auto
  have n2: "number env (M @ 58 # S @ rest) = Some (58 # S @ rest, digits_val M)" using M c by (intro number_ok[OF assms(1)]) auto
  have n3: "number env (S @ rest) = Some (rest, digits_val S)" using S rest by (intro number_ok[OF assms(1)]) auto
  have "day_hhmmss env (H @ 58 # M @ 58 # S @ rest) = None" by (simp add: day_hhmmss_def n1 env_okD(8)[OF assms(1)])
  moreover have "hhmmss_delimited env (H @ 58 # M @ 58 # S @ rest) True = Some (rest, [digits_val H, digits_val M, digits_val S])"
    by (simp add: hhmmss_delimited_def n1 n2 n3 numeral_2_eq_2 colon_ok[OF assms(1) M(1,2)] colon_ok[OF assms(1) S(1,2)])
  ultimately show ?thesis by (simp add: parse_fields_def)
qed

lemma fraction_ok:
  assumes "env_ok env" "list_all is_digit F" "length F = fsp" "fsp \<le> 6"
  shows "fraction env ((if 0 < fsp then [46] else []) @ F) fsp = Some (Some ([], digits_val F * 10 ^ (9 - fsp)))"
proof (cases "0 < fsp")
  case True
  have "digits_val F < 10 ^ fsp" using digits_val_bound[OF assms(2)] assms(3) by simp
  then have "digits_val F * 10 ^ (9 - fsp) < 10 ^ fsp * 10 ^ (9 - fsp)" by simp
  also have "\<dots> = 10 ^ 9" using assms(4) by (simp flip: power_add)
  finally have v: "digits_val F * 10 ^ (9 - fsp) < 4294967296" by simp
  then have "digits_val F < 2 ^ 32" by (cases "digits_val F = 0") (auto intro: order.strict_trans1[rotated])
  then have n: "number env F = Some ([], digits_val F)" using number_ok[OF assms(1,2), of "[]"] True assms(3) by auto
  have t: "takeWhile is_digit F = F" "dropWhile is_digit F = []" using takeWhile_digits_rest[OF assms(2), of "[]"] by simp_all
  show ?thesis using True v by (simp add: fraction_def env_okD(5,10)[OF assms(1)] t n assms(3) get_at_def length_TEN_POW TEN_POW_nth umul_def)
next
  case False
  then show ?thesis using assms(3) by (simp add: fraction_def env_okD(10)[OF assms(1)])
qed

lemma new_from_parts_exact:
  assumes "env_ok env" "fsp \<le> 6" "m \<le> 59" "s \<le> 59" "ns \<le> 999999999" "h \<le> 838"
    and al: "fsp_step fsp dvd int ns"
  shows "new_from_parts env neg h m s ns (int fsp) =
    Some (Inr \<lparr>dur_secs = 0, dur_nanos = (if neg then - 1 else 1) * int (((h * 60 + m) * 60 + s) * 1000000000 + ns), dur_fsp = fsp\<rparr>)"
proof -
  let ?n = "int ns + (int s + (int m + int h * 60) * 60) * 1000000000"
  note st = fsp_step_facts[OF assms(2)]
  have "fsp_step fsp dvd 1000000000" unfolding fsp_step_def using le_imp_power_dvd[of "9 - fsp" 9 "10::int"] by simp
  then have "fsp_step fsp dvd ?n" using al by (intro dvd_add dvd_mult)
  then have al': "fsp_step fsp dvd (if neg then - 1 else 1) * ?n" by (rule dvd_mult)
  have b: "0 \<le> ?n" "?n \<le> MAX_NANOS" using assms(3-6) by (simp_all add: MAX_NANOS_val)
  then have "\<bar>(if neg then - 1 else 1) * ?n\<bar> \<le> MAX_NANOS" by auto
  moreover from this have "checked_round ((if neg then - 1 else 1) * ?n) fsp = Some (Inr ((if neg then - 1 else 1) * ?n))"
    using nearest_id[OF _ st(3) al'] st(1) by (simp add: checked_round_ok[OF assms(2)] check_nanos_iff)
  moreover have "in_signed 64 ?n" using b by (intro in_signed_64) (simp add: MAX_NANOS_val)
  ultimately show ?thesis using assms(3-6)
    by (simp add: new_from_parts_def check_minute_part_def check_second_part_def check_nanos_part_def check_hour_part_def
        try_res_def scheck_def Let_def env_okD(2)[OF assms(1,2)] algebra_simps)
qed

text \<open>A text that starts and ends with a visible ASCII character is not trimmed.\<close>

lemma ws_start_ascii:
  assumes "list_all (\<lambda>b. b < 128) s"
  shows "ws_start s = (if s \<noteq> [] \<and> (9 \<le> s ! 0 \<and> s ! 0 \<le> 13 \<or> s ! 0 = 32) then 1 else 0)"
proof -
  have "take k s \<noteq> c # xs" if "128 \<le> c" for k c xs
  proof
    assume "take k s = c # xs"
    then have "c \<in> set s" by (metis in_set_takeD list.set_intros(1))
    then show False using assms that by (auto simp: list_all_iff)
  qed
  then show ?thesis by (simp add: ws_start_def)
qed

definition visible :: "nat \<Rightarrow> bool" where
  "visible b \<longleftrightarrow> 32 < b \<and> b < 128"

lemma trim_visible:
  assumes "list_all visible s" "s \<noteq> []"
  shows "trim_end (trim_start s) = s"
proof -
  have a: "list_all (\<lambda>b. b < 128) s" using assms(1) by (auto simp: list_all_iff visible_def)
  then have ad: "list_all (\<lambda>b. b < 128) (drop k s)" for k by (auto simp: list_all_iff dest: in_set_dropD)
  have "visible (s ! 0)" using assms by (cases s) auto
  then have st: "ws_start s = 0" by (auto simp: ws_start_ascii[OF a] visible_def)
  have "ws_start (drop k s) = 0" for k
  proof (cases "k < length s")
    case True
    then have "visible (drop k s ! 0)" using assms(1) by (auto simp: list_all_iff)
    then show ?thesis by (auto simp: ws_start_ascii[OF ad] visible_def)
  qed (simp add: ws_start_ascii)
  then have "ws_end s = 0" by (simp add: ws_end_def)
  then show ?thesis by (simp add: trim_start.simps[of s] trim_end.simps[of s] st)
qed

lemma ascii_scan: "list_all (\<lambda>b. b < 128) s \<Longrightarrow> snd (utf8_scan s pos) = pos + length s"
proof (induction s arbitrary: pos)
  case Nil
  show ?case by (subst utf8_scan.simps) simp
next
  case (Cons b s)
  obtain ps e where sc: "utf8_scan s (pos + 1) = (ps, e)" by fastforce
  have "utf8_char (b # s) = Some 1" using Cons.prems by simp
  then have "utf8_scan (b # s) pos = (pos # ps, e)" using sc by (subst utf8_scan.simps) simp
  then show ?case using Cons.IH[of "pos + 1"] Cons.prems sc by simp
qed

lemma visible_utf8: "list_all visible s \<Longrightarrow> is_utf8 s"
  using ascii_scan[of s 0] by (auto simp: is_utf8_def valid_up_to_def list_all_iff visible_def)

lemma digits_visible: "list_all is_digit ds \<Longrightarrow> list_all visible ds"
  by (auto simp: list_all_iff is_digit_def visible_def)

text \<open>Reading a duration from its fields.\<close>

lemma parse_fields_text:
  assumes "env_ok env" "fsp \<le> 6" and H: "list_all is_digit H" "H \<noteq> []" "digits_val H \<le> 838"
    and M: "list_all is_digit M" "M \<noteq> []" "digits_val M \<le> 59" and S: "list_all is_digit S" "S \<noteq> []" "digits_val S \<le> 59"
    and F: "list_all is_digit F" "length F = fsp"
  shows "parse_dur env ((if neg then [45] else []) @ H @ [58] @ M @ [58] @ S @ (if 0 < fsp then [46] else []) @ F) (int fsp) ctx =
    Some (Inr \<lparr>dur_secs = 0, dur_nanos = (if neg then - 1 else 1) *
      int (((digits_val H * 60 + digits_val M) * 60 + digits_val S) * 1000000000 + digits_val F * 10 ^ (9 - fsp)), dur_fsp = fsp\<rparr>, ctx)"
proof -
  note E = env_okD[OF assms(1)]
  let ?fr = "(if 0 < fsp then [46] else []) @ F"
  let ?body = "H @ 58 # M @ 58 # S @ ?fr"
  let ?s = "(if neg then [45] else []) @ ?body"
  have vis: "list_all visible ?s" using digits_visible[OF H(1)] digits_visible[OF M(1)] digits_visible[OF S(1)] digits_visible[OF F(1)]
    by (auto simp: visible_def)
  have hd: "is_digit (?body ! 0)" by (rule digit_head[OF H(1,2)])
  have opt: "opt_char env 45 ?s = Some (?body, neg)" using hd by (auto simp: E(10) is_digit_def)
  have sp: "dropWhile (\<lambda>c. c = 32 \<or> c = 9) ?body = ?body" using hd by (intro skip_no_space) (auto simp: is_digit_def)
  have fr0: "?fr = [] \<or> \<not> is_digit (?fr ! 0) \<and> ?fr ! 0 \<noteq> 32 \<and> ?fr ! 0 \<noteq> 9" using F(2) by (auto simp: is_digit_def)
  have pf: "parse_fields env ?body = Some (?fr, [digits_val H, digits_val M, digits_val S])"
    using H M S fr0 by (intro parse_fields_ok[OF assms(1)]) auto
  have v: "digits_val F * 10 ^ (9 - fsp) \<le> 999999999"
  proof -
    have "digits_val F * 10 ^ (9 - fsp) < 10 ^ fsp * 10 ^ (9 - fsp)" using digits_val_bound[OF F(1)] F(2) by simp
    also have "\<dots> = 10 ^ 9" using assms(2) by (simp flip: power_add)
    finally show ?thesis by simp
  qed
  have al: "fsp_step fsp dvd int (digits_val F * 10 ^ (9 - fsp))" by (simp add: fsp_step_def)
  have i8: "as_signed 8 (int fsp) = int fsp" using assms(2) by (intro as_signed_id) (auto simp: in_signed_def)
  have sp2: "dropWhile (\<lambda>c. c = 32 \<or> c = 9) ?fr = ?fr" using fr0 by (intro skip_no_space) auto
  note frac = fraction_ok[OF assms(1) F assms(2)] and parts = new_from_parts_exact[OF assms(1,2) M(3) S(3) v H(3) al, of neg]
  have tail: "parse_tail env neg ?fr [digits_val H, digits_val M, digits_val S] fsp =
      Some (Some (Inr \<lparr>dur_secs = 0, dur_nanos = (if neg then - 1 else 1) *
        int (((digits_val H * 60 + digits_val M) * 60 + digits_val S) * 1000000000 + digits_val F * 10 ^ (9 - fsp)), dur_fsp = fsp\<rparr>))"
    unfolding parse_tail_def E(7) sp2 option.case frac bind.bind_lunit i8 by (simp add: parts del: of_nat_add of_nat_mult)
  have s: "?s \<noteq> []" by simp
  have ptx: "parse_text env ?s fsp ctx = Some (Some \<lparr>dur_secs = 0, dur_nanos = (if neg then - 1 else 1) *
        int (((digits_val H * 60 + digits_val M) * 60 + digits_val S) * 1000000000 + digits_val F * 10 ^ (9 - fsp)), dur_fsp = fsp\<rparr>, ctx)"
    unfolding parse_text_def if_not_P[OF s] opt option.case prod.case E(7) sp pf tail bind.bind_lunit Let_def recover_overflow_def by simp
  have "parse_dur env ?s (int fsp) ctx = Option.bind (parse_text env ?s fsp ctx) (\<lambda>(r, ctx).
      Some (case r of Some d \<Rightarrow> Inr d | None \<Rightarrow> Inl (truncated_wrong_val ''TIME'' (map char_of ?s)), ctx))"
    unfolding parse_dur_def trim_visible[OF vis s] Let_def E(2)[OF assms(2)] sum.case using visible_utf8[OF vis] by simp
  then show ?thesis unfolding ptx by simp
qed

section \<open>An instance of the parameters\<close>

text \<open>
  The documented behaviour of the character parsers, a precision check for the range 0 to 6 with
  -1 for the default, no date-times, and the little-endian codec of the eight bytes of an \<open>i64\<close>.
\<close>

definition std_env :: "unit dur_env" where
  "std_env = \<lparr>
     check_fsp = (\<lambda>f. if f = - 1 then Inr 0 else if 0 \<le> f \<and> f \<le> 6 then Inr (nat f) else Inl (box_err ''Invalid fsp'')),
     MAX_FSP = 6, DEFAULT_FSP = 0,
     digit0 = (\<lambda>s. Some (dropWhile is_digit s, takeWhile is_digit s)),
     digit1 = (\<lambda>s. if takeWhile is_digit s = [] then None else Some (dropWhile is_digit s, takeWhile is_digit s)),
     space0 = (\<lambda>s. Some (dropWhile (\<lambda>c. c = 32 \<or> c = 9) s)),
     space1 = (\<lambda>s. if takeWhile (\<lambda>c. c = 32 \<or> c = 9) s = [] then None else Some (dropWhile (\<lambda>c. c = 32 \<or> c = 9) s)),
     char1 = (\<lambda>c s. if s \<noteq> [] \<and> s ! 0 = c then Some (drop 1 s) else None),
     opt_char = (\<lambda>c s. Some (if s \<noteq> [] \<and> s ! 0 = c then (drop 1 s, True) else (s, False))),
     anychar = (\<lambda>s. case s of [] \<Rightarrow> None | c # cs \<Rightarrow> Some (cs, c)),
     datetime_duration = (\<lambda>s f ctx. (Inl (box_err ''no date-time''), ctx)),
     write_i64_le = (\<lambda>x. rev (be 8 (as_unsigned 64 x))),
     read_i64_le = (\<lambda>bs. if length bs < 8 then Inl unexpected_eof
                         else Inr (as_signed 64 (int (bval 256 (rev (take 8 bs)))), drop 8 bs))\<rparr>"

lemma as_signed_unsigned: "as_signed 64 (int (as_unsigned 64 x)) = as_signed 64 x"
  by (simp add: as_signed_def as_unsigned_def mod_simps)

lemma std_env_ok: "env_ok std_env"
proof -
  have "read_i64_le std_env (write_i64_le std_env x @ rest) = Inr (x, rest)" if "in_signed 64 x" for x rest
  proof -
    have "as_unsigned 64 x < 256 ^ 8" by (simp add: as_unsigned_def nat_less_iff)
    then have "bval 256 (be 8 (as_unsigned 64 x)) = as_unsigned 64 x" by (simp add: bval_be)
    then show ?thesis using that by (simp add: std_env_def length_be as_signed_unsigned as_signed_id)
  qed
  then show ?thesis unfolding env_ok_def by (auto simp: std_env_def split: if_splits)
qed

section \<open>Properties\<close>

text \<open>
  C22: the printed text parses back. For a duration in range whose nanoseconds have no more digits
  than its precision, \<open>parse\<close> with that precision reads the text of \<open>Display\<close> as a duration of
  the same nanoseconds and precision, without a panic and without a warning.\<close>

theorem duration_text_roundtrip:
  assumes "env_ok env" "dur_ok d" "fsp_step (dur_fsp d) dvd dur_nanos d"
  shows "\<exists>s d'. display_dur d = Some s \<and> parse_dur env s (int (dur_fsp d)) ctx = Some (Inr d', ctx) \<and>
    dur_nanos d' = dur_nanos d \<and> dur_fsp d' = dur_fsp d"
proof -
  let ?fsp = "dur_fsp d"
  have f: "?fsp \<le> 6" using assms(2) by (simp add: dur_ok_def)
  note P = dur_parts[OF assms(2)] and T = dur_total[OF assms(2)]
  obtain F where F: "list_all is_digit F" "length F = ?fsp" "digits_val F = the (subsec_nanos d) div 10 ^ (9 - ?fsp)"
    "display_dur d = Some ((if is_neg d then [45] else []) @ pad_digits 2 (hours d) @ [58] @ pad_digits 2 (minutes d) @ [58] @
      pad_digits 2 (secs d) @ (if 0 < ?fsp then [46] else []) @ F)"
    using format_dur_ok[OF assms(2), of "[58]"] unfolding display_dur_def by blast
  have two: "0 < (2::nat)" by simp
  note pd = pad_digits_ok[OF two]
  have "(10::nat) ^ (9 - ?fsp) dvd nat \<bar>dur_nanos d\<bar>"
    using assms(3) by (simp add: fsp_step_def nat_dvd_iff flip: of_nat_dvd_iff[where 'a = int])
  moreover have "(10::nat) ^ (9 - ?fsp) dvd 1000000000" using le_imp_power_dvd[of "9 - ?fsp" 9 "10::nat"] by simp
  ultimately have "(10::nat) ^ (9 - ?fsp) dvd the (subsec_nanos d)" unfolding P(4) option.sel by (simp add: dvd_mod)
  then have v: "digits_val F * 10 ^ (9 - ?fsp) = the (subsec_nanos d)" using F(3) by simp
  have n: "(if is_neg d then - 1 else 1) * int (nat \<bar>dur_nanos d\<bar>) = dur_nanos d" by (auto simp: is_neg_def)
  have c: "digits_val (pad_digits 2 (hours d)) \<le> 838" "digits_val (pad_digits 2 (minutes d)) \<le> 59" "digits_val (pad_digits 2 (secs d)) \<le> 59"
    using P(5) parts_le[OF assms(2)] unfolding pd(2) by simp_all
  note pt = parse_fields_text[OF assms(1) f pd(1,3) c(1) pd(1,3) c(2) pd(1,3) c(3) F(1,2), of "is_neg d" ctx, unfolded pd(2) v T n]
  show ?thesis by (rule exI, rule exI, intro conjI, rule F(4), rule pt) simp_all
qed

theorem duration_text_roundtrip_witness:
  "\<exists>s d'. display_dur \<lparr>dur_secs = 0, dur_nanos = - 45296001200000, dur_fsp = 6\<rparr> = Some s \<and>
     parse_dur std_env s 6 (new_eval_context (from_flag () IGNORE_TRUNCATE)) = Some (Inr d', new_eval_context (from_flag () IGNORE_TRUNCATE)) \<and>
     dur_nanos d' = - 45296001200000 \<and> dur_fsp d' = 6"
proof -
  let ?d = "\<lparr>dur_secs = 0, dur_nanos = - 45296001200000, dur_fsp = 6\<rparr>"
  have "dur_ok ?d" "fsp_step (dur_fsp ?d) dvd dur_nanos ?d" by (simp_all add: dur_ok_def MAX_NANOS_val fsp_step_def)
  from duration_text_roundtrip[OF std_env_ok this] show ?thesis by simp
qed

text \<open>The durations the interface can produce, starting from any input.\<close>

inductive dur_reachable :: "'tz dur_env \<Rightarrow> duration \<Rightarrow> bool" for env where
  zero: "dur_reachable env (zero_dur env)"
| secs: "from_secs env n f = Some (Inr d) \<Longrightarrow> dur_reachable env d"
| millis: "from_millis env n f = Some (Inr d) \<Longrightarrow> dur_reachable env d"
| micros: "from_micros env n f = Some (Inr d) \<Longrightarrow> dur_reachable env d"
| nanos: "from_nanos env n f = Some (Inr d) \<Longrightarrow> dur_reachable env d"
| parts: "new_from_parts env neg h m s ns f = Some (Inr d) \<Longrightarrow> dur_reachable env d"
| hhmmss: "from_i64_with_ctx_and_check env n f = Some (Inr d) \<Longrightarrow> dur_reachable env d"
| parsed: "parse_dur env bytes f ctx = Some (Inr d, ctx') \<Longrightarrow> dur_reachable env d"
| chunk: "read_duration_from_chunk env bs f = Some (Inr (d, rest)) \<Longrightarrow> dur_reachable env d"
| rounded: "dur_reachable env a \<Longrightarrow> round_frac env a f = Some (Inr d) \<Longrightarrow> dur_reachable env d"
| max_fsp: "dur_reachable env a \<Longrightarrow> dur_reachable env (maximize_fsp env a)"
| absolute: "dur_reachable env a \<Longrightarrow> abs_dur a = Some d \<Longrightarrow> dur_reachable env d"
| sum: "dur_reachable env a \<Longrightarrow> dur_reachable env b \<Longrightarrow> checked_add_dur a b = Some d \<Longrightarrow> dur_reachable env d"
| diff: "dur_reachable env a \<Longrightarrow> dur_reachable env b \<Longrightarrow> checked_sub_dur a b = Some d \<Longrightarrow> dur_reachable env d"

lemma dur_reachable_ok:
  assumes env: "env_ok env"
  shows "dur_reachable env d \<Longrightarrow> dur_ok d"
proof (induction rule: dur_reachable.induct)
  case zero
  show ?case by (simp add: zero_dur_def dur_ok_def env_okD(4)[OF env] MAX_NANOS_val as_unsigned_def)
next
  case (secs n f d)
  then show ?case by (rule from_secs_range[OF env])
next
  case (millis n f d)
  then show ?case using from_unit_total[OF env, where f = f] unfolding from_millis_def by (metis option.inject)
next
  case (micros n f d)
  then show ?case using from_unit_total[OF env, where f = f] unfolding from_micros_def by (metis option.inject)
next
  case (nanos n f d)
  then show ?case using from_nanos_total[OF env] by (metis option.inject)
next
  case (parts neg h m s ns f d)
  then show ?case using new_from_parts_total[OF env] by (metis option.inject)
next
  case (hhmmss n f d)
  then show ?case by (rule from_i64_range[OF env])
next
  case (parsed bytes f ctx d ctx')
  then show ?case using parse_dur_total[OF env] by (metis option.inject prod.inject)
next
  case (chunk bs f d rest)
  then obtain n where "from_nanos env n (as_signed 8 f) = Some (Inr d)"
    by (auto simp: read_duration_from_chunk_def try_res_def split: sum.splits option.splits Option.bind_splits)
  then show ?case using from_nanos_total[OF env] by (metis option.inject)
next
  case (rounded a f d)
  then show ?case using round_frac_total[OF env] by (metis option.inject)
next
  case (max_fsp a)
  then show ?case by (simp add: maximize_fsp_def dur_ok_def env_okD(3)[OF env] as_unsigned_def)
next
  case (absolute a d)
  then show ?case by (auto simp: abs_dur_def scheck_def dur_ok_def split: if_splits)
next
  case (sum a b d)
  then show ?case using add_sub_range(1) by blast
next
  case (diff a b d)
  then show ?case using add_sub_range(2) by blast
qed

text \<open>
  C21: every duration is in range. Whatever sequence of constructors, parsing, decoding, rounding
  and arithmetic produced it, a duration has a precision of at most 6, at most 838 hours, and
  fields below 60, and printing it, with and without separators, does not panic.\<close>

theorem duration_in_range:
  assumes "env_ok env" "dur_reachable env d"
  shows "\<bar>dur_nanos d\<bar> \<le> MAX_NANOS \<and> dur_fsp d \<le> 6 \<and> hours d \<le> 838 \<and> minutes d \<le> 59 \<and> secs d \<le> 59 \<and>
    display_dur d \<noteq> None \<and> to_numeric_string d \<noteq> None"
proof -
  have ok: "dur_ok d" by (rule dur_reachable_ok[OF assms])
  then show ?thesis using dur_parts(5)[OF ok] parts_le[OF ok] format_dur_ok[OF ok, of "[58]"] format_dur_ok[OF ok, of "[]"]
    by (auto simp: dur_ok_def display_dur_def to_numeric_string_def)
qed

theorem duration_in_range_witness:
  "\<exists>d. from_secs std_env (- 3020399) 0 = Some (Inr d) \<and> hours d \<le> 838 \<and> display_dur d \<noteq> None"
proof -
  let ?d = "\<lparr>dur_secs = - 3020399, dur_nanos = - 3020399000000000, dur_fsp = 0\<rparr>"
  have s: "from_secs std_env (- 3020399) 0 = Some (Inr ?d)"
    by (simp add: from_secs_def std_env_def try_res_def checked_scale_def in_signed_def check_nanos_iff MAX_NANOS_val)
  from duration_in_range[OF std_env_ok dur_reachable.secs[OF s]] s show ?thesis by blast
qed

text \<open>
  C24: the parser returns. For every byte string, every requested precision and every context,
  \<open>parse\<close> ends without a panic, with a duration in range or an error.\<close>

theorem duration_parse_returns:
  assumes "env_ok env"
  shows "\<exists>r ctx'. parse_dur env bytes fsp ctx = Some (r, ctx') \<and> (isl r \<or> dur_ok (projr r))"
proof -
  obtain r ctx' where "parse_dur env bytes fsp ctx = Some (r, ctx')" "\<forall>d. r = Inr d \<longrightarrow> dur_ok d"
    using parse_dur_total[OF assms] by blast
  then show ?thesis by (cases r) auto
qed

theorem duration_parse_returns_witness:
  "\<exists>r ctx'. parse_dur std_env [57, 57, 57, 58] 3 (new_eval_context (from_flag () IGNORE_TRUNCATE)) = Some (r, ctx') \<and> (isl r \<or> dur_ok (projr r))"
  by (rule duration_parse_returns[OF std_env_ok])

text \<open>
  Rounding to a precision. \<open>from_nanos\<close> gives the multiple of the unit of the last kept digit
  that is nearest to the nanoseconds, a half being rounded away from zero; it fails exactly when
  the nanoseconds or their rounding leave the range of a time.\<close>

theorem duration_rounds_half_away:
  assumes "env_ok env" "check_fsp env f = Inr fsp"
  shows "fsp_step fsp dvd nearest (fsp_step fsp) n \<and> 2 * \<bar>nearest (fsp_step fsp) n - n\<bar> \<le> fsp_step fsp \<and>
    (2 * \<bar>nearest (fsp_step fsp) n - n\<bar> = fsp_step fsp \<longrightarrow> \<bar>n\<bar> < \<bar>nearest (fsp_step fsp) n\<bar>) \<and>
    from_nanos env n f = Some
      (if \<bar>n\<bar> > MAX_NANOS then Inl (truncated_wrong_val ''NANOS'' (show_int n))
       else if \<bar>nearest (fsp_step fsp) n\<bar> > MAX_NANOS then Inl (truncated_wrong_val ''NANOS'' (show_int (nearest (fsp_step fsp) n)))
       else Inr \<lparr>dur_secs = 0, dur_nanos = nearest (fsp_step fsp) n, dur_fsp = fsp\<rparr>)"
proof -
  have f: "fsp \<le> 6" using env_okD(1)[OF assms(1,2)] .
  note st = fsp_step_facts[OF f]
  have "from_nanos env n f = Some
      (if \<bar>n\<bar> > MAX_NANOS then Inl (truncated_wrong_val ''NANOS'' (show_int n))
       else if \<bar>nearest (fsp_step fsp) n\<bar> > MAX_NANOS then Inl (truncated_wrong_val ''NANOS'' (show_int (nearest (fsp_step fsp) n)))
       else Inr \<lparr>dur_secs = 0, dur_nanos = nearest (fsp_step fsp) n, dur_fsp = fsp\<rparr>)"
    by (simp add: from_nanos_def assms(2) try_res_def checked_round_ok[OF f] check_nanos_iff)
  then show ?thesis using nearest_aligned nearest_dist[of "fsp_step fsp" n] st by auto
qed

theorem duration_rounds_half_away_witness:
  "check_fsp std_env 6 = Inr 6 \<and> nearest (fsp_step 6) (- 1500) = - 2000 \<and>
   from_nanos std_env (- 1500) 6 = Some (Inr \<lparr>dur_secs = 0, dur_nanos = - 2000, dur_fsp = 6\<rparr>)"
proof -
  have c: "check_fsp std_env 6 = Inr 6" by (simp add: std_env_def)
  have n: "nearest (fsp_step 6) (- 1500) = - 2000" by (simp add: nearest_def fsp_step_def)
  from duration_rounds_half_away[OF std_env_ok c, of "- 1500"] show ?thesis using c n by (simp add: MAX_NANOS_val)
qed

lemma hours_length: "n \<le> 838 \<Longrightarrow> length (pad_digits 2 n) \<le> 3"
proof -
  assume n: "n \<le> 838"
  let ?ds = "map of_char (show_nat n) :: nat list"
  have "length ?ds \<le> 3"
  proof (rule ccontr)
    assume a: "\<not> length ?ds \<le> 3"
    then have "10 ^ (length ?ds - 1) \<le> n" using show_nat_ok[of n] by auto
    moreover have "(10::nat) ^ 3 \<le> 10 ^ (length ?ds - 1)" using a by (intro power_increasing) auto
    ultimately show False using n by simp
  qed
  then show ?thesis by (simp add: pad_digits_def Let_def)
qed

text \<open>
  C23: a time as a number. The decimal a duration is converted to denotes \<open>hhmmss\<close> and the
  printed fraction, with the sign of the duration; the conversion neither fails its debug
  assertion nor panics, and the decimal is well-formed.\<close>

theorem duration_to_decimal_value:
  assumes "dur_ok d"
  shows "\<exists>x. dur_to_decimal escape d = Some (Inr x) \<and> dec_ok x \<and> sign_ok x \<and> frac_cnt x = dur_fsp d \<and>
    dec_value x = (if is_neg d then - 1 else 1) * (of_nat (hours d * 10000 + minutes d * 100 + secs d) +
      of_nat (the (subsec_nanos d) div 10 ^ (9 - dur_fsp d)) / 10 ^ dur_fsp d)"
proof -
  let ?H = "pad_digits 2 (hours d)" and ?M = "pad_digits 2 (minutes d)" and ?S = "pad_digits 2 (secs d)"
  let ?I = "?H @ ?M @ ?S" and ?sg = "if is_neg d then [45] else [] :: nat list" and ?pt = "if 0 < dur_fsp d then [46] else [] :: nat list"
  have f: "dur_fsp d \<le> 6" using assms by (simp add: dur_ok_def)
  have two: "0 < (2::nat)" by simp
  note pd = pad_digits_ok[OF two]
  obtain F where F: "list_all is_digit F" "length F = dur_fsp d" "digits_val F = the (subsec_nanos d) div 10 ^ (9 - dur_fsp d)"
    "to_numeric_string d = Some (?sg @ ?I @ ?pt @ F)"
    using format_dur_ok[OF assms, of "[]"] unfolding to_numeric_string_def by auto
  have l: "length ?H \<le> 3" "length ?M = 2" "length ?S = 2"
    using hours_length[OF dur_parts(5)[OF assms]] parts_le[OF assms] by (auto intro!: pd(4))
  then have w: "word_cnt (length ?I) + word_cnt (length F) \<le> 9"
    using word_cnt_mono[of "length ?I" 7] word_cnt_mono[of "length F" 6] f F(2) by (simp add: word_cnt_def)
  have nt: "number_text ?I ?pt F [] (?I @ ?pt @ F)" using F(1,2) pd(1,3) by (auto simp: mantissa_text_def)
  have sg: "sign_byte ?sg" by (simp add: sign_byte_def)
  have ws: "list_all is_ascii_whitespace []" by simp
  obtain x where x: "from_bytes escape (?sg @ ?I @ ?pt @ F) = Some (Inr (Ok x))" "dec_ok x" "sign_ok x" "frac_cnt x = length F"
    "dec_value x = text_val (?sg = [45]) ?I F"
    using parse_number[OF nt ws sg w, of escape] by auto
  let ?n = "hours d * 10000 + minutes d * 100 + secs d" and ?v = "the (subsec_nanos d) div 10 ^ (9 - dur_fsp d)"
  have "digits_val ?I = ?n" using l pd(2) by (simp add: bval_append)
  then have "digits_val (?I @ F) = ?n * 10 ^ dur_fsp d + ?v" using F(2,3) digits_val_append[of ?I F] by simp
  then have "text_val (?sg = [45]) ?I F = (if is_neg d then - 1 else 1) * (of_nat (?n * 10 ^ dur_fsp d + ?v) / 10 ^ dur_fsp d)"
    unfolding text_val_def F(2) by simp
  also have "(of_nat (?n * 10 ^ dur_fsp d + ?v) :: rat) / 10 ^ dur_fsp d = of_nat ?n + of_nat ?v / 10 ^ dur_fsp d"
    by (simp only: of_nat_add of_nat_mult of_nat_power of_nat_numeral) (simp add: add_divide_distrib)
  finally have "text_val (?sg = [45]) ?I F = (if is_neg d then - 1 else 1) * (of_nat ?n + of_nat ?v / 10 ^ dur_fsp d)" .
  then show ?thesis using x F(2) by (simp add: dur_to_decimal_def F(4) from_str_def)
qed

theorem duration_to_decimal_value_witness:
  "\<exists>x. dur_to_decimal (\<lambda>_. []) \<lparr>dur_secs = 0, dur_nanos = - 45296500000000, dur_fsp = 1\<rparr> = Some (Inr x) \<and> dec_value x = - (1234565 / 10)"
proof -
  let ?d = "\<lparr>dur_secs = 0, dur_nanos = - 45296500000000, dur_fsp = 1\<rparr>"
  have ok: "dur_ok ?d" by (simp add: dur_ok_def MAX_NANOS_val)
  have "hours ?d = 12" "minutes ?d = 34" "secs ?d = 56" "subsec_nanos ?d = Some 500000000" "is_neg ?d"
    using dur_parts[OF ok] by (simp_all add: is_neg_def)
  with duration_to_decimal_value[OF ok, of "\<lambda>_. []"] show ?thesis by auto
qed

text \<open>
  The number \<open>hhmmss\<close> is cut to 32 bits before its hours are checked: \<open>42949672970000\<close>, which is
  more than four thousand million hours, is read as one hour.\<close>

lemma from_i64_wraps:
  "from_i64_with_ctx_and_check std_env 42949672970000 0 = Some (Inr \<lparr>dur_secs = 0, dur_nanos = 3600000000000, dur_fsp = 0\<rparr>)"
proof -
  have "new_from_parts std_env False 1 0 0 0 (int 0) = Some (Inr \<lparr>dur_secs = 0, dur_nanos = 3600000000000, dur_fsp = 0\<rparr>)"
    by (subst new_from_parts_exact[OF std_env_ok]) simp_all
  then show ?thesis by (simp add: from_i64_with_ctx_and_check_def scheck_def in_signed_def sdiv_def srem_def as_unsigned_def)
qed

end
