(* ===== verification/Binary_Literal.thy ===== *)
theory Binary_Literal
  imports Convert
begin

text \<open>
  Binary literals, \<open>src/berolinasql/src/binary_literal.rs\<close>: the conversions of a byte string from
  and to integers, the texts \<open>b'..'\<close>, and the order of literals. A literal is the list of its bytes.
\<close>

section \<open>Integers\<close>

definition trim_leading_zero_bytes :: "nat list \<Rightarrow> nat list" where
  "trim_leading_zero_bytes bytes = dropWhile (\<lambda>b. b = 0) bytes"

text \<open>The function \<open>to_uint\<close>: the bytes from the last to the first, the \<open>i\<close>-th shifted by \<open>8 i\<close>.\<close>

fun sum_bytes :: "nat list \<Rightarrow> nat \<Rightarrow> nat \<Rightarrow> nat option" where
  "sum_bytes [] i result = Some result"
| "sum_bytes (b # bs) i result =
     (if i * 8 < 64
      then do {
        r \<leftarrow> uadd 64 result (b * 2 ^ (i * 8) mod 2 ^ 64);
        sum_bytes bs (i + 1) r }
      else None)"

definition literal_to_uint :: "nat list \<Rightarrow> nat option" where
  "literal_to_uint l = sum_bytes (rev l) 0 0"

text \<open>\<open>from_u64\<close>: the array of eight bytes that the loop fills from the lowest byte on.\<close>

definition literal_from_u64 :: "nat \<Rightarrow> int \<Rightarrow> nat list" where
  "literal_from_u64 val byte_size =
     (let bytes = map (\<lambda>i. if int i < byte_size then val div 2 ^ (i * 8) mod 256 else 0) [0..<8]
      in if byte_size = - 1 then trim_leading_zero_bytes bytes else bytes)"

text \<open>The method \<open>to_uint\<close>: \<open>checked_shl(8)\<close> never fails, the bits above the 64th are lost.\<close>

fun shift_bytes :: "nat list \<Rightarrow> nat \<Rightarrow> nat fresult" where
  "shift_bytes [] ret = Inr ret"
| "shift_bytes (b # bs) ret =
     (let ret = ret * 2 ^ 8 mod 2 ^ 64
      in if ret + b < 2 ^ 64 then shift_bytes bs (ret + b) else Inl (over_causetxctx ''BIGINT'' ''''))"

definition to_uint :: "nat list \<Rightarrow> nat fresult" where
  "to_uint l = shift_bytes l 0"

section \<open>Hexadecimal texts\<close>

definition hex_digit :: "nat \<Rightarrow> nat option" where
  "hex_digit c =
     (if 48 \<le> c \<and> c \<le> 57 then Some (c - 48)
      else if 97 \<le> c \<and> c \<le> 102 then Some (c - 97 + 10)
      else if 65 \<le> c \<and> c \<le> 70 then Some (c - 65 + 10)
      else None)"

text \<open>The loop of \<open>from_hex_str\<close> over the characters; the error holds the text.\<close>

fun hex_bytes :: "nat list \<Rightarrow> nat \<Rightarrow> nat list \<Rightarrow> nat list option" where
  "hex_bytes [] j bytes = Some bytes"
| "hex_bytes (c # cs) j bytes =
     (if j \<ge> 8 then None
      else case hex_digit c of
          None \<Rightarrow> None
        | Some val \<Rightarrow> hex_bytes cs (j + 1) (bytes[j := val * 16 mod 256]))"

definition from_hex_str :: "nat list \<Rightarrow> nat list + nat list" where
  "from_hex_str s = (case hex_bytes s 0 (replicate 8 0) of None \<Rightarrow> Inl s | Some bytes \<Rightarrow> Inr bytes)"

section \<open>Bit texts\<close>

text \<open>\<open>trim_start_matches("0b")\<close>\<close>

fun trim_0b :: "nat list \<Rightarrow> nat list" where
  "trim_0b (a # b # s) = (if a = 48 \<and> b = 98 then trim_0b s else a # b # s)"
| "trim_0b s = s"

text \<open>\<open>trim_start_matches(c)\<close> and \<open>trim_end_matches(c)\<close> for one character.\<close>

definition trim_start_char :: "nat \<Rightarrow> nat list \<Rightarrow> nat list" where
  "trim_start_char c s = dropWhile (\<lambda>x. x = c) s"

definition trim_end_char :: "nat \<Rightarrow> nat list \<Rightarrow> nat list" where
  "trim_end_char c s = rev (dropWhile (\<lambda>x. x = c) (rev s))"

text \<open>\<open>usize::from_str_radix(s, 2)\<close> on at most 64 digits; a leading plus sign is accepted.\<close>

definition parse_bits :: "nat list \<Rightarrow> nat option" where
  "parse_bits s =
     (let ds = (if length s > 1 \<and> s ! 0 = 43 then drop 1 s else s)
      in if ds \<noteq> [] \<and> list_all (\<lambda>c. c = 48 \<or> c = 49) ds then Some (bval 2 (map digit_val ds)) else None)"

text \<open>A slice of a string panics unless it ends on a character boundary.\<close>

definition is_boundary :: "nat list \<Rightarrow> nat \<Rightarrow> bool" where
  "is_boundary s k \<longleftrightarrow> k = length s \<or> k < length s \<and> \<not> is_cont (s ! k)"

text \<open>The loop over groups of eight characters, \<open>n\<close> groups being left.\<close>

fun bit_groups :: "nat list \<Rightarrow> nat \<Rightarrow> nat \<Rightarrow> nat list \<Rightarrow> nat list fresult option" where
  "bit_groups s i 0 buf = Some (Inr buf)"
| "bit_groups s i (Suc n) buf =
     (let pos = i * 8
      in if is_boundary s pos \<and> is_boundary s (pos + 8)
         then (case parse_bits (take 8 (drop pos s)) of
                 None \<Rightarrow> Some (Inl (box_err ''invalid digit found in string''))
               | Some val \<Rightarrow> bit_groups s (i + 1) n (buf @ [val mod 256]))
         else None)"

definition from_bit_str :: "nat list \<Rightarrow> nat list fresult option" where
  "from_bit_str s =
     (if s = [] then Some (Inl (box_err ''invalid empty string for parsing bit type''))
      else
        let trimmed = (if s ! 0 = 98 \<or> s ! 0 = 66 then Some (trim_end_char 39 (trim_start_char 39 (drop 1 s)))
                       else if take 2 s = [48, 98] then Some (trim_0b s)
                       else None)
        in case trimmed of
             None \<Rightarrow> Some (Inl (box_err (''invalid hexadecimal format: '' @ map char_of s)))
           | Some t \<Rightarrow>
               if t = [] then Some (Inr [])
               else
                 let aligned_len = (length t + 7) div 8 * 8;
                     padding_str = replicate 8 48 @ t;
                     start = length t + 8 - aligned_len;
                     substr = drop start padding_str
                 in bit_groups substr 0 (length substr div 8) [])"

text \<open>\<open>{:08b}\<close>\<close>

definition bits8 :: "nat \<Rightarrow> nat list" where
  "bits8 b = map (\<lambda>i. 48 + b div 2 ^ (7 - i) mod 2) [0..<8]"

definition to_bit_string :: "nat list \<Rightarrow> bool \<Rightarrow> nat list" where
  "to_bit_string l trim_zero =
     (if l = [] then [98, 39, 39]
      else
        let s = concat (map bits8 l)
        in if trim_zero
           then (let trimmed = trim_start_char 48 s
                 in if trimmed = [] then [98, 39, 48, 39] else [98, 39] @ drop (length s - length trimmed) s @ [39])
           else [98, 39] @ s @ [39])"

section \<open>Order\<close>

text \<open>The lexicographic order of byte slices of the standard library.\<close>

fun cmp_bytes :: "nat list \<Rightarrow> nat list \<Rightarrow> partitioning" where
  "cmp_bytes [] [] = Equal"
| "cmp_bytes [] (_ # _) = Less"
| "cmp_bytes (_ # _) [] = Greater"
| "cmp_bytes (a # as) (b # bs) = (if a < b then Less else if a > b then Greater else cmp_bytes as bs)"

definition eq_literal :: "nat list \<Rightarrow> nat list \<Rightarrow> bool" where
  "eq_literal l r \<longleftrightarrow> l = r"

definition cmp_literal :: "nat list \<Rightarrow> nat list \<Rightarrow> partitioning" where
  "cmp_literal a b =
     (let l = trim_leading_zero_bytes a; r = trim_leading_zero_bytes b
      in if length l > length r then Greater
         else if length l < length r then Less
         else cmp_bytes l r)"

section \<open>Order of literals\<close>

lemma bval_trim: "bval 256 (trim_leading_zero_bytes l) = bval 256 l"
  by (induction l) (auto simp: trim_leading_zero_bytes_def)

lemma below_trim: "below 256 l \<Longrightarrow> below 256 (trim_leading_zero_bytes l)"
  by (auto simp: trim_leading_zero_bytes_def below_def dest: set_dropWhileD)

lemma trim_head: "trim_leading_zero_bytes l \<noteq> [] \<Longrightarrow> 256 ^ (length (trim_leading_zero_bytes l) - 1) \<le> bval 256 (trim_leading_zero_bytes l)"
proof (induction l)
  case (Cons b l)
  then show ?case by (cases "b = 0") (auto simp: trim_leading_zero_bytes_def intro!: trans_le_add1)
qed (simp add: trim_leading_zero_bytes_def)

lemma cmp_bytes_val: "below 256 a \<Longrightarrow> below 256 b \<Longrightarrow> length a = length b \<Longrightarrow> cmp_bytes a b = cmp_val (bval 256 a) (bval 256 b)"
proof (induction a b rule: cmp_bytes.induct)
  case (4 a as b bs)
  have l: "bval 256 as < 256 ^ length as" "bval 256 bs < 256 ^ length as"
    using "4.prems" bval_less[of 256 as] bval_less[of 256 bs] by simp_all
  have "bval 256 (a # as) < bval 256 (b # bs)" if "a < b"
  proof -
    have "(a + 1) * 256 ^ length as \<le> b * 256 ^ length as" using that by (intro mult_right_mono) auto
    then show ?thesis using l "4.prems" by simp
  qed
  moreover have "bval 256 (b # bs) < bval 256 (a # as)" if "b < a"
  proof -
    have "(b + 1) * 256 ^ length as \<le> a * 256 ^ length as" using that by (intro mult_right_mono) auto
    then show ?thesis using l "4.prems" by simp
  qed
  ultimately show ?case using "4.IH" "4.prems" by (auto simp: cmp_val_def)
qed (simp_all add: cmp_val_def)

lemma shorter_less:
  assumes "below 256 a" "length a < length (trim_leading_zero_bytes b)"
  shows "bval 256 a < bval 256 b"
proof -
  let ?t = "trim_leading_zero_bytes b"
  have "bval 256 a < 256 ^ length a" using assms(1) bval_less by simp
  also have "\<dots> \<le> 256 ^ (length ?t - 1)" using assms(2) by (intro power_increasing) auto
  also have "\<dots> \<le> bval 256 ?t" using assms(2) by (intro trim_head) auto
  finally show ?thesis by (simp add: bval_trim)
qed

lemma cmp_literal_val:
  assumes "below 256 a" "below 256 b"
  shows "cmp_literal a b = cmp_val (bval 256 a) (bval 256 b)"
proof -
  let ?l = "trim_leading_zero_bytes a" and ?r = "trim_leading_zero_bytes b"
  note t = below_trim[OF assms(1)] below_trim[OF assms(2)]
  consider "length ?l < length ?r" | "length ?r < length ?l" | "length ?l = length ?r" by linarith
  then show ?thesis
  proof cases
    case 1
    then show ?thesis using shorter_less[OF t(1), of b] by (simp add: cmp_literal_def Let_def cmp_val_def bval_trim)
  next
    case 2
    then show ?thesis using shorter_less[OF t(2), of a] by (simp add: cmp_literal_def Let_def cmp_val_def bval_trim)
  next
    case 3
    then show ?thesis using cmp_bytes_val[OF t 3] by (simp add: cmp_literal_def Let_def bval_trim)
  qed
qed

interpretation literal: keyed_cmp "below 256" "bval 256" "\<lambda>a b. Some (cmp_literal a b)"
  by unfold_locales (simp add: cmp_literal_val)

section \<open>Bit texts\<close>

definition is_bit :: "nat \<Rightarrow> bool" where
  "is_bit c \<longleftrightarrow> c = 48 \<or> c = 49"

abbreviation bits_val :: "nat list \<Rightarrow> nat" where
  "bits_val cs \<equiv> bval 2 (map digit_val cs)"

lemma is_bit_val: "is_bit c \<Longrightarrow> digit_val c < 2"
  by (auto simp: is_bit_def digit_val_def)

lemma bits_val_less: "list_all is_bit cs \<Longrightarrow> bits_val cs < 2 ^ length cs"
  using bval_less[of 2 "map digit_val cs"] is_bit_val by (auto simp: below_def list_all_iff)

lemma bits_boundary: "list_all is_bit s \<Longrightarrow> k \<le> length s \<Longrightarrow> is_boundary s k"
  by (cases "k = length s") (auto simp: is_boundary_def is_cont_def is_bit_def list_all_length dest!: spec[of _ k])

lemma parse_bits_ok: "list_all is_bit cs \<Longrightarrow> cs \<noteq> [] \<Longrightarrow> parse_bits cs = Some (bits_val cs)"
proof -
  assume a: "list_all is_bit cs" "cs \<noteq> []"
  then have "is_bit (cs ! 0)" by (cases cs) auto
  then have "cs ! 0 \<noteq> 43" by (auto simp: is_bit_def)
  then show ?thesis using a unfolding parse_bits_def is_bit_def by auto
qed

text \<open>The groups read so far denote the bits read so far.\<close>

lemma bit_groups_ok:
  assumes "list_all is_bit s" "length s = (i + n) * 8" "length buf = i" "below 256 buf" "bval 256 buf = bits_val (take (i * 8) s)"
  shows "\<exists>l. bit_groups s i n buf = Some (Inr l) \<and> length l = i + n \<and> below 256 l \<and> bval 256 l = bits_val s"
  using assms(2-)
proof (induction n arbitrary: i buf)
  case 0
  then show ?case by simp
next
  case (Suc n)
  let ?g = "take 8 (drop (i * 8) s)"
  have l: "length ?g = 8" using Suc.prems(1) by simp
  have g: "list_all is_bit ?g" using assms(1) by (auto simp: list_all_iff dest: in_set_dropD in_set_takeD)
  have v: "bits_val ?g < 256" using bits_val_less[OF g] l by simp
  have b: "is_boundary s (i * 8)" "is_boundary s (i * 8 + 8)" by (rule bits_boundary[OF assms(1)], simp add: Suc.prems(1))+
  have "take (Suc i * 8) s = take (i * 8) s @ ?g" by (simp only: mult_Suc add.commute[of 8] take_add)
  then have "bits_val (take (Suc i * 8) s) = bits_val (take (i * 8) s) * 2 ^ length ?g + bits_val ?g" by (simp only: map_append bval_append length_map)
  then have "bval 256 (buf @ [bits_val ?g]) = bits_val (take (Suc i * 8) s)"
    unfolding l bval_append Suc.prems(4) by simp
  moreover have "below 256 (buf @ [bits_val ?g])" using Suc.prems(3) v by simp
  ultimately have "\<exists>l. bit_groups s (Suc i) n (buf @ [bits_val ?g]) = Some (Inr l) \<and> length l = Suc i + n \<and> below 256 l \<and> bval 256 l = bits_val s"
    using Suc.prems(1,2) by (intro Suc.IH) simp_all
  moreover have "parse_bits ?g = Some (bits_val ?g)" using l by (intro parse_bits_ok[OF g]) auto
  ultimately show ?case using b v by (simp add: Let_def)
qed

lemma trim_quotes:
  assumes "list_all is_bit cs" "cs \<noteq> []"
  shows "trim_end_char 39 (trim_start_char 39 (39 # cs @ [39])) = cs"
proof -
  obtain x xs where x: "cs = x # xs" using assms(2) by (cases cs) auto
  obtain ys y where y: "cs = ys @ [y]" using assms(2) by (cases cs rule: rev_cases) auto
  have "x \<noteq> 39" using assms(1) unfolding x by (auto simp: is_bit_def)
  moreover have "y \<noteq> 39" using assms(1) unfolding y by (auto simp: is_bit_def)
  ultimately have "trim_start_char 39 (39 # cs @ [39]) = cs @ [39]" "dropWhile (\<lambda>x. x = 39) (rev cs) = rev cs"
    by (simp add: trim_start_char_def x, simp add: y)
  then show ?thesis by (simp add: trim_end_char_def)
qed

lemma bits_val_zeros: "bits_val (replicate k 48) = 0"
  by (induction k) (simp_all add: digit_val_def)

lemma from_bit_str_ok:
  assumes "list_all is_bit cs" "cs \<noteq> []"
  shows "\<exists>l. from_bit_str ([98, 39] @ cs @ [39]) = Some (Inr l) \<and> length l = (length cs + 7) div 8 \<and> below 256 l \<and> bval 256 l = bits_val cs"
proof -
  let ?n = "(length cs + 7) div 8"
  let ?sub = "drop (length cs + 8 - ?n * 8) (replicate 8 48 @ cs)"
  have n: "?n * 8 \<le> length cs + 7" "length cs \<le> ?n * 8" by linarith+
  have s: "?sub = replicate (?n * 8 - length cs) 48 @ cs" using n by simp
  have l: "length ?sub = ?n * 8" using n unfolding s by simp
  have b: "list_all is_bit ?sub" using assms(1) unfolding s by (auto simp: list_all_iff is_bit_def)
  have v: "bits_val ?sub = bits_val cs" unfolding s by (simp only: map_append bval_append bits_val_zeros mult_0 add_0)
  have g: "\<exists>l. bit_groups ?sub 0 ?n [] = Some (Inr l) \<and> length l = 0 + ?n \<and> below 256 l \<and> bval 256 l = bits_val ?sub"
    by (rule bit_groups_ok[OF b]) (simp_all add: l)
  have "from_bit_str ([98, 39] @ cs @ [39]) = bit_groups ?sub 0 (length ?sub div 8) []"
    using assms(2) trim_quotes[OF assms] by (simp add: from_bit_str_def Let_def)
  then show ?thesis using g v l by simp
qed

lemma bval_binary: "bval 2 (map (\<lambda>i. b div 2 ^ (n - 1 - i) mod 2) [0..<n]) = b mod 2 ^ n"
proof (induction n)
  case (Suc n)
  have "[0..<Suc n] = 0 # map Suc [0..<n]" by (simp add: map_Suc_upt upt_conv_Cons del: upt_Suc)
  then have "bval 2 (map (\<lambda>i. b div 2 ^ (Suc n - 1 - i) mod 2) [0..<Suc n]) = b div 2 ^ n mod 2 * 2 ^ n + b mod 2 ^ n"
    using Suc by (simp add: comp_def del: upt_Suc)
  also have "\<dots> = b mod 2 ^ Suc n" using mod_mult2_eq[of b "2 ^ n" 2] by (simp add: mult.commute)
  finally show ?case .
qed simp

lemma bits8_ok:
  assumes "b < 256"
  shows "bits_val (bits8 b) = b" "list_all is_bit (bits8 b)" "length (bits8 b) = 8"
proof -
  have "map digit_val (bits8 b) = map (\<lambda>i. b div 2 ^ (8 - 1 - i) mod 2) [0..<8]" by (simp add: bits8_def digit_val_def)
  then have "bits_val (bits8 b) = b mod 2 ^ 8" by (simp only: bval_binary)
  then show "bits_val (bits8 b) = b" using assms by simp
  show "list_all is_bit (bits8 b)" by (auto simp: bits8_def is_bit_def list_all_iff)
  show "length (bits8 b) = 8" by (simp add: bits8_def)
qed

lemma bits_of_literal:
  assumes "below 256 l"
  shows "bits_val (concat (map bits8 l)) = bval 256 l \<and> list_all is_bit (concat (map bits8 l)) \<and> length (concat (map bits8 l)) = 8 * length l"
  using assms
proof (induction l)
  case (Cons b l)
  then have "b < 256" "below 256 l" by simp_all
  note ih = Cons.IH[OF this(2)] and b = bits8_ok[OF this(1)]
  have "bits_val (concat (map bits8 (b # l))) = bits_val (bits8 b) * 2 ^ length (concat (map bits8 l)) + bits_val (concat (map bits8 l))"
    by (simp only: list.map concat.simps map_append bval_append length_map)
  then show ?case using ih b by (simp add: power_mult)
qed simp

lemma trim_zero_bits: "\<exists>k. s = replicate k 48 @ trim_start_char 48 s"
proof (induction s)
  case (Cons c s)
  then obtain k where "s = replicate k 48 @ trim_start_char 48 s" by blast
  then show ?case by (cases "c = 48") (auto simp: trim_start_char_def intro: exI[of _ "Suc k"] exI[of _ 0])
qed (simp add: trim_start_char_def)

section \<open>Properties\<close>

text \<open>
  C29: the bit text of a literal reads back. Without trimming \<open>from_bit_str\<close> returns the literal
  that \<open>to_bit_string\<close> printed, byte for byte; with leading zeros trimmed it returns a literal of
  the same number, which \<open>Ord\<close> calls equal.\<close>

theorem bit_string_roundtrip:
  assumes "below 256 l"
  shows "from_bit_str (to_bit_string l False) = Some (Inr l) \<and>
    (\<exists>r. from_bit_str (to_bit_string l True) = Some (Inr r) \<and> below 256 r \<and> bval 256 r = bval 256 l \<and> cmp_literal r l = Equal)"
proof (cases "l = []")
  case True
  have "from_bit_str [98, 39, 39] = Some (Inr [])" "cmp_literal [] [] = Equal" by code_simp+
  then show ?thesis using True by (simp add: to_bit_string_def)
next
  case False
  let ?s = "concat (map bits8 l)"
  let ?t = "trim_start_char 48 ?s"
  note b = bits_of_literal[OF assms]
  have ne: "?s \<noteq> []" using b False by (metis length_0_conv mult_is_0 zero_neq_numeral)
  obtain r where r: "from_bit_str ([98, 39] @ ?s @ [39]) = Some (Inr r)" "length r = length l" "below 256 r" "bval 256 r = bval 256 l"
    using from_bit_str_ok[OF _ ne] b by auto
  then have "r = l" using bval_inj[OF _ assms] by simp
  then have 1: "from_bit_str (to_bit_string l False) = Some (Inr l)" using r(1) False by (simp add: to_bit_string_def Let_def)
  obtain k where k: "?s = replicate k 48 @ ?t" using trim_zero_bits by blast
  have v: "bits_val ?t = bval 256 l"
  proof -
    have "bits_val ?s = bits_val (replicate k 48 @ ?t)" using k by simp
    then show ?thesis using b by (simp only: map_append bval_append bits_val_zeros mult_0 add_0)
  qed
  have "\<exists>r. from_bit_str (to_bit_string l True) = Some (Inr r) \<and> below 256 r \<and> bval 256 r = bval 256 l"
  proof (cases "?t = []")
    case True
    have "from_bit_str [98, 39, 48, 39] = Some (Inr [0])" by code_simp
    then show ?thesis using True False v by (simp add: to_bit_string_def Let_def)
  next
    case nt: False
    have "length ?s - length ?t = k" using arg_cong[OF k, of length] by simp
    then have "drop (length ?s - length ?t) ?s = ?t" using arg_cong[OF k, of "drop k"] by simp
    then have "to_bit_string l True = [98, 39] @ ?t @ [39]" using False nt by (simp add: to_bit_string_def Let_def)
    moreover have "list_all is_bit ?t" using b unfolding trim_start_char_def list_all_iff by (meson set_dropWhileD)
    ultimately show ?thesis using from_bit_str_ok[OF _ nt] v by auto
  qed
  then show ?thesis using 1 cmp_literal_val[OF _ assms] by (auto simp: cmp_val_def)
qed

theorem bit_string_roundtrip_witness:
  "to_bit_string [0, 5] True = [98, 39, 49, 48, 49, 39] \<and> (\<exists>r. from_bit_str (to_bit_string [0, 5] True) = Some (Inr r) \<and> bval 256 r = 5)"
proof -
  have "to_bit_string [0, 5] True = [98, 39, 49, 48, 49, 39]" by code_simp
  moreover have "below 256 [0, 5]" by simp
  ultimately show ?thesis using bit_string_roundtrip[of "[0, 5]"] by fastforce
qed

text \<open>
  The trimming leaves nothing of a literal of zero bytes, where the tests of the file expect one
  zero byte to stay.\<close>

lemma trim_zero_bytes: "trim_leading_zero_bytes (replicate n 0) = []"
  by (simp add: trim_leading_zero_bytes_def)

text \<open>
  C30: nonempty literals, of any length, are ordered by their numbers. \<open>Ord\<close> compares two of them as
  the big-endian numbers of their bytes, whatever leading zero bytes they have; in particular the
  order changes with its sides and is transitive.\<close>

theorem literal_order:
  assumes "below 256 a" "below 256 b" "below 256 c" "a \<noteq> []" "b \<noteq> []" "c \<noteq> []"
  shows "cmp_literal a b = cmp_val (bval 256 a) (bval 256 b) \<and>
    cmp_literal b a = flip (cmp_literal a b) \<and>
    (cmp_literal a b = Less \<and> cmp_literal b c = Less \<longrightarrow> cmp_literal a c = Less)"
  using literal.flipped[OF assms(1,2)] literal.less_trans[OF assms(1-3)] cmp_literal_val[OF assms(1,2)] by auto

theorem literal_order_witness:
  "cmp_literal [0, 1, 2] [1, 2] = Equal \<and> cmp_literal [1, 2] [3] = flip (cmp_literal [3] [1, 2]) \<and>
   cmp_literal [3] [1, 2] = Less"
proof -
  have b: "below 256 [0, 1, 2]" "below 256 [1, 2]" "below 256 [3]" by simp_all
  have n: "[0, 1, 2] \<noteq> ([] :: nat list)" "[1, 2] \<noteq> ([] :: nat list)" "[3] \<noteq> ([] :: nat list)" by simp_all
  show ?thesis using literal_order[OF b n] literal_order[OF b(3,2,1) n(3,2,1)] by (simp add: cmp_val_def)
qed

text \<open>
  \<open>from_u64\<close> fills the array from the lowest byte on, while \<open>to_uint\<close> reads the highest byte
  first: together they reverse the bytes. With the size -1 the loop does not run and the number
  is lost.\<close>

lemma from_u64_reverses:
  "literal_to_uint (literal_from_u64 1 8) = Some (2 ^ 56)" "literal_from_u64 n (- 1) = []"
proof -
  show "literal_to_uint (literal_from_u64 1 8) = Some (2 ^ 56)" by code_simp
  show "literal_from_u64 n (- 1) = []" by (simp add: literal_from_u64_def trim_leading_zero_bytes_def upt_rec)
qed

end
