(* ===== verification/Overflow.thy ===== *)
theory Overflow
  imports Errors
begin

text \<open>
  Integer division for the arithmetic of the query layer, \<open>src/berolinasql/src/overflow.rs\<close>: the
  three combinations of signed and unsigned operands. \<open>overflowing_div\<close> and \<open>overflowing_neg\<close> of
  the standard library wrap around and say so.
\<close>

definition overflowing_div :: "int \<Rightarrow> int \<Rightarrow> int \<times> bool" where
  "overflowing_div a b = (as_signed 64 (sdiv a b), \<not> in_signed 64 (sdiv a b))"

definition overflowing_neg :: "int \<Rightarrow> int \<times> bool" where
  "overflowing_neg a = (as_signed 64 (- a), \<not> in_signed 64 (- a))"

text \<open>\<open>format!("({} / {})", a, b)\<close>\<close>

definition quotient_text :: "int \<Rightarrow> int \<Rightarrow> string" where
  "quotient_text a b = ''('' @ show_int a @ '' / '' @ show_int b @ '')''"

definition div_i64 :: "int \<Rightarrow> int \<Rightarrow> int fresult" where
  "div_i64 a b =
     (if b = 0 then Inl division_by_zero
      else (case overflowing_div a b of
              (_, True) \<Rightarrow> Inl (over_causetxctx ''UNSIGNED BIGINT'' (quotient_text a b))
            | (res, False) \<Rightarrow> Inr res))"

definition div_u64_with_i64 :: "nat \<Rightarrow> int \<Rightarrow> nat fresult" where
  "div_u64_with_i64 a b =
     (if b = 0 then Inl division_by_zero
      else if b < 0 then
        (if a \<noteq> 0 \<and> as_unsigned 64 (fst (overflowing_neg b)) \<le> a
         then Inl (over_causetxctx ''UNSIGNED BIGINT'' (quotient_text (int a) b))
         else Inr 0)
      else Inr (a div as_unsigned 64 b))"

definition div_i64_with_u64 :: "int \<Rightarrow> nat \<Rightarrow> nat fresult" where
  "div_i64_with_u64 a b =
     (if b = 0 then Inl division_by_zero
      else if a < 0 then
        (if b \<le> as_unsigned 64 (fst (overflowing_neg a))
         then Inl (over_causetxctx ''UNSIGNED BIGINT'' (quotient_text a (int b)))
         else Inr 0)
      else Inr (as_unsigned 64 a div b))"

section \<open>Exactness\<close>

text \<open>The bit pattern of a negated number is its magnitude, also for the least one.\<close>

lemma neg_magnitude:
  assumes "in_signed 64 x" "x < 0"
  shows "as_unsigned 64 (fst (overflowing_neg x)) = nat (- x)"
proof -
  have "as_unsigned 64 (as_signed 64 y) = as_unsigned 64 y" for y
    by (simp add: as_unsigned_def as_signed_def mod_diff_left_eq)
  moreover have "as_unsigned 64 (- x) = nat (- x)" using assms by (simp add: as_unsigned_def in_signed_def)
  ultimately show ?thesis by (simp add: overflowing_neg_def)
qed

lemma as_unsigned_ge_0: "in_signed 64 x \<Longrightarrow> 0 \<le> x \<Longrightarrow> as_unsigned 64 x = nat x"
  by (simp add: as_unsigned_def in_signed_def)

lemma sdiv_neg_iff: "sdiv a b < 0 \<longleftrightarrow> (a < 0 \<and> 0 < b \<or> 0 < a \<and> b < 0) \<and> \<bar>b\<bar> \<le> \<bar>a\<bar>"
proof (cases "b = 0")
  case False
  then have "0 < \<bar>a\<bar> div \<bar>b\<bar> \<longleftrightarrow> \<bar>b\<bar> \<le> \<bar>a\<bar>" by (simp add: pos_imp_zdiv_pos_iff)
  moreover have "0 \<le> \<bar>a\<bar> div \<bar>b\<bar>" using False by (simp add: pos_imp_zdiv_nonneg_iff)
  ultimately show ?thesis using False by (auto simp: sdiv_def sgn_if split: if_splits)
qed (simp add: sdiv_def)

text \<open>
  C32: Each of the three divisions reports a zero divisor, otherwise returns the quotient truncated
  towards zero exactly when the result type holds it, and otherwise the out-of-range error with the
  operands.
\<close>

theorem integer_division_exact:
  assumes "in_signed 64 a" "in_signed 64 b" "n < 2 ^ 64"
  shows "div_i64 a b =
      (if b = 0 then Inl division_by_zero
       else if in_signed 64 (sdiv a b) then Inr (sdiv a b)
       else Inl (over_causetxctx ''UNSIGNED BIGINT'' (quotient_text a b))) \<and>
    div_u64_with_i64 n b =
      (if b = 0 then Inl division_by_zero
       else if 0 \<le> sdiv (int n) b then Inr (nat (sdiv (int n) b))
       else Inl (over_causetxctx ''UNSIGNED BIGINT'' (quotient_text (int n) b))) \<and>
    div_i64_with_u64 a n =
      (if n = 0 then Inl division_by_zero
       else if 0 \<le> sdiv a (int n) then Inr (nat (sdiv a (int n)))
       else Inl (over_causetxctx ''UNSIGNED BIGINT'' (quotient_text a (int n))))"
proof (intro conjI)
  show "div_i64 a b =
      (if b = 0 then Inl division_by_zero
       else if in_signed 64 (sdiv a b) then Inr (sdiv a b)
       else Inl (over_causetxctx ''UNSIGNED BIGINT'' (quotient_text a b)))"
    by (simp add: div_i64_def overflowing_div_def as_signed_id)
  have zero: "nat (sdiv x y) = 0" if "\<bar>x\<bar> < \<bar>y\<bar>" for x y using that by (simp add: sdiv_def)
  show "div_u64_with_i64 n b =
      (if b = 0 then Inl division_by_zero
       else if 0 \<le> sdiv (int n) b then Inr (nat (sdiv (int n) b))
       else Inl (over_causetxctx ''UNSIGNED BIGINT'' (quotient_text (int n) b)))"
  proof (cases "b < 0")
    case True
    have "nat (- b) \<le> n \<longleftrightarrow> \<bar>b\<bar> \<le> int n" using True by auto
    then show ?thesis using True zero[of "int n" b]
      by (auto simp: div_u64_with_i64_def neg_magnitude[OF assms(2) True] linorder_not_less[symmetric] sdiv_neg_iff)
  next
    case False
    then have "0 < b \<Longrightarrow> sdiv (int n) b = int (n div nat b)"
      by (cases "n = 0") (auto simp: sdiv_def sgn_if zdiv_int)
    then show ?thesis using False by (auto simp: div_u64_with_i64_def as_unsigned_ge_0[OF assms(2)])
  qed
  show "div_i64_with_u64 a n =
      (if n = 0 then Inl division_by_zero
       else if 0 \<le> sdiv a (int n) then Inr (nat (sdiv a (int n)))
       else Inl (over_causetxctx ''UNSIGNED BIGINT'' (quotient_text a (int n))))"
  proof (cases "a < 0")
    case True
    have "n \<le> nat (- a) \<longleftrightarrow> int n \<le> \<bar>a\<bar>" using True by auto
    then show ?thesis using True zero[of a "int n"]
      by (auto simp: div_i64_with_u64_def neg_magnitude[OF assms(1) True] linorder_not_less[symmetric] sdiv_neg_iff)
  next
    case False
    then have "0 < n \<Longrightarrow> sdiv a (int n) = int (nat a div n)"
      by (cases "a = 0") (auto simp: sdiv_def sgn_if zdiv_int)
    then show ?thesis using False by (auto simp: div_i64_with_u64_def as_unsigned_ge_0[OF assms(1)])
  qed
qed

theorem integer_division_exact_witness:
  "div_i64 (- 9223372036854775808) (- 1) =
     Inl (over_causetxctx ''UNSIGNED BIGINT'' (quotient_text (- 9223372036854775808) (- 1)))"
  using integer_division_exact[of "- 9223372036854775808" "- 1" 0] by (simp add: in_signed_def sdiv_def)

end
