(* ===== verification/Json.thy ===== *)
theory Json
  imports Binary_Literal "HOL-Library.List_Lexorder"
begin

text \<open>
  Binary JSON documents, \<open>src/berolinasql/src/mod.rs\<close>, \<open>binary.rs\<close>, \<open>constants.rs\<close>, \<open>jcodec.rs\<close> and
  the read operations of the \<open>json_*.rs\<close> files: the accessors of a document, the search of a key,
  the object writer, the selection by a path, length, depth, type name and keys.

  A \<open>JsonRef\<close> borrows a slice of a document, so a reference has its type, the address of its
  first byte and its bytes. Positions are \<open>usize\<close>; they stem from 32-bit fields and stay far
  below its bound, so that they are plain natural numbers.

  What the sources take from elsewhere is a record of parameters: the number codec, the numbers
  of the JSON types (the derived \<open>FromPrimitive\<close>), and three writers whose bodies are not in the
  repository.
\<close>

section \<open>Constants and data\<close>

definition JSON_LITERAL_NIL :: nat where [simp]: "JSON_LITERAL_NIL = 0"
definition JSON_LITERAL_TRUE :: nat where [simp]: "JSON_LITERAL_TRUE = 1"
definition JSON_LITERAL_FALSE :: nat where [simp]: "JSON_LITERAL_FALSE = 2"

definition TYPE_LEN :: nat where [simp]: "TYPE_LEN = 1"
definition LITERAL_LEN :: nat where [simp]: "LITERAL_LEN = 1"
definition U16_LEN :: nat where [simp]: "U16_LEN = 2"
definition U32_LEN :: nat where [simp]: "U32_LEN = 4"
definition NUMBER_LEN :: nat where [simp]: "NUMBER_LEN = 8"
definition ELEMENT_COUNT_LEN :: nat where [simp]: "ELEMENT_COUNT_LEN = U32_LEN"
definition SIZE_LEN :: nat where [simp]: "SIZE_LEN = U32_LEN"
definition HEADER_LEN :: nat where [simp]: "HEADER_LEN = ELEMENT_COUNT_LEN + SIZE_LEN"
definition KEY_OFFSET_LEN :: nat where [simp]: "KEY_OFFSET_LEN = U32_LEN"
definition KEY_LEN_LEN :: nat where [simp]: "KEY_LEN_LEN = U16_LEN"
definition KEY_ENTRY_LEN :: nat where [simp]: "KEY_ENTRY_LEN = KEY_OFFSET_LEN + KEY_LEN_LEN"
definition VALUE_ENTRY_LEN :: nat where [simp]: "VALUE_ENTRY_LEN = TYPE_LEN + U32_LEN"

text \<open>The variants the operations use; the declaration in \<open>mod.rs\<close> lists further numeric types.\<close>

datatype json_type = JObject | JArray | JLiteral | JI64 | JU64 | JDouble | JString

record json_ref =
  type_code :: json_type
  as_ptr :: nat
  causet_locale :: "nat list"

text \<open>An owned document: its type and its bytes, which some buffer of its own holds.\<close>

record json =
  json_type_code :: json_type
  json_bytes :: "nat list"

definition json_to_owned :: "json_ref \<Rightarrow> json" where
  "json_to_owned j = \<lparr>json_type_code = type_code j, json_bytes = causet_locale j\<rparr>"

definition json_as_ref :: "nat \<Rightarrow> json \<Rightarrow> json_ref" where
  "json_as_ref p j = \<lparr>type_code = json_type_code j, as_ptr = p, causet_locale = json_bytes j\<rparr>"

record json_env =
  decode_u16_le :: "nat list \<Rightarrow> nat option"
  decode_u32_le :: "nat list \<Rightarrow> nat option"
  decode_u64_le :: "nat list \<Rightarrow> nat option"
  decode_i64_le :: "nat list \<Rightarrow> int option"
  try_decode_var_u64 :: "nat list \<Rightarrow> (nat \<times> nat) fresult"
  write_u16_le :: "nat \<Rightarrow> nat list"
  write_u32_le :: "nat \<Rightarrow> nat list"
  json_type_from_u8 :: "nat \<Rightarrow> json_type option"
  json_type_as_u8 :: "json_type \<Rightarrow> nat"
  write_causet_locale_causet :: "nat \<Rightarrow> json_ref \<Rightarrow> nat list \<times> nat"
  write_json_ref_array :: "json_ref list \<Rightarrow> nat list"
  write_json_str :: "nat list \<Rightarrow> nat list"

text \<open>The tail \<open>xs[i..]\<close> of a slice.\<close>

definition drop_at :: "'a list \<Rightarrow> nat \<Rightarrow> 'a list option" where
  "drop_at xs i = (if i \<le> length xs then Some (drop i xs) else None)"

definition sub_ref :: "json_ref \<Rightarrow> json_type \<Rightarrow> nat \<Rightarrow> nat \<Rightarrow> json_ref option" where
  "sub_ref j tp start stop = do {
     bs \<leftarrow> slice_at (causet_locale j) start stop;
     Some \<lparr>type_code = tp, as_ptr = as_ptr j + start, causet_locale = bs\<rparr> }"

section \<open>Scalars\<close>

definition get_u64 :: "json_env \<Rightarrow> json_ref \<Rightarrow> nat option" where
  "get_u64 env j = (if type_code j = JU64 then decode_u64_le env (causet_locale j) else None)"

definition get_i64 :: "json_env \<Rightarrow> json_ref \<Rightarrow> int option" where
  "get_i64 env j = (if type_code j = JI64 then decode_i64_le env (causet_locale j) else None)"

definition get_elem_count :: "json_env \<Rightarrow> json_ref \<Rightarrow> nat option" where
  "get_elem_count env j =
     (if type_code j = JObject \<or> type_code j = JArray then decode_u32_le env (causet_locale j) else None)"

definition get_literal :: "json_ref \<Rightarrow> bool option option" where
  "get_literal j =
     (if type_code j = JLiteral then do {
        b \<leftarrow> get_at (causet_locale j) 0;
        Some (if b = JSON_LITERAL_FALSE then Some False else if b = JSON_LITERAL_TRUE then Some True else None) }
      else None)"

definition get_str_bytes :: "json_env \<Rightarrow> json_ref \<Rightarrow> nat list fresult option" where
  "get_str_bytes env j =
     (if type_code j = JString then
        try_res (try_decode_var_u64 env (causet_locale j)) (\<lambda>(str_len, len_len). do {
          s \<leftarrow> slice_at (causet_locale j) len_len (len_len + str_len);
          Some (Inr s) })
      else None)"

definition binary_len :: "json_ref \<Rightarrow> nat" where
  "binary_len j = TYPE_LEN + length (causet_locale j)"

definition json_type_name :: "json_ref \<Rightarrow> string option" where
  "json_type_name j =
     (case type_code j of
        JObject \<Rightarrow> Some ''OBJECT''
      | JArray \<Rightarrow> Some ''ARRAY''
      | JI64 \<Rightarrow> Some ''INTEGER''
      | JU64 \<Rightarrow> Some ''UNSIGNED INTEGER''
      | JDouble \<Rightarrow> Some ''DOUBLE''
      | JString \<Rightarrow> Some ''STRING''
      | JLiteral \<Rightarrow> do {
          l \<leftarrow> get_literal j;
          Some (case l of Some _ \<Rightarrow> ''BOOLEAN'' | None \<Rightarrow> ''NULL'') })"

section \<open>Elements of arrays and objects\<close>

definition val_causet_get :: "json_env \<Rightarrow> json_ref \<Rightarrow> nat \<Rightarrow> json_ref fresult option" where
  "val_causet_get env j val_causet_off = do {
     b \<leftarrow> get_at (causet_locale j) val_causet_off;
     (case json_type_from_u8 env b of
        None \<Rightarrow> Some (Inl (InvalidDataType ''unexpected JSON type''))
      | Some val_type \<Rightarrow> do {
          t \<leftarrow> drop_at (causet_locale j) (val_causet_off + TYPE_LEN);
          val_offset \<leftarrow> decode_u32_le env t;
          (case val_type of
             JLiteral \<Rightarrow> do {
               let offset = val_causet_off + TYPE_LEN;
               r \<leftarrow> sub_ref j val_type offset (offset + LITERAL_LEN);
               Some (Inr r) }
           | JString \<Rightarrow> do {
               t \<leftarrow> drop_at (causet_locale j) val_offset;
               try_res (try_decode_var_u64 env t) (\<lambda>(str_len, len_len). do {
                 r \<leftarrow> sub_ref j val_type val_offset (val_offset + str_len + len_len);
                 Some (Inr r) }) }
           | _ \<Rightarrow>
               if val_type = JU64 \<or> val_type = JI64 \<or> val_type = JDouble then do {
                 r \<leftarrow> sub_ref j val_type val_offset (val_offset + NUMBER_LEN);
                 Some (Inr r) }
               else do {
                 t \<leftarrow> drop_at (causet_locale j) (val_offset + ELEMENT_COUNT_LEN);
                 data_size \<leftarrow> decode_u32_le env t;
                 r \<leftarrow> sub_ref j val_type val_offset (val_offset + data_size);
                 Some (Inr r) }) }) }"

definition array_get_elem :: "json_env \<Rightarrow> json_ref \<Rightarrow> nat \<Rightarrow> json_ref fresult option" where
  "array_get_elem env j idx = val_causet_get env j (HEADER_LEN + idx * VALUE_ENTRY_LEN)"

definition object_get_soliton_id :: "json_env \<Rightarrow> json_ref \<Rightarrow> nat \<Rightarrow> nat list option" where
  "object_get_soliton_id env j i = do {
     let soliton_id_off_start = HEADER_LEN + i * KEY_ENTRY_LEN;
     t \<leftarrow> drop_at (causet_locale j) soliton_id_off_start;
     soliton_id_off \<leftarrow> decode_u32_le env t;
     t \<leftarrow> drop_at (causet_locale j) (soliton_id_off_start + KEY_OFFSET_LEN);
     soliton_id_len \<leftarrow> decode_u16_le env t;
     slice_at (causet_locale j) soliton_id_off (soliton_id_off + soliton_id_len) }"

definition object_get_val :: "json_env \<Rightarrow> json_ref \<Rightarrow> nat \<Rightarrow> json_ref fresult option" where
  "object_get_val env j i = do {
     ele_count \<leftarrow> get_elem_count env j;
     let val_causet_off = HEADER_LEN + ele_count * KEY_ENTRY_LEN + i * VALUE_ENTRY_LEN;
     val_causet_get env j val_causet_off }"

text \<open>\<open>while i < j\<close> of the binary search.\<close>

function search_loop :: "json_env \<Rightarrow> json_ref \<Rightarrow> nat list \<Rightarrow> nat \<Rightarrow> nat \<Rightarrow> nat option" where
  "search_loop env obj soliton_id i j =
     (if i < j then do {
        let mid = (i + j) div 2;
        k \<leftarrow> object_get_soliton_id env obj mid;
        if cmp_bytes k soliton_id = Less then search_loop env obj soliton_id (mid + 1) j
        else search_loop env obj soliton_id i mid }
      else Some i)"
  by pat_completeness auto

termination
  by (relation "measure (\<lambda>(_, _, _, i, j). j - i)") auto

declare search_loop.simps [simp del]

definition object_search_soliton_id :: "json_env \<Rightarrow> json_ref \<Rightarrow> nat list \<Rightarrow> nat option option" where
  "object_search_soliton_id env obj soliton_id = do {
     len \<leftarrow> get_elem_count env obj;
     i \<leftarrow> search_loop env obj soliton_id 0 len;
     if i < len then do {
       k \<leftarrow> object_get_soliton_id env obj i;
       Some (if k = soliton_id then Some i else None) }
     else Some None }"

section \<open>The object writer\<close>

definition encoded_len :: "json_ref \<Rightarrow> nat" where
  "encoded_len j = (case type_code j of JLiteral \<Rightarrow> 0 | _ \<Rightarrow> length (causet_locale j))"

text \<open>The loops that write the key entries, the value entries and the values.\<close>

fun write_soliton_id_entries :: "json_env \<Rightarrow> nat \<Rightarrow> (nat list \<times> json_ref) list \<Rightarrow> nat list \<times> nat" where
  "write_soliton_id_entries env soliton_id_offset [] = ([], soliton_id_offset)"
| "write_soliton_id_entries env soliton_id_offset ((soliton_id, _) # entries) =
     (let soliton_id_len = length soliton_id;
          (out, stop) = write_soliton_id_entries env (soliton_id_offset + soliton_id_len) entries
      in (write_u32_le env (soliton_id_offset mod 2 ^ 32) @ write_u16_le env (soliton_id_len mod 2 ^ 16) @ out, stop))"

fun write_value_entries :: "json_env \<Rightarrow> nat \<Rightarrow> (nat list \<times> json_ref) list \<Rightarrow> nat list" where
  "write_value_entries env causet_locale_offset [] = []"
| "write_value_entries env causet_locale_offset ((_, v) # entries) =
     (let (out, causet_locale_offset) = write_causet_locale_causet env causet_locale_offset v
      in out @ write_value_entries env causet_locale_offset entries)"

definition write_values :: "(nat list \<times> json_ref) list \<Rightarrow> nat list" where
  "write_values entries =
     concat (map (\<lambda>(_, v). if type_code v \<noteq> JLiteral then causet_locale v else []) entries)"

definition write_json_obj_from_soliton_ids_causet_locales ::
    "json_env \<Rightarrow> nat list \<Rightarrow> (nat list \<times> json_ref) list \<Rightarrow> nat list" where
  "write_json_obj_from_soliton_ids_causet_locales env buf entries =
     (let entries = sort_key fst entries;
          element_count = length entries;
          soliton_id_entries_len = KEY_ENTRY_LEN * element_count;
          causet_locale_entries_len = VALUE_ENTRY_LEN * element_count;
          kv_encoded_len = foldl (\<lambda>acc (k, v). acc + length k + encoded_len v) 0 entries;
          size = ELEMENT_COUNT_LEN + SIZE_LEN + soliton_id_entries_len + causet_locale_entries_len + kv_encoded_len;
          soliton_id_offset = ELEMENT_COUNT_LEN + SIZE_LEN + soliton_id_entries_len + causet_locale_entries_len;
          (ks, soliton_id_offset) = write_soliton_id_entries env soliton_id_offset entries
      in buf @ write_u32_le env (element_count mod 2 ^ 32) @ write_u32_le env (size mod 2 ^ 32) @ ks
         @ write_value_entries env (soliton_id_offset mod 2 ^ 32) entries
         @ concat (map fst entries) @ write_values entries)"

definition from_einsteindb_fdb_kv_pairs :: "json_env \<Rightarrow> (nat list \<times> json_ref) list \<Rightarrow> json" where
  "from_einsteindb_fdb_kv_pairs env entries =
     \<lparr>json_type_code = JObject, json_bytes = write_json_obj_from_soliton_ids_causet_locales env [] entries\<rparr>"

definition from_ref_array :: "json_env \<Rightarrow> json_ref list \<Rightarrow> json" where
  "from_ref_array env elems = \<lparr>json_type_code = JArray, json_bytes = write_json_ref_array env elems\<rparr>"

definition from_str_val :: "json_env \<Rightarrow> nat list \<Rightarrow> json" where
  "from_str_val env s = \<lparr>json_type_code = JString, json_bytes = write_json_str env s\<rparr>"

definition write_json :: "json_env \<Rightarrow> nat list \<Rightarrow> json_ref \<Rightarrow> nat list" where
  "write_json env buf j = buf @ [json_type_as_u8 env (type_code j)] @ causet_locale j"

section \<open>Selection by a path\<close>

datatype path_leg = Index int | Key "nat list" | DoubleAsterisk

record path_expr =
  legs :: "path_leg list"
  path_flags :: nat

definition PATH_EXPR_ARRAY_INDEX_ASTERISK :: int where [simp]: "PATH_EXPR_ARRAY_INDEX_ASTERISK = -1"
definition PATH_EXPR_ASTERISK :: "nat list" where [simp]: "PATH_EXPR_ASTERISK = [42]"

definition PATH_EXPRESSION_CONTAINS_ASTERISK :: nat where [simp]: "PATH_EXPRESSION_CONTAINS_ASTERISK = 1"
definition PATH_EXPRESSION_CONTAINS_DOUBLE_ASTERISK :: nat where
  [simp]: "PATH_EXPRESSION_CONTAINS_DOUBLE_ASTERISK = 2"

definition contains_any_asterisk :: "path_expr \<Rightarrow> bool" where
  "contains_any_asterisk e \<longleftrightarrow>
     (and (path_flags e) (or PATH_EXPRESSION_CONTAINS_ASTERISK PATH_EXPRESSION_CONTAINS_DOUBLE_ASTERISK)) \<noteq> 0"

text \<open>A loop that collects what a fallible step yields for every index.\<close>

fun try_each :: "('a \<Rightarrow> 'b fresult option) \<Rightarrow> 'a list \<Rightarrow> 'b list fresult option" where
  "try_each f [] = Some (Inr [])"
| "try_each f (x # xs) = do {
     r \<leftarrow> f x;
     try_res r (\<lambda>y. do {
       rs \<leftarrow> try_each f xs;
       try_res rs (\<lambda>ys. Some (Inr (y # ys))) }) }"

definition and_then :: "'a fresult option \<Rightarrow> ('a \<Rightarrow> 'b fresult option) \<Rightarrow> 'b fresult option" where
  "and_then m f = do { r \<leftarrow> m; try_res r f }"

definition collect_each :: "('a \<Rightarrow> 'b list fresult option) \<Rightarrow> 'a list \<Rightarrow> 'b list fresult option" where
  "collect_each f xs = and_then (try_each f xs) (\<lambda>ys. Some (Inr (concat ys)))"

primrec extract_json :: "json_env \<Rightarrow> json_ref \<Rightarrow> path_leg list \<Rightarrow> json_ref list fresult option" where
  "extract_json env j [] = Some (Inr [j])"
| "extract_json env j (current_leg # sub_legs) =
     (case current_leg of
        Index i \<Rightarrow>
          (if type_code j = JArray then do {
             elem_count \<leftarrow> get_elem_count env j;
             if i = PATH_EXPR_ARRAY_INDEX_ASTERISK
             then collect_each (\<lambda>k. and_then (array_get_elem env j k) (\<lambda>e. extract_json env e sub_legs)) [0..<elem_count]
             else if as_unsigned 64 i < elem_count
             then and_then (array_get_elem env j (as_unsigned 64 i)) (\<lambda>e. extract_json env e sub_legs)
             else Some (Inr []) }
           else if as_unsigned 64 i = 0 then extract_json env j sub_legs
           else Some (Inr []))
      | Key soliton_id \<Rightarrow>
          (if type_code j = JObject then
             if soliton_id = PATH_EXPR_ASTERISK then do {
               elem_count \<leftarrow> get_elem_count env j;
               collect_each (\<lambda>k. and_then (object_get_val env j k) (\<lambda>e. extract_json env e sub_legs)) [0..<elem_count] }
             else do {
               found \<leftarrow> object_search_soliton_id env j soliton_id;
               (case found of
                  Some idx \<Rightarrow> and_then (object_get_val env j idx) (\<lambda>e. extract_json env e sub_legs)
                | None \<Rightarrow> Some (Inr [])) }
           else Some (Inr []))
      | DoubleAsterisk \<Rightarrow>
          and_then (extract_json env j sub_legs) (\<lambda>here.
            if type_code j = JArray then do {
              elem_count \<leftarrow> get_elem_count env j;
              and_then (collect_each (\<lambda>k. and_then (array_get_elem env j k) (\<lambda>e. extract_json env e sub_legs)) [0..<elem_count])
                (\<lambda>below. Some (Inr (here @ below))) }
            else if type_code j = JObject then do {
              elem_count \<leftarrow> get_elem_count env j;
              and_then (collect_each (\<lambda>k. and_then (object_get_val env j k) (\<lambda>e. extract_json env e sub_legs)) [0..<elem_count])
                (\<lambda>below. Some (Inr (here @ below))) }
            else Some (Inr here)))"

definition json_extract :: "json_env \<Rightarrow> json_ref \<Rightarrow> path_expr list \<Rightarrow> json option fresult option" where
  "json_extract env j path_expr_list =
     and_then (collect_each (\<lambda>e. extract_json env j (legs e)) path_expr_list) (\<lambda>elem_list.
       if elem_list = [] then Some (Inr None)
       else if length path_expr_list = 1 \<and> length elem_list = 1
       then Some (Inr (Some (json_to_owned (hd elem_list))))
       else Some (Inr (Some (from_ref_array env elem_list))))"

section \<open>Length, depth and keys\<close>

definition json_len :: "json_env \<Rightarrow> json_ref \<Rightarrow> int option option" where
  "json_len env j =
     (if type_code j = JArray \<or> type_code j = JObject then do {
        n \<leftarrow> get_elem_count env j;
        Some (Some (int n)) }
      else Some (Some 1))"

definition json_length :: "json_env \<Rightarrow> json_ref \<Rightarrow> path_expr list \<Rightarrow> int option fresult option" where
  "json_length env j path_expr_list =
     (if path_expr_list = [] then map_option Inr (json_len env j)
      else if length path_expr_list = 1 \<and> contains_any_asterisk (hd path_expr_list) then Some (Inr None)
      else and_then (json_extract env j path_expr_list) (\<lambda>found.
        case found of
          None \<Rightarrow> Some (Inr None)
        | Some d \<Rightarrow> map_option Inr (json_len env (json_as_ref 0 d))))"

text \<open>
  \<open>depth_json\<close> follows the offsets of the document. A document whose offsets form a cycle makes it
  recurse without end, so that the model takes the number of nested calls it may make.
\<close>

primrec depth_json :: "nat \<Rightarrow> json_env \<Rightarrow> json_ref \<Rightarrow> int fresult option" where
  "depth_json 0 env j = None"
| "depth_json (Suc fuel) env j =
     (if type_code j = JObject then do {
        n \<leftarrow> get_elem_count env j;
        and_then (try_each (\<lambda>i. and_then (object_get_val env j i) (depth_json fuel env)) [0..<n])
          (\<lambda>ds. Some (Inr (foldl max 0 ds + 1))) }
      else if type_code j = JArray then do {
        n \<leftarrow> get_elem_count env j;
        and_then (try_each (\<lambda>i. and_then (array_get_elem env j i) (depth_json fuel env)) [0..<n])
          (\<lambda>ds. Some (Inr (foldl max 0 ds + 1))) }
      else Some (Inr 1))"

definition json_soliton_ids :: "json_env \<Rightarrow> json_ref \<Rightarrow> json option fresult option" where
  "json_soliton_ids env j =
     (if type_code j = JObject then do {
        elem_count \<leftarrow> get_elem_count env j;
        and_then (try_each (\<lambda>i. do {
             k \<leftarrow> object_get_soliton_id env j i;
             Some (if is_utf8 k then Inr (from_str_val env k) else Inl (Encoding (valid_up_to k))) }) [0..<elem_count])
          (\<lambda>ks. Some (Inr (Some (from_ref_array env (map (json_as_ref 0) ks))))) }
      else Some (Inr None))"

end
