(* ===== verification/Json_Layout.thy ===== *)
theory Json_Layout
  imports Json
begin

text \<open>
  The documented layout of binary JSON (the grammar at the head of \<open>src/berolinasql/src/mod.rs\<close>) as a
  function from documents to bytes, the laws of the parameters, and what the accessors return on
  such bytes.
\<close>

section \<open>Little-endian numbers\<close>

fun le_bytes :: "nat \<Rightarrow> nat \<Rightarrow> nat list" where
  "le_bytes 0 n = []"
| "le_bytes (Suc k) n = n mod 256 # le_bytes k (n div 256)"

fun le_val :: "nat list \<Rightarrow> nat" where
  "le_val [] = 0"
| "le_val (b # bs) = b + 256 * le_val bs"

lemma length_le_bytes [simp]: "length (le_bytes k n) = k"
  by (induction k arbitrary: n) auto

lemma le_val_bytes: "le_val (le_bytes k n) = n mod 256 ^ k"
proof (induction k arbitrary: n)
  case (Suc k)
  have "n mod (256 * 256 ^ k) = 256 * (n div 256 mod 256 ^ k) + n mod 256" by (rule mod_mult2_eq)
  with Suc show ?case by simp
qed simp

lemma le_bytes_mod: "le_bytes k (n mod 256 ^ k) = le_bytes k n"
proof (induction k arbitrary: n)
  case (Suc k)
  have "n mod (256 * 256 ^ k) = 256 * (n div 256 mod 256 ^ k) + n mod 256" by (rule mod_mult2_eq)
  then have "n mod (256 * 256 ^ k) div 256 = n div 256 mod 256 ^ k" "n mod (256 * 256 ^ k) mod 256 = n mod 256"
    by simp_all
  with Suc show ?case by simp
qed simp

section \<open>The layout\<close>

text \<open>An encoded value: its type and the bytes it refers to.\<close>

type_synonym jval = "json_type \<times> nat list"

definition ref_val :: "json_ref \<Rightarrow> jval" where
  "ref_val j = (type_code j, causet_locale j)"

definition stored :: "jval \<Rightarrow> nat list" where
  "stored v = (if fst v = JLiteral then [] else snd v)"

definition stored_all :: "jval list \<Rightarrow> nat list" where
  "stored_all vs = concat (map stored vs)"

definition value_entry :: "json_env \<Rightarrow> nat \<Rightarrow> jval \<Rightarrow> nat list" where
  "value_entry env off v =
     json_type_as_u8 env (fst v) # (if fst v = JLiteral then le_bytes 4 (hd (snd v)) else le_bytes 4 off)"

fun value_entries :: "json_env \<Rightarrow> nat \<Rightarrow> jval list \<Rightarrow> nat list" where
  "value_entries env off [] = []"
| "value_entries env off (v # vs) = value_entry env off v @ value_entries env (off + length (stored v)) vs"

fun key_entries :: "nat \<Rightarrow> nat list list \<Rightarrow> nat list" where
  "key_entries off [] = []"
| "key_entries off (k # ks) = le_bytes 4 off @ le_bytes 2 (length k) @ key_entries (off + length k) ks"

definition array_size :: "jval list \<Rightarrow> nat" where
  "array_size vs = 8 + 5 * length vs + length (stored_all vs)"

definition array_layout :: "json_env \<Rightarrow> jval list \<Rightarrow> nat list" where
  "array_layout env vs =
     le_bytes 4 (length vs) @ le_bytes 4 (array_size vs) @ value_entries env (8 + 5 * length vs) vs @ stored_all vs"

definition object_size :: "(nat list \<times> jval) list \<Rightarrow> nat" where
  "object_size kvs = 8 + 11 * length kvs + length (concat (map fst kvs)) + length (stored_all (map snd kvs))"

definition object_layout :: "json_env \<Rightarrow> (nat list \<times> jval) list \<Rightarrow> nat list" where
  "object_layout env kvs =
     le_bytes 4 (length kvs) @ le_bytes 4 (object_size kvs)
     @ key_entries (8 + 11 * length kvs) (map fst kvs)
     @ value_entries env (8 + 11 * length kvs + length (concat (map fst kvs))) (map snd kvs)
     @ concat (map fst kvs) @ stored_all (map snd kvs)"

section \<open>Laws of the parameters\<close>

definition json_env_ok :: "json_env \<Rightarrow> bool" where
  "json_env_ok env \<longleftrightarrow>
     (\<forall>bs. decode_u16_le env bs = (if length bs < 2 then None else Some (le_val (take 2 bs)))) \<and>
     (\<forall>bs. decode_u32_le env bs = (if length bs < 4 then None else Some (le_val (take 4 bs)))) \<and>
     (\<forall>bs. decode_u64_le env bs = (if length bs < 8 then None else Some (le_val (take 8 bs)))) \<and>
     (\<forall>bs. decode_i64_le env bs = (if length bs < 8 then None else Some (as_signed 64 (int (le_val (take 8 bs)))))) \<and>
     (\<forall>n. write_u16_le env n = le_bytes 2 n) \<and>
     (\<forall>n. write_u32_le env n = le_bytes 4 n) \<and>
     (\<forall>t. json_type_from_u8 env (json_type_as_u8 env t) = Some t) \<and>
     (\<forall>off v. off + encoded_len v < 2 ^ 32 \<longrightarrow>
        write_causet_locale_causet env off v = (value_entry env off (ref_val v), off + encoded_len v)) \<and>
     (\<forall>rs. array_size (map ref_val rs) < 2 ^ 32 \<longrightarrow>
        write_json_ref_array env rs = array_layout env (map ref_val rs)) \<and>
     (\<forall>s. length s < 2 ^ 32 \<longrightarrow>
        (\<exists>p. p \<noteq> [] \<and> write_json_str env s = p @ s \<and>
           (\<forall>rest. try_decode_var_u64 env (p @ s @ rest) = Inr (length s, length p))))"

lemma json_env_okD:
  assumes "json_env_ok env"
  shows "decode_u16_le env bs = (if length bs < 2 then None else Some (le_val (take 2 bs)))"
    and "decode_u32_le env bs = (if length bs < 4 then None else Some (le_val (take 4 bs)))"
    and "decode_u64_le env bs = (if length bs < 8 then None else Some (le_val (take 8 bs)))"
    and "decode_i64_le env bs = (if length bs < 8 then None else Some (as_signed 64 (int (le_val (take 8 bs)))))"
    and "write_u16_le env n = le_bytes 2 n" and "write_u32_le env n = le_bytes 4 n"
    and "json_type_from_u8 env (json_type_as_u8 env t) = Some t"
    and "off + encoded_len v < 2 ^ 32 \<Longrightarrow>
      write_causet_locale_causet env off v = (value_entry env off (ref_val v), off + encoded_len v)"
    and "array_size (map ref_val rs) < 2 ^ 32 \<Longrightarrow> write_json_ref_array env rs = array_layout env (map ref_val rs)"
    and "length s < 2 ^ 32 \<Longrightarrow>
      \<exists>p. p \<noteq> [] \<and> write_json_str env s = p @ s \<and> (\<forall>rest. try_decode_var_u64 env (p @ s @ rest) = Inr (length s, length p))"
  using assms unfolding json_env_ok_def by blast+

section \<open>Reading a value entry\<close>

definition val_ok :: "json_env \<Rightarrow> jval \<Rightarrow> bool" where
  "val_ok env v \<longleftrightarrow>
     (case fst v of
        JLiteral \<Rightarrow> (\<exists>b < 256. snd v = [b])
      | JString \<Rightarrow> (\<exists>n h. length (snd v) = n + h \<and> 0 < h \<and> (\<forall>rest. try_decode_var_u64 env (snd v @ rest) = Inr (n, h)))
      | JObject \<Rightarrow> length (snd v) < 2 ^ 32 \<and> (\<exists>a c. length a = 4 \<and> snd v = a @ le_bytes 4 (length (snd v)) @ c)
      | JArray \<Rightarrow> length (snd v) < 2 ^ 32 \<and> (\<exists>a c. length a = 4 \<and> snd v = a @ le_bytes 4 (length (snd v)) @ c)
      | _ \<Rightarrow> length (snd v) = 8)"

lemma drop_at_append: "n = length p \<Longrightarrow> drop_at (p @ q) n = Some q"
  by (simp add: drop_at_def)

lemma slice_at_append: "i = length p \<Longrightarrow> j = length p + length b \<Longrightarrow> slice_at (p @ b @ q) i j = Some b"
  by (simp add: slice_at_def)

lemma decode_u32_append:
  "json_env_ok env \<Longrightarrow> n < 2 ^ 32 \<Longrightarrow> decode_u32_le env (le_bytes 4 n @ rest) = Some n"
  by (simp add: json_env_okD(2) le_val_bytes)

lemma decode_u16_append:
  "json_env_ok env \<Longrightarrow> n < 2 ^ 16 \<Longrightarrow> decode_u16_le env (le_bytes 2 n @ rest) = Some n"
  by (simp add: json_env_okD(1) le_val_bytes)

lemma sub_ref_mid:
  "causet_locale j = p @ b @ q \<Longrightarrow> i = length p \<Longrightarrow> k = length p + length b \<Longrightarrow>
   sub_ref j tp i k = Some \<lparr>type_code = tp, as_ptr = as_ptr j + i, causet_locale = b\<rparr>"
  by (simp add: sub_ref_def slice_at_append)

lemma val_get_literal:
  assumes env: "json_env_ok env" and b: "b < 256"
    and bytes: "causet_locale j = A @ json_type_as_u8 env JLiteral # le_bytes 4 b @ C"
  shows "val_causet_get env j (length A) =
    Some (Inr \<lparr>type_code = JLiteral, as_ptr = as_ptr j + (length A + 1), causet_locale = [b]\<rparr>)"
proof -
  have b4: "le_bytes 4 b = [b] @ le_bytes 3 0" using b le_bytes.simps(2)[of 3 b] by simp
  let ?p = "A @ [json_type_as_u8 env JLiteral]"
  have s: "sub_ref j JLiteral (length A + 1) (length A + 1 + 1) =
      Some \<lparr>type_code = JLiteral, as_ptr = as_ptr j + (length A + 1), causet_locale = [b]\<rparr>"
    by (rule sub_ref_mid[where p = ?p and q = "le_bytes 3 0 @ C"]) (simp_all add: bytes b4)
  have d: "drop_at (causet_locale j) (Suc (length A)) = Some (le_bytes 4 b @ C)"
    by (simp add: bytes drop_at_def)
  have e: "decode_u32_le env (le_bytes 4 b @ C) = Some b" using env b by (intro decode_u32_append) auto
  show ?thesis unfolding val_causet_get_def
    using d e s by (simp add: bytes get_at_mid json_env_okD(7)[OF env])
qed

lemma val_get_stored:
  assumes env: "json_env_ok env" and ok: "val_ok env (t, b)" and t: "t \<noteq> JLiteral"
    and bytes: "causet_locale j = A @ json_type_as_u8 env t # le_bytes 4 off @ C"
    and bytes': "causet_locale j = P @ b @ Q" and off: "off = length P" "off < 2 ^ 32"
  shows "val_causet_get env j (length A) =
    Some (Inr \<lparr>type_code = t, as_ptr = as_ptr j + off, causet_locale = b\<rparr>)"
proof -
  have g: "get_at (causet_locale j) (length A) = Some (json_type_as_u8 env t)" by (simp add: bytes get_at_mid)
  have d: "drop_at (causet_locale j) (Suc (length A)) = Some (le_bytes 4 off @ C)"
    by (simp add: bytes drop_at_def)
  have e: "decode_u32_le env (le_bytes 4 off @ C) = Some off" using env off by (intro decode_u32_append) auto
  have s: "sub_ref j t off (off + length b) = Some \<lparr>type_code = t, as_ptr = as_ptr j + off, causet_locale = b\<rparr>"
    by (rule sub_ref_mid[OF bytes']) (simp_all add: off)
  note unf = val_causet_get_def g d e json_env_okD(7)[OF env]
  show ?thesis
  proof (cases "t = JString")
    case True
    with ok obtain n h where nh: "length b = n + h" and dv: "\<And>rest. try_decode_var_u64 env (b @ rest) = Inr (n, h)"
      by (auto simp: val_ok_def)
    have d': "drop_at (causet_locale j) off = Some (b @ Q)" unfolding bytes' by (rule drop_at_append) (simp add: off)
    show ?thesis using s by (simp add: unf True d' dv try_res_def nh add.assoc)
  next
    case False
    show ?thesis
    proof (cases "t = JObject \<or> t = JArray")
      case True
      with ok obtain a c where a: "length a = 4" and b: "b = a @ le_bytes 4 (length b) @ c" and l: "length b < 2 ^ 32"
        by (auto simp: val_ok_def)
      have "causet_locale j = (P @ a) @ (le_bytes 4 (length b) @ c @ Q)" unfolding bytes' by (subst b) simp
      then have d': "drop_at (causet_locale j) (off + 4) = Some (le_bytes 4 (length b) @ c @ Q)"
        by (simp only: drop_at_append[where p = "P @ a"] length_append a off(1))
      have e': "decode_u32_le env (le_bytes 4 (length b) @ c @ Q) = Some (length b)"
        using env l by (intro decode_u32_append) auto
      show ?thesis using True s by (auto simp: unf d' e')
    next
      case F2: False
      then have "t = JI64 \<or> t = JU64 \<or> t = JDouble" using t False by (cases t) auto
      then show ?thesis using ok s by (auto simp: unf val_ok_def)
    qed
  qed
qed

section \<open>Reading the elements of a layout\<close>

lemma length_value_entry [simp]: "length (value_entry env off v) = 5"
  by (simp add: value_entry_def)

lemma length_value_entries [simp]: "length (value_entries env off vs) = 5 * length vs"
  by (induction vs arbitrary: off) auto

lemma length_key_entries [simp]: "length (key_entries off ks) = 6 * length ks"
  by (induction ks arbitrary: off) auto

lemma stored_all_simps [simp]:
  "stored_all [] = []" "stored_all (v # vs) = stored v @ stored_all vs"
  "stored_all (vs @ ws) = stored_all vs @ stored_all ws"
  by (simp_all add: stored_all_def)

lemma value_entries_append:
  "value_entries env off (vs @ ws) = value_entries env off vs @ value_entries env (off + length (stored_all vs)) ws"
  by (induction vs arbitrary: off) (simp_all add: add.assoc)

lemma key_entries_append:
  "key_entries off (ks @ ls) = key_entries off ks @ key_entries (off + length (concat ks)) ls"
  by (induction ks arbitrary: off) (simp_all add: add.assoc)

text \<open>Where the \<open>i\<close>th value of a container lies: in its entry, or behind the entries.\<close>

definition elem_pos :: "nat \<Rightarrow> nat \<Rightarrow> jval list \<Rightarrow> nat \<Rightarrow> nat" where
  "elem_pos pre off vs i =
     (if fst (vs ! i) = JLiteral then pre + 5 * i + 1 else off + length (stored_all (take i vs)))"

lemma val_get_nth:
  assumes env: "json_env_ok env" and i: "i < length vs" and ok: "\<And>v. v \<in> set vs \<Longrightarrow> val_ok env v"
    and bytes: "causet_locale j = pre @ value_entries env off vs @ mid @ stored_all vs"
    and off: "off = length pre + 5 * length vs + length mid"
    and fits: "off + length (stored_all vs) < 2 ^ 32"
  shows "val_causet_get env j (length pre + 5 * i) =
    Some (Inr \<lparr>type_code = fst (vs ! i), as_ptr = as_ptr j + elem_pos (length pre) off vs i, causet_locale = snd (vs ! i)\<rparr>)"
proof -
  define as v bs where "as = take i vs" and "v = vs ! i" and "bs = drop (Suc i) vs"
  have vs: "vs = as @ v # bs" using i by (simp add: as_def v_def bs_def id_take_nth_drop)
  have la: "length as = i" using i by (simp add: as_def)
  let ?off = "off + length (stored_all as)"
  let ?A = "pre @ value_entries env off as"
  let ?C = "value_entries env (?off + length (stored v)) bs @ mid @ stored_all vs"
  have A: "causet_locale j = ?A @ value_entry env ?off v @ ?C"
    unfolding bytes by (simp add: vs value_entries_append)
  have lA: "length ?A = length pre + 5 * i" by (simp add: la)
  have v: "val_ok env v" using ok[of v] vs by simp
  show ?thesis
  proof (cases "fst v = JLiteral")
    case True
    with v obtain b where b: "b < 256" "v = (JLiteral, [b])" by (cases v) (auto simp: val_ok_def)
    have "causet_locale j = ?A @ json_type_as_u8 env JLiteral # le_bytes 4 b @ ?C"
      unfolding A by (simp add: value_entry_def b)
    from val_get_literal[OF env b(1) this] show ?thesis
      unfolding lA by (simp add: elem_pos_def b(2)[unfolded v_def])
  next
    case False
    have B: "causet_locale j = ?A @ json_type_as_u8 env (fst v) # le_bytes 4 ?off @ ?C"
      unfolding A using False by (simp add: value_entry_def)
    let ?P = "pre @ value_entries env off vs @ mid @ stored_all as"
    have P: "causet_locale j = ?P @ snd v @ stored_all bs"
      unfolding bytes using False by (simp add: vs stored_def)
    have lP: "?off = length ?P" using off by simp
    have lt: "?off < 2 ^ 32" using fits by (simp add: vs)
    have vv: "val_ok env (fst v, snd v)" using v by simp
    from val_get_stored[OF env vv False B P lP lt] show ?thesis
      unfolding lA using False by (simp add: elem_pos_def v_def as_def)
  qed
qed

end
