(* ===== verification/Json_Correct.thy ===== *)
theory Json_Correct
  imports Json_Layout
begin

text \<open>
  JSON documents as trees and the operations of \<open>Json\<close> on their encodings: elements, keys, the
  binary search, the object writer, selection by a path, depth and length.
\<close>

section \<open>Documents\<close>

datatype doc =
    DNull
  | DBool bool
  | DInt int
  | DUint nat
  | DDbl "nat list"
  | DStr "nat list"
  | DArr "doc list"
  | DObj "(nat list \<times> doc) list"

primrec doc_type :: "doc \<Rightarrow> json_type" where
  "doc_type DNull = JLiteral"
| "doc_type (DBool b) = JLiteral"
| "doc_type (DInt i) = JI64"
| "doc_type (DUint n) = JU64"
| "doc_type (DDbl bs) = JDouble"
| "doc_type (DStr s) = JString"
| "doc_type (DArr ds) = JArray"
| "doc_type (DObj kvs) = JObject"

fun enc :: "json_env \<Rightarrow> doc \<Rightarrow> nat list" where
  "enc env DNull = [JSON_LITERAL_NIL]"
| "enc env (DBool b) = [if b then JSON_LITERAL_TRUE else JSON_LITERAL_FALSE]"
| "enc env (DInt i) = le_bytes 8 (as_unsigned 64 i)"
| "enc env (DUint n) = le_bytes 8 n"
| "enc env (DDbl bs) = bs"
| "enc env (DStr s) = write_json_str env s"
| "enc env (DArr ds) = array_layout env (map (\<lambda>d. (doc_type d, enc env d)) ds)"
| "enc env (DObj kvs) = object_layout env (map (\<lambda>(k, d). (k, doc_type d, enc env d)) kvs)"

definition doc_val :: "json_env \<Rightarrow> doc \<Rightarrow> jval" where
  "doc_val env d = (doc_type d, enc env d)"

definition member_val :: "json_env \<Rightarrow> nat list \<times> doc \<Rightarrow> nat list \<times> jval" where
  "member_val env kd = (fst kd, doc_val env (snd kd))"

definition doc_ref :: "json_env \<Rightarrow> nat \<Rightarrow> doc \<Rightarrow> json_ref" where
  "doc_ref env p d = \<lparr>type_code = doc_type d, as_ptr = p, causet_locale = enc env d\<rparr>"

text \<open>
  The documents the format can hold: numbers of their width, containers of less than four
  gigabytes, keys of less than 64 kilobytes in strictly ascending order.
\<close>

fun doc_ok :: "json_env \<Rightarrow> doc \<Rightarrow> bool" where
  "doc_ok env DNull \<longleftrightarrow> True"
| "doc_ok env (DBool b) \<longleftrightarrow> True"
| "doc_ok env (DInt i) \<longleftrightarrow> in_signed 64 i"
| "doc_ok env (DUint n) \<longleftrightarrow> n < 2 ^ 64"
| "doc_ok env (DDbl bs) \<longleftrightarrow> length bs = 8"
| "doc_ok env (DStr s) \<longleftrightarrow> length s < 2 ^ 32"
| "doc_ok env (DArr ds) \<longleftrightarrow> array_size (map (doc_val env) ds) < 2 ^ 32 \<and> (\<forall>d\<in>set ds. doc_ok env d)"
| "doc_ok env (DObj kvs) \<longleftrightarrow>
     object_size (map (member_val env) kvs) < 2 ^ 32 \<and> sorted_wrt (<) (map fst kvs) \<and>
     (\<forall>(k, d)\<in>set kvs. length k < 2 ^ 16 \<and> doc_ok env d)"

lemma enc_Arr: "enc env (DArr ds) = array_layout env (map (doc_val env) ds)"
  by (simp add: doc_val_def[abs_def])

lemma enc_Obj: "enc env (DObj kvs) = object_layout env (map (member_val env) kvs)"
  by (simp add: member_val_def[abs_def] doc_val_def case_prod_unfold)

declare enc.simps(7,8) [simp del]

lemma member_val_simps [simp]: "fst (member_val env kd) = fst kd" "snd (member_val env kd) = doc_val env (snd kd)"
  by (simp_all add: member_val_def)

lemma doc_val_simps [simp]: "fst (doc_val env d) = doc_type d" "snd (doc_val env d) = enc env d"
  by (simp_all add: doc_val_def)

lemma map_member_val:
  "map fst (map (member_val env) kvs) = map fst kvs" "map snd (map (member_val env) kvs) = map (doc_val env) (map snd kvs)"
  by simp_all

lemma length_array_layout: "length (array_layout env vs) = array_size vs"
  by (simp add: array_layout_def array_size_def)

lemma length_object_layout: "length (object_layout env kvs) = object_size kvs"
  by (simp add: object_layout_def object_size_def)

lemma doc_val_ok:
  assumes env: "json_env_ok env" and d: "doc_ok env d"
  shows "val_ok env (doc_val env d)"
proof (cases d)
  case (DStr s)
  with d have "length s < 2 ^ 32" by simp
  with json_env_okD(10)[OF env] obtain p where
    "p \<noteq> []" "write_json_str env s = p @ s" "\<And>rest. try_decode_var_u64 env (p @ s @ rest) = Inr (length s, length p)" by blast
  then show ?thesis by (auto simp: val_ok_def DStr)
next
  case (DArr ds)
  let ?vs = "map (doc_val env) ds"
  have "array_layout env ?vs = le_bytes 4 (length ?vs) @ le_bytes 4 (array_size ?vs) @ (value_entries env (8 + 5 * length ?vs) ?vs @ stored_all ?vs)"
    by (simp add: array_layout_def)
  moreover have "array_size ?vs < 2 ^ 32" using d DArr by simp
  ultimately show ?thesis unfolding val_ok_def DArr doc_val_simps enc_Arr length_array_layout doc_type.simps json_type.case
    by (blast intro: length_le_bytes)
next
  case (DObj kvs)
  let ?vs = "map (member_val env) kvs"
  obtain c where "object_layout env ?vs = le_bytes 4 (length ?vs) @ le_bytes 4 (object_size ?vs) @ c"
    by (simp add: object_layout_def)
  moreover have "object_size ?vs < 2 ^ 32" using d DObj by simp
  ultimately show ?thesis unfolding val_ok_def DObj doc_val_simps enc_Obj length_object_layout doc_type.simps json_type.case
    by (blast intro: length_le_bytes)
qed (use d in \<open>auto simp: val_ok_def\<close>)

section \<open>Elements\<close>

primrec children :: "doc \<Rightarrow> doc list" where
  "children DNull = []"
| "children (DBool b) = []"
| "children (DInt i) = []"
| "children (DUint n) = []"
| "children (DDbl bs) = []"
| "children (DStr s) = []"
| "children (DArr ds) = ds"
| "children (DObj kvs) = map snd kvs"

definition child_pos :: "json_env \<Rightarrow> doc \<Rightarrow> nat \<Rightarrow> nat" where
  "child_pos env d i =
     (case d of
        DArr ds \<Rightarrow> elem_pos 8 (8 + 5 * length ds) (map (doc_val env) ds) i
      | DObj kvs \<Rightarrow> elem_pos (8 + 6 * length kvs) (8 + 11 * length kvs + length (concat (map fst kvs)))
                    (map (doc_val env) (map snd kvs)) i
      | _ \<Rightarrow> 0)"

definition child_ref :: "json_env \<Rightarrow> nat \<Rightarrow> doc \<Rightarrow> nat \<Rightarrow> json_ref" where
  "child_ref env p d i = doc_ref env (p + child_pos env d i) (children d ! i)"

lemma doc_ok_children: "doc_ok env d \<Longrightarrow> c \<in> set (children d) \<Longrightarrow> doc_ok env c"
  by (cases d) auto

lemma doc_ref_simps [simp]:
  "type_code (doc_ref env p d) = doc_type d" "as_ptr (doc_ref env p d) = p" "causet_locale (doc_ref env p d) = enc env d"
  by (simp_all add: doc_ref_def)

lemma elem_count_doc:
  assumes env: "json_env_ok env" and d: "doc_ok env d" and c: "doc_type d = JArray \<or> doc_type d = JObject"
  shows "get_elem_count env (doc_ref env p d) = Some (length (children d))"
proof -
  from c consider ds where "d = DArr ds" | kvs where "d = DObj kvs" by (cases d) auto
  then show ?thesis
  proof cases
    case 1
    then have "length ds < 2 ^ 32" using d by (simp add: array_size_def)
    then show ?thesis using decode_u32_append[OF env] by (simp add: 1 get_elem_count_def enc_Arr array_layout_def)
  next
    case 2
    then have "length kvs < 2 ^ 32" using d by (simp add: object_size_def)
    then show ?thesis using decode_u32_append[OF env] by (simp add: 2 get_elem_count_def enc_Obj object_layout_def)
  qed
qed

lemma val_get_doc:
  assumes env: "json_env_ok env" and ds: "\<forall>d\<in>set ds. doc_ok env d" and i: "i < length ds"
    and bytes: "causet_locale j = pre @ value_entries env off (map (doc_val env) ds) @ mid @ stored_all (map (doc_val env) ds)"
    and off: "off = length pre + 5 * length ds + length mid"
    and fits: "off + length (stored_all (map (doc_val env) ds)) < 2 ^ 32"
    and at: "n = length pre + 5 * i"
  shows "val_causet_get env j n =
    Some (Inr (doc_ref env (as_ptr j + elem_pos (length pre) off (map (doc_val env) ds) i) (ds ! i)))"
proof -
  have ok: "\<And>v. v \<in> set (map (doc_val env) ds) \<Longrightarrow> val_ok env v" using ds doc_val_ok[OF env] by auto
  from val_get_nth[OF env _ ok bytes _ fits, of i] i off show ?thesis by (simp add: doc_ref_def at)
qed

lemma array_elem_doc:
  assumes env: "json_env_ok env" and d: "doc_ok env (DArr ds)" and i: "i < length ds"
  shows "array_get_elem env (doc_ref env p (DArr ds)) i = Some (Inr (child_ref env p (DArr ds) i))"
proof -
  let ?vs = "map (doc_val env) ds"
  let ?pre = "le_bytes 4 (length ds) @ le_bytes 4 (array_size ?vs)"
  have "val_causet_get env (doc_ref env p (DArr ds)) (8 + i * 5) =
      Some (Inr (doc_ref env (as_ptr (doc_ref env p (DArr ds)) + elem_pos (length ?pre) (8 + 5 * length ds) ?vs i) (ds ! i)))"
    by (rule val_get_doc[OF env _ i, where mid = "[]"]) (use d in \<open>auto simp: enc_Arr array_layout_def array_size_def\<close>)
  then show ?thesis by (simp add: array_get_elem_def child_ref_def child_pos_def)
qed

lemma object_val_doc:
  assumes env: "json_env_ok env" and d: "doc_ok env (DObj kvs)" and i: "i < length kvs"
  shows "object_get_val env (doc_ref env p (DObj kvs)) i = Some (Inr (child_ref env p (DObj kvs) i))"
proof -
  let ?ds = "map snd kvs" and ?ms = "map (member_val env) kvs" and ?ks = "map fst kvs"
  let ?pre = "le_bytes 4 (length kvs) @ le_bytes 4 (object_size ?ms) @ key_entries (8 + 11 * length kvs) ?ks"
  have v: "val_causet_get env (doc_ref env p (DObj kvs)) (8 + length kvs * 6 + i * 5) =
      Some (Inr (doc_ref env (as_ptr (doc_ref env p (DObj kvs))
        + elem_pos (length ?pre) (8 + 11 * length kvs + length (concat ?ks)) (map (doc_val env) ?ds) i) (?ds ! i)))"
  proof (rule val_get_doc[OF env, where mid = "concat ?ks"])
    show "causet_locale (doc_ref env p (DObj kvs)) =
        ?pre @ value_entries env (8 + 11 * length kvs + length (concat ?ks)) (map (doc_val env) ?ds)
        @ concat ?ks @ stored_all (map (doc_val env) ?ds)"
      unfolding doc_ref_simps enc_Obj object_layout_def map_member_val by simp
    show "8 + 11 * length kvs + length (concat ?ks) + length (stored_all (map (doc_val env) ?ds)) < 2 ^ 32"
      using d unfolding doc_ok.simps object_size_def map_member_val by simp
  qed (use d i in auto)
  have "get_elem_count env (doc_ref env p (DObj kvs)) = Some (length kvs)"
    using elem_count_doc[OF env d] by simp
  with v show ?thesis using i by (simp add: object_get_val_def child_ref_def child_pos_def)
qed

lemma object_key_entry:
  assumes env: "json_env_ok env" and d: "doc_ok env (DObj kvs)" and i: "i < length kvs"
    and off: "off = 8 + 11 * length kvs + length (concat (take i (map fst kvs)))"
  obtains T U where "drop_at (enc env (DObj kvs)) (8 + i * 6) = Some (le_bytes 4 off @ T)"
    and "drop_at (enc env (DObj kvs)) (8 + i * 6 + 4) = Some (le_bytes 2 (length (fst (kvs ! i))) @ U)"
    and "slice_at (enc env (DObj kvs)) off (off + length (fst (kvs ! i))) = Some (fst (kvs ! i))"
    and "off < 2 ^ 32" and "length (fst (kvs ! i)) < 2 ^ 16"
proof -
  let ?ks = "map fst kvs" and ?ms = "map (member_val env) kvs"
  define as k bs where "as = take i ?ks" and "k = fst (kvs ! i)" and "bs = drop (Suc i) ?ks"
  have ks: "?ks = as @ k # bs" using i id_take_nth_drop[of i ?ks] by (simp add: as_def k_def bs_def)
  have la: "length as = i" using i by (simp add: as_def)
  let ?n = "8 + 11 * length kvs"
  let ?off = "?n + length (concat as)"
  let ?H = "le_bytes 4 (length kvs) @ le_bytes 4 (object_size ?ms)"
  let ?V = "value_entries env (?n + length (concat ?ks)) (map (doc_val env) (map snd kvs))"
  let ?S = "stored_all (map (doc_val env) (map snd kvs))"
  let ?A = "?H @ key_entries ?n as"
  let ?T = "key_entries (?off + length k) bs @ ?V @ concat ?ks @ ?S"
  have B: "enc env (DObj kvs) = ?A @ le_bytes 4 ?off @ le_bytes 2 (length k) @ ?T"
    unfolding enc_Obj object_layout_def map_member_val by (simp add: ks key_entries_append)
  let ?P = "?H @ key_entries ?n ?ks @ ?V @ concat as"
  have P: "enc env (DObj kvs) = ?P @ k @ (concat bs @ ?S)"
    unfolding enc_Obj object_layout_def map_member_val by (simp add: ks)
  have lens: "length ?A = 8 + i * 6" "length ?P = ?off" by (simp_all add: la)
  have lt: "?off < 2 ^ 32"
  proof -
    have "length (concat as) \<le> length (concat ?ks)" unfolding ks by simp
    then show ?thesis using d unfolding doc_ok.simps object_size_def map_member_val by simp
  qed
  have d1: "drop_at (enc env (DObj kvs)) (8 + i * 6) = Some (le_bytes 4 ?off @ le_bytes 2 (length k) @ ?T)"
    unfolding B by (rule drop_at_append) (simp add: la)
  have d2: "drop_at (enc env (DObj kvs)) (8 + i * 6 + 4) = Some (le_bytes 2 (length k) @ ?T)"
    unfolding B by (subst append_assoc[symmetric], rule drop_at_append) (simp add: la)
  have s: "slice_at (enc env (DObj kvs)) ?off (?off + length k) = Some k"
    unfolding P by (rule slice_at_append) (simp_all only: lens)
  have kl: "length k < 2 ^ 16" using d nth_mem[OF i] by (auto simp: k_def)
  show thesis using that d1 d2 s lt kl off unfolding k_def as_def by blast
qed

lemma object_key_doc:
  assumes env: "json_env_ok env" and d: "doc_ok env (DObj kvs)" and i: "i < length kvs"
  shows "object_get_soliton_id env (doc_ref env p (DObj kvs)) i = Some (fst (kvs ! i))"
proof (rule object_key_entry[OF env d i refl])
  let ?off = "8 + 11 * length kvs + length (concat (take i (map fst kvs)))"
  fix T U
  assume "drop_at (enc env (DObj kvs)) (8 + i * 6) = Some (le_bytes 4 ?off @ T)"
    and "drop_at (enc env (DObj kvs)) (8 + i * 6 + 4) = Some (le_bytes 2 (length (fst (kvs ! i))) @ U)"
    and "slice_at (enc env (DObj kvs)) ?off (?off + length (fst (kvs ! i))) = Some (fst (kvs ! i))"
    and "?off < 2 ^ 32" "length (fst (kvs ! i)) < 2 ^ 16"
  then show ?thesis unfolding object_get_soliton_id_def
    using decode_u32_append[OF env] decode_u16_append[OF env] by simp
qed

section \<open>The binary search\<close>

lemma cmp_bytes_lex: "cmp_bytes a b = cmp_val a b"
  by (induction a b rule: cmp_bytes.induct) (auto simp: cmp_val_def)

definition key_index :: "(nat list \<times> doc) list \<Rightarrow> nat list \<Rightarrow> nat option" where
  "key_index kvs k = find (\<lambda>i. fst (kvs ! i) = k) [0..<length kvs]"

lemma search_loop_doc:
  assumes env: "json_env_ok env" and d: "doc_ok env (DObj kvs)"
    and "i \<le> j" "j \<le> length kvs"
    and "\<And>m. m < i \<Longrightarrow> fst (kvs ! m) < k" and "\<And>m. j \<le> m \<Longrightarrow> m < length kvs \<Longrightarrow> k \<le> fst (kvs ! m)"
  shows "\<exists>r \<le> length kvs. search_loop env (doc_ref env p (DObj kvs)) k i j = Some r \<and>
    (\<forall>m<r. fst (kvs ! m) < k) \<and> (\<forall>m. r \<le> m \<longrightarrow> m < length kvs \<longrightarrow> k \<le> fst (kvs ! m))"
  using assms(3-)
proof (induction "j - i" arbitrary: i j rule: less_induct)
  case less
  have sorted: "\<And>a b. a < b \<Longrightarrow> b < length kvs \<Longrightarrow> fst (kvs ! a) < fst (kvs ! b)"
    using d by (simp add: sorted_wrt_iff_nth_less)
  show ?case
  proof (cases "i < j")
    case False
    then have "search_loop env (doc_ref env p (DObj kvs)) k i j = Some i" by (subst search_loop.simps) simp
    then show ?thesis using less.prems False by auto
  next
    case True
    let ?m = "(i + j) div 2"
    have m: "i \<le> ?m" "?m < j" "?m < length kvs" using True less.prems by auto
    have key: "object_get_soliton_id env (doc_ref env p (DObj kvs)) ?m = Some (fst (kvs ! ?m))"
      by (rule object_key_doc[OF env d m(3)])
    show ?thesis
    proof (cases "fst (kvs ! ?m) < k")
      case T: True
      have "\<And>n. n < ?m + 1 \<Longrightarrow> fst (kvs ! n) < k"
        using sorted[OF _ m(3)] T less_trans by (metis less_antisym Suc_eq_plus1)
      then show ?thesis using less.hyps[of j "?m + 1"] less.prems m T True key
        by (simp add: search_loop.simps[of _ _ _ i j] cmp_bytes_lex)
    next
      case F: False
      have "\<And>n. ?m \<le> n \<Longrightarrow> n < length kvs \<Longrightarrow> k \<le> fst (kvs ! n)"
      proof -
        fix n assume n: "?m \<le> n" "n < length kvs"
        have "fst (kvs ! ?m) \<le> fst (kvs ! n)" using sorted[of ?m n] n by (cases "?m = n") auto
        then show "k \<le> fst (kvs ! n)" using F by auto
      qed
      then show ?thesis using less.hyps[of ?m i] less.prems m F True key
        by (simp add: search_loop.simps[of _ _ _ i j] cmp_bytes_lex)
    qed
  qed
qed

lemma key_index_unique:
  assumes "sorted_wrt (<) (map fst kvs)" "i < length kvs" "fst (kvs ! i) = k"
  shows "key_index kvs k = Some i"
proof -
  have d: "distinct (map fst kvs)" using assms(1) by (simp add: strict_sorted_iff)
  show ?thesis unfolding key_index_def find_Some_iff
    using assms d by (auto intro!: exI[of _ i]) (metis (no_types, lifting) length_map less_trans nat_neq_iff nth_eq_iff_index_eq nth_map)
qed

lemma key_index_None: "(\<And>i. i < length kvs \<Longrightarrow> fst (kvs ! i) \<noteq> k) \<Longrightarrow> key_index kvs k = None"
  by (auto simp: key_index_def find_None_iff)

lemma search_doc:
  assumes env: "json_env_ok env" and d: "doc_ok env (DObj kvs)"
  shows "object_search_soliton_id env (doc_ref env p (DObj kvs)) k = Some (key_index kvs k)"
proof -
  obtain r where r: "r \<le> length kvs" "search_loop env (doc_ref env p (DObj kvs)) k 0 (length kvs) = Some r"
    and lt: "\<And>m. m < r \<Longrightarrow> fst (kvs ! m) < k" and ge: "\<And>m. r \<le> m \<Longrightarrow> m < length kvs \<Longrightarrow> k \<le> fst (kvs ! m)"
    using search_loop_doc[OF env d, of 0 "length kvs" k p] by auto
  have cnt: "get_elem_count env (doc_ref env p (DObj kvs)) = Some (length kvs)"
    using elem_count_doc[OF env d] by simp
  have sw: "sorted_wrt (<) (map fst kvs)" using d by simp
  consider "r < length kvs" "fst (kvs ! r) = k" | "r < length kvs" "fst (kvs ! r) \<noteq> k" | "r = length kvs"
    using r(1) by linarith
  then show ?thesis
  proof cases
    case 1
    then show ?thesis using r cnt object_key_doc[OF env d 1(1)] key_index_unique[OF sw 1]
      by (simp add: object_search_soliton_id_def)
  next
    case 2
    have "fst (kvs ! i) \<noteq> k" if "i < length kvs" for i
    proof -
      consider "i < r" | "i = r" | "r < i" by linarith
      then show ?thesis
      proof cases
        case 3
        then have "fst (kvs ! r) < fst (kvs ! i)" using sw that by (simp add: sorted_wrt_iff_nth_less)
        then show ?thesis using ge[of r] 2 by auto
      qed (use lt 2 in auto)
    qed
    then show ?thesis using 2 r cnt object_key_doc[OF env d 2(1)] key_index_None[of kvs k]
      by (simp add: object_search_soliton_id_def)
  next
    case 3
    then have "key_index kvs k = None" using lt by (intro key_index_None) auto
    then show ?thesis using 3 r cnt by (simp add: object_search_soliton_id_def)
  qed
qed

section \<open>Selection\<close>

text \<open>What a path selects, and the positions of the selected nodes.\<close>

primrec doc_select :: "doc \<Rightarrow> path_leg list \<Rightarrow> doc list" where
  "doc_select d [] = [d]"
| "doc_select d (leg # ls) =
     (case leg of
        Index i \<Rightarrow>
          (case d of
             DArr ds \<Rightarrow> if i = -1 then concat (map (\<lambda>c. doc_select c ls) ds)
                       else if 0 \<le> i \<and> nat i < length ds then doc_select (ds ! nat i) ls else []
           | _ \<Rightarrow> if i = 0 then doc_select d ls else [])
      | Key k \<Rightarrow>
          (case d of
             DObj kvs \<Rightarrow> if k = [42] then concat (map (\<lambda>kd. doc_select (snd kd) ls) kvs)
                        else (case map_of kvs k of Some c \<Rightarrow> doc_select c ls | None \<Rightarrow> [])
           | _ \<Rightarrow> [])
      | DoubleAsterisk \<Rightarrow> doc_select d ls @ concat (map (\<lambda>c. doc_select c ls) (children d)))"

definition self_selected :: "doc \<Rightarrow> path_leg \<Rightarrow> bool" where
  "self_selected d leg =
     (case leg of Index i \<Rightarrow> doc_type d \<noteq> JArray \<and> i = 0 | Key _ \<Rightarrow> False | DoubleAsterisk \<Rightarrow> True)"

definition selected_children :: "doc \<Rightarrow> path_leg \<Rightarrow> nat list" where
  "selected_children d leg =
     (case leg of
        Index i \<Rightarrow>
          (case d of
             DArr ds \<Rightarrow> if i = -1 then [0..<length ds]
                       else if 0 \<le> i \<and> nat i < length ds then [nat i] else []
           | _ \<Rightarrow> [])
      | Key k \<Rightarrow>
          (case d of
             DObj kvs \<Rightarrow> if k = [42] then [0..<length kvs]
                        else (case key_index kvs k of Some i \<Rightarrow> [i] | None \<Rightarrow> [])
           | _ \<Rightarrow> [])
      | DoubleAsterisk \<Rightarrow> [0..<length (children d)])"

primrec select_pos :: "doc \<Rightarrow> path_leg list \<Rightarrow> nat list list" where
  "select_pos d [] = [[]]"
| "select_pos d (leg # ls) =
     (if self_selected d leg then select_pos d ls else [])
     @ concat (map (\<lambda>i. map ((#) i) (select_pos (children d ! i) ls)) (selected_children d leg))"

fun doc_at :: "doc \<Rightarrow> nat list \<Rightarrow> doc" where
  "doc_at d [] = d"
| "doc_at d (i # pos) = doc_at (children d ! i) pos"

fun node :: "json_env \<Rightarrow> nat \<Rightarrow> doc \<Rightarrow> nat list \<Rightarrow> json_ref" where
  "node env p d [] = doc_ref env p d"
| "node env p d (i # pos) = node env (p + child_pos env d i) (children d ! i) pos"

lemma node_val: "ref_val (node env p d pos) = doc_val env (doc_at d pos)"
  by (induction env p d pos rule: node.induct) (simp_all add: ref_val_def doc_val_def)

lemma map_concat_nth: "concat (map (\<lambda>i. f (xs ! i)) [0..<length xs]) = concat (map f xs)"
proof -
  have "map (\<lambda>i. f (xs ! i)) [0..<length xs] = map f xs" by (rule nth_equalityI) auto
  then show ?thesis by simp
qed

lemma key_index_SomeD: "key_index kvs k = Some i \<Longrightarrow> i < length kvs \<and> fst (kvs ! i) = k"
  by (auto simp: key_index_def find_Some_iff)

lemma key_index_map_of:
  "map_of kvs k = map_option (\<lambda>i. snd (kvs ! i)) (key_index kvs k)"
proof -
  have "find (\<lambda>i. fst (kvs ! i) = k) [0..<length kvs] = None \<Longrightarrow> map_of kvs k = None"
    by (auto simp: find_None_iff map_of_eq_None_iff in_set_conv_nth) (metis fst_conv)
  moreover have "map_of kvs k = Some (snd (kvs ! i))" if "find (\<lambda>i. fst (kvs ! i) = k) [0..<length kvs] = Some i" for i
  proof -
    have "i < length kvs" "fst (kvs ! i) = k" "\<And>j. j < i \<Longrightarrow> fst (kvs ! j) \<noteq> k"
      using that by (auto simp: find_Some_iff)
    then show ?thesis
    proof (induction kvs arbitrary: i)
      case (Cons kd kvs)
      show ?case
      proof (cases i)
        case (Suc n)
        then have "fst kd \<noteq> k" using Cons.prems(3)[of 0] by simp
        moreover have "map_of kvs k = Some (snd (kvs ! n))"
          using Cons.prems Suc by (intro Cons.IH) (auto, metis Suc_mono nth_Cons_Suc)
        ultimately show ?thesis using Suc by (cases kd) simp
      qed (use Cons.prems in \<open>cases kd, simp\<close>)
    qed simp
  qed
  ultimately show ?thesis unfolding key_index_def by (cases "find (\<lambda>i. fst (kvs ! i) = k) [0..<length kvs]") auto
qed

lemma doc_select_pos: "doc_select d ls = map (doc_at d) (select_pos d ls)"
proof (induction ls arbitrary: d)
  case (Cons leg ls)
  have sub: "map (doc_at d) (concat (map (\<lambda>i. map ((#) i) (select_pos (children d ! i) ls)) is)) =
      concat (map (\<lambda>i. doc_select (children d ! i) ls) is)" for "is"
    by (simp add: map_concat o_def Cons)
  show ?case
  proof (cases leg)
    case (Index i)
    then show ?thesis unfolding select_pos.simps map_append sub
      by (cases d) (auto simp: self_selected_def selected_children_def Cons[symmetric] map_concat_nth[of "\<lambda>c. doc_select c ls"])
  next
    case (Key k)
    then show ?thesis unfolding select_pos.simps map_append sub
      by (cases d) (auto simp: self_selected_def selected_children_def key_index_map_of
          map_concat_nth[of "\<lambda>kd. doc_select (snd kd) ls", symmetric]
          split: option.splits dest: key_index_SomeD intro!: arg_cong[where f = concat])
  next
    case DoubleAsterisk
    then show ?thesis unfolding select_pos.simps map_append sub
      by (simp add: self_selected_def selected_children_def Cons[symmetric] map_concat_nth[of "\<lambda>c. doc_select c ls"])
  qed
qed simp

end
