(* ===== verification/Json_Query.thy ===== *)
theory Json_Query
  imports Json_Correct "HOL-Library.Multiset"
begin

text \<open>
  What the read operations return on the encoding of a document: selection by paths, length, depth
  and keys; and what the object writer writes.
\<close>

section \<open>Loops over elements\<close>

lemma and_then_ok [simp]: "and_then (Some (Inr x)) f = f x"
  by (simp add: and_then_def try_res_def)

lemma try_each_ok: "(\<And>x. x \<in> set xs \<Longrightarrow> f x = Some (Inr (g x))) \<Longrightarrow> try_each f xs = Some (Inr (map g xs))"
  by (induction xs) (simp_all add: try_res_def)

lemma collect_each_ok:
  "(\<And>x. x \<in> set xs \<Longrightarrow> f x = Some (Inr (g x))) \<Longrightarrow> collect_each f xs = Some (Inr (concat (map g xs)))"
  using try_each_ok[of xs f g] by (simp add: collect_each_def)

section \<open>Selection\<close>

definition legs_ok :: "path_leg list \<Rightarrow> bool" where
  "legs_ok ls \<longleftrightarrow> (\<forall>i. Index i \<in> set ls \<longrightarrow> in_signed 32 i)"

lemma legs_ok_simps [simp]:
  "legs_ok []" "legs_ok (leg # ls) \<longleftrightarrow> (\<forall>i. leg = Index i \<longrightarrow> in_signed 32 i) \<and> legs_ok ls"
  by (auto simp: legs_ok_def)

lemma as_unsigned_index:
  assumes "in_signed 32 i"
  shows "as_unsigned 64 i = (if 0 \<le> i then nat i else nat (i + 2 ^ 64))"
proof (cases "0 \<le> i")
  case True
  then show ?thesis using assms by (simp add: as_unsigned_def in_signed_def)
next
  case False
  have "i mod 2 ^ 64 = (i + 2 ^ 64) mod 2 ^ 64" by simp
  also have "\<dots> = i + 2 ^ 64" using assms False by (intro mod_pos_pos_trivial) (auto simp: in_signed_def)
  finally show ?thesis using False by (simp add: as_unsigned_def)
qed

lemma as_unsigned_less:
  assumes "in_signed 32 i" "n < 2 ^ 32"
  shows "as_unsigned 64 i < n \<longleftrightarrow> 0 \<le> i \<and> nat i < n" "as_unsigned 64 i = 0 \<longleftrightarrow> i = 0"
  using assms by (auto simp: as_unsigned_index in_signed_def nat_less_iff)

lemma children_bound:
  assumes "doc_ok env d" shows "length (children d) < 2 ^ 32"
  using assms by (cases d) (auto simp: array_size_def object_size_def)

text \<open>One step: selecting a child and going on from there.\<close>

definition child_step :: "json_env \<Rightarrow> json_ref \<Rightarrow> nat \<Rightarrow> json_ref fresult option" where
  "child_step env j = (if type_code j = JArray then array_get_elem env j else object_get_val env j)"

lemma child_step_doc:
  assumes "json_env_ok env" "doc_ok env d" "i < length (children d)"
  shows "child_step env (doc_ref env p d) i = Some (Inr (child_ref env p d i))"
  using assms by (cases d) (auto simp: child_step_def array_elem_doc object_val_doc)

lemma child_steps_doc:
  assumes env: "json_env_ok env" and d: "doc_ok env d" and js: "\<forall>i\<in>set is. i < length (children d)"
    and IH: "\<And>c q. doc_ok env c \<Longrightarrow> extract_json env (doc_ref env q c) ls = Some (Inr (map (node env q c) (select_pos c ls)))"
  shows "collect_each (\<lambda>k. and_then (child_step env (doc_ref env p d) k) (\<lambda>e. extract_json env e ls)) is =
    Some (Inr (map (node env p d) (concat (map (\<lambda>i. map ((#) i) (select_pos (children d ! i) ls)) is))))"
proof -
  have "and_then (child_step env (doc_ref env p d) k) (\<lambda>e. extract_json env e ls) =
      Some (Inr (map (node env p d) (map ((#) k) (select_pos (children d ! k) ls))))" if "k \<in> set is" for k
  proof -
    have k: "k < length (children d)" using js that by blast
    then have "doc_ok env (children d ! k)" using doc_ok_children[OF d] by simp
    from IH[OF this] show ?thesis using child_step_doc[OF env d k] by (simp add: child_ref_def o_def)
  qed
  from collect_each_ok[OF this] show ?thesis by (simp add: map_concat o_def)
qed

lemma collect_single: "collect_each f [x] = and_then (f x) (\<lambda>y. Some (Inr y))"
  by (cases "f x") (auto simp: collect_each_def and_then_def try_res_def split: sum.splits)

lemma and_then_Inr [simp]: "and_then m (\<lambda>y. Some (Inr y)) = m"
  by (cases m) (auto simp: and_then_def try_res_def split: sum.splits)

lemma selected_children_less: "i \<in> set (selected_children d leg) \<Longrightarrow> i < length (children d)"
  by (cases leg; cases d) (auto simp: selected_children_def dest: key_index_SomeD[OF sym] split: if_splits option.splits)

text \<open>The step of \<open>extract_json\<close> on an encoded document, in terms of the selected children.\<close>

lemma extract_step:
  assumes env: "json_env_ok env" and d: "doc_ok env d" and leg: "\<forall>i. leg = Index i \<longrightarrow> in_signed 32 i"
  shows "extract_json env (doc_ref env p d) (leg # ls) =
    and_then (if self_selected d leg then extract_json env (doc_ref env p d) ls else Some (Inr [])) (\<lambda>here.
    and_then (collect_each (\<lambda>k. and_then (child_step env (doc_ref env p d) k) (\<lambda>e. extract_json env e ls)) (selected_children d leg))
      (\<lambda>below. Some (Inr (here @ below))))"
proof -
  have none: "collect_each f [] = Some (Inr [])" for f :: "nat \<Rightarrow> json_ref list fresult option"
    by (simp add: collect_each_def)
  note cnt = elem_count_doc[OF env d]
  have u: "as_unsigned 64 i < length (children d) \<longleftrightarrow> 0 \<le> i \<and> nat i < length (children d)"
    "as_unsigned 64 i = 0 \<longleftrightarrow> i = 0" "0 \<le> i \<Longrightarrow> as_unsigned 64 i = nat i" if "leg = Index i" for i
    using as_unsigned_less[OF leg[rule_format, OF that] children_bound[OF d]] as_unsigned_index[OF leg[rule_format, OF that]] by auto
  show ?thesis
  proof (cases leg)
    case (Index i)
    show ?thesis
    proof (cases "\<exists>ds. d = DArr ds")
      case True
      then obtain ds where ds: "d = DArr ds" by blast
      show ?thesis using cnt u[OF Index] by (simp add: Index ds self_selected_def selected_children_def child_step_def none collect_single)
    next
      case False
      then have t: "doc_type d \<noteq> JArray" "selected_children d leg = []"
        by (cases d; simp add: Index selected_children_def)+
      show ?thesis using u(2)[OF Index] t unfolding t(2) none by (simp add: Index self_selected_def)
    qed
  next
    case (Key k)
    show ?thesis
    proof (cases "\<exists>kvs. d = DObj kvs")
      case True
      then obtain kvs where kvs: "d = DObj kvs" by blast
      show ?thesis using cnt search_doc[OF env d[unfolded kvs], of p k]
        by (cases "key_index kvs k") (simp_all add: Key kvs self_selected_def selected_children_def child_step_def none collect_single)
    next
      case False
      then have t: "doc_type d \<noteq> JObject" "selected_children d leg = []"
        by (cases d; simp add: Key selected_children_def)+
      show ?thesis using t unfolding t(2) none by (simp add: Key self_selected_def)
    qed
  next
    case DoubleAsterisk
    show ?thesis using cnt
      by (cases d) (simp_all add: DoubleAsterisk self_selected_def selected_children_def child_step_def none)
  qed
qed

lemma extract_doc:
  assumes env: "json_env_ok env" and d: "doc_ok env d" and ls: "legs_ok ls"
  shows "extract_json env (doc_ref env p d) ls = Some (Inr (map (node env p d) (select_pos d ls)))"
  using d ls
proof (induction ls arbitrary: p d)
  case (Cons leg ls)
  have leg: "\<forall>i. leg = Index i \<longrightarrow> in_signed 32 i" and ls: "legs_ok ls" using Cons.prems by auto
  have below: "collect_each (\<lambda>k. and_then (child_step env (doc_ref env p d) k) (\<lambda>e. extract_json env e ls)) (selected_children d leg) =
      Some (Inr (map (node env p d) (concat (map (\<lambda>i. map ((#) i) (select_pos (children d ! i) ls)) (selected_children d leg)))))"
    by (rule child_steps_doc[OF env Cons.prems(1)]) (use Cons.IH ls selected_children_less in auto)
  have here: "extract_json env (doc_ref env p d) ls = Some (Inr (map (node env p d) (select_pos d ls)))"
    using Cons.IH[OF Cons.prems(1) ls] .
  show ?case unfolding extract_step[OF env Cons.prems(1) leg] below here by simp
qed simp

definition doc_json :: "json_env \<Rightarrow> doc \<Rightarrow> json" where
  "doc_json env d = \<lparr>json_type_code = doc_type d, json_bytes = enc env d\<rparr>"

lemma to_owned_val: "ref_val r = doc_val env d \<Longrightarrow> json_to_owned r = doc_json env d"
  by (simp add: json_to_owned_def doc_json_def ref_val_def doc_val_def)

lemma as_ref_doc_json: "json_as_ref p (doc_json env d) = doc_ref env p d"
  by (simp add: json_as_ref_def doc_json_def doc_ref_def)

lemma from_ref_array_docs:
  assumes env: "json_env_ok env" and rs: "map ref_val rs = map (doc_val env) ds"
    and size: "array_size (map (doc_val env) ds) < 2 ^ 32"
  shows "from_ref_array env rs = doc_json env (DArr ds)"
  using json_env_okD(9)[OF env, of rs] rs size by (simp add: from_ref_array_def doc_json_def enc_Arr)

lemma extract_each_doc:
  assumes env: "json_env_ok env" and d: "doc_ok env d" and es: "\<forall>e\<in>set es. legs_ok (legs e)"
  shows "\<exists>rs. collect_each (\<lambda>e. extract_json env (doc_ref env p d) (legs e)) es = Some (Inr rs) \<and>
    map ref_val rs = map (doc_val env) (concat (map (\<lambda>e. doc_select d (legs e)) es))"
proof -
  have "collect_each (\<lambda>e. extract_json env (doc_ref env p d) (legs e)) es =
      Some (Inr (concat (map (\<lambda>e. map (node env p d) (select_pos d (legs e))) es)))"
    by (rule collect_each_ok) (use extract_doc[OF env d] es in auto)
  moreover have "map ref_val (concat (map (\<lambda>e. map (node env p d) (select_pos d (legs e))) es)) =
      map (doc_val env) (concat (map (\<lambda>e. doc_select d (legs e)) es))"
    by (simp add: map_concat doc_select_pos o_def node_val)
  ultimately show ?thesis by blast
qed

definition found :: "doc \<Rightarrow> path_expr list \<Rightarrow> doc option" where
  "found d es =
     (let sel = concat (map (\<lambda>e. doc_select d (legs e)) es)
      in if sel = [] then None
         else if length es = 1 \<and> length sel = 1 then Some (hd sel) else Some (DArr sel))"

lemma extract_found:
  assumes env: "json_env_ok env" and d: "doc_ok env d" and es: "\<forall>e\<in>set es. legs_ok (legs e)"
    and size: "array_size (map (doc_val env) (concat (map (\<lambda>e. doc_select d (legs e)) es))) < 2 ^ 32"
  shows "json_extract env (doc_ref env p d) es = Some (Inr (map_option (doc_json env) (found d es)))"
proof -
  let ?sel = "concat (map (\<lambda>e. doc_select d (legs e)) es)"
  obtain rs where rs: "collect_each (\<lambda>e. extract_json env (doc_ref env p d) (legs e)) es = Some (Inr rs)"
    and v: "map ref_val rs = map (doc_val env) ?sel"
    using extract_each_doc[OF env d es] by blast
  have len: "length rs = length ?sel" using arg_cong[OF v, of length] by simp
  have hd: "json_to_owned (hd rs) = doc_json env (hd ?sel)" if "?sel \<noteq> []"
  proof -
    have "hd (map ref_val rs) = hd (map (doc_val env) ?sel)" using v by (rule arg_cong)
    moreover have "rs \<noteq> []" using that len by auto
    ultimately have "ref_val (hd rs) = doc_val env (hd ?sel)" using that by (metis list.map_sel(1))
    then show ?thesis by (rule to_owned_val)
  qed
  have "rs = [] \<longleftrightarrow> ?sel = []" using len by (metis length_0_conv)
  then show ?thesis unfolding json_extract_def rs and_then_ok found_def Let_def
    using hd from_ref_array_docs[OF env v size] len by auto
qed

section \<open>Length and depth\<close>

lemma json_len_doc:
  assumes "json_env_ok env" "doc_ok env d"
  shows "json_len env (doc_ref env p d) =
    Some (Some (if doc_type d = JArray \<or> doc_type d = JObject then int (length (children d)) else 1))"
  using elem_count_doc[OF assms, of p] by (auto simp: json_len_def)

definition doc_len :: "doc \<Rightarrow> int" where
  "doc_len d = (if doc_type d = JArray \<or> doc_type d = JObject then int (length (children d)) else 1)"

lemma doc_select_ok: "doc_ok env d \<Longrightarrow> c \<in> set (doc_select d ls) \<Longrightarrow> doc_ok env c"
proof (induction ls arbitrary: d)
  case (Cons leg ls)
  have sub: "doc_ok env c" if "x \<in> set (children d)" "c \<in> set (doc_select x ls)" for x
    using Cons.IH[OF doc_ok_children[OF Cons.prems(1) that(1)] that(2)] .
  show ?case
  proof (cases leg)
    case (Index i)
    then show ?thesis using Cons.prems Cons.IH[OF Cons.prems(1)] sub by (cases d) (auto split: if_splits intro: sub, meson nth_mem)
  next
    case (Key k)
    with Cons.prems(2) obtain kvs where d: "d = DObj kvs" by (cases d) auto
    have "\<exists>x \<in> set (map snd kvs). c \<in> set (doc_select x ls)"
      using Cons.prems(2) Key by (auto simp: d split: if_splits option.splits dest!: map_of_SomeD[OF sym]) force
    then show ?thesis using sub d by auto
  next
    case DoubleAsterisk
    then show ?thesis using Cons.prems Cons.IH[OF Cons.prems(1)] sub by auto
  qed
qed simp

lemma found_ok:
  assumes "doc_ok env d" "found d es = Some c"
    and "array_size (map (doc_val env) (concat (map (\<lambda>e. doc_select d (legs e)) es))) < 2 ^ 32"
  shows "doc_ok env c"
proof -
  let ?sel = "concat (map (\<lambda>e. doc_select d (legs e)) es)"
  have ok: "\<forall>x\<in>set ?sel. doc_ok env x" using doc_select_ok[OF assms(1)] by auto
  show ?thesis
  proof (cases "length es = 1 \<and> length ?sel = 1")
    case True
    then have "c = hd ?sel" "?sel \<noteq> []" using assms(2) by (auto simp: found_def Let_def split: if_splits)
    then show ?thesis using ok hd_in_set by metis
  next
    case False
    then have "c = DArr ?sel" using assms(2) by (auto simp: found_def Let_def split: if_splits)
    then show ?thesis using ok assms(3) by simp
  qed
qed

fun doc_depth :: "doc \<Rightarrow> nat" where
  "doc_depth (DArr ds) = Max (insert 0 (set (map doc_depth ds))) + 1"
| "doc_depth (DObj kvs) = Max (insert 0 (set (map (\<lambda>(k, d). doc_depth d) kvs))) + 1"
| "doc_depth d = 1"

lemma doc_depth_children: "doc_depth d = Max (insert 0 (set (map doc_depth (children d)))) + 1"
  by (cases d) (simp_all add: case_prod_unfold image_image)

lemma foldl_max: "foldl max a xs = Max (insert a (set xs))" for a :: "'a::linorder"
proof (induction xs arbitrary: a)
  case (Cons x xs)
  show ?case unfolding foldl_Cons Cons by (cases "xs = []") (simp_all add: max.assoc)
qed simp

lemma depth_doc:
  assumes env: "json_env_ok env"
  shows "doc_ok env d \<Longrightarrow> doc_depth d \<le> fuel \<Longrightarrow>
    depth_json fuel env (doc_ref env p d) = Some (Inr (int (doc_depth d)))"
proof (induction fuel arbitrary: p d)
  case 0
  then show ?case using doc_depth_children[of d] by simp
next
  case (Suc fuel)
  note d = Suc.prems(1)
  have le: "doc_depth c \<le> fuel" if "c \<in> set (children d)" for c
    using that Suc.prems(2) doc_depth_children[of d] by simp
  have each: "and_then (child_step env (doc_ref env p d) i) (depth_json fuel env) = Some (Inr (int (doc_depth (children d ! i))))"
    if "i < length (children d)" for i
    using that child_step_doc[OF env d that] Suc.IH[OF doc_ok_children[OF d] le] by (simp add: child_ref_def)
  have all: "try_each (\<lambda>i. and_then (child_step env (doc_ref env p d) i) (depth_json fuel env)) [0..<length (children d)] =
      Some (Inr (map (\<lambda>i. int (doc_depth (children d ! i))) [0..<length (children d)]))"
    by (rule try_each_ok) (simp add: each)
  have m: "map (\<lambda>i. int (doc_depth (children d ! i))) [0..<length (children d)] = map (int \<circ> doc_depth) (children d)"
    by (rule nth_equalityI) auto
  have "foldl max 0 (map (int \<circ> doc_depth) (children d)) = int (foldl max 0 (map doc_depth (children d)))"
  proof -
    have "foldl max (int a) (map (int \<circ> f) xs) = int (foldl max a (map f xs))" for a and f :: "doc \<Rightarrow> nat" and xs
      by (induction xs arbitrary: a) (simp_all add: of_nat_max[symmetric])
    from this[of 0] show ?thesis by simp
  qed
  then have fin: "foldl max 0 (map (int \<circ> doc_depth) (children d)) + 1 = int (doc_depth d)"
    by (simp add: doc_depth_children[of d] foldl_max)
  show ?case
  proof (cases "doc_type d = JArray \<or> doc_type d = JObject")
    case True
    have f: "child_step env (doc_ref env p d) = (if doc_type d = JArray then array_get_elem env (doc_ref env p d) else object_get_val env (doc_ref env p d))"
      by (simp add: child_step_def)
    show ?thesis using True all[unfolded m f] elem_count_doc[OF env d, of p] fin by auto
  next
    case False
    then have "children d = []" by (cases d) auto
    then show ?thesis using False doc_depth_children[of d] by simp
  qed
qed

text \<open>The bytes of a document bound its depth.\<close>

lemma stored_child: "c \<in> set ds \<Longrightarrow> length (stored (doc_val env c)) \<le> length (stored_all (map (doc_val env) ds))"
  by (induction ds) auto

lemma depth_le_bytes:
  assumes env: "json_env_ok env"
  shows "doc_ok env d \<Longrightarrow> doc_depth d \<le> length (enc env d)"
proof (induction d rule: measure_induct_rule[where f = doc_depth])
  case (less d)
  show ?case
  proof (cases "doc_type d = JArray \<or> doc_type d = JObject")
    case True
    have small: "doc_depth c < doc_depth d" if "c \<in> set (children d)" for c
      using that by (simp add: doc_depth_children[of d] less_Suc_eq_le)
    have len: "8 + length (stored_all (map (doc_val env) (children d))) \<le> length (enc env d)"
      using True by (cases d) (simp_all add: enc_Arr enc_Obj length_array_layout length_object_layout array_size_def object_size_def o_def)
    have "doc_depth c + 1 \<le> length (enc env d)" if c: "c \<in> set (children d)" for c
    proof (cases "doc_type c = JLiteral")
      case T: True
      then have "doc_depth c = 1" by (cases c) auto
      then show ?thesis using len by simp
    next
      case False
      have "doc_depth c \<le> length (enc env c)" using less small[OF c] doc_ok_children[OF less.prems c] by blast
      also have "\<dots> \<le> length (stored_all (map (doc_val env) (children d)))"
        using stored_child[OF c, of env] False by (simp add: stored_def)
      finally show ?thesis using len by simp
    qed
    then show ?thesis unfolding doc_depth_children[of d] using len by (auto simp: Suc_le_eq)
  next
    case False
    then have "doc_depth d = 1" by (cases d) auto
    moreover have "0 < length (enc env d)"
    proof (cases d)
      case (DStr s)
      then have "length s < 2 ^ 32" using less.prems by simp
      from json_env_okD(10)[OF env this] show ?thesis using DStr by auto
    qed (use False less.prems in simp_all)
    ultimately show ?thesis by (simp add: Suc_le_eq)
  qed
qed

section \<open>The object writer\<close>

lemma write_le: "json_env_ok env \<Longrightarrow> write_u32_le env (n mod 2 ^ 32) = le_bytes 4 n"
  "json_env_ok env \<Longrightarrow> write_u16_le env (n mod 2 ^ 16) = le_bytes 2 n"
  using le_bytes_mod[of 4 n] le_bytes_mod[of 2 n] by (simp_all add: json_env_okD)

lemma write_soliton_id_entries_layout:
  assumes "json_env_ok env"
  shows "write_soliton_id_entries env off es = (key_entries off (map fst es), off + length (concat (map fst es)))"
  by (induction es arbitrary: off rule: list.induct)
    (auto simp: write_le[OF assms] Let_def simp del: power_numeral split: prod.splits)

lemma encoded_len_stored: "encoded_len v = length (stored (ref_val v))"
  by (cases "type_code v") (simp_all add: encoded_len_def stored_def ref_val_def)

lemma write_value_entries_layout:
  assumes "json_env_ok env"
  shows "off + length (stored_all (map (ref_val \<circ> snd) es)) < 2 ^ 32 \<Longrightarrow>
    write_value_entries env off es = value_entries env off (map (ref_val \<circ> snd) es)"
proof (induction es arbitrary: off)
  case (Cons e es)
  then show ?case using json_env_okD(8)[OF assms, of off "snd e"]
    by (cases e) (simp add: encoded_len_stored)
qed simp

lemma write_values_layout: "write_values es = stored_all (map (ref_val \<circ> snd) es)"
  by (auto simp: write_values_def stored_all_def stored_def ref_val_def intro!: arg_cong[where f = concat])

lemma kv_len_layout:
  "foldl (\<lambda>acc (k, v). acc + length k + encoded_len v) a es =
     a + length (concat (map fst es)) + length (stored_all (map (ref_val \<circ> snd) es))"
  by (induction es arbitrary: a) (simp_all add: case_prod_unfold encoded_len_stored)

definition entry_val :: "nat list \<times> json_ref \<Rightarrow> nat list \<times> jval" where
  "entry_val e = (fst e, ref_val (snd e))"

lemma map_entry_val: "map fst (map entry_val es) = map fst es" "map snd (map entry_val es) = map (ref_val \<circ> snd) es"
  by (simp_all add: entry_val_def)

lemma write_obj_layout:
  assumes env: "json_env_ok env" and size: "object_size (map entry_val (sort_key fst entries)) < 2 ^ 32"
  shows "write_json_obj_from_soliton_ids_causet_locales env buf entries =
    buf @ object_layout env (map entry_val (sort_key fst entries))"
proof -
  define es where "es = sort_key fst entries"
  let ?n = "8 + 11 * length es" and ?K = "length (concat (map fst es))" and ?V = "length (stored_all (map (ref_val \<circ> snd) es))"
  have sz: "object_size (map entry_val es) = ?n + ?K + ?V" unfolding object_size_def map_entry_val by simp
  have lt: "?n + ?K + ?V < 2 ^ 32" using size sz by (simp add: es_def)
  have off: "(?n + ?K) mod 2 ^ 32 = ?n + ?K" using lt by simp
  have "write_value_entries env ((?n + ?K) mod 2 ^ 32) es = value_entries env (?n + ?K) (map (ref_val \<circ> snd) es)"
    unfolding off using lt by (intro write_value_entries_layout[OF env])
  then show ?thesis
    unfolding write_json_obj_from_soliton_ids_causet_locales_def es_def[symmetric] Let_def
      write_soliton_id_entries_layout[OF env] kv_len_layout write_values_layout
    by (simp add: write_le[OF env, simplified] object_layout_def sz map_entry_val algebra_simps del: map_map)
qed

text \<open>Members: a key, a document and the address its encoding is read from.\<close>

definition member_entry :: "json_env \<Rightarrow> nat list \<times> nat \<times> doc \<Rightarrow> nat list \<times> json_ref" where
  "member_entry env m = (case m of (k, q, d) \<Rightarrow> (k, doc_ref env q d))"

definition member_doc :: "nat list \<times> nat \<times> doc \<Rightarrow> nat list \<times> doc" where
  "member_doc m = (case m of (k, q, d) \<Rightarrow> (k, d))"

lemma sort_key_map: "(\<And>x. g (f x) = h x) \<Longrightarrow> sort_key g (map f xs) = map f (sort_key h xs)"
proof (induction xs)
  case (Cons x xs)
  have "insort_key g (f x) (map f ys) = map f (insort_key h x ys)" for ys
    by (induction ys) (simp_all add: Cons.prems)
  with Cons show ?case by simp
qed simp

lemma entry_val_member: "entry_val (member_entry env m) = member_val env (member_doc m)"
  by (cases m) (simp add: entry_val_def member_entry_def member_val_def member_doc_def ref_val_def doc_val_def)

lemma object_size_perm:
  assumes "mset xs = mset ys" shows "object_size xs = object_size ys"
proof -
  have *: "length (concat (map f xs)) = length (concat (map f ys))" for f :: "nat list \<times> jval \<Rightarrow> nat list"
  proof -
    have "mset (map (length \<circ> f) xs) = mset (map (length \<circ> f) ys)" using assms by simp
    then have "sum_list (map (length \<circ> f) xs) = sum_list (map (length \<circ> f) ys)" by (metis sum_mset_sum_list)
    then show ?thesis by (simp add: length_concat o_def)
  qed
  show ?thesis unfolding object_size_def stored_all_def map_map using *[of fst] *[of "stored \<circ> snd"] mset_eq_length[OF assms] by simp
qed

lemma kv_pairs_doc:
  assumes env: "json_env_ok env" and keys: "distinct (map fst ms)"
    and ms: "\<forall>m\<in>set ms. length (fst m) < 2 ^ 16 \<and> doc_ok env (snd (snd m))"
    and size: "object_size (map (member_val env \<circ> member_doc) ms) < 2 ^ 32"
  shows "from_einsteindb_fdb_kv_pairs env (map (member_entry env) ms) = doc_json env (DObj (sort_key fst (map member_doc ms)))"
    and "doc_ok env (DObj (sort_key fst (map member_doc ms)))"
proof -
  let ?kvs = "sort_key fst (map member_doc ms)"
  have s1: "sort_key fst (map (member_entry env) ms) = map (member_entry env) (sort_key fst ms)"
    by (rule sort_key_map) (simp add: member_entry_def split: prod.splits)
  have s2: "?kvs = map member_doc (sort_key fst ms)"
    by (rule sort_key_map) (simp add: member_doc_def split: prod.splits)
  have v: "map entry_val (sort_key fst (map (member_entry env) ms)) = map (member_val env) ?kvs"
    unfolding s1 s2 by (simp add: entry_val_member o_def)
  have sz: "object_size (map (member_val env) ?kvs) < 2 ^ 32"
  proof -
    have "mset (map (member_val env) ?kvs) = mset (map (member_val env \<circ> member_doc) ms)" by (simp add: multiset.map_comp)
    from object_size_perm[OF this] show ?thesis using size by simp
  qed
  from write_obj_layout[OF env, of "map (member_entry env) ms" "[]"] sz v
  show "from_einsteindb_fdb_kv_pairs env (map (member_entry env) ms) = doc_json env (DObj ?kvs)"
    by (simp add: from_einsteindb_fdb_kv_pairs_def doc_json_def enc_Obj)
  have fst_m: "map fst (map member_doc ms) = map fst ms" by (simp add: member_doc_def case_prod_unfold)
  have dist: "distinct (map fst ?kvs)"
  proof -
    have "mset (map fst ?kvs) = mset (map fst ms)" by (simp add: fst_m[symmetric] del: map_map)
    with keys show ?thesis by (metis mset_eq_imp_distinct_iff)
  qed
  have "sorted_wrt (<) (map fst ?kvs)" using dist by (simp add: strict_sorted_iff)
  with sz ms show "doc_ok env (DObj ?kvs)" by (auto simp: member_doc_def case_prod_unfold)
qed

end
