(* ===== verification/Json_Env.thy ===== *)
theory Json_Env
  imports Json_Query
begin

text \<open>
  A concrete instance of the parameters of the JSON operations, as the crates they come from
  document them, and the properties of the JSON operations with their witnesses.
\<close>

section \<open>A concrete instance\<close>

text \<open>Seven bits per byte, the low ones first, the high bit marking that more follow.\<close>

fun var_bytes :: "nat \<Rightarrow> nat list" where
  "var_bytes n = (if n < 128 then [n] else (n mod 128 + 128) # var_bytes (n div 128))"

declare var_bytes.simps [simp del]

fun var_decode :: "nat list \<Rightarrow> (nat \<times> nat) fresult" where
  "var_decode [] = Inl unexpected_eof"
| "var_decode (b # bs) =
     (if b < 128 then Inr (b, 1)
      else (case var_decode bs of Inl e \<Rightarrow> Inl e | Inr (n, l) \<Rightarrow> Inr (b - 128 + 128 * n, l + 1)))"

primrec std_code :: "json_type \<Rightarrow> nat" where
  "std_code JObject = 1" | "std_code JArray = 3" | "std_code JLiteral = 4" | "std_code JI64 = 9"
| "std_code JU64 = 10" | "std_code JDouble = 11" | "std_code JString = 12"

definition std_type :: "nat \<Rightarrow> json_type option" where
  "std_type n = find (\<lambda>t. std_code t = n) [JObject, JArray, JLiteral, JI64, JU64, JDouble, JString]"

definition std_base :: json_env where
  "std_base =
     \<lparr>decode_u16_le = (\<lambda>bs. if length bs < 2 then None else Some (le_val (take 2 bs))),
      decode_u32_le = (\<lambda>bs. if length bs < 4 then None else Some (le_val (take 4 bs))),
      decode_u64_le = (\<lambda>bs. if length bs < 8 then None else Some (le_val (take 8 bs))),
      decode_i64_le = (\<lambda>bs. if length bs < 8 then None else Some (as_signed 64 (int (le_val (take 8 bs))))),
      try_decode_var_u64 = var_decode,
      write_u16_le = le_bytes 2,
      write_u32_le = le_bytes 4,
      json_type_from_u8 = std_type,
      json_type_as_u8 = std_code,
      write_causet_locale_causet = (\<lambda>off v. ([], off)),
      write_json_ref_array = (\<lambda>rs. []),
      write_json_str = (\<lambda>s. var_bytes (length s) @ s)\<rparr>"

definition std_json_env :: json_env where
  "std_json_env = std_base
     \<lparr>write_causet_locale_causet := (\<lambda>off v. (value_entry std_base off (ref_val v), off + encoded_len v)),
      write_json_ref_array := (\<lambda>rs. array_layout std_base (map ref_val rs))\<rparr>"

lemma var_decode_bytes: "var_decode (var_bytes n @ rest) = Inr (n, length (var_bytes n))"
proof (induction n arbitrary: rest rule: var_bytes.induct)
  case (1 n)
  show ?case
  proof (cases "n < 128")
    case False
    have "var_bytes n = (n mod 128 + 128) # var_bytes (n div 128)" by (subst var_bytes.simps) (simp add: False)
    moreover have "n mod 128 + 128 * (n div 128) = n" by simp
    ultimately show ?thesis using "1.IH"[OF False] by simp
  qed (simp add: var_bytes.simps[of n])
qed

lemma std_type_code: "std_type (std_code t) = Some t"
  by (cases t) (simp_all add: std_type_def)

lemma value_entries_cong:
  "json_type_as_u8 e = json_type_as_u8 e' \<Longrightarrow> value_entry e off v = value_entry e' off v"
  "json_type_as_u8 e = json_type_as_u8 e' \<Longrightarrow> value_entries e off vs = value_entries e' off vs"
proof -
  assume a: "json_type_as_u8 e = json_type_as_u8 e'"
  show *: "value_entry e off v = value_entry e' off v" for off v using a by (simp add: value_entry_def)
  show "value_entries e off vs = value_entries e' off vs" by (induction vs arbitrary: off) (simp_all add: *)
qed

lemma std_json_env_simps:
  "decode_u16_le std_json_env bs = (if length bs < 2 then None else Some (le_val (take 2 bs)))"
  "decode_u32_le std_json_env bs = (if length bs < 4 then None else Some (le_val (take 4 bs)))"
  "decode_u64_le std_json_env bs = (if length bs < 8 then None else Some (le_val (take 8 bs)))"
  "decode_i64_le std_json_env bs = (if length bs < 8 then None else Some (as_signed 64 (int (le_val (take 8 bs)))))"
  "try_decode_var_u64 std_json_env bs = var_decode bs"
  "write_u16_le std_json_env = le_bytes 2" "write_u32_le std_json_env = le_bytes 4"
  "json_type_from_u8 std_json_env = std_type" "json_type_as_u8 std_json_env = std_code"
  "write_json_str std_json_env s = var_bytes (length s) @ s"
  by (simp_all add: std_json_env_def std_base_def)

lemma std_json_env_ok: "json_env_ok std_json_env"
proof -
  have c: "json_type_as_u8 std_base = json_type_as_u8 std_json_env" by (simp add: std_json_env_def)
  note cong = value_entries_cong(1)[OF c] value_entries_cong(2)[OF c]
  have w: "write_causet_locale_causet std_json_env = (\<lambda>off v. (value_entry std_base off (ref_val v), off + encoded_len v))"
    "write_json_ref_array std_json_env = (\<lambda>rs. array_layout std_base (map ref_val rs))"
    by (simp_all add: std_json_env_def)
  have "var_bytes n \<noteq> []" for n by (simp add: var_bytes.simps[of n])
  moreover have "write_causet_locale_causet std_json_env off v = (value_entry std_json_env off (ref_val v), off + encoded_len v)" for off v
    using w(1) cong(1) by simp
  moreover have "write_json_ref_array std_json_env rs = array_layout std_json_env (map ref_val rs)" for rs
    using w(2) cong(2) by (simp add: array_layout_def)
  ultimately show ?thesis unfolding json_env_ok_def
    by (auto simp: std_json_env_simps std_type_code var_decode_bytes)
qed

section \<open>Properties\<close>

text \<open>
  C16: An object written from members with distinct keys, in any order, is the documented layout
  with the keys in ascending order; the binary search finds exactly the keys of the members, and the
  value at the found index has the type and the bytes that were written.
\<close>

theorem json_object_lookup:
  assumes "json_env_ok env" "distinct (map fst ms)"
    and "\<forall>m\<in>set ms. length (fst m) < 2 ^ 16 \<and> doc_ok env (snd (snd m))"
    and "object_size (map (member_val env \<circ> member_doc) ms) < 2 ^ 32"
    and "j = json_as_ref p (from_einsteindb_fdb_kv_pairs env (map (member_entry env) ms))"
  shows "causet_locale j = object_layout env (map (member_val env) (sort_key fst (map member_doc ms))) \<and>
    (\<forall>k. k \<notin> fst ` set ms \<longrightarrow> object_search_soliton_id env j k = Some None) \<and>
    (\<forall>k q d. (k, q, d) \<in> set ms \<longrightarrow> (\<exists>i r. object_search_soliton_id env j k = Some (Some i) \<and>
      object_get_soliton_id env j i = Some k \<and> object_get_val env j i = Some (Inr r) \<and> ref_val r = doc_val env d))"
proof -
  let ?kvs = "sort_key fst (map member_doc ms)"
  note kv = kv_pairs_doc[OF assms(1-4)]
  have j: "j = doc_ref env p (DObj ?kvs)" using assms(5) kv(1) by (simp add: as_ref_doc_json)
  have bytes: "causet_locale j = object_layout env (map (member_val env) ?kvs)" by (simp add: j enc_Obj)
  have search: "object_search_soliton_id env j k = Some (key_index ?kvs k)" for k unfolding j by (rule search_doc[OF assms(1) kv(2)])
  have keys: "set (map fst ?kvs) = fst ` set ms" by (force simp: member_doc_def)
  have sw: "sorted_wrt (<) (map fst ?kvs)" using kv(2) by simp
  have absent: "object_search_soliton_id env j k = Some None" if "k \<notin> fst ` set ms" for k
  proof -
    have "\<And>i. i < length ?kvs \<Longrightarrow> fst (?kvs ! i) \<noteq> k"
      using that keys by (metis length_map nth_map nth_mem)
    then show ?thesis using search key_index_None[of ?kvs k] by simp
  qed
  have present: "\<exists>i r. object_search_soliton_id env j k = Some (Some i) \<and>
      object_get_soliton_id env j i = Some k \<and> object_get_val env j i = Some (Inr r) \<and> ref_val r = doc_val env d"
    if m: "(k, q, d) \<in> set ms" for k q d
  proof -
    have "(k, d) \<in> set ?kvs" using m by (force simp: member_doc_def)
    then obtain i where i: "i < length ?kvs" "?kvs ! i = (k, d)" unfolding in_set_conv_nth by blast
    have "ref_val (child_ref env p (DObj ?kvs) i) = doc_val env d"
      using i by (simp add: child_ref_def ref_val_def doc_val_def)
    then show ?thesis
      using search key_index_unique[OF sw i(1)] object_key_doc[OF assms(1) kv(2) i(1)] object_val_doc[OF assms(1) kv(2) i(1)] i j
      by auto
  qed
  show ?thesis using bytes absent present by blast
qed

text \<open>The members of \<open>{"b": [true, 5], "a": null}\<close>, and the object.\<close>

definition sample_members :: "(nat list \<times> nat \<times> doc) list" where
  "sample_members = [([98], 0, DArr [DBool True, DInt 5]), ([97], 7, DNull)]"

definition sample_doc :: doc where
  "sample_doc = DObj [([97], DNull), ([98], DArr [DBool True, DInt 5])]"

theorem json_object_lookup_witness:
  "object_search_soliton_id std_json_env
     (json_as_ref 40 (from_einsteindb_fdb_kv_pairs std_json_env (map (member_entry std_json_env) sample_members))) [99] = Some None"
proof -
  have "\<forall>m\<in>set sample_members. length (fst m) < 2 ^ 16 \<and> doc_ok std_json_env (snd (snd m))"
    by (simp add: sample_members_def array_size_def stored_def in_signed_def)
  moreover have "object_size (map (member_val std_json_env \<circ> member_doc) sample_members) < 2 ^ 32"
    by (simp add: sample_members_def object_size_def stored_def member_doc_def enc_Arr length_array_layout array_size_def)
  moreover have "distinct (map fst sample_members)" by (simp add: sample_members_def)
  moreover have "[99] \<notin> fst ` set sample_members" by (simp add: sample_members_def)
  ultimately show ?thesis using json_object_lookup[OF std_json_env_ok, of sample_members _ 40, OF _ _ _ refl] by blast
qed

text \<open>
  C20: Selecting by a list of paths from the encoding of a document gives, without a panic or an
  error, the encoding of what the paths select from the document: nothing, the one value, or the
  array of the values. \<open>json_length\<close> is the number of its elements, 1 for a scalar.
\<close>

theorem json_extract_selects:
  assumes "json_env_ok env" "doc_ok env d" "\<forall>e\<in>set es. legs_ok (legs e)"
    and "array_size (map (doc_val env) (concat (map (\<lambda>e. doc_select d (legs e)) es))) < 2 ^ 32"
  shows "json_extract env (doc_ref env p d) es = Some (Inr (map_option (doc_json env) (found d es))) \<and>
    json_length env (doc_ref env p d) es = Some (Inr
      (if es = [] then Some (doc_len d)
       else if length es = 1 \<and> contains_any_asterisk (hd es) then None
       else map_option doc_len (found d es)))"
proof -
  note ex = extract_found[OF assms, of p]
  have len: "json_len env (json_as_ref 0 (doc_json env c)) = Some (Some (doc_len c))" if "doc_ok env c" for c
    using json_len_doc[OF assms(1) that, of 0] by (simp add: as_ref_doc_json doc_len_def)
  have l0: "json_len env (doc_ref env p d) = Some (Some (doc_len d))"
    using json_len_doc[OF assms(1,2), of p] by (simp add: doc_len_def)
  show ?thesis
    using ex l0 len found_ok[OF assms(2) _ assms(4)] by (cases "found d es") (simp_all add: json_length_def)
qed

theorem json_extract_selects_witness:
  "json_extract std_json_env (doc_ref std_json_env 16 sample_doc) [\<lparr>legs = [Key [98], Index 1], path_flags = 0\<rparr>] =
     Some (Inr (Some (doc_json std_json_env (DInt 5))))"
proof -
  let ?es = "[\<lparr>legs = [Key [98], Index 1], path_flags = 0\<rparr>]"
  have ok: "doc_ok std_json_env sample_doc"
    by (simp add: sample_doc_def object_size_def stored_def enc_Arr length_array_layout array_size_def in_signed_def)
  have "found sample_doc ?es = Some (DInt 5)" by (simp add: sample_doc_def found_def)
  moreover have "array_size (map (doc_val std_json_env) (concat (map (\<lambda>e. doc_select sample_doc (legs e)) ?es))) < 2 ^ 32"
    by (simp add: sample_doc_def array_size_def stored_def)
  moreover have "\<forall>e\<in>set ?es. legs_ok (legs e)" by (simp add: in_signed_def)
  ultimately show ?thesis using json_extract_selects[OF std_json_env_ok ok, of ?es 16] by simp
qed

text \<open>
  C31: \<open>depth_json\<close> returns on the encoding of every document, with no more nested calls than the
  encoding has bytes, and its result is the nesting depth of the document.
\<close>

theorem json_depth_returns:
  assumes "json_env_ok env" "doc_ok env d" "length (enc env d) \<le> fuel"
  shows "depth_json fuel env (doc_ref env p d) = Some (Inr (int (doc_depth d)))"
  using depth_doc[OF assms(1,2)] depth_le_bytes[OF assms(1,2)] assms(3) by simp

theorem json_depth_returns_witness:
  "depth_json 100 std_json_env (doc_ref std_json_env 16 sample_doc) = Some (Inr 3)"
proof -
  have ok: "doc_ok std_json_env sample_doc"
    by (simp add: sample_doc_def object_size_def stored_def enc_Arr length_array_layout array_size_def in_signed_def)
  have "length (enc std_json_env sample_doc) \<le> 100"
    by (simp add: sample_doc_def enc_Obj enc_Arr length_object_layout object_size_def stored_def length_array_layout array_size_def)
  moreover have "doc_depth sample_doc = 3" by (simp add: sample_doc_def)
  ultimately show ?thesis using json_depth_returns[OF std_json_env_ok ok, of 100 16] by simp
qed

end
