(* ===== verification/Json_Modify.thy ===== *)
theory Json_Modify
  imports Json_Env
begin

text \<open>
  Changing a JSON document, \<open>src/berolinasql/src/modifier.rs\<close>, \<open>json_modify.rs\<close> and
  \<open>json_remove.rs\<close>: the node to change is found by its address, and the document is written anew
  around its replacement.

  The modifier is the state of \<open>BinaryModifier\<close> that its operations use: the document, the address
  of the node to replace (\<open>None\<close> is the null pointer) and the replacement. The recursion of
  \<open>rebuild_to\<close> follows the offsets of the document and takes the number of nested calls it may make.
\<close>

section \<open>Rebuilding\<close>

record modifier =
  old :: json_ref
  to_be_modified_ptr :: "nat option"
  new_causet_locale :: "json option"

definition modifier_new :: "json_ref \<Rightarrow> modifier" where
  "modifier_new j = \<lparr>old = j, to_be_modified_ptr = None, new_causet_locale = None\<rparr>"

text \<open>\<open>NumberCodec::encode_u32_le(&mut buf[i..], v)\<close>\<close>

definition patch_u32 :: "json_env \<Rightarrow> nat list \<Rightarrow> nat \<Rightarrow> nat \<Rightarrow> nat list option" where
  "patch_u32 env buf i v =
     (if i + 4 \<le> length buf then Some (take i buf @ write_u32_le env v @ drop (i + 4) buf) else None)"

text \<open>The loop over the values of a container; \<open>step\<close> is the recursive call.\<close>

fun rebuild_values ::
    "json_env \<Rightarrow> (json_ref \<Rightarrow> nat option \<Rightarrow> nat list \<Rightarrow> (json_type \<times> nat option \<times> nat list) fresult option) \<Rightarrow>
     json_ref \<Rightarrow> nat \<Rightarrow> nat \<Rightarrow> nat list \<Rightarrow> nat option \<Rightarrow> nat list \<Rightarrow> (nat option \<times> nat list) fresult option" where
  "rebuild_values env step current doc_off val_causet_start [] ptr buf = Some (Inr (ptr, buf))"
| "rebuild_values env step current doc_off val_causet_start (i # is) ptr buf = do {
     let val_causet_offset = val_causet_start + i * VALUE_ENTRY_LEN;
     r \<leftarrow> val_causet_get env current val_causet_offset;
     try_res r (\<lambda>old. do {
       val_offset \<leftarrow> usub (length buf) doc_off;
       r \<leftarrow> step old ptr buf;
       try_res r (\<lambda>(new_tp, ptr, buf). do {
         buf \<leftarrow> set_at buf (doc_off + val_causet_offset) (json_type_as_u8 env new_tp);
         buf \<leftarrow> (if new_tp = JLiteral then do {
                  last_idx \<leftarrow> usub (length buf) 1;
                  val \<leftarrow> get_at buf last_idx;
                  buf \<leftarrow> patch_u32 env buf (doc_off + val_causet_offset + TYPE_LEN) val;
                  Some (take last_idx buf) }
                else patch_u32 env buf (doc_off + val_causet_offset + TYPE_LEN) (val_offset mod 2 ^ 32));
         rebuild_values env step current doc_off val_causet_start is ptr buf }) }) }"

text \<open>The keys of an object: the bytes from the first key to the end of the last one.\<close>

definition soliton_ids_slice :: "json_env \<Rightarrow> json_ref \<Rightarrow> nat \<Rightarrow> nat list option" where
  "soliton_ids_slice env current elem_count =
     (if elem_count > 0 then do {
        t \<leftarrow> drop_at (causet_locale current) HEADER_LEN;
        first_soliton_id_offset \<leftarrow> decode_u32_le env t;
        t \<leftarrow> drop_at (causet_locale current) (HEADER_LEN + (elem_count - 1) * KEY_ENTRY_LEN);
        last_soliton_id_offset \<leftarrow> decode_u32_le env t;
        t \<leftarrow> drop_at (causet_locale current) (HEADER_LEN + (elem_count - 1) * KEY_ENTRY_LEN + U32_LEN);
        last_soliton_id_len \<leftarrow> decode_u16_le env t;
        slice_at (causet_locale current) first_soliton_id_offset (last_soliton_id_offset + last_soliton_id_len) }
      else Some [])"

primrec rebuild_to ::
    "nat \<Rightarrow> json_env \<Rightarrow> json option \<Rightarrow> json_ref \<Rightarrow> nat option \<Rightarrow> nat list \<Rightarrow>
     (json_type \<times> nat option \<times> nat list) fresult option" where
  "rebuild_to 0 env new current ptr buf = None"
| "rebuild_to (Suc fuel) env new current ptr buf =
     (if ptr = Some (as_ptr current) then do {
        n \<leftarrow> new;
        Some (Inr (json_type_code n, None, buf @ json_bytes n)) }
      else if ptr = None then Some (Inr (type_code current, ptr, buf @ causet_locale current))
      else if type_code current = JObject \<or> type_code current = JArray then do {
        let doc_off = length buf;
        elem_count \<leftarrow> get_elem_count env current;
        (buf, val_causet_start) \<leftarrow>
          (if type_code current = JArray then do {
             h \<leftarrow> slice_at (causet_locale current) 0 (HEADER_LEN + elem_count * VALUE_ENTRY_LEN);
             Some (buf @ h, HEADER_LEN) }
           else do {
             h \<leftarrow> slice_at (causet_locale current) 0 (HEADER_LEN + elem_count * (KEY_ENTRY_LEN + VALUE_ENTRY_LEN));
             ks \<leftarrow> soliton_ids_slice env current elem_count;
             Some (buf @ h @ ks, HEADER_LEN + elem_count * KEY_ENTRY_LEN) });
        r \<leftarrow> rebuild_values env (rebuild_to fuel env new) current doc_off val_causet_start [0..<elem_count] ptr buf;
        try_res r (\<lambda>(ptr, buf). do {
          data_len \<leftarrow> usub (length buf) doc_off;
          buf \<leftarrow> patch_u32 env buf (doc_off + ELEMENT_COUNT_LEN) (data_len mod 2 ^ 32);
          Some (Inr (type_code current, ptr, buf)) }) }
      else Some (Inr (type_code current, ptr, buf @ causet_locale current)))"

definition rebuild :: "nat \<Rightarrow> json_env \<Rightarrow> modifier \<Rightarrow> json fresult option" where
  "rebuild fuel env m = do {
     r \<leftarrow> rebuild_to fuel env (new_causet_locale m) (old m) (to_be_modified_ptr m) [];
     try_res r (\<lambda>(new_tp, _, buf). Some (Inr \<lparr>json_type_code = new_tp, json_bytes = buf\<rparr>)) }"

section \<open>Insert, replace, set and remove\<close>

definition object_entries :: "json_env \<Rightarrow> json_ref \<Rightarrow> nat \<Rightarrow> (nat list \<times> json_ref) list fresult option" where
  "object_entries env obj elem_count =
     try_each (\<lambda>i. do {
       k \<leftarrow> object_get_soliton_id env obj i;
       and_then (object_get_val env obj i) (\<lambda>v. Some (Inr (k, v))) }) [0..<elem_count]"

definition array_elems :: "json_env \<Rightarrow> json_ref \<Rightarrow> nat \<Rightarrow> json_ref list fresult option" where
  "array_elems env arr elem_count = try_each (array_get_elem env arr) [0..<elem_count]"

text \<open>The insertion into the parent node, by the last leg of the path.\<close>

definition insert_at_parent :: "json_env \<Rightarrow> modifier \<Rightarrow> json_ref \<Rightarrow> path_leg \<Rightarrow> json \<Rightarrow> modifier fresult option" where
  "insert_at_parent env m parent_node last_leg new =
     (let new_ref = json_as_ref 0 new
      in case last_leg of
           Index _ \<Rightarrow>
             (if type_code parent_node = JArray then do {
                elem_count \<leftarrow> get_elem_count env parent_node;
                and_then (array_elems env parent_node elem_count) (\<lambda>elems.
                  Some (Inr (m\<lparr>to_be_modified_ptr := Some (as_ptr parent_node),
                    new_causet_locale := Some (from_ref_array env (elems @ [new_ref]))\<rparr>))) }
              else Some (Inr (m\<lparr>to_be_modified_ptr := Some (as_ptr parent_node),
                new_causet_locale := Some (from_ref_array env [parent_node, new_ref])\<rparr>)))
         | Key insert_soliton_id \<Rightarrow>
             (if type_code parent_node \<noteq> JObject then Some (Inr m)
              else do {
                elem_count \<leftarrow> get_elem_count env parent_node;
                found \<leftarrow> object_search_soliton_id env parent_node insert_soliton_id;
                and_then (object_entries env parent_node elem_count) (\<lambda>entries.
                  let entries = (case found of
                      Some insert_idx \<Rightarrow> take insert_idx entries @ [(insert_soliton_id, new_ref)] @ drop insert_idx entries
                    | None \<Rightarrow> entries @ [(insert_soliton_id, new_ref)])
                  in Some (Inr (m\<lparr>to_be_modified_ptr := Some (as_ptr parent_node),
                       new_causet_locale := Some (from_einsteindb_fdb_kv_pairs env entries)\<rparr>))) })
         | DoubleAsterisk \<Rightarrow> Some (Inr m))"

definition do_insert :: "json_env \<Rightarrow> modifier \<Rightarrow> path_leg list \<Rightarrow> json \<Rightarrow> modifier fresult option" where
  "do_insert env m ls new =
     (if ls = [] then Some (Inr m)
      else and_then (extract_json env (old m) (butlast ls)) (\<lambda>result.
        if result = [] then Some (Inr m) else insert_at_parent env m (hd result) (last ls) new))"

definition modifier_set :: "nat \<Rightarrow> json_env \<Rightarrow> modifier \<Rightarrow> path_leg list \<Rightarrow> json \<Rightarrow> json fresult option" where
  "modifier_set fuel env m ls new =
     and_then (extract_json env (old m) ls) (\<lambda>result.
       if result \<noteq> [] then
         rebuild fuel env (m\<lparr>to_be_modified_ptr := Some (as_ptr (hd result)), new_causet_locale := Some new\<rparr>)
       else and_then (do_insert env m ls new) (rebuild fuel env))"

definition modifier_replace :: "nat \<Rightarrow> json_env \<Rightarrow> modifier \<Rightarrow> path_leg list \<Rightarrow> json \<Rightarrow> json fresult option" where
  "modifier_replace fuel env m ls new =
     and_then (extract_json env (old m) ls) (\<lambda>result.
       if result = [] then Some (Inr (json_to_owned (old m)))
       else rebuild fuel env (m\<lparr>to_be_modified_ptr := Some (as_ptr (hd result)), new_causet_locale := Some new\<rparr>))"

definition modifier_insert :: "nat \<Rightarrow> json_env \<Rightarrow> modifier \<Rightarrow> path_leg list \<Rightarrow> json \<Rightarrow> json fresult option" where
  "modifier_insert fuel env m ls new =
     and_then (extract_json env (old m) ls) (\<lambda>result.
       if result \<noteq> [] then Some (Inr (json_to_owned (old m)))
       else and_then (do_insert env m ls new) (rebuild fuel env))"

text \<open>The removal from the parent node. The capacity \<open>elem_count - 1\<close> is computed before the elements are copied.\<close>

definition remove_at_parent :: "json_env \<Rightarrow> modifier \<Rightarrow> json_ref \<Rightarrow> path_leg \<Rightarrow> modifier fresult option" where
  "remove_at_parent env m parent_node last_leg =
     (case last_leg of
        Index remove_idx \<Rightarrow>
          (if type_code parent_node = JArray then do {
             elem_count \<leftarrow> get_elem_count env parent_node;
             _ \<leftarrow> usub elem_count 1;
             and_then (try_each (array_get_elem env parent_node)
                 (filter (\<lambda>i. i \<noteq> as_unsigned 64 remove_idx) [0..<elem_count])) (\<lambda>elems.
               Some (Inr (m\<lparr>to_be_modified_ptr := Some (as_ptr parent_node),
                 new_causet_locale := Some (from_ref_array env elems)\<rparr>))) }
           else Some (Inr m))
      | Key remove_soliton_id \<Rightarrow>
          (if type_code parent_node = JObject then do {
             elem_count \<leftarrow> get_elem_count env parent_node;
             _ \<leftarrow> usub elem_count 1;
             and_then (collect_each (\<lambda>i. do {
                 k \<leftarrow> object_get_soliton_id env parent_node i;
                 if k \<noteq> remove_soliton_id
                 then and_then (object_get_val env parent_node i) (\<lambda>v. Some (Inr [(k, v)]))
                 else Some (Inr []) }) [0..<elem_count]) (\<lambda>entries.
               Some (Inr (m\<lparr>to_be_modified_ptr := Some (as_ptr parent_node),
                 new_causet_locale := Some (from_einsteindb_fdb_kv_pairs env entries)\<rparr>))) }
           else Some (Inr m))
      | DoubleAsterisk \<Rightarrow> Some (Inr m))"

definition do_remove :: "json_env \<Rightarrow> modifier \<Rightarrow> path_leg list \<Rightarrow> modifier fresult option" where
  "do_remove env m ls =
     (if ls = [] then Some (Inr m)
      else and_then (extract_json env (old m) (butlast ls)) (\<lambda>result.
        if result = [] then Some (Inr m) else remove_at_parent env m (hd result) (last ls)))"

definition modifier_remove :: "nat \<Rightarrow> json_env \<Rightarrow> modifier \<Rightarrow> path_leg list \<Rightarrow> json fresult option" where
  "modifier_remove fuel env m ls =
     and_then (extract_json env (old m) ls) (\<lambda>result.
       if result = [] then Some (Inr (json_to_owned (old m)))
       else and_then (do_remove env m ls) (rebuild fuel env))"

section \<open>JSON_INSERT, JSON_REPLACE, JSON_SET and JSON_REMOVE\<close>

datatype modify_type = Insert | Replace | Set

text \<open>
  Every step changes the document the step before produced; \<open>show_expr\<close> is the derived debug text
  of a path. The documents stand at address \<open>0\<close>: only differences of addresses within one matter.
\<close>

definition modify_step :: "nat \<Rightarrow> json_env \<Rightarrow> modify_type \<Rightarrow> json \<Rightarrow> path_leg list \<Rightarrow> json \<Rightarrow> json fresult option" where
  "modify_step fuel env mt res ls v =
     (let m = modifier_new (json_as_ref 0 res)
      in case mt of
           Insert \<Rightarrow> modifier_insert fuel env m ls v
         | Replace \<Rightarrow> modifier_replace fuel env m ls v
         | Set \<Rightarrow> modifier_set fuel env m ls v)"

fun modify_all :: "nat \<Rightarrow> json_env \<Rightarrow> modify_type \<Rightarrow> json \<Rightarrow> (path_expr \<times> json) list \<Rightarrow> json fresult option" where
  "modify_all fuel env mt res [] = Some (Inr res)"
| "modify_all fuel env mt res ((e, v) # changes) =
     and_then (modify_step fuel env mt res (legs e) v) (\<lambda>res. modify_all fuel env mt res changes)"

definition modify ::
    "nat \<Rightarrow> json_env \<Rightarrow> (path_expr \<Rightarrow> string) \<Rightarrow> json_ref \<Rightarrow> path_expr list \<Rightarrow> json list \<Rightarrow> modify_type \<Rightarrow> json fresult option" where
  "modify fuel env show_expr j path_expr_list vals mt =
     (if length path_expr_list \<noteq> length vals
      then Some (Inl (box_err (''Incorrect number of parameters: expected: '' @ show_nat (length vals)
             @ '', found '' @ show_nat (length path_expr_list))))
      else (case find contains_any_asterisk path_expr_list of
              Some e \<Rightarrow> Some (Inl (box_err (''Invalid local_path expression: expected no asterisk, found '' @ show_expr e)))
            | None \<Rightarrow> modify_all fuel env mt (json_to_owned j) (zip path_expr_list vals)))"

fun remove_each :: "nat \<Rightarrow> json_env \<Rightarrow> json \<Rightarrow> path_expr list \<Rightarrow> json fresult option" where
  "remove_each fuel env res [] = Some (Inr res)"
| "remove_each fuel env res (e # es) =
     and_then (modifier_remove fuel env (modifier_new (json_as_ref 0 res)) (legs e)) (\<lambda>res. remove_each fuel env res es)"

definition json_remove :: "nat \<Rightarrow> json_env \<Rightarrow> json_ref \<Rightarrow> path_expr list \<Rightarrow> json fresult option" where
  "json_remove fuel env j path_expr_list =
     (if \<exists>e\<in>set path_expr_list. legs e = [] \<or> contains_any_asterisk e
      then Some (Inl (box_err ''Invalid local_path expression''))
      else remove_each fuel env (json_to_owned j) path_expr_list)"

end
