(* ===== verification/Json_Modify_Correct.thy ===== *)
theory Json_Modify_Correct
  imports Json_Modify
begin

text \<open>
  Changing an encoded document gives the encoding of the changed document: the addresses of nodes,
  the rebuilding around one node, and the four operations.
\<close>

section \<open>Addresses\<close>

lemma elem_disjoint:
  assumes ok: "\<forall>v\<in>set vs. val_ok env v" and off: "pre + 5 * length vs \<le> off"
    and i: "i < length vs" and j: "j < length vs" and ne: "i \<noteq> j"
    and q: "elem_pos pre off vs i \<le> q" "q < elem_pos pre off vs i + length (snd (vs ! i))"
  shows "\<not> (elem_pos pre off vs j \<le> q \<and> q < elem_pos pre off vs j + length (snd (vs ! j)))"
proof -
  have lit: "length (snd (vs ! k)) = 1" if "k < length vs" "fst (vs ! k) = JLiteral" for k
    using ok that nth_mem[OF that(1)] by (fastforce simp: val_ok_def)
  have st: "length (stored_all (take a vs)) + length (snd (vs ! a)) \<le> length (stored_all (take b vs))"
    if "a < b" "b < length vs" "fst (vs ! a) \<noteq> JLiteral" for a b
  proof -
    have "take b vs = take a vs @ vs ! a # drop (Suc a) (take b vs)"
      using that id_take_nth_drop[of a "take b vs"] by (simp add: min_def)
    then show ?thesis using that by (metis (no_types, lifting) le_add1 length_append stored_all_simps(2,3) stored_def add.assoc)
  qed
  from ne consider "i < j" | "j < i" by linarith
  then show ?thesis
    by cases (use lit[OF i] lit[OF j] st[of i j] st[of j i] i j q off in \<open>auto simp: elem_pos_def split: if_splits\<close>)
qed

lemma elem_inside:
  assumes "val_ok env (vs ! i)" "pre + 5 * length vs \<le> off" "i < length vs" "0 < pre"
  shows "0 < elem_pos pre off vs i" "elem_pos pre off vs i + length (snd (vs ! i)) \<le> off + length (stored_all vs)"
proof -
  show "0 < elem_pos pre off vs i" using assms by (auto simp: elem_pos_def)
  show "elem_pos pre off vs i + length (snd (vs ! i)) \<le> off + length (stored_all vs)"
  proof (cases "fst (vs ! i) = JLiteral")
    case True
    then show ?thesis using assms by (auto simp: elem_pos_def val_ok_def)
  next
    case False
    have "vs = take i vs @ vs ! i # drop (Suc i) vs" using assms(3) by (rule id_take_nth_drop)
    then have "stored_all vs = stored_all (take i vs) @ snd (vs ! i) @ stored_all (drop (Suc i) vs)"
      using False by (metis stored_all_simps(2,3) stored_def)
    then show ?thesis using False by (simp add: elem_pos_def)
  qed
qed

definition inside :: "nat \<Rightarrow> json_ref \<Rightarrow> bool" where
  "inside q r \<longleftrightarrow> as_ptr r \<le> q \<and> q < as_ptr r + length (causet_locale r)"

lemma container_cases:
  assumes "i < length (children d)"
  obtains ds where "d = DArr ds" | kvs where "d = DObj kvs"
  using assms by (cases d) auto

lemma child_inside:
  assumes env: "json_env_ok env" and d: "doc_ok env d" and i: "i < length (children d)"
  shows "0 < child_pos env d i" "child_pos env d i + length (enc env (children d ! i)) \<le> length (enc env d)"
proof -
  have v: "val_ok env (map (doc_val env) (children d) ! i)"
    using doc_val_ok[OF env] doc_ok_children[OF d] i by simp
  have "0 < child_pos env d i \<and> child_pos env d i + length (enc env (children d ! i)) \<le> length (enc env d)"
    using i
  proof (cases rule: container_cases)
    case (1 ds)
    then show ?thesis using elem_inside[OF v, of 8 "8 + 5 * length ds"] i
      by (simp add: child_pos_def enc_Arr length_array_layout array_size_def)
  next
    case (2 kvs)
    let ?off = "8 + 11 * length kvs + length (concat (map fst kvs))"
    have "length (enc env d) = ?off + length (stored_all (map (doc_val env) (children d)))"
      unfolding 2 enc_Obj length_object_layout object_size_def map_member_val by simp
    then show ?thesis using elem_inside[OF v, of "8 + 6 * length kvs" ?off] i 2 by (simp add: child_pos_def)
  qed
  then show "0 < child_pos env d i" "child_pos env d i + length (enc env (children d ! i)) \<le> length (enc env d)" by auto
qed

lemma child_disjoint:
  assumes env: "json_env_ok env" and d: "doc_ok env d"
    and i: "i < length (children d)" and j: "j < length (children d)" and ne: "i \<noteq> j"
    and q: "inside q (child_ref env p d i)"
  shows "\<not> inside q (child_ref env p d j)"
proof -
  have ok: "\<forall>v\<in>set (map (doc_val env) (children d)). val_ok env v"
    using doc_val_ok[OF env] doc_ok_children[OF d] by auto
  have ij: "i < length (map (doc_val env) (children d))" "j < length (map (doc_val env) (children d))" using i j by simp_all
  have p: "p \<le> q" using q by (simp add: inside_def child_ref_def)
  from i show ?thesis
  proof (cases rule: container_cases)
    case (1 ds)
    then show ?thesis using elem_disjoint[OF ok _ ij ne, of 8 "8 + 5 * length ds" "q - p"] q p i j
      by (simp add: inside_def child_ref_def child_pos_def) linarith
  next
    case (2 kvs)
    then show ?thesis
      using elem_disjoint[OF ok _ ij ne, of "8 + 6 * length kvs" "8 + 11 * length kvs + length (concat (map fst kvs))" "q - p"] q p i j
      by (simp add: inside_def child_ref_def child_pos_def) linarith
  qed
qed

fun valid_pos :: "doc \<Rightarrow> nat list \<Rightarrow> bool" where
  "valid_pos d [] \<longleftrightarrow> True"
| "valid_pos d (i # pos) \<longleftrightarrow> i < length (children d) \<and> valid_pos (children d ! i) pos"

lemma enc_nonempty: "json_env_ok env \<Longrightarrow> doc_ok env d \<Longrightarrow> 0 < length (enc env d)"
  using depth_le_bytes[of env d] doc_depth_children[of d] by linarith

lemma node_inside:
  assumes "json_env_ok env" "doc_ok env d" "valid_pos d pos"
  shows "inside (as_ptr (node env p d pos)) (doc_ref env p d)" "pos \<noteq> [] \<Longrightarrow> p < as_ptr (node env p d pos)"
proof -
  have "inside (as_ptr (node env p d pos)) (doc_ref env p d) \<and> (pos \<noteq> [] \<longrightarrow> p < as_ptr (node env p d pos))"
    using assms(2,3)
  proof (induction pos arbitrary: p d)
    case Nil
    then show ?case using enc_nonempty[OF assms(1)] by (simp add: inside_def)
  next
    case (Cons i pos)
    then have i: "i < length (children d)" by simp
    have "doc_ok env (children d ! i)" using doc_ok_children[OF Cons.prems(1)] i by simp
    then have "inside (as_ptr (node env (p + child_pos env d i) (children d ! i) pos)) (doc_ref env (p + child_pos env d i) (children d ! i))"
      using Cons.IH Cons.prems(2) by simp
    then show ?case using child_inside[OF assms(1) Cons.prems(1) i] by (simp add: inside_def)
  qed
  then show "inside (as_ptr (node env p d pos)) (doc_ref env p d)" "pos \<noteq> [] \<Longrightarrow> p < as_ptr (node env p d pos)" by auto
qed

section \<open>Rebuilding the values of a container\<close>

lemma patch_mid:
  "json_env_ok env \<Longrightarrow> length x = 4 \<Longrightarrow> i = length P \<Longrightarrow> patch_u32 env (P @ x @ Q) i v = Some (P @ le_bytes 4 v @ Q)"
  by (simp add: patch_u32_def json_env_okD(6))

lemma rebuild_step_literal:
  assumes env: "json_env_ok env" and get: "val_causet_get env current (start + i * 5) = Some (Inr r)"
    and step: "step r ptr buf = Some (Inr (JLiteral, ptr', buf @ [b]))"
    and buf: "buf = P @ x0 # x4 @ R" "length x4 = 4" "length P = length B + (start + i * 5)"
  shows "rebuild_values env step current (length B) start (i # ks) ptr buf =
    rebuild_values env step current (length B) start ks ptr' (P @ value_entry env off (JLiteral, [b]) @ R)"
proof -
  define Z where "Z = P @ json_type_as_u8 env JLiteral # x4 @ R"
  define Z' where "Z' = P @ json_type_as_u8 env JLiteral # le_bytes 4 b @ R"
  have len: "length Z' = length Z" "length B \<le> length buf" using buf by (simp_all add: Z_def Z'_def)
  have s: "set_at (buf @ [b]) (length B + (start + i * 5)) (json_type_as_u8 env JLiteral) = Some (Z @ [b])"
    using set_at_mid[of _ P x0 "x4 @ R @ [b]"] buf by (simp add: Z_def)
  have p: "patch_u32 env (Z @ [b]) (length B + (start + i * 5) + 1) b = Some (Z' @ [b])"
    using patch_mid[OF env buf(2), of _ "P @ [json_type_as_u8 env JLiteral]" "R @ [b]"] buf by (simp add: Z_def Z'_def)
  have g: "get_at (Z @ [b]) (length Z) = Some b" by (simp add: get_at_def)
  have "P @ value_entry env off (JLiteral, [b]) @ R = Z'" by (simp add: Z'_def value_entry_def)
  then show ?thesis using get step s p g len by (simp add: try_res_def usub_def)
qed

lemma rebuild_step_stored:
  assumes env: "json_env_ok env" and get: "val_causet_get env current (start + i * 5) = Some (Inr r)"
    and step: "step r ptr buf = Some (Inr (fst v, ptr', buf @ snd v))" and v: "fst v \<noteq> JLiteral"
    and buf: "buf = P @ x0 # x4 @ R" "length x4 = 4" "length P = length B + (start + i * 5)"
    and off: "length buf = length B + off" "off < 2 ^ 32"
  shows "rebuild_values env step current (length B) start (i # ks) ptr buf =
    rebuild_values env step current (length B) start ks ptr' (P @ value_entry env off v @ R @ snd v)"
proof -
  have s: "set_at (buf @ snd v) (length B + (start + i * 5)) (json_type_as_u8 env (fst v)) =
      Some (P @ json_type_as_u8 env (fst v) # x4 @ R @ snd v)"
    using set_at_mid[of _ P x0 "x4 @ R @ snd v"] buf by simp
  have p: "patch_u32 env (P @ json_type_as_u8 env (fst v) # x4 @ R @ snd v) (length B + (start + i * 5) + 1) off =
      Some (P @ value_entry env off v @ R @ snd v)"
    using patch_mid[OF env buf(2), of _ "P @ [json_type_as_u8 env (fst v)]" "R @ snd v"] buf v by (simp add: value_entry_def)
  show ?thesis using get step s p off v by (simp add: try_res_def usub_def)
qed

lemma rebuild_values_layout:
  assumes env: "json_env_ok env"
    and get: "\<And>i. i < length vs \<Longrightarrow> val_causet_get env current (start + i * 5) = Some (Inr (r i))"
    and step: "\<And>i buf. i < length vs \<Longrightarrow>
      step (r i) (qs i) buf = Some (Inr (fst (vs ! i), qs (Suc i), buf @ snd (vs ! i)))"
    and ok: "\<And>i. i < length vs \<Longrightarrow> val_ok env (vs ! i)"
    and lens: "length pre = start" "off = start + 5 * length vs + length mid" "off + length (stored_all vs) < 2 ^ 32"
  shows "k \<le> length vs \<Longrightarrow> length X = 5 * (length vs - k) \<Longrightarrow>
    rebuild_values env step current (length B) start [k..<length vs] (qs k)
      (B @ pre @ value_entries env off (take k vs) @ X @ mid @ stored_all (take k vs)) =
    Some (Inr (qs (length vs), B @ pre @ value_entries env off vs @ mid @ stored_all vs))"
proof (induction "length vs - k" arbitrary: k X)
  case 0
  then show ?case by simp
next
  case (Suc m)
  then have k: "k < length vs" by simp
  from Suc.prems(2) k obtain x0 x4 X' where X: "X = x0 # x4 @ X'" "length x4 = 4" "length X' = 5 * (length vs - Suc k)"
  proof -
    assume *: "\<And>x0 x4 X'. X = x0 # x4 @ X' \<Longrightarrow> length x4 = 4 \<Longrightarrow> length X' = 5 * (length vs - Suc k) \<Longrightarrow> thesis"
    have l: "5 \<le> length X" "length X - 5 = 5 * (length vs - Suc k)" using Suc.prems(2) k by (auto simp: diff_mult_distrib2)
    then have "X = hd X # take 4 (tl X) @ drop 4 (tl X)" by (cases X) auto
    moreover have "length (take 4 (tl X)) = 4" "length (drop 4 (tl X)) = 5 * (length vs - Suc k)" using l by simp_all
    ultimately show thesis by (rule *)
  qed
  define v where "v = vs ! k"
  have v: "val_ok env v" using ok[OF k] by (simp add: v_def)
  have tk: "take (Suc k) vs = take k vs @ [v]" using k by (simp add: v_def take_Suc_conv_app_nth)
  let ?P = "B @ pre @ value_entries env off (take k vs)"
  let ?S = "stored_all (take k vs)"
  let ?off = "off + length ?S"
  have lP: "length ?P = length B + (start + k * 5)" using lens k by simp
  have rng: "[k..<length vs] = k # [Suc k..<length vs]" using k by (simp add: upt_conv_Cons)
  let ?buf = "?P @ (x0 # x4 @ X') @ mid @ ?S"
  have lbuf: "length ?buf = length B + ?off" using lens X k by (simp add: algebra_simps diff_mult_distrib2)
  have lt: "?off < 2 ^ 32"
  proof -
    have "vs = take k vs @ drop k vs" by simp
    then have "stored_all vs = stored_all (take k vs) @ stored_all (drop k vs)" by (metis stored_all_simps(3))
    then show ?thesis using lens(3) by simp
  qed
  let ?next = "?P @ value_entry env ?off v @ X' @ mid @ stored_all (take (Suc k) vs)"
  have be: "?buf = ?P @ x0 # x4 @ (X' @ mid @ ?S)" by simp
  have one: "rebuild_values env step current (length B) start (k # ks) (qs k) ?buf =
      rebuild_values env step current (length B) start ks (qs (Suc k)) ?next" for ks
  proof (cases "fst v = JLiteral")
    case True
    with v obtain b where b: "v = (JLiteral, [b])" by (cases v) (auto simp: val_ok_def)
    have "step (r k) (qs k) ?buf = Some (Inr (JLiteral, qs (Suc k), ?buf @ [b]))"
      using step[OF k, of ?buf] by (simp add: v_def[symmetric] b)
    from rebuild_step_literal[where step = step and r = "r k" and ptr = "qs k" and ptr' = "qs (Suc k)" and B = B, OF env get[OF k] this be X(2) lP, of ks ?off] show ?thesis
      by (simp add: b tk stored_def)
  next
    case False
    have "step (r k) (qs k) ?buf = Some (Inr (fst v, qs (Suc k), ?buf @ snd v))"
      using step[OF k, of ?buf] by (simp add: v_def[symmetric])
    from rebuild_step_stored[where step = step and r = "r k" and ptr = "qs k" and ptr' = "qs (Suc k)" and B = B, OF env get[OF k] this False be X(2) lP lbuf lt, of ks] False show ?thesis
      by (simp add: tk stored_def)
  qed
  have nxt: "?next = B @ pre @ value_entries env off (take (Suc k) vs) @ X' @ mid @ stored_all (take (Suc k) vs)"
    by (simp add: tk value_entries_append)
  show ?case unfolding rng X(1) using one[of "[Suc k..<length vs]"] Suc.hyps(1)[of "Suc k" X'] Suc.hyps(2) k X(3)
    unfolding nxt by simp
qed

section \<open>Rebuilding a document\<close>

definition with_children :: "doc \<Rightarrow> doc list \<Rightarrow> doc" where
  "with_children d cs = (case d of DArr _ \<Rightarrow> DArr cs | DObj kvs \<Rightarrow> DObj (zip (map fst kvs) cs) | _ \<Rightarrow> d)"

fun replace_at :: "doc \<Rightarrow> nat list \<Rightarrow> doc \<Rightarrow> doc" where
  "replace_at d [] c = c"
| "replace_at d (i # pos) c = with_children d ((children d)[i := replace_at (children d ! i) pos c])"

lemma children_with_children [simp]:
  "length cs = length (children d) \<Longrightarrow> children (with_children d cs) = cs"
  "doc_type (with_children d cs) = doc_type d"
  by (cases d; simp add: with_children_def)+

lemma with_children_id [simp]: "with_children d (children d) = d"
  by (cases d) (simp_all add: with_children_def zip_map_fst_snd)

lemma soliton_ids_slice_doc:
  assumes env: "json_env_ok env" and d: "doc_ok env (DObj kvs)"
  shows "soliton_ids_slice env (doc_ref env p (DObj kvs)) (length kvs) = Some (concat (map fst kvs))"
proof (cases "length kvs = 0")
  case False
  let ?ks = "map fst kvs" and ?n = "8 + 11 * length kvs"
  let ?m = "length kvs - 1"
  let ?off = "?n + length (concat (take ?m ?ks))"
  from False have i: "0 < length kvs" "?m < length kvs" by auto
  obtain T where first: "drop_at (enc env (DObj kvs)) 8 = Some (le_bytes 4 ?n @ T)" "?n < 2 ^ 32"
    using object_key_entry[OF env d i(1) refl] by auto
  obtain U W where last: "drop_at (enc env (DObj kvs)) (8 + ?m * 6) = Some (le_bytes 4 ?off @ U)"
    "drop_at (enc env (DObj kvs)) (8 + ?m * 6 + 4) = Some (le_bytes 2 (length (fst (kvs ! ?m))) @ W)"
    "?off < 2 ^ 32" "length (fst (kvs ! ?m)) < 2 ^ 16"
    using object_key_entry[OF env d i(2) refl] by blast
  have "?ks = take ?m ?ks @ [fst (kvs ! ?m)]"
    using take_Suc_conv_app_nth[of ?m ?ks] i by simp
  then have "length (concat ?ks) = length (concat (take ?m ?ks)) + length (fst (kvs ! ?m))"
    by (metis (no_types) concat.simps concat_append append_Nil2 length_append)
  then have stop: "?off + length (fst (kvs ! ?m)) = ?n + length (concat ?ks)" by simp
  let ?P = "le_bytes 4 (length kvs) @ le_bytes 4 (object_size (map (member_val env) kvs)) @ key_entries ?n ?ks
    @ value_entries env (?n + length (concat ?ks)) (map (doc_val env) (map snd kvs))"
  have "enc env (DObj kvs) = ?P @ concat ?ks @ stored_all (map (doc_val env) (map snd kvs))"
    unfolding enc_Obj object_layout_def map_member_val by simp
  then have "slice_at (enc env (DObj kvs)) ?n (?n + length (concat ?ks)) = Some (concat ?ks)"
    by (simp only:) (rule slice_at_append, simp_all)
  then have "slice_at (enc env (DObj kvs)) ?n (?off + length (fst (kvs ! ?m))) = Some (concat ?ks)" unfolding stop .
  then show ?thesis unfolding soliton_ids_slice_def
    using i first last decode_u32_append[OF env] decode_u16_append[OF env] by simp
qed (simp add: soliton_ids_slice_def)

lemma rebuild_container:
  assumes env: "json_env_ok env" and d: "doc_ok env d" and t: "doc_type d = JArray \<or> doc_type d = JObject"
    and cs: "length cs = length (children d)" and d': "doc_ok env (with_children d cs)"
    and step: "\<And>i buf. i < length cs \<Longrightarrow> rebuild_to fuel env new (child_ref env p d i) (qs i) buf =
      Some (Inr (doc_type (cs ! i), qs (Suc i), buf @ enc env (cs ! i)))"
    and ptr: "qs 0 \<noteq> None" "qs 0 \<noteq> Some p"
  shows "rebuild_to (Suc fuel) env new (doc_ref env p d) (qs 0) buf =
    Some (Inr (doc_type d, qs (length cs), buf @ enc env (with_children d cs)))"
proof -
  let ?vs = "map (doc_val env) cs"
  have cok: "\<And>i. i < length ?vs \<Longrightarrow> val_ok env (?vs ! i)"
    using doc_val_ok[OF env] doc_ok_children[OF d'] cs by simp
  have st: "\<And>i b. i < length ?vs \<Longrightarrow> rebuild_to fuel env new (child_ref env p d i) (qs i) b =
      Some (Inr (fst (?vs ! i), qs (Suc i), b @ snd (?vs ! i)))" using step by simp
  obtain q0 where q0: "qs 0 = Some q0" "q0 \<noteq> p" using ptr by auto
  from t consider ds where "d = DArr ds" | kvs where "d = DObj kvs" by (cases d) auto
  then show ?thesis
  proof cases
    case (1 ds)
    have n: "length cs = length ds" using cs 1 by simp
    have sz: "array_size ?vs < 2 ^ 32" using d' by (simp add: 1 with_children_def)
    let ?pre = "le_bytes 4 (length ds) @ le_bytes 4 (array_size (map (doc_val env) ds))"
    let ?off = "8 + 5 * length ds"
    let ?X = "value_entries env ?off (map (doc_val env) ds)"
    have get: "\<And>i. i < length ?vs \<Longrightarrow> val_causet_get env (doc_ref env p d) (8 + i * 5) = Some (Inr (child_ref env p d i))"
      using array_elem_doc[OF env d[unfolded 1]] n by (simp add: 1 array_get_elem_def)
    have "rebuild_values env (rebuild_to fuel env new) (doc_ref env p d) (length buf) 8 [0..<length ?vs] (qs 0)
        (buf @ ?pre @ value_entries env ?off (take 0 ?vs) @ ?X @ [] @ stored_all (take 0 ?vs)) =
      Some (Inr (qs (length ?vs), buf @ ?pre @ value_entries env ?off ?vs @ [] @ stored_all ?vs))"
      by (rule rebuild_values_layout[OF env get st cok]) (use n sz in \<open>simp_all add: array_size_def\<close>)
    then have loop: "rebuild_values env (rebuild_to fuel env new) (doc_ref env p d) (length buf) 8 [0..<length ds] (qs 0)
        (buf @ ?pre @ ?X) = Some (Inr (qs (length cs), buf @ ?pre @ value_entries env ?off ?vs @ stored_all ?vs))"
      using n by simp
    have h: "slice_at (enc env d) 0 (8 + length ds * 5) = Some (?pre @ ?X)"
      using slice_at_append[of 0 "[]" _ "?pre @ ?X" "stored_all (map (doc_val env) ds)"]
      by (simp add: 1 enc_Arr array_layout_def mult.commute)
    let ?R = "value_entries env ?off ?vs @ stored_all ?vs"
    have pt: "patch_u32 env (buf @ ?pre @ ?R) (length buf + 4) (array_size ?vs) = Some (buf @ enc env (with_children d cs))"
      using patch_mid[OF env, of "le_bytes 4 (array_size (map (doc_val env) ds))" _ "buf @ le_bytes 4 (length ds)" ?R]
      by (simp add: 1 with_children_def enc_Arr array_layout_def n)
    have len: "length (buf @ ?pre @ ?R) = length buf + array_size ?vs" using n by (simp add: array_size_def)
    have cnt: "get_elem_count env (doc_ref env p d) = Some (length ds)" using elem_count_doc[OF env d t] by (simp add: 1)
    show ?thesis using q0 cnt h loop pt len sz by (simp add: 1 try_res_def usub_def)
  next
    case (2 kvs)
    have n: "length cs = length kvs" using cs 2 by simp
    let ?ks = "map fst kvs" and ?ms = "map (member_val env) kvs" and ?kvs' = "zip (map fst kvs) cs"
    have k': "map fst (map (member_val env) ?kvs') = ?ks" "map snd (map (member_val env) ?kvs') = ?vs" "length ?kvs' = length kvs"
      unfolding map_member_val using n by simp_all
    have sz: "object_size (map (member_val env) ?kvs') < 2 ^ 32" using d' by (simp add: 2 with_children_def)
    have sz': "object_size (map (member_val env) ?kvs') = 8 + 11 * length kvs + length (concat ?ks) + length (stored_all ?vs)"
      unfolding object_size_def k' using n by simp
    let ?n = "8 + 11 * length kvs"
    let ?pre = "le_bytes 4 (length kvs) @ le_bytes 4 (object_size ?ms) @ key_entries ?n ?ks"
    let ?off = "?n + length (concat ?ks)"
    let ?X = "value_entries env ?off (map (doc_val env) (map snd kvs))"
    have cnt: "get_elem_count env (doc_ref env p d) = Some (length kvs)" using elem_count_doc[OF env d t] by (simp add: 2)
    have get: "\<And>i. i < length ?vs \<Longrightarrow>
        val_causet_get env (doc_ref env p d) (8 + 6 * length kvs + i * 5) = Some (Inr (child_ref env p d i))"
    proof -
      fix i assume "i < length ?vs"
      then show "val_causet_get env (doc_ref env p d) (8 + 6 * length kvs + i * 5) = Some (Inr (child_ref env p d i))"
        using object_val_doc[OF env d[unfolded 2], of i p] n cnt by (simp add: 2 object_get_val_def mult.commute)
    qed
    have "rebuild_values env (rebuild_to fuel env new) (doc_ref env p d) (length buf) (8 + 6 * length kvs) [0..<length ?vs] (qs 0)
        (buf @ ?pre @ value_entries env ?off (take 0 ?vs) @ ?X @ concat ?ks @ stored_all (take 0 ?vs)) =
      Some (Inr (qs (length ?vs), buf @ ?pre @ value_entries env ?off ?vs @ concat ?ks @ stored_all ?vs))"
      by (rule rebuild_values_layout[OF env get st cok]) (use n sz sz' in \<open>simp_all\<close>)
    then have loop: "rebuild_values env (rebuild_to fuel env new) (doc_ref env p d) (length buf) (8 + 6 * length kvs) [0..<length kvs] (qs 0)
        (buf @ (?pre @ ?X) @ concat ?ks) = Some (Inr (qs (length cs), buf @ ?pre @ value_entries env ?off ?vs @ concat ?ks @ stored_all ?vs))"
      using n by simp
    have h: "slice_at (enc env d) 0 (8 + length kvs * 11) = Some (?pre @ ?X)"
      using slice_at_append[of 0 "[]" _ "?pre @ ?X" "concat ?ks @ stored_all (map (doc_val env) (map snd kvs))"]
      unfolding 2 enc_Obj object_layout_def map_member_val by (simp add: mult.commute)
    let ?R = "key_entries ?n ?ks @ value_entries env ?off ?vs @ concat ?ks @ stored_all ?vs"
    have e: "enc env (with_children d cs) =
        le_bytes 4 (length kvs) @ le_bytes 4 (object_size (map (member_val env) ?kvs')) @ ?R"
      unfolding 2 with_children_def doc.case enc_Obj object_layout_def k' using n by simp
    have pt: "patch_u32 env (buf @ (le_bytes 4 (length kvs) @ le_bytes 4 (object_size ?ms)) @ ?R) (length buf + 4)
        (object_size (map (member_val env) ?kvs')) = Some (buf @ enc env (with_children d cs))"
      using patch_mid[OF env, of "le_bytes 4 (object_size ?ms)" _ "buf @ le_bytes 4 (length kvs)" ?R] by (simp add: e)
    have len: "length (buf @ ?pre @ value_entries env ?off ?vs @ concat ?ks @ stored_all ?vs) =
        length buf + object_size (map (member_val env) ?kvs')" using n sz' by simp
    have ids: "soliton_ids_slice env (doc_ref env p d) (length kvs) = Some (concat ?ks)"
      using soliton_ids_slice_doc[OF env d[unfolded 2]] by (simp add: 2)
    show ?thesis using q0 cnt h ids loop pt len sz by (simp add: 2 try_res_def usub_def mult.commute)
  qed
qed

lemma rebuild_none: "0 < fuel \<Longrightarrow> rebuild_to fuel env new (doc_ref env p d) None buf = Some (Inr (doc_type d, None, buf @ enc env d))"
  by (cases fuel) simp_all

lemma depth_pos: "0 < doc_depth d"
  by (simp add: doc_depth_children[of d])

lemma depth_child: "c \<in> set (children d) \<Longrightarrow> doc_depth c < doc_depth d"
  by (simp add: doc_depth_children[of d] less_Suc_eq_le)

lemma no_container: "\<not> (doc_type d = JArray \<or> doc_type d = JObject) \<Longrightarrow> children d = []"
  by (cases d) auto

lemma child_ref_inside:
  assumes "json_env_ok env" "doc_ok env d" "i < length (children d)"
  shows "inside q (child_ref env p d i) \<Longrightarrow> inside q (doc_ref env p d)" "p < as_ptr (child_ref env p d i)"
  using child_inside[OF assms] by (auto simp: inside_def child_ref_def)

text \<open>A document without the node is copied.\<close>

lemma rebuild_outside:
  assumes env: "json_env_ok env"
  shows "doc_ok env d \<Longrightarrow> doc_depth d \<le> fuel \<Longrightarrow> \<not> inside q (doc_ref env p d) \<Longrightarrow>
    rebuild_to fuel env new (doc_ref env p d) (Some q) buf = Some (Inr (doc_type d, Some q, buf @ enc env d))"
proof (induction fuel arbitrary: p d buf)
  case 0
  then show ?case using depth_pos[of d] by simp
next
  case (Suc fuel)
  have q: "q \<noteq> p" using Suc.prems(3) enc_nonempty[OF env Suc.prems(1)] by (auto simp: inside_def)
  show ?case
  proof (cases "doc_type d = JArray \<or> doc_type d = JObject")
    case True
    have "rebuild_to (Suc fuel) env new (doc_ref env p d) ((\<lambda>_. Some q) (0::nat)) buf =
        Some (Inr (doc_type d, (\<lambda>_. Some q) (length (children d)), buf @ enc env (with_children d (children d))))"
    proof (rule rebuild_container[OF env Suc.prems(1) True])
      fix i buf assume i: "i < length (children d)"
      then have c: "children d ! i \<in> set (children d)" by simp
      have "\<not> inside q (child_ref env p d i)" using child_ref_inside(1)[OF env Suc.prems(1) i] Suc.prems(3) by blast
      then show "rebuild_to fuel env new (child_ref env p d i) (Some q) buf =
          Some (Inr (doc_type (children d ! i), Some q, buf @ enc env (children d ! i)))"
        using Suc.IH[OF doc_ok_children[OF Suc.prems(1) c]] depth_child[OF c] Suc.prems(2) by (simp add: child_ref_def)
    qed (use Suc.prems(1) q in simp_all)
    then show ?thesis by simp
  qed (use q in simp)
qed

text \<open>A document with the node gets the replacement there.\<close>

lemma rebuild_inside:
  assumes env: "json_env_ok env"
  shows "doc_ok env d \<Longrightarrow> doc_depth d \<le> fuel \<Longrightarrow> valid_pos d pos \<Longrightarrow> doc_ok env (replace_at d pos c) \<Longrightarrow>
    rebuild_to fuel env (Some (doc_json env c)) (doc_ref env p d) (Some (as_ptr (node env p d pos))) buf =
    Some (Inr (doc_type (replace_at d pos c), None, buf @ enc env (replace_at d pos c)))"
proof (induction pos arbitrary: fuel p d buf)
  case Nil
  then obtain f where "fuel = Suc f" using depth_pos[of d] by (cases fuel) auto
  then show ?case by (simp add: doc_json_def)
next
  case (Cons i pos)
  let ?q = "as_ptr (node env p d (i # pos))"
  let ?c = "replace_at (children d ! i) pos c"
  let ?cs = "(children d)[i := ?c]"
  let ?qs = "\<lambda>j. if j \<le> i then Some ?q else None"
  obtain f where f: "fuel = Suc f" using Cons.prems(2) depth_pos[of d] by (cases fuel) auto
  have i: "i < length (children d)" and vp: "valid_pos (children d ! i) pos" using Cons.prems(3) by auto
  have t: "doc_type d = JArray \<or> doc_type d = JObject" using i no_container[of d] by fastforce
  have oki: "doc_ok env (children d ! i)" using doc_ok_children[OF Cons.prems(1)] i by simp
  have okc: "doc_ok env ?c" using doc_ok_children[OF Cons.prems(4), of ?c] i by (simp add: set_update_memI)
  have dep: "doc_depth (children d ! j) \<le> f" if "j < length (children d)" for j
    using depth_child[of "children d ! j" d] that Cons.prems(2) f by simp
  have qi: "?q = as_ptr (node env (p + child_pos env d i) (children d ! i) pos)" by simp
  have ins: "inside ?q (child_ref env p d i)"
    using node_inside(1)[OF env oki vp] unfolding qi child_ref_def by blast
  have "rebuild_to (Suc f) env (Some (doc_json env c)) (doc_ref env p d) (?qs 0) buf =
      Some (Inr (doc_type d, ?qs (length ?cs), buf @ enc env (with_children d ?cs)))"
  proof (rule rebuild_container[OF env Cons.prems(1) t])
    fix j buf assume "j < length ?cs"
    then have j: "j < length (children d)" by simp
    have okj: "doc_ok env (children d ! j)" using doc_ok_children[OF Cons.prems(1)] j by simp
    consider "j < i" | "j = i" | "i < j" by linarith
    then show "rebuild_to f env (Some (doc_json env c)) (child_ref env p d j) (?qs j) buf =
        Some (Inr (doc_type (?cs ! j), ?qs (Suc j), buf @ enc env (?cs ! j)))"
    proof cases
      case 1
      then have "\<not> inside ?q (child_ref env p d j)" using child_disjoint[OF env Cons.prems(1) i j _ ins] by simp
      from rebuild_outside[OF env okj dep[OF j] this[unfolded child_ref_def]] 1 show ?thesis by (simp add: child_ref_def)
    next
      case 2
      then show ?thesis using Cons.IH[OF oki dep[OF i] vp okc] i by (simp add: child_ref_def)
    next
      case 3
      have "0 < f" using dep[OF j] depth_pos[of "children d ! j"] by linarith
      from rebuild_none[OF this] 3 show ?thesis by (simp add: child_ref_def)
    qed
  next
    show "?qs 0 \<noteq> Some p" using child_ref_inside(2)[OF env Cons.prems(1) i, of p] ins by (auto simp: inside_def)
  qed (use Cons.prems(4) in simp_all)
  then show ?case using i by (simp add: f)
qed

end
