(* ===== verification/Json_Change.thy ===== *)
theory Json_Change
  imports Json_Modify_Correct
begin

text \<open>
  JSON_SET, JSON_REPLACE, JSON_INSERT and JSON_REMOVE as operations on documents, and that the
  modifier implements them on encoded documents.
\<close>

section \<open>Changing a document\<close>

text \<open>Replace the first node a path selects by what \<open>f\<close> makes of it, if anything.\<close>

definition doc_change :: "doc \<Rightarrow> path_leg list \<Rightarrow> (doc \<Rightarrow> doc option) \<Rightarrow> doc" where
  "doc_change d ls f =
     (case select_pos d ls of
        [] \<Rightarrow> d
      | pos # _ \<Rightarrow> (case f (doc_at d pos) of None \<Rightarrow> d | Some c \<Rightarrow> replace_at d pos c))"

definition extended :: "path_leg \<Rightarrow> doc \<Rightarrow> doc \<Rightarrow> doc option" where
  "extended leg new x =
     (case leg of
        Index _ \<Rightarrow> Some (case x of DArr ds \<Rightarrow> DArr (ds @ [new]) | _ \<Rightarrow> DArr [x, new])
      | Key k \<Rightarrow> (case x of DObj kvs \<Rightarrow> Some (DObj (sort_key fst (kvs @ [(k, new)]))) | _ \<Rightarrow> None)
      | DoubleAsterisk \<Rightarrow> None)"

definition reduced :: "path_leg \<Rightarrow> doc \<Rightarrow> doc option" where
  "reduced leg x =
     (case leg of
        Index i \<Rightarrow> (case x of DArr ds \<Rightarrow> Some (DArr (take (nat i) ds @ drop (Suc (nat i)) ds)) | _ \<Rightarrow> None)
      | Key k \<Rightarrow> (case x of DObj kvs \<Rightarrow> Some (DObj (filter (\<lambda>kd. fst kd \<noteq> k) kvs)) | _ \<Rightarrow> None)
      | DoubleAsterisk \<Rightarrow> None)"

definition doc_replace :: "doc \<Rightarrow> path_leg list \<Rightarrow> doc \<Rightarrow> doc" where
  "doc_replace d ls new = doc_change d ls (\<lambda>_. Some new)"

definition doc_insert :: "doc \<Rightarrow> path_leg list \<Rightarrow> doc \<Rightarrow> doc" where
  "doc_insert d ls new =
     (if doc_select d ls \<noteq> [] then d else doc_change d (butlast ls) (extended (last ls) new))"

definition doc_set :: "doc \<Rightarrow> path_leg list \<Rightarrow> doc \<Rightarrow> doc" where
  "doc_set d ls new = (if doc_select d ls \<noteq> [] then doc_replace d ls new else doc_insert d ls new)"

definition doc_remove :: "doc \<Rightarrow> path_leg list \<Rightarrow> doc" where
  "doc_remove d ls =
     (if ls = [] \<or> doc_select d ls = [] then d else doc_change d (butlast ls) (reduced (last ls)))"

section \<open>Positions\<close>

lemma select_pos_valid: "pos \<in> set (select_pos d ls) \<Longrightarrow> valid_pos d pos"
  by (induction ls arbitrary: d pos) (auto split: if_splits dest: selected_children_less)

lemma doc_ok_at: "doc_ok env d \<Longrightarrow> valid_pos d pos \<Longrightarrow> doc_ok env (doc_at d pos)"
proof (induction d pos rule: doc_at.induct)
  case (2 d i pos)
  then show ?case using doc_ok_children[of env d "children d ! i"] by simp
qed simp

lemma node_doc_ref: "node env p d pos = doc_ref env (as_ptr (node env p d pos)) (doc_at d pos)"
  by (induction env p d pos rule: node.induct) simp_all

lemma doc_ok_replaced: "valid_pos d pos \<Longrightarrow> doc_ok env (replace_at d pos c) \<Longrightarrow> doc_ok env c"
proof (induction d pos rule: doc_at.induct)
  case (2 d i pos)
  let ?cs = "(children d)[i := replace_at (children d ! i) pos c]"
  have "replace_at (children d ! i) pos c \<in> set (children (with_children d ?cs))"
    using "2.prems"(1) by (simp add: set_update_memI)
  from doc_ok_children[OF _ this] show ?case using "2.prems" "2.IH" by simp
qed simp

lemma concat_concats: "concat (concat xss) = concat (map concat xss)"
  by (induction xss) simp_all

lemma select_pos_append:
  "select_pos d (ls @ [leg]) =
     concat (map (\<lambda>pos. map (\<lambda>q. pos @ q) (select_pos (doc_at d pos) [leg])) (select_pos d ls))"
proof (induction ls arbitrary: d)
  case (Cons l ls)
  have "map ((#) i) (select_pos (children d ! i) (ls @ [leg])) =
      concat (map (\<lambda>pos. map ((@) pos) (select_pos (doc_at d pos) [leg])) (map ((#) i) (select_pos (children d ! i) ls)))" for i
  proof -
    have eta: "(@) (i # x) = (\<lambda>q. i # x @ q)" for x by auto
    show ?thesis unfolding Cons by (simp add: map_concat o_def eta del: select_pos.simps)
  qed
  then show ?case unfolding append_Cons select_pos.simps(2)[of d l]
    by (simp add: Cons map_concat o_def concat_concats del: select_pos.simps)
qed simp

lemma unselected_step:
  assumes "ls \<noteq> []" "select_pos d ls = []" "pos \<in> set (select_pos d (butlast ls))"
  shows "select_pos (doc_at d pos) [last ls] = []"
  using assms select_pos_append[of d "butlast ls" "last ls"] by (auto simp del: select_pos.simps)

lemma unselected_key:
  assumes "select_pos (DObj kvs) [Key k] = []"
  shows "key_index kvs k = None"
proof (cases "k = [42]")
  case True
  then have "kvs = []" using assms by (auto simp: self_selected_def selected_children_def)
  then show ?thesis by (simp add: key_index_def)
next
  case False
  then show ?thesis using assms by (auto simp: self_selected_def selected_children_def split: option.splits)
qed

section \<open>Writing a changed container\<close>

lemma doc_ref_as_ref: "json_as_ref q (doc_json env c) = doc_ref env q c"
  by (rule as_ref_doc_json)

lemma array_elems_doc:
  assumes "json_env_ok env" "doc_ok env (DArr ds)" "\<forall>i\<in>set is. i < length ds"
  shows "try_each (array_get_elem env (doc_ref env q (DArr ds))) is = Some (Inr (map (child_ref env q (DArr ds)) is))"
  by (rule try_each_ok) (use assms array_elem_doc in auto)

lemma child_ref_vals:
  "map ref_val (map (child_ref env q (DArr ds)) is) = map (doc_val env) (map ((!) ds) is)"
  by (simp add: child_ref_def ref_val_def doc_val_def)

lemma array_of_refs:
  assumes "json_env_ok env" "map ref_val rs = map (doc_val env) cs" "doc_ok env (DArr cs)"
  shows "from_ref_array env rs = doc_json env (DArr cs)"
  using from_ref_array_docs[OF assms(1,2)] assms(3) by simp

lemma pairs_of_members:
  assumes env: "json_env_ok env" and ms: "map member_doc ms = kvs" and ok: "doc_ok env (DObj (sort_key fst kvs))"
  shows "from_einsteindb_fdb_kv_pairs env (map (member_entry env) ms) = doc_json env (DObj (sort_key fst kvs))"
proof -
  have fst_m: "map fst kvs = map fst ms" by (simp add: ms[symmetric] member_doc_def case_prod_unfold)
  have "distinct (map fst (sort_key fst kvs))" using ok by (simp add: strict_sorted_iff)
  moreover have "mset (map fst (sort_key fst kvs)) = mset (map fst ms)" by (simp add: fst_m[symmetric])
  ultimately have dist: "distinct (map fst ms)" by (metis mset_eq_imp_distinct_iff)
  have "\<forall>kd\<in>set kvs. length (fst kd) < 2 ^ 16 \<and> doc_ok env (snd kd)" using ok by (auto simp: case_prod_unfold)
  then have mok: "\<forall>m\<in>set ms. length (fst m) < 2 ^ 16 \<and> doc_ok env (snd (snd m))"
    unfolding ms[symmetric] by (auto simp: member_doc_def case_prod_unfold)
  have "mset (map (member_val env) (sort_key fst kvs)) = mset (map (member_val env \<circ> member_doc) ms)"
    by (simp add: ms[symmetric] multiset.map_comp)
  from object_size_perm[OF this] have "object_size (map (member_val env \<circ> member_doc) ms) < 2 ^ 32" using ok by simp
  from kv_pairs_doc(1)[OF env dist mok this] show ?thesis by (simp add: ms)
qed

definition child_member :: "json_env \<Rightarrow> nat \<Rightarrow> (nat list \<times> doc) list \<Rightarrow> nat \<Rightarrow> nat list \<times> nat \<times> doc" where
  "child_member env q kvs i = (fst (kvs ! i), q + child_pos env (DObj kvs) i, snd (kvs ! i))"

lemma child_member_entry:
  "i < length kvs \<Longrightarrow> member_entry env (child_member env q kvs i) = (fst (kvs ! i), child_ref env q (DObj kvs) i)"
  "member_doc (child_member env q kvs i) = kvs ! i"
  by (simp_all add: member_entry_def child_member_def child_ref_def member_doc_def)

lemma object_entries_doc:
  assumes env: "json_env_ok env" and d: "doc_ok env (DObj kvs)"
  shows "object_entries env (doc_ref env q (DObj kvs)) (length kvs) =
    Some (Inr (map (member_entry env) (map (child_member env q kvs) [0..<length kvs])))"
  unfolding object_entries_def map_map
  by (rule try_each_ok) (simp add: object_key_doc[OF env d] object_val_doc[OF env d] child_member_entry)

section \<open>The operations of the modifier\<close>

lemma rebuild_at:
  assumes "json_env_ok env" "doc_ok env d" "doc_depth d \<le> fuel" "valid_pos d pos" "doc_ok env (replace_at d pos c)"
    and "old m = doc_ref env p d" "to_be_modified_ptr m = Some (as_ptr (node env p d pos))"
    and "new_causet_locale m = Some (doc_json env c)"
  shows "rebuild fuel env m = Some (Inr (doc_json env (replace_at d pos c)))"
  using rebuild_inside[OF assms(1-5)] assms(6-) by (simp add: rebuild_def try_res_def doc_json_def)

lemma rebuild_unchanged:
  assumes "doc_depth d \<le> fuel" "old m = doc_ref env p d" "to_be_modified_ptr m = None"
  shows "rebuild fuel env m = Some (Inr (doc_json env d))"
proof -
  have "0 < fuel" using assms(1) depth_pos[of d] by linarith
  then show ?thesis using assms by (simp add: rebuild_def try_res_def doc_json_def rebuild_none)
qed

lemma modifier_new_simps [simp]:
  "old (modifier_new j) = j" "to_be_modified_ptr (modifier_new j) = None" "new_causet_locale (modifier_new j) = None"
  by (simp_all add: modifier_new_def)

lemma owned_doc: "json_to_owned (doc_ref env p d) = doc_json env d"
  by (simp add: json_to_owned_def doc_json_def)

text \<open>What one of the operations computes for the first parent a path selects.\<close>

lemma legs_ok_parts: "legs_ok ls \<Longrightarrow> legs_ok (butlast ls)" "legs_ok ls \<Longrightarrow> ls \<noteq> [] \<Longrightarrow> last ls = Index i \<Longrightarrow> in_signed 32 i"
  by (auto simp: legs_ok_def dest: in_set_butlastD) (metis last_in_set)

lemma extended_array:
  assumes env: "json_env_ok env" and x: "doc_ok env x" and c: "extended (Index i) new x = Some c" "doc_ok env c"
    and t: "doc_type x = JArray"
  shows "get_elem_count env (doc_ref env q x) = Some (length (children x))"
    and "and_then (array_elems env (doc_ref env q x) (length (children x)))
      (\<lambda>elems. f (from_ref_array env (elems @ [doc_ref env r new]))) = f (doc_json env c)"
proof -
  from t obtain ds where ds: "x = DArr ds" by (cases x) auto
  show "get_elem_count env (doc_ref env q x) = Some (length (children x))" using elem_count_doc[OF env x] t by simp
  have c': "c = DArr (ds @ [new])" using c(1) by (simp add: extended_def ds)
  let ?rs = "map (child_ref env q (DArr ds)) [0..<length ds] @ [doc_ref env r new]"
  have "map ref_val ?rs = map (doc_val env) (ds @ [new])"
    unfolding map_append child_ref_vals map_nth by (simp add: ref_val_def doc_val_def)
  from array_of_refs[OF env this] have "from_ref_array env ?rs = doc_json env c" using c(2) c' by simp
  then show "and_then (array_elems env (doc_ref env q x) (length (children x)))
      (\<lambda>elems. f (from_ref_array env (elems @ [doc_ref env r new]))) = f (doc_json env c)"
    unfolding array_elems_def ds using array_elems_doc[OF env x[unfolded ds]] by simp
qed

lemma extended_wrap:
  assumes "json_env_ok env" "extended (Index i) new x = Some c" "doc_ok env c" "doc_type x \<noteq> JArray"
  shows "from_ref_array env [doc_ref env q x, doc_ref env r new] = doc_json env c"
proof -
  have "c = DArr [x, new]" using assms(2,4) by (cases x) (simp_all add: extended_def)
  moreover have "map ref_val [doc_ref env q x, doc_ref env r new] = map (doc_val env) [x, new]"
    by (simp add: ref_val_def doc_val_def)
  ultimately show ?thesis using array_of_refs[OF assms(1)] assms(3) by simp
qed

lemma extended_object:
  assumes env: "json_env_ok env" and x: "doc_ok env (DObj kvs)" and c: "extended (Key k) new (DObj kvs) = Some c" "doc_ok env c"
  shows "and_then (object_entries env (doc_ref env q (DObj kvs)) (length kvs))
      (\<lambda>entries. f (from_einsteindb_fdb_kv_pairs env (entries @ [(k, doc_ref env r new)]))) = f (doc_json env c)"
proof -
  let ?ms = "map (child_member env q kvs) [0..<length kvs] @ [(k, r, new)]"
  have "map member_doc (map (child_member env q kvs) [0..<length kvs]) = map ((!) kvs) [0..<length kvs]"
    unfolding map_map by (rule map_cong) (simp_all add: child_member_entry)
  then have ms: "map member_doc ?ms = kvs @ [(k, new)]" by (simp add: map_nth member_doc_def)
  have c': "c = DObj (sort_key fst (kvs @ [(k, new)]))" using c(1) by (simp add: extended_def)
  from pairs_of_members[OF env ms] have "from_einsteindb_fdb_kv_pairs env (map (member_entry env) ?ms) = doc_json env c"
    using c(2) c' by simp
  moreover have "map (member_entry env) ?ms =
      map (member_entry env) (map (child_member env q kvs) [0..<length kvs]) @ [(k, doc_ref env r new)]"
    by (simp add: member_entry_def)
  ultimately show ?thesis unfolding object_entries_doc[OF env x] and_then_ok by simp
qed

lemma do_insert_doc:
  assumes env: "json_env_ok env" and d: "doc_ok env d" and ls: "legs_ok ls" and fuel: "doc_depth d \<le> fuel"
    and un: "select_pos d ls = []" and ok: "doc_ok env (doc_change d (butlast ls) (extended (last ls) new))"
  shows "and_then (do_insert env (modifier_new (doc_ref env p d)) ls (doc_json env new)) (rebuild fuel env) =
    Some (Inr (doc_json env (doc_change d (butlast ls) (extended (last ls) new))))"
proof -
  let ?m = "modifier_new (doc_ref env p d)"
  have same: "rebuild fuel env ?m = Some (Inr (doc_json env d))" by (rule rebuild_unchanged[OF fuel]) simp_all
  have ne: "ls \<noteq> []" using un by auto
  have ex: "extract_json env (doc_ref env p d) (butlast ls) = Some (Inr (map (node env p d) (select_pos d (butlast ls))))"
    by (rule extract_doc[OF env d legs_ok_parts(1)[OF ls]])
  show ?thesis
  proof (cases "select_pos d (butlast ls)")
    case Nil
    then show ?thesis using ex ne same by (simp add: do_insert_def doc_change_def)
  next
    case (Cons pos ps)
    let ?x = "doc_at d pos"
    define q where "q = as_ptr (node env p d pos)"
    have vp: "valid_pos d pos" using select_pos_valid[of pos d "butlast ls"] Cons by simp
    have x: "doc_ok env ?x" using doc_ok_at[OF d vp] .
    have parent: "node env p d pos = doc_ref env q ?x" unfolding q_def by (rule node_doc_ref)
    have un1: "select_pos ?x [last ls] = []" using unselected_step[OF ne un, of pos] Cons by simp
    let ?m' = "\<lambda>c. ?m\<lparr>to_be_modified_ptr := Some q, new_causet_locale := Some (doc_json env c)\<rparr>"
    have built: "rebuild fuel env (?m' c) = Some (Inr (doc_json env (doc_change d (butlast ls) (extended (last ls) new)))) \<and> doc_ok env c"
      if "extended (last ls) new ?x = Some c" for c
    proof -
      have ch: "doc_change d (butlast ls) (extended (last ls) new) = replace_at d pos c" using that by (simp add: doc_change_def Cons)
      have okr: "doc_ok env (replace_at d pos c)" using ok ch by simp
      show ?thesis unfolding ch using rebuild_at[OF env d fuel vp okr, of "?m' c" p] doc_ok_replaced[OF vp okr] by (simp add: q_def)
    qed
    have head: "do_insert env ?m ls (doc_json env new) = insert_at_parent env ?m (doc_ref env q ?x) (last ls) (doc_json env new)"
      unfolding do_insert_def using ex ne by (simp add: Cons parent)
    have none: "doc_change d (butlast ls) (extended (last ls) new) = d" if "extended (last ls) new ?x = None"
      using that by (simp add: doc_change_def Cons)
    show ?thesis
    proof (cases "last ls")
      case (Index i)
      then obtain c where c: "extended (last ls) new ?x = Some c" by (simp add: extended_def)
      note fin = built[OF c]
      show ?thesis
      proof (cases "doc_type ?x = JArray")
        case True
        note ext = extended_array[OF env x c[unfolded Index] conjunct2[OF fin] True]
        show ?thesis unfolding head insert_at_parent_def as_ref_doc_json using ext(1)[of q]
          ext(2)[of q "\<lambda>j. Some (Inr (?m\<lparr>to_be_modified_ptr := Some q, new_causet_locale := Some j\<rparr>))" 0] fin True Index by simp
      next
        case False
        show ?thesis unfolding head insert_at_parent_def as_ref_doc_json
          using extended_wrap[OF env c[unfolded Index] conjunct2[OF fin] False, of q 0] fin False Index by simp
      qed
    next
      case (Key k)
      show ?thesis
      proof (cases "doc_type ?x = JObject")
        case True
        then obtain kvs where kvs: "?x = DObj kvs" by (cases ?x) auto
        obtain c where c: "extended (last ls) new ?x = Some c" by (simp add: extended_def Key kvs)
        note fin = built[OF c]
        have cnt: "get_elem_count env (doc_ref env q (DObj kvs)) = Some (length kvs)"
          using elem_count_doc[OF env x[unfolded kvs]] by simp
        have srch: "object_search_soliton_id env (doc_ref env q (DObj kvs)) k = Some None"
          using search_doc[OF env x[unfolded kvs], of q k] unselected_key[of kvs k] un1 Key kvs by simp
        show ?thesis unfolding head insert_at_parent_def as_ref_doc_json Key path_leg.case kvs
          using cnt srch fin extended_object[OF env x[unfolded kvs] c[unfolded Key kvs] conjunct2[OF fin],
            of q "\<lambda>j. Some (Inr (?m\<lparr>to_be_modified_ptr := Some q, new_causet_locale := Some j\<rparr>))" 0] Key
          by (simp add: Let_def)
      next
        case False
        then have "extended (last ls) new ?x = None" by (cases ?x) (simp_all add: extended_def Key)
        from none[OF this] show ?thesis unfolding head insert_at_parent_def as_ref_doc_json using False same Key by simp
      qed
    next
      case DoubleAsterisk
      then have "extended (last ls) new ?x = None" by (simp add: extended_def)
      from none[OF this] show ?thesis unfolding head insert_at_parent_def as_ref_doc_json using same DoubleAsterisk by simp
    qed
  qed
qed

section \<open>Removal\<close>

text \<open>Paths without wildcards select at most one node.\<close>

definition plain :: "path_leg list \<Rightarrow> bool" where
  "plain ls \<longleftrightarrow> DoubleAsterisk \<notin> set ls \<and> Index (-1) \<notin> set ls \<and> Key [42] \<notin> set ls"

lemma plain_unique: "plain ls \<Longrightarrow> length (select_pos d ls) \<le> 1"
proof (induction ls arbitrary: d)
  case (Cons leg ls)
  then have IH: "\<And>d. length (select_pos d ls) \<le> 1" by (simp add: plain_def)
  consider "self_selected d leg" "selected_children d leg = []" | "\<not> self_selected d leg" "length (selected_children d leg) \<le> 1"
    using Cons.prems by (cases leg; cases d)
      (auto simp: plain_def self_selected_def selected_children_def split: option.splits)
  then show ?case
  proof cases
    case 2
    then consider "selected_children d leg = []" | i where "selected_children d leg = [i]"
      by (cases "selected_children d leg") auto
    then show ?thesis using 2(1) IH by cases auto
  qed (use IH in simp)
qed simp

lemma remove_nth: "n < length xs \<Longrightarrow> map ((!) xs) (filter (\<lambda>i. i \<noteq> n) [0..<length xs]) = take n xs @ drop (Suc n) xs"
proof -
  assume n: "n < length xs"
  then have "[0..<length xs] = [0..<n] @ n # [Suc n..<length xs]"
    by (metis le0 less_imp_le upt_add_eq_append upt_conv_Cons le_add_diff_inverse)
  then have "filter (\<lambda>i. i \<noteq> n) [0..<length xs] = [0..<n] @ [Suc n..<length xs]" by (simp add: filter_id_conv)
  moreover have "map ((!) xs) [0..<n] = take n xs" using n by (intro nth_equalityI) auto
  moreover have "map ((!) xs) [Suc n..<length xs] = drop (Suc n) xs" using n by (intro nth_equalityI) auto
  ultimately show ?thesis by simp
qed

lemma filter_nth: "map ((!) xs) (filter (\<lambda>i. P (xs ! i)) [0..<length xs]) = filter P xs"
proof -
  have "filter P xs = filter P (map ((!) xs) [0..<length xs])" by (simp add: map_nth)
  then show ?thesis by (simp add: filter_map o_def)
qed

lemma reduced_array:
  assumes env: "json_env_ok env" and x: "doc_ok env (DArr ds)" and i: "0 \<le> i" "nat i < length ds" "in_signed 32 i"
    and c: "doc_ok env (DArr (take (nat i) ds @ drop (Suc (nat i)) ds))"
  shows "and_then (try_each (array_get_elem env (doc_ref env q (DArr ds)))
      (filter (\<lambda>j. j \<noteq> as_unsigned 64 i) [0..<length ds])) (\<lambda>elems. f (from_ref_array env elems)) =
    f (doc_json env (DArr (take (nat i) ds @ drop (Suc (nat i)) ds)))"
proof -
  have u: "as_unsigned 64 i = nat i" using as_unsigned_index[OF i(3)] i(1) by simp
  let ?is = "filter (\<lambda>j. j \<noteq> nat i) [0..<length ds]"
  have "try_each (array_get_elem env (doc_ref env q (DArr ds))) ?is = Some (Inr (map (child_ref env q (DArr ds)) ?is))"
    by (rule array_elems_doc[OF env x]) auto
  moreover have "map ref_val (map (child_ref env q (DArr ds)) ?is) = map (doc_val env) (take (nat i) ds @ drop (Suc (nat i)) ds)"
    unfolding child_ref_vals remove_nth[OF i(2)] by (rule refl)
  ultimately show ?thesis unfolding u using array_of_refs[OF env _ c] by simp
qed

lemma collect_filter: "concat (map (\<lambda>i. if P i then [f i] else []) xs) = map f (filter P xs)"
  by (induction xs) auto

lemma reduced_object:
  assumes env: "json_env_ok env" and x: "doc_ok env (DObj kvs)"
    and c: "doc_ok env (DObj (filter (\<lambda>kd. fst kd \<noteq> k) kvs))"
  shows "and_then (collect_each (\<lambda>i. do {
        key \<leftarrow> object_get_soliton_id env (doc_ref env q (DObj kvs)) i;
        if key \<noteq> k then and_then (object_get_val env (doc_ref env q (DObj kvs)) i) (\<lambda>v. Some (Inr [(key, v)]))
        else Some (Inr []) }) [0..<length kvs]) (\<lambda>entries. f (from_einsteindb_fdb_kv_pairs env entries)) =
    f (doc_json env (DObj (filter (\<lambda>kd. fst kd \<noteq> k) kvs)))"
proof -
  let ?P = "\<lambda>i. fst (kvs ! i) \<noteq> k"
  let ?ms = "map (child_member env q kvs) (filter ?P [0..<length kvs])"
  have "collect_each (\<lambda>i. do {
        key \<leftarrow> object_get_soliton_id env (doc_ref env q (DObj kvs)) i;
        if key \<noteq> k then and_then (object_get_val env (doc_ref env q (DObj kvs)) i) (\<lambda>v. Some (Inr [(key, v)]))
        else Some (Inr []) }) [0..<length kvs] =
      Some (Inr (concat (map (\<lambda>i. if ?P i then [member_entry env (child_member env q kvs i)] else []) [0..<length kvs])))"
    by (rule collect_each_ok) (simp add: object_key_doc[OF env x] object_val_doc[OF env x] child_member_entry)
  then have each: "collect_each (\<lambda>i. do {
        key \<leftarrow> object_get_soliton_id env (doc_ref env q (DObj kvs)) i;
        if key \<noteq> k then and_then (object_get_val env (doc_ref env q (DObj kvs)) i) (\<lambda>v. Some (Inr [(key, v)]))
        else Some (Inr []) }) [0..<length kvs] = Some (Inr (map (member_entry env) ?ms))"
    unfolding collect_filter by (simp add: o_def)
  have "map member_doc ?ms = map ((!) kvs) (filter ?P [0..<length kvs])"
    unfolding map_map by (rule map_cong) (simp_all add: child_member_entry)
  also have "\<dots> = filter (\<lambda>kd. fst kd \<noteq> k) kvs" by (rule filter_nth[of kvs "\<lambda>kd. fst kd \<noteq> k"])
  finally have ms: "map member_doc ?ms = filter (\<lambda>kd. fst kd \<noteq> k) kvs" .
  have "sorted (map fst (filter (\<lambda>kd. fst kd \<noteq> k) kvs))"
    using c by (simp add: strict_sorted_iff)
  then have srt: "sort_key fst (filter (\<lambda>kd. fst kd \<noteq> k) kvs) = filter (\<lambda>kd. fst kd \<noteq> k) kvs" by (rule sort_key_id_if_sorted)
  have "from_einsteindb_fdb_kv_pairs env (map (member_entry env) ?ms) = doc_json env (DObj (filter (\<lambda>kd. fst kd \<noteq> k) kvs))"
    using pairs_of_members[OF env ms] c unfolding srt by blast
  then show ?thesis unfolding each and_then_ok by (rule arg_cong[where f = f])
qed

lemma do_remove_doc:
  assumes env: "json_env_ok env" and d: "doc_ok env d" and ls: "legs_ok ls" "plain ls" "ls \<noteq> []" and fuel: "doc_depth d \<le> fuel"
    and sel: "select_pos d ls \<noteq> []" and ok: "doc_ok env (doc_change d (butlast ls) (reduced (last ls)))"
  shows "and_then (do_remove env (modifier_new (doc_ref env p d)) ls) (rebuild fuel env) =
    Some (Inr (doc_json env (doc_change d (butlast ls) (reduced (last ls)))))"
proof -
  let ?m = "modifier_new (doc_ref env p d)"
  have same: "rebuild fuel env ?m = Some (Inr (doc_json env d))" by (rule rebuild_unchanged[OF fuel]) simp_all
  have ex: "extract_json env (doc_ref env p d) (butlast ls) = Some (Inr (map (node env p d) (select_pos d (butlast ls))))"
    by (rule extract_doc[OF env d legs_ok_parts(1)[OF ls(1)]])
  have "plain (butlast ls)" using ls(2) by (auto simp: plain_def dest: in_set_butlastD)
  from plain_unique[OF this, of d] have one: "length (select_pos d (butlast ls)) \<le> 1" .
  have app: "select_pos d ls = concat (map (\<lambda>pos. map (\<lambda>q. pos @ q) (select_pos (doc_at d pos) [last ls])) (select_pos d (butlast ls)))"
    using select_pos_append[of d "butlast ls" "last ls"] ls(3) by simp
  obtain pos where Cons: "select_pos d (butlast ls) = [pos]"
    using one sel app by (cases "select_pos d (butlast ls)") (auto simp del: select_pos.simps)
  let ?x = "doc_at d pos"
  define q where "q = as_ptr (node env p d pos)"
  have vp: "valid_pos d pos" using select_pos_valid[of pos d "butlast ls"] Cons by simp
  have x: "doc_ok env ?x" using doc_ok_at[OF d vp] .
  have parent: "node env p d pos = doc_ref env q ?x" unfolding q_def by (rule node_doc_ref)
  have sel1: "select_pos ?x [last ls] \<noteq> []" using sel app Cons by (auto simp del: select_pos.simps)
  let ?m' = "\<lambda>c. ?m\<lparr>to_be_modified_ptr := Some q, new_causet_locale := Some (doc_json env c)\<rparr>"
  have built: "rebuild fuel env (?m' c) = Some (Inr (doc_json env (doc_change d (butlast ls) (reduced (last ls))))) \<and> doc_ok env c"
    if "reduced (last ls) ?x = Some c" for c
  proof -
    have ch: "doc_change d (butlast ls) (reduced (last ls)) = replace_at d pos c" using that by (simp add: doc_change_def Cons)
    have okr: "doc_ok env (replace_at d pos c)" using ok ch by simp
    show ?thesis unfolding ch using rebuild_at[OF env d fuel vp okr, of "?m' c" p] doc_ok_replaced[OF vp okr] by (simp add: q_def)
  qed
  have head: "do_remove env ?m ls = remove_at_parent env ?m (doc_ref env q ?x) (last ls)"
    unfolding do_remove_def using ex ls(3) by (simp add: Cons parent)
  let ?f = "\<lambda>j. Some (Inr (?m\<lparr>to_be_modified_ptr := Some q, new_causet_locale := Some j\<rparr>))"
  show ?thesis
  proof (cases "last ls")
    case (Index i)
    have i32: "in_signed 32 i" using legs_ok_parts(2)[OF ls(1,3) Index] .
    have "last ls \<in> set ls" using ls(3) by simp
    then have i1: "i \<noteq> -1" using ls(2) Index by (auto simp: plain_def)
    show ?thesis
    proof (cases "doc_type ?x = JArray")
      case True
      then obtain ds where ds: "?x = DArr ds" by (cases ?x) auto
      have i: "0 \<le> i" "nat i < length ds"
        using sel1 i1 by (auto simp: ds Index self_selected_def selected_children_def split: if_splits)
      have red: "reduced (last ls) ?x = Some (DArr (take (nat i) ds @ drop (Suc (nat i)) ds))" by (simp add: reduced_def Index ds)
      note fin = built[OF red]
      have cnt: "get_elem_count env (doc_ref env q (DArr ds)) = Some (length ds)" using elem_count_doc[OF env x[unfolded ds]] by simp
      have "usub (length ds) 1 = Some (length ds - 1)" using i by (simp add: usub_def)
      then show ?thesis unfolding head remove_at_parent_def Index path_leg.case ds
        using cnt fin reduced_array[OF env x[unfolded ds] i i32 conjunct2[OF fin], of q ?f] Index by simp
    next
      case False
      then have "reduced (last ls) ?x = None" by (cases ?x) (simp_all add: reduced_def Index)
      then have "doc_change d (butlast ls) (reduced (last ls)) = d" by (simp add: doc_change_def Cons)
      then show ?thesis unfolding head remove_at_parent_def using False same Index by simp
    qed
  next
    case (Key k)
    with sel1 obtain kvs where kvs: "?x = DObj kvs"
      by (cases ?x) (auto simp: self_selected_def selected_children_def)
    have ne: "kvs \<noteq> []"
    proof
      assume "kvs = []"
      then have "select_pos ?x [last ls] = []" by (simp add: kvs Key self_selected_def selected_children_def key_index_def)
      with sel1 show False by simp
    qed
    have red: "reduced (last ls) ?x = Some (DObj (filter (\<lambda>kd. fst kd \<noteq> k) kvs))" by (simp add: reduced_def Key kvs)
    note fin = built[OF red]
    have cnt: "get_elem_count env (doc_ref env q (DObj kvs)) = Some (length kvs)" using elem_count_doc[OF env x[unfolded kvs]] by simp
    have "usub (length kvs) 1 = Some (length kvs - 1)" using ne by (cases kvs) simp_all
    then show ?thesis unfolding head remove_at_parent_def Key path_leg.case kvs
      using cnt fin reduced_object[OF env x[unfolded kvs] conjunct2[OF fin], of q ?f] Key by simp
  next
    case DoubleAsterisk
    then have "DoubleAsterisk \<in> set ls" using ls(3) last_in_set by metis
    then show ?thesis using ls(2) by (simp add: plain_def)
  qed
qed

section \<open>Properties\<close>

primrec doc_modify :: "modify_type \<Rightarrow> doc \<Rightarrow> path_leg list \<Rightarrow> doc \<Rightarrow> doc" where
  "doc_modify Insert d ls new = doc_insert d ls new"
| "doc_modify Replace d ls new = doc_replace d ls new"
| "doc_modify Set d ls new = doc_set d ls new"

text \<open>A document the format can hold, small enough for the calls that rebuilding it makes.\<close>

definition fits :: "json_env \<Rightarrow> nat \<Rightarrow> doc \<Rightarrow> bool" where
  "fits env fuel d \<longleftrightarrow> doc_ok env d \<and> length (enc env d) \<le> fuel"

lemma fitsD:
  assumes "json_env_ok env" "fits env fuel d"
  shows "doc_ok env d" "doc_depth d \<le> fuel"
  using assms depth_le_bytes[OF assms(1), of d] by (auto simp: fits_def)

lemma modify_step_doc:
  assumes env: "json_env_ok env" and d: "fits env fuel d" and ls: "legs_ok ls" and ok: "doc_ok env (doc_modify mt d ls new)"
  shows "modify_step fuel env mt (doc_json env d) ls (doc_json env new) = Some (Inr (doc_json env (doc_modify mt d ls new)))"
proof -
  let ?m = "modifier_new (doc_ref env 0 d)"
  note dd = fitsD[OF env d]
  have ex: "extract_json env (doc_ref env 0 d) ls = Some (Inr (map (node env 0 d) (select_pos d ls)))"
    by (rule extract_doc[OF env dd(1) ls])
  have sel: "doc_select d ls = [] \<longleftrightarrow> select_pos d ls = []" by (simp add: doc_select_pos)
  have ins: "and_then (do_insert env ?m ls (doc_json env new)) (rebuild fuel env) = Some (Inr (doc_json env (doc_insert d ls new)))"
    if "select_pos d ls = []" "doc_ok env (doc_insert d ls new)"
    using do_insert_doc[OF env dd(1) ls dd(2) that(1), of new 0] that sel by (simp add: doc_insert_def)
  have rep: "rebuild fuel env (?m\<lparr>to_be_modified_ptr := Some (as_ptr (hd (map (node env 0 d) (select_pos d ls)))),
      new_causet_locale := Some (doc_json env new)\<rparr>) = Some (Inr (doc_json env (doc_replace d ls new)))"
    if "select_pos d ls \<noteq> []" "doc_ok env (doc_replace d ls new)"
  proof -
    note ne = that(1)
    obtain pos ps where p: "select_pos d ls = pos # ps" using ne by (cases "select_pos d ls") auto
    have vp: "valid_pos d pos" using select_pos_valid[of pos d ls] p by simp
    have r: "doc_replace d ls new = replace_at d pos new" by (simp add: doc_replace_def doc_change_def p)
    show ?thesis unfolding r p using rebuild_at[OF env dd vp, of new] that(2) r by simp
  qed
  show ?thesis
    using ex ins rep ok sel
    by (cases mt) (auto simp: modify_step_def modifier_insert_def modifier_replace_def modifier_set_def as_ref_doc_json
        owned_doc doc_set_def doc_insert_def doc_replace_def doc_change_def Let_def)
qed

fun doc_modify_all :: "modify_type \<Rightarrow> doc \<Rightarrow> (path_leg list \<times> doc) list \<Rightarrow> doc" where
  "doc_modify_all mt d [] = d"
| "doc_modify_all mt d ((ls, new) # changes) = doc_modify_all mt (doc_modify mt d ls new) changes"

fun changes_ok :: "json_env \<Rightarrow> nat \<Rightarrow> modify_type \<Rightarrow> doc \<Rightarrow> (path_leg list \<times> doc) list \<Rightarrow> bool" where
  "changes_ok env fuel mt d [] \<longleftrightarrow> fits env fuel d"
| "changes_ok env fuel mt d ((ls, new) # changes) \<longleftrightarrow>
     fits env fuel d \<and> legs_ok ls \<and> changes_ok env fuel mt (doc_modify mt d ls new) changes"

lemma changes_ok_fits: "changes_ok env fuel mt d changes \<Longrightarrow> fits env fuel d"
  by (cases changes) auto

lemma modify_all_doc:
  assumes env: "json_env_ok env"
  shows "length es = length vs \<Longrightarrow> changes_ok env fuel mt d (zip (map legs es) vs) \<Longrightarrow>
    modify_all fuel env mt (doc_json env d) (zip es (map (doc_json env) vs)) =
    Some (Inr (doc_json env (doc_modify_all mt d (zip (map legs es) vs))))"
proof (induction es vs arbitrary: d rule: list_induct2)
  case (Cons e es v vs)
  then have "doc_ok env (doc_modify mt d (legs e) v)" using changes_ok_fits by (fastforce simp: fits_def)
  then show ?case using Cons modify_step_doc[OF env, of fuel d "legs e" mt v] by simp
qed simp

text \<open>
  C17: JSON_INSERT, JSON_REPLACE and JSON_SET on the encoding of a document, with any number of
  changes, return without a panic the encoding of the document changed that many times.
\<close>

theorem json_modify_changes:
  assumes "json_env_ok env" "length es = length vs" "\<forall>e\<in>set es. \<not> contains_any_asterisk e"
    and "changes_ok env fuel mt d (zip (map legs es) vs)"
  shows "modify fuel env show_expr (doc_ref env p d) es (map (doc_json env) vs) mt =
    Some (Inr (doc_json env (doc_modify_all mt d (zip (map legs es) vs))))"
proof -
  have "find contains_any_asterisk es = None" using assms(3) by (simp add: find_None_iff)
  then show ?thesis using assms(2) modify_all_doc[OF assms(1,2,4)] by (simp add: modify_def owned_doc)
qed

theorem json_modify_changes_witness:
  "modify 200 std_json_env (\<lambda>_. []) (doc_ref std_json_env 16 sample_doc)
     [\<lparr>legs = [Key [98], Index 0], path_flags = 0\<rparr>, \<lparr>legs = [Key [99]], path_flags = 0\<rparr>]
     [doc_json std_json_env (DInt 7), doc_json std_json_env DNull] Set =
   Some (Inr (doc_json std_json_env (DObj [([97], DNull), ([98], DArr [DInt 7, DInt 5]), ([99], DNull)])))"
proof -
  let ?es = "[\<lparr>legs = [Key [98], Index 0], path_flags = 0\<rparr>, \<lparr>legs = [Key [99]], path_flags = 0\<rparr>]"
  let ?vs = "[DInt 7, DNull]"
  let ?d1 = "DObj [([97], DNull), ([98], DArr [DInt 7, DInt 5])]"
  let ?d2 = "DObj [([97], DNull), ([98], DArr [DInt 7, DInt 5]), ([99], DNull)]"
  note sel = doc_set_def doc_insert_def doc_replace_def doc_change_def extended_def self_selected_def
    selected_children_def key_index_def with_children_def
  have 1: "doc_modify Set sample_doc [Key [98], Index 0] (DInt 7) = ?d1" by (simp add: sample_doc_def sel)
  have 2: "doc_modify Set ?d1 [Key [99]] DNull = ?d2" by (simp add: sel)
  note size = fits_def enc_Obj enc_Arr length_object_layout object_size_def stored_def length_array_layout array_size_def in_signed_def
  have "fits std_json_env 200 sample_doc" "fits std_json_env 200 ?d1" "fits std_json_env 200 ?d2"
    by (simp_all add: sample_doc_def size)
  then have "changes_ok std_json_env 200 Set sample_doc (zip (map legs ?es) ?vs)" using 1 2 by (simp add: in_signed_def)
  from json_modify_changes[OF std_json_env_ok _ _ this, of "\<lambda>_. []" 16] show ?thesis
    using 1 2 by (simp add: contains_any_asterisk_def)
qed

fun doc_remove_all :: "doc \<Rightarrow> path_leg list list \<Rightarrow> doc" where
  "doc_remove_all d [] = d"
| "doc_remove_all d (ls # lss) = doc_remove_all (doc_remove d ls) lss"

fun removals_ok :: "json_env \<Rightarrow> nat \<Rightarrow> doc \<Rightarrow> path_leg list list \<Rightarrow> bool" where
  "removals_ok env fuel d [] \<longleftrightarrow> fits env fuel d"
| "removals_ok env fuel d (ls # lss) \<longleftrightarrow>
     fits env fuel d \<and> legs_ok ls \<and> plain ls \<and> ls \<noteq> [] \<and> removals_ok env fuel (doc_remove d ls) lss"

lemma removals_ok_fits: "removals_ok env fuel d lss \<Longrightarrow> fits env fuel d"
  by (cases lss) auto

lemma remove_each_doc:
  assumes env: "json_env_ok env"
  shows "removals_ok env fuel d (map legs es) \<Longrightarrow>
    remove_each fuel env (doc_json env d) es = Some (Inr (doc_json env (doc_remove_all d (map legs es))))"
proof (induction es arbitrary: d)
  case (Cons e es)
  then have ok: "fits env fuel d" "legs_ok (legs e)" "plain (legs e)" "legs e \<noteq> []"
    and rest: "removals_ok env fuel (doc_remove d (legs e)) (map legs es)" by auto
  note dd = fitsD[OF env ok(1)]
  have okr: "doc_ok env (doc_remove d (legs e))" using removals_ok_fits[OF rest] by (simp add: fits_def)
  have ex: "extract_json env (doc_ref env 0 d) (legs e) = Some (Inr (map (node env 0 d) (select_pos d (legs e))))"
    by (rule extract_doc[OF env dd(1) ok(2)])
  have "modifier_remove fuel env (modifier_new (doc_ref env 0 d)) (legs e) = Some (Inr (doc_json env (doc_remove d (legs e))))"
  proof (cases "select_pos d (legs e) = []")
    case True
    then show ?thesis using ex by (simp add: modifier_remove_def owned_doc doc_remove_def doc_select_pos)
  next
    case False
    then have r: "doc_remove d (legs e) = doc_change d (butlast (legs e)) (reduced (last (legs e)))"
      using ok(4) by (simp add: doc_remove_def doc_select_pos)
    show ?thesis using ex False do_remove_doc[OF env dd(1) ok(2-4) dd(2) False, of 0] okr r by (simp add: modifier_remove_def)
  qed
  then show ?case using Cons.IH[OF rest] by (simp add: as_ref_doc_json)
qed simp

text \<open>
  C18: JSON_REMOVE on the encoding of a document returns without a panic the encoding of the document
  without the selected elements, one path after the other.
\<close>

theorem json_remove_removes:
  assumes "json_env_ok env" "\<forall>e\<in>set es. \<not> contains_any_asterisk e" "removals_ok env fuel d (map legs es)"
  shows "json_remove fuel env (doc_ref env p d) es = Some (Inr (doc_json env (doc_remove_all d (map legs es))))"
proof -
  have "removals_ok env fuel d' lss \<Longrightarrow> [] \<notin> set lss" for d' lss by (induction lss arbitrary: d') auto
  from this[OF assms(3)] have "\<forall>e\<in>set es. legs e \<noteq> []" by (metis imageI list.set_map)
  then have "\<not> (\<exists>e\<in>set es. legs e = [] \<or> contains_any_asterisk e)" using assms(2) by blast
  then show ?thesis using remove_each_doc[OF assms(1,3)] by (simp add: json_remove_def owned_doc)
qed

theorem json_remove_removes_witness:
  "json_remove 200 std_json_env (doc_ref std_json_env 16 sample_doc)
     [\<lparr>legs = [Key [98], Index 0], path_flags = 0\<rparr>, \<lparr>legs = [Key [97]], path_flags = 0\<rparr>] =
   Some (Inr (doc_json std_json_env (DObj [([98], DArr [DInt 5])])))"
proof -
  let ?es = "[\<lparr>legs = [Key [98], Index 0], path_flags = 0\<rparr>, \<lparr>legs = [Key [97]], path_flags = 0\<rparr>]"
  let ?d1 = "DObj [([97], DNull), ([98], DArr [DInt 5])]"
  let ?d2 = "DObj [([98], DArr [DInt 5])]"
  note sel = doc_remove_def doc_change_def reduced_def self_selected_def selected_children_def key_index_def with_children_def
  have 1: "doc_remove sample_doc [Key [98], Index 0] = ?d1" by (simp add: sample_doc_def sel)
  have 2: "doc_remove ?d1 [Key [97]] = ?d2" by (simp add: sel)
  note size = fits_def enc_Obj enc_Arr length_object_layout object_size_def stored_def length_array_layout array_size_def in_signed_def
  have "fits std_json_env 200 sample_doc" "fits std_json_env 200 ?d1" "fits std_json_env 200 ?d2"
    by (simp_all add: sample_doc_def size)
  then have "removals_ok std_json_env 200 sample_doc (map legs ?es)" using 1 2 by (simp add: in_signed_def plain_def)
  from json_remove_removes[OF std_json_env_ok _ this, of 16] show ?thesis
    using 1 2 by (simp add: contains_any_asterisk_def)
qed

end
