(* ===== verification/Json_Merge.thy ===== *)
theory Json_Merge
  imports Json_Env
begin

text \<open>
  JSON_MERGE, \<open>src/berolinasql/src/json_merge.rs\<close>: adjacent objects are merged member by member,
  everything else is wrapped into arrays that are joined. The map of the members is a
  \<open>BTreeMap\<close>, here the list of its entries in the order of the keys. The writer of a map,
  \<open>write_json_obj\<close>, is not in the repository and is a parameter.
\<close>

section \<open>The map of the members\<close>

fun map_insert :: "nat list \<Rightarrow> 'v \<Rightarrow> (nat list \<times> 'v) list \<Rightarrow> (nat list \<times> 'v) list" where
  "map_insert k v [] = [(k, v)]"
| "map_insert k v ((k1, v1) # m) =
     (if k < k1 then (k, v) # (k1, v1) # m else if k = k1 then (k, v) # m else (k1, v1) # map_insert k v m)"

definition map_remove :: "nat list \<Rightarrow> (nat list \<times> 'v) list \<Rightarrow> (nat list \<times> 'v) list" where
  "map_remove k m = filter (\<lambda>e. fst e \<noteq> k) m"

section \<open>Merging\<close>

datatype merge_unit = URef json_ref | UOwned json

primrec unit_as_ref :: "merge_unit \<Rightarrow> json_ref" where
  "unit_as_ref (URef r) = r"
| "unit_as_ref (UOwned w) = json_as_ref 0 w"

primrec unit_into_owned :: "merge_unit \<Rightarrow> json" where
  "unit_into_owned (URef r) = json_to_owned r"
| "unit_into_owned (UOwned w) = w"

definition merge_binary_array :: "json_env \<Rightarrow> merge_unit list \<Rightarrow> json fresult option" where
  "merge_binary_array env elems =
     and_then (collect_each (\<lambda>u. let j = unit_as_ref u in
         if type_code j \<noteq> JArray then Some (Inr [j])
         else do {
           child_count \<leftarrow> get_elem_count env j;
           try_each (array_get_elem env j) [0..<child_count] }) elems)
       (\<lambda>buf. Some (Inr (from_ref_array env buf)))"

definition from_object :: "((nat list \<times> json) list \<Rightarrow> nat list) \<Rightarrow> (nat list \<times> json) list \<Rightarrow> json" where
  "from_object wobj m = \<lparr>json_type_code = JObject, json_bytes = wobj m\<rparr>"

text \<open>The loop over the members of one object; \<open>mrg\<close> is \<open>Json::merge\<close>.\<close>

fun merge_members ::
    "(json_ref list \<Rightarrow> json fresult option) \<Rightarrow> json_env \<Rightarrow> json_ref \<Rightarrow> nat list \<Rightarrow> (nat list \<times> json) list \<Rightarrow>
     (nat list \<times> json) list fresult option" where
  "merge_members mrg env j [] m = Some (Inr m)"
| "merge_members mrg env j (i # is) m = do {
     soliton_id \<leftarrow> object_get_soliton_id env j i;
     and_then (object_get_val env j i) (\<lambda>val.
       if \<not> is_utf8 soliton_id then Some (Inl (Encoding (valid_up_to soliton_id)))
       else (case map_of m soliton_id of
           Some old \<Rightarrow>
             and_then (mrg [json_as_ref 0 old, val]) (\<lambda>new.
               merge_members mrg env j is (map_insert soliton_id new (map_remove soliton_id m)))
         | None \<Rightarrow> merge_members mrg env j is (map_insert soliton_id (json_to_owned val) m))) }"

fun merge_objects ::
    "(json_ref list \<Rightarrow> json fresult option) \<Rightarrow> json_env \<Rightarrow> json_ref list \<Rightarrow> (nat list \<times> json) list \<Rightarrow>
     (nat list \<times> json) list fresult option" where
  "merge_objects mrg env [] m = Some (Inr m)"
| "merge_objects mrg env (j # js) m = do {
     elem_count \<leftarrow> get_elem_count env j;
     and_then (merge_members mrg env j [0..<elem_count] m) (merge_objects mrg env js) }"

definition merge_binary_object ::
    "(json_ref list \<Rightarrow> json fresult option) \<Rightarrow> json_env \<Rightarrow> ((nat list \<times> json) list \<Rightarrow> nat list) \<Rightarrow> json_ref list \<Rightarrow>
     json fresult option" where
  "merge_binary_object mrg env wobj objects =
     and_then (merge_objects mrg env objects []) (\<lambda>m. Some (Inr (from_object wobj m)))"

text \<open>The loop over the documents, with the vectors \<open>objects\<close> and \<open>result\<close>.\<close>

fun merge_units ::
    "(json_ref list \<Rightarrow> json fresult option) \<Rightarrow> json_env \<Rightarrow> ((nat list \<times> json) list \<Rightarrow> nat list) \<Rightarrow> json_ref list \<Rightarrow>
     json_ref list \<Rightarrow> merge_unit list \<Rightarrow> merge_unit list fresult option" where
  "merge_units mrg env wobj [] objects result =
     (if objects \<noteq> []
      then and_then (merge_binary_object mrg env wobj objects) (\<lambda>w. Some (Inr (result @ [UOwned w])))
      else Some (Inr result))"
| "merge_units mrg env wobj (j # bjs) objects result =
     (if type_code j \<noteq> JObject
      then if length objects = 1
        then merge_units mrg env wobj bjs [] (result @ [URef (last objects)] @ [URef j])
        else if length objects > 1
        then and_then (merge_binary_object mrg env wobj objects) (\<lambda>w.
          merge_units mrg env wobj bjs [] (result @ [UOwned w] @ [URef j]))
        else merge_units mrg env wobj bjs objects (result @ [URef j])
      else merge_units mrg env wobj bjs (objects @ [j]) result)"

text \<open>
  \<open>merge\<close> calls itself on the values of a common key, which are read through the offsets of the
  documents, so that the model takes the number of nested calls it may make.
\<close>

primrec merge_json :: "nat \<Rightarrow> json_env \<Rightarrow> ((nat list \<times> json) list \<Rightarrow> nat list) \<Rightarrow> json_ref list \<Rightarrow> json fresult option" where
  "merge_json 0 env wobj bjs = None"
| "merge_json (Suc fuel) env wobj bjs =
     and_then (merge_units (merge_json fuel env wobj) env wobj bjs [] []) (\<lambda>result.
       if length result = 1 then Some (Inr (unit_into_owned (last result)))
       else merge_binary_array env result)"

end
