(* ===== verification/Json_Merge_Doc.thy ===== *)
theory Json_Merge_Doc
  imports Json_Merge
begin

text \<open>
  The documented merge of documents as trees, the map of the members as a sorted list, and a bound
  on the size of what is merged under which the result is again a document of the format.
\<close>

section \<open>Merging trees\<close>

text \<open>
  What the documentation of \<open>merge\<close> says of two documents: objects are merged member by member,
  the values of a common key being merged in turn, and everything else becomes one array, an array
  contributing its elements and any other document itself.
\<close>

primrec join_elems :: "doc \<Rightarrow> doc list" where
  "join_elems DNull = [DNull]"
| "join_elems (DBool b) = [DBool b]"
| "join_elems (DInt i) = [DInt i]"
| "join_elems (DUint n) = [DUint n]"
| "join_elems (DDbl bs) = [DDbl bs]"
| "join_elems (DStr s) = [DStr s]"
| "join_elems (DArr ds) = ds"
| "join_elems (DObj kvs) = [DObj kvs]"

fun doc_merge2 :: "doc \<Rightarrow> doc \<Rightarrow> doc" where
  "doc_merge2 (DObj xs) (DObj ys) =
     DObj (foldl (\<lambda>m (k, v). map_insert k (case map_of m k of Some old \<Rightarrow> doc_merge2 old v | None \<Rightarrow> v) m) xs ys)"
| "doc_merge2 a b = DArr (join_elems a @ join_elems b)"

definition merge_member :: "(nat list \<times> doc) list \<Rightarrow> nat list \<times> doc \<Rightarrow> (nat list \<times> doc) list" where
  "merge_member m kv =
     map_insert (fst kv) (case map_of m (fst kv) of Some d \<Rightarrow> doc_merge2 d (snd kv) | None \<Rightarrow> snd kv) m"

text \<open>A run of adjacent objects is merged into one object; what remains is joined.\<close>

definition merged_run :: "doc list \<Rightarrow> doc list" where
  "merged_run ds = (case ds of [] \<Rightarrow> [] | d # ds' \<Rightarrow> [foldl doc_merge2 d ds'])"

lemma merged_run_Nil [simp]: "merged_run [] = []"
  by (simp add: merged_run_def)

fun doc_units :: "doc list \<Rightarrow> doc list \<Rightarrow> doc list" where
  "doc_units objs [] = merged_run objs"
| "doc_units objs (d # ds) =
     (if doc_type d = JObject then doc_units (objs @ [d]) ds else merged_run objs @ d # doc_units [] ds)"

definition doc_merge :: "doc list \<Rightarrow> doc" where
  "doc_merge ds = (case doc_units [] ds of [u] \<Rightarrow> u | us \<Rightarrow> DArr (concat (map join_elems us)))"

lemma doc_merge2_objects: "doc_merge2 (DObj xs) (DObj ys) = DObj (foldl merge_member xs ys)"
  by (simp add: merge_member_def[abs_def] case_prod_unfold)

lemma doc_merge2_arrays:
  "\<not> (doc_type a = JObject \<and> doc_type b = JObject) \<Longrightarrow> doc_merge2 a b = DArr (join_elems a @ join_elems b)"
  by (cases a; cases b) auto

declare doc_merge2.simps [simp del]

lemma doc_merge_pair: "doc_merge [a, b] = doc_merge2 a b"
  by (cases "doc_type a = JObject"; cases "doc_type b = JObject")
    (simp_all add: doc_merge_def merged_run_def doc_merge2_arrays)

section \<open>The map of the members\<close>

lemma map_of_map_insert: "map_of (map_insert k v m) = (map_of m)(k \<mapsto> v)"
  by (induction m rule: map_insert.induct) (auto simp: fun_eq_iff)

lemma set_map_insert: "x \<in> set (map_insert k v m) \<Longrightarrow> x = (k, v) \<or> x \<in> set m"
  by (induction m rule: map_insert.induct) (auto split: if_splits)

lemma fst_set_map_insert: "fst ` set (map_insert k v m) = insert k (fst ` set m)"
  by (induction m rule: map_insert.induct) auto

lemma sorted_map_insert:
  "sorted_wrt (<) (map fst m) \<Longrightarrow> sorted_wrt (<) (map fst (map_insert k v m))"
proof (induction k v m rule: map_insert.induct)
  case (2 k v k1 v1 m)
  have "\<forall>x\<in>fst ` set (map_insert k v m). k1 < x" if "k1 < k"
    unfolding fst_set_map_insert using that 2 by auto
  with 2 show ?case by (auto simp: not_less_iff_gr_or_eq)
qed simp

lemma map_insert_last: "\<forall>x\<in>set m. fst x < k \<Longrightarrow> map_insert k v m = m @ [(k, v)]"
  by (induction k v m rule: map_insert.induct) auto

lemma map_insert_removed:
  "sorted_wrt (<) (map fst m) \<Longrightarrow> map_insert k v (map_remove k m) = map_insert k v m"
proof (induction k v m rule: map_insert.induct)
  case (2 k v k1 v1 m)
  have same: "map_remove k m = m" if "k \<le> k1"
    using 2(2) that unfolding map_remove_def by (intro filter_True) auto
  have first: "map_insert k v m = (k, v) # m" if "k \<le> k1"
    using 2(2) that by (cases m) (auto simp: map_remove_def)
  have r: "map_remove k ((k1, v1) # m) = (if k1 = k then map_remove k m else (k1, v1) # map_remove k m)"
    by (simp add: map_remove_def)
  show ?case using 2 same first unfolding r by auto
qed (simp add: map_remove_def)

lemma map_insert_map: "map_insert k (f v) (map (\<lambda>(k, v). (k, f v)) m) = map (\<lambda>(k, v). (k, f v)) (map_insert k v m)"
  by (induction k v m rule: map_insert.induct) auto

section \<open>Sizes\<close>

text \<open>
  \<open>merge_cost\<close> bounds what a document adds to what it is merged into: its own bytes, and the header
  and the two value entries of an array that may be built around each of its values.
\<close>

definition stored_size :: "json_env \<Rightarrow> doc \<Rightarrow> nat" where
  "stored_size env d = length (stored (doc_val env d))"

fun merge_cost :: "json_env \<Rightarrow> doc \<Rightarrow> nat" where
  "merge_cost env (DObj kvs) = 26 + (\<Sum>(k, d)\<leftarrow>kvs. 11 + length k + merge_cost env d)"
| "merge_cost env d = stored_size env d + 18"

definition members_size :: "json_env \<Rightarrow> (nat list \<times> doc) list \<Rightarrow> nat" where
  "members_size env kvs = (\<Sum>kd\<leftarrow>kvs. 11 + length (fst kd) + stored_size env (snd kd))"

definition members_cost :: "json_env \<Rightarrow> (nat list \<times> doc) list \<Rightarrow> nat" where
  "members_cost env kvs = (\<Sum>kd\<leftarrow>kvs. 11 + length (fst kd) + merge_cost env (snd kd))"

lemma members_simps [simp]:
  "members_size env [] = 0" "members_cost env [] = 0"
  "members_size env (kd # kvs) = 11 + length (fst kd) + stored_size env (snd kd) + members_size env kvs"
  "members_cost env (kd # kvs) = 11 + length (fst kd) + merge_cost env (snd kd) + members_cost env kvs"
  by (simp_all add: members_size_def members_cost_def)

lemma merge_cost_object: "merge_cost env (DObj kvs) = 26 + members_cost env kvs"
  by (simp add: members_cost_def case_prod_unfold)

lemma object_size_members: "object_size (map (member_val env) kvs) = 8 + members_size env kvs"
  by (induction kvs) (simp_all add: object_size_def stored_size_def)

lemma array_size_elems: "array_size (map (doc_val env) ds) = 8 + (\<Sum>d\<leftarrow>ds. 5 + stored_size env d)"
  by (induction ds) (simp_all add: array_size_def stored_size_def)

lemma stored_size_simps:
  "stored_size env (DObj kvs) = 8 + members_size env kvs"
  "stored_size env (DArr ds) = 8 + (\<Sum>d\<leftarrow>ds. 5 + stored_size env d)"
  by (simp_all add: stored_size_def stored_def enc_Obj enc_Arr length_object_layout length_array_layout
      object_size_members array_size_elems[unfolded stored_size_def])

lemma stored_size_cost: "stored_size env d + 18 \<le> merge_cost env d"
proof (induction d)
  case (DObj kvs)
  have "members_size env kvs \<le> members_cost env kvs"
    using DObj by (induction kvs) (force intro: add_mono)+
  then show ?case by (simp only: merge_cost_object stored_size_simps)
qed simp_all

lemma join_elems_size: "(\<Sum>d\<leftarrow>join_elems a. 5 + stored_size env d) \<le> 5 + stored_size env a"
  by (cases a) (simp_all add: stored_size_simps)

section \<open>The documents that can be merged\<close>

text \<open>The keys become \<open>String\<close>s, so that they have to be UTF-8 on every level.\<close>

fun doc_utf8 :: "doc \<Rightarrow> bool" where
  "doc_utf8 (DArr ds) \<longleftrightarrow> (\<forall>d\<in>set ds. doc_utf8 d)"
| "doc_utf8 (DObj kvs) \<longleftrightarrow> (\<forall>(k, d)\<in>set kvs. is_utf8 k \<and> doc_utf8 d)"
| "doc_utf8 d \<longleftrightarrow> True"

definition mergeable :: "json_env \<Rightarrow> doc \<Rightarrow> bool" where
  "mergeable env d \<longleftrightarrow> doc_ok env d \<and> doc_utf8 d"

definition member_ok :: "json_env \<Rightarrow> nat list \<times> doc \<Rightarrow> bool" where
  "member_ok env kd \<longleftrightarrow> length (fst kd) < 2 ^ 16 \<and> is_utf8 (fst kd) \<and> mergeable env (snd kd)"

definition members_ok :: "json_env \<Rightarrow> (nat list \<times> doc) list \<Rightarrow> bool" where
  "members_ok env kvs \<longleftrightarrow> sorted_wrt (<) (map fst kvs) \<and> (\<forall>kd\<in>set kvs. member_ok env kd)"

lemma mergeable_object:
  "mergeable env (DObj kvs) \<longleftrightarrow> members_ok env kvs \<and> 8 + members_size env kvs < 2 ^ 32"
  by (auto simp: mergeable_def members_ok_def member_ok_def object_size_members)

lemma mergeable_array:
  "mergeable env (DArr ds) \<longleftrightarrow> (\<forall>d\<in>set ds. mergeable env d) \<and> stored_size env (DArr ds) < 2 ^ 32"
  by (auto simp: mergeable_def array_size_elems stored_size_simps)

lemma mergeable_elems: "mergeable env d \<Longrightarrow> e \<in> set (join_elems d) \<Longrightarrow> mergeable env e"
  by (cases d) (auto simp: mergeable_array)

lemma members_size_insert_new:
  "map_of m k = None \<Longrightarrow> members_size env (map_insert k v m) = 11 + length k + stored_size env v + members_size env m"
  by (induction k v m rule: map_insert.induct) (auto split: if_splits)

lemma members_size_insert_old:
  "sorted_wrt (<) (map fst m) \<Longrightarrow> map_of m k = Some d \<Longrightarrow>
    members_size env (map_insert k v m) + stored_size env d = stored_size env v + members_size env m"
proof (induction k v m rule: map_insert.induct)
  case (2 k v k1 v1 m)
  have "k1 < k \<or> k1 = k" using 2(2,3) by (fastforce split: if_splits dest: map_of_SomeD)
  with 2 show ?case by (auto split: if_splits)
qed simp

section \<open>Merged documents fit\<close>

text \<open>That the merge of any document with \<open>b\<close> is well-formed and grows by at most the cost of \<open>b\<close>.\<close>

definition pair_fits :: "json_env \<Rightarrow> doc \<Rightarrow> bool" where
  "pair_fits env b \<longleftrightarrow> (\<forall>a. mergeable env a \<longrightarrow> stored_size env a + merge_cost env b < 2 ^ 32 \<longrightarrow>
     mergeable env (doc_merge2 a b) \<and> stored_size env (doc_merge2 a b) \<le> stored_size env a + merge_cost env b)"

lemma members_size_of: "map_of m k = Some d \<Longrightarrow> stored_size env d \<le> members_size env m"
  by (induction m) (auto split: if_splits)

lemma members_ok_of: "members_ok env m \<Longrightarrow> map_of m k = Some d \<Longrightarrow> mergeable env d"
  by (fastforce simp: members_ok_def member_ok_def dest: map_of_SomeD)

lemma merge_member_fits:
  assumes m: "members_ok env m" and kd: "member_ok env kd" and b: "pair_fits env (snd kd)"
    and size: "members_size env m + 11 + length (fst kd) + merge_cost env (snd kd) < 2 ^ 32"
  shows "members_ok env (merge_member m kd) \<and>
    members_size env (merge_member m kd) \<le> members_size env m + 11 + length (fst kd) + merge_cost env (snd kd)"
proof -
  obtain k v where kv: "kd = (k, v)" by (cases kd)
  have ins: "members_ok env (map_insert k w m)" if "mergeable env w" for w
    using m kd that sorted_map_insert unfolding members_ok_def
    by (auto simp: kv member_ok_def dest!: set_map_insert)
  show ?thesis
  proof (cases "map_of m k")
    case None
    have "mergeable env v" using kd by (simp add: kv member_ok_def)
    then show ?thesis using ins[of v] stored_size_cost[of env v] members_size_insert_new[OF None]
      by (simp add: merge_member_def kv None)
  next
    case (Some d)
    note d = members_ok_of[OF m Some] members_size_of[OF Some, of env]
    have f: "mergeable env (doc_merge2 d v)" "stored_size env (doc_merge2 d v) \<le> stored_size env d + merge_cost env v"
      using b d size by (auto simp: pair_fits_def kv)
    have "sorted_wrt (<) (map fst m)" using m by (simp add: members_ok_def)
    from members_size_insert_old[OF this Some, of env "doc_merge2 d v"] f ins[OF f(1)] show ?thesis
      by (simp add: merge_member_def kv Some)
  qed
qed

lemma merge_members_fit:
  assumes "members_ok env m" "\<forall>kd\<in>set kvs. member_ok env kd \<and> pair_fits env (snd kd)"
    and "members_size env m + members_cost env kvs < 2 ^ 32"
  shows "members_ok env (foldl merge_member m kvs) \<and>
    members_size env (foldl merge_member m kvs) \<le> members_size env m + members_cost env kvs"
  using assms
proof (induction kvs arbitrary: m)
  case (Cons kd kvs)
  have s: "members_ok env (merge_member m kd)"
    "members_size env (merge_member m kd) \<le> members_size env m + 11 + length (fst kd) + merge_cost env (snd kd)"
    using merge_member_fits[of env m kd] Cons.prems by simp_all
  have "members_size env (merge_member m kd) + members_cost env kvs < 2 ^ 32" using s(2) Cons.prems(3) by simp
  from Cons.IH[OF s(1) _ this] s(2) Cons.prems(2) show ?case by simp
qed simp

lemma joined_fits:
  assumes "mergeable env a" "mergeable env b" "stored_size env a + merge_cost env b < 2 ^ 32"
  shows "mergeable env (DArr (join_elems a @ join_elems b)) \<and>
    stored_size env (DArr (join_elems a @ join_elems b)) \<le> stored_size env a + merge_cost env b"
proof -
  have "stored_size env (DArr (join_elems a @ join_elems b)) \<le> stored_size env a + merge_cost env b"
    using join_elems_size[of env a] join_elems_size[of env b] stored_size_cost[of env b] by (simp add: stored_size_simps)
  then show ?thesis using assms mergeable_elems unfolding mergeable_array by auto
qed

lemma joined_pair_fits: "mergeable env b \<Longrightarrow> doc_type b \<noteq> JObject \<Longrightarrow> pair_fits env b"
  using joined_fits unfolding pair_fits_def by (simp add: doc_merge2_arrays)

lemma merged_pair_fits: "mergeable env b \<Longrightarrow> pair_fits env b"
proof (induction b)
  case (DObj kvs)
  have kvs: "\<forall>kd\<in>set kvs. member_ok env kd \<and> pair_fits env (snd kd)"
    using DObj by (auto simp: mergeable_object members_ok_def member_ok_def)
  show ?case unfolding pair_fits_def
  proof (intro allI impI)
    fix a assume a: "mergeable env a" "stored_size env a + merge_cost env (DObj kvs) < 2 ^ 32"
    show "mergeable env (doc_merge2 a (DObj kvs)) \<and>
        stored_size env (doc_merge2 a (DObj kvs)) \<le> stored_size env a + merge_cost env (DObj kvs)"
    proof (cases "doc_type a = JObject")
      case True
      then obtain xs where xs: "a = DObj xs" by (cases a) auto
      show ?thesis using merge_members_fit[OF _ kvs, of xs] a
        by (simp add: xs doc_merge2_objects mergeable_object merge_cost_object stored_size_simps del: merge_cost.simps)
    next
      case False
      then show ?thesis using joined_fits[OF a(1) DObj.prems a(2)] by (simp add: doc_merge2_arrays del: merge_cost.simps)
    qed
  qed
qed (simp_all add: joined_pair_fits del: merge_cost.simps)

end
