(* ===== verification/Json_Merge_Correct.thy ===== *)
theory Json_Merge_Correct
  imports Json_Merge_Doc
begin

text \<open>
  What \<open>Json::merge\<close> computes: on the encodings of documents whose merged size fits the format it
  returns, without a panic or an error, the encoding of the documented merge of the trees.
\<close>

section \<open>The code on encoded documents\<close>

definition obj_writer_ok :: "json_env \<Rightarrow> ((nat list \<times> json) list \<Rightarrow> nat list) \<Rightarrow> bool" where
  "obj_writer_ok env wobj \<longleftrightarrow> (\<forall>m. sorted_wrt (<) (map fst m) \<longrightarrow>
     wobj m = write_json_obj_from_soliton_ids_causet_locales env [] (map (\<lambda>(k, j). (k, json_as_ref 0 j)) m))"

definition json_map :: "json_env \<Rightarrow> (nat list \<times> doc) list \<Rightarrow> (nat list \<times> json) list" where
  "json_map env m = map (\<lambda>(k, d). (k, doc_json env d)) m"

lemma json_map_simps [simp]:
  "json_map env [] = []" "map fst (json_map env m) = map fst m"
  "map_of (json_map env m) k = map_option (doc_json env) (map_of m k)"
  by (induction m) (auto simp: json_map_def)

lemma json_map_insert: "map_insert k (doc_json env d) (json_map env m) = json_map env (map_insert k d m)"
  unfolding json_map_def by (rule map_insert_map)

lemma from_object_doc:
  assumes env: "json_env_ok env" "obj_writer_ok env wobj" and m: "members_ok env m" "8 + members_size env m < 2 ^ 32"
  shows "from_object wobj (json_map env m) = doc_json env (DObj m)"
proof -
  let ?ms = "map (\<lambda>(k, d). (k, 0, d)) m"
  have sorted: "sorted_wrt (<) (map fst m)" using m by (simp add: members_ok_def)
  have e: "map (\<lambda>(k, j). (k, json_as_ref 0 j)) (json_map env m) = map (member_entry env) ?ms"
    by (simp add: json_map_def member_entry_def as_ref_doc_json case_prod_unfold)
  have md: "map member_doc ?ms = m" by (simp add: member_doc_def case_prod_unfold o_def)
  have sk: "sort_key fst m = m" using sorted by (simp add: strict_sorted_iff sorted_map sort_key_id_if_sorted)
  have dist: "distinct (map fst ?ms)" using sorted by (simp add: strict_sorted_iff case_prod_unfold o_def)
  have mok: "\<forall>x\<in>set ?ms. length (fst x) < 2 ^ 16 \<and> doc_ok env (snd (snd x))"
    using m(1) by (auto simp: members_ok_def member_ok_def mergeable_def)
  have "map (member_val env \<circ> member_doc) ?ms = map (member_val env) m" by (metis map_map md)
  then have "object_size (map (member_val env \<circ> member_doc) ?ms) < 2 ^ 32" using m(2) by (simp only: object_size_members)
  from kv_pairs_doc(1)[OF env(1) dist mok this]
  have "from_einsteindb_fdb_kv_pairs env (map (member_entry env) ?ms) = doc_json env (DObj m)" by (simp only: md sk)
  moreover have "wobj (json_map env m) = write_json_obj_from_soliton_ids_causet_locales env [] (map (member_entry env) ?ms)"
    using env(2) sorted e by (simp add: obj_writer_ok_def)
  ultimately show ?thesis by (simp add: from_object_def from_einsteindb_fdb_kv_pairs_def)
qed

text \<open>The contract of the nested call on an old and a new value of a key.\<close>

definition merges_pairs :: "json_env \<Rightarrow> nat \<Rightarrow> (json_ref list \<Rightarrow> json fresult option) \<Rightarrow> bool" where
  "merges_pairs env n mrg \<longleftrightarrow> (\<forall>a b p q. mergeable env a \<longrightarrow> mergeable env b \<longrightarrow> doc_depth b \<le> n \<longrightarrow>
     stored_size env a + merge_cost env b < 2 ^ 32 \<longrightarrow>
     mrg [doc_ref env p a, doc_ref env q b] = Some (Inr (doc_json env (doc_merge2 a b))))"

lemma to_owned_child: "json_to_owned (child_ref env p d i) = doc_json env (children d ! i)"
  by (simp add: child_ref_def json_to_owned_def doc_json_def)

lemma merge_members_doc:
  assumes env: "json_env_ok env" and mrg: "merges_pairs env n mrg"
    and kvs: "mergeable env (DObj kvs)" and depth: "\<forall>kd\<in>set kvs. doc_depth (snd kd) \<le> n"
  shows "members_ok env m \<Longrightarrow> \<forall>i\<in>set is. i < length kvs \<Longrightarrow>
    members_size env m + members_cost env (map ((!) kvs) is) < 2 ^ 32 \<Longrightarrow>
    merge_members mrg env (doc_ref env p (DObj kvs)) is (json_map env m) =
      Some (Inr (json_map env (foldl merge_member m (map ((!) kvs) is))))"
proof (induction "is" arbitrary: m)
  case (Cons i "is")
  obtain k v where kv: "kvs ! i = (k, v)" by (cases "kvs ! i")
  have i: "i < length kvs" using Cons.prems(2) by simp
  have kd: "(k, v) \<in> set kvs" using nth_mem[OF i] kv by simp
  have d: "doc_ok env (DObj kvs)" using kvs by (simp add: mergeable_def)
  have mem: "member_ok env (k, v)" using kvs kd by (simp add: mergeable_object members_ok_def)
  then have v: "mergeable env v" by (simp add: member_ok_def)
  have key: "object_get_soliton_id env (doc_ref env p (DObj kvs)) i = Some k"
    using object_key_doc[OF env d i] kv by simp
  obtain r where val: "object_get_val env (doc_ref env p (DObj kvs)) i = Some (Inr r)"
    and r: "r = doc_ref env (as_ptr r) v" "json_to_owned r = doc_json env v"
    using object_val_doc[OF env d i, of p] i kv by (auto simp: child_ref_def json_to_owned_def doc_json_def)
  have step: "members_ok env (merge_member m (k, v))"
    "members_size env (merge_member m (k, v)) \<le> members_size env m + 11 + length k + merge_cost env v"
    using merge_member_fits[OF Cons.prems(1) mem] merged_pair_fits[OF v] Cons.prems(3) kv by simp_all
  have "members_size env (merge_member m (k, v)) + members_cost env (map ((!) kvs) is) < 2 ^ 32"
    using step(2) Cons.prems(3) kv by simp
  from Cons.IH[OF step(1) _ this] Cons.prems(2)
  have rest: "merge_members mrg env (doc_ref env p (DObj kvs)) is (json_map env (merge_member m (k, v))) =
      Some (Inr (json_map env (foldl merge_member m (map ((!) kvs) (i # is)))))" using kv by simp
  show ?case
  proof (cases "map_of m k")
    case None
    then have "merge_member m (k, v) = map_insert k v m" by (simp add: merge_member_def)
    with None show ?thesis using key val r(2) rest mem kv by (simp add: member_ok_def json_map_insert)
  next
    case (Some a)
    have "stored_size env a + merge_cost env v < 2 ^ 32"
      using members_size_of[OF Some, of env] Cons.prems(3) kv by simp
    then have "mrg [doc_ref env 0 a, r] = Some (Inr (doc_json env (doc_merge2 a v)))"
      using mrg members_ok_of[OF Cons.prems(1) Some] v depth kd r(1) unfolding merges_pairs_def by (metis snd_conv)
    moreover have "sorted_wrt (<) (map fst (json_map env m))" using Cons.prems(1) by (simp add: members_ok_def)
    moreover have "merge_member m (k, v) = map_insert k (doc_merge2 a v) m" by (simp add: merge_member_def Some)
    ultimately show ?thesis using key val rest mem Some kv
      by (simp add: member_ok_def json_map_insert map_insert_removed as_ref_doc_json)
  qed
qed simp

text \<open>The first object of a run fills the empty map; its keys are distinct, so that nothing is merged.\<close>

lemma first_members_doc:
  assumes env: "json_env_ok env" and kvs: "mergeable env (DObj kvs)"
  shows "n \<le> length kvs \<Longrightarrow>
    merge_members mrg env (doc_ref env p (DObj kvs)) [length kvs - n..<length kvs] (json_map env (take (length kvs - n) kvs)) =
      Some (Inr (json_map env kvs))"
proof (induction n)
  case (Suc n)
  let ?i = "length kvs - Suc n"
  obtain k v where kv: "kvs ! ?i = (k, v)" by (cases "kvs ! ?i")
  have i: "?i < length kvs" "Suc ?i = length kvs - n" using Suc.prems by auto
  have d: "doc_ok env (DObj kvs)" using kvs by (simp add: mergeable_def)
  have "member_ok env (k, v)" using kvs nth_mem[OF i(1)] kv by (simp add: mergeable_object members_ok_def)
  then have utf8: "is_utf8 k" by (simp add: member_ok_def)
  have less: "\<forall>x\<in>set (take ?i kvs). fst x < k"
  proof
    fix x assume "x \<in> set (take ?i kvs)"
    then obtain j where j: "j < ?i" "x = kvs ! j" by (auto simp: in_set_conv_nth)
    have "fst (kvs ! j) < fst (kvs ! ?i)" using d j(1) i(1) by (simp add: sorted_wrt_iff_nth_less)
    then show "fst x < k" using j kv by simp
  qed
  then have "map_of (take ?i kvs) k = None" by (auto simp: map_of_eq_None_iff)
  moreover have "map_insert k v (take ?i kvs) = take (Suc ?i) kvs"
    using map_insert_last[OF less] kv i(1) by (simp add: take_Suc_conv_app_nth)
  moreover have "[?i..<length kvs] = ?i # [length kvs - n..<length kvs]" using upt_conv_Cons[OF i(1)] i(2) by simp
  moreover have "json_to_owned (child_ref env p (DObj kvs) ?i) = doc_json env v" using i(1) kv by (simp add: to_owned_child)
  ultimately show ?case
    using object_key_doc[OF env d i(1)] object_val_doc[OF env d i(1)] Suc kv utf8 i(2)
    by (simp add: json_map_insert)
qed simp

text \<open>A run of objects and the members they have together.\<close>

fun obj_members :: "doc \<Rightarrow> (nat list \<times> doc) list" where
  "obj_members (DObj kvs) = kvs"
| "obj_members d = []"

lemma object_of: "doc_type d = JObject \<Longrightarrow> d = DObj (obj_members d)"
  by (cases d) auto

definition run_cost :: "json_env \<Rightarrow> doc list \<Rightarrow> nat" where
  "run_cost env ds = (case ds of [] \<Rightarrow> 0 | d # ds' \<Rightarrow> stored_size env d + 18 + (\<Sum>c\<leftarrow>ds'. merge_cost env c))"

definition run_ok :: "json_env \<Rightarrow> nat \<Rightarrow> doc list \<Rightarrow> bool" where
  "run_ok env n ds \<longleftrightarrow> (\<forall>d\<in>set ds. mergeable env d) \<and> (\<forall>d\<in>set (tl ds). doc_depth d \<le> Suc n)"

lemma foldl_merge_objects:
  "\<forall>d\<in>set ds. doc_type d = JObject \<Longrightarrow>
    foldl doc_merge2 (DObj xs) ds = DObj (foldl merge_member xs (concat (map obj_members ds)))"
proof (induction ds arbitrary: xs)
  case (Cons d ds)
  obtain ys where "d = DObj ys" using Cons.prems object_of by auto
  with Cons show ?case by (simp add: doc_merge2_objects)
qed simp

lemma foldl_merge_fits:
  "mergeable env d \<Longrightarrow> \<forall>c\<in>set ds. mergeable env c \<Longrightarrow> stored_size env d + (\<Sum>c\<leftarrow>ds. merge_cost env c) < 2 ^ 32 \<Longrightarrow>
    mergeable env (foldl doc_merge2 d ds) \<and>
    stored_size env (foldl doc_merge2 d ds) \<le> stored_size env d + (\<Sum>c\<leftarrow>ds. merge_cost env c)"
proof (induction ds arbitrary: d)
  case (Cons c ds)
  have "pair_fits env c" using merged_pair_fits Cons.prems(2) by simp
  then have f: "mergeable env (doc_merge2 d c)" "stored_size env (doc_merge2 d c) \<le> stored_size env d + merge_cost env c"
    using Cons.prems unfolding pair_fits_def by auto
  have "stored_size env (doc_merge2 d c) + (\<Sum>c\<leftarrow>ds. merge_cost env c) < 2 ^ 32" using f(2) Cons.prems(3) by simp
  from Cons.IH[OF f(1) _ this] f(2) Cons.prems(2) show ?case by simp
qed simp

lemma merge_objects_doc:
  assumes env: "json_env_ok env" and mrg: "merges_pairs env n mrg"
  shows "map ref_val js = map (doc_val env) ds \<Longrightarrow> \<forall>d\<in>set ds. doc_type d = JObject \<Longrightarrow>
    \<forall>d\<in>set ds. mergeable env d \<and> doc_depth d \<le> Suc n \<Longrightarrow> members_ok env m \<Longrightarrow>
    members_size env m + (\<Sum>c\<leftarrow>ds. merge_cost env c) < 2 ^ 32 \<Longrightarrow>
    merge_objects mrg env js (json_map env m) =
      Some (Inr (json_map env (foldl merge_member m (concat (map obj_members ds)))))"
proof (induction ds arbitrary: js m)
  case (Cons d ds)
  obtain kvs where d: "d = DObj kvs" using Cons.prems(2) object_of by auto
  obtain j js' where js: "js = j # js'" "ref_val j = doc_val env d" "map ref_val js' = map (doc_val env) ds"
    using Cons.prems(1) by (cases js) auto
  have j: "j = doc_ref env (as_ptr j) (DObj kvs)"
    using js(2) d by (simp add: ref_val_def doc_val_def doc_ref_def)
  have ok: "mergeable env (DObj kvs)" "doc_ok env (DObj kvs)" using Cons.prems(3) d by (auto simp: mergeable_def)
  have "\<forall>c\<in>set (children d). doc_depth c \<le> n" using Cons.prems(3) doc_depth_children[of d] by simp
  then have depth: "\<forall>kd\<in>set kvs. doc_depth (snd kd) \<le> n" by (simp add: d)
  have size: "members_size env m + members_cost env kvs + (\<Sum>c\<leftarrow>ds. merge_cost env c) < 2 ^ 32"
    using Cons.prems(5) by (simp add: d merge_cost_object del: merge_cost.simps)
  have cnt: "get_elem_count env (doc_ref env (as_ptr j) (DObj kvs)) = Some (length kvs)"
    using elem_count_doc[OF env ok(2)] by simp
  have here: "merge_members mrg env (doc_ref env (as_ptr j) (DObj kvs)) [0..<length kvs] (json_map env m) =
      Some (Inr (json_map env (foldl merge_member m kvs)))"
    using merge_members_doc[OF env mrg ok(1) depth Cons.prems(4), of "[0..<length kvs]"] size by (simp add: map_nth)
  have "\<forall>kd\<in>set kvs. member_ok env kd \<and> pair_fits env (snd kd)"
    using ok(1) by (auto simp: mergeable_object members_ok_def member_ok_def intro: merged_pair_fits)
  then have fit: "members_ok env (foldl merge_member m kvs) \<and>
      members_size env (foldl merge_member m kvs) \<le> members_size env m + members_cost env kvs"
    using merge_members_fit[OF Cons.prems(4)] size by simp
  have "merge_objects mrg env js' (json_map env (foldl merge_member m kvs)) =
      Some (Inr (json_map env (foldl merge_member (foldl merge_member m kvs) (concat (map obj_members ds)))))"
    by (rule Cons.IH[OF js(3)]) (use Cons.prems fit size in auto)
  then show ?case unfolding js(1) merge_objects.simps by (subst j) (use cnt here j in \<open>simp add: d\<close>)
qed simp

lemma merge_binary_object_doc:
  assumes env: "json_env_ok env" "obj_writer_ok env wobj" and mrg: "merges_pairs env n mrg"
    and js: "map ref_val js = map (doc_val env) (d # ds)" and obj: "\<forall>c\<in>set (d # ds). doc_type c = JObject"
    and ok: "run_ok env n (d # ds)" and size: "run_cost env (d # ds) < 2 ^ 32 + 18"
  shows "merge_binary_object mrg env wobj js = Some (Inr (doc_json env (foldl doc_merge2 d ds)))"
proof -
  obtain kvs where d: "d = DObj kvs" using obj object_of by auto
  obtain j js' where j: "js = j # js'" "ref_val j = doc_val env d" "map ref_val js' = map (doc_val env) ds"
    using js by (cases js) auto
  have jd: "j = doc_ref env (as_ptr j) (DObj kvs)" using j(2) d by (simp add: ref_val_def doc_val_def doc_ref_def)
  have m: "mergeable env (DObj kvs)" using ok d by (simp add: run_ok_def)
  then have m': "members_ok env kvs" "doc_ok env (DObj kvs)" by (blast dest: mergeable_object[THEN iffD1] mergeable_def[THEN iffD1])+
  have fits: "stored_size env d + (\<Sum>c\<leftarrow>ds. merge_cost env c) < 2 ^ 32" using size by (simp add: run_cost_def)
  let ?m = "foldl merge_member kvs (concat (map obj_members ds))"
  have res: "foldl doc_merge2 d ds = DObj ?m" using foldl_merge_objects[of ds kvs] obj d by simp
  have "mergeable env (foldl doc_merge2 d ds)" using foldl_merge_fits[of env d ds] ok fits by (simp add: run_ok_def)
  then have fin: "from_object wobj (json_map env ?m) = doc_json env (DObj ?m)"
    unfolding res mergeable_object by (intro from_object_doc[OF env]) auto
  have first: "merge_members mrg env j [0..<length kvs] [] = Some (Inr (json_map env kvs))"
    using first_members_doc[OF env(1) m, of "length kvs" mrg "as_ptr j"] jd by simp
  have rest: "merge_objects mrg env js' (json_map env kvs) = Some (Inr (json_map env ?m))"
    by (rule merge_objects_doc[OF env(1) mrg j(3)]) (use ok obj m' fits d in \<open>auto simp: run_ok_def stored_size_simps\<close>)
  have "get_elem_count env j = Some (length kvs)" using elem_count_doc[OF env(1) m'(2), of "as_ptr j"] jd by simp
  then show ?thesis using first rest fin by (simp add: merge_binary_object_def j(1) res)
qed

text \<open>The cost of a list of documents, the first of which is only copied.\<close>

definition units_size :: "json_env \<Rightarrow> doc list \<Rightarrow> nat" where
  "units_size env us = (\<Sum>u\<leftarrow>us. stored_size env u + 18)"

lemma units_size_simps [simp]:
  "units_size env [] = 0" "units_size env (u # us) = stored_size env u + 18 + units_size env us"
  "units_size env (us @ vs) = units_size env us + units_size env vs"
  by (simp_all add: units_size_def)

lemma run_cost_snoc: "run_cost env (ds @ [d]) \<le> run_cost env ds + merge_cost env d"
  using stored_size_cost[of env d] by (cases ds) (auto simp: run_cost_def)

lemma merged_run_fits:
  assumes "\<forall>d\<in>set ds. mergeable env d" "run_cost env ds < 2 ^ 32 + 18"
  shows "(\<forall>u\<in>set (merged_run ds). mergeable env u) \<and> units_size env (merged_run ds) \<le> run_cost env ds"
  using foldl_merge_fits[of env "hd ds" "tl ds"] assms by (cases ds) (auto simp: merged_run_def run_cost_def)

lemma doc_units_fit:
  "\<forall>d\<in>set (objs @ ds). mergeable env d \<Longrightarrow> run_cost env objs + (\<Sum>d\<leftarrow>ds. merge_cost env d) < 2 ^ 32 + 18 \<Longrightarrow>
    (\<forall>u\<in>set (doc_units objs ds). mergeable env u) \<and>
    units_size env (doc_units objs ds) \<le> run_cost env objs + (\<Sum>d\<leftarrow>ds. merge_cost env d)"
proof (induction objs ds rule: doc_units.induct)
  case (1 objs)
  then show ?case using merged_run_fits[of objs env] by simp
next
  case (2 objs d ds)
  show ?case
  proof (cases "doc_type d = JObject")
    case True
    have "run_cost env (objs @ [d]) + (\<Sum>d\<leftarrow>ds. merge_cost env d) < 2 ^ 32 + 18"
      using run_cost_snoc[of env objs d] "2.prems"(2) by simp
    then show ?thesis using "2.IH"(1)[OF True] "2.prems"(1) True run_cost_snoc[of env objs d] by fastforce
  next
    case False
    have r: "(\<forall>u\<in>set (merged_run objs). mergeable env u) \<and> units_size env (merged_run objs) \<le> run_cost env objs"
      using merged_run_fits[of objs env] "2.prems" by simp
    have s: "run_cost env [] + (\<Sum>d\<leftarrow>ds. merge_cost env d) < 2 ^ 32 + 18" using "2.prems"(2) by (simp add: run_cost_def)
    have "(\<forall>u\<in>set (doc_units [] ds). mergeable env u) \<and> units_size env (doc_units [] ds) \<le> (\<Sum>d\<leftarrow>ds. merge_cost env d)"
      using "2.IH"(2)[OF False _ s] "2.prems"(1) by (simp add: run_cost_def)
    then show ?thesis using r False "2.prems"(1) stored_size_cost[of env d] by auto
  qed
qed

definition unit_val :: "merge_unit \<Rightarrow> jval" where
  "unit_val u = ref_val (unit_as_ref u)"

lemma unit_val_simps [simp]: "unit_val (URef r) = ref_val r" "unit_val (UOwned (doc_json env d)) = doc_val env d"
  by (simp_all add: unit_val_def as_ref_doc_json ref_val_def doc_val_def)

lemma merge_units_doc:
  assumes env: "json_env_ok env" "obj_writer_ok env wobj" and mrg: "merges_pairs env n mrg"
  shows "map ref_val bjs = map (doc_val env) ds \<Longrightarrow> map ref_val js = map (doc_val env) objs \<Longrightarrow>
    map unit_val us = map (doc_val env) acc \<Longrightarrow> \<forall>d\<in>set objs. doc_type d = JObject \<Longrightarrow>
    run_ok env n objs \<Longrightarrow> \<forall>d\<in>set ds. mergeable env d \<Longrightarrow>
    \<forall>d\<in>set (if objs = [] then tl ds else ds). doc_depth d \<le> Suc n \<Longrightarrow>
    run_cost env objs + (\<Sum>d\<leftarrow>ds. merge_cost env d) < 2 ^ 32 + 18 \<Longrightarrow>
    \<exists>rs. merge_units mrg env wobj bjs js us = Some (Inr rs) \<and> map unit_val rs = map (doc_val env) (acc @ doc_units objs ds)"
proof (induction objs ds arbitrary: bjs js us acc rule: doc_units.induct)
  case (1 objs)
  show ?case
  proof (cases objs)
    case (Cons o1 os)
    have "merge_binary_object mrg env wobj js = Some (Inr (doc_json env (foldl doc_merge2 o1 os)))"
      by (rule merge_binary_object_doc[OF env mrg]) (use 1 Cons in auto)
    then show ?thesis using 1 Cons by (auto simp: merged_run_def)
  qed (use 1 in \<open>simp add: merged_run_def\<close>)
next
  case (2 objs d ds)
  obtain j bjs' where j: "bjs = j # bjs'" "ref_val j = doc_val env d" "map ref_val bjs' = map (doc_val env) ds"
    using "2.prems"(1) by (cases bjs) auto
  have tp: "type_code j = doc_type d" using j(2) by (simp add: ref_val_def doc_val_def)
  show ?case
  proof (cases "doc_type d = JObject")
    case True
    have "\<exists>rs. merge_units mrg env wobj bjs' (js @ [j]) us = Some (Inr rs) \<and>
        map unit_val rs = map (doc_val env) (acc @ doc_units (objs @ [d]) ds)"
      by (rule "2.IH"(1)[OF True j(3)])
        (use "2.prems" True j run_cost_snoc[of env objs d] in
          \<open>auto simp: run_ok_def tl_append split: if_splits list.splits\<close>)
    then show ?thesis using True tp by (simp add: j(1))
  next
    case False
    have tls: "x \<in> set ds" if "x \<in> set (tl ds)" for x using that by (cases ds) auto
    have more: "\<exists>rs. merge_units mrg env wobj bjs' [] us' = Some (Inr rs) \<and>
        map unit_val rs = map (doc_val env) ((acc @ merged_run objs @ [d]) @ doc_units [] ds)"
      if "map unit_val us' = map (doc_val env) (acc @ merged_run objs @ [d])" for us'
      by (rule "2.IH"(2)[OF False j(3) _ that])
        (use "2.prems" in \<open>auto simp: run_ok_def run_cost_def split: if_splits dest: tls\<close>)
    have len: "length js = length objs" using "2.prems"(2) map_eq_imp_length_eq by blast
    consider "objs = []" | o1 where "objs = [o1]" | o1 o2 os where "objs = o1 # o2 # os"
      by (cases objs rule: remdups_adj.cases) auto
    then show ?thesis
    proof cases
      case 1
      then show ?thesis using more[of "us @ [URef j]"] False tp len "2.prems"(3) j(2) by (simp add: j(1) merged_run_def)
    next
      case 2
      then obtain r where r: "js = [r]" "ref_val r = doc_val env o1" using "2.prems"(2) by (cases js) auto
      with 2 show ?thesis using more[of "us @ [URef r] @ [URef j]"] False tp "2.prems"(3) j(2) by (simp add: j(1) merged_run_def)
    next
      case 3
      have "merge_binary_object mrg env wobj js = Some (Inr (doc_json env (foldl doc_merge2 o1 (o2 # os))))"
        by (rule merge_binary_object_doc[OF env mrg]) (use "2.prems" 3 in auto)
      with 3 show ?thesis using more[of "us @ [UOwned (doc_json env (foldl doc_merge2 o1 (o2 # os)))] @ [URef j]"]
          False tp len "2.prems"(3) j(2) by (simp add: j(1) merged_run_def)
    qed
  qed
qed

lemma unit_owned: "unit_val u = doc_val env d \<Longrightarrow> unit_into_owned u = doc_json env d"
  by (cases u) (auto simp: to_owned_val unit_val_def json_as_ref_def ref_val_def doc_val_def doc_json_def)

lemma unit_elems_doc:
  assumes env: "json_env_ok env" and u: "unit_val u = doc_val env d" and d: "doc_ok env d"
  shows "\<exists>rs. (let j = unit_as_ref u in
      if type_code j \<noteq> JArray then Some (Inr [j])
      else do { child_count \<leftarrow> get_elem_count env j; try_each (array_get_elem env j) [0..<child_count] }) = Some (Inr rs) \<and>
    map ref_val rs = map (doc_val env) (join_elems d)"
proof -
  let ?j = "unit_as_ref u"
  have j: "?j = doc_ref env (as_ptr ?j) d" using u by (simp add: unit_val_def ref_val_def doc_val_def doc_ref_def)
  show ?thesis
  proof (cases "doc_type d = JArray")
    case True
    then obtain ds where ds: "d = DArr ds" by (cases d) auto
    have "get_elem_count env ?j = Some (length ds)" using elem_count_doc[OF env d, of "as_ptr ?j"] j ds by simp
    moreover have "try_each (array_get_elem env ?j) [0..<length ds] = Some (Inr (map (child_ref env (as_ptr ?j) d) [0..<length ds]))"
      by (rule try_each_ok, subst j) (use array_elem_doc[OF env] d ds in simp)
    moreover have "map ref_val (map (child_ref env (as_ptr ?j) d) [0..<length ds]) = map (doc_val env) ds"
      by (rule nth_equalityI) (simp_all add: ds child_ref_def ref_val_def doc_val_def)
    moreover have "type_code ?j = JArray" by (subst j) (simp add: ds)
    ultimately show ?thesis by (auto simp: ds)
  next
    case False
    moreover have "type_code ?j = doc_type d" by (subst j) simp
    moreover have "join_elems d = [d]" using False by (cases d) auto
    ultimately show ?thesis using u by (simp add: unit_val_def)
  qed
qed

lemma merge_binary_array_doc:
  assumes env: "json_env_ok env" and us: "map unit_val us = map (doc_val env) ds"
    and ds: "\<forall>d\<in>set ds. doc_ok env d" and size: "array_size (map (doc_val env) (concat (map join_elems ds))) < 2 ^ 32"
  shows "merge_binary_array env us = Some (Inr (doc_json env (DArr (concat (map join_elems ds)))))"
proof -
  let ?f = "\<lambda>u. let j = unit_as_ref u in
      if type_code j \<noteq> JArray then Some (Inr [j])
      else do { child_count \<leftarrow> get_elem_count env j; try_each (array_get_elem env j) [0..<child_count] }"
  have "\<exists>rss. try_each ?f us = Some (Inr rss) \<and> map ref_val (concat rss) = map (doc_val env) (concat (map join_elems ds))"
    using us ds
  proof (induction ds arbitrary: us)
    case (Cons d ds)
    obtain u us' where u: "us = u # us'" "unit_val u = doc_val env d" "map unit_val us' = map (doc_val env) ds"
      using Cons.prems(1) by (cases us) auto
    obtain rs where "?f u = Some (Inr rs)" "map ref_val rs = map (doc_val env) (join_elems d)"
      using unit_elems_doc[OF env u(2)] Cons.prems(2) by auto
    moreover obtain rss where "try_each ?f us' = Some (Inr rss)"
      "map ref_val (concat rss) = map (doc_val env) (concat (map join_elems ds))"
      using Cons.IH[OF u(3)] Cons.prems(2) by auto
    ultimately show ?case by (intro exI[of _ "rs # rss"]) (simp add: u(1) try_res_def del: Let_def)
  qed simp
  then obtain rss where "try_each ?f us = Some (Inr rss)"
    and v: "map ref_val (concat rss) = map (doc_val env) (concat (map join_elems ds))" by blast
  then show ?thesis using from_ref_array_docs[OF env v size]
    unfolding merge_binary_array_def collect_each_def by simp
qed

lemma joined_units_size:
  "length us \<noteq> 1 \<Longrightarrow> array_size (map (doc_val env) (concat (map join_elems us))) + 18 \<le> max 26 (units_size env us)"
proof -
  have "(\<Sum>d\<leftarrow>concat (map join_elems us). 5 + stored_size env d) + 13 * length us \<le> units_size env us"
  proof (induction us)
    case (Cons u us)
    then show ?case using join_elems_size[of env u] by simp
  qed simp
  moreover assume "length us \<noteq> 1"
  ultimately show ?thesis unfolding array_size_elems by (cases us rule: remdups_adj.cases) auto
qed

definition merged_size :: "json_env \<Rightarrow> doc list \<Rightarrow> nat" where
  "merged_size env ds = (case ds of [] \<Rightarrow> 0 | d # ds' \<Rightarrow> stored_size env d + (\<Sum>c\<leftarrow>ds'. merge_cost env c))"

lemma doc_units_first_fit:
  assumes "\<forall>d\<in>set ds. mergeable env d" "merged_size env ds < 2 ^ 32"
  shows "(\<forall>u\<in>set (doc_units [] ds). mergeable env u) \<and> units_size env (doc_units [] ds) \<le> merged_size env ds + 18"
proof (cases ds)
  case (Cons d ds')
  have ok: "mergeable env d" "\<forall>c\<in>set ds'. mergeable env c" using assms(1) Cons by auto
  have size: "stored_size env d + (\<Sum>c\<leftarrow>ds'. merge_cost env c) < 2 ^ 32" using assms(2) Cons by (simp add: merged_size_def)
  have total: "merged_size env ds = stored_size env d + (\<Sum>c\<leftarrow>ds'. merge_cost env c)" by (simp add: merged_size_def Cons)
  have costs: "run_cost env [d] = stored_size env d + 18" "run_cost env [] = 0" by (simp_all add: run_cost_def)
  show ?thesis
  proof (cases "doc_type d = JObject")
    case True
    show ?thesis using doc_units_fit[of "[d]" ds' env] ok size True unfolding costs total by (simp add: Cons)
  next
    case False
    show ?thesis using doc_units_fit[of "[]" ds' env] ok size False unfolding costs total by (simp add: Cons)
  qed
qed simp

lemma first_unit_doc:
  assumes env: "json_env_ok env" "obj_writer_ok env wobj" and mrg: "merges_pairs env n mrg"
    and bjs: "map ref_val bjs = map (doc_val env) ds" and ds: "\<forall>d\<in>set ds. mergeable env d"
    and size: "merged_size env ds < 2 ^ 32" and depth: "\<forall>d\<in>set (tl ds). doc_depth d \<le> Suc n"
  shows "\<exists>rs. merge_units mrg env wobj bjs [] [] = Some (Inr rs) \<and> map unit_val rs = map (doc_val env) (doc_units [] ds)"
proof (cases ds)
  case (Cons d ds')
  obtain j bjs' where j: "bjs = j # bjs'" "ref_val j = doc_val env d" "map ref_val bjs' = map (doc_val env) ds'"
    using bjs Cons by (cases bjs) auto
  have tp: "type_code j = doc_type d" using j(2) by (simp add: ref_val_def doc_val_def)
  have tls: "\<forall>c\<in>set (tl ds'). doc_depth c \<le> Suc n" using depth Cons by (cases ds') auto
  show ?thesis
  proof (cases "doc_type d = JObject")
    case True
    have "\<exists>rs. merge_units mrg env wobj bjs' [j] [] = Some (Inr rs) \<and> map unit_val rs = map (doc_val env) ([] @ doc_units [d] ds')"
      by (rule merge_units_doc[OF env mrg j(3)])
        (use True j ds depth size Cons in \<open>auto simp: run_ok_def run_cost_def merged_size_def\<close>)
    then show ?thesis using True tp by (simp add: Cons j(1))
  next
    case False
    have "\<exists>rs. merge_units mrg env wobj bjs' [] [URef j] = Some (Inr rs) \<and> map unit_val rs = map (doc_val env) ([d] @ doc_units [] ds')"
      by (rule merge_units_doc[OF env mrg j(3)])
        (use False j ds tls size Cons in \<open>auto simp: run_ok_def run_cost_def merged_size_def\<close>)
    then show ?thesis using False tp by (simp add: Cons j(1))
  qed
qed (use bjs in simp)

lemma merge_json_step:
  assumes env: "json_env_ok env" "obj_writer_ok env wobj" and mrg: "merges_pairs env n (merge_json n env wobj)"
    and bjs: "map ref_val bjs = map (doc_val env) ds" and ds: "\<forall>d\<in>set ds. mergeable env d"
    and size: "merged_size env ds < 2 ^ 32" and depth: "\<forall>d\<in>set (tl ds). doc_depth d \<le> Suc n"
  shows "merge_json (Suc n) env wobj bjs = Some (Inr (doc_json env (doc_merge ds)))"
proof -
  let ?us = "doc_units [] ds"
  have fit: "\<forall>u\<in>set ?us. mergeable env u" "units_size env ?us \<le> merged_size env ds + 18"
    using doc_units_first_fit[OF ds size] by auto
  obtain rs where rs: "merge_units (merge_json n env wobj) env wobj bjs [] [] = Some (Inr rs)"
      "map unit_val rs = map (doc_val env) ?us"
    using first_unit_doc[OF env mrg bjs ds size depth] by blast
  have len: "length rs = length ?us" using rs(2) map_eq_imp_length_eq by blast
  show ?thesis
  proof (cases "length ?us = 1")
    case True
    then obtain u where u: "?us = [u]" by (auto simp: length_Suc_conv)
    with rs(2) obtain r where "rs = [r]" "unit_val r = doc_val env u" by auto
    then show ?thesis using rs(1) unit_owned[of r env u] by (simp add: doc_merge_def u)
  next
    case False
    then have m: "doc_merge ds = DArr (concat (map join_elems ?us))" by (auto simp: doc_merge_def split: list.splits)
    have "array_size (map (doc_val env) (concat (map join_elems ?us))) < 2 ^ 32"
      using joined_units_size[OF False, of env] fit(2) size by simp
    moreover have "\<forall>u\<in>set ?us. doc_ok env u" using fit(1) by (simp add: mergeable_def)
    ultimately have "merge_binary_array env rs = Some (Inr (doc_json env (doc_merge ds)))"
      unfolding m using merge_binary_array_doc[OF env(1) rs(2)] by blast
    then show ?thesis using rs(1) False len by simp
  qed
qed

lemma merge_json_pairs:
  assumes "json_env_ok env" "obj_writer_ok env wobj"
  shows "merges_pairs env n (merge_json n env wobj)"
proof (induction n)
  case 0
  have "0 < doc_depth b" for b by (simp add: doc_depth_children[of b])
  then show ?case unfolding merges_pairs_def by (metis not_le)
next
  case (Suc n)
  show ?case unfolding merges_pairs_def
  proof (intro allI impI)
    fix a b p q
    assume "mergeable env a" "mergeable env b" "doc_depth b \<le> Suc n" "stored_size env a + merge_cost env b < 2 ^ 32"
    then show "merge_json (Suc n) env wobj [doc_ref env p a, doc_ref env q b] = Some (Inr (doc_json env (doc_merge2 a b)))"
      using merge_json_step[OF assms Suc, of "[doc_ref env p a, doc_ref env q b]" "[a, b]"]
      by (simp add: doc_merge_pair merged_size_def ref_val_def doc_val_def)
  qed
qed

lemma doc_merge_mergeable:
  assumes "\<forall>d\<in>set ds. mergeable env d" "merged_size env ds < 2 ^ 32"
  shows "mergeable env (doc_merge ds)"
proof -
  let ?us = "doc_units [] ds"
  have fit: "\<forall>u\<in>set ?us. mergeable env u" "units_size env ?us \<le> merged_size env ds + 18"
    using doc_units_first_fit[OF assms] by auto
  show ?thesis
  proof (cases "length ?us = 1")
    case True
    then show ?thesis using fit(1) by (auto simp: doc_merge_def length_Suc_conv)
  next
    case False
    then have m: "doc_merge ds = DArr (concat (map join_elems ?us))" by (auto simp: doc_merge_def split: list.splits)
    have "stored_size env (doc_merge ds) < 2 ^ 32" unfolding m stored_size_simps
      using joined_units_size[OF False, of env] fit(2) assms(2) by (simp add: array_size_elems)
    then show ?thesis using fit(1) mergeable_elems unfolding m mergeable_array by fastforce
  qed
qed

section \<open>The property\<close>

text \<open>
  C19: On the encodings of documents whose keys are UTF-8 and whose merge fits the format,
  \<open>Json::merge\<close> returns, without a panic or an error and with no more nested calls than the
  documents after the first are deep, the encoding of their merge: every run of adjacent objects
  becomes one object, in which the values of a common key are merged in turn, and the runs, scalars
  and elements of arrays are joined into one array unless a single document is left. The result is
  again a document of the format.
\<close>

theorem json_merge_merges:
  assumes "json_env_ok env" "obj_writer_ok env wobj" "map ref_val bjs = map (doc_val env) ds"
    and "\<forall>d\<in>set ds. mergeable env d" "merged_size env ds < 2 ^ 32"
    and "0 < fuel" "\<forall>d\<in>set (tl ds). doc_depth d \<le> fuel"
  shows "merge_json fuel env wobj bjs = Some (Inr (doc_json env (doc_merge ds))) \<and> mergeable env (doc_merge ds)"
proof (cases fuel)
  case (Suc n)
  show ?thesis unfolding Suc
    using merge_json_step[OF assms(1,2) merge_json_pairs[OF assms(1,2)] assms(3-5)] assms(7) Suc
      doc_merge_mergeable[OF assms(4,5)] by simp
qed (use assms(6) in simp)

text \<open>Merging \<open>{"a": null, "b": [true, 5]}\<close>, \<open>{"b": {"a": 1}, "c": 2}\<close> and \<open>7\<close>.\<close>

definition sample_merged :: "doc list" where
  "sample_merged = [sample_doc, DObj [([98], DObj [([97], DInt 1)]), ([99], DInt 2)], DInt 7]"

definition std_obj_writer :: "(nat list \<times> json) list \<Rightarrow> nat list" where
  "std_obj_writer m =
     write_json_obj_from_soliton_ids_causet_locales std_json_env [] (map (\<lambda>(k, j). (k, json_as_ref 0 j)) m)"

theorem json_merge_merges_witness:
  "merge_json 3 std_json_env std_obj_writer (map (doc_ref std_json_env 16) sample_merged) =
    Some (Inr (doc_json std_json_env (DArr
      [DObj [([97], DNull), ([98], DArr [DBool True, DInt 5, DObj [([97], DInt 1)]]), ([99], DInt 2)], DInt 7])))"
proof -
  have keys: "is_utf8 [97]" "is_utf8 [98]" "is_utf8 [99]" by code_simp+
  have "doc_merge sample_merged = DArr
      [DObj [([97], DNull), ([98], DArr [DBool True, DInt 5, DObj [([97], DInt 1)]]), ([99], DInt 2)], DInt 7]"
    by (simp add: sample_merged_def sample_doc_def doc_merge_def merged_run_def doc_merge2_objects merge_member_def doc_merge2_arrays)
  moreover have "\<forall>d\<in>set sample_merged. mergeable std_json_env d"
    by (simp add: sample_merged_def sample_doc_def mergeable_def object_size_members members_size_def stored_size_def
        stored_def enc_Arr enc_Obj length_array_layout length_object_layout array_size_def object_size_def in_signed_def keys)
  moreover have "merged_size std_json_env sample_merged < 2 ^ 32"
    by (simp add: sample_merged_def sample_doc_def merged_size_def members_size_def stored_size_def stored_def
        enc_Arr enc_Obj length_array_layout length_object_layout array_size_def object_size_def)
  moreover have "\<forall>d\<in>set (tl sample_merged). doc_depth d \<le> 3" by (simp add: sample_merged_def)
  moreover have "map ref_val (map (doc_ref std_json_env 16) sample_merged) = map (doc_val std_json_env) sample_merged"
    by (simp add: ref_val_def doc_val_def)
  moreover have "obj_writer_ok std_json_env std_obj_writer" by (simp add: obj_writer_ok_def std_obj_writer_def)
  ultimately show ?thesis using json_merge_merges[OF std_json_env_ok, of std_obj_writer _ sample_merged 3] by simp
qed

end
