(* ===== verification/Float64.thy ===== *)
theory Float64
  imports Prelude "HOL-Library.Log_Nat"
begin

text \<open>
  The numbers of the type \<open>f64\<close> as the JSON comparison uses them: exact rational values with the
  infinities and not-a-number, rounded to the nearest number of 53 significant bits, ties to even.
  The sign of a zero is left out: neither comparison nor subtraction shows it.
\<close>

section \<open>Numbers\<close>

datatype f64 = FNan | FInf bool | FFin rat

definition pow2 :: "int \<Rightarrow> rat" where
  "pow2 e = (if 0 \<le> e then 2 ^ nat e else 1 / 2 ^ nat (- e))"

text \<open>The exponent \<open>e\<close> with \<open>2 ^ e \<le> q < 2 ^ (e + 1)\<close> of a positive number.\<close>

definition exponent_of :: "rat \<Rightarrow> int" where
  "exponent_of q =
     (let (a, b) = quotient_of q; e = bitlen a - bitlen b
      in if pow2 e \<le> q then e else e - 1)"

definition nearest_even :: "rat \<Rightarrow> int" where
  "nearest_even q =
     (let k = \<lfloor>q\<rfloor>; r = q - of_int k
      in if r < 1 / 2 \<or> r = 1 / 2 \<and> even k then k else k + 1)"

text \<open>The unit of the last place of a magnitude, and the rounded magnitude.\<close>

definition last_place :: "rat \<Rightarrow> rat" where
  "last_place q = pow2 (max (exponent_of q - 52) (- 1074))"

definition round_magnitude :: "rat \<Rightarrow> rat" where
  "round_magnitude q = (if q = 0 then 0 else of_int (nearest_even (q / last_place q)) * last_place q)"

definition f64_round :: "rat \<Rightarrow> f64" where
  "f64_round q =
     (let m = round_magnitude \<bar>q\<bar>
      in if pow2 1024 \<le> m then FInf (q < 0) else FFin (sgn q * m))"

definition f64_of_int :: "int \<Rightarrow> f64" where
  "f64_of_int i = f64_round (of_int i)"

text \<open>\<open>f64::from_bits\<close>: the sign, eleven bits of exponent and 52 bits of fraction.\<close>

definition f64_of_bits :: "nat \<Rightarrow> f64" where
  "f64_of_bits n =
     (let s = (if n div 2 ^ 63 mod 2 = 1 then -1 else 1);
          ex = n div 2 ^ 52 mod 2 ^ 11;
          m = n mod 2 ^ 52
      in if ex = 2047 then (if m = 0 then FInf (s = -1) else FNan)
         else if ex = 0 then FFin (s * of_nat m * pow2 (- 1074))
         else FFin (s * of_nat (m + 2 ^ 52) * pow2 (int ex - 1075)))"

section \<open>Operations\<close>

fun f64_sub :: "f64 \<Rightarrow> f64 \<Rightarrow> f64" where
  "f64_sub (FFin x) (FFin y) = f64_round (x - y)"
| "f64_sub (FInf a) (FInf b) = (if a = b then FNan else FInf a)"
| "f64_sub (FInf a) (FFin y) = FInf a"
| "f64_sub (FFin x) (FInf b) = FInf (\<not> b)"
| "f64_sub _ _ = FNan"

fun f64_abs :: "f64 \<Rightarrow> f64" where
  "f64_abs FNan = FNan"
| "f64_abs (FInf _) = FInf False"
| "f64_abs (FFin x) = FFin \<bar>x\<bar>"

fun f64_partial_cmp :: "f64 \<Rightarrow> f64 \<Rightarrow> partitioning option" where
  "f64_partial_cmp (FFin x) (FFin y) = Some (cmp_val x y)"
| "f64_partial_cmp (FInf a) (FInf b) = Some (if a = b then Equal else if a then Less else Greater)"
| "f64_partial_cmp (FInf a) (FFin y) = Some (if a then Less else Greater)"
| "f64_partial_cmp (FFin x) (FInf b) = Some (if b then Greater else Less)"
| "f64_partial_cmp _ _ = None"

definition EPSILON :: f64 where
  "EPSILON = FFin (pow2 (- 52))"

section \<open>Symmetry\<close>

lemma f64_abs_round: "f64_abs (f64_round (- q)) = f64_abs (f64_round q)"
  by (auto simp: f64_round_def Let_def sgn_minus abs_mult)

lemma f64_sub_swap: "f64_abs (f64_sub y x) = f64_abs (f64_sub x y)"
proof (cases x)
  case (FFin a)
  then show ?thesis
  proof (cases y)
    case (FFin b)
    have "f64_abs (f64_round (b - a)) = f64_abs (f64_round (a - b))" using f64_abs_round[of "a - b"] by simp
    then show ?thesis using FFin \<open>x = FFin a\<close> by simp
  qed auto
qed (cases y; auto)+

lemma f64_cmp_swap: "f64_partial_cmp y x = map_option flip (f64_partial_cmp x y)"
  by (cases x; cases y) (auto simp: cmp_val_def)

section \<open>Exact numbers\<close>

text \<open>A magnitude that is a whole number of its last places is not changed by rounding.\<close>

lemma nearest_even_int [simp]: "nearest_even (of_int k) = k"
  by (simp add: nearest_even_def)

lemma pow2_pos [simp]: "0 < pow2 e"
  by (simp add: pow2_def)

lemma round_magnitude_exact:
  assumes "q = of_int k * last_place q"
  shows "round_magnitude q = q"
proof -
  have "last_place q \<noteq> 0" by (metis last_place_def less_irrefl pow2_pos)
  then have "q / last_place q = of_int k" using assms by (metis nonzero_mult_div_cancel_right)
  then show ?thesis using assms by (simp add: round_magnitude_def)
qed

lemma exponent_of_int:
  assumes "0 < i" shows "exponent_of (of_int i) = bitlen i - 1"
proof -
  have "2 ^ nat (bitlen i - 1) \<le> i" using bitlen_bounds[OF assms] by simp
  then have "(2 :: rat) ^ nat (bitlen i - 1) \<le> of_int i" by (metis of_int_le_iff of_int_numeral of_int_power)
  moreover have "0 \<le> bitlen i - 1" using bitlen_nonneg[of i] bitlen_eq_zero_iff[of i] assms by linarith
  moreover have "bitlen 1 = 1" by (simp add: bitlen_def floorlog_def)
  ultimately show ?thesis using assms by (simp add: exponent_of_def pow2_def)
qed

lemma f64_of_int_exact:
  assumes "\<bar>i\<bar> < 2 ^ 53" shows "f64_of_int i = FFin (of_int i)"
proof (cases "i = 0")
  case False
  let ?n = "nat (53 - bitlen \<bar>i\<bar>)"
  have pos: "0 < \<bar>i\<bar>" using False by simp
  have "bitlen \<bar>i\<bar> \<le> 53" using bitlen_le_iff_power[of "\<bar>i\<bar>" 53] assms by simp
  then have lp: "last_place (of_int \<bar>i\<bar>) = 1 / 2 ^ ?n"
    using exponent_of_int[OF pos] bitlen_nonneg[of "\<bar>i\<bar>"] by (auto simp: last_place_def pow2_def max_def)
  have "(of_int \<bar>i\<bar> :: rat) = of_int (\<bar>i\<bar> * 2 ^ ?n) * last_place (of_int \<bar>i\<bar>)" unfolding lp by simp
  from round_magnitude_exact[OF this] have "round_magnitude \<bar>of_int i\<bar> = \<bar>of_int i\<bar>" by simp
  moreover have "\<not> pow2 1024 \<le> (\<bar>of_int i\<bar> :: rat)"
  proof -
    have "(\<bar>of_int i\<bar> :: rat) < 2 ^ 53" using assms by (metis of_int_abs of_int_less_iff of_int_numeral of_int_power)
    also have "(2 :: rat) ^ 53 \<le> 2 ^ 1024" by (rule power_increasing) auto
    finally show ?thesis by (simp add: pow2_def)
  qed
  ultimately show ?thesis by (simp add: f64_of_int_def f64_round_def mult.commute[of "sgn q" for q] abs_mult_sgn)
qed (simp add: f64_of_int_def f64_round_def round_magnitude_def pow2_def)

end
