(* ===== verification/Json_Compare.thy ===== *)
theory Json_Compare
  imports Json Float64
begin

text \<open>
  Comparison of JSON documents, \<open>src/berolinasql/src/comparison.rs\<close>, with the precedences of
  \<open>constants.rs\<close>. The number codec is a parameter: \<open>dec64\<close> is \<open>NumberCodec::decode_f64_le\<close>.
\<close>

section \<open>Precedences\<close>

definition PRECEDENCE_BOOLEAN :: int where [simp]: "PRECEDENCE_BOOLEAN = -7"
definition PRECEDENCE_ARRAY :: int where [simp]: "PRECEDENCE_ARRAY = -8"
definition PRECEDENCE_OBJECT :: int where [simp]: "PRECEDENCE_OBJECT = -9"
definition PRECEDENCE_STRING :: int where [simp]: "PRECEDENCE_STRING = -10"
definition PRECEDENCE_NUMBER :: int where [simp]: "PRECEDENCE_NUMBER = -11"
definition PRECEDENCE_NULL :: int where [simp]: "PRECEDENCE_NULL = -12"

definition get_precedence :: "json_ref \<Rightarrow> int option" where
  "get_precedence j =
     (case type_code j of
        JObject \<Rightarrow> Some PRECEDENCE_OBJECT
      | JArray \<Rightarrow> Some PRECEDENCE_ARRAY
      | JLiteral \<Rightarrow> do {
          l \<leftarrow> get_literal j;
          Some (case l of None \<Rightarrow> PRECEDENCE_NULL | Some _ \<Rightarrow> PRECEDENCE_BOOLEAN) }
      | JI64 \<Rightarrow> Some PRECEDENCE_NUMBER
      | JU64 \<Rightarrow> Some PRECEDENCE_NUMBER
      | JDouble \<Rightarrow> Some PRECEDENCE_NUMBER
      | JString \<Rightarrow> Some PRECEDENCE_STRING)"

section \<open>Numbers\<close>

definition get_double :: "(nat list \<Rightarrow> f64 option) \<Rightarrow> json_ref \<Rightarrow> f64 option" where
  "get_double dec64 j = (if type_code j = JDouble then dec64 (causet_locale j) else None)"

text \<open>
  The two conversions that fail carry nothing but a message with the printed document, which their
  only caller drops: the inner \<open>None\<close> is that error.
\<close>

definition as_literal :: "json_ref \<Rightarrow> nat option option" where
  "as_literal j =
     (if type_code j = JLiteral then do { b \<leftarrow> get_at (causet_locale j) 0; Some (Some b) } else Some None)"

definition as_f64 :: "json_env \<Rightarrow> (nat list \<Rightarrow> f64 option) \<Rightarrow> json_ref \<Rightarrow> f64 option option" where
  "as_f64 env dec64 j =
     (case type_code j of
        JI64 \<Rightarrow> do { v \<leftarrow> get_i64 env j; Some (Some (f64_of_int v)) }
      | JU64 \<Rightarrow> do { v \<leftarrow> get_u64 env j; Some (Some (f64_of_int (int v))) }
      | JDouble \<Rightarrow> do { v \<leftarrow> get_double dec64 j; Some (Some v) }
      | JLiteral \<Rightarrow> do { l \<leftarrow> as_literal j; v \<leftarrow> l; Some (Some (f64_of_int (int v))) }
      | _ \<Rightarrow> Some None)"

definition compare_i64_u64 :: "int \<Rightarrow> nat \<Rightarrow> partitioning" where
  "compare_i64_u64 x y = (if x < 0 then Less else cmp_val (as_unsigned 64 x) y)"

definition compare_f64_with_epsilon :: "f64 \<Rightarrow> f64 \<Rightarrow> partitioning option" where
  "compare_f64_with_epsilon x y =
     (if f64_partial_cmp (f64_abs (f64_sub x y)) EPSILON = Some Less then Some Equal else f64_partial_cmp x y)"

text \<open>\<open>Option<bool>\<close> in its derived order: \<open>None\<close> comes first.\<close>

fun cmp_option_bool :: "bool option \<Rightarrow> bool option \<Rightarrow> partitioning" where
  "cmp_option_bool None None = Equal"
| "cmp_option_bool None (Some _) = Less"
| "cmp_option_bool (Some _) None = Greater"
| "cmp_option_bool (Some a) (Some b) = cmp_val a b"

section \<open>The comparison\<close>

text \<open>
  The outer \<open>None\<close> is a panic, the inner one that the documents are incomparable. The loop over the
  elements of two arrays, the comparison of two elements being \<open>cmp\<close> and that of the lengths \<open>counts\<close>.
\<close>

fun cmp_elems ::
    "(json_ref \<Rightarrow> json_ref \<Rightarrow> partitioning option option) \<Rightarrow> json_env \<Rightarrow> json_ref \<Rightarrow> json_ref \<Rightarrow> partitioning \<Rightarrow>
     nat list \<Rightarrow> partitioning option option" where
  "cmp_elems cmp env l r counts [] = Some (Some counts)"
| "cmp_elems cmp env l r counts (i # is) = do {
     left_ele \<leftarrow> array_get_elem env l i;
     right_ele \<leftarrow> array_get_elem env r i;
     (case (left_ele, right_ele) of
        (Inr x, Inr y) \<Rightarrow> do {
          order \<leftarrow> cmp x y;
          if order = Some Equal then cmp_elems cmp env l r counts is else Some order }
      | _ \<Rightarrow> Some None) }"

definition cmp_numbers ::
    "json_env \<Rightarrow> (nat list \<Rightarrow> f64 option) \<Rightarrow> json_ref \<Rightarrow> json_ref \<Rightarrow> partitioning option option" where
  "cmp_numbers env dec64 l r =
     (case type_code l of
        JI64 \<Rightarrow> (case type_code r of
            JI64 \<Rightarrow> do { a \<leftarrow> get_i64 env l; b \<leftarrow> get_i64 env r; Some (Some (cmp_val a b)) }
          | JU64 \<Rightarrow> do { a \<leftarrow> get_i64 env l; b \<leftarrow> get_u64 env r; Some (Some (compare_i64_u64 a b)) }
          | JDouble \<Rightarrow> do {
              a \<leftarrow> get_i64 env l;
              f \<leftarrow> as_f64 env dec64 r;
              b \<leftarrow> f;
              Some (compare_f64_with_epsilon (f64_of_int a) b) }
          | _ \<Rightarrow> None)
      | JU64 \<Rightarrow> (case type_code r of
            JI64 \<Rightarrow> do { b \<leftarrow> get_i64 env r; a \<leftarrow> get_u64 env l; Some (Some (flip (compare_i64_u64 b a))) }
          | JU64 \<Rightarrow> do { a \<leftarrow> get_u64 env l; b \<leftarrow> get_u64 env r; Some (Some (cmp_val a b)) }
          | JDouble \<Rightarrow> do {
              a \<leftarrow> get_u64 env l;
              f \<leftarrow> as_f64 env dec64 r;
              b \<leftarrow> f;
              Some (compare_f64_with_epsilon (f64_of_int (int a)) b) }
          | _ \<Rightarrow> None)
      | _ \<Rightarrow> do {
          f \<leftarrow> as_f64 env dec64 l;
          a \<leftarrow> f;
          g \<leftarrow> as_f64 env dec64 r;
          b \<leftarrow> g;
          Some (compare_f64_with_epsilon a b) })"

text \<open>
  \<open>partial_cmp\<close> calls itself on the elements of arrays, which it finds through the offsets of the
  documents, so that the model takes the number of nested calls it may make.
\<close>

primrec json_partial_cmp ::
    "nat \<Rightarrow> json_env \<Rightarrow> (nat list \<Rightarrow> f64 option) \<Rightarrow> json_ref \<Rightarrow> json_ref \<Rightarrow> partitioning option option" where
  "json_partial_cmp 0 env dec64 l r = None"
| "json_partial_cmp (Suc fuel) env dec64 l r = do {
     lp \<leftarrow> get_precedence l;
     rp \<leftarrow> get_precedence r;
     let precedence_diff = lp - rp;
     if precedence_diff = 0
     then if lp = PRECEDENCE_NULL then Some (Some Equal)
       else (case type_code l of
          JLiteral \<Rightarrow> do {
            a \<leftarrow> get_literal l;
            b \<leftarrow> get_literal r;
            Some (Some (cmp_option_bool a b)) }
        | JObject \<Rightarrow> Some (Some (cmp_bytes (causet_locale l) (causet_locale r)))
        | JString \<Rightarrow> do {
            a \<leftarrow> get_str_bytes env l;
            b \<leftarrow> get_str_bytes env r;
            Some (case (a, b) of (Inr left, Inr right) \<Rightarrow> Some (cmp_bytes left right) | _ \<Rightarrow> None) }
        | JArray \<Rightarrow> do {
            left_count \<leftarrow> get_elem_count env l;
            right_count \<leftarrow> get_elem_count env r;
            cmp_elems (json_partial_cmp fuel env dec64) env l r (cmp_val left_count right_count)
              [0..<min left_count right_count] }
        | _ \<Rightarrow> cmp_numbers env dec64 l r)
     else do {
       left_data \<leftarrow> as_f64 env dec64 l;
       right_data \<leftarrow> as_f64 env dec64 r;
       (case (left_data, right_data) of
          (Some left, Some right) \<Rightarrow> Some (f64_partial_cmp left right)
        | _ \<Rightarrow> Some (Some (if precedence_diff > 0 then Greater else Less))) } }"

text \<open>\<open>Ord::cmp\<close> and \<open>PartialEq::eq\<close> of references and of owned documents.\<close>

definition ref_cmp :: "nat \<Rightarrow> json_env \<Rightarrow> (nat list \<Rightarrow> f64 option) \<Rightarrow> json_ref \<Rightarrow> json_ref \<Rightarrow> partitioning option" where
  "ref_cmp fuel env dec64 l r = do { c \<leftarrow> json_partial_cmp fuel env dec64 l r; c }"

definition ref_eq :: "nat \<Rightarrow> json_env \<Rightarrow> (nat list \<Rightarrow> f64 option) \<Rightarrow> json_ref \<Rightarrow> json_ref \<Rightarrow> bool option" where
  "ref_eq fuel env dec64 l r = do {
     c \<leftarrow> json_partial_cmp fuel env dec64 l r;
     Some (case c of None \<Rightarrow> False | Some order \<Rightarrow> order = Equal) }"

definition json_cmp :: "nat \<Rightarrow> json_env \<Rightarrow> (nat list \<Rightarrow> f64 option) \<Rightarrow> json \<Rightarrow> json \<Rightarrow> partitioning option" where
  "json_cmp fuel env dec64 l r = do { c \<leftarrow> json_partial_cmp fuel env dec64 (json_as_ref 0 l) (json_as_ref 0 r); c }"

definition json_eq :: "nat \<Rightarrow> json_env \<Rightarrow> (nat list \<Rightarrow> f64 option) \<Rightarrow> json \<Rightarrow> json \<Rightarrow> bool option" where
  "json_eq fuel env dec64 l r = do {
     c \<leftarrow> json_partial_cmp fuel env dec64 (json_as_ref 0 l) (json_as_ref 0 r);
     order \<leftarrow> c;
     Some (order = Equal) }"

end
