(* ===== verification/Json_Compare_Correct.thy ===== *)
theory Json_Compare_Correct
  imports Json_Env Json_Compare
begin

text \<open>
  What the comparison of encoded documents computes: the order of the documented classes of JSON
  values, exact on integers, lexicographic on arrays; it changes with its sides as an order does,
  but it has cycles across the classes.
\<close>

section \<open>The order of documents\<close>

definition dec64_ok :: "(nat list \<Rightarrow> f64 option) \<Rightarrow> bool" where
  "dec64_ok dec64 \<longleftrightarrow>
     (\<forall>bs. dec64 bs = (if length bs < 8 then None else Some (f64_of_bits (le_val (take 8 bs)))))"

text \<open>null, numbers, strings, objects, arrays and booleans, in ascending order.\<close>

primrec doc_rank :: "doc \<Rightarrow> nat" where
  "doc_rank DNull = 0"
| "doc_rank (DBool b) = 5"
| "doc_rank (DInt i) = 1"
| "doc_rank (DUint n) = 1"
| "doc_rank (DDbl bs) = 1"
| "doc_rank (DStr s) = 2"
| "doc_rank (DArr ds) = 4"
| "doc_rank (DObj kvs) = 3"

text \<open>A number as a number; a literal is read as the byte that stands for it.\<close>

primrec doc_number :: "doc \<Rightarrow> f64 option" where
  "doc_number DNull = Some (FFin 0)"
| "doc_number (DBool b) = Some (FFin (if b then 1 else 2))"
| "doc_number (DInt i) = Some (f64_of_int i)"
| "doc_number (DUint n) = Some (f64_of_int (int n))"
| "doc_number (DDbl bs) = Some (f64_of_bits (le_val bs))"
| "doc_number (DStr s) = None"
| "doc_number (DArr ds) = None"
| "doc_number (DObj kvs) = None"

primrec doc_integer :: "doc \<Rightarrow> int option" where
  "doc_integer DNull = None"
| "doc_integer (DBool b) = None"
| "doc_integer (DInt i) = Some i"
| "doc_integer (DUint n) = Some (int n)"
| "doc_integer (DDbl bs) = None"
| "doc_integer (DStr s) = None"
| "doc_integer (DArr ds) = None"
| "doc_integer (DObj kvs) = None"

fun lex_cmp :: "('a \<Rightarrow> 'a \<Rightarrow> partitioning option) \<Rightarrow> 'a list \<Rightarrow> 'a list \<Rightarrow> partitioning option" where
  "lex_cmp c [] [] = Some Equal"
| "lex_cmp c [] (y # ys) = Some Less"
| "lex_cmp c (x # xs) [] = Some Greater"
| "lex_cmp c (x # xs) (y # ys) = (if c x y = Some Equal then lex_cmp c xs ys else c x y)"

lemma lex_cmp_cong [fundef_cong]:
  "xs = xs' \<Longrightarrow> ys = ys' \<Longrightarrow> (\<And>x y. x \<in> set xs' \<Longrightarrow> y \<in> set ys' \<Longrightarrow> c x y = c' x y) \<Longrightarrow>
   lex_cmp c xs ys = lex_cmp c' xs' ys'"
proof -
  have "(\<And>x y. x \<in> set xs \<Longrightarrow> y \<in> set ys \<Longrightarrow> c x y = c' x y) \<Longrightarrow> lex_cmp c xs ys = lex_cmp c' xs ys"
    by (induction c xs ys rule: lex_cmp.induct) auto
  then show "xs = xs' \<Longrightarrow> ys = ys' \<Longrightarrow> (\<And>x y. x \<in> set xs' \<Longrightarrow> y \<in> set ys' \<Longrightarrow> c x y = c' x y) \<Longrightarrow>
    lex_cmp c xs ys = lex_cmp c' xs' ys'" by blast
qed


text \<open>Numbers: integers as integers, whatever their signedness, and otherwise up to the rounding error.\<close>

definition number_cmp :: "doc \<Rightarrow> doc \<Rightarrow> partitioning option" where
  "number_cmp a b =
     (case (doc_integer a, doc_integer b) of
        (Some i, Some k) \<Rightarrow> Some (cmp_val i k)
      | _ \<Rightarrow> (case (doc_number a, doc_number b) of
            (Some x, Some y) \<Rightarrow> compare_f64_with_epsilon x y
          | _ \<Rightarrow> None))"

fun doc_cmp :: "json_env \<Rightarrow> doc \<Rightarrow> doc \<Rightarrow> partitioning option" where
  "doc_cmp env (DArr xs) (DArr ys) = lex_cmp (doc_cmp env) xs ys"
| "doc_cmp env DNull DNull = Some Equal"
| "doc_cmp env (DStr s) (DStr t) = Some (cmp_val s t)"
| "doc_cmp env (DBool x) (DBool y) = Some (cmp_val x y)"
| "doc_cmp env (DObj xs) (DObj ys) = Some (cmp_val (enc env (DObj xs)) (enc env (DObj ys)))"
| "doc_cmp env a b =
     (if doc_rank a = doc_rank b then number_cmp a b
      else case (doc_number a, doc_number b) of
          (Some x, Some y) \<Rightarrow> f64_partial_cmp x y
        | _ \<Rightarrow> Some (cmp_val (doc_rank a) (doc_rank b)))"

lemma flip_cases [simp]:
  "flip (cmp_val x y) = cmp_val y x"
  "map_option flip (f64_partial_cmp v w) = f64_partial_cmp w v"
  "map_option flip (compare_f64_with_epsilon v w) = compare_f64_with_epsilon w v"
  using f64_cmp_swap[of w v, symmetric]
  by (auto simp: cmp_val_def compare_f64_with_epsilon_def f64_sub_swap[of w v])

lemma number_cmp_flip [simp]: "map_option flip (number_cmp a b) = number_cmp b a"
  by (auto simp: number_cmp_def split: option.split)







section \<open>Reading scalars\<close>

lemma take_le_bytes [simp]: "take k (le_bytes k n) = le_bytes k n"
  by simp

lemma get_i64_doc:
  assumes env: "json_env_ok env" and i: "in_signed 64 i"
  shows "get_i64 env (doc_ref env p (DInt i)) = Some i"
proof -
  have "as_unsigned 64 i < 2 ^ 64" by (simp add: as_unsigned_def nat_less_iff)
  then have "le_val (le_bytes 8 (as_unsigned 64 i)) = as_unsigned 64 i" by (simp add: le_val_bytes)
  moreover have "as_signed 64 (int (as_unsigned 64 i)) = as_signed 64 i"
    by (simp add: as_unsigned_def as_signed_def mod_add_left_eq)
  ultimately show ?thesis using i by (simp add: get_i64_def json_env_okD(4)[OF env] as_signed_id)
qed

lemma get_u64_doc:
  assumes env: "json_env_ok env" and n: "n < 2 ^ 64"
  shows "get_u64 env (doc_ref env p (DUint n)) = Some n"
  using n by (simp add: get_u64_def json_env_okD(3)[OF env] le_val_bytes)

lemma get_str_doc:
  assumes env: "json_env_ok env" and s: "length s < 2 ^ 32"
  shows "get_str_bytes env (doc_ref env p (DStr s)) = Some (Inr s)"
proof -
  obtain h where "write_json_str env s = h @ s" "\<And>rest. try_decode_var_u64 env (h @ s @ rest) = Inr (length s, length h)"
    using json_env_okD(10)[OF env s] by blast
  from this(1) this(2)[of "[]"] show ?thesis
    by (simp add: get_str_bytes_def try_res_def slice_at_def)
qed

lemma get_double_doc: "dec64_ok dec64 \<Longrightarrow> length bs = 8 \<Longrightarrow> get_double dec64 (doc_ref env p (DDbl bs)) = Some (f64_of_bits (le_val bs))"
  by (simp add: get_double_def dec64_ok_def)

lemma precedence_doc: "get_precedence (doc_ref env p d) = Some (int (doc_rank d) - 12)"
  by (cases d) (auto simp: get_precedence_def get_literal_def get_at_def)

lemma small_number: "f64_of_int 0 = FFin 0" "f64_of_int 1 = FFin 1" "f64_of_int 2 = FFin 2"
  using f64_of_int_exact[of 0] f64_of_int_exact[of 1] f64_of_int_exact[of 2] by simp_all

lemma as_f64_doc:
  assumes env: "json_env_ok env" and dec: "dec64_ok dec64" and d: "doc_ok env d"
  shows "as_f64 env dec64 (doc_ref env p d) = Some (doc_number d)"
  using d by (cases d) (auto simp: as_f64_def as_literal_def get_at_def get_i64_doc[OF env] get_u64_doc[OF env]
      get_double_doc[OF dec] small_number)

section \<open>The code on encoded documents\<close>

lemma compare_mixed:
  assumes "in_signed 64 i" shows "compare_i64_u64 i n = cmp_val i (int n)"
proof (cases "i < 0")
  case False
  then have "as_unsigned 64 i = nat i" using assms by (simp add: as_unsigned_def in_signed_def)
  then show ?thesis using False by (auto simp: compare_i64_u64_def cmp_val_def)
qed (simp add: compare_i64_u64_def cmp_val_def)

lemma cmp_val_int [simp]: "cmp_val (int m) (int n) = cmp_val m n"
  by (simp add: cmp_val_def)

lemma cmp_numbers_doc:
  assumes env: "json_env_ok env" and dec: "dec64_ok dec64" and a: "doc_ok env a" and b: "doc_ok env b"
    and rank: "doc_rank a = 1" "doc_rank b = 1"
  shows "cmp_numbers env dec64 (doc_ref env p a) (doc_ref env q b) = Some (number_cmp a b)"
proof -
  show ?thesis using rank a b
    by (cases a; cases b)
      (simp_all add: cmp_numbers_def number_cmp_def get_i64_doc[OF env] get_u64_doc[OF env] compare_mixed
        as_f64_doc[OF env dec] cmp_val_int)
qed

lemma cmp_elems_doc:
  assumes env: "json_env_ok env" and a: "doc_ok env (DArr xs)" and b: "doc_ok env (DArr ys)"
    and cmp: "\<And>x y p q. x \<in> set xs \<Longrightarrow> y \<in> set ys \<Longrightarrow> cmp (doc_ref env p x) (doc_ref env q y) = Some (c x y)"
  shows "n \<le> min (length xs) (length ys) \<Longrightarrow>
    cmp_elems cmp env (doc_ref env p (DArr xs)) (doc_ref env q (DArr ys)) (cmp_val (length xs) (length ys))
      [n..<min (length xs) (length ys)] = Some (lex_cmp c (drop n xs) (drop n ys))"
proof (induction "min (length xs) (length ys) - n" arbitrary: n)
  case 0
  then have "n = min (length xs) (length ys)" by simp
  then show ?case by (cases "drop n xs"; cases "drop n ys") (auto simp: cmp_val_def)
next
  case (Suc k)
  then have n: "n < length xs" "n < length ys" "n < min (length xs) (length ys)" by auto
  have dr: "drop n xs = xs ! n # drop (Suc n) xs" "drop n ys = ys ! n # drop (Suc n) ys"
    using n by (simp_all add: Cons_nth_drop_Suc)
  have "cmp (child_ref env p (DArr xs) n) (child_ref env q (DArr ys) n) = Some (c (xs ! n) (ys ! n))"
    using n cmp by (simp add: child_ref_def)
  moreover have "cmp_elems cmp env (doc_ref env p (DArr xs)) (doc_ref env q (DArr ys)) (cmp_val (length xs) (length ys))
      [Suc n..<min (length xs) (length ys)] = Some (lex_cmp c (drop (Suc n) xs) (drop (Suc n) ys))"
    using Suc.hyps(1)[of "Suc n"] Suc.hyps(2) n(3) by simp
  ultimately show ?case
    unfolding upt_conv_Cons[OF n(3)] dr using array_elem_doc[OF env a n(1)] array_elem_doc[OF env b n(2)] by simp
qed

lemma json_partial_cmp_doc:
  assumes env: "json_env_ok env" and dec: "dec64_ok dec64"
  shows "doc_ok env a \<Longrightarrow> doc_ok env b \<Longrightarrow> doc_depth a \<le> fuel \<Longrightarrow>
    json_partial_cmp fuel env dec64 (doc_ref env p a) (doc_ref env q b) = Some (doc_cmp env a b)"
proof (induction fuel arbitrary: a b p q)
  case 0
  then show ?case using doc_depth_children[of a] by simp
next
  case (Suc fuel)
  note a = Suc.prems(1) and b = Suc.prems(2)
  show ?case
  proof (cases "doc_rank a = doc_rank b")
    case False
    then show ?thesis using as_f64_doc[OF env dec a] as_f64_doc[OF env dec b]
      by (cases a; cases b) (auto simp: precedence_doc cmp_val_def split: option.split)
  next
    case True
    show ?thesis
    proof (cases "doc_type a = JArray")
      case arr: True
      then obtain xs ys where xs: "a = DArr xs" "b = DArr ys" using True by (cases a; cases b) auto
      have "doc_depth x \<le> fuel" if "x \<in> set xs" for x
        using Suc.prems(3) doc_depth_children[of a] that by (simp add: xs)
      then have el: "json_partial_cmp fuel env dec64 (doc_ref env p x) (doc_ref env q y) = Some (doc_cmp env x y)"
        if "x \<in> set xs" "y \<in> set ys" for x y p q
        using Suc.IH a b that by (simp add: xs)
      have cnt: "get_elem_count env (doc_ref env p (DArr xs)) = Some (length xs)"
        "get_elem_count env (doc_ref env q (DArr ys)) = Some (length ys)"
        using elem_count_doc[OF env] a b by (simp_all add: xs)
      have "cmp_elems (json_partial_cmp fuel env dec64) env (doc_ref env p (DArr xs)) (doc_ref env q (DArr ys))
          (cmp_val (length xs) (length ys)) [0..<min (length xs) (length ys)] =
          Some (lex_cmp (doc_cmp env) (drop 0 xs) (drop 0 ys))"
        by (rule cmp_elems_doc[OF env a[unfolded xs] b[unfolded xs]]) (simp_all add: el)
      then show ?thesis using cnt by (simp add: xs precedence_doc)
    next
      case False
      then show ?thesis using True a b cmp_numbers_doc[OF env dec a b]
        by (cases a; cases b)
          (auto simp: precedence_doc get_str_doc[OF env] get_literal_def get_at_def cmp_bytes_lex)
    qed
  qed
qed

section \<open>Properties\<close>

definition std_dec64 :: "nat list \<Rightarrow> f64 option" where
  "std_dec64 bs = (if length bs < 8 then None else Some (f64_of_bits (le_val (take 8 bs))))"

lemma std_dec64_ok: "dec64_ok std_dec64"
  by (simp add: dec64_ok_def std_dec64_def)



text \<open>
  The comparison is no order on all documents: \<open>false\<close> is less than \<open>true\<close>, \<open>true\<close> is less than 1.5,
  and 1.5 is less than \<open>false\<close>. None of the three comparisons panics.
\<close>

lemma json_order_cycle:
  assumes "json_env_ok env" "dec64_ok dec64" "0 < fuel"
  shows "json_cmp fuel env dec64 (doc_json env (DBool False)) (doc_json env (DBool True)) = Some Less \<and>
    json_cmp fuel env dec64 (doc_json env (DBool True)) (doc_json env (DDbl [0, 0, 0, 0, 0, 0, 248, 63])) = Some Less \<and>
    json_cmp fuel env dec64 (doc_json env (DDbl [0, 0, 0, 0, 0, 0, 248, 63])) (doc_json env (DBool False)) = Some Less"
proof -
  let ?d = "DDbl [0, 0, 0, 0, 0, 0, 248, 63]"
  have v: "f64_of_bits 4609434218613702656 = FFin (3 / 2)"
    by (simp add: f64_of_bits_def pow2_def)
  have cmp: "json_cmp fuel env dec64 (doc_json env a) (doc_json env b) = doc_cmp env a b"
    if "doc_ok env a" "doc_ok env b" "doc_depth a \<le> fuel" for a b
    using json_partial_cmp_doc[OF assms(1,2) that] by (simp add: json_cmp_def as_ref_doc_json)
  have "doc_cmp env (DBool False) (DBool True) = Some Less" "doc_cmp env (DBool True) ?d = Some Less"
    "doc_cmp env ?d (DBool False) = Some Less"
    by (simp_all add: v cmp_val_def)
  then show ?thesis using cmp assms(3) by simp
qed

lemma json_order_cycle_instance:
  "json_cmp 1 std_json_env std_dec64 (doc_json std_json_env (DDbl [0, 0, 0, 0, 0, 0, 248, 63]))
    (doc_json std_json_env (DBool False)) = Some Less"
  using json_order_cycle[OF std_json_env_ok std_dec64_ok, of 1] by simp

text \<open>\<open>==\<close> of owned documents takes the result of an incomparable pair.\<close>

lemma json_eq_panics_on_nan:
  assumes "json_env_ok env" "dec64_ok dec64" "0 < fuel" "length bs = 8" "f64_of_bits (le_val bs) = FNan"
  shows "json_eq fuel env dec64 (doc_json env (DDbl bs)) (doc_json env (DDbl bs)) = None"
    and "ref_eq fuel env dec64 (doc_ref env p (DDbl bs)) (doc_ref env p (DDbl bs)) = Some False"
proof -
  have "doc_cmp env (DDbl bs) (DDbl bs) = None"
    using assms(5) by (simp add: number_cmp_def compare_f64_with_epsilon_def)
  moreover have "json_partial_cmp fuel env dec64 (doc_ref env q (DDbl bs)) (doc_ref env q (DDbl bs)) = Some (doc_cmp env (DDbl bs) (DDbl bs))" for q
    using json_partial_cmp_doc[OF assms(1,2), of "DDbl bs" "DDbl bs" fuel] assms(3,4) by simp
  ultimately show "json_eq fuel env dec64 (doc_json env (DDbl bs)) (doc_json env (DDbl bs)) = None"
    "ref_eq fuel env dec64 (doc_ref env p (DDbl bs)) (doc_ref env p (DDbl bs)) = Some False"
    by (simp_all add: json_eq_def ref_eq_def as_ref_doc_json)
qed

end
