(* ===== verification/Json_Unquote.thy ===== *)
theory Json_Unquote
  imports Json
begin

text \<open>
  JSON_UNQUOTE, \<open>src/berolinasql/src/json_unquote.rs\<close>. A string is the list of its bytes; \<open>Chars\<close> is the
  rest of the string, from which \<open>next_char\<close> takes the bytes of one character.
\<close>

section \<open>Characters\<close>

definition ESCAPED_UNICODE_BYTES_SIZE :: nat where [simp]: "ESCAPED_UNICODE_BYTES_SIZE = 4"
definition CHAR_BACKSPACE :: nat where [simp]: "CHAR_BACKSPACE = 0x08"
definition CHAR_HORIZONTAL_TAB :: nat where [simp]: "CHAR_HORIZONTAL_TAB = 0x09"
definition CHAR_LINEFEED :: nat where [simp]: "CHAR_LINEFEED = 0x0A"
definition CHAR_FORMFEED :: nat where [simp]: "CHAR_FORMFEED = 0x0C"
definition CHAR_CARRIAGE_RETURN :: nat where [simp]: "CHAR_CARRIAGE_RETURN = 0x0D"

definition next_char :: "nat list \<Rightarrow> (nat list \<times> nat list) option" where
  "next_char s = map_option (\<lambda>n. (take n s, drop n s)) (utf8_char s)"

lemma next_char_length: "next_char s = Some (c, r) \<Longrightarrow> length r < length s"
  by (auto simp: next_char_def dest: utf8_char_pos)

primrec skip_chars :: "nat \<Rightarrow> nat list \<Rightarrow> nat list" where
  "skip_chars 0 s = s"
| "skip_chars (Suc k) s = (case next_char s of None \<Rightarrow> skip_chars k s | Some (_, r) \<Rightarrow> skip_chars k r)"

lemma skip_chars_length: "length (skip_chars k s) \<le> length s"
  by (induction k arbitrary: s) (auto split: option.splits dest!: next_char_length intro: order_trans less_imp_le)

text \<open>The bytes \<open>String::push\<close> appends for a character.\<close>

definition utf8_encode :: "nat \<Rightarrow> nat list" where
  "utf8_encode u =
     (if u < 0x80 then [u]
      else if u < 0x800 then [0xC0 + u div 64, 0x80 + u mod 64]
      else if u < 0x10000 then [0xE0 + u div 4096, 0x80 + u div 64 mod 64, 0x80 + u mod 64]
      else [0xF0 + u div 262144, 0x80 + u div 4096 mod 64, 0x80 + u div 64 mod 64, 0x80 + u mod 64])"

section \<open>Unquoting\<close>

text \<open>\<open>u32::from_str_radix(s, 16)\<close> on at most eight digits; a leading plus sign is accepted.\<close>

fun hex_digits :: "nat \<Rightarrow> nat list \<Rightarrow> nat option" where
  "hex_digits acc [] = Some acc"
| "hex_digits acc (c # cs) = do { d \<leftarrow> hex_digit c; hex_digits (acc * 16 + d) cs }"

definition from_str_radix_16 :: "nat list \<Rightarrow> nat fresult" where
  "from_str_radix_16 s =
     (if s = [] then Inl (box_err ''cannot parse integer from empty string'')
      else
        let ds = (if length s > 1 \<and> s ! 0 = 43 then drop 1 s else s)
        in case hex_digits 0 ds of
             None \<Rightarrow> Inl (box_err ''invalid digit found in string'')
           | Some u \<Rightarrow> Inr u)"

text \<open>\<open>char::from_u32\<close>: every code point that is no surrogate.\<close>

definition char_from_u32 :: "nat \<Rightarrow> nat option" where
  "char_from_u32 u = (if u < 0xD800 \<or> 0xE000 \<le> u \<and> u < 0x110000 then Some u else None)"

definition decode_escaped_unicode :: "nat list \<Rightarrow> nat fresult" where
  "decode_escaped_unicode s =
     (case from_str_radix_16 s of
        Inl e \<Rightarrow> Inl e
      | Inr u \<Rightarrow> (case char_from_u32 u of
            None \<Rightarrow> Inl (box_err (''invalid char from: '' @ map char_of s))
          | Some c \<Rightarrow> Inr c))"

text \<open>\<open>{:?}\<close> of a byte slice.\<close>

fun show_bytes :: "nat list \<Rightarrow> string" where
  "show_bytes [] = []"
| "show_bytes [b] = show_nat b"
| "show_bytes (b # bs) = show_nat b @ '', '' @ show_bytes bs"

text \<open>The match on the character after a backslash: what it pushes and the rest of the string.\<close>

definition unescape :: "nat list \<Rightarrow> nat list \<Rightarrow> (nat list \<times> nat list) fresult" where
  "unescape c chars =
     (if c = [34] then Inr ([34], chars)
      else if c = [98] then Inr ([CHAR_BACKSPACE], chars)
      else if c = [102] then Inr ([CHAR_FORMFEED], chars)
      else if c = [110] then Inr ([CHAR_LINEFEED], chars)
      else if c = [114] then Inr ([CHAR_CARRIAGE_RETURN], chars)
      else if c = [116] then Inr ([CHAR_HORIZONTAL_TAB], chars)
      else if c = [92] then Inr ([92], chars)
      else if c = [117]
      then if length chars < ESCAPED_UNICODE_BYTES_SIZE
        then Inl (box_err (''Invalid unicode, byte len too short: ['' @ show_bytes chars @ '']''))
        else
          let unicode = take ESCAPED_UNICODE_BYTES_SIZE chars
          in if \<not> is_utf8 unicode then Inl (Encoding (valid_up_to unicode))
             else if length unicode \<noteq> ESCAPED_UNICODE_BYTES_SIZE
             then Inl (box_err (''Invalid unicode, char len too short: '' @ map char_of unicode))
             else (case decode_escaped_unicode unicode of
                 Inl e \<Rightarrow> Inl e
               | Inr utf8 \<Rightarrow> Inr (utf8_encode utf8, skip_chars ESCAPED_UNICODE_BYTES_SIZE chars))
      else Inr (c, chars))"

lemma unescape_length: "unescape c chars = Inr (out, rest) \<Longrightarrow> length rest \<le> length chars"
  by (auto simp: unescape_def Let_def skip_chars_length split: if_splits sum.splits)

text \<open>The loop over the characters, \<open>ret\<close> being the result so far.\<close>

function unquote_loop :: "nat list \<Rightarrow> nat list \<Rightarrow> nat list fresult" where
  "unquote_loop ret chars =
     (case next_char chars of
        None \<Rightarrow> Inr ret
      | Some (ch, chars) \<Rightarrow>
          if ch = [92]
          then (case next_char chars of
              None \<Rightarrow> Inl (box_err ''Incomplete escaped sequence'')
            | Some (c, chars) \<Rightarrow> (case unescape c chars of
                  Inl e \<Rightarrow> Inl e
                | Inr (out, chars) \<Rightarrow> unquote_loop (ret @ out) chars))
          else unquote_loop (ret @ ch) chars)"
  by pat_completeness auto

termination
  by (relation "measure (\<lambda>(ret, chars). length chars)")
    (auto dest!: next_char_length unescape_length)

declare unquote_loop.simps [simp del]

definition unquote_string :: "nat list \<Rightarrow> nat list fresult" where
  "unquote_string s = unquote_loop [] s"

text \<open>
  \<open>JsonRef::unquote\<close>; \<open>shown\<close> is the printer of the other documents, which serde drives.
\<close>

definition get_str :: "json_env \<Rightarrow> json_ref \<Rightarrow> nat list fresult option" where
  "get_str env j =
     and_then (get_str_bytes env j) (\<lambda>s. Some (if is_utf8 s then Inr s else Inl (Encoding (valid_up_to s))))"

definition json_unquote :: "json_env \<Rightarrow> (json_ref \<Rightarrow> nat list) \<Rightarrow> json_ref \<Rightarrow> nat list fresult option" where
  "json_unquote env shown j =
     (if type_code j = JString then and_then (get_str env j) (\<lambda>s. Some (unquote_string s))
      else Some (Inr (shown j)))"

end
