(* ===== verification/Json_Unquote_Correct.thy ===== *)
theory Json_Unquote_Correct
  imports Json_Compare_Correct Convert_Correct Json_Unquote
begin

text \<open>
  What unquoting computes: \<open>escaped s t\<close> says that the text \<open>t\<close> writes the string \<open>s\<close> with escape
  sequences; on valid texts the code returns exactly the string that is written.
\<close>

section \<open>Valid strings\<close>

definition is_char :: "nat list \<Rightarrow> bool" where
  "is_char c \<longleftrightarrow> utf8_char c = Some (length c)"

lemma utf8_char_append: "utf8_char s = Some n \<Longrightarrow> utf8_char (s @ t) = Some n"
  by (cases s rule: utf8_char.cases) (auto split: if_splits list.splits)

lemma utf8_char_take_char: "utf8_char s = Some n \<Longrightarrow> is_char (take n s)"
  using utf8_char_take[of s n n] utf8_char_pos[of s n] by (simp add: is_char_def)

lemma next_char_append: "is_char c \<Longrightarrow> next_char (c @ t) = Some (c, t)"
  using utf8_char_append[of c "length c" t] by (simp add: is_char_def next_char_def)

lemma next_char_SomeD: "next_char s = Some (c, r) \<Longrightarrow> s = c @ r \<and> is_char c"
  by (auto simp: next_char_def utf8_char_take_char)

lemma is_char_ascii [simp]: "b < 128 \<Longrightarrow> is_char [b]"
  by (simp add: is_char_def)

lemma next_char_ascii [simp]: "b < 128 \<Longrightarrow> next_char (b # t) = Some ([b], t)"
  using next_char_append[of "[b]" t] by simp

lemma next_char_Nil [simp]: "next_char [] = None"
  by (simp add: next_char_def)

lemma utf8_scan_shift: "snd (utf8_scan s (pos + k)) = snd (utf8_scan s pos) + k"
proof (induction s pos rule: utf8_scan.induct)
  case (1 s pos)
  show ?case
  proof (cases "utf8_char s")
    case (Some n)
    then show ?thesis using 1[OF Some] by (simp add: utf8_scan_Some add.commute add.left_commute)
  qed (simp add: utf8_scan_None)
qed

lemma is_utf8_Nil [simp]: "is_utf8 []"
  by (simp add: is_utf8_def valid_up_to_def utf8_scan_None)

lemma is_utf8_char: "is_char c \<Longrightarrow> is_utf8 (c @ t) \<longleftrightarrow> is_utf8 t"
  using utf8_scan_Some[OF utf8_char_append[of c "length c" t], of 0] utf8_scan_shift[of t 0 "length c"]
  by (simp add: is_utf8_def valid_up_to_def is_char_def add.commute)

lemma is_utf8_next: "is_utf8 s \<Longrightarrow> next_char s = None \<Longrightarrow> s = []"
  by (auto simp: is_utf8_def valid_up_to_def next_char_def utf8_scan_None)

lemma is_utf8_ascii: "\<forall>b\<in>set s. b < 128 \<Longrightarrow> is_utf8 s"
proof (induction s)
  case (Cons b s)
  then show ?case using is_utf8_char[of "[b]" s] by simp
qed simp

text \<open>The bytes of a code point that is no surrogate are one character.\<close>

lemma utf8_encode_char:
  assumes "char_from_u32 u = Some v" shows "v = u" "is_char (utf8_encode u)"
proof -
  have u: "u < 0xD800 \<or> 0xE000 \<le> u \<and> u < 0x110000" and v: "v = u"
    using assms by (auto simp: char_from_u32_def split: if_splits)
  show "v = u" by (rule v)
  consider "u < 0x80" | "0x80 \<le> u" "u < 0x800" | "0x800 \<le> u" "u < 0x10000" | "0x10000 \<le> u" by linarith
  then show "is_char (utf8_encode u)"
  proof cases
    case 2
    then have "0xc2 \<le> 0xC0 + u div 64" "0xC0 + u div 64 \<le> 0xdf"
      using div_le_mono[of 128 u 64] div_le_mono[of u 2047 64] by simp_all
    moreover have "is_cont (0x80 + u mod 64)" by (simp add: is_cont_def)
    ultimately show ?thesis using 2 by (simp add: utf8_encode_def is_char_def)
  next
    case 3
    have c: "is_cont (0x80 + u div 64 mod 64)" "is_cont (0x80 + u mod 64)" by (simp_all add: is_cont_def)
    have a: "u div 4096 \<le> 15" using 3 div_le_mono[of u 65535 4096] by simp
    have v: "u div 4096 = u div 64 div 64" "u div 64 div 64 * 64 + u div 64 mod 64 = u div 64"
      by (simp flip: div_mult2_eq) (rule div_mult_mod_eq)
    have lo: "32 \<le> u div 64 mod 64" if "u div 4096 = 0"
      using 3 div_le_mono[of 2048 u 64] that v by simp
    have hi: "u div 64 mod 64 \<le> 31" if "u div 4096 = 13"
    proof -
      have "u < 0xE000"
        using that div_le_mono[of "0xE000" u 4096] by (rule_tac ccontr) simp
      then have "u div 64 \<le> 863" using u div_le_mono[of u 55295 64] by simp
      then show ?thesis using that v by simp
    qed
    show ?thesis using 3 a lo hi c by (auto simp: utf8_encode_def is_char_def)
  next
    case 4
    have c: "is_cont (0x80 + u div 4096 mod 64)" "is_cont (0x80 + u div 64 mod 64)" "is_cont (0x80 + u mod 64)"
      by (simp_all add: is_cont_def)
    have u1: "u \<le> 1114111" using u by auto
    have a: "u div 262144 \<le> 4" using u1 div_le_mono[of u 1114111 262144] by simp
    have v: "u div 262144 = u div 4096 div 64" "u div 4096 div 64 * 64 + u div 4096 mod 64 = u div 4096"
      by (simp flip: div_mult2_eq) (rule div_mult_mod_eq)
    have lo: "16 \<le> u div 4096 mod 64" if "u div 262144 = 0"
      using 4 div_le_mono[of 65536 u 4096] that v by simp
    have hi: "u div 4096 mod 64 \<le> 15" if "u div 262144 = 4"
      using u1 div_le_mono[of u 1114111 4096] that v by simp
    show ?thesis using 4 a lo hi c by (auto simp: utf8_encode_def is_char_def)
  qed (simp add: utf8_encode_def is_char_def)
qed

section \<open>Escaped texts\<close>

text \<open>
  Four bytes that stand for a code point after \<open>\u\<close>: four hexadecimal digits, or, because of the
  integer parser, a plus sign and three of them.
\<close>

definition code_point :: "nat list \<Rightarrow> nat \<Rightarrow> bool" where
  "code_point h u \<longleftrightarrow> length h = 4 \<and>
     (\<exists>ds. (h = ds \<or> h = 43 # ds) \<and> (\<forall>d\<in>set ds. hex_digit d \<noteq> None) \<and>
       u = bval 16 (map (\<lambda>d. the (hex_digit d)) ds)) \<and> char_from_u32 u = Some u"

definition short_escapes :: "(nat \<times> nat) list" where
  "short_escapes = [(34, 34), (98, 8), (102, 12), (110, 10), (114, 13), (116, 9), (92, 92)]"

inductive escaped :: "nat list \<Rightarrow> nat list \<Rightarrow> bool" where
  esc_end: "escaped [] []"
| esc_plain: "is_char c \<Longrightarrow> c \<noteq> [92] \<Longrightarrow> escaped s t \<Longrightarrow> escaped (c @ s) (c @ t)"
| esc_short: "(e, b) \<in> set short_escapes \<Longrightarrow> escaped s t \<Longrightarrow> escaped (b # s) (92 # e # t)"
| esc_unicode: "code_point h u \<Longrightarrow> escaped s t \<Longrightarrow> escaped (utf8_encode u @ s) (92 # 117 # h @ t)"
| esc_other: "is_char c \<Longrightarrow> c \<notin> {[e] |e. e \<in> insert 117 (fst ` set short_escapes)} \<Longrightarrow> escaped s t \<Longrightarrow>
    escaped (c @ s) (92 # c @ t)"

lemma escaped_utf8: "escaped s t \<Longrightarrow> is_utf8 s"
proof (induction rule: escaped.induct)
  case (esc_short e b s t)
  then show ?case using is_utf8_char[of "[b]" s] by (auto simp: short_escapes_def)
next
  case (esc_unicode h u s t)
  then show ?case using utf8_encode_char[of u u] is_utf8_char by (simp add: code_point_def)
qed (simp_all add: is_utf8_char)

section \<open>What the loop computes\<close>

lemma hex_digits_iff:
  "hex_digits acc ds = Some u \<longleftrightarrow> (\<forall>d\<in>set ds. hex_digit d \<noteq> None) \<and>
     u = acc * 16 ^ length ds + bval 16 (map (\<lambda>d. the (hex_digit d)) ds)"
proof (induction ds arbitrary: acc)
  case (Cons d ds)
  show ?case by (cases "hex_digit d") (auto simp: Cons.IH algebra_simps)
qed auto

lemma hex_digit_ascii: "hex_digit d \<noteq> None \<Longrightarrow> d < 128 \<and> d \<noteq> 43"
  by (auto simp: hex_digit_def split: if_splits)

lemma from_str_radix_16_iff:
  assumes "length h = 4"
  shows "from_str_radix_16 h = Inr u \<longleftrightarrow>
    (\<exists>ds. (h = ds \<or> h = 43 # ds) \<and> (\<forall>d\<in>set ds. hex_digit d \<noteq> None) \<and> u = bval 16 (map (\<lambda>d. the (hex_digit d)) ds))"
proof -
  obtain a as where h: "h = a # as" "length as = 3" using assms by (cases h) auto
  have r: "from_str_radix_16 h = Inr u \<longleftrightarrow> hex_digits 0 (if a = 43 then as else h) = Some u"
    using h by (auto simp: from_str_radix_16_def split: option.splits)
  show ?thesis
  proof (cases "a = 43")
    case True
    have n: "hex_digit 43 = None" by (simp add: hex_digit_def)
    show ?thesis unfolding r using True h n by (auto simp: hex_digits_iff)
  next
    case False
    then have "from_str_radix_16 h = Inr u \<longleftrightarrow> hex_digits 0 h = Some u" using r by simp
    then show ?thesis unfolding hex_digits_iff using False h(1) by auto
  qed
qed

lemma decode_escaped_unicode_iff:
  assumes "length h = 4" shows "decode_escaped_unicode h = Inr u \<longleftrightarrow> code_point h u"
proof -
  have "char_from_u32 v = Some u \<Longrightarrow> v = u" for v by (auto simp: char_from_u32_def split: if_splits)
  then have "decode_escaped_unicode h = Inr u \<longleftrightarrow> from_str_radix_16 h = Inr u \<and> char_from_u32 u = Some u"
    by (auto simp: decode_escaped_unicode_def split: sum.splits option.splits)
  then show ?thesis using assms by (auto simp: from_str_radix_16_iff code_point_def)
qed

lemma code_point_ascii: "code_point h u \<Longrightarrow> length h = 4 \<and> (\<forall>b\<in>set h. b < 128)"
  using hex_digit_ascii by (fastforce simp: code_point_def)

lemma skip_ascii: "\<forall>b\<in>set h. b < 128 \<Longrightarrow> skip_chars (length h) (h @ t) = t"
  by (induction h) simp_all

lemma unescape_unicode:
  assumes "code_point h u" shows "unescape [117] (h @ t) = Inr (utf8_encode u, t)"
  using code_point_ascii[OF assms] is_utf8_ascii[of h] skip_ascii[of h t]
    decode_escaped_unicode_iff[of h u] assms
  by (simp add: unescape_def Let_def)

lemma unescape_short: "(e, b) \<in> set short_escapes \<Longrightarrow> unescape [e] t = Inr ([b], t)"
  by (auto simp: short_escapes_def unescape_def)

lemma unescape_other:
  "c \<notin> {[e] |e. e \<in> insert 117 (fst ` set short_escapes)} \<Longrightarrow> unescape c t = Inr (c, t)"
  by (auto simp: short_escapes_def unescape_def)

lemma unescape_cases:
  assumes "unescape c t = Inr (out, rest)"
  obtains (short) e b where "(e, b) \<in> set short_escapes" "c = [e]" "out = [b]" "rest = t"
  | (unicode) h u where "c = [117]" "t = h @ rest" "code_point h u" "out = utf8_encode u"
  | (other) "c \<notin> {[e] |e. e \<in> insert 117 (fst ` set short_escapes)}" "out = c" "rest = t"
proof (cases "c = [117]")
  case True
  let ?h = "take 4 t"
  have l: "length ?h = 4" using assms True by (auto simp: unescape_def split: if_splits)
  obtain u where u: "decode_escaped_unicode ?h = Inr u" "out = utf8_encode u" "rest = skip_chars 4 t"
    using assms True by (auto simp: unescape_def Let_def split: if_splits sum.splits)
  have cp: "code_point ?h u" using u(1) decode_escaped_unicode_iff[OF l] by simp
  have "rest = drop 4 t" using skip_ascii[of ?h "drop 4 t"] code_point_ascii[OF cp] u(3) by simp
  then show thesis using unicode[of ?h u] True cp u(2) by simp
next
  case False
  show thesis
  proof (cases "\<exists>e b. (e, b) \<in> set short_escapes \<and> c = [e]")
    case True
    then obtain e b where "(e, b) \<in> set short_escapes" "c = [e]" by blast
    then show thesis using short[of e b] unescape_short[of e b t] assms by simp
  next
    case no: False
    then have "c \<notin> {[e] |e. e \<in> insert 117 (fst ` set short_escapes)}" using False by force
    then show thesis using other unescape_other[of c t] assms by simp
  qed
qed

lemma unquote_loop_escaped: "escaped s t \<Longrightarrow> unquote_loop ret t = Inr (ret @ s)"
proof (induction arbitrary: ret rule: escaped.induct)
  case esc_end
  show ?case by (simp add: unquote_loop.simps)
next
  case (esc_plain c s t)
  then show ?case by (subst unquote_loop.simps) (simp add: next_char_append)
next
  case (esc_short e b s t)
  then have "e < 128" by (auto simp: short_escapes_def)
  then show ?case using esc_short by (subst unquote_loop.simps) (simp add: unescape_short)
next
  case (esc_unicode h u s t)
  then show ?case by (subst unquote_loop.simps) (simp add: unescape_unicode)
next
  case (esc_other c s t)
  then show ?case by (subst unquote_loop.simps) (simp add: next_char_append unescape_other)
qed

lemma escaped_unquote_loop:
  "is_utf8 t \<Longrightarrow> unquote_loop ret t = Inr r \<Longrightarrow> \<exists>s. r = ret @ s \<and> escaped s t"
proof (induction "length t" arbitrary: ret t rule: less_induct)
  case less
  show ?case
  proof (cases "next_char t")
    case None
    then show ?thesis using less.prems is_utf8_next[of t] esc_end by (simp add: unquote_loop.simps)
  next
    case (Some p)
    obtain c t1 where c: "next_char t = Some (c, t1)" using Some by (cases p) auto
    note t = next_char_SomeD[OF c] and len = next_char_length[OF c]
    have u1: "is_utf8 t1" using less.prems(1) t is_utf8_char by simp
    show ?thesis
    proof (cases "c = [92]")
      case False
      then have "unquote_loop (ret @ c) t1 = Inr r" using less.prems(2) c by (simp add: unquote_loop.simps[of ret t])
      from less.hyps[OF len u1 this] show ?thesis using t False esc_plain by fastforce
    next
      case True
      obtain d t2 out t3 where d: "next_char t1 = Some (d, t2)" "unescape d t2 = Inr (out, t3)"
        "unquote_loop (ret @ out) t3 = Inr r"
        using less.prems(2) c True by (auto simp: unquote_loop.simps[of ret t] split: option.splits sum.splits)
      note t1 = next_char_SomeD[OF d(1)]
      have u2: "is_utf8 t2" using u1 t1 is_utf8_char by simp
      have u3: "is_utf8 t3"
      proof (cases rule: unescape_cases[OF d(2)])
        case (2 h u)
        have "is_utf8 (g @ t3) \<longleftrightarrow> is_utf8 t3" if "\<forall>b\<in>set g. b < 128" for g
          using that by (induction g) (use is_utf8_char[of "[b]" for b] in simp_all)
        then show ?thesis using 2 u2 code_point_ascii by blast
      qed (use u2 in simp_all)
      have "length t3 < length t"
        using unescape_length[OF d(2)] next_char_length[OF d(1)] len by simp
      from less.hyps[OF this u3 d(3)] obtain s where s: "r = ret @ out @ s" "escaped s t3" by auto
      have "escaped (out @ s) t"
      proof (cases rule: unescape_cases[OF d(2)])
        case (1 e b)
        then show ?thesis using esc_short[OF 1(1) s(2)] t t1 True by simp
      next
        case (2 h u)
        then show ?thesis using esc_unicode[OF 2(3) s(2)] t t1 True by simp
      next
        case 3
        then show ?thesis using esc_other[of d s t3] s(2) t t1 True by simp
      qed
      then show ?thesis using s(1) by blast
    qed
  qed
qed

section \<open>Properties\<close>

text \<open>
  The two limits of the escapes: a plus sign counts as one of the four digits, and a surrogate, also
  one of a pair, is no character.
\<close>

lemma unquote_plus_sign: "unquote_string [92, 117, 43, 48, 52, 49] = Inr [65]"
  by code_simp

lemma unquote_surrogate: "code_point h u \<Longrightarrow> u < 0xD800 \<or> 0xE000 \<le> u"
  by (auto simp: code_point_def char_from_u32_def split: if_splits)

section \<open>Properties\<close>

text \<open>
  C39: unquoting the encoding of a string document. When the stored bytes \<open>t\<close> are valid UTF-8,
  shorter than \<open>2^32\<close>, \<open>unquote\<close> does not panic, and it returns the string \<open>s\<close> exactly when \<open>t\<close> is
  \<open>s\<close> written with escape sequences, by the grammar \<open>escaped\<close>; then \<open>s\<close> is valid UTF-8 again. A
  text that no string is escaped to, such as one ending in a lone backslash or with a surrogate
  or a cut sequence after \<open>\u\<close>, gives an error. (An unknown escape stands for its character, as the
  code's comment says, and \<open>\u\<close> takes four hexadecimal digits, or a plus sign and three.)
\<close>

theorem unquote_reads:
  assumes "json_env_ok env" "is_utf8 t" "length t < 2 ^ 32"
  shows "\<exists>r. json_unquote env shown (doc_ref env p (DStr t)) = Some r \<and>
    (\<forall>s. r = Inr s \<longleftrightarrow> escaped s t \<and> is_utf8 s)"
proof -
  have "json_unquote env shown (doc_ref env p (DStr t)) = Some (unquote_string t)"
    using assms(2) by (simp add: json_unquote_def get_str_def get_str_doc[OF assms(1,3)])
  moreover have "unquote_string t = Inr s \<longleftrightarrow> escaped s t \<and> is_utf8 s" for s
    using escaped_unquote_loop[OF assms(2), of "[]"] unquote_loop_escaped[of s t "[]"] escaped_utf8
    by (auto simp: unquote_string_def)
  ultimately show ?thesis by blast
qed

theorem unquote_reads_witness:
  "is_utf8 [48, 92, 117, 53, 57, 55, 100, 92, 110] \<and>
   json_unquote std_json_env (\<lambda>_. []) (doc_ref std_json_env 16 (DStr [48, 92, 117, 53, 57, 55, 100, 92, 110])) =
     Some (Inr [48, 229, 165, 189, 10])"
proof -
  let ?t = "[48, 92, 117, 53, 57, 55, 100, 92, 110] :: nat list" and ?s = "[48, 229, 165, 189, 10] :: nat list"
  have u: "is_utf8 ?t" by (simp add: is_utf8_ascii)
  have c: "code_point [53, 57, 55, 100] 22909"
    by (auto simp: code_point_def hex_digit_def char_from_u32_def intro!: exI[of _ "[53, 57, 55, 100]"])
  have n: "escaped [10] [92, 110]"
    by (rule esc_short[of 110 10 "[]" "[]"]) (simp_all add: short_escapes_def esc_end)
  have "escaped (utf8_encode 22909 @ [10]) (92 # 117 # [53, 57, 55, 100] @ [92, 110])" by (rule esc_unicode[OF c n])
  then have "escaped ([48] @ utf8_encode 22909 @ [10]) ([48] @ 92 # 117 # [53, 57, 55, 100] @ [92, 110])"
    by (intro esc_plain) simp_all
  then have e: "escaped ?s ?t" by (simp add: utf8_encode_def)
  obtain r where "json_unquote std_json_env (\<lambda>_. []) (doc_ref std_json_env 16 (DStr ?t)) = Some r"
      "r = Inr ?s \<longleftrightarrow> escaped ?s ?t \<and> is_utf8 ?s"
    using unquote_reads[OF std_json_env_ok u, of "\<lambda>_. []" 16] by auto
  then show ?thesis using u e escaped_utf8[OF e] by simp
qed

end
