(* ===== verification/Spec2Isabelle.thy ===== *)
theory Spec2Isabelle
  imports Eval_Context Decimal_Text_Correct Decimal_Codec_Roundtrip Decimal_Rem_Correct Convert_Correct Duration_Correct
    Binary_Literal Overflow Json_Change Json_Merge_Correct Json_Compare_Correct Json_Unquote_Correct
begin

text \<open>
  A verification library for the SQL value layer of EinsteinDB: the values a query computes with,
  their errors and warnings, their texts and their byte encodings.

  \<^bold>\<open>The parts and how they interact.\<close> Every operation on SQL values reports failures with the errors
  of \<open>berolinasql/src/error.rs\<close> and runs in the evaluation context of \<open>causetq/src/ctx.rs\<close>, whose
  handlers decide by the statement flags whether a truncation, an overflow, a division by zero or
  an invalid time is ignored, collected as a warning, or returned as an error. The exact numbers are
  the decimals of \<open>berolinasql/src/decimal.rs\<close>: nine words of nine decimal digits. The casts of
  \<open>allegro_poset/convert.rs\<close> go between integers, decimals and strings, by the column types of
  \<open>causet/src/field_type.rs\<close>; they call the decimal parser, the rounding and the context. Time
  values (\<open>berolinasql/src/duration.rs\<close>) convert to decimals and use the context for overflowing
  texts. Binary literals (\<open>berolinasql/src/binary_literal.rs\<close>) convert to integers under the
  truncation policy of the context. JSON documents (\<open>berolinasql/src/mod.rs\<close> and the files around it)
  are byte strings that refer into themselves; the modifier of \<open>modifier.rs\<close> finds a node by its
  address and writes the document anew around its replacement. \<open>overflow.rs\<close> divides integers.

  \<^bold>\<open>Conventions.\<close> A computation that may panic (index out of range, overflow of a build with overflow
  checks, \<open>panic!\<close>, \<open>unwrap\<close> of nothing) has an \<open>option\<close> type and \<open>None\<close> is the panic; theorems that
  say \<open>Some\<close> therefore say that no step leaves the range of its machine type. \<open>Result\<close> is \<open>fresult\<close>,
  the three-valued \<open>Res\<close> of the decimals is \<open>res\<close> with \<open>Ok\<close>, \<open>Truncated\<close> and \<open>OverCausetxctx\<close>.
  Unsigned machine integers are natural numbers with checked operations (\<open>uadd\<close>, \<open>umul\<close>, \<open>usub\<close>),
  signed ones are integers, casts are written out (\<open>as_unsigned\<close>, \<open>as_signed\<close>), flag words are
  64-bit words. Strings are lists of bytes. Loops are recursive functions, each with a termination
  proof. Only \<open>depth_json\<close>, \<open>rebuild_to\<close>, \<open>merge_json\<close> and \<open>json_partial_cmp\<close>, which follow the offsets inside a JSON document
  and do not return on a cyclic one, take the number of nested calls as fuel; as many as a document is
  deep, and so as many as it has bytes, are enough for every encoded document.

  \<^bold>\<open>Theories.\<close>
  \<^item> \<open>Prelude\<close>: machine arithmetic, array accesses, values of digit lists, three-way comparison with
    the locale \<open>keyed_cmp\<close> of comparisons that order by a key.
  \<^item> \<open>Errors\<close> (\<open>error.rs\<close>), \<open>Eval_Context\<close> (\<open>ctx.rs\<close>): error values and codes; flags, modes, warnings
    and the handlers. The warning list is bounded in every reachable context and complete up to its
    bound in those that no merge has emptied; the severity of every handler is characterised.
  \<^item> \<open>Decimal_Base\<close>: the record \<open>Decimal\<close>, its invariant \<open>dec_ok\<close>, its value \<open>dec_value\<close> as a
    rational number, and the word helpers. \<open>Decimal_Add\<close>, \<open>Decimal_Sub\<close>, \<open>Decimal_Mul\<close>: the arithmetic, comparison and
    hashing; results are exact unless they are marked as truncated or overflowing, and comparison is
    the order of the values, a negative zero being below zero. Multiplication is exact when one
    operand has at most three words; with four on both sides it may panic. \<open>Decimal_Int\<close>: integers from and to decimals, with clamping.
    \<open>Decimal_Round\<close>: rounding, floor, ceiling, \<open>convert_to\<close>. \<open>Decimal_Shift\<close>,
    \<open>Decimal_Shift_Correct\<close>: multiplication by powers of ten. \<open>Decimal_Div\<close>: long division and
    remainder, with the exact condition for \<open>None\<close>. \<open>Decimal_Div_Guess\<close> shows that the guess of a
    quotient word is at most one too large after its two corrections, \<open>Decimal_Div_Step\<close> that
    multiplying, subtracting and adding back leaves quotient word and remainder, \<open>Decimal_Div_Loop\<close>
    that the loop divides, \<open>Decimal_Div_Setup\<close> relates words and digits of the operands to the words of
    the quotient; \<open>Decimal_Div_Correct\<close> and \<open>Decimal_Rem_Correct\<close> conclude that quotient and remainder
    are exact, and where they are not.
  \<^item> \<open>Parse_Int\<close>, \<open>Decimal_Text\<close>, \<open>Decimal_Text_Correct\<close>: number texts; the parser reads the number a
    text denotes, with or without an exponent, the printer writes the value, and printing then parsing gives it back.
  \<^item> \<open>Decimal_Codec\<close>, \<open>Decimal_Codec_Correct\<close>, \<open>Decimal_Codec_Roundtrip\<close>: the comparable byte
    encoding; decoding inverts encoding and the bytes of two encodings compare as the numbers do.
  \<^item> \<open>Field_Type\<close> (\<open>field_type.rs\<close>, \<open>eval_type.rs\<close>): type codes, flags, collations and the accessor
    trait as a locale, interpreted by both of its implementations.
  \<^item> \<open>Convert\<close>, \<open>Convert_Correct\<close> (\<open>convert.rs\<close>, \<open>charset.rs\<close>): the casts; integers are clamped to the
    column type, strings are cut at whole characters, integer texts are rounded correctly.
  \<^item> \<open>Duration\<close>, \<open>Duration_Correct\<close> (\<open>duration.rs\<close>): every producible duration is in range,
    the text reads back, the decimal of a duration is exact.
  \<^item> \<open>Binary_Literal\<close> (\<open>binary_literal.rs\<close>): bit texts read back, literals are ordered as numbers.
  \<^item> \<open>Overflow\<close> (\<open>overflow.rs\<close>): the three integer divisions are exact or report an error.
  \<^item> \<open>Json\<close> (\<open>mod.rs\<close>, \<open>binary.rs\<close>, \<open>constants.rs\<close>, \<open>jcodec.rs\<close>, \<open>json_extract.rs\<close>, \<open>json_length.rs\<close>,
    \<open>json_depth.rs\<close>, \<open>json_type.rs\<close>, \<open>json_keys.rs\<close>): references into documents, accessors, binary search,
    object writer, selection by a path. \<open>Json_Layout\<close>: the documented layout as a function, the laws
    of the parameters, what reading an entry of a layout returns. \<open>Json_Correct\<close>: documents as trees
    (\<open>doc\<close>), their encoding \<open>enc\<close>, elements, keys and the search on encodings. \<open>Json_Query\<close>: selection,
    length, depth, and the object writer writes the layout. \<open>Json_Env\<close>: a concrete instance of the
    parameters and the properties of the read operations.
  \<^item> \<open>Json_Modify\<close> (\<open>modifier.rs\<close>, \<open>json_modify.rs\<close>, \<open>json_remove.rs\<close>): the modifier. \<open>Json_Modify_Correct\<close>:
    different nodes have different addresses, and rebuilding around a node is the encoding of the
    tree with the node replaced. \<open>Json_Change\<close>: the SQL functions refine the operations on trees.
  \<^item> \<open>Json_Merge\<close> (\<open>json_merge.rs\<close>): JSON_MERGE with the map of the members. \<open>Json_Merge_Doc\<close>: the documented
    merge of trees, the laws of the map, and a bound on the size of the result. \<open>Json_Merge_Correct\<close>:
    the code refines the merge of trees.
  \<^item> \<open>Float64\<close>: the binary64 numbers as rationals, with rounding to nearest, used by \<open>Json_Compare\<close>
    (\<open>comparison.rs\<close>), the comparison of documents. \<open>Json_Compare_Correct\<close>: on encodings it is the
    comparison of the trees; it is reflexive and changes with its sides, but it has cycles.
  \<^item> \<open>Json_Unquote\<close> (\<open>json_unquote.rs\<close>), \<open>Json_Unquote_Correct\<close>: unquoting returns the string that a text
    writes with escape sequences, by an inductive grammar of such texts.

  \<^bold>\<open>Parameters.\<close> Code outside the repository is an argument: the function \<open>escape\<close> that formats two
  error texts; the time zone; the record \<open>dur_env\<close> with the precision check, the character parsers
  of \<open>nom\<close>, the date-time reader and the number codec, whose laws are \<open>env_ok\<close> and are met by the
  concrete \<open>std_env\<close>; the record \<open>json_env\<close> with the little-endian and variable-length number codec, the
  numbers of the JSON types and the three writers that are not in the repository, with the laws
  \<open>json_env_ok\<close> (their documented formats) met by \<open>std_json_env\<close>; the writer of a map \<open>wobj\<close> that JSON_MERGE calls, which
  by \<open>obj_writer_ok\<close> writes what the writer of key-value pairs in \<open>jcodec.rs\<close> writes, as the note above
  \<open>from_object\<close> in \<open>mod.rs\<close> says; \<open>dec64\<close>, the reading of the eight bytes of a floating point number, with
  the law \<open>dec64_ok\<close> met by \<open>std_dec64\<close>; \<open>shown\<close>, the printer of documents that unquoting calls; \<open>float_str_to_int_string\<close>, whose body has no result in the source.

  Three things that the files use are neither in the repository nor parameters: the table \<open>TEN_POW\<close> of
  the powers of ten, and the generated protocol messages \<open>FieldType\<close> and \<open>ColumnInfo\<close>, which are
  records of the fields whose getters and setters \<open>field_type.rs\<close> calls. A binary literal is a list of
  bytes of any length, as the code builds it, while its struct declares an array of eight. The
  counter of the warnings is a natural number.

  \<^bold>\<open>Not modelled.\<close> Conversions from and to floating point numbers. The path parser, which is a regular expression of another crate. Functions whose bodies refer to
  names that do not exist or call themselves without end, each listed with its component in the
  manifest. The storage engine, server, transaction and configuration crates, which are glue around
  interfaces that are not in the repository.
\<close>

end
